(* ===== verification/Vmm_Error.thy ===== *)
theory Vmm_Error
  imports Prelude
begin

text \<open>
  The error values of the VMM crate: \<open>Error\<close> of \<open>src/src/vmm/src/error.rs\<close>, the chipset's
  \<open>BusKind\<close> and \<open>Conflict\<close> that \<open>Error::ChipsetConflicts\<close> carries, and the events of
  \<open>src/src/vmm/src/events.rs\<close> that carry an error to the thread owning the VM. An I/O error is
  represented by its \<open>std::io::ErrorKind\<close>; a path is a string.
\<close>

datatype error_kind =
  InvalidInput | InvalidData | WouldBlock | Interrupted | NotConnected | WriteZero
  | UnexpectedEof | TimedOut | OutOfMemory | AlreadyExists | NotFound | OtherKind

text \<open>
  The errors of the hypervisor crate, \<open>Error\<close> of \<open>src/src/hypervisor/src/error.rs\<close>.
\<close>

datatype hypervisor_error =
  CreateVm error_kind
  | MapMemory u64 u64 error_kind
  | UnmapMemory u64 u64 error_kind
  | CreateVcpu u32 error_kind
  | ConfigureVcpu u32 string error_kind
  | RunVcpu u32 error_kind
  | CompletePendingIo u32 error_kind
  | KickVcpu u32 error_kind
  | SetIrqLine u32 error_kind
  | UnhandledExit u32 string

datatype bus_kind = Mmio | Pio

datatype conflict =
  RangeTaken bus_kind string u64 u64 string
  | InvalidRange bus_kind string u64 u64
  | LineTaken u32 string string

datatype vmm_error =
  InvalidVcpuCount u8
  | InvalidMemorySize u32
  | AllocateMemory u64 error_kind
  | Hypervisor hypervisor_error
  | InvalidCommandLine string
  | InvalidDiskCount nat
  | OpenDisk string error_kind
  | VirtioSlotsExhausted
  | ChipsetConflicts "conflict list"
  | LineNotArmed u32
  | VirtioDevice string string
  | VirtioWorker error_kind
  | LoadKernel string error_kind
  | LoadInitramfs string error_kind
  | WriteBootData string error_kind
  | EventLoop error_kind
  | CreateBalloon error_kind
  | SpawnConsole error_kind
  | SpawnVcpu u32 error_kind
  | UnexpectedExit u32 string
  | VcpuPanicked u32
  | AlreadyRan

datatype event =
  StopRequested
  | GuestReset
  | GuestShutdown
  | VcpuFailed vmm_error
  | DeviceFailed vmm_error

end
