(* ===== verification/Irq.thy ===== *)
theory Irq
  imports Vmm_Error
begin

text \<open>
  Model of \<open>src/src/vmm/src/irq.rs\<close> and of \<open>ArmableIrqChip\<close> in \<open>src/src/vmm/src/chipset.rs\<close>:
  one device interrupt line over the host's interrupt controller. The controller is host code,
  so its \<open>set_line\<close> call is the parameter \<open>set_line\<close>: it maps the controller's state, a line
  and a level to the new state and a result.
\<close>

type_synonym 'c set_line = "'c \<Rightarrow> u32 \<Rightarrow> bool \<Rightarrow> 'c \<times> (vmm_error + unit)"

record irq_line =
  line_no :: u32
  line_high :: bool

definition IrqLine_new :: "u32 \<Rightarrow> irq_line" where
  "IrqLine_new n = \<lparr>line_no = n, line_high = False\<rparr>"

definition IrqLine_set_level :: "'c set_line \<Rightarrow> 'c \<Rightarrow> irq_line \<Rightarrow> bool \<Rightarrow>
    'c \<times> irq_line \<times> (vmm_error + unit)" where
  "IrqLine_set_level set_line c l level =
     (let before = line_high l; l = l\<lparr>line_high := level\<rparr> in
      if before = level then (c, l, Inr ())
      else case set_line c (line_no l) level of
        (c, Inl e) \<Rightarrow> (c, l\<lparr>line_high := before\<rparr>, Inl e)
      | (c, Inr _) \<Rightarrow> (c, l, Inr ()))"

text \<open>The pulse's prelude: a line a failed clear left high is lowered first.\<close>

definition pulse_lower :: "'c set_line \<Rightarrow> 'c \<Rightarrow> irq_line \<Rightarrow> 'c \<times> irq_line \<times> (vmm_error + unit)" where
  "pulse_lower set_line c l =
     (if line_high l then
        case set_line c (line_no l) False of
          (c, Inl e) \<Rightarrow> (c, l, Inl e)
        | (c, Inr _) \<Rightarrow> (c, l\<lparr>line_high := False\<rparr>, Inr ())
      else (c, l, Inr ()))"

definition IrqLine_pulse :: "'c set_line \<Rightarrow> 'c \<Rightarrow> irq_line \<Rightarrow>
    'c \<times> irq_line \<times> (vmm_error + unit)" where
  "IrqLine_pulse set_line c l =
     (case pulse_lower set_line c l of
        (c, l, Inl e) \<Rightarrow> (c, l, Inl e)
      | (c, l, Inr _) \<Rightarrow>
          (case set_line c (line_no l) True of
             (c, Inl e) \<Rightarrow> (c, l, Inl e)
           | (c, Inr _) \<Rightarrow>
               (let l = l\<lparr>line_high := True\<rparr> in
                case set_line c (line_no l) False of
                  (c, Inl e) \<Rightarrow> (c, l, Inl e)
                | (c, Inr _) \<Rightarrow> (c, l\<lparr>line_high := False\<rparr>, Inr ()))))"

definition IrqLine_drop :: "'c set_line \<Rightarrow> 'c \<Rightarrow> irq_line \<Rightarrow> 'c" where
  "IrqLine_drop set_line c l =
     (if line_high l then fst (set_line c (line_no l) False) else c)"

definition ArmableIrqChip_set_line :: "bool \<Rightarrow> 'c set_line \<Rightarrow> 'c set_line" where
  "ArmableIrqChip_set_line armed host c line level =
     (if \<not> armed then (c, Inl (LineNotArmed line)) else host c line level)"

section \<open>Agreement of the recorded and the host level\<close>

text \<open>
  What the code relies on of the controller: a call that succeeds sets that one line, and a call
  that fails leaves every line as it was. \<open>level c n\<close> is the level of line \<open>n\<close>, \<open>edges c n\<close> the
  number of rising edges the controller has seen on it.
\<close>

definition irq_chip_law :: "'c set_line \<Rightarrow> ('c \<Rightarrow> u32 \<Rightarrow> bool) \<Rightarrow> ('c \<Rightarrow> u32 \<Rightarrow> nat) \<Rightarrow> bool" where
  "irq_chip_law set_line level edges \<longleftrightarrow>
     (\<forall>c n v c' r. set_line c n v = (c', r) \<longrightarrow>
        (case r of
           Inl _ \<Rightarrow> level c' = level c \<and> edges c' = edges c
         | Inr _ \<Rightarrow> level c' = (level c)(n := v) \<and>
             edges c' = (if v \<and> \<not> level c n then (edges c)(n := Suc (edges c n)) else edges c)))"

definition line_agrees :: "('c \<Rightarrow> u32 \<Rightarrow> bool) \<Rightarrow> 'c \<Rightarrow> irq_line \<Rightarrow> bool" where
  "line_agrees level c l \<longleftrightarrow> level c (line_no l) = line_high l"

lemma chip_ok:
  assumes law: "irq_chip_law set_line level edges" and s: "set_line c n v = (c', Inr u)"
  shows "level c' = (level c)(n := v) \<and>
    edges c' = (if v \<and> \<not> level c n then (edges c)(n := Suc (edges c n)) else edges c)"
  using law[unfolded irq_chip_law_def, rule_format, OF s] by simp

lemma chip_err:
  assumes law: "irq_chip_law set_line level edges" and s: "set_line c n v = (c', Inl e)"
  shows "level c' = level c \<and> edges c' = edges c"
  using law[unfolded irq_chip_law_def, rule_format, OF s] by simp

lemma armable_law:
  assumes "irq_chip_law host level edges"
  shows "irq_chip_law (ArmableIrqChip_set_line armed host) level edges"
  using assms by (auto simp: irq_chip_law_def ArmableIrqChip_set_line_def split: if_splits)

lemma set_level_agrees:
  assumes law: "irq_chip_law set_line level edges" and ag: "line_agrees level c l"
    and st: "IrqLine_set_level set_line c l v = (c', l', r)"
  shows "line_agrees level c' l' \<and> line_no l' = line_no l \<and> (is_ok r \<longrightarrow> line_high l' = v)"
proof (cases "line_high l = v")
  case True
  then show ?thesis using ag st by (auto simp: IrqLine_set_level_def line_agrees_def)
next
  case False
  then show ?thesis
    using st ag chip_ok[OF law, of c "line_no l" v] chip_err[OF law, of c "line_no l" v]
    by (auto simp: IrqLine_set_level_def line_agrees_def Let_def split: prod.splits sum.splits)
qed

lemma pulse_lower_agrees:
  assumes law: "irq_chip_law set_line level edges" and ag: "line_agrees level c l"
    and st: "pulse_lower set_line c l = (c', l', r)"
  shows "line_agrees level c' l' \<and> line_no l' = line_no l \<and> edges c' = edges c \<and>
    (is_ok r \<longrightarrow> \<not> line_high l')"
  using st ag chip_ok[OF law, of c "line_no l" False] chip_err[OF law, of c "line_no l" False]
  by (auto simp: pulse_lower_def line_agrees_def split: if_splits prod.splits sum.splits)

text \<open>
  Pulsing a line keeps the recorded level equal to the host's level whatever calls fail, and
  a pulse that succeeds leaves the line low after exactly one rising edge on it, even when an
  earlier failed clear had left it high.
\<close>

theorem pulse_makes_one_edge:
  assumes law: "irq_chip_law set_line level edges" and ag: "line_agrees level c l"
    and st: "IrqLine_pulse set_line c l = (c', l', r)"
  shows "line_agrees level c' l' \<and> line_no l' = line_no l \<and>
    (is_ok r \<longrightarrow> \<not> line_high l' \<and> edges c' = (edges c)(line_no l := Suc (edges c (line_no l))))"
proof -
  obtain c1 l1 r1 where low: "pulse_lower set_line c l = (c1, l1, r1)"
    by (cases "pulse_lower set_line c l") auto
  note low' = pulse_lower_agrees[OF law ag low]
  show ?thesis
  proof (cases r1)
    case (Inl e)
    then show ?thesis using st low low' by (auto simp: IrqLine_pulse_def)
  next
    case (Inr u)
    obtain c2 r2 where up: "set_line c1 (line_no l1) True = (c2, r2)"
      by (cases "set_line c1 (line_no l1) True") auto
    obtain c3 r3 where dn: "set_line c2 (line_no l1) False = (c3, r3)"
      by (cases "set_line c2 (line_no l1) False") auto
    show ?thesis
      using st low low' Inr up dn
        chip_ok[OF law, of c1 "line_no l1" True c2] chip_err[OF law, of c1 "line_no l1" True c2]
        chip_ok[OF law, of c2 "line_no l1" False c3] chip_err[OF law, of c2 "line_no l1" False c3]
      by (cases r2; cases r3) (auto simp: IrqLine_pulse_def line_agrees_def)
  qed
qed

text \<open>A controller with one bit and one counter per line, for the concrete instance.\<close>

definition level_chip :: "((u32 \<Rightarrow> bool) \<times> (u32 \<Rightarrow> nat)) set_line" where
  "level_chip c n v =
     (((fst c)(n := v), if v \<and> \<not> fst c n then (snd c)(n := Suc (snd c n)) else snd c), Inr ())"

lemma level_chip_law: "irq_chip_law level_chip fst snd"
  by (auto simp: irq_chip_law_def level_chip_def)

theorem pulse_makes_one_edge_witness:
  "\<exists>c' l' r. IrqLine_pulse level_chip ((\<lambda>n. n = 4), \<lambda>n. 0) \<lparr>line_no = 4, line_high = True\<rparr> = (c', l', r) \<and>
     is_ok r \<and> \<not> line_high l' \<and> snd c' 4 = 1"
proof -
  let ?c = "((\<lambda>n. n = (4::u32)), \<lambda>n. 0::nat)" and ?l = "\<lparr>line_no = 4, line_high = True\<rparr>"
  obtain c' l' r where p: "IrqLine_pulse level_chip ?c ?l = (c', l', r)"
    by (cases "IrqLine_pulse level_chip ?c ?l") auto
  have ok: "is_ok r"
    using p by (auto simp: IrqLine_pulse_def pulse_lower_def level_chip_def)
  have "line_agrees fst ?c ?l" by (simp add: line_agrees_def)
  from pulse_makes_one_edge[OF level_chip_law this p] ok p show ?thesis by auto
qed

end
