(* ===== verification/Virtio.thy ===== *)
theory Virtio
  imports Irq
begin

text \<open>
  The virtio device contract of \<open>src/src/vmm/src/virtio/mod.rs\<close>: its data types and constants,
  the \<open>VirtioDevice\<close> trait as the record \<open>virtio_device\<close> of its methods, the \<open>WorkerControl\<close>
  trait as the record \<open>worker_control\<close>; and the interrupt and status handle
  \<open>MmioInterrupt\<close> of \<open>src/src/vmm/src/virtio/interrupt.rs\<close>.

  A method that changes the device returns the changed device with its result. Activation and
  reset also take and return the worker slot, because a device registers its background sources
  with the slot when it is activated and removes them when it is reset. No device of the crate
  touches the interrupt handle in a method the transport calls, so those methods do not take it.
\<close>

section \<open>Data\<close>

datatype device_error =
  Unsupported string
  | NeedsReset string
  | Fatal string

datatype device_event = QueueKick u16 | BackendReady u32

datatype event_error = Closed | Register error_kind

datatype snapshot_support = SnapshotUnsupported | SnapshotStopped

record device_spec =
  device_id :: u32
  spec_name :: string
  spec_features :: u64
  config_len :: nat
  queue_max :: "u16 list"
  snapshot :: snapshot_support

definition MAX_QUEUES :: nat where "MAX_QUEUES = 16"
definition MAX_CONFIG_LEN :: nat where "MAX_CONFIG_LEN = 0xF00"
definition NEEDS_RESET :: u8 where "NEEDS_RESET = 0x40"

record ('d, 'w, 'ctx) virtio_device =
  vd_spec :: "'d \<Rightarrow> device_spec"
  vd_set_features :: "'d \<Rightarrow> u64 \<Rightarrow> 'd \<times> (u64 + unit)"
  vd_read_config :: "'d \<Rightarrow> u64 \<Rightarrow> u8 list \<Rightarrow> 'd \<times> u8 list \<times> (device_error + unit)"
  vd_write_config :: "'d \<Rightarrow> u64 \<Rightarrow> u8 list \<Rightarrow> 'd \<times> (device_error + unit)"
  vd_activate :: "'d \<Rightarrow> 'ctx \<Rightarrow> 'w \<Rightarrow> 'd \<times> 'w \<times> (device_error + unit)"
  vd_reset :: "'d \<Rightarrow> 'w \<Rightarrow> 'd \<times> 'w \<times> (device_error + unit)"

record ('w, 'g) worker_control =
  wc_prepare :: "'w \<Rightarrow> 'w \<times> (device_error + 'g)"
  wc_start :: "'w \<Rightarrow> 'w \<times> (device_error + unit)"
  wc_kick :: "'w \<Rightarrow> u16 \<Rightarrow> 'w"
  wc_stop :: "'w \<Rightarrow> 'w \<times> (device_error + unit)"
  wc_cancel_prepare :: "'w \<Rightarrow> 'w"

text \<open>
  What a transport relies on of its worker slot: \<open>quiet\<close> says that no generation is open and no event
  is being handled; \<open>unstarted\<close> that no generation was started since; \<open>sane\<close> is what every operation
  keeps. Stopping successfully and cancelling a preparation make the slot quiet, and a failed start has
  started nothing. A stop that fails promises only that the slot stays sane.
\<close>

locale worker_typestate =
  fixes wc :: "('w, 'g) worker_control"
    and quiet :: "'w \<Rightarrow> bool"
    and unstarted :: "'w \<Rightarrow> bool"
    and sane :: "'w \<Rightarrow> bool"
  assumes quiet_unstarted: "quiet w \<Longrightarrow> unstarted w"
    and unstarted_sane: "unstarted w \<Longrightarrow> sane w"
    and prepare_ok: "quiet w \<Longrightarrow> wc_prepare wc w = (w', Inr g) \<Longrightarrow> unstarted w'"
    and prepare_err: "quiet w \<Longrightarrow> wc_prepare wc w = (w', Inl e) \<Longrightarrow> quiet w'"
    and start_err: "unstarted w \<Longrightarrow> wc_start wc w = (w', Inl e) \<Longrightarrow> unstarted w'"
    and cancel_quiet: "unstarted w \<Longrightarrow> quiet (wc_cancel_prepare wc w)"
    and start_ok: "unstarted w \<Longrightarrow> wc_start wc w = (w', Inr u) \<Longrightarrow> sane w'"
    and kick_sane: "sane w \<Longrightarrow> sane (wc_kick wc w i)"
    and stop_quiet: "sane w \<Longrightarrow> wc_stop wc w = (w', Inr u) \<Longrightarrow> quiet w'"
    and stop_err: "sane w \<Longrightarrow> wc_stop wc w = (w', Inl e) \<Longrightarrow> sane w'"

section \<open>The interrupt handle\<close>

definition USED :: u8 where "USED = 0x1"
definition CONFIG :: u8 where "CONFIG = 0x2"

record 'c mmio_interrupt =
  int_chip :: 'c
  int_line :: irq_line
  int_status :: u8
  dev_status :: u8
  config_gen :: u8

definition MmioInterrupt_new :: "'c \<Rightarrow> irq_line \<Rightarrow> 'c mmio_interrupt" where
  "MmioInterrupt_new c l =
     \<lparr>int_chip = c, int_line = l, int_status = 0, dev_status = 0, config_gen = 0\<rparr>"

definition MmioInterrupt_reset :: "'c mmio_interrupt \<Rightarrow> 'c mmio_interrupt" where
  "MmioInterrupt_reset i = i\<lparr>int_status := 0, dev_status := 0\<rparr>"

definition MmioInterrupt_pulse :: "'c set_line \<Rightarrow> 'c mmio_interrupt \<Rightarrow> 'c mmio_interrupt" where
  "MmioInterrupt_pulse sl i =
     (let (c, l, _) = IrqLine_pulse sl (int_chip i) (int_line i) in i\<lparr>int_chip := c, int_line := l\<rparr>)"

definition MmioInterrupt_raise :: "'c set_line \<Rightarrow> 'c mmio_interrupt \<Rightarrow> 'c mmio_interrupt" where
  "MmioInterrupt_raise sl i = MmioInterrupt_pulse sl (i\<lparr>int_status := int_status i OR USED\<rparr>)"

definition ack_interrupt :: "'c set_line \<Rightarrow> u8 \<Rightarrow> 'c mmio_interrupt \<Rightarrow> 'c mmio_interrupt" where
  "ack_interrupt sl bits i =
     (let previous = int_status i; i = i\<lparr>int_status := int_status i AND NOT bits\<rparr> in
      if previous AND NOT bits \<noteq> 0 then MmioInterrupt_pulse sl i else i)"

definition raise_config :: "'c set_line \<Rightarrow> 'c mmio_interrupt \<Rightarrow> 'c mmio_interrupt" where
  "raise_config sl i =
     MmioInterrupt_pulse sl
       (i\<lparr>config_gen := config_gen i + 1, int_status := int_status i OR CONFIG\<rparr>)"

definition set_device_status :: "u8 \<Rightarrow> 'c mmio_interrupt \<Rightarrow> 'c mmio_interrupt" where
  "set_device_status status i = i\<lparr>dev_status := status\<rparr>"

definition set_needs_reset :: "'c mmio_interrupt \<Rightarrow> 'c mmio_interrupt" where
  "set_needs_reset i = i\<lparr>dev_status := dev_status i OR NEEDS_RESET\<rparr>"

text \<open>
  \<open>update_device_status\<close> is a compare-exchange loop that other threads may run into. \<open>env\<close> is what
  they do: before each attempt the register changes by the next function of the list, and the
  flag says whether the weak exchange then fails spuriously. Once the list is empty nobody else
  writes. \<open>current\<close> is the value the loop last saw, \<open>reg\<close> the register.
\<close>

function update_status_loop ::
    "((u8 \<Rightarrow> u8) \<times> bool) list \<Rightarrow> u8 \<Rightarrow> u8 \<Rightarrow> u8 \<Rightarrow> u8 \<Rightarrow> u8" where
  "update_status_loop env bits blocked current reg =
     (if current AND blocked \<noteq> 0 then fold fst env reg
      else case env of
        (f, spurious) # env \<Rightarrow>
          (if f reg = current \<and> \<not> spurious then fold fst env (f reg OR bits)
           else update_status_loop env bits blocked (f reg) (f reg))
      | [] \<Rightarrow>
          (if reg = current then reg OR bits
           else update_status_loop [] bits blocked reg reg))"
  by pat_completeness auto
termination
  by (relation "measures [\<lambda>(env, bits, blocked, current, reg). length env,
        \<lambda>(env, bits, blocked, current, reg). if reg = current then 0 else 1]") auto

declare update_status_loop.simps [simp del]

definition update_device_status :: "u8 \<Rightarrow> u8 \<Rightarrow> 'c mmio_interrupt \<Rightarrow> 'c mmio_interrupt" where
  "update_device_status bits blocked i =
     i\<lparr>dev_status := update_status_loop [] bits blocked (dev_status i) (dev_status i)\<rparr>"

lemma update_device_status_alone:
  "update_device_status bits blocked i =
     i\<lparr>dev_status := (if dev_status i AND blocked \<noteq> 0 then dev_status i else dev_status i OR bits)\<rparr>"
  by (simp add: update_device_status_def update_status_loop.simps[of "[]"])

subsection \<open>Facts about the handle\<close>

lemma pulse_fields [simp]:
  "int_status (MmioInterrupt_pulse sl i) = int_status i"
  "dev_status (MmioInterrupt_pulse sl i) = dev_status i"
  "config_gen (MmioInterrupt_pulse sl i) = config_gen i"
  by (auto simp: MmioInterrupt_pulse_def split: prod.splits)

lemma dev_status_ops [simp]:
  "dev_status (MmioInterrupt_raise sl i) = dev_status i"
  "dev_status (ack_interrupt sl bits i) = dev_status i"
  "dev_status (raise_config sl i) = dev_status i"
  "dev_status (set_device_status st i) = st"
  "dev_status (set_needs_reset i) = dev_status i OR NEEDS_RESET"
  "dev_status (MmioInterrupt_reset i) = 0"
  by (simp_all add: MmioInterrupt_raise_def ack_interrupt_def raise_config_def set_device_status_def
      set_needs_reset_def MmioInterrupt_reset_def Let_def)

text \<open>Bits of a register as a set-like order: \<open>a\<close> has every bit of \<open>b\<close>.\<close>

abbreviation has_bits :: "'a::len word \<Rightarrow> 'a word \<Rightarrow> bool" where
  "has_bits a b \<equiv> a AND b = b"

lemma has_bits_or: "has_bits a b \<Longrightarrow> has_bits (a OR c) b"
  by (auto simp: bit_eq_iff bit_and_iff bit_or_iff)

lemma fold_or_bits:
  assumes "\<And>f s r. (f, s) \<in> set env \<Longrightarrow> has_bits r b \<Longrightarrow> has_bits (f r) b" "has_bits reg b"
  shows "has_bits (fold fst env reg) b"
  using assms
proof (induction env arbitrary: reg)
  case Nil
  then show ?case by simp
next
  case (Cons x env)
  obtain f s where x: "x = (f, s)" by (cases x)
  have "has_bits (fold fst env (f reg)) b"
    by (rule Cons.IH) (use Cons.prems x in auto)
  then show ?case using x by simp
qed

lemma update_status_loop_Nil:
  "update_status_loop [] bits blocked current reg =
     (if current AND blocked \<noteq> 0 then reg
      else if reg = current then reg OR bits
      else if reg AND blocked \<noteq> 0 then reg else reg OR bits)"
  by (simp add: update_status_loop.simps[of "[]"])

lemma update_status_loop_Cons:
  "update_status_loop ((f, s) # env) bits blocked current reg =
     (if current AND blocked \<noteq> 0 then fold fst env (f reg)
      else if f reg = current \<and> \<not> s then fold fst env (f reg OR bits)
      else update_status_loop env bits blocked (f reg) (f reg))"
  by (subst update_status_loop.simps) simp

lemma update_status_loop_cases:
  assumes "P (fold fst env (f reg))" "P (fold fst env (f reg OR bits))"
    "P (update_status_loop env bits blocked (f reg) (f reg))"
  shows "P (update_status_loop ((f, s) # env) bits blocked current reg)"
  unfolding update_status_loop_Cons using assms by presburger

lemma update_status_loop_keeps:
  assumes "\<And>f s r. (f, s) \<in> set env \<Longrightarrow> has_bits r b \<Longrightarrow> has_bits (f r) b" "has_bits reg b"
  shows "has_bits (update_status_loop env bits blocked current reg) b"
  using assms
proof (induction env arbitrary: current reg)
  case Nil
  then show ?case using has_bits_or[of reg b bits] by (auto simp: update_status_loop_Nil)
next
  case (Cons x env)
  obtain f s where x: "x = (f, s)" by (cases x)
  have keep: "has_bits (f reg) b" using Cons.prems x by auto
  have rest: "has_bits (g r) b" if "(g, t) \<in> set env" "has_bits r b" for g t r
    using Cons.prems(1) that by auto
  have "has_bits (update_status_loop env bits blocked (f reg) (f reg)) b"
    using Cons.IH rest keep by blast
  then show ?case
    unfolding x
    by (intro update_status_loop_cases[where P = "\<lambda>r. has_bits r b"] fold_or_bits)
      (use rest keep in \<open>auto intro: has_bits_or\<close>)
qed

text \<open>
  A driver's status write can never lose a bit another thread sets while the compare-exchange
  loop runs: if the other writers keep bit pattern \<open>b\<close> once it is set, and it is set at the
  start or one of them sets it while the loop is still trying, the final register has it,
  whatever the interleaving and however often the exchange fails spuriously.
\<close>

theorem status_write_loses_no_bit:
  assumes keep: "\<And>f s r. (f, s) \<in> set (env @ (g, s0) # env') \<Longrightarrow> has_bits r b \<Longrightarrow> has_bits (f r) b"
    and sets: "\<And>r. has_bits (g r) b"
  shows "has_bits (update_status_loop (env @ (g, s0) # env') bits blocked current reg) b"
  using keep
proof (induction env arbitrary: current reg)
  case Nil
  have rest: "has_bits (f r) b" if "(f, s) \<in> set env'" "has_bits r b" for f s r
    using Nil that by auto
  have "has_bits (update_status_loop env' bits blocked (g reg) (g reg)) b"
    using update_status_loop_keeps[of env' b "g reg"] rest sets by blast
  then show ?case
    unfolding append_Nil
    by (intro update_status_loop_cases[where P = "\<lambda>r. has_bits r b"] fold_or_bits)
      (use rest sets in \<open>auto intro: has_bits_or\<close>)
next
  case (Cons x env)
  obtain f s where x: "x = (f, s)" by (cases x)
  have IH: "has_bits (update_status_loop (env @ (g, s0) # env') bits blocked c r) b" for c r
    by (rule Cons.IH) (use Cons.prems in auto)
  have fold: "has_bits (fold fst (env @ (g, s0) # env') r) b" for r
  proof -
    have "has_bits (fold fst env' (g (fold fst env r))) b"
      by (rule fold_or_bits) (use Cons.prems sets in auto)
    then show ?thesis by simp
  qed
  show ?case
    unfolding x append_Cons
    by (rule update_status_loop_cases[where P = "\<lambda>r. has_bits r b"]) (rule fold IH)+
qed

theorem status_write_loses_no_bit_witness:
  "has_bits (update_status_loop
     ([(\<lambda>r. r OR 1, True)] @ (\<lambda>r. r OR NEEDS_RESET, False) # [(\<lambda>r. r, False)]) 4 0xC0 8 8) NEEDS_RESET"
proof (rule status_write_loses_no_bit)
  show "has_bits (f r) NEEDS_RESET"
    if "(f, s) \<in> set ([(\<lambda>r. r OR 1, True)] @ (\<lambda>r. r OR NEEDS_RESET, False) # [(\<lambda>r. r, False)])"
      "has_bits r NEEDS_RESET" for f s and r :: u8
    using that by (auto simp: has_bits_or)
  show "has_bits (r OR NEEDS_RESET) NEEDS_RESET" for r
    by (metis has_bits_or word_bw_comms(2) word_bw_same(1))
qed

end
