(* ===== verification/Virt_Queues.thy ===== *)
theory Virt_Queues
  imports Virtio "HOL-Library.Multiset"
begin

text \<open>
  The virtqueue facade of \<open>src/src/vmm/src/virtio/queue.rs\<close>: \<open>prepare\<close>, \<open>drain\<close>, \<open>complete\<close> and the
  bookkeeping of deferred descriptor heads.

  The ring itself is \<open>virtio_queue::Queue\<close>, an external crate, and the guest memory is
  \<open>vm_memory\<close>'s: both are parameters, the operations of the record \<open>queue_ops\<close>. Every operation
  that touches guest memory returns the memory too, so a driver that writes its rings while the
  device drains them is an instance. \<open>queue_law\<close> states what the facade relies on: which
  operation takes a chain off the available ring and which adds a used entry.
\<close>

section \<open>The external queue\<close>

record ('q, 'm, 'chain, 'desc) queue_ops =
  q_max_size :: "'q \<Rightarrow> u16"
  q_ready :: "'q \<Rightarrow> bool"
  q_size :: "'q \<Rightarrow> u16"
  q_desc_table :: "'q \<Rightarrow> u64"
  q_avail_ring :: "'q \<Rightarrow> u64"
  q_used_ring :: "'q \<Rightarrow> u64"
  q_is_valid :: "'q \<Rightarrow> 'm \<Rightarrow> bool"
  q_set_event_idx :: "bool \<Rightarrow> 'q \<Rightarrow> 'q"
  q_disable_notification :: "'q \<Rightarrow> 'm \<Rightarrow> 'q \<times> 'm \<times> (unit + unit)"
  q_enable_notification :: "'q \<Rightarrow> 'm \<Rightarrow> 'q \<times> 'm \<times> (unit + bool)"
  q_iter_next :: "'q \<Rightarrow> 'm \<Rightarrow> 'q \<times> 'm \<times> (unit + 'chain option)"
  q_add_used :: "'q \<Rightarrow> 'm \<Rightarrow> u16 \<Rightarrow> u32 \<Rightarrow> 'q \<times> 'm \<times> (unit + unit)"
  q_needs_notification :: "'q \<Rightarrow> 'm \<Rightarrow> 'q \<times> 'm \<times> (unit + bool)"
  ch_head_index :: "'chain \<Rightarrow> u16"
  m_read_desc :: "'m \<Rightarrow> u64 \<Rightarrow> 'desc option"
  desc_indirect :: "'desc \<Rightarrow> bool"
  desc_has_next :: "'desc \<Rightarrow> bool"
  desc_next :: "'desc \<Rightarrow> u16"

section \<open>Errors and completions\<close>

definition VIRTIO_F_INDIRECT_DESC :: u64 where "VIRTIO_F_INDIRECT_DESC = push_bit 28 1"
definition VIRTIO_F_EVENT_IDX :: u64 where "VIRTIO_F_EVENT_IDX = push_bit 29 1"
definition DEFERRED_CHAIN :: string where "DEFERRED_CHAIN = ''virtio deferred chain''"

datatype queue_error =
  MaxSize u16 u16
  | Count nat nat
  | InvalidQueue
  | OutsideMemory

fun QueueError_reason :: "queue_error \<Rightarrow> string" where
  "QueueError_reason (MaxSize _ _) = ''virtio queue maximum size''"
| "QueueError_reason (Count _ _) = ''virtio queue count''"
| "QueueError_reason InvalidQueue = ''virtio queue state''"
| "QueueError_reason OutsideMemory = ''virtio queue memory''"

definition DeviceError_of_queue :: "queue_error \<Rightarrow> device_error" where
  "DeviceError_of_queue e = NeedsReset (QueueError_reason e)"

datatype completion = Used u32 | Deferred

definition queue_error :: "unit + 'a \<Rightarrow> device_error + 'a" where
  "queue_error r = map_sum (\<lambda>_. NeedsReset ''virtio queue'') id r"

section \<open>The queue set\<close>

record ('q, 'm) virt_queues =
  vq_queues :: "'q list"
  vq_deferred :: "u16 list list"
  vq_memory :: 'm
  vq_indirect :: bool

definition check_queue :: "('q, 'm, 'chain, 'desc) queue_ops \<Rightarrow> 'm \<Rightarrow> 'q \<Rightarrow> u16 \<Rightarrow> queue_error + unit" where
  "check_queue ops m q max_size =
     (let actual = q_max_size ops q in
      if actual \<noteq> max_size then Inl (MaxSize max_size actual)
      else if q_ready ops q then
        (let qsize = q_size ops q in
         if qsize = 0 \<or> max_size < qsize \<or> \<not> is_power_of_two qsize then Inl InvalidQueue
         else if q_avail_ring ops q = 0 then Inl InvalidQueue
         else if \<not> q_is_valid ops q m then Inl OutsideMemory
         else Inr ())
      else Inr ())"

fun check_queues :: "('q, 'm, 'chain, 'desc) queue_ops \<Rightarrow> 'm \<Rightarrow> ('q \<times> u16) list \<Rightarrow> queue_error + unit" where
  "check_queues ops m [] = Inr ()"
| "check_queues ops m ((q, max_size) # rest) =
     (case check_queue ops m q max_size of Inl e \<Rightarrow> Inl e | Inr _ \<Rightarrow> check_queues ops m rest)"

definition VirtQueues_prepare ::
    "('q, 'm, 'chain, 'desc) queue_ops \<Rightarrow> 'q list \<Rightarrow> u16 list \<Rightarrow> bool \<Rightarrow> bool \<Rightarrow> 'm \<Rightarrow>
     queue_error + ('q, 'm) virt_queues" where
  "VirtQueues_prepare ops queues maxima event_idx indirect m =
     (if length queues \<noteq> length maxima then Inl (Count (length maxima) (length queues))
      else case check_queues ops m (zip queues maxima) of
        Inl e \<Rightarrow> Inl e
      | Inr _ \<Rightarrow> Inr \<lparr>vq_queues = map (q_set_event_idx ops event_idx) queues,
          vq_deferred = replicate (length queues) [], vq_memory = m, vq_indirect = indirect\<rparr>)"

definition VirtQueues_len :: "('q, 'm) virt_queues \<Rightarrow> nat" where
  "VirtQueues_len vq = length (vq_queues vq)"

definition get_at :: "'a list \<Rightarrow> nat \<Rightarrow> 'a option" where
  "get_at xs i = (if i < length xs then Some (xs ! i) else None)"

definition VirtQueues_is_ready ::
    "('q, 'm, 'chain, 'desc) queue_ops \<Rightarrow> ('q, 'm) virt_queues \<Rightarrow> nat \<Rightarrow> bool" where
  "VirtQueues_is_ready ops vq index =
     (case get_at (vq_queues vq) index of None \<Rightarrow> False | Some q \<Rightarrow> q_ready ops q)"

definition VirtQueues_max_size ::
    "('q, 'm, 'chain, 'desc) queue_ops \<Rightarrow> ('q, 'm) virt_queues \<Rightarrow> nat \<Rightarrow> u16 option" where
  "VirtQueues_max_size ops vq index = map_option (q_max_size ops) (get_at (vq_queues vq) index)"

definition control_ranges ::
    "('q, 'm, 'chain, 'desc) queue_ops \<Rightarrow> ('q, 'm) virt_queues \<Rightarrow> (u64 \<times> nat) list" where
  "control_ranges ops vq =
     concat (map (\<lambda>q. let qsize = unat (q_size ops q) in
         [(q_desc_table ops q, 16 * qsize), (q_avail_ring ops q, 6 + 2 * qsize),
          (q_used_ring ops q, 6 + 8 * qsize)])
       (filter (q_ready ops) (vq_queues vq)))"

section \<open>Scanning a chain for an indirect descriptor\<close>

definition fetch_desc ::
    "('q, 'm, 'chain, 'desc) queue_ops \<Rightarrow> 'm \<Rightarrow> u64 \<Rightarrow> u16 \<Rightarrow> u16 \<Rightarrow> 'desc option" where
  "fetch_desc ops m desc_table qsize index =
     (if qsize \<le> index then None
      else case checked_add desc_table (word_of_nat (unat index * 16)) of
        None \<Rightarrow> None
      | Some addr \<Rightarrow> m_read_desc ops m addr)"

text \<open>\<open>todo\<close> is \<open>size - seen\<close>: the loop stops when \<open>size\<close> descriptors were seen.\<close>

fun has_indirect_loop ::
    "('q, 'm, 'chain, 'desc) queue_ops \<Rightarrow> 'm \<Rightarrow> u64 \<Rightarrow> u16 \<Rightarrow> nat \<Rightarrow> u16 \<Rightarrow> device_error + bool" where
  "has_indirect_loop ops m desc_table qsize 0 index = Inl (NeedsReset ''virtio descriptor'')"
| "has_indirect_loop ops m desc_table qsize (Suc todo) index =
     (case fetch_desc ops m desc_table qsize index of
        None \<Rightarrow> Inl (NeedsReset ''virtio descriptor'')
      | Some d \<Rightarrow>
          if desc_indirect ops d then Inr True
          else if \<not> desc_has_next ops d then Inr False
          else has_indirect_loop ops m desc_table qsize todo (desc_next ops d))"

definition has_indirect ::
    "('q, 'm, 'chain, 'desc) queue_ops \<Rightarrow> 'm \<Rightarrow> u64 \<Rightarrow> u16 \<Rightarrow> u16 \<Rightarrow> device_error + bool" where
  "has_indirect ops m desc_table qsize head =
     has_indirect_loop ops m desc_table qsize (unat qsize) head"

section \<open>Draining and completing\<close>

definition defer_head :: "u16 list \<Rightarrow> u16 \<Rightarrow> u16 \<Rightarrow> device_error + u16 list" where
  "defer_head deferred qsize head =
     (if qsize \<le> head \<or> head \<in> set deferred then Inl (NeedsReset DEFERRED_CHAIN)
      else Inr (deferred @ [head]))"

definition add_used ::
    "('q, 'm, 'chain, 'desc) queue_ops \<Rightarrow> 'q \<Rightarrow> 'm \<Rightarrow> u16 \<Rightarrow> u32 \<Rightarrow> 'q \<times> 'm \<times> (device_error + unit)" where
  "add_used ops q m head len =
     (let (q, m, r) = q_add_used ops q m head len in (q, m, queue_error r))"

text \<open>
  The drain works on one queue, its deferred heads, the memory, and the device state \<open>'s\<close> its
  callback changes. \<open>dr_completed\<close> is the local flag.
\<close>

record ('q, 'm, 's) drain_state =
  dr_queue :: 'q
  dr_memory :: 'm
  dr_deferred :: "u16 list"
  dr_device :: 's
  dr_completed :: bool

type_synonym ('m, 'chain, 's) process =
  "'s \<Rightarrow> 'm \<Rightarrow> 'chain \<Rightarrow> 's \<times> 'm \<times> (device_error + completion)"

text \<open>The body of the inner loop for one chain that left the available ring.\<close>

definition drain_one ::
    "('q, 'm, 'chain, 'desc) queue_ops \<Rightarrow> ('m, 'chain, 's) process \<Rightarrow> bool \<Rightarrow> u64 \<Rightarrow> u16 \<Rightarrow>
     'chain \<Rightarrow> ('q, 'm, 's) drain_state \<Rightarrow> ('q, 'm, 's) drain_state \<times> (device_error + unit)" where
  "drain_one ops proc indirect desc_table qsize chain st =
     (let head = ch_head_index ops chain in
      case (if indirect then Inr False else has_indirect ops (dr_memory st) desc_table qsize head) of
        Inl e \<Rightarrow> (st, Inl e)
      | Inr True \<Rightarrow> (st, Inl (NeedsReset ''indirect descriptor''))
      | Inr False \<Rightarrow>
          (case proc (dr_device st) (dr_memory st) chain of
             (s, m, Inl e) \<Rightarrow> (st\<lparr>dr_device := s, dr_memory := m\<rparr>, Inl e)
           | (s, m, Inr (Used len)) \<Rightarrow>
               (case add_used ops (dr_queue st) m head len of
                  (q, m, Inl e) \<Rightarrow> (st\<lparr>dr_device := s, dr_memory := m, dr_queue := q\<rparr>, Inl e)
                | (q, m, Inr _) \<Rightarrow>
                    (st\<lparr>dr_device := s, dr_memory := m, dr_queue := q, dr_completed := True\<rparr>, Inr ()))
           | (s, m, Inr Deferred) \<Rightarrow>
               (case defer_head (dr_deferred st) qsize head of
                  Inl e \<Rightarrow> (st\<lparr>dr_device := s, dr_memory := m\<rparr>, Inl e)
                | Inr d \<Rightarrow> (st\<lparr>dr_device := s, dr_memory := m, dr_deferred := d\<rparr>, Inr ()))))"

text \<open>\<open>None\<close> is a loop that never returns, because the driver refills the ring for ever.\<close>

partial_function (option) drain_chains ::
    "('q, 'm, 'chain, 'desc) queue_ops \<Rightarrow> ('m, 'chain, 's) process \<Rightarrow> bool \<Rightarrow> u64 \<Rightarrow> u16 \<Rightarrow>
     ('q, 'm, 's) drain_state \<Rightarrow> (('q, 'm, 's) drain_state \<times> (device_error + unit)) option" where
  "drain_chains ops proc indirect desc_table qsize st =
     (case q_iter_next ops (dr_queue st) (dr_memory st) of
        (q, m, next) \<Rightarrow>
          (case queue_error next of
             Inl e \<Rightarrow> Some (st\<lparr>dr_queue := q, dr_memory := m\<rparr>, Inl e)
           | Inr None \<Rightarrow> Some (st\<lparr>dr_queue := q, dr_memory := m\<rparr>, Inr ())
           | Inr (Some chain) \<Rightarrow>
               (case drain_one ops proc indirect desc_table qsize chain
                       (st\<lparr>dr_queue := q, dr_memory := m\<rparr>) of
                  (st, Inl e) \<Rightarrow> Some (st, Inl e)
                | (st, Inr _) \<Rightarrow> drain_chains ops proc indirect desc_table qsize st)))"

text \<open>One turn of the outer loop; \<open>Inr True\<close> says that work arrived and the drain repeats.\<close>

definition drain_round ::
    "('q, 'm, 'chain, 'desc) queue_ops \<Rightarrow> ('m, 'chain, 's) process \<Rightarrow> bool \<Rightarrow>
     ('q, 'm, 's) drain_state \<Rightarrow> (('q, 'm, 's) drain_state \<times> (device_error + bool)) option" where
  "drain_round ops proc indirect st =
     (case q_disable_notification ops (dr_queue st) (dr_memory st) of
        (q, m, r) \<Rightarrow>
          (case queue_error r of
             Inl e \<Rightarrow> Some (st\<lparr>dr_queue := q, dr_memory := m\<rparr>, Inl e)
           | Inr _ \<Rightarrow>
               (case drain_chains ops proc indirect (q_desc_table ops q) (q_size ops q)
                       (st\<lparr>dr_queue := q, dr_memory := m\<rparr>) of
                  None \<Rightarrow> None
                | Some (st, Inl e) \<Rightarrow> Some (st, Inl e)
                | Some (st, Inr _) \<Rightarrow>
                    (case q_enable_notification ops (dr_queue st) (dr_memory st) of
                       (q, m, r) \<Rightarrow> Some (st\<lparr>dr_queue := q, dr_memory := m\<rparr>, queue_error r)))))"

partial_function (option) drain_rounds ::
    "('q, 'm, 'chain, 'desc) queue_ops \<Rightarrow> ('m, 'chain, 's) process \<Rightarrow> bool \<Rightarrow>
     ('q, 'm, 's) drain_state \<Rightarrow> (('q, 'm, 's) drain_state \<times> (device_error + unit)) option" where
  "drain_rounds ops proc indirect st =
     (case drain_round ops proc indirect st of
        None \<Rightarrow> None
      | Some (st, r) \<Rightarrow>
          (case r of
             Inl e \<Rightarrow> Some (st, Inl e)
           | Inr again \<Rightarrow>
               if again then drain_rounds ops proc indirect st else Some (st, Inr ())))"

definition store_queue ::
    "('q, 'm) virt_queues \<Rightarrow> nat \<Rightarrow> 'q \<Rightarrow> u16 list \<Rightarrow> 'm \<Rightarrow> ('q, 'm) virt_queues" where
  "store_queue vq index q d m =
     vq\<lparr>vq_queues := (vq_queues vq)[index := q], vq_deferred := (vq_deferred vq)[index := d],
        vq_memory := m\<rparr>"

definition VirtQueues_drain ::
    "('q, 'm, 'chain, 'desc) queue_ops \<Rightarrow> ('m, 'chain, 's) process \<Rightarrow> nat \<Rightarrow> 's \<Rightarrow>
     ('q, 'm) virt_queues \<Rightarrow> (('q, 'm) virt_queues \<times> 's \<times> (device_error + bool)) option" where
  "VirtQueues_drain ops proc index s vq =
     (case (get_at (vq_queues vq) index, get_at (vq_deferred vq) index) of
        (Some q, Some d) \<Rightarrow>
          if \<not> q_ready ops q then Some (vq, s, Inl (NeedsReset ''virtio queue''))
          else Option.bind
            (drain_rounds ops proc (vq_indirect vq)
              \<lparr>dr_queue = q, dr_memory = vq_memory vq, dr_deferred = d, dr_device = s,
               dr_completed = False\<rparr>)
            (\<lambda>(st, r). case r of
               Inl e \<Rightarrow> Some (store_queue vq index (dr_queue st) (dr_deferred st) (dr_memory st),
                   dr_device st, Inl e)
             | Inr _ \<Rightarrow>
                 if dr_completed st then
                   (case q_needs_notification ops (dr_queue st) (dr_memory st) of
                      (q, m, r) \<Rightarrow> Some (store_queue vq index q (dr_deferred st) m, dr_device st,
                        queue_error r))
                 else Some (store_queue vq index (dr_queue st) (dr_deferred st) (dr_memory st),
                   dr_device st, Inr False))
      | _ \<Rightarrow> Some (vq, s, Inl (NeedsReset ''virtio queue'')))"

definition VirtQueues_complete ::
    "('q, 'm, 'chain, 'desc) queue_ops \<Rightarrow> nat \<Rightarrow> u16 \<Rightarrow> u32 \<Rightarrow> ('q, 'm) virt_queues \<Rightarrow>
     ('q, 'm) virt_queues \<times> (device_error + bool)" where
  "VirtQueues_complete ops index head len vq =
     (case get_at (vq_queues vq) index of
        None \<Rightarrow> (vq, Inl (NeedsReset ''virtio queue''))
      | Some q \<Rightarrow>
          if \<not> q_ready ops q \<or> q_size ops q \<le> head then (vq, Inl (NeedsReset ''virtio queue''))
          else case get_at (vq_deferred vq) index of
            None \<Rightarrow> (vq, Inl (NeedsReset ''virtio queue''))
          | Some d \<Rightarrow>
              if head \<notin> set d then (vq, Inl (NeedsReset DEFERRED_CHAIN))
              else case add_used ops q (vq_memory vq) head len of
                (q, m, Inl e) \<Rightarrow> (store_queue vq index q d m, Inl e)
              | (q, m, Inr _) \<Rightarrow>
                  (case q_needs_notification ops q m of
                     (q, m, r) \<Rightarrow> (store_queue vq index q (remove1 head d) m, queue_error r)))"

section \<open>What the facade relies on\<close>

text \<open>
  \<open>popped\<close> and \<open>used\<close> observe a queue: the heads taken off the available ring so far and the heads
  with a used entry. Only \<open>q_iter_next\<close> extends the one, by the chain it yields, and only
  \<open>q_add_used\<close> the other, when it succeeds. No operation changes the queue size.
\<close>

definition queue_same ::
    "('q, 'm, 'chain, 'desc) queue_ops \<Rightarrow> ('q \<Rightarrow> u16 list) \<Rightarrow> ('q \<Rightarrow> u16 list) \<Rightarrow> 'q \<Rightarrow> 'q \<Rightarrow> bool" where
  "queue_same ops popped used q' q \<longleftrightarrow>
     popped q' = popped q \<and> used q' = used q \<and> q_size ops q' = q_size ops q"

definition queue_law ::
    "('q, 'm, 'chain, 'desc) queue_ops \<Rightarrow> ('q \<Rightarrow> u16 list) \<Rightarrow> ('q \<Rightarrow> u16 list) \<Rightarrow> bool" where
  "queue_law ops popped used \<longleftrightarrow>
     (\<forall>q m. case q_iter_next ops q m of (q', m', r) \<Rightarrow>
        used q' = used q \<and> q_size ops q' = q_size ops q \<and>
        popped q' = popped q @ (case r of Inr (Some c) \<Rightarrow> [ch_head_index ops c] | _ \<Rightarrow> [])) \<and>
     (\<forall>q m h n. case q_add_used ops q m h n of (q', m', r) \<Rightarrow>
        popped q' = popped q \<and> q_size ops q' = q_size ops q \<and>
        used q' = used q @ (case r of Inr _ \<Rightarrow> [h] | Inl _ \<Rightarrow> [])) \<and>
     (\<forall>q m. queue_same ops popped used (fst (q_disable_notification ops q m)) q) \<and>
     (\<forall>q m. queue_same ops popped used (fst (q_enable_notification ops q m)) q) \<and>
     (\<forall>q m. queue_same ops popped used (fst (q_needs_notification ops q m)) q)"

definition deferred_ok :: "u16 \<Rightarrow> u16 list \<Rightarrow> bool" where
  "deferred_ok qsize d \<longleftrightarrow> distinct d \<and> (\<forall>h\<in>set d. h < qsize)"

text \<open>
  All but at most \<open>n\<close> of the chains taken off the ring have a used entry or are deferred, and none
  has both, or twice.
\<close>

definition accounted :: "nat \<Rightarrow> ('q \<Rightarrow> u16 list) \<Rightarrow> ('q \<Rightarrow> u16 list) \<Rightarrow> 'q \<Rightarrow> u16 list \<Rightarrow> bool" where
  "accounted n popped used q d \<longleftrightarrow>
     (\<exists>lost. size lost \<le> n \<and> mset (popped q) = mset (used q) + mset d + lost)"

lemma queue_law_iter:
  assumes "queue_law ops popped used" "q_iter_next ops q m = (q', m', r)"
  shows "used q' = used q" "q_size ops q' = q_size ops q"
    "popped q' = popped q @ (case r of Inr (Some c) \<Rightarrow> [ch_head_index ops c] | _ \<Rightarrow> [])"
proof -
  have "case q_iter_next ops q m of (q', m', r) \<Rightarrow>
        used q' = used q \<and> q_size ops q' = q_size ops q \<and>
        popped q' = popped q @ (case r of Inr (Some c) \<Rightarrow> [ch_head_index ops c] | _ \<Rightarrow> [])"
    by (rule assms(1)[unfolded queue_law_def, THEN conjunct1, THEN spec, THEN spec])
  then show "used q' = used q" "q_size ops q' = q_size ops q"
    "popped q' = popped q @ (case r of Inr (Some c) \<Rightarrow> [ch_head_index ops c] | _ \<Rightarrow> [])"
    using assms(2) by simp_all
qed

lemma queue_law_add_used:
  assumes "queue_law ops popped used" "q_add_used ops q m h n = (q', m', r)"
  shows "popped q' = popped q" "q_size ops q' = q_size ops q"
    "used q' = used q @ (case r of Inr _ \<Rightarrow> [h] | Inl _ \<Rightarrow> [])"
proof -
  have "case q_add_used ops q m h n of (q', m', r) \<Rightarrow>
        popped q' = popped q \<and> q_size ops q' = q_size ops q \<and>
        used q' = used q @ (case r of Inr _ \<Rightarrow> [h] | Inl _ \<Rightarrow> [])"
    by (rule assms(1)[unfolded queue_law_def, THEN conjunct2, THEN conjunct1, THEN spec, THEN spec,
          THEN spec, THEN spec])
  then show "popped q' = popped q" "q_size ops q' = q_size ops q"
    "used q' = used q @ (case r of Inr _ \<Rightarrow> [h] | Inl _ \<Rightarrow> [])"
    using assms(2) by simp_all
qed

lemma queue_law_notify:
  assumes "queue_law ops popped used"
  shows "q_disable_notification ops q m = (q', m', r) \<Longrightarrow> queue_same ops popped used q' q"
    "q_enable_notification ops q m = (q', m', r2) \<Longrightarrow> queue_same ops popped used q' q"
    "q_needs_notification ops q m = (q', m', r2) \<Longrightarrow> queue_same ops popped used q' q"
  using assms unfolding queue_law_def by (metis fst_conv)+

lemma accounted_mono: "accounted n popped used q d \<Longrightarrow> n \<le> k \<Longrightarrow> accounted k popped used q d"
  unfolding accounted_def by force

lemma accounted_same:
  "queue_same ops popped used q' q \<Longrightarrow> accounted n popped used q' d = accounted n popped used q d"
  by (simp add: accounted_def queue_same_def)

lemma accounted_0: "accounted 0 popped used q d \<longleftrightarrow> mset (popped q) = mset (used q) + mset d"
  by (simp add: accounted_def)

lemma queue_error_simps [simp]:
  "queue_error (Inl e) = Inl (NeedsReset ''virtio queue'')"
  "queue_error (Inr x) = Inr x"
  by (simp_all add: queue_error_def)

lemma queue_error_cases:
  "queue_error r = Inr x \<longleftrightarrow> r = Inr x" "(\<exists>e. queue_error r = Inl e) \<longleftrightarrow> (\<exists>e. r = Inl e)"
  by (cases r; simp add: queue_error_def)+

lemma defer_head_Inr:
  "defer_head d qsize h = Inr d' \<longleftrightarrow> h < qsize \<and> h \<notin> set d \<and> d' = d @ [h]"
  by (auto simp: defer_head_def not_le)

lemma defer_head_ok:
  "deferred_ok qsize d \<Longrightarrow> defer_head d qsize h = Inr d' \<Longrightarrow> deferred_ok qsize d'"
  by (auto simp: deferred_ok_def defer_head_Inr)

section \<open>The drain keeps its books\<close>

text \<open>The books of a drain state; a failed drain may have dropped the chain in hand.\<close>

definition drain_books ::
    "('q, 'm, 'chain, 'desc) queue_ops \<Rightarrow> ('q \<Rightarrow> u16 list) \<Rightarrow> ('q \<Rightarrow> u16 list) \<Rightarrow> u16 \<Rightarrow> nat \<Rightarrow>
     ('q, 'm, 's) drain_state \<Rightarrow> bool" where
  "drain_books ops popped used qsize n st \<longleftrightarrow>
     q_size ops (dr_queue st) = qsize \<and> deferred_ok qsize (dr_deferred st) \<and>
     accounted n popped used (dr_queue st) (dr_deferred st)"

abbreviation result_books where
  "result_books ops popped used qsize st r \<equiv>
     drain_books ops popped used qsize (if is_ok r then 0 else 1) st"

lemma drain_books_0_1:
  "drain_books ops popped used qsize 0 st \<Longrightarrow> drain_books ops popped used qsize 1 st"
  by (auto simp: drain_books_def intro: accounted_mono)

lemma drain_books_queue:
  assumes "queue_same ops popped used q (dr_queue st)"
  shows "drain_books ops popped used qsize n (st\<lparr>dr_queue := q, dr_memory := m\<rparr>) =
         drain_books ops popped used qsize n st"
  using assms by (simp add: drain_books_def accounted_same) (simp add: queue_same_def)

lemma accounted_used:
  assumes "mset (popped q) = mset (used q) + mset d + {#h#}" "used q' = used q @ [h]" "popped q' = popped q"
  shows "accounted 0 popped used q' d"
  using assms by (simp add: accounted_0)

lemma accounted_lost:
  assumes "mset (popped q) = mset (used q) + mset d + {#h#}"
  shows "accounted 1 popped used q d"
  unfolding accounted_def using assms by (intro exI[of _ "{#h#}"]) simp

lemma drain_one_books:
  assumes law: "queue_law ops popped used"
    and run: "drain_one ops proc indirect table qsize chain st = (st', r)"
    and size: "q_size ops (dr_queue st) = qsize" and ok: "deferred_ok qsize (dr_deferred st)"
    and hand: "mset (popped (dr_queue st)) = mset (used (dr_queue st)) + mset (dr_deferred st)
                 + {#ch_head_index ops chain#}"
  shows "result_books ops popped used qsize st' r"
proof -
  let ?h = "ch_head_index ops chain"
  have lost: "drain_books ops popped used qsize 1 (st\<lparr>dr_device := s, dr_memory := m\<rparr>)" for s m
    using size ok accounted_lost[of popped "dr_queue st" used, OF hand] by (simp add: drain_books_def)
  have same: "drain_books ops popped used qsize 1 st"
    using lost[where s = "dr_device st" and m = "dr_memory st"] by simp
  define c where "c = (if indirect then Inr False else has_indirect ops (dr_memory st) table qsize ?h)"
  show ?thesis
  proof (cases "c = Inr False")
    case False
    then have "st' = st \<and> \<not> is_ok r"
      using run by (auto simp: drain_one_def Let_def c_def[symmetric] split: sum.splits bool.splits)
    then show ?thesis using same by simp
  next
    case True
    obtain s m p where p: "proc (dr_device st) (dr_memory st) chain = (s, m, p)"
      by (rule prod_cases3)
    note run' = run[unfolded drain_one_def Let_def c_def[symmetric] True p prod.case sum.case bool.case]
    show ?thesis
    proof (cases p)
      case (Inl e)
      then show ?thesis using run' lost by auto
    next
      case comp: (Inr comp)
      show ?thesis
      proof (cases comp)
        case (Used len)
        obtain q m2 x where add: "q_add_used ops (dr_queue st) m ?h len = (q, m2, x)"
          by (rule prod_cases3)
        note law' = queue_law_add_used[OF law add]
        show ?thesis
          using run' comp Used add law' size ok accounted_used[of popped "dr_queue st" used, OF hand, of q]
            accounted_lost[of popped q used "dr_deferred st" ?h] hand
          by (cases x) (auto simp: drain_books_def add_used_def queue_error_def)
      next
        case Deferred
        show ?thesis
        proof (cases "defer_head (dr_deferred st) qsize ?h")
          case (Inl e)
          then show ?thesis using run' comp Deferred lost by auto
        next
          case (Inr d)
          have "r = Inr ()" "st' = st\<lparr>dr_device := s, dr_memory := m, dr_deferred := d\<rparr>"
            using run' by (simp_all add: comp Deferred Inr)
          then show ?thesis using size hand defer_head_ok[OF ok Inr] Inr
            by (simp add: drain_books_def accounted_0 defer_head_Inr)
        qed
      qed
    qed
  qed
qed

lemmas drain_chains_induct = drain_chains.raw_induct[rotated 1, consumes 1, case_names step]
lemmas drain_rounds_induct = drain_rounds.raw_induct[rotated 1, consumes 1, case_names step]

lemma drain_chains_books:
  assumes "drain_chains ops proc indirect table qsize st = Some x"
    and "queue_law ops popped used" "drain_books ops popped used qsize 0 st"
  shows "result_books ops popped used qsize (fst x) (snd x)"
  using assms
proof (induction rule: drain_chains_induct)
  case (step dc ops proc indirect table qsize st x)
  obtain q m nx where iter: "q_iter_next ops (dr_queue st) (dr_memory st) = (q, m, nx)"
    by (rule prod_cases3)
  let ?st = "st\<lparr>dr_queue := q, dr_memory := m\<rparr>"
  note law = queue_law_iter[OF step.prems(1) iter]
  have books: "q_size ops (dr_queue st) = qsize" "deferred_ok qsize (dr_deferred st)"
    "mset (popped (dr_queue st)) = mset (used (dr_queue st)) + mset (dr_deferred st)"
    using step.prems(2) by (simp_all add: drain_books_def accounted_0)
  consider (stop) r where "x = (?st, r)" "\<And>c. nx \<noteq> Inr (Some c)"
    | (go) c st' r where "nx = Inr (Some c)"
        "drain_one ops proc indirect table qsize c ?st = (st', r)"
        "case r of Inl e \<Rightarrow> x = (st', Inl e) | Inr _ \<Rightarrow> dc ops proc indirect table qsize st' = Some x"
  proof (cases "\<exists>c. nx = Inr (Some c)")
    case True
    then obtain c where c: "nx = Inr (Some c)" by blast
    obtain st' r where one: "drain_one ops proc indirect table qsize c ?st = (st', r)"
      by (cases "drain_one ops proc indirect table qsize c ?st")
    show ?thesis
      by (rule go[OF c one]) (use step.hyps iter c one in \<open>cases r; simp add: queue_error_def\<close>)
  next
    case False
    then have "\<exists>r. x = (?st, r)"
      using step.hyps iter by (cases nx) (auto simp: queue_error_def split: option.splits)
    then show ?thesis using stop False by blast
  qed
  then show ?case
  proof cases
    case stop
    then have "popped q = popped (dr_queue st)"
      using law by (auto split: sum.splits option.splits)
    then have "drain_books ops popped used qsize 0 ?st"
      using law books by (simp add: drain_books_def accounted_0)
    then show ?thesis using stop drain_books_0_1 by auto
  next
    case go
    have "result_books ops popped used qsize st' r"
      by (rule drain_one_books[OF step.prems(1) go(2)]) (use law books go(1) in simp_all)
    then show ?thesis
      using go(3) step.IH[OF _ step.prems(1)] by (cases r) auto
  qed
qed

lemma drain_round_books:
  assumes run: "drain_round ops proc indirect st = Some (st', r)"
    and law: "queue_law ops popped used" and books: "drain_books ops popped used qsize 0 st"
  shows "result_books ops popped used qsize st' r"
proof -
  obtain q m x where off: "q_disable_notification ops (dr_queue st) (dr_memory st) = (q, m, x)"
    by (rule prod_cases3)
  let ?st = "st\<lparr>dr_queue := q, dr_memory := m\<rparr>"
  have start: "drain_books ops popped used qsize 0 ?st"
    using drain_books_queue[OF queue_law_notify(1)[OF law off]] books by blast
  then have [simp]: "q_size ops q = qsize" by (simp add: drain_books_def)
  show ?thesis
  proof (cases "is_ok x")
    case False
    then obtain e where "x = Inl e" by (cases x) auto
    then have "st' = ?st" "\<not> is_ok r" using run off by (auto simp: drain_round_def queue_error_def)
    then show ?thesis using start drain_books_0_1 by auto
  next
    case True
    then obtain st2 y where
      inner: "drain_chains ops proc indirect (q_desc_table ops q) qsize ?st = Some (st2, y)"
      using run off by (auto simp: drain_round_def queue_error_def is_ok_iff split: option.splits)
    have books2: "result_books ops popped used qsize st2 y"
      using drain_chains_books[OF inner law start] by simp
    obtain q2 m2 z where on: "q_enable_notification ops (dr_queue st2) (dr_memory st2) = (q2, m2, z)"
      by (rule prod_cases3)
    have "\<not> is_ok y \<and> \<not> is_ok r \<and> st' = st2 \<or>
        is_ok y \<and> st' = st2\<lparr>dr_queue := q2, dr_memory := m2\<rparr>"
      using run off inner on True by (auto simp: drain_round_def queue_error_def is_ok_iff split: sum.splits)
    moreover have "drain_books ops popped used qsize n (st2\<lparr>dr_queue := q2, dr_memory := m2\<rparr>) =
        drain_books ops popped used qsize n st2" for n
      by (rule drain_books_queue[OF queue_law_notify(2)[OF law on]])
    ultimately show ?thesis using books2 drain_books_0_1 by auto
  qed
qed

lemma drain_rounds_books:
  assumes "drain_rounds ops proc indirect st = Some x"
    and "queue_law ops popped used" "drain_books ops popped used qsize 0 st"
  shows "result_books ops popped used qsize (fst x) (snd x)"
  using assms
proof (induction rule: drain_rounds_induct)
  case (step dr ops proc indirect st x)
  obtain st' r where round: "drain_round ops proc indirect st = Some (st', r)"
    using step.hyps by (auto split: option.splits)
  note books = drain_round_books[OF round step.prems]
  show ?case
  proof (cases "r = Inr True")
    case True
    then have "dr ops proc indirect st' = Some x" "drain_books ops popped used qsize 0 st'"
      using step.hyps round books by auto
    then show ?thesis using step.IH step.prems(1) by blast
  next
    case False
    then show ?thesis using step.hyps round books by (auto split: sum.splits if_splits)
  qed
qed


section \<open>The drain returns\<close>

text \<open>
  \<open>avail q m\<close> says that the ring holds a chain; \<open>work q m\<close> bounds the chains the queue will ever
  yield, those the driver has still to add included. The law says that a queue yields a chain
  only against this budget, that it stops only when the ring is empty, and that it reports
  pending work only when there is some.
\<close>

definition queue_progress ::
    "('q, 'm, 'chain, 'desc) queue_ops \<Rightarrow> ('m, 'chain, 's) process \<Rightarrow> ('q \<Rightarrow> 'm \<Rightarrow> bool) \<Rightarrow>
     ('q \<Rightarrow> 'm \<Rightarrow> nat) \<Rightarrow> bool" where
  "queue_progress ops proc avail work \<longleftrightarrow>
     (\<forall>q m q' m' r. q_disable_notification ops q m = (q', m', r) \<longrightarrow>
        work q' m' \<le> work q m \<and> (avail q m \<longrightarrow> avail q' m')) \<and>
     (\<forall>q m q' m' r. q_iter_next ops q m = (q', m', r) \<longrightarrow>
        work q' m' \<le> work q m \<and> (r = Inr None \<longrightarrow> \<not> avail q m) \<and>
        (\<forall>c. r = Inr (Some c) \<longrightarrow> work q' m' < work q m)) \<and>
     (\<forall>q m h n q' m' r. q_add_used ops q m h n = (q', m', r) \<longrightarrow> work q' m' \<le> work q m) \<and>
     (\<forall>q m q' m' r. q_enable_notification ops q m = (q', m', r) \<longrightarrow>
        work q' m' \<le> work q m \<and> (r = Inr True \<longrightarrow> avail q' m')) \<and>
     (\<forall>s m c s' m' r. proc s m c = (s', m', r) \<longrightarrow> (\<forall>q. work q m' \<le> work q m))"

lemma queue_progress_D:
  assumes "queue_progress ops proc avail work"
  shows "q_disable_notification ops q m = (q', m', r1) \<Longrightarrow>
      work q' m' \<le> work q m \<and> (avail q m \<longrightarrow> avail q' m')"
    "q_iter_next ops q m = (q', m', r2) \<Longrightarrow> work q' m' \<le> work q m \<and> (r2 = Inr None \<longrightarrow> \<not> avail q m) \<and>
        (\<forall>c. r2 = Inr (Some c) \<longrightarrow> work q' m' < work q m)"
    "q_add_used ops q m h n = (q', m', r3) \<Longrightarrow> work q' m' \<le> work q m"
    "q_enable_notification ops q m = (q', m', r4) \<Longrightarrow>
        work q' m' \<le> work q m \<and> (r4 = Inr True \<longrightarrow> avail q' m')"
    "proc s m c = (s', m', r5) \<Longrightarrow> work q m' \<le> work q m"
  using assms unfolding queue_progress_def by metis+

definition dr_work :: "('q \<Rightarrow> 'm \<Rightarrow> nat) \<Rightarrow> ('q, 'm, 's) drain_state \<Rightarrow> nat" where
  "dr_work work st = work (dr_queue st) (dr_memory st)"

lemma drain_one_work:
  assumes prog: "queue_progress ops proc avail work"
    and run: "drain_one ops proc indirect table qsize chain st = (st', r)"
  shows "dr_work work st' \<le> dr_work work st"
proof -
  let ?h = "ch_head_index ops chain"
  define c where "c = (if indirect then Inr False else has_indirect ops (dr_memory st) table qsize ?h)"
  show ?thesis
  proof (cases "c = Inr False")
    case False
    then have "st' = st"
      using run by (auto simp: drain_one_def Let_def c_def[symmetric] split: sum.splits bool.splits)
    then show ?thesis by simp
  next
    case True
    obtain s m p where p: "proc (dr_device st) (dr_memory st) chain = (s, m, p)"
      by (rule prod_cases3)
    note run' = run[unfolded drain_one_def Let_def c_def[symmetric] True p prod.case sum.case bool.case]
    note le = queue_progress_D(5)[OF prog p]
    have used: "work q m2 \<le> work (dr_queue st) (dr_memory st)"
      if "add_used ops (dr_queue st) m ?h len = (q, m2, x)" for len q m2 x
      using that queue_progress_D(3)[OF prog] le
      by (fastforce simp: add_used_def split: prod.splits dest: le_trans)
    show ?thesis using run' le used
      by (auto simp: dr_work_def split: sum.splits completion.splits prod.splits)
  qed
qed

lemma drain_chains_returns:
  assumes prog: "queue_progress ops proc avail work"
  shows "\<exists>st' r. drain_chains ops proc indirect table qsize st = Some (st', r) \<and>
    dr_work work st' \<le> dr_work work st \<and>
    (avail (dr_queue st) (dr_memory st) \<longrightarrow> is_ok r \<longrightarrow> dr_work work st' < dr_work work st)"
proof (induction "dr_work work st" arbitrary: st rule: less_induct)
  case less
  obtain q m nx where iter: "q_iter_next ops (dr_queue st) (dr_memory st) = (q, m, nx)"
    by (rule prod_cases3)
  let ?st = "st\<lparr>dr_queue := q, dr_memory := m\<rparr>"
  note law = queue_progress_D(2)[OF prog iter]
  note unfold = drain_chains.simps[of ops proc indirect table qsize st]
  show ?case
  proof (cases "\<exists>c. nx = Inr (Some c)")
    case True
    then obtain c where c: "nx = Inr (Some c)" by blast
    obtain st' r where one: "drain_one ops proc indirect table qsize c ?st = (st', r)"
      by (cases "drain_one ops proc indirect table qsize c ?st")
    have lt: "dr_work work st' < dr_work work st"
      using drain_one_work[OF prog one] law c by (simp add: dr_work_def)
    show ?thesis
    proof (cases r)
      case Inl
      then show ?thesis using lt by (simp add: unfold iter c one queue_error_def)
    next
      case (Inr u)
      have go: "drain_chains ops proc indirect table qsize st =
          drain_chains ops proc indirect table qsize st'"
        using Inr by (simp add: unfold iter c one queue_error_def)
      show ?thesis using less.hyps[OF lt] lt unfolding go by force
    qed
  next
    case False
    then have "\<exists>r. drain_chains ops proc indirect table qsize st = Some (?st, r) \<and>
        (is_ok r \<longrightarrow> nx = Inr None)"
      by (cases nx) (auto simp: unfold iter queue_error_def split: option.split)
    then show ?thesis using law by (auto simp: dr_work_def)
  qed
qed

lemma drain_round_returns:
  assumes prog: "queue_progress ops proc avail work"
  shows "\<exists>st' r. drain_round ops proc indirect st = Some (st', r) \<and>
    dr_work work st' \<le> dr_work work st \<and>
    (r = Inr True \<longrightarrow> avail (dr_queue st') (dr_memory st') \<and>
       (avail (dr_queue st) (dr_memory st) \<longrightarrow> dr_work work st' < dr_work work st))"
proof -
  obtain q m x where off: "q_disable_notification ops (dr_queue st) (dr_memory st) = (q, m, x)"
    by (rule prod_cases3)
  let ?st = "st\<lparr>dr_queue := q, dr_memory := m\<rparr>"
  note lawd = queue_progress_D(1)[OF prog off]
  show ?thesis
  proof (cases x)
    case Inl
    then show ?thesis using lawd by (auto simp: drain_round_def off queue_error_def dr_work_def)
  next
    case (Inr u)
    obtain st2 y where inner:
      "drain_chains ops proc indirect (q_desc_table ops q) (q_size ops q) ?st = Some (st2, y)"
      "dr_work work st2 \<le> work q m" "avail q m \<longrightarrow> is_ok y \<longrightarrow> dr_work work st2 < work q m"
      using drain_chains_returns[OF prog, of indirect "q_desc_table ops q" "q_size ops q" ?st]
      by (auto simp: dr_work_def)
    obtain q2 m2 z where on: "q_enable_notification ops (dr_queue st2) (dr_memory st2) = (q2, m2, z)"
      by (rule prod_cases3)
    note lawe = queue_progress_D(4)[OF prog on]
    show ?thesis
      using lawd lawe inner
      by (cases y) (auto simp: drain_round_def off Inr on dr_work_def queue_error_cases)
  qed
qed

lemma drain_rounds_returns:
  assumes prog: "queue_progress ops proc avail work"
  shows "drain_rounds ops proc indirect st \<noteq> None"
proof -
  have busy: "drain_rounds ops proc indirect st \<noteq> None" if "avail (dr_queue st) (dr_memory st)" for st
    using that
  proof (induction "dr_work work st" arbitrary: st rule: less_induct)
    case less
    obtain st' r where round: "drain_round ops proc indirect st = Some (st', r)"
      and more: "r = Inr True \<Longrightarrow> avail (dr_queue st') (dr_memory st') \<and> dr_work work st' < dr_work work st"
      using drain_round_returns[OF prog, of indirect st] less.prems by auto
    show ?case
      using less.hyps[of st'] more
      by (subst drain_rounds.simps) (auto simp: round split: sum.split)
  qed
  obtain st' r where round: "drain_round ops proc indirect st = Some (st', r)"
    and more: "r = Inr True \<Longrightarrow> avail (dr_queue st') (dr_memory st')"
    using drain_round_returns[OF prog, of indirect st] by auto
  show ?thesis
    using busy[of st'] more by (subst drain_rounds.simps) (auto simp: round split: sum.split)
qed


section \<open>The facade\<close>

definition vq_books ::
    "('q, 'm, 'chain, 'desc) queue_ops \<Rightarrow> ('q \<Rightarrow> u16 list) \<Rightarrow> ('q \<Rightarrow> u16 list) \<Rightarrow> nat \<Rightarrow>
     ('q, 'm) virt_queues \<Rightarrow> nat \<Rightarrow> bool" where
  "vq_books ops popped used n vq i \<longleftrightarrow>
     i < length (vq_queues vq) \<and> length (vq_deferred vq) = length (vq_queues vq) \<and>
     deferred_ok (q_size ops (vq_queues vq ! i)) (vq_deferred vq ! i) \<and>
     accounted n popped used (vq_queues vq ! i) (vq_deferred vq ! i)"

lemma vq_books_store:
  assumes "i < length (vq_queues vq)" "length (vq_deferred vq) = length (vq_queues vq)"
  shows "vq_books ops popped used n (store_queue vq i q d m) i \<longleftrightarrow>
    deferred_ok (q_size ops q) d \<and> accounted n popped used q d"
  using assms by (simp add: vq_books_def store_queue_def)

text \<open>
  C17. Draining loses no chain and completes none twice: when a drain succeeds, the heads taken
  off the available ring are exactly those with a used entry and those still deferred, each
  counted once, the deferred heads are distinct and inside the queue, and no other queue is
  touched. When it fails, at most the one chain in hand is unaccounted for.
\<close>

theorem drain_keeps_books:
  assumes law: "queue_law ops popped used"
    and books: "vq_books ops popped used 0 vq i"
    and run: "VirtQueues_drain ops proc i s vq = Some (vq', s', r)"
  shows "vq_books ops popped used (if is_ok r then 0 else 1) vq' i \<and>
    (\<forall>j. j \<noteq> i \<longrightarrow> get_at (vq_queues vq') j = get_at (vq_queues vq) j \<and>
           get_at (vq_deferred vq') j = get_at (vq_deferred vq) j)"
proof -
  let ?q = "vq_queues vq ! i" and ?d = "vq_deferred vq ! i"
  let ?st = "\<lparr>dr_queue = ?q, dr_memory = vq_memory vq, dr_deferred = ?d, dr_device = s, dr_completed = False\<rparr>"
  have i: "i < length (vq_queues vq)" "length (vq_deferred vq) = length (vq_queues vq)"
    and at: "get_at (vq_queues vq) i = Some ?q" "get_at (vq_deferred vq) i = Some ?d"
    using books by (auto simp: vq_books_def get_at_def)
  have "vq_books ops popped used (if is_ok r then 0 else 1) vq' i \<and>
    (vq' = vq \<or> (\<exists>q d m. vq' = store_queue vq i q d m))"
  proof (cases "q_ready ops ?q")
    case False
    then have "vq' = vq" using run by (simp add: VirtQueues_drain_def at)
    then show ?thesis using books accounted_mono by (fastforce simp: vq_books_def)
  next
    case True
    obtain st x where inner: "drain_rounds ops proc (vq_indirect vq) ?st = Some (st, x)"
      using run True by (auto simp: VirtQueues_drain_def at split: Option.bind_splits)
    have st: "result_books ops popped used (q_size ops ?q) st x"
      using drain_rounds_books[OF inner law, of "q_size ops ?q"] books
      by (simp add: drain_books_def vq_books_def)
    obtain q m y where ntf: "q_needs_notification ops (dr_queue st) (dr_memory st) = (q, m, y)"
      by (rule prod_cases3)
    note same = queue_law_notify(3)[OF law ntf]
    have q: "vq_books ops popped used n (store_queue vq i q (dr_deferred st) k) i =
        vq_books ops popped used n (store_queue vq i (dr_queue st) (dr_deferred st) k) i" for n k
      using same by (simp add: vq_books_store i accounted_same) (simp add: queue_same_def)
    have books': "vq_books ops popped used (if is_ok x then 0 else 1)
        (store_queue vq i (dr_queue st) (dr_deferred st) k) i" for k
      using st by (simp add: vq_books_store i drain_books_def split: if_splits)
    have weak: "vq_books ops popped used 1 (store_queue vq i p (dr_deferred st) k) i"
      if "vq_books ops popped used 0 (store_queue vq i p (dr_deferred st) k) i" for p k
      using that by (auto simp: vq_books_store i intro: accounted_mono)
    have how: "\<not> is_ok x \<and> \<not> is_ok r \<and> vq' = store_queue vq i (dr_queue st) (dr_deferred st) (dr_memory st) \<or>
      is_ok x \<and> vq' = store_queue vq i q (dr_deferred st) m \<or>
      is_ok x \<and> is_ok r \<and> vq' = store_queue vq i (dr_queue st) (dr_deferred st) (dr_memory st)"
      using run True inner ntf
      by (cases x) (auto simp: VirtQueues_drain_def at split: if_splits)
    then have "vq_books ops popped used (if is_ok r then 0 else 1) vq' i"
      by (elim disjE) (use books' weak q in \<open>simp_all split: if_splits\<close>)
    moreover have "\<exists>q d m. vq' = store_queue vq i q d m"
      using how by blast
    ultimately show ?thesis by blast
  qed
  then show ?thesis
    by (auto simp: store_queue_def get_at_def)
qed

text \<open>
  A deferred chain is completed at most once, and only if it was deferred: a completion
  keeps the books whatever its outcome; one that reaches the guest adds one used entry for a
  head that was deferred and forgets it, and a second completion of that head is refused.
\<close>

theorem complete_once:
  assumes law: "queue_law ops popped used"
    and books: "vq_books ops popped used n vq i"
    and run: "VirtQueues_complete ops i head len vq = (vq', r)"
  shows "vq_books ops popped used n vq' i \<and>
    (if used (vq_queues vq' ! i) = used (vq_queues vq ! i)
     then vq_deferred vq' = vq_deferred vq \<and> \<not> is_ok r
     else head \<in> set (vq_deferred vq ! i) \<and>
       used (vq_queues vq' ! i) = used (vq_queues vq ! i) @ [head] \<and>
       vq_deferred vq' = (vq_deferred vq)[i := remove1 head (vq_deferred vq ! i)] \<and>
       (\<forall>len'. \<not> is_ok (snd (VirtQueues_complete ops i head len' vq'))))"
proof -
  let ?q = "vq_queues vq ! i" and ?d = "vq_deferred vq ! i"
  have i: "i < length (vq_queues vq)" "length (vq_deferred vq) = length (vq_queues vq)"
    and d: "deferred_ok (q_size ops ?q) ?d" and acc: "accounted n popped used ?q ?d"
    and at: "get_at (vq_queues vq) i = Some ?q" "get_at (vq_deferred vq) i = Some ?d"
    using books by (auto simp: vq_books_def get_at_def)
  show ?thesis
  proof (cases "\<not> q_ready ops ?q \<or> q_size ops ?q \<le> head \<or> head \<notin> set ?d")
    case True
    then have "vq' = vq" "\<not> is_ok r"
      using run by (auto simp: VirtQueues_complete_def at split: if_splits)
    then show ?thesis using books by simp
  next
    case False
    obtain q m x where add: "q_add_used ops ?q (vq_memory vq) head len = (q, m, x)"
      by (rule prod_cases3)
    note law1 = queue_law_add_used[OF law add]
    obtain q2 m2 y where ntf: "q_needs_notification ops q m = (q2, m2, y)"
      by (rule prod_cases3)
    note law2 = queue_law_notify(3)[OF law ntf, unfolded queue_same_def]
    show ?thesis
    proof (cases x)
      case (Inl e)
      then have vq': "vq' = store_queue vq i q ?d m" "\<not> is_ok r"
        using run False add by (auto simp: VirtQueues_complete_def at add_used_def)
      have "accounted n popped used q ?d"
        using acc law1 Inl by (simp add: accounted_def)
      then have "vq_books ops popped used n vq' i"
        using d law1 by (simp add: vq' vq_books_store i)
      then show ?thesis using law1 Inl i vq' by (simp add: store_queue_def)
    next
      case (Inr u)
      then have vq': "vq' = store_queue vq i q2 (remove1 head ?d) m2"
        using run False add ntf by (auto simp: VirtQueues_complete_def at add_used_def)
      have "accounted n popped used q2 (remove1 head ?d)"
        using acc law1 law2 Inr False by (auto simp: accounted_def)
      moreover have "deferred_ok (q_size ops q2) (remove1 head ?d)"
        using d law1 law2 by (auto simp: deferred_ok_def dest: notin_set_remove1 set_remove1_subset[THEN subsetD])
      moreover have "head \<notin> set (remove1 head ?d)"
        using d by (simp add: deferred_ok_def)
      then have "\<not> is_ok (snd (VirtQueues_complete ops i head len' vq'))" for len'
        using i by (simp add: vq' VirtQueues_complete_def store_queue_def get_at_def)
      ultimately show ?thesis
        using law1 law2 Inr False i by (simp add: vq' vq_books_store) (simp add: store_queue_def)
    qed
  qed
qed

text \<open>
  C29. Draining returns: if the driver makes finitely many chains available, the two nested loops
  end, whatever the callback answers and however often the queue reports new work.
\<close>

theorem drain_returns:
  assumes "queue_progress ops proc avail work"
  shows "\<exists>result. VirtQueues_drain ops proc i s vq = Some result"
  by (auto simp: VirtQueues_drain_def drain_rounds_returns[OF assms, unfolded not_None_eq[symmetric]]
      simp del: not_None_eq split: option.split sum.split prod.split Option.bind_split)


section \<open>A concrete queue\<close>

text \<open>
  A queue over lists for the witnesses: the memory is the number of chains the driver will still
  add, and it adds one whenever the device turns notifications back on.
\<close>

record list_queue =
  lq_avail :: "u16 list"
  lq_popped :: "u16 list"
  lq_used :: "u16 list"

definition list_queue_ops :: "(list_queue, nat, u16, bool \<times> u16 option) queue_ops" where
  "list_queue_ops =
     \<lparr>q_max_size = \<lambda>q. 8, q_ready = \<lambda>q. True, q_size = \<lambda>q. 8, q_desc_table = \<lambda>q. 0x1000,
      q_avail_ring = \<lambda>q. 0x2000, q_used_ring = \<lambda>q. 0x3000, q_is_valid = \<lambda>q m. True,
      q_set_event_idx = \<lambda>on q. q, q_disable_notification = \<lambda>q m. (q, m, Inr ()),
      q_enable_notification = \<lambda>q m.
        (case m of 0 \<Rightarrow> (q, 0, Inr False)
         | Suc k \<Rightarrow> (q\<lparr>lq_avail := lq_avail q @ [word_of_nat k]\<rparr>, k, Inr True)),
      q_iter_next = \<lambda>q m.
        (case lq_avail q of [] \<Rightarrow> (q, m, Inr None)
         | c # rest \<Rightarrow> (q\<lparr>lq_avail := rest, lq_popped := lq_popped q @ [c]\<rparr>, m, Inr (Some c))),
      q_add_used = \<lambda>q m h n. (q\<lparr>lq_used := lq_used q @ [h]\<rparr>, m, Inr ()),
      q_needs_notification = \<lambda>q m. (q, m, Inr True),
      ch_head_index = \<lambda>c. c,
      m_read_desc = \<lambda>m a. if a < 0x1000 then None
        else if a = 0x1030 then Some (True, None) else Some (False, Some 3),
      desc_indirect = fst, desc_has_next = \<lambda>d. snd d \<noteq> None,
      desc_next = \<lambda>d. case snd d of None \<Rightarrow> 0 | Some n \<Rightarrow> n\<rparr>"

lemma list_queue_law: "queue_law list_queue_ops lq_popped lq_used"
  by (simp add: queue_law_def queue_same_def list_queue_ops_def split: list.split nat.split)

definition every_other :: "(nat, u16, bool) process" where
  "every_other s m c = (\<not> s, m, Inr (if s then Used 16 else Deferred))"

lemma list_queue_progress:
  "queue_progress list_queue_ops every_other (\<lambda>q m. lq_avail q \<noteq> []) (\<lambda>q m. length (lq_avail q) + m)"
  by (auto simp: queue_progress_def list_queue_ops_def every_other_def split: list.splits nat.splits)

definition list_queue_start :: "(list_queue, nat) virt_queues" where
  "list_queue_start = \<lparr>vq_queues = [\<lparr>lq_avail = [5, 3, 6], lq_popped = [], lq_used = []\<rparr>],
     vq_deferred = [[]], vq_memory = 1, vq_indirect = True\<rparr>"

lemma list_queue_start_books: "vq_books list_queue_ops lq_popped lq_used 0 list_queue_start 0"
  by (simp add: vq_books_def list_queue_start_def deferred_ok_def accounted_0)

definition list_queue_end :: "(list_queue, nat) virt_queues" where
  "list_queue_end = \<lparr>vq_queues = [\<lparr>lq_avail = [], lq_popped = [5, 3, 6, 0], lq_used = [3, 0]\<rparr>],
     vq_deferred = [[5, 6]], vq_memory = 0, vq_indirect = True\<rparr>"

lemma list_queue_drain:
  "VirtQueues_drain list_queue_ops every_other 0 False list_queue_start =
     Some (list_queue_end, False, Inr True)"
  by (simp add: VirtQueues_drain_def list_queue_start_def list_queue_end_def get_at_def
      list_queue_ops_def drain_rounds.simps drain_round_def drain_chains.simps drain_one_def Let_def
      every_other_def defer_head_def add_used_def store_queue_def)

theorem drain_keeps_books_witness:
  "vq_books list_queue_ops lq_popped lq_used 0 list_queue_end 0"
  using drain_keeps_books[OF list_queue_law list_queue_start_books list_queue_drain] by simp

theorem complete_once_witness:
  "\<not> is_ok (snd (VirtQueues_complete list_queue_ops 0 6 16
      (fst (VirtQueues_complete list_queue_ops 0 6 8 list_queue_end))))"
proof -
  have start: "vq_books list_queue_ops lq_popped lq_used 0 list_queue_end 0"
    by (simp add: vq_books_def list_queue_end_def deferred_ok_def accounted_0 list_queue_ops_def)
  obtain vq' r where run: "VirtQueues_complete list_queue_ops 0 6 8 list_queue_end = (vq', r)"
    by (cases "VirtQueues_complete list_queue_ops 0 6 8 list_queue_end")
  then have "lq_used (vq_queues vq' ! 0) \<noteq> lq_used (vq_queues list_queue_end ! 0)"
    by (auto simp: VirtQueues_complete_def list_queue_end_def get_at_def list_queue_ops_def
        add_used_def store_queue_def)
  then show ?thesis using complete_once[OF list_queue_law start run] run by simp
qed

theorem drain_returns_witness:
  "\<exists>result. VirtQueues_drain list_queue_ops every_other 0 False list_queue_start = Some result"
  by (rule drain_returns[OF list_queue_progress])

section \<open>The descriptor scan and the preparation\<close>

text \<open>The \<open>k\<close>-th descriptor of the direct chain that starts at \<open>index\<close>, if the walk gets there.\<close>

fun walk_desc ::
    "('q, 'm, 'chain, 'desc) queue_ops \<Rightarrow> 'm \<Rightarrow> u64 \<Rightarrow> u16 \<Rightarrow> nat \<Rightarrow> u16 \<Rightarrow> 'desc option" where
  "walk_desc ops m desc_table qsize 0 index = fetch_desc ops m desc_table qsize index"
| "walk_desc ops m desc_table qsize (Suc k) index =
     (case fetch_desc ops m desc_table qsize index of
        None \<Rightarrow> None
      | Some d \<Rightarrow> if desc_indirect ops d \<or> \<not> desc_has_next ops d then None
                  else walk_desc ops m desc_table qsize k (desc_next ops d))"

text \<open>
  The scan for an indirect descriptor answers exactly: it says yes when one of the first
  \<open>size\<close> descriptors of the chain is indirect, no when the chain ends within \<open>size\<close> descriptors
  without one, and otherwise (an index outside the table, an unreadable descriptor, a cycle)
  it fails with the same error.
\<close>

theorem has_indirect_exact:
  "has_indirect ops m desc_table qsize head =
     (if \<exists>k<unat qsize. \<exists>d. walk_desc ops m desc_table qsize k head = Some d \<and> desc_indirect ops d
      then Inr True
      else if \<exists>k<unat qsize. \<exists>d. walk_desc ops m desc_table qsize k head = Some d \<and>
          \<not> desc_has_next ops d
      then Inr False
      else Inl (NeedsReset ''virtio descriptor''))"
proof -
  have ex_Suc: "(\<exists>k<Suc n. P k) \<longleftrightarrow> P 0 \<or> (\<exists>k<n. P (Suc k))" for n and P :: "nat \<Rightarrow> bool"
    by (auto simp: less_Suc_eq_0_disj)
  have "has_indirect_loop ops m desc_table qsize n index =
     (if \<exists>k<n. \<exists>d. walk_desc ops m desc_table qsize k index = Some d \<and> desc_indirect ops d
      then Inr True
      else if \<exists>k<n. \<exists>d. walk_desc ops m desc_table qsize k index = Some d \<and> \<not> desc_has_next ops d
      then Inr False
      else Inl (NeedsReset ''virtio descriptor''))" for n index
  proof (induction n arbitrary: index)
    case 0
    then show ?case by simp
  next
    case (Suc n)
    show ?case
    proof (cases "fetch_desc ops m desc_table qsize index")
      case None
      then show ?thesis by (simp add: ex_Suc)
    next
      case (Some d)
      then show ?thesis
        by (cases "desc_indirect ops d"; cases "desc_has_next ops d") (auto simp: ex_Suc Suc.IH)
    qed
  qed
  then show ?thesis by (simp add: has_indirect_def)
qed

text \<open>A queue the facade accepts for a slot with maximum \<open>mx\<close>.\<close>

definition queue_fits :: "('q, 'm, 'chain, 'desc) queue_ops \<Rightarrow> 'm \<Rightarrow> 'q \<Rightarrow> u16 \<Rightarrow> bool" where
  "queue_fits ops m q mx \<longleftrightarrow>
     q_max_size ops q = mx \<and>
     (q_ready ops q \<longrightarrow> q_size ops q \<noteq> 0 \<and> q_size ops q \<le> mx \<and> is_power_of_two (q_size ops q) \<and>
        q_avail_ring ops q \<noteq> 0 \<and> q_is_valid ops q m)"

lemma check_queue_fits: "check_queue ops m q mx = Inr () \<longleftrightarrow> queue_fits ops m q mx"
  by (auto simp: check_queue_def queue_fits_def Let_def not_less)

lemma check_queues_fit:
  "check_queues ops m qs = Inr () \<longleftrightarrow> (\<forall>(q, mx)\<in>set qs. queue_fits ops m q mx)"
proof (induction qs)
  case Nil
  then show ?case by simp
next
  case (Cons x qs)
  obtain q mx where "x = (q, mx)" by (cases x)
  with Cons show ?case using check_queue_fits[of ops m q mx]
    by (cases "check_queue ops m q mx") auto
qed

text \<open>
  Activation gets a queue set exactly when there is one queue per declared slot, each with
  the declared maximum, and every ready one has a power-of-two size within it, a driver area
  and rings inside guest memory; the set then holds those queues with no deferred chain.
\<close>

theorem prepare_exact:
  "(\<exists>vq. VirtQueues_prepare ops queues maxima event_idx indirect m = Inr vq) =
     (length queues = length maxima \<and>
      (\<forall>i<length maxima. queue_fits ops m (queues ! i) (maxima ! i))) \<and>
   (case VirtQueues_prepare ops queues maxima event_idx indirect m of
      Inl e \<Rightarrow> QueueError_reason e = ''virtio queue count'' \<longleftrightarrow> length queues \<noteq> length maxima
    | Inr vq \<Rightarrow> vq_queues vq = map (q_set_event_idx ops event_idx) queues \<and>
        vq_deferred vq = replicate (length maxima) [] \<and> vq_indirect vq = indirect)"
proof -
  have reason: "QueueError_reason e \<noteq> ''virtio queue count''" if "check_queues ops m qs = Inl e" for qs e
    using that
    by (induction qs) (auto simp: check_queue_def Let_def split: sum.splits if_splits)
  have fit: "check_queues ops m (zip queues maxima) = Inr () \<longleftrightarrow>
      (\<forall>i<length maxima. queue_fits ops m (queues ! i) (maxima ! i))"
    if "length queues = length maxima"
    using that unfolding check_queues_fit by (force simp: set_zip)
  show ?thesis
  proof (cases "length queues = length maxima")
    case True
    show ?thesis
      using True fit[OF True] reason
      by (cases "check_queues ops m (zip queues maxima)") (auto simp: VirtQueues_prepare_def)
  qed (auto simp: VirtQueues_prepare_def)
qed

theorem prepare_exact_witness:
  "\<exists>vq. VirtQueues_prepare list_queue_ops [\<lparr>lq_avail = [], lq_popped = [], lq_used = []\<rparr>] [8] True False 0
     = Inr vq"
proof -
  have "is_power_of_two (8::u16)"
    unfolding is_power_of_two_def by (rule image_eqI[of _ _ 3]) simp_all
  then show ?thesis
    using prepare_exact[of list_queue_ops "[\<lparr>lq_avail = [], lq_popped = [], lq_used = []\<rparr>]" "[8]" True False 0]
    by (simp add: queue_fits_def list_queue_ops_def)
qed

theorem has_indirect_exact_witness:
  "has_indirect list_queue_ops 0 0x1000 8 6 = Inr True"
proof -
  have "walk_desc list_queue_ops 0 0x1000 8 1 6 = Some (True, None)"
    by (simp add: fetch_desc_def checked_add_def list_queue_ops_def)
  then have "\<exists>k<unat (8::u16). \<exists>d. walk_desc list_queue_ops 0 0x1000 8 k 6 = Some d \<and>
      desc_indirect list_queue_ops d"
    by (intro exI[of _ 1] conjI exI[of _ "(True, None)"]) (auto simp: list_queue_ops_def)
  then show ?thesis unfolding has_indirect_exact by simp
qed

end
