(* ===== verification/Ordered_Map.thy ===== *)
theory Ordered_Map
  imports Prelude
begin

text \<open>
  The interface the sources use of \<open>std::collections::BTreeMap\<close>, as the locale \<open>ordered_map\<close>;
  the table of disjoint address ranges built on it, as the locale \<open>range_table\<close>; and the
  sorted association list that models the map, which interprets the first.
\<close>

section \<open>The ordered map\<close>

text \<open>
  The interface the code uses of a \<open>BTreeMap\<close>: point lookup, insertion, and the last entry of
  the range \<open>..=k\<close> (\<open>range(..=k).next_back()\<close>), here \<open>floor\<close>.
\<close>

locale ordered_map =
  fixes ok :: "'m \<Rightarrow> bool"
    and lookup :: "'m \<Rightarrow> 'k::linorder \<Rightarrow> 'v option"
    and insert :: "'k \<Rightarrow> 'v \<Rightarrow> 'm \<Rightarrow> 'm"
    and floor :: "'k \<Rightarrow> 'm \<Rightarrow> ('k \<times> 'v) option"
  assumes ok_insert: "ok m \<Longrightarrow> ok (insert k v m)"
    and lookup_insert: "ok m \<Longrightarrow> lookup (insert k v m) = (lookup m)(k \<mapsto> v)"
    and floor_None: "ok m \<Longrightarrow> floor k m = None \<longleftrightarrow> (\<forall>k'. lookup m k' \<noteq> None \<longrightarrow> k < k')"
    and floor_Some: "ok m \<Longrightarrow> floor k m = Some (k', v) \<longleftrightarrow>
      lookup m k' = Some v \<and> k' \<le> k \<and> (\<forall>k''. lookup m k'' \<noteq> None \<longrightarrow> k'' \<le> k \<longrightarrow> k'' \<le> k')"
begin

lemma floor_exists:
  assumes "ok m" "lookup m k \<noteq> None" "k \<le> b"
  obtains k' v where "floor b m = Some (k', v)" "lookup m k' = Some v" "k \<le> k'" "k' \<le> b"
proof (cases "floor b m")
  case None
  with assms show ?thesis by (auto simp: floor_None)
next
  case (Some kv)
  then show ?thesis
    using assms that floor_Some[OF assms(1), of b "fst kv" "snd kv"] by (cases kv) auto
qed

end

text \<open>
  A table of address ranges in an ordered map, keyed by the range's first address. The
  client lemma: while the ranges are pairwise disjoint, one probe at the end of a candidate
  range decides whether the candidate meets any of them.
\<close>

locale range_table = ordered_map ok lookup insert floor
  for ok :: "'m \<Rightarrow> bool"
    and lookup :: "'m \<Rightarrow> 'k::linorder \<Rightarrow> 'v option"
    and insert :: "'k \<Rightarrow> 'v \<Rightarrow> 'm \<Rightarrow> 'm"
    and floor :: "'k \<Rightarrow> 'm \<Rightarrow> ('k \<times> 'v) option" +
  fixes lo :: "'v \<Rightarrow> 'k"
    and hi :: "'v \<Rightarrow> 'k"
    and wf :: "'m \<Rightarrow> bool"
  assumes wf_iff: "wf m \<longleftrightarrow> ok m \<and> (\<forall>k v. lookup m k = Some v \<longrightarrow> lo v = k \<and> k \<le> hi v) \<and>
    (\<forall>k v k' v'. lookup m k = Some v \<longrightarrow> lookup m k' = Some v' \<longrightarrow> k < k' \<longrightarrow> hi v < k')"
begin

lemma probe_sound:
  assumes "wf m" "a \<le> b" "floor b m = Some (k, v)" "a \<le> hi v"
  shows "lookup m k = Some v \<and> lo v \<le> b \<and> a \<le> hi v"
  using assms floor_Some[of m b k v] by (auto simp: wf_iff)

lemma probe_complete:
  assumes wf: "wf m" and le: "a \<le> b" and l: "lookup m k = Some v" and ov: "lo v \<le> b" "a \<le> hi v"
  shows "\<exists>k' v'. floor b m = Some (k', v') \<and> a \<le> hi v'"
proof -
  have ok: "ok m" and k: "lo v = k" using wf l by (auto simp: wf_iff)
  obtain k' v' where f: "floor b m = Some (k', v')" "lookup m k' = Some v'" "k \<le> k'" "k' \<le> b"
    using floor_exists[OF ok, of k b] l ov k by auto
  have "a \<le> hi v'"
  proof (cases "k = k'")
    case True
    then show ?thesis using f l ov by simp
  next
    case False
    then have "hi v < k'" using wf l f by (auto simp: wf_iff order.strict_iff_order)
    moreover have "k' \<le> hi v'" using wf f by (auto simp: wf_iff)
    ultimately show ?thesis using ov by order
  qed
  with f show ?thesis by blast
qed

lemma probe_iff:
  assumes "wf m" "a \<le> b"
  shows "(\<exists>k v. floor b m = Some (k, v) \<and> a \<le> hi v) \<longleftrightarrow>
    (\<exists>k v. lookup m k = Some v \<and> lo v \<le> b \<and> a \<le> hi v)"
  using probe_sound[OF assms] probe_complete[OF assms] by blast

lemma holder_is_floor:
  assumes wf: "wf m" and l: "lookup m k = Some v" and a: "lo v \<le> a" "a \<le> hi v"
  shows "floor a m = Some (k, v)"
proof -
  have ok: "ok m" and k: "lo v = k" using wf l by (auto simp: wf_iff)
  have "k'' \<le> k" if "lookup m k'' \<noteq> None" "k'' \<le> a" for k''
  proof (rule ccontr)
    assume "\<not> k'' \<le> k"
    with that l wf have "hi v < k''" by (auto simp: wf_iff)
    with that a show False by order
  qed
  then show ?thesis using ok l a k by (auto simp: floor_Some)
qed

lemma wf_insert:
  assumes wf: "wf m" and v: "lo v = a" "a \<le> hi v"
    and free: "\<not> (\<exists>k w. lookup m k = Some w \<and> lo w \<le> hi v \<and> a \<le> hi w)"
  shows "wf (insert a v m)"
proof -
  have ok: "ok m" using wf by (simp add: wf_iff)
  have ranges: "\<And>k w. lookup m k = Some w \<Longrightarrow> lo w = k \<and> k \<le> hi w"
    using wf by (simp add: wf_iff)
  have sep: "\<And>k w k' w'. lookup m k = Some w \<Longrightarrow> lookup m k' = Some w' \<Longrightarrow> k < k' \<Longrightarrow> hi w < k'"
    using wf by (simp add: wf_iff)
  have apart: "hi v < k \<or> hi w < a" if "lookup m k = Some w" for k w
    using free that ranges[OF that] by (auto simp: not_le)
  have "hi w < k'" if "(if k = a then Some v else lookup m k) = Some w"
      "(if k' = a then Some v else lookup m k') = Some w'" "k < k'" for k w k' w'
    using that apart[of k w] apart[of k' w'] sep[of k w k' w'] ranges[of k w] ranges[of k' w'] v
    by (auto split: if_splits)
  then show ?thesis
    using ok ranges v by (auto simp: wf_iff ok_insert lookup_insert)
qed

end

lemma ex_map_upd_fresh:
  "m k = None \<Longrightarrow> (\<exists>k'. (m(k \<mapsto> v)) k' = Some w) \<longleftrightarrow> w = v \<or> (\<exists>k'. m k' = Some w)"
  by (auto split: if_splits) (metis option.distinct(1))+

subsection \<open>The model of BTreeMap: a sorted association list\<close>

fun bt_insert :: "'k::linorder \<Rightarrow> 'v \<Rightarrow> ('k \<times> 'v) list \<Rightarrow> ('k \<times> 'v) list" where
  "bt_insert k v [] = [(k, v)]"
| "bt_insert k v (e # m) =
     (if k < fst e then (k, v) # e # m else if k = fst e then (k, v) # m else e # bt_insert k v m)"

fun bt_floor :: "'k::linorder \<Rightarrow> ('k \<times> 'v) list \<Rightarrow> ('k \<times> 'v) option" where
  "bt_floor k [] = None"
| "bt_floor k (e # m) =
     (if fst e \<le> k then (case bt_floor k m of None \<Rightarrow> Some e | Some e' \<Rightarrow> Some e') else None)"

definition bt_ok :: "('k::linorder \<times> 'v) list \<Rightarrow> bool" where
  "bt_ok m \<longleftrightarrow> sorted_wrt (<) (map fst m)"

lemma bt_ok_simps [simp]:
  "bt_ok []"
  "bt_ok (e # m) \<longleftrightarrow> (\<forall>e' \<in> set m. fst e < fst e') \<and> bt_ok m"
  by (auto simp: bt_ok_def)

lemma set_bt_insert: "fst ` set (bt_insert k v m) = insert k (fst ` set m)"
  by (induction m) auto

lemma bt_ok_insert: "bt_ok m \<Longrightarrow> bt_ok (bt_insert k v m)"
proof (induction m)
  case Nil
  then show ?case by simp
next
  case (Cons e m)
  have "fst e < fst e'" if "e' \<in> set (bt_insert k v m)" "fst e < k" for e'
  proof -
    have "fst e' \<in> insert k (fst ` set m)"
      using that(1) set_bt_insert[of k v m] by (metis image_eqI)
    then show ?thesis using Cons.prems that(2) by auto
  qed
  then show ?case using Cons by (auto simp: not_less le_less)
qed

lemma map_of_bt_insert: "bt_ok m \<Longrightarrow> map_of (bt_insert k v m) = (map_of m)(k \<mapsto> v)"
  by (induction m) (auto simp: fun_eq_iff)

lemma map_of_Some_iff: "bt_ok m \<Longrightarrow> map_of m k = Some v \<longleftrightarrow> (k, v) \<in> set m"
  by (induction m) (auto split: if_splits)

lemma bt_ok_tail: "bt_ok (e # m) \<Longrightarrow> map_of m k = Some v \<Longrightarrow> fst e < k"
  by (auto dest!: map_of_SomeD)

lemma bt_floor_None:
  "bt_ok m \<Longrightarrow> bt_floor k m = None \<longleftrightarrow> (\<forall>k'. map_of m k' \<noteq> None \<longrightarrow> k < k')"
proof (induction m)
  case Nil
  then show ?case by simp
next
  case (Cons e m)
  obtain a w where e: "e = (a, w)" by (cases e)
  have tail: "a < k'" if "map_of m k' \<noteq> None" for k'
    using bt_ok_tail[OF Cons.prems, of k'] that e by auto
  show ?case
  proof (cases "a \<le> k")
    case True
    then show ?thesis using e by (auto split: option.splits)
  next
    case False
    then have "k < k'" if "map_of m k' \<noteq> None" for k'
      using tail[OF that] by simp
    with False e show ?thesis by auto
  qed
qed

lemma bt_floor_SomeD:
  "bt_ok m \<Longrightarrow> bt_floor k m = Some (k', v) \<Longrightarrow>
   map_of m k' = Some v \<and> k' \<le> k \<and> (\<forall>k''. map_of m k'' \<noteq> None \<longrightarrow> k'' \<le> k \<longrightarrow> k'' \<le> k')"
proof (induction m arbitrary: k' v)
  case Nil
  then show ?case by simp
next
  case (Cons e m)
  have le: "fst e \<le> k" using Cons.prems(2) by (auto split: if_splits)
  show ?case
  proof (cases "bt_floor k m")
    case None
    then have "e = (k', v)" using Cons.prems(2) le by simp
    moreover have "\<forall>k''. map_of m k'' \<noteq> None \<longrightarrow> k < k''"
      using Cons.prems(1) None bt_floor_None[of m k] by simp
    ultimately show ?thesis using le by auto
  next
    case (Some e')
    then have e': "bt_floor k m = Some (k', v)" using Cons.prems(2) le by simp
    then have IH: "map_of m k' = Some v \<and> k' \<le> k \<and>
        (\<forall>k''. map_of m k'' \<noteq> None \<longrightarrow> k'' \<le> k \<longrightarrow> k'' \<le> k')"
      using Cons.IH Cons.prems(1) by simp
    then have "fst e < k'" using bt_ok_tail[OF Cons.prems(1)] by blast
    with IH show ?thesis by (cases e) auto
  qed
qed

lemma bt_floor_Some:
  assumes ok: "bt_ok m"
  shows "bt_floor k m = Some (k', v) \<longleftrightarrow> map_of m k' = Some v \<and> k' \<le> k \<and>
    (\<forall>k''. map_of m k'' \<noteq> None \<longrightarrow> k'' \<le> k \<longrightarrow> k'' \<le> k')" (is "_ \<longleftrightarrow> ?r k' v")
proof
  assume "bt_floor k m = Some (k', v)"
  then show "?r k' v" by (rule bt_floor_SomeD[OF ok])
next
  assume r: "?r k' v"
  then obtain k1 v1 where f: "bt_floor k m = Some (k1, v1)"
    using bt_floor_None[OF ok, of k] by (cases "bt_floor k m") (auto simp: not_le[symmetric])
  then have "?r k1 v1" by (rule bt_floor_SomeD[OF ok])
  with r have "k1 = k'" by (metis antisym option.discI)
  with r \<open>?r k1 v1\<close> f show "bt_floor k m = Some (k', v)" by simp
qed

interpretation btree: ordered_map bt_ok map_of bt_insert bt_floor
  by unfold_locales (auto simp: bt_ok_insert map_of_bt_insert bt_floor_Some bt_floor_None)

end
