(* ===== verification/Bus.thy ===== *)
theory Bus
  imports Ordered_Map
begin

text \<open>
  Model of \<open>src/src/vmm/src/bus.rs\<close>: address ranges, their registration on a bus, and the
  dispatch of a guest access to the device that holds it.

  A device behind the bus (\<open>Arc<Mutex<dyn BusDevice>>\<close>) is shared by several ranges, so a
  target names it by its index in a list of devices that is threaded through the accesses;
  what a device does is a parameter, the record \<open>bus_device_ops\<close> of its two methods.
\<close>

section \<open>Ranges\<close>

record bus_range =
  range_base :: u64
  range_last :: u64

definition BusRange_new :: "u64 \<Rightarrow> u64 \<Rightarrow> bus_range option" where
  "BusRange_new base len =
     (case checked_sub len 1 of
        None \<Rightarrow> None
      | Some span \<Rightarrow> map_option (\<lambda>l. \<lparr>range_base = base, range_last = l\<rparr>) (checked_add base span))"

definition BusRange_holds :: "bus_range \<Rightarrow> u64 \<Rightarrow> u64 \<Rightarrow> bool" where
  "BusRange_holds r addr len =
     (case (case checked_sub len 1 of None \<Rightarrow> None | Some span \<Rightarrow> checked_add addr span) of
        None \<Rightarrow> False
      | Some e \<Rightarrow> range_base r \<le> addr \<and> e \<le> range_last r)"

definition overlaps :: "bus_range \<Rightarrow> bus_range \<Rightarrow> bool" where
  "overlaps r s \<longleftrightarrow> range_base r \<le> range_last s \<and> range_base s \<le> range_last r"

definition range_wf :: "bus_range \<Rightarrow> bool" where
  "range_wf r \<longleftrightarrow> range_base r \<le> range_last r"

definition range_addrs :: "bus_range \<Rightarrow> nat set" where
  "range_addrs r = {unat (range_base r) .. unat (range_last r)}"

lemma len_minus_one: "1 \<le> len \<Longrightarrow> unat (len - 1) = unat len - 1" for len :: u64
  by (simp add: unat_sub_le)

lemma one_le_iff: "1 \<le> len \<longleftrightarrow> 0 < unat len" for len :: u64
  by (simp add: word_le_nat_alt Suc_le_eq)

lemma BusRange_new_Some:
  "BusRange_new base len = Some r \<longleftrightarrow>
     0 < unat len \<and> range_base r = base \<and> unat (range_last r) = unat base + unat len - 1"
proof (cases "1 \<le> len")
  case False
  then show ?thesis by (simp add: BusRange_new_def checked_sub_def one_le_iff)
next
  case True
  then have "BusRange_new base len = Some r \<longleftrightarrow>
      range_base r = base \<and> checked_add base (len - 1) = Some (range_last r)"
    by (cases r) (auto simp: BusRange_new_def checked_sub_def map_option_case split: option.splits)
  then show ?thesis
    using True by (auto simp: checked_add_Some len_minus_one one_le_iff)
qed

lemma BusRange_new_None:
  "BusRange_new base len = None \<longleftrightarrow> unat len = 0 \<or> 2 ^ 64 \<le> unat base + unat len - 1"
  by (auto simp: BusRange_new_def checked_sub_def one_le_iff len_minus_one checked_add_None
      split: option.splits if_splits)

lemma range_wf_new: "BusRange_new base len = Some r \<Longrightarrow> range_wf r"
  by (auto simp: BusRange_new_Some range_wf_def word_le_nat_alt)

lemma overlaps_iff_addrs:
  "range_wf r \<Longrightarrow> range_wf s \<Longrightarrow> overlaps r s \<longleftrightarrow> range_addrs r \<inter> range_addrs s \<noteq> {}"
  by (auto simp: overlaps_def range_wf_def range_addrs_def word_le_nat_alt
      intro!: exI[of _ "max (unat (range_base r)) (unat (range_base s))"])

lemma BusRange_holds_iff:
  "BusRange_holds r addr len \<longleftrightarrow>
     0 < unat len \<and> {unat addr ..< unat addr + unat len} \<subseteq> range_addrs r"
proof (cases "1 \<le> len")
  case False
  then show ?thesis by (simp add: BusRange_holds_def checked_sub_def one_le_iff)
next
  case True
  then have len: "0 < unat len" by (simp add: one_le_iff)
  show ?thesis
  proof (cases "checked_add addr (len - 1)")
    case None
    then have "2 ^ 64 \<le> unat addr + unat len - 1"
      using True len by (simp add: checked_add_None len_minus_one)
    moreover have "unat (range_last r) < 2 ^ 64" using unsigned_less[of "range_last r"] by simp
    ultimately have "unat addr + unat len - 1 \<notin> range_addrs r"
      by (auto simp: range_addrs_def)
    moreover have "unat addr + unat len - 1 \<in> {unat addr ..< unat addr + unat len}"
      using len by auto
    ultimately have "\<not> {unat addr ..< unat addr + unat len} \<subseteq> range_addrs r" by blast
    then show ?thesis using None True by (simp add: BusRange_holds_def checked_sub_def)
  next
    case (Some e)
    then have e: "unat e = unat addr + unat len - 1"
      using True len by (simp add: checked_add_Some len_minus_one)
    have "(range_base r \<le> addr \<and> e \<le> range_last r) \<longleftrightarrow>
        {unat addr ..< unat addr + unat len} \<subseteq> range_addrs r"
      using len e by (auto simp: range_addrs_def word_le_nat_alt subset_eq)
    then show ?thesis using Some True len by (simp add: BusRange_holds_def checked_sub_def)
  qed
qed

section \<open>The bus\<close>

type_synonym target = "nat \<times> u64"

record entry =
  entry_range :: bus_range
  entry_owner :: string
  entry_target :: "target option"

record bus =
  ranges :: "(u64 \<times> entry) list"
  unclaimed_reads :: u64
  unclaimed_writes :: u64

definition Bus_default :: bus where
  "Bus_default = \<lparr>ranges = [], unclaimed_reads = 0, unclaimed_writes = 0\<rparr>"

definition Bus_insert :: "bus \<Rightarrow> bus_range \<Rightarrow> string \<Rightarrow> target option \<Rightarrow> string + bus" where
  "Bus_insert b r owner t =
     (let added = Inr (b\<lparr>ranges := bt_insert (range_base r)
        \<lparr>entry_range = r, entry_owner = owner, entry_target = t\<rparr> (ranges b)\<rparr>) in
      case bt_floor (range_last r) (ranges b) of
        Some (_, e) \<Rightarrow>
          if range_base r \<le> range_last (entry_range e) then Inl (entry_owner e) else added
      | None \<Rightarrow> added)"

definition Bus_device :: "bus \<Rightarrow> u64 \<Rightarrow> u64 \<Rightarrow> target option" where
  "Bus_device b addr len =
     (case bt_floor addr (ranges b) of
        None \<Rightarrow> None
      | Some (_, e) \<Rightarrow>
          if \<not> BusRange_holds (entry_range e) addr len then None
          else case entry_target e of
            None \<Rightarrow> None
          | Some (d, offset) \<Rightarrow> Some (d, offset + (addr - range_base (entry_range e))))"

text \<open>What a device on the bus does: \<open>dev_read\<close> fills a buffer, \<open>dev_write\<close> takes one.\<close>

record 'd bus_device_ops =
  dev_read :: "'d \<Rightarrow> u64 \<Rightarrow> u8 list \<Rightarrow> 'd \<times> u8 list"
  dev_write :: "'d \<Rightarrow> u64 \<Rightarrow> u8 list \<Rightarrow> 'd"

definition UNCLAIMED_READ :: u8 where
  "UNCLAIMED_READ = 0xff"

definition Bus_read :: "'d bus_device_ops \<Rightarrow> bus \<Rightarrow> 'd list \<Rightarrow> u64 \<Rightarrow> u8 list \<Rightarrow>
    bus \<times> 'd list \<times> u8 list" where
  "Bus_read ops b devs addr data =
     (case Bus_device b addr (word_of_nat (length data)) of
        Some (d, offset) \<Rightarrow>
          (let (dev', data') = dev_read ops (devs ! d) offset (replicate (length data) 0)
           in (b, devs[d := dev'], data'))
      | None \<Rightarrow>
          (b\<lparr>unclaimed_reads := unclaimed_reads b + 1\<rparr>, devs,
           replicate (length data) UNCLAIMED_READ))"

definition Bus_write :: "'d bus_device_ops \<Rightarrow> bus \<Rightarrow> 'd list \<Rightarrow> u64 \<Rightarrow> u8 list \<Rightarrow>
    bus \<times> 'd list" where
  "Bus_write ops b devs addr data =
     (case Bus_device b addr (word_of_nat (length data)) of
        Some (d, offset) \<Rightarrow> (b, devs[d := dev_write ops (devs ! d) offset data])
      | None \<Rightarrow> (b\<lparr>unclaimed_writes := unclaimed_writes b + 1\<rparr>, devs))"

definition Bus_unclaimed :: "bus \<Rightarrow> u64 \<times> u64" where
  "Bus_unclaimed b = (unclaimed_reads b, unclaimed_writes b)"

section \<open>The invariant\<close>

text \<open>
  The table is keyed by the ranges' first addresses, every range is non-empty, and the ranges
  are pairwise disjoint in ascending order.
\<close>

definition table_wf :: "(u64 \<times> entry) list \<Rightarrow> bool" where
  "table_wf m \<longleftrightarrow> bt_ok m \<and>
     (\<forall>k e. map_of m k = Some e \<longrightarrow> range_base (entry_range e) = k \<and> k \<le> range_last (entry_range e)) \<and>
     (\<forall>k e k' e'. map_of m k = Some e \<longrightarrow> map_of m k' = Some e' \<longrightarrow> k < k' \<longrightarrow>
        range_last (entry_range e) < k')"

interpretation bus_table: range_table bt_ok map_of bt_insert bt_floor
    "\<lambda>e. range_base (entry_range e)" "\<lambda>e. range_last (entry_range e)" table_wf
  by unfold_locales (simp add: table_wf_def)

definition bus_wf :: "bus \<Rightarrow> bool" where
  "bus_wf b \<longleftrightarrow> table_wf (ranges b)"

definition entries :: "bus \<Rightarrow> entry set" where
  "entries b = snd ` set (ranges b)"

lemma entries_iff: "bus_wf b \<Longrightarrow> e \<in> entries b \<longleftrightarrow> (\<exists>k. map_of (ranges b) k = Some e)"
  by (force simp: entries_def bus_wf_def table_wf_def map_of_Some_iff)

lemma entry_key: "bus_wf b \<Longrightarrow> e \<in> entries b \<Longrightarrow> map_of (ranges b) (range_base (entry_range e)) = Some e"
  by (auto simp: entries_iff bus_wf_def table_wf_def)

lemma bus_wf_default: "bus_wf Bus_default"
  by (simp add: bus_wf_def table_wf_def Bus_default_def)

lemma entries_range_wf: "bus_wf b \<Longrightarrow> e \<in> entries b \<Longrightarrow> range_wf (entry_range e)"
  by (auto simp: entries_iff bus_wf_def table_wf_def range_wf_def)

lemma entries_disjoint:
  assumes "bus_wf b" "e \<in> entries b" "e' \<in> entries b" "e \<noteq> e'"
  shows "\<not> overlaps (entry_range e) (entry_range e')"
proof -
  let ?k = "range_base (entry_range e)" and ?k' = "range_base (entry_range e')"
  have m: "map_of (ranges b) ?k = Some e" "map_of (ranges b) ?k' = Some e'"
    using assms by (auto intro: entry_key)
  then have "?k \<noteq> ?k'" using assms(4) by auto
  then have "?k < ?k' \<or> ?k' < ?k" by auto
  moreover have sep: "\<And>k e k' e'. map_of (ranges b) k = Some e \<Longrightarrow> map_of (ranges b) k' = Some e' \<Longrightarrow>
      k < k' \<Longrightarrow> range_last (entry_range e) < k'"
    using assms(1) by (simp add: bus_wf_def table_wf_def)
  ultimately show ?thesis
    using sep[OF m] sep[OF m(2,1)] by (auto simp: overlaps_def not_le)
qed

lemma Bus_insert_Inl:
  assumes "bus_wf b" "range_wf r" "Bus_insert b r owner t = Inl o'"
  shows "\<exists>e \<in> entries b. overlaps (entry_range e) r \<and> entry_owner e = o'"
proof -
  obtain k e where f: "bt_floor (range_last r) (ranges b) = Some (k, e)"
      and le: "range_base r \<le> range_last (entry_range e)" and o': "o' = entry_owner e"
    using assms(3) by (auto simp: Bus_insert_def Let_def split: option.splits if_splits)
  from bus_table.probe_sound[OF _ _ f le] assms(1,2)
  have "map_of (ranges b) k = Some e" "range_base (entry_range e) \<le> range_last r"
    by (auto simp: bus_wf_def range_wf_def)
  then show ?thesis using assms(1) le o' by (auto simp: entries_iff overlaps_def intro!: bexI[of _ e])
qed

lemma Bus_insert_Inr:
  assumes wf: "bus_wf b" and r: "range_wf r" and ins: "Bus_insert b r owner t = Inr b'"
  shows "bus_wf b' \<and>
    entries b' = insert \<lparr>entry_range = r, entry_owner = owner, entry_target = t\<rparr> (entries b) \<and>
    (\<forall>e \<in> entries b. \<not> overlaps (entry_range e) r) \<and>
    unclaimed_reads b' = unclaimed_reads b \<and> unclaimed_writes b' = unclaimed_writes b"
proof -
  let ?new = "\<lparr>entry_range = r, entry_owner = owner, entry_target = t\<rparr>"
  have b': "b' = b\<lparr>ranges := bt_insert (range_base r) ?new (ranges b)\<rparr>"
    using ins by (auto simp: Bus_insert_def Let_def split: option.splits if_splits)
  have "\<not> (\<exists>k e. bt_floor (range_last r) (ranges b) = Some (k, e) \<and>
      range_base r \<le> range_last (entry_range e))"
    using ins by (auto simp: Bus_insert_def Let_def split: option.splits if_splits)
  then have free: "\<not> (\<exists>k e. map_of (ranges b) k = Some e \<and>
      range_base (entry_range e) \<le> range_last r \<and> range_base r \<le> range_last (entry_range e))"
    using wf r bus_table.probe_iff[of "ranges b" "range_base r" "range_last r"]
    by (auto simp: bus_wf_def range_wf_def)
  have wf': "table_wf (bt_insert (range_base r) ?new (ranges b))"
    using bus_table.wf_insert[of "ranges b" ?new "range_base r"] wf r free
    by (simp add: bus_wf_def range_wf_def)
  have fresh: "map_of (ranges b) (range_base r) = None"
  proof (rule ccontr)
    assume "map_of (ranges b) (range_base r) \<noteq> None"
    then obtain e where e: "map_of (ranges b) (range_base r) = Some e" by auto
    then have "range_base (entry_range e) = range_base r"
        "range_base r \<le> range_last (entry_range e)"
      using wf by (auto simp: bus_wf_def table_wf_def)
    with free e r show False by (auto simp: range_wf_def)
  qed
  have "bus_wf b'" using wf' b' by (simp add: bus_wf_def)
  moreover have "entries b' = insert ?new (entries b)"
  proof -
    have m: "map_of (ranges b') = (map_of (ranges b))(range_base r \<mapsto> ?new)"
      using wf b' by (simp add: map_of_bt_insert bus_wf_def table_wf_def)
    have "e \<in> entries b' \<longleftrightarrow> e = ?new \<or> e \<in> entries b" for e
      using \<open>bus_wf b'\<close> wf ex_map_upd_fresh[of "map_of (ranges b)", OF fresh]
      by (simp only: entries_iff m)
    then show ?thesis by blast
  qed
  moreover have "\<forall>e \<in> entries b. \<not> overlaps (entry_range e) r"
    using free wf by (auto simp: entries_iff overlaps_def)
  ultimately show ?thesis using b' by simp
qed

lemma Bus_insert_ok_iff:
  assumes "bus_wf b" "range_wf r"
  shows "(\<exists>b'. Bus_insert b r owner t = Inr b') \<longleftrightarrow> (\<forall>e \<in> entries b. \<not> overlaps (entry_range e) r)"
  using Bus_insert_Inl[OF assms] Bus_insert_Inr[OF assms]
  by (cases "Bus_insert b r owner t") blast+

text \<open>A lookup finds the entry that holds the access, and only that entry.\<close>

lemma Bus_device_of_holder:
  assumes wf: "bus_wf b" and e: "e \<in> entries b" and h: "BusRange_holds (entry_range e) addr len"
  shows "Bus_device b addr len =
    map_option (\<lambda>(d, off). (d, off + (addr - range_base (entry_range e)))) (entry_target e)"
proof -
  have "range_base (entry_range e) \<le> addr" "addr \<le> range_last (entry_range e)"
    using h by (auto simp: BusRange_holds_iff range_addrs_def word_le_nat_alt subset_eq)
  then have "bt_floor addr (ranges b) = Some (range_base (entry_range e), e)"
    using bus_table.holder_is_floor[of "ranges b" "range_base (entry_range e)" e addr] wf e
    by (simp add: bus_wf_def entry_key)
  then show ?thesis using h by (auto simp: Bus_device_def split: option.splits)
qed

lemma Bus_device_Some:
  assumes wf: "bus_wf b" and d: "Bus_device b addr len = Some (d, off')"
  shows "\<exists>e \<in> entries b. BusRange_holds (entry_range e) addr len \<and>
    (\<exists>off. entry_target e = Some (d, off) \<and> off' = off + (addr - range_base (entry_range e)))"
proof -
  obtain k e off where f: "bt_floor addr (ranges b) = Some (k, e)"
      and h: "BusRange_holds (entry_range e) addr len"
      and t: "entry_target e = Some (d, off)" "off' = off + (addr - range_base (entry_range e))"
    using d by (auto simp: Bus_device_def split: option.splits if_splits)
  have "map_of (ranges b) k = Some e"
    using wf f by (simp add: bt_floor_Some bus_wf_def table_wf_def)
  with wf have "e \<in> entries b" by (auto simp: entries_iff)
  with h t show ?thesis by blast
qed

lemma Bus_device_None:
  assumes "bus_wf b"
  shows "Bus_device b addr len = None \<longleftrightarrow>
    \<not> (\<exists>e \<in> entries b. BusRange_holds (entry_range e) addr len \<and> entry_target e \<noteq> None)"
proof
  assume none: "Bus_device b addr len = None"
  show "\<not> (\<exists>e \<in> entries b. BusRange_holds (entry_range e) addr len \<and> entry_target e \<noteq> None)"
    using Bus_device_of_holder[OF assms, of _ addr len] none by auto
next
  assume no: "\<not> (\<exists>e \<in> entries b. BusRange_holds (entry_range e) addr len \<and> entry_target e \<noteq> None)"
  show "Bus_device b addr len = None"
  proof (cases "Bus_device b addr len")
    case (Some t)
    then show ?thesis using Bus_device_Some[OF assms, of addr len "fst t" "snd t"] no by auto
  qed
qed

text \<open>A device fills the buffer it is given: the trait's method takes a slice, so it keeps the length.\<close>

locale bus_device =
  fixes ops :: "'d bus_device_ops"
  assumes read_length: "length (snd (dev_read ops d off data)) = length data"
begin

lemma Bus_read_length:
  "length (snd (snd (Bus_read ops b devs addr data))) = length data"
  using read_length
  by (auto simp: Bus_read_def split: option.splits prod.splits) (metis length_replicate snd_conv)

end

section \<open>Properties\<close>

text \<open>
  Registration is exact: on a well-formed bus a range is refused exactly when it shares an
  address with a registered range, the refusal names the owner of such a range, and an accepted
  range is added as it is, keeping the ranges disjoint; the single probe at the new range's end
  misses no conflict.
\<close>

theorem Bus_insert_exact:
  assumes wf: "bus_wf b" and r: "range_wf r"
  shows "case Bus_insert b r owner t of
      Inl o' \<Rightarrow> \<exists>e \<in> entries b. entry_owner e = o' \<and> range_addrs (entry_range e) \<inter> range_addrs r \<noteq> {}
    | Inr b' \<Rightarrow> bus_wf b' \<and> (\<forall>e \<in> entries b. range_addrs (entry_range e) \<inter> range_addrs r = {}) \<and>
        entries b' = insert \<lparr>entry_range = r, entry_owner = owner, entry_target = t\<rparr> (entries b)"
proof (cases "Bus_insert b r owner t")
  case (Inl o')
  then show ?thesis
    using Bus_insert_Inl[OF wf r Inl] overlaps_iff_addrs[OF entries_range_wf[OF wf] r] by auto
next
  case (Inr b')
  then show ?thesis
    using Bus_insert_Inr[OF wf r Inr] overlaps_iff_addrs[OF entries_range_wf[OF wf] r] by auto
qed

theorem Bus_insert_exact_witness:
  "\<exists>b. Bus_insert Bus_default \<lparr>range_base = 0x60, range_last = 0x67\<rparr> ''kbd'' None = Inr b \<and>
     Bus_insert b \<lparr>range_base = 0x40, range_last = 0x60\<rparr> ''pit'' None = Inl ''kbd'' \<and>
     (\<exists>e \<in> entries b. entry_owner e = ''kbd'' \<and> range_addrs (entry_range e) \<inter> {0x40..0x60} \<noteq> {})"
proof -
  let ?r = "\<lparr>range_base = 0x60, range_last = 0x67\<rparr>" and ?s = "\<lparr>range_base = 0x40, range_last = 0x60\<rparr>"
  obtain b where b: "Bus_insert Bus_default ?r ''kbd'' None = Inr b"
    by (simp add: Bus_insert_def Bus_default_def)
  have wf: "bus_wf b"
    using Bus_insert_exact[OF bus_wf_default, of ?r "''kbd''" None] b by (simp add: range_wf_def)
  have s: "Bus_insert b ?s ''pit'' None = Inl ''kbd''"
    using b by (auto simp: Bus_insert_def Bus_default_def)
  show ?thesis
    using b s Bus_insert_exact[OF wf, of ?s "''pit''" None] by (auto simp: range_wf_def range_addrs_def)
qed

text \<open>The specification of routing: any scan of the registered ranges.\<close>

definition routes_to :: "bus \<Rightarrow> u64 \<Rightarrow> u64 \<Rightarrow> nat \<Rightarrow> u64 \<Rightarrow> bool" where
  "routes_to b addr len d off \<longleftrightarrow>
     (\<exists>e \<in> entries b. \<exists>first. entry_target e = Some (d, first) \<and> 0 < unat len \<and>
        {unat addr ..< unat addr + unat len} \<subseteq> range_addrs (entry_range e) \<and>
        off = first + (addr - range_base (entry_range e)))"

lemma Bus_device_routes:
  assumes wf: "bus_wf b"
  shows "Bus_device b addr len = Some (d, off) \<longleftrightarrow> routes_to b addr len d off"
proof
  assume "Bus_device b addr len = Some (d, off)"
  from Bus_device_Some[OF wf this] show "routes_to b addr len d off"
    by (auto simp: routes_to_def BusRange_holds_iff)
next
  assume "routes_to b addr len d off"
  then obtain e first where e: "e \<in> entries b" "entry_target e = Some (d, first)"
      "BusRange_holds (entry_range e) addr len" "off = first + (addr - range_base (entry_range e))"
    by (auto simp: routes_to_def BusRange_holds_iff)
  then show "Bus_device b addr len = Some (d, off)"
    using Bus_device_of_holder[OF wf e(1,3)] by simp
qed

text \<open>
  C22. Every guest access on a well-formed bus is served by the one device that owns all of its
  bytes, at the right register offset and on a zeroed buffer, or by nobody: an access that is
  empty, wraps, crosses a range's end, or falls in a gap or a reserved window reads as all ones,
  changes no device, and is counted.
\<close>

theorem Bus_read_routing:
  assumes wf: "bus_wf b"
  shows "(\<exists>d off. routes_to b addr (word_of_nat (length data)) d off \<and>
            (\<forall>d' off'. routes_to b addr (word_of_nat (length data)) d' off' \<longrightarrow> d' = d \<and> off' = off) \<and>
            Bus_read ops b devs addr data =
              (b, devs[d := fst (dev_read ops (devs ! d) off (replicate (length data) 0))],
               snd (dev_read ops (devs ! d) off (replicate (length data) 0))))
       \<or> ((\<nexists>d off. routes_to b addr (word_of_nat (length data)) d off) \<and>
            Bus_read ops b devs addr data =
              (b\<lparr>unclaimed_reads := unclaimed_reads b + 1\<rparr>, devs, replicate (length data) 0xff))"
proof (cases "Bus_device b addr (word_of_nat (length data))")
  case None
  then have "\<nexists>d off. routes_to b addr (word_of_nat (length data)) d off"
    using Bus_device_routes[OF wf, of addr "word_of_nat (length data)"] by simp
  with None show ?thesis by (simp add: Bus_read_def UNCLAIMED_READ_def)
next
  case (Some t)
  obtain d off where t: "t = (d, off)" by (cases t)
  have "routes_to b addr (word_of_nat (length data)) d' off' \<longleftrightarrow> d' = d \<and> off' = off" for d' off'
    using Bus_device_routes[OF wf, of addr "word_of_nat (length data)" d' off'] Some t by auto
  then show ?thesis using Some t
    by (intro disjI1 exI[of _ d] exI[of _ off]) (simp add: Bus_read_def split: prod.split)
qed

theorem Bus_read_routing_witness:
  "\<exists>b. Bus_insert Bus_default \<lparr>range_base = 0x60, range_last = 0x63\<rparr> ''kbd'' (Some (0, 4)) = Inr b \<and>
     snd (snd (Bus_read \<lparr>dev_read = \<lambda>d off data. (d, replicate (length data) (ucast off)),
        dev_write = \<lambda>d _ _. d\<rparr> b [()] 0x62 [9, 9])) = [6, 6]"
proof -
  let ?r = "\<lparr>range_base = 0x60, range_last = 0x63\<rparr>"
  let ?ops = "\<lparr>dev_read = \<lambda>d off data. (d, replicate (length data) (ucast off :: u8)),
        dev_write = \<lambda>d _ _. d\<rparr>"
  obtain b where b: "Bus_insert Bus_default ?r ''kbd'' (Some (0, 4)) = Inr b"
    by (simp add: Bus_insert_def Bus_default_def)
  have wf: "bus_wf b" and en: "entries b = {\<lparr>entry_range = ?r, entry_owner = ''kbd'', entry_target = Some (0, 4)\<rparr>}"
    using Bus_insert_Inr[OF bus_wf_default _ b] by (simp_all add: range_wf_def entries_def Bus_default_def)
  have rt: "routes_to b 0x62 2 d off \<longleftrightarrow> d = 0 \<and> off = 6" for d off
    by (auto simp: routes_to_def en range_addrs_def)
  have "snd (snd (Bus_read ?ops b [()] 0x62 [9, 9])) = [6, 6]"
    using Bus_read_routing[OF wf, where addr = "0x62" and data = "[9, 9]" and ops = ?ops and devs = "[()]"] by (auto simp: rt)
  with b show ?thesis by auto
qed

end
