(* ===== verification/Mmio.thy ===== *)
theory Mmio
  imports Virt_Queues Bus
begin

text \<open>
  The virtio-mmio transport of \<open>src/src/vmm/src/virtio/mmio.rs\<close>: the windows and lines of a VM's
  slots, the register file and status machine of one transport, and its configuration space.

  The device behind the transport, its worker slot, the interrupt line's host controller and the
  external \<open>virtio_queue::Queue\<close> are the operations of the record \<open>mmio_env\<close>. A transport owns its
  device and its worker slot here, so every register access is a function from the transport to
  the transport; \<open>t_sent\<close> is the list of events sent to the run thread.
\<close>

section \<open>Slots\<close>

definition MMIO_WINDOW_LEN :: u64 where "MMIO_WINDOW_LEN = 0x1000"
definition WINDOW_START :: u64 where "WINDOW_START = 0xd0000000"
definition FIRST_GSI :: u32 where "FIRST_GSI = 5"
definition LAST_GSI :: u32 where "LAST_GSI = 23"
definition MAX_CMDLINE_BYTES :: nat where "MAX_CMDLINE_BYTES = 2048"

record mmio_slot =
  slot_base :: u64
  slot_gsi :: u32

definition cmdline_arg :: "mmio_slot \<Rightarrow> string" where
  "cmdline_arg s = ''virtio_mmio.device=4K@'' @ lower_hex (slot_base s) @ '':'' @ decimal (slot_gsi s)"

definition Slots_CAPACITY :: u32 where "Slots_CAPACITY = LAST_GSI - FIRST_GSI + 1"

text \<open>The state of \<open>Slots\<close> is its one field \<open>taken\<close>.\<close>

definition Slots_take :: "u32 \<Rightarrow> u32 \<times> (vmm_error + mmio_slot)" where
  "Slots_take taken =
     (if Slots_CAPACITY \<le> taken then (taken, Inl VirtioSlotsExhausted)
      else (taken + 1, Inr \<lparr>slot_base = WINDOW_START + ucast taken * MMIO_WINDOW_LEN,
              slot_gsi = FIRST_GSI + taken\<rparr>))"

fun announce :: "string \<Rightarrow> mmio_slot list \<Rightarrow> string \<times> (vmm_error + unit)" where
  "announce cmdline [] = (cmdline, Inr ())"
| "announce cmdline (s # slots) =
     (let argument = cmdline_arg s in
      if MAX_CMDLINE_BYTES \<le> length cmdline + length argument + (if cmdline = [] then 0 else 1)
      then (cmdline, Inl (InvalidCommandLine ''leaves no room for the virtio device arguments''))
      else announce (cmdline @ (if cmdline = [] then [] else '' '') @ argument) slots)"

section \<open>Constants\<close>

definition ACKNOWLEDGE :: u8 where "ACKNOWLEDGE = 0x1"
definition DRIVER :: u8 where "DRIVER = 0x2"
definition DRIVER_OK :: u8 where "DRIVER_OK = 0x4"
definition FEATURES_OK :: u8 where "FEATURES_OK = 0x8"
definition FAILED :: u8 where "FAILED = 0x80"
definition DRIVER_STATUS_BITS :: u8 where
  "DRIVER_STATUS_BITS = ACKNOWLEDGE OR DRIVER OR DRIVER_OK OR FEATURES_OK OR FAILED"

definition VIRTIO_F_VERSION_1 :: u64 where "VIRTIO_F_VERSION_1 = push_bit 32 1"
definition VIRTIO_F_RING_PACKED :: u64 where "VIRTIO_F_RING_PACKED = push_bit 34 1"
definition VIRTIO_F_NOTIFICATION_DATA :: u64 where "VIRTIO_F_NOTIFICATION_DATA = push_bit 38 1"
definition VIRTIO_F_NOTIF_CONFIG_DATA :: u64 where "VIRTIO_F_NOTIF_CONFIG_DATA = push_bit 39 1"
definition VIRTIO_F_RING_RESET :: u64 where "VIRTIO_F_RING_RESET = push_bit 40 1"
definition VIRTIO_F_ADMIN_VQ :: u64 where "VIRTIO_F_ADMIN_VQ = push_bit 41 1"

definition UNSUPPORTED_TRANSPORT_FEATURES :: u64 where
  "UNSUPPORTED_TRANSPORT_FEATURES = VIRTIO_F_RING_PACKED OR VIRTIO_F_NOTIFICATION_DATA OR
     VIRTIO_F_NOTIF_CONFIG_DATA OR VIRTIO_F_RING_RESET OR VIRTIO_F_ADMIN_VQ"

definition CONFIG_OFFSET :: u64 where "CONFIG_OFFSET = 0x100"
definition MAGIC_VALUE :: u32 where "MAGIC_VALUE = 0x74726976"
definition VERSION :: u32 where "VERSION = 2"
definition VENDOR_ID :: u32 where "VENDOR_ID = 0"

section \<open>The transport\<close>

record queue_config =
  qc_size :: u32
  qc_desc :: u64
  qc_avail :: u64
  qc_used :: u64
  qc_ready :: u32

record ('q, 'm, 'g) activation_context =
  ctx_memory :: 'm
  ctx_queues :: "('q, 'm) virt_queues"
  ctx_worker :: 'g

record ('d, 'w, 'g, 'c, 'q, 'm, 'chain, 'desc) mmio_env =
  e_device :: "('d, 'w, ('q, 'm, 'g) activation_context) virtio_device"
  e_worker :: "('w, 'g) worker_control"
  e_line :: "'c set_line"
  e_queue :: "('q, 'm, 'chain, 'desc) queue_ops"
  e_queue_new :: "u16 \<Rightarrow> 'q option"
  e_try_set_size :: "u16 \<Rightarrow> 'q \<Rightarrow> 'q option"
  e_try_set_desc_table_address :: "u64 \<Rightarrow> 'q \<Rightarrow> 'q option"
  e_try_set_avail_ring_address :: "u64 \<Rightarrow> 'q \<Rightarrow> 'q option"
  e_try_set_used_ring_address :: "u64 \<Rightarrow> 'q \<Rightarrow> 'q option"
  e_set_ready :: "bool \<Rightarrow> 'q \<Rightarrow> 'q"

record ('d, 'w, 'c, 'm) transport =
  t_device :: 'd
  t_interrupt :: "'c mmio_interrupt"
  t_memory :: 'm
  t_sent :: "event list"
  t_worker :: 'w
  t_spec :: device_spec
  device_features_sel :: u32
  driver_features_sel :: u32
  driver_features :: u64
  features_ok :: bool
  active :: bool
  queue_sel :: u32
  t_queues :: "queue_config list"

definition fresh_queues :: "device_spec \<Rightarrow> queue_config list" where
  "fresh_queues spec = map (\<lambda>mx. \<lparr>qc_size = ucast mx, qc_desc = 0, qc_avail = 0, qc_used = 0,
     qc_ready = 0\<rparr>) (queue_max spec)"

definition MmioTransport_new ::
    "('d, 'w, 'g, 'c, 'q, 'm, 'chain, 'desc) mmio_env \<Rightarrow> 'd \<Rightarrow> 'c mmio_interrupt \<Rightarrow> 'm \<Rightarrow> 'w \<Rightarrow>
     event list \<Rightarrow> vmm_error + ('d, 'w, 'c, 'm) transport" where
  "MmioTransport_new env dev intr mem worker sent =
     (let spec = vd_spec (e_device env) dev in
      if device_id spec = 0 then Inl (VirtioDevice (spec_name spec) ''device ID is zero'')
      else if MAX_CONFIG_LEN < config_len spec
      then Inl (VirtioDevice (spec_name spec) ''configuration space is too large'')
      else if MAX_QUEUES < length (queue_max spec)
      then Inl (VirtioDevice (spec_name spec) ''too many queues'')
      else if \<exists>mx\<in>set (queue_max spec). e_queue_new env mx = None
      then Inl (VirtioDevice (spec_name spec) ''queue maximum size is invalid'')
      else Inr \<lparr>t_device = dev, t_interrupt = intr, t_memory = mem, t_sent = sent, t_worker = worker,
             t_spec = spec, device_features_sel = 0, driver_features_sel = 0, driver_features = 0,
             features_ok = False, active = False, queue_sel = 0, t_queues = fresh_queues spec\<rparr>)"

definition offered_features :: "('d, 'w, 'c, 'm) transport \<Rightarrow> u64" where
  "offered_features t =
     (spec_features (t_spec t) OR VIRTIO_F_VERSION_1) AND NOT UNSUPPORTED_TRANSPORT_FEATURES"

definition t_status :: "('d, 'w, 'c, 'm) transport \<Rightarrow> u8" where
  "t_status t = dev_status (t_interrupt t)"

definition queue_writable :: "('d, 'w, 'c, 'm) transport \<Rightarrow> bool" where
  "queue_writable t \<longleftrightarrow>
     t_status t AND FEATURES_OK \<noteq> 0 \<and> t_status t AND (DRIVER_OK OR FAILED OR NEEDS_RESET) = 0"

definition t_queue :: "('d, 'w, 'c, 'm) transport \<Rightarrow> queue_config option" where
  "t_queue t = get_at (t_queues t) (unat (queue_sel t))"

definition queue_mut ::
    "(queue_config \<Rightarrow> queue_config) \<Rightarrow> ('d, 'w, 'c, 'm) transport \<Rightarrow> ('d, 'w, 'c, 'm) transport" where
  "queue_mut f t =
     (let i = unat (queue_sel t) in
      if i < length (t_queues t) then t\<lparr>t_queues := (t_queues t)[i := f (t_queues t ! i)]\<rparr> else t)"

definition read_control :: "('d, 'w, 'c, 'm) transport \<Rightarrow> u64 \<Rightarrow> u32" where
  "read_control t offset =
     (if offset = 0x000 then MAGIC_VALUE
      else if offset = 0x004 then VERSION
      else if offset = 0x008 then device_id (t_spec t)
      else if offset = 0x00c then VENDOR_ID
      else if offset = 0x010 then
        (let sel = device_features_sel t in
         if sel < 2 then ucast (drop_bit (unat (sel * 32)) (offered_features t)) else 0)
      else if offset = 0x034 then
        (case t_queue t of None \<Rightarrow> 0 | Some _ \<Rightarrow> ucast (queue_max (t_spec t) ! unat (queue_sel t)))
      else if offset = 0x044 then (case t_queue t of None \<Rightarrow> 0 | Some q \<Rightarrow> qc_ready q)
      else if offset = 0x060 then ucast (int_status (t_interrupt t))
      else if offset = 0x070 then ucast (t_status t)
      else if offset \<in> {0x0b0, 0x0b4, 0x0b8, 0x0bc} then - 1
      else if offset = 0x0fc then ucast (config_gen (t_interrupt t))
      else 0)"

section \<open>Errors\<close>

definition t_raise_config ::
    "('d, 'w, 'g, 'c, 'q, 'm, 'chain, 'desc) mmio_env \<Rightarrow> ('d, 'w, 'c, 'm) transport \<Rightarrow>
     ('d, 'w, 'c, 'm) transport" where
  "t_raise_config env t = t\<lparr>t_interrupt := raise_config (e_line env) (t_interrupt t)\<rparr>"

definition t_set_status :: "u8 \<Rightarrow> ('d, 'w, 'c, 'm) transport \<Rightarrow> ('d, 'w, 'c, 'm) transport" where
  "t_set_status st t = t\<lparr>t_interrupt := set_device_status st (t_interrupt t)\<rparr>"

definition need_reset ::
    "('d, 'w, 'g, 'c, 'q, 'm, 'chain, 'desc) mmio_env \<Rightarrow> ('d, 'w, 'c, 'm) transport \<Rightarrow>
     ('d, 'w, 'c, 'm) transport" where
  "need_reset env t = t_raise_config env (t\<lparr>t_interrupt := set_needs_reset (t_interrupt t)\<rparr>)"

definition send_device_failed :: "string \<Rightarrow> ('d, 'w, 'c, 'm) transport \<Rightarrow> ('d, 'w, 'c, 'm) transport" where
  "send_device_failed reason t =
     t\<lparr>t_sent := t_sent t @ [DeviceFailed (VirtioDevice (spec_name (t_spec t)) reason)]\<rparr>"

fun handle_device_error ::
    "('d, 'w, 'g, 'c, 'q, 'm, 'chain, 'desc) mmio_env \<Rightarrow> device_error \<Rightarrow> ('d, 'w, 'c, 'm) transport \<Rightarrow>
     ('d, 'w, 'c, 'm) transport" where
  "handle_device_error env (NeedsReset _) t = need_reset env t"
| "handle_device_error env (Fatal reason) t = send_device_failed reason t"
| "handle_device_error env (Unsupported _) t = t"

fun device_error_reason :: "device_error \<Rightarrow> string" where
  "device_error_reason (Fatal reason) = reason"
| "device_error_reason (NeedsReset reason) = reason"
| "device_error_reason (Unsupported reason) = reason"

definition report_worker_failure :: "device_error \<Rightarrow> ('d, 'w, 'c, 'm) transport \<Rightarrow> ('d, 'w, 'c, 'm) transport" where
  "report_worker_failure e t = send_device_failed (device_error_reason e) t"

section \<open>Register writes\<close>

definition low_half :: "u64 \<Rightarrow> u32 \<Rightarrow> u64" where
  "low_half w v = (w AND NOT (ucast (- 1 :: u32))) OR ucast v"

definition high_half :: "u64 \<Rightarrow> u32 \<Rightarrow> u64" where
  "high_half w v = (w AND ucast (- 1 :: u32)) OR push_bit 32 (ucast v)"

definition write_driver_features :: "u32 \<Rightarrow> ('d, 'w, 'c, 'm) transport \<Rightarrow> ('d, 'w, 'c, 'm) transport" where
  "write_driver_features value t =
     (if features_ok t \<or> t_status t AND (FEATURES_OK OR FAILED OR NEEDS_RESET) \<noteq> 0 then t
      else if driver_features_sel t = 0 then t\<lparr>driver_features := low_half (driver_features t) value\<rparr>
      else if driver_features_sel t = 1 then t\<lparr>driver_features := high_half (driver_features t) value\<rparr>
      else t)"

definition write_queue_address ::
    "u64 \<Rightarrow> u32 \<Rightarrow> ('d, 'w, 'c, 'm) transport \<Rightarrow> ('d, 'w, 'c, 'm) transport" where
  "write_queue_address offset value t =
     (if \<not> queue_writable t then t
      else queue_mut (\<lambda>q.
        if offset = 0x080 then q\<lparr>qc_desc := low_half (qc_desc q) value\<rparr>
        else if offset = 0x084 then q\<lparr>qc_desc := high_half (qc_desc q) value\<rparr>
        else if offset = 0x090 then q\<lparr>qc_avail := low_half (qc_avail q) value\<rparr>
        else if offset = 0x094 then q\<lparr>qc_avail := high_half (qc_avail q) value\<rparr>
        else if offset = 0x0a0 then q\<lparr>qc_used := low_half (qc_used q) value\<rparr>
        else if offset = 0x0a4 then q\<lparr>qc_used := high_half (qc_used q) value\<rparr>
        else q) t)"

definition notify ::
    "('d, 'w, 'g, 'c, 'q, 'm, 'chain, 'desc) mmio_env \<Rightarrow> u32 \<Rightarrow> ('d, 'w, 'c, 'm) transport \<Rightarrow>
     ('d, 'w, 'c, 'm) transport" where
  "notify env value t =
     (if \<not> active t \<or> t_status t AND (FAILED OR NEEDS_RESET) \<noteq> 0 then t
      else let index = ucast (value AND 0xffff) :: u16 in
        if unat index < length (t_queues t)
        then t\<lparr>t_worker := wc_kick (e_worker env) (t_worker t) index\<rparr> else t)"

definition negotiate_features ::
    "('d, 'w, 'g, 'c, 'q, 'm, 'chain, 'desc) mmio_env \<Rightarrow> ('d, 'w, 'c, 'm) transport \<Rightarrow>
     ('d, 'w, 'c, 'm) transport \<times> bool" where
  "negotiate_features env t =
     (if driver_features t AND VIRTIO_F_VERSION_1 = 0 then (t, False)
      else if driver_features t AND NOT (offered_features t) \<noteq> 0 then (t, False)
      else case vd_set_features (e_device env) (t_device t)
             (driver_features t AND spec_features (t_spec t) AND NOT VIRTIO_F_VERSION_1) of
        (dev, Inr _) \<Rightarrow> (t\<lparr>t_device := dev, features_ok := True\<rparr>, True)
      | (dev, Inl _) \<Rightarrow> (t\<lparr>t_device := dev\<rparr>, False))"

subsection \<open>Activation and reset\<close>

definition check_opt :: "device_error \<Rightarrow> 'a option \<Rightarrow> device_error + 'a" where
  "check_opt e x = (case x of None \<Rightarrow> Inl e | Some y \<Rightarrow> Inr y)"

definition and_then :: "'e + 'a \<Rightarrow> ('a \<Rightarrow> 'e + 'b) \<Rightarrow> 'e + 'b" where
  "and_then r f = (case r of Inl e \<Rightarrow> Inl e | Inr x \<Rightarrow> f x)"

definition build_queue ::
    "('d, 'w, 'g, 'c, 'q, 'm, 'chain, 'desc) mmio_env \<Rightarrow> queue_config \<Rightarrow> u16 \<Rightarrow> device_error + 'q" where
  "build_queue env config max_size =
     and_then (check_opt (Fatal ''virtio queue maximum'') (e_queue_new env max_size)) (\<lambda>q.
       if qc_ready config = 0 then Inr q
       else and_then (if unat (qc_size config) < 2 ^ 16 then Inr (ucast (qc_size config) :: u16)
                      else Inl (NeedsReset ''virtio queue size'')) (\<lambda>qsize.
         and_then (check_opt (NeedsReset ''virtio queue size'') (e_try_set_size env qsize q)) (\<lambda>q.
         and_then (check_opt (NeedsReset ''virtio queue address'')
           (e_try_set_desc_table_address env (qc_desc config) q)) (\<lambda>q.
         and_then (check_opt (NeedsReset ''virtio queue address'')
           (e_try_set_avail_ring_address env (qc_avail config) q)) (\<lambda>q.
         and_then (check_opt (NeedsReset ''virtio queue address'')
           (e_try_set_used_ring_address env (qc_used config) q)) (\<lambda>q.
         Inr (e_set_ready env True q)))))))"

fun build_queues ::
    "('d, 'w, 'g, 'c, 'q, 'm, 'chain, 'desc) mmio_env \<Rightarrow> queue_config list \<Rightarrow> u16 list \<Rightarrow>
     device_error + 'q list" where
  "build_queues env (c # cs) (mx # maxima) =
     and_then (build_queue env c mx) (\<lambda>q.
       and_then (build_queues env cs maxima) (\<lambda>qs. Inr (q # qs)))"
| "build_queues env _ _ = Inr []"

definition transport_context ::
    "('d, 'w, 'g, 'c, 'q, 'm, 'chain, 'desc) mmio_env \<Rightarrow> 'g \<Rightarrow> ('d, 'w, 'c, 'm) transport \<Rightarrow>
     device_error + ('q, 'm, 'g) activation_context" where
  "transport_context env worker t =
     and_then (build_queues env (t_queues t) (queue_max (t_spec t))) (\<lambda>queues.
     and_then (map_sum DeviceError_of_queue id
       (VirtQueues_prepare (e_queue env) queues (queue_max (t_spec t))
         (driver_features t AND VIRTIO_F_EVENT_IDX \<noteq> 0)
         (driver_features t AND VIRTIO_F_INDIRECT_DESC \<noteq> 0) (t_memory t))) (\<lambda>vq.
     Inr \<lparr>ctx_memory = t_memory t, ctx_queues = vq, ctx_worker = worker\<rparr>))"

definition t_activate ::
    "('d, 'w, 'g, 'c, 'q, 'm, 'chain, 'desc) mmio_env \<Rightarrow> 'g \<Rightarrow> ('d, 'w, 'c, 'm) transport \<Rightarrow>
     ('d, 'w, 'c, 'm) transport \<times> (device_error + unit)" where
  "t_activate env worker t =
     (case transport_context env worker t of
        Inl e \<Rightarrow> (t, Inl e)
      | Inr ctx \<Rightarrow>
          (case vd_activate (e_device env) (t_device t) ctx (t_worker t) of
             (dev, w, r) \<Rightarrow> (t\<lparr>t_device := dev, t_worker := w\<rparr>, r)))"

definition device_reset ::
    "('d, 'w, 'g, 'c, 'q, 'm, 'chain, 'desc) mmio_env \<Rightarrow> ('d, 'w, 'c, 'm) transport \<Rightarrow>
     ('d, 'w, 'c, 'm) transport \<times> (device_error + unit)" where
  "device_reset env t =
     (case vd_reset (e_device env) (t_device t) (t_worker t) of
        (dev, w, r) \<Rightarrow> (t\<lparr>t_device := dev, t_worker := w\<rparr>, r))"

definition t_reset ::
    "('d, 'w, 'g, 'c, 'q, 'm, 'chain, 'desc) mmio_env \<Rightarrow> ('d, 'w, 'c, 'm) transport \<Rightarrow>
     ('d, 'w, 'c, 'm) transport" where
  "t_reset env t =
     (let (t, go) =
        (if active t then
           (case wc_stop (e_worker env) (t_worker t) of
              (w, Inr _) \<Rightarrow> (t\<lparr>t_worker := w, active := False\<rparr>, True)
            | (w, Inl e) \<Rightarrow> (report_worker_failure e (t\<lparr>t_worker := w\<rparr>), False))
         else (t, True)) in
      if \<not> go then t
      else case device_reset env t of
        (t, Inl e) \<Rightarrow> handle_device_error env e t
      | (t, Inr _) \<Rightarrow>
          t\<lparr>features_ok := False, driver_features := 0, device_features_sel := 0,
            driver_features_sel := 0, queue_sel := 0, t_queues := fresh_queues (t_spec t),
            t_interrupt := MmioInterrupt_reset (t_interrupt t)\<rparr>)"

text \<open>The DRIVER_OK arm of a status write, once the driver's bits are in order.\<close>

definition bring_up ::
    "('d, 'w, 'g, 'c, 'q, 'm, 'chain, 'desc) mmio_env \<Rightarrow> u8 \<Rightarrow> ('d, 'w, 'c, 'm) transport \<Rightarrow>
     ('d, 'w, 'c, 'm) transport" where
  "bring_up env new t =
     (case wc_prepare (e_worker env) (t_worker t) of
        (w, Inl e) \<Rightarrow>
          report_worker_failure e (t_raise_config env
            (t_set_status ((new AND NOT DRIVER_OK) OR NEEDS_RESET) (t\<lparr>t_worker := w\<rparr>)))
      | (w, Inr worker) \<Rightarrow>
          (case t_activate env worker (t\<lparr>t_worker := w\<rparr>) of
             (t, Inr _) \<Rightarrow>
               (let t = t_set_status new t in
                case wc_start (e_worker env) (t_worker t) of
                  (w, Inr _) \<Rightarrow> t\<lparr>t_worker := w, active := True\<rparr>
                | (w, Inl e) \<Rightarrow>
                    (let t = t\<lparr>t_worker := wc_cancel_prepare (e_worker env) w\<rparr> in
                     report_worker_failure e (t_raise_config env
                       (t_set_status (t_status t OR NEEDS_RESET) t))))
           | (t, Inl e) \<Rightarrow>
               (let t = t\<lparr>t_worker := wc_cancel_prepare (e_worker env) (t_worker t)\<rparr>;
                    (t, rollback) = device_reset env t;
                    t = (case rollback of Inl e2 \<Rightarrow> report_worker_failure e2 t | Inr _ \<Rightarrow> t);
                    t = t\<lparr>features_ok := False\<rparr>;
                    t = t_raise_config env (t_set_status ((new AND NOT DRIVER_OK) OR NEEDS_RESET) t)
                in case e of Fatal _ \<Rightarrow> report_worker_failure e t | _ \<Rightarrow> t)))"

definition t_update_status :: "u8 \<Rightarrow> u8 \<Rightarrow> ('d, 'w, 'c, 'm) transport \<Rightarrow> ('d, 'w, 'c, 'm) transport" where
  "t_update_status bits blocked t = t\<lparr>t_interrupt := update_device_status bits blocked (t_interrupt t)\<rparr>"

text \<open>The FAILED arm of a status write, and the FEATURES_OK arm; \<open>True\<close> says that the latter refuses.\<close>

definition fail_device ::
    "('d, 'w, 'g, 'c, 'q, 'm, 'chain, 'desc) mmio_env \<Rightarrow> u8 \<Rightarrow> ('d, 'w, 'c, 'm) transport \<Rightarrow>
     ('d, 'w, 'c, 'm) transport" where
  "fail_device env bits t =
     (let t = t_update_status bits 0 t in
      if active t then
        (case wc_stop (e_worker env) (t_worker t) of
           (w, Inr _) \<Rightarrow> t\<lparr>t_worker := w, active := False\<rparr>
         | (w, Inl e) \<Rightarrow> report_worker_failure e (t\<lparr>t_worker := w\<rparr>))
      else t)"

definition feature_gate ::
    "('d, 'w, 'g, 'c, 'q, 'm, 'chain, 'desc) mmio_env \<Rightarrow> u8 \<Rightarrow> ('d, 'w, 'c, 'm) transport \<Rightarrow>
     ('d, 'w, 'c, 'm) transport \<times> bool" where
  "feature_gate env bits t =
     (let current = t_status t; new = current OR bits in
      if bits AND FEATURES_OK \<noteq> 0 \<and> current AND FEATURES_OK = 0 then
        (if new AND (ACKNOWLEDGE OR DRIVER) \<noteq> ACKNOWLEDGE OR DRIVER then (t, True)
         else (case negotiate_features env t of (t, ok) \<Rightarrow> (t, \<not> ok)))
      else (t, False))"

definition write_status ::
    "('d, 'w, 'g, 'c, 'q, 'm, 'chain, 'desc) mmio_env \<Rightarrow> u32 \<Rightarrow> ('d, 'w, 'c, 'm) transport \<Rightarrow>
     ('d, 'w, 'c, 'm) transport" where
  "write_status env value t =
     (if value = 0 then t_reset env t
      else
        let requested = ucast value :: u8; current = t_status t in
        if current AND (FAILED OR NEEDS_RESET) \<noteq> 0 then t
        else
          let bits = requested AND DRIVER_STATUS_BITS in
          if bits = 0 then t
          else
            let new = current OR bits in
            if bits AND FAILED \<noteq> 0 then fail_device env bits t
            else
              let (t, refused) = feature_gate env bits t in
              if refused then t_set_status (new AND NOT (FEATURES_OK OR DRIVER_OK)) t
              else if bits AND DRIVER_OK \<noteq> 0 \<and> current AND DRIVER_OK = 0 \<and> \<not> active t then
                (if new AND (ACKNOWLEDGE OR DRIVER OR FEATURES_OK) \<noteq> ACKNOWLEDGE OR DRIVER OR FEATURES_OK
                    \<or> \<not> features_ok t
                 then need_reset env (t_set_status (new AND NOT DRIVER_OK) t)
                 else bring_up env new t)
              else t_update_status bits (FAILED OR NEEDS_RESET) t)"

definition write_control ::
    "('d, 'w, 'g, 'c, 'q, 'm, 'chain, 'desc) mmio_env \<Rightarrow> u64 \<Rightarrow> u32 \<Rightarrow> ('d, 'w, 'c, 'm) transport \<Rightarrow>
     ('d, 'w, 'c, 'm) transport" where
  "write_control env offset value t =
     (if offset = 0x014 then t\<lparr>device_features_sel := value\<rparr>
      else if offset = 0x020 then write_driver_features value t
      else if offset = 0x024 then t\<lparr>driver_features_sel := value\<rparr>
      else if offset = 0x050 then notify env value t
      else if offset = 0x064 then
        t\<lparr>t_interrupt := ack_interrupt (e_line env) (ucast value) (t_interrupt t)\<rparr>
      else if offset = 0x070 then write_status env value t
      else if offset = 0x030 then
        (if queue_writable t then t\<lparr>queue_sel := value\<rparr> else t)
      else if offset = 0x038 then
        (if queue_writable t then queue_mut (\<lambda>q. q\<lparr>qc_size := value\<rparr>) t else t)
      else if offset = 0x044 then
        (if \<not> queue_writable t then t
         else if 1 < value then t
         else queue_mut (\<lambda>q. q\<lparr>qc_ready := value\<rparr>) t)
      else if 0x080 \<le> offset \<and> offset \<le> 0x0a4 then write_queue_address offset value t
      else t)"

section \<open>Configuration space and the bus device\<close>

definition config_in_range :: "u64 \<Rightarrow> nat \<Rightarrow> ('d, 'w, 'c, 'm) transport \<Rightarrow> bool" where
  "config_in_range offset len t =
     (case checked_add offset (word_of_nat len) of
        None \<Rightarrow> False | Some e \<Rightarrow> e \<le> word_of_nat (config_len (t_spec t)))"

definition read_config_space ::
    "('d, 'w, 'g, 'c, 'q, 'm, 'chain, 'desc) mmio_env \<Rightarrow> u64 \<Rightarrow> u8 list \<Rightarrow> ('d, 'w, 'c, 'm) transport \<Rightarrow>
     ('d, 'w, 'c, 'm) transport \<times> u8 list" where
  "read_config_space env offset data t =
     (if \<not> config_in_range offset (length data) t then (t, data)
      else case vd_read_config (e_device env) (t_device t) offset data of
        (dev, data, Inl e) \<Rightarrow> (handle_device_error env e (t\<lparr>t_device := dev\<rparr>), data)
      | (dev, data, Inr _) \<Rightarrow> (t\<lparr>t_device := dev\<rparr>, data))"

definition write_config_space ::
    "('d, 'w, 'g, 'c, 'q, 'm, 'chain, 'desc) mmio_env \<Rightarrow> u64 \<Rightarrow> u8 list \<Rightarrow> ('d, 'w, 'c, 'm) transport \<Rightarrow>
     ('d, 'w, 'c, 'm) transport" where
  "write_config_space env offset data t =
     (if \<not> config_in_range offset (length data) t then t
      else case vd_write_config (e_device env) (t_device t) offset data of
        (dev, Inl e) \<Rightarrow> handle_device_error env e (t\<lparr>t_device := dev\<rparr>)
      | (dev, Inr _) \<Rightarrow> t\<lparr>t_device := dev\<rparr>)"

definition MmioTransport_read ::
    "('d, 'w, 'g, 'c, 'q, 'm, 'chain, 'desc) mmio_env \<Rightarrow> ('d, 'w, 'c, 'm) transport \<Rightarrow> u64 \<Rightarrow> u8 list \<Rightarrow>
     ('d, 'w, 'c, 'm) transport \<times> u8 list" where
  "MmioTransport_read env t offset data =
     (if offset < CONFIG_OFFSET then
        (if length data \<noteq> 4 \<or> offset mod 4 \<noteq> 0 then (t, data)
         else (t, to_le_bytes 4 (read_control t offset)))
      else if offset < MMIO_WINDOW_LEN then
        (let relative = offset - CONFIG_OFFSET in
         if length data \<in> {1, 2, 4} then read_config_space env relative data t
         else if length data = 8 then
           (if config_in_range relative 8 t then
              (let (t, low) = read_config_space env relative (take 4 data) t;
                   (t, high) = read_config_space env (relative + 4) (drop 4 data) t
               in (t, low @ high))
            else (t, data))
         else (t, data))
      else (t, data))"

definition MmioTransport_write ::
    "('d, 'w, 'g, 'c, 'q, 'm, 'chain, 'desc) mmio_env \<Rightarrow> ('d, 'w, 'c, 'm) transport \<Rightarrow> u64 \<Rightarrow> u8 list \<Rightarrow>
     ('d, 'w, 'c, 'm) transport" where
  "MmioTransport_write env t offset data =
     (if offset < CONFIG_OFFSET then
        (if length data \<noteq> 4 then t
         else if offset mod 4 \<noteq> 0 then t
         else write_control env offset (from_le_bytes data) t)
      else if offset < MMIO_WINDOW_LEN then
        (let relative = offset - CONFIG_OFFSET in
         if length data \<in> {1, 2, 4} then write_config_space env relative data t
         else if length data = 8 then
           (if config_in_range relative 8 t then
              write_config_space env (relative + 4) (drop 4 data)
                (write_config_space env relative (take 4 data) t)
            else t)
         else t)
      else t)"

section \<open>Status bits\<close>

text \<open>Each flag is one bit, so a test of the status register reads as bit tests.\<close>

lemma flag_values:
  "ACKNOWLEDGE = 2 ^ 0" "DRIVER = 2 ^ 1" "DRIVER_OK = 2 ^ 2" "FEATURES_OK = 2 ^ 3"
  "NEEDS_RESET = 2 ^ 6" "FAILED = 2 ^ 7"
  by (simp_all add: ACKNOWLEDGE_def DRIVER_def DRIVER_OK_def FEATURES_OK_def NEEDS_RESET_def FAILED_def)

lemma and_or_eq_0: "w AND (a OR b) = 0 \<longleftrightarrow> w AND a = 0 \<and> w AND b = 0" for w :: "'a::len word"
  by (auto simp: bit_eq_iff bit_and_iff bit_or_iff)

lemma flag_test:
  "w AND ACKNOWLEDGE = 0 \<longleftrightarrow> \<not> bit w 0" "w AND DRIVER = 0 \<longleftrightarrow> \<not> bit w 1"
  "w AND DRIVER_OK = 0 \<longleftrightarrow> \<not> bit w 2" "w AND FEATURES_OK = 0 \<longleftrightarrow> \<not> bit w 3"
  "w AND NEEDS_RESET = 0 \<longleftrightarrow> \<not> bit w 6" "w AND FAILED = 0 \<longleftrightarrow> \<not> bit w 7"
  unfolding flag_values and_exp_eq_0_iff_not_bit by simp_all

lemma flag_bits:
  "bit DRIVER_OK n \<longleftrightarrow> n = 2" "bit FEATURES_OK n \<longleftrightarrow> n = 3"
  "bit NEEDS_RESET n \<longleftrightarrow> n = 6" "bit FAILED n \<longleftrightarrow> n = 7"
  "bit ACKNOWLEDGE n \<longleftrightarrow> n = 0" "bit DRIVER n \<longleftrightarrow> n = 1"
  unfolding flag_values bit_exp_iff by auto

lemma driver_bits: "bit DRIVER_STATUS_BITS n \<longleftrightarrow> n \<in> {0, 1, 2, 3, 7}"
  by (auto simp: DRIVER_STATUS_BITS_def bit_or_iff flag_bits)

lemmas status_bits = and_or_eq_0 flag_test flag_bits driver_bits bit_or_iff bit_and_iff bit_not_iff

lemma t_status_simps [simp]:
  "t_status (t_raise_config env t) = t_status t"
  "t_status (t_set_status st t) = st"
  "t_status (need_reset env t) = t_status t OR NEEDS_RESET"
  "t_status (send_device_failed r t) = t_status t"
  "t_status (report_worker_failure e t) = t_status t"
  "t_status (t_update_status bits blocked t) =
     (if t_status t AND blocked \<noteq> 0 then t_status t else t_status t OR bits)"
  "t_status (t\<lparr>t_worker := w\<rparr>) = t_status t"
  "t_status (t\<lparr>t_device := d\<rparr>) = t_status t"
  "t_status (t\<lparr>features_ok := f\<rparr>) = t_status t"
  "t_status (t\<lparr>active := a\<rparr>) = t_status t"
  by (simp_all add: t_status_def t_raise_config_def t_set_status_def need_reset_def send_device_failed_def
      report_worker_failure_def t_update_status_def update_device_status_alone)

text \<open>The part of a transport that no status, interrupt, worker or event operation changes.\<close>

definition t_setup :: "('d, 'w, 'c, 'm) transport \<Rightarrow>
    'm \<times> device_spec \<times> u32 \<times> u32 \<times> u64 \<times> u32 \<times> queue_config list" where
  "t_setup t = (t_memory t, t_spec t, device_features_sel t, driver_features_sel t, driver_features t,
     queue_sel t, t_queues t)"

lemma t_setup_simps [simp]:
  "t_setup (t_raise_config env t) = t_setup t"
  "t_setup (t_set_status st t) = t_setup t"
  "t_setup (need_reset env t) = t_setup t"
  "t_setup (send_device_failed r t) = t_setup t"
  "t_setup (report_worker_failure e t) = t_setup t"
  "t_setup (t_update_status bits blocked t) = t_setup t"
  "t_setup (t\<lparr>t_worker := w\<rparr>) = t_setup t"
  "t_setup (t\<lparr>t_device := d\<rparr>) = t_setup t"
  "t_setup (t\<lparr>features_ok := f\<rparr>) = t_setup t"
  "t_setup (t\<lparr>active := a\<rparr>) = t_setup t"
  "t_setup (t\<lparr>t_interrupt := i\<rparr>) = t_setup t"
  "t_setup (t\<lparr>t_sent := s\<rparr>) = t_setup t"
  by (simp_all add: t_setup_def t_raise_config_def t_set_status_def need_reset_def send_device_failed_def
      report_worker_failure_def t_update_status_def)

lemma t_flags_simps [simp]:
  "active (t_raise_config env t) = active t" "features_ok (t_raise_config env t) = features_ok t"
  "active (t_set_status st t) = active t" "features_ok (t_set_status st t) = features_ok t"
  "active (need_reset env t) = active t" "features_ok (need_reset env t) = features_ok t"
  "active (send_device_failed r t) = active t" "features_ok (send_device_failed r t) = features_ok t"
  "active (report_worker_failure e t) = active t" "features_ok (report_worker_failure e t) = features_ok t"
  "active (t_update_status bits blocked t) = active t"
  "features_ok (t_update_status bits blocked t) = features_ok t"
  by (simp_all add: t_raise_config_def t_set_status_def need_reset_def send_device_failed_def
      report_worker_failure_def t_update_status_def)

lemma handle_device_error_simps [simp]:
  "t_setup (handle_device_error env e t) = t_setup t"
  "active (handle_device_error env e t) = active t"
  "features_ok (handle_device_error env e t) = features_ok t"
  "t_status (handle_device_error env e t) = t_status t \<or>
     t_status (handle_device_error env e t) = t_status t OR NEEDS_RESET"
  by (cases e; simp)+

section \<open>The transport invariant\<close>

text \<open>
  \<open>status_link\<close> ties the status register to the two flags: an active transport has negotiated its
  features and shows FEATURES_OK and DRIVER_OK, and a live register with FEATURES_OK means the
  features were negotiated. \<open>features_bounded\<close> bounds what a driver may have accepted.
\<close>

definition status_link :: "u8 \<Rightarrow> bool \<Rightarrow> bool \<Rightarrow> bool" where
  "status_link st act fok \<longleftrightarrow>
     (act \<longrightarrow> fok \<and> bit st 3 \<and> bit st 2) \<and>
     (bit st 3 \<and> \<not> bit st 6 \<and> \<not> bit st 7 \<longrightarrow> fok)"

definition spec_fits :: "('d, 'w, 'g, 'c, 'q, 'm, 'chain, 'desc) mmio_env \<Rightarrow> device_spec \<Rightarrow> bool" where
  "spec_fits env spec \<longleftrightarrow> device_id spec \<noteq> 0 \<and> config_len spec \<le> MAX_CONFIG_LEN \<and>
     length (queue_max spec) \<le> MAX_QUEUES \<and> (\<forall>mx\<in>set (queue_max spec). e_queue_new env mx \<noteq> None)"

definition features_bounded :: "('d, 'w, 'c, 'm) transport \<Rightarrow> bool" where
  "features_bounded t \<longleftrightarrow> driver_features t AND VIRTIO_F_VERSION_1 \<noteq> 0 \<and>
     driver_features t AND NOT (offered_features t) = 0"

definition t_ok :: "('d, 'w, 'g, 'c, 'q, 'm, 'chain, 'desc) mmio_env \<Rightarrow> ('d, 'w, 'c, 'm) transport \<Rightarrow> bool" where
  "t_ok env t \<longleftrightarrow> spec_fits env (t_spec t) \<and> length (t_queues t) = length (queue_max (t_spec t)) \<and>
     (features_ok t \<longrightarrow> features_bounded t) \<and>
     status_link (t_status t) (active t) (features_ok t)"

text \<open>\<open>t_ok\<close> depends on the setup, the status and the two flags only.\<close>

lemma t_ok_cong:
  assumes "t_ok env t" "t_setup t' = t_setup t" "features_ok t' \<longrightarrow> features_ok t"
    "status_link (t_status t') (active t') (features_ok t')"
  shows "t_ok env t'"
  using assms by (auto simp: t_ok_def t_setup_def features_bounded_def offered_features_def)

lemma status_link_mono:
  "status_link st a f \<Longrightarrow> status_link (st OR NEEDS_RESET) a f"
  "status_link st a f \<Longrightarrow> status_link st False f"
  "status_link st a f \<Longrightarrow> status_link (st OR FAILED OR x) a f \<longleftrightarrow> True"
  by (auto simp: status_link_def status_bits)

lemma link_needs_reset: "bit st 6 \<Longrightarrow> status_link st False f"
  by (simp add: status_link_def)

lemma link_failed: "status_link st a f \<Longrightarrow> bit b 7 \<Longrightarrow> status_link (st OR b) a f"
  by (auto simp: status_link_def bit_or_iff)

lemma t_ok_handle_error: "t_ok env t \<Longrightarrow> t_ok env (handle_device_error env e t)"
  by (rule t_ok_cong[of env t], assumption, simp, simp, cases e)
    (simp_all add: t_ok_def status_link_mono(1))

lemma negotiate_features_result:
  assumes "negotiate_features env t = (t', ok)"
  shows "t_setup t' = t_setup t" "t_status t' = t_status t" "active t' = active t" "t_worker t' = t_worker t"
    "ok \<Longrightarrow> features_ok t' \<and> features_bounded t" "\<not> ok \<Longrightarrow> features_ok t' = features_ok t"
  using assms
  by (auto simp: negotiate_features_def features_bounded_def t_setup_def t_status_def
      split: if_splits prod.splits sum.splits)

lemma device_reset_result:
  assumes "device_reset env t = (t', r)"
  shows "t_setup t' = t_setup t" "t_interrupt t' = t_interrupt t" "active t' = active t"
    "features_ok t' = features_ok t" "t_sent t' = t_sent t"
  using assms by (auto simp: device_reset_def t_setup_def split: prod.splits)

lemma t_activate_result:
  assumes "t_activate env g t = (t', r)"
  shows "t_setup t' = t_setup t" "t_interrupt t' = t_interrupt t" "active t' = active t"
    "features_ok t' = features_ok t" "t_sent t' = t_sent t"
  using assms by (auto simp: t_activate_def t_setup_def split: sum.splits prod.splits)

lemma t_status_interrupt: "t_interrupt t' = t_interrupt t \<Longrightarrow> t_status t' = t_status t"
  by (simp add: t_status_def)

lemma t_ok_reset:
  assumes ok: "t_ok env t"
  shows "t_ok env (t_reset env t)"
proof -
  have fresh: "t_ok env (s\<lparr>features_ok := False, driver_features := 0, device_features_sel := 0,
      driver_features_sel := 0, queue_sel := 0, t_queues := fresh_queues (t_spec s),
      t_interrupt := MmioInterrupt_reset (t_interrupt s)\<rparr>)"
    if "t_setup s = t_setup t" "\<not> active s" for s
    using ok that
    by (auto simp: t_ok_def t_setup_def fresh_queues_def status_link_def t_status_def MmioInterrupt_reset_def)
  have inactive: "t_ok env (t\<lparr>t_worker := w, active := False\<rparr>)" for w
    by (rule t_ok_cong[OF ok]) (use ok status_link_mono(2) in \<open>auto simp: t_ok_def t_setup_def t_status_def\<close>)
  have failed: "t_ok env (report_worker_failure e (t\<lparr>t_worker := w\<rparr>))" for w e
    by (rule t_ok_cong[OF ok]) (use ok in \<open>auto simp: t_ok_def\<close>)
  have rest: "t_ok env (case device_reset env s of (t, Inl e) \<Rightarrow> handle_device_error env e t
      | (t, Inr _) \<Rightarrow> t\<lparr>features_ok := False, driver_features := 0, device_features_sel := 0,
            driver_features_sel := 0, queue_sel := 0, t_queues := fresh_queues (t_spec t),
            t_interrupt := MmioInterrupt_reset (t_interrupt t)\<rparr>)"
    if s: "t_ok env s" "t_setup s = t_setup t" "\<not> active s" for s
  proof -
    obtain s' r where run: "device_reset env s = (s', r)" by (cases "device_reset env s")
    note res = device_reset_result[OF run]
    have "t_ok env s'"
      by (rule t_ok_cong[OF s(1)]) (use res s(1) t_status_interrupt[OF res(2)] in \<open>auto simp: t_ok_def\<close>)
    then show ?thesis
      using fresh[of s'] res s by (cases r) (auto simp: run t_ok_handle_error)
  qed
  obtain w r where stop: "wc_stop (e_worker env) (t_worker t) = (w, r)"
    by (cases "wc_stop (e_worker env) (t_worker t)")
  show ?thesis
  proof (cases "active t")
    case False
    then show ?thesis using rest[OF ok] by (simp add: t_reset_def)
  next
    case True
    then show ?thesis
      using rest[OF inactive[of w]] failed stop
      by (cases r) (auto simp: t_reset_def t_setup_def)
  qed
qed

lemma t_ok_bring_up:
  assumes ok: "t_ok env t" and inactive: "\<not> active t" and fok: "features_ok t"
    and new: "bit new 2" "bit new 3"
  shows "t_ok env (bring_up env new t)"
proof -
  have broken: "t_ok env t'" if "t_setup t' = t_setup t" "bit (t_status t') 6" "\<not> active t'" for t'
    using t_ok_cong[OF ok that(1)] fok that link_needs_reset by simp
  obtain w p where prep: "wc_prepare (e_worker env) (t_worker t) = (w, p)"
    by (cases "wc_prepare (e_worker env) (t_worker t)")
  show ?thesis
  proof (cases p)
    case (Inl e)
    then show ?thesis using prep inactive
      by (auto intro!: broken simp: bring_up_def status_bits)
  next
    case (Inr g)
    obtain t1 r where act: "t_activate env g (t\<lparr>t_worker := w\<rparr>) = (t1, r)"
      by (cases "t_activate env g (t\<lparr>t_worker := w\<rparr>)")
    note res = t_activate_result[OF act]
    show ?thesis
    proof (cases r)
      case r: (Inr u)
      obtain w1 s where start: "wc_start (e_worker env) (t_worker (t_set_status new t1)) = (w1, s)"
        by (cases "wc_start (e_worker env) (t_worker (t_set_status new t1))")
      show ?thesis
      proof (cases s)
        case (Inl e)
        then show ?thesis using prep Inr act r start inactive res
          by (auto intro!: broken simp: bring_up_def Let_def status_bits)
      next
        case s: (Inr v)
        have "bring_up env new t = (t_set_status new t1)\<lparr>t_worker := w1, active := True\<rparr>"
          using prep Inr act r start s by (simp add: bring_up_def)
        moreover have "t_ok env ((t_set_status new t1)\<lparr>t_worker := w1, active := True\<rparr>)"
          by (rule t_ok_cong[OF ok])
            (use res fok new in \<open>auto simp: status_link_def t_setup_def t_status_def t_set_status_def set_device_status_def\<close>)
        ultimately show ?thesis by simp
      qed
    next
      case r: (Inl e)
      obtain t2 b where rollback:
        "device_reset env (t1\<lparr>t_worker := wc_cancel_prepare (e_worker env) (t_worker t1)\<rparr>) = (t2, b)"
        by (cases "device_reset env (t1\<lparr>t_worker := wc_cancel_prepare (e_worker env) (t_worker t1)\<rparr>)")
      note res2 = device_reset_result[OF rollback]
      show ?thesis using prep Inr act r rollback inactive res res2
        by (auto intro!: broken simp: bring_up_def Let_def status_bits split: sum.splits device_error.splits)
    qed
  qed
qed

lemma negotiate_features_device:
  "negotiate_features env t = (t1, True) \<Longrightarrow> \<exists>d. t1 = t\<lparr>t_device := d, features_ok := True\<rparr>"
  by (auto simp: negotiate_features_def split: if_splits prod.splits sum.splits)

lemma feature_gate_cases:
  assumes "feature_gate env bits t = (t1, refused)"
  obtains (skip) "t1 = t" "\<not> refused" "bit bits 3 \<longrightarrow> bit (t_status t) 3"
    | (early) "t1 = t" "refused" "\<not> bit (t_status t) 3"
    | (negotiate) "negotiate_features env t = (t1, \<not> refused)" "\<not> bit (t_status t) 3"
proof (cases "bit bits 3 \<and> \<not> bit (t_status t) 3")
  case True
  then show ?thesis
    using assms early negotiate
    by (auto simp: feature_gate_def Let_def flag_test split: if_splits prod.splits)
next
  case False
  then show ?thesis using assms skip by (auto simp: feature_gate_def Let_def flag_test)
qed

lemma feature_gate_result:
  assumes gate: "feature_gate env bits t = (t1, refused)"
  shows "t_setup t1 = t_setup t" "t_status t1 = t_status t" "active t1 = active t" "t_worker t1 = t_worker t"
    "features_ok t1 \<longrightarrow> features_ok t \<or> features_bounded t" "features_ok t \<longrightarrow> features_ok t1"
    "\<not> refused \<Longrightarrow> bit bits 3 \<Longrightarrow> \<not> bit (t_status t) 3 \<Longrightarrow> features_ok t1"
    "refused \<Longrightarrow> \<not> bit (t_status t) 3"
    "\<not> refused \<Longrightarrow> t1 = t \<or> (\<exists>d. fst (negotiate_features env t) = t\<lparr>t_device := d, features_ok := True\<rparr> \<and>
       t1 = t\<lparr>t_device := d, features_ok := True\<rparr>)"
proof -
  have "t_setup t1 = t_setup t \<and> t_status t1 = t_status t \<and> active t1 = active t \<and>
      t_worker t1 = t_worker t \<and> (features_ok t1 \<longrightarrow> features_ok t \<or> features_bounded t) \<and>
      (features_ok t \<longrightarrow> features_ok t1) \<and>
      (\<not> refused \<longrightarrow> bit bits 3 \<longrightarrow> \<not> bit (t_status t) 3 \<longrightarrow> features_ok t1) \<and>
      (refused \<longrightarrow> \<not> bit (t_status t) 3)"
    using gate
  proof (cases rule: feature_gate_cases)
    case negotiate
    note n = negotiate_features_result[OF negotiate(1)]
    show ?thesis using n(1-4) n(5,6) negotiate(2) by (cases refused) auto
  qed auto
  then show "t_setup t1 = t_setup t" "t_status t1 = t_status t" "active t1 = active t"
    "t_worker t1 = t_worker t"
    "features_ok t1 \<longrightarrow> features_ok t \<or> features_bounded t" "features_ok t \<longrightarrow> features_ok t1"
    "\<not> refused \<Longrightarrow> bit bits 3 \<Longrightarrow> \<not> bit (t_status t) 3 \<Longrightarrow> features_ok t1"
    "refused \<Longrightarrow> \<not> bit (t_status t) 3"
    by blast+
  show "\<not> refused \<Longrightarrow> t1 = t \<or> (\<exists>d. fst (negotiate_features env t) = t\<lparr>t_device := d, features_ok := True\<rparr> \<and>
       t1 = t\<lparr>t_device := d, features_ok := True\<rparr>)"
    using gate
    by (cases rule: feature_gate_cases) (auto dest: negotiate_features_device)
qed

lemma fail_device_result:
  shows "t_setup (fail_device env bits t) = t_setup t" "t_status (fail_device env bits t) = t_status t OR bits"
    "features_ok (fail_device env bits t) = features_ok t" "active (fail_device env bits t) \<Longrightarrow> active t"
  by (auto simp: fail_device_def Let_def t_setup_def t_status_def t_update_status_def
      update_device_status_alone report_worker_failure_def send_device_failed_def
      split: prod.splits sum.splits if_splits)

lemma write_status_cases:
  assumes nz: "value \<noteq> 0"
    and bits: "bits = (ucast value :: u8) AND DRIVER_STATUS_BITS"
  obtains (same) "write_status env value t = t"
    | (failed) "bit bits 7" "write_status env value t = fail_device env bits t"
    | (refused) t1 where "feature_gate env bits t = (t1, True)"
        "write_status env value t = t_set_status ((t_status t OR bits) AND NOT (FEATURES_OK OR DRIVER_OK)) t1"
    | (early) t1 where "feature_gate env bits t = (t1, False)" "\<not> active t1" "\<not> bit (t_status t) 6"
        "write_status env value t = need_reset env (t_set_status ((t_status t OR bits) AND NOT DRIVER_OK) t1)"
    | (up) t1 where "feature_gate env bits t = (t1, False)" "\<not> active t1" "features_ok t1"
        "bit bits 2" "bit (t_status t OR bits) 3" "write_status env value t = bring_up env (t_status t OR bits) t1"
    | (update) t1 where "feature_gate env bits t = (t1, False)" "\<not> bit bits 7"
        "\<not> bit (t_status t) 6" "\<not> bit (t_status t) 7" "bit bits 2 \<longrightarrow> bit (t_status t) 2 \<or> active t1"
        "write_status env value t = t_update_status bits (FAILED OR NEEDS_RESET) t1"
proof (cases "t_status t AND (FAILED OR NEEDS_RESET) \<noteq> 0 \<or> bits = 0")
  case True
  then show ?thesis using same assms by (auto simp: write_status_def Let_def)
next
  case live: False
  then have alive: "\<not> bit (t_status t) 6" "\<not> bit (t_status t) 7" by (auto simp: status_bits)
  obtain t1 refused where gate: "feature_gate env bits t = (t1, refused)"
    by (cases "feature_gate env bits t")
  have bits3: "bit (t_status t OR bits) 3"
    if "(t_status t OR bits) AND (ACKNOWLEDGE OR DRIVER OR FEATURES_OK) = ACKNOWLEDGE OR DRIVER OR FEATURES_OK"
  proof -
    have "bit ((t_status t OR bits) AND (ACKNOWLEDGE OR DRIVER OR FEATURES_OK)) 3"
      unfolding that by (simp add: bit_or_iff flag_bits)
    then show ?thesis by (simp add: bit_and_iff)
  qed
  have "write_status env value t =
    (if bit bits 7 then fail_device env bits t
     else if refused then t_set_status ((t_status t OR bits) AND NOT (FEATURES_OK OR DRIVER_OK)) t1
     else if bit bits 2 \<and> \<not> bit (t_status t) 2 \<and> \<not> active t1 then
       (if (t_status t OR bits) AND (ACKNOWLEDGE OR DRIVER OR FEATURES_OK) \<noteq> ACKNOWLEDGE OR DRIVER OR FEATURES_OK
           \<or> \<not> features_ok t1
        then need_reset env (t_set_status ((t_status t OR bits) AND NOT DRIVER_OK) t1)
        else bring_up env (t_status t OR bits) t1)
     else t_update_status bits (FAILED OR NEEDS_RESET) t1)"
    using live nz
    by (simp add: write_status_def Let_def bits[symmetric] gate flag_test)
  then show ?thesis
    using failed refused[of t1] early[of t1] up[of t1] update[of t1] gate alive bits3
    by (cases refused) (simp_all split: if_splits)
qed

lemma t_ok_write_status:
  assumes ok: "t_ok env t"
  shows "t_ok env (write_status env value t)"
proof (cases "value = 0")
  case True
  then show ?thesis using t_ok_reset[OF ok] by (simp add: write_status_def)
next
  case False
  define bits where "bits = (ucast value :: u8) AND DRIVER_STATUS_BITS"
  have link: "status_link (t_status t) (active t) (features_ok t)" using ok by (simp add: t_ok_def)
  have ok1: "t_ok env t'"
    if "feature_gate env bits t = (t1, refused)" "t_setup t' = t_setup t"
      "features_ok t' \<longrightarrow> features_ok t1" "status_link (t_status t') (active t') (features_ok t')"
    for t1 refused t'
    using ok that(2-) feature_gate_result(5)[OF that(1)]
    by (auto simp: t_ok_def t_setup_def features_bounded_def offered_features_def)
  show ?thesis
    using False bits_def
  proof (cases rule: write_status_cases[where env = env and t = t])
    case same
    then show ?thesis using ok by simp
  next
    case failed
    have "status_link (t_status t OR bits) (active (fail_device env bits t)) (features_ok t)"
      using link_failed[OF link failed(1)] fail_device_result(4)[of env bits t]
      by (cases "active (fail_device env bits t)") (auto intro: status_link_mono(2))
    then show ?thesis unfolding failed
      by (intro t_ok_cong[OF ok]) (simp_all add: fail_device_result)
  next
    case (refused t1)
    note gate = feature_gate_result[OF refused(1)]
    have "\<not> active t" using gate(8) link by (auto simp: status_link_def)
    then show ?thesis unfolding refused(2)
      by (intro ok1[OF refused(1)]) (use gate(1-8) in \<open>auto simp: status_link_def status_bits\<close>)
  next
    case (early t1)
    note gate = feature_gate_result[OF early(1)]
    show ?thesis unfolding early(4)
      by (intro ok1[OF early(1)]) (use gate(1-8) early in \<open>auto simp: status_link_def status_bits\<close>)
  next
    case (up t1)
    note gate = feature_gate_result[OF up(1)]
    have "t_ok env t1"
      by (rule ok1[OF up(1)]) (use gate(1-8) up link in \<open>auto simp: status_link_def\<close>)
    then show ?thesis unfolding up(6)
      by (rule t_ok_bring_up) (use up in \<open>simp_all add: bit_or_iff\<close>)
  next
    case (update t1)
    note gate = feature_gate_result[OF update(1)]
    show ?thesis unfolding update(5)
      by (intro ok1[OF update(1)])
        (use gate(1-8) update link in \<open>auto simp: status_link_def status_bits\<close>)
  qed
qed

section \<open>Every step keeps the invariant\<close>

lemma queue_mut_frame [simp]:
  "t_spec (queue_mut f t) = t_spec t" "length (t_queues (queue_mut f t)) = length (t_queues t)"
  "t_status (queue_mut f t) = t_status t" "active (queue_mut f t) = active t"
  "features_ok (queue_mut f t) = features_ok t" "driver_features (queue_mut f t) = driver_features t"
  "offered_features (queue_mut f t) = offered_features t"
  by (simp_all add: queue_mut_def Let_def t_status_def offered_features_def)

lemma t_ok_frame:
  assumes "t_ok env t" "t_spec t' = t_spec t" "length (t_queues t') = length (t_queues t)"
    "t_status t' = t_status t" "active t' = active t" "features_ok t' = features_ok t"
    "features_ok t \<longrightarrow> driver_features t' = driver_features t"
  shows "t_ok env t'"
  using assms by (auto simp: t_ok_def features_bounded_def offered_features_def)

lemma t_ok_updates:
  assumes "t_ok env t"
  shows "t_ok env (queue_mut f t)" "t_ok env (t\<lparr>queue_sel := v\<rparr>)"
    "t_ok env (t\<lparr>device_features_sel := v\<rparr>)" "t_ok env (t\<lparr>driver_features_sel := v\<rparr>)"
    "t_ok env (t\<lparr>t_worker := w\<rparr>)" "t_ok env (t\<lparr>t_device := d\<rparr>)"
    "t_ok env (t\<lparr>t_interrupt := ack_interrupt sl b (t_interrupt t)\<rparr>)"
  by ((rule t_ok_frame[OF assms]; simp), (rule t_ok_frame[OF assms]; simp add: t_status_def)+)

lemma t_ok_write_driver_features: "t_ok env t \<Longrightarrow> t_ok env (write_driver_features v t)"
  by (auto simp: write_driver_features_def t_status_def intro: t_ok_frame[of env t])

lemma t_ok_write_queue_address: "t_ok env t \<Longrightarrow> t_ok env (write_queue_address offset v t)"
  by (simp add: write_queue_address_def t_ok_updates)

lemma t_ok_notify: "t_ok env t \<Longrightarrow> t_ok env (notify env2 v t)"
  by (simp add: notify_def Let_def t_ok_updates)

lemma t_ok_write_control: "t_ok env t \<Longrightarrow> t_ok env (write_control env offset v t)"
  by (simp add: write_control_def t_ok_updates t_ok_write_driver_features t_ok_write_queue_address
      t_ok_notify t_ok_write_status)

lemma t_ok_read_config: "t_ok env t \<Longrightarrow> t_ok env (fst (read_config_space env offset data t))"
  by (auto simp: read_config_space_def t_status_def split: prod.splits sum.splits
      intro!: t_ok_handle_error t_ok_frame[of env t])

lemma t_ok_write_config: "t_ok env t \<Longrightarrow> t_ok env (write_config_space env offset data t)"
  by (auto simp: write_config_space_def t_status_def split: prod.splits sum.splits
      intro!: t_ok_handle_error t_ok_frame[of env t])

lemma t_ok_read:
  assumes "t_ok env t"
  shows "t_ok env (fst (MmioTransport_read env t offset data))"
  using assms t_ok_read_config[of env] 
  by (auto simp: MmioTransport_read_def Let_def split: prod.splits) (metis fst_conv)+

lemma t_ok_write:
  assumes "t_ok env t"
  shows "t_ok env (MmioTransport_write env t offset data)"
  using assms by (auto simp: MmioTransport_write_def Let_def intro!: t_ok_write_control t_ok_write_config)

text \<open>
  What can happen to a transport: a guest access, and between accesses whatever the worker thread
  does with the device, its slot, the shared interrupt handle and the event channel. It may set
  DEVICE_NEEDS_RESET and raise either interrupt, and nothing else in the status register.
\<close>

inductive transport_step ::
    "('d, 'w, 'g, 'c, 'q, 'm, 'chain, 'desc) mmio_env \<Rightarrow> ('d, 'w, 'c, 'm) transport \<Rightarrow>
     ('d, 'w, 'c, 'm) transport \<Rightarrow> bool" for env where
  guest_read: "MmioTransport_read env t offset data = (t', data') \<Longrightarrow> transport_step env t t'"
| guest_write: "transport_step env t (MmioTransport_write env t offset data)"
| worker_event: "transport_step env t (t\<lparr>t_device := d, t_worker := w, t_sent := t_sent t @ sent\<rparr>)"
| worker_raise: "transport_step env t (t\<lparr>t_interrupt := MmioInterrupt_raise (e_line env) (t_interrupt t)\<rparr>)"
| worker_config: "transport_step env t (t_raise_config env t)"
| worker_needs_reset: "transport_step env t (t\<lparr>t_interrupt := set_needs_reset (t_interrupt t)\<rparr>)"

inductive transport_reachable ::
    "('d, 'w, 'g, 'c, 'q, 'm, 'chain, 'desc) mmio_env \<Rightarrow> ('d, 'w, 'c, 'm) transport \<Rightarrow> bool" for env where
  built: "MmioTransport_new env dev (MmioInterrupt_new chip l) mem worker [] = Inr t \<Longrightarrow>
    transport_reachable env t"
| step: "transport_reachable env t \<Longrightarrow> transport_step env t t' \<Longrightarrow> transport_reachable env t'"

lemma t_ok_new:
  assumes "MmioTransport_new env dev (MmioInterrupt_new chip l) mem worker sent = Inr t"
  shows "t_ok env t"
  using assms
  by (auto simp: MmioTransport_new_def Let_def t_ok_def spec_fits_def fresh_queues_def status_link_def
      t_status_def MmioInterrupt_new_def not_less split: if_splits)

lemma t_ok_step:
  assumes "t_ok env t" "transport_step env t t'"
  shows "t_ok env t'"
  using assms(2)
proof cases
  case (guest_read offset data data')
  then show ?thesis using t_ok_read[OF assms(1), of offset data] by simp
next
  case guest_write
  then show ?thesis using t_ok_write[OF assms(1)] by simp
next
  case worker_event
  then show ?thesis using t_ok_frame[OF assms(1)] by (simp add: t_status_def)
next
  case worker_raise
  then show ?thesis using t_ok_frame[OF assms(1)] by (simp add: t_status_def)
next
  case worker_config
  show ?thesis unfolding worker_config
    by (rule t_ok_cong[OF assms(1)]) (use assms(1) in \<open>simp_all add: t_ok_def\<close>)
next
  case worker_needs_reset
  show ?thesis unfolding worker_needs_reset
    by (rule t_ok_cong[OF assms(1)])
      (use assms(1) in \<open>auto simp: t_ok_def t_status_def intro: status_link_mono(1)\<close>)
qed

lemma t_ok_reachable: "transport_reachable env t \<Longrightarrow> t_ok env t"
  by (induction rule: transport_reachable.induct) (auto intro: t_ok_new t_ok_step)

section \<open>What the driver can and cannot do\<close>

text \<open>
  C8. A transport never runs a device with features it did not offer: in every state a driver and
  the worker thread can reach, an active transport shows FEATURES_OK and DRIVER_OK, the driver
  accepted VERSION_1 and only offered features, and none of the transport features the code does
  not implement; the queue shadow has one entry per declared queue.
\<close>

theorem active_features_sound:
  assumes "transport_reachable env t" "active t"
  shows "t_status t AND FEATURES_OK \<noteq> 0 \<and> t_status t AND DRIVER_OK \<noteq> 0 \<and>
    driver_features t AND VIRTIO_F_VERSION_1 \<noteq> 0 \<and>
    driver_features t AND NOT (spec_features (t_spec t) OR VIRTIO_F_VERSION_1) = 0 \<and>
    driver_features t AND UNSUPPORTED_TRANSPORT_FEATURES = 0 \<and>
    length (t_queues t) = length (queue_max (t_spec t)) \<and> length (t_queues t) \<le> MAX_QUEUES"
proof -
  have ok: "t_ok env t" by (rule t_ok_reachable[OF assms(1)])
  then have link: "status_link (t_status t) True True" and bounded: "features_bounded t"
    using assms(2) by (auto simp: t_ok_def status_link_def)
  have "driver_features t AND NOT (spec_features (t_spec t) OR VIRTIO_F_VERSION_1) = 0 \<and>
      driver_features t AND UNSUPPORTED_TRANSPORT_FEATURES = 0"
    using bounded unfolding features_bounded_def offered_features_def
    by (auto simp: bit_eq_iff bit_and_iff bit_or_iff bit_not_iff)
  then show ?thesis
    using ok link bounded
    by (auto simp: t_ok_def spec_fits_def status_link_def features_bounded_def flag_test)
qed

text \<open>The queue registers of a transport.\<close>

definition queue_regs :: "('d, 'w, 'c, 'm) transport \<Rightarrow> u32 \<times> queue_config list" where
  "queue_regs t = (queue_sel t, t_queues t)"

lemma queue_regs_setup: "t_setup t' = t_setup t \<Longrightarrow> queue_regs t' = queue_regs t \<and>
    driver_features t' = driver_features t \<and> t_spec t' = t_spec t"
  by (simp add: t_setup_def queue_regs_def)

lemma bring_up_cases:
  obtains (unprepared) w e where "wc_prepare (e_worker env) (t_worker t) = (w, Inl e)"
      "bring_up env new t = report_worker_failure e (t_raise_config env
         (t_set_status ((new AND NOT DRIVER_OK) OR NEEDS_RESET) (t\<lparr>t_worker := w\<rparr>)))"
    | (started) w g t1 w1 where "wc_prepare (e_worker env) (t_worker t) = (w, Inr g)"
      "t_activate env g (t\<lparr>t_worker := w\<rparr>) = (t1, Inr ())"
      "wc_start (e_worker env) (t_worker t1) = (w1, Inr ())"
      "bring_up env new t = (t_set_status new t1)\<lparr>t_worker := w1, active := True\<rparr>"
    | (unstarted) w g t1 w1 e where "wc_prepare (e_worker env) (t_worker t) = (w, Inr g)"
      "t_activate env g (t\<lparr>t_worker := w\<rparr>) = (t1, Inr ())"
      "wc_start (e_worker env) (t_worker t1) = (w1, Inl e)"
      "bring_up env new t = report_worker_failure e (t_raise_config env (t_set_status (new OR NEEDS_RESET)
         ((t_set_status new t1)\<lparr>t_worker := wc_cancel_prepare (e_worker env) w1\<rparr>)))"
    | (refused) w g t1 e t2 b t3 where "wc_prepare (e_worker env) (t_worker t) = (w, Inr g)"
      "t_activate env g (t\<lparr>t_worker := w\<rparr>) = (t1, Inl e)"
      "device_reset env (t1\<lparr>t_worker := wc_cancel_prepare (e_worker env) (t_worker t1)\<rparr>) = (t2, b)"
      "t3 = t2 \<or> (\<exists>e. t3 = report_worker_failure e t2)"
      "bring_up env new t = t_raise_config env (t_set_status ((new AND NOT DRIVER_OK) OR NEEDS_RESET)
           (t3\<lparr>features_ok := False\<rparr>)) \<or>
       bring_up env new t = report_worker_failure e (t_raise_config env
         (t_set_status ((new AND NOT DRIVER_OK) OR NEEDS_RESET) (t3\<lparr>features_ok := False\<rparr>)))"
proof -
  obtain w p where prep: "wc_prepare (e_worker env) (t_worker t) = (w, p)"
    by (cases "wc_prepare (e_worker env) (t_worker t)")
  show ?thesis
  proof (cases p)
    case (Inl e)
    then show ?thesis using unprepared prep by (simp add: bring_up_def)
  next
    case p: (Inr g)
    obtain t1 r where act: "t_activate env g (t\<lparr>t_worker := w\<rparr>) = (t1, r)"
      by (cases "t_activate env g (t\<lparr>t_worker := w\<rparr>)")
    have tw: "t_worker (t_set_status new t1) = t_worker t1" by (simp add: t_set_status_def)
    show ?thesis
    proof (cases r)
      case r: (Inr u)
      obtain w1 s where start: "wc_start (e_worker env) (t_worker t1) = (w1, s)"
        by (cases "wc_start (e_worker env) (t_worker t1)")
      show ?thesis
        using started[of w g t1 w1] unstarted[of w g t1 w1] prep p act r start tw
        by (cases s) (simp_all add: bring_up_def Let_def)
    next
      case r: (Inl e)
      obtain t2 b where rollback:
        "device_reset env (t1\<lparr>t_worker := wc_cancel_prepare (e_worker env) (t_worker t1)\<rparr>) = (t2, b)"
        by (cases "device_reset env (t1\<lparr>t_worker := wc_cancel_prepare (e_worker env) (t_worker t1)\<rparr>)")
      define t3 where "t3 = (case b of Inl e2 \<Rightarrow> report_worker_failure e2 t2 | Inr _ \<Rightarrow> t2)"
      have "t3 = t2 \<or> (\<exists>e. t3 = report_worker_failure e t2)"
        by (auto simp: t3_def split: sum.split)
      moreover have "bring_up env new t =
          (case e of Fatal _ \<Rightarrow> report_worker_failure e (t_raise_config env
             (t_set_status ((new AND NOT DRIVER_OK) OR NEEDS_RESET) (t3\<lparr>features_ok := False\<rparr>)))
           | _ \<Rightarrow> t_raise_config env
             (t_set_status ((new AND NOT DRIVER_OK) OR NEEDS_RESET) (t3\<lparr>features_ok := False\<rparr>)))"
        unfolding t3_def using prep p act r rollback by (simp add: bring_up_def Let_def)
      ultimately show ?thesis
        using refused prep p act r rollback by (cases e) auto
    qed
  qed
qed

lemma t_setup_started [simp]: "t_setup (t\<lparr>t_worker := w, active := a\<rparr>) = t_setup t"
  by (simp add: t_setup_def)

lemma bring_up_setup: "t_setup (bring_up env new t) = t_setup t"
proof (cases rule: bring_up_cases[where env = env and t = t and new = new])
  case (refused w g t1 e t2 b t3)
  then show ?thesis using t_activate_result(1)[OF refused(2)] device_reset_result(1)[OF refused(3)] by auto
qed (auto dest!: t_activate_result(1))

lemma write_status_setup:
  assumes "value \<noteq> 0"
  shows "t_setup (write_status env value t) = t_setup t"
  using assms refl
proof (cases rule: write_status_cases[where env = env and t = t])
  case (refused t1)
  then show ?thesis using feature_gate_result(1)[OF refused(1)] by simp
next
  case (early t1)
  then show ?thesis using feature_gate_result(1)[OF early(1)] by simp
next
  case (up t1)
  then show ?thesis using feature_gate_result(1)[OF up(1)] by (simp add: bring_up_setup)
next
  case (update t1)
  then show ?thesis using feature_gate_result(1)[OF update(1)] by simp
qed (simp_all add: fail_device_result)

lemma read_config_setup [simp]: "t_setup (fst (read_config_space env off d s)) = t_setup s"
  by (auto simp: read_config_space_def split: prod.splits sum.splits)

lemma read_setup:
  assumes "MmioTransport_read env t offset data = (t', data')"
  shows "t_setup t' = t_setup t"
proof -
  obtain t1 low where one: "read_config_space env (offset - CONFIG_OFFSET) (take 4 data) t = (t1, low)"
    by (cases "read_config_space env (offset - CONFIG_OFFSET) (take 4 data) t")
  obtain t2 high where two:
    "read_config_space env (offset - CONFIG_OFFSET + 4) (drop 4 data) t1 = (t2, high)"
    by (cases "read_config_space env (offset - CONFIG_OFFSET + 4) (drop 4 data) t1")
  have "t' = t \<or> t' = fst (read_config_space env (offset - CONFIG_OFFSET) data t) \<or> t' = t2"
    using assms one two by (auto simp: MmioTransport_read_def Let_def split: if_splits)
  moreover have "t_setup t2 = t_setup t"
    using read_config_setup[of env _ _ t] read_config_setup[of env _ _ t1] one two by (metis fst_conv)
  ultimately show ?thesis by auto
qed

lemma write_config_setup [simp]: "t_setup (write_config_space env offset data t) = t_setup t"
  by (auto simp: write_config_space_def split: prod.splits sum.splits)

lemma write_cases:
  obtains (same) "MmioTransport_write env t offset data = t"
    | (control) "offset < CONFIG_OFFSET" "length data = 4"
        "MmioTransport_write env t offset data = write_control env offset (from_le_bytes data) t"
    | (config) "t_setup (MmioTransport_write env t offset data) = t_setup t"
        "active (MmioTransport_write env t offset data) = active t" "\<not> offset < CONFIG_OFFSET"
proof -
  have act: "active (write_config_space env o' d s) = active s" for o' d s
    by (auto simp: write_config_space_def split: prod.splits sum.splits)
  show ?thesis
    using same control config
    by (cases "offset < CONFIG_OFFSET"; cases "length data = 4"; cases "offset mod 4 = 0"; cases "offset < MMIO_WINDOW_LEN")
      (simp_all add: MmioTransport_write_def Let_def act split: if_splits)
qed

lemma control_regs_frozen:
  assumes "\<not> queue_writable t" "offset = 0x70 \<longrightarrow> v \<noteq> 0"
  shows "queue_regs (write_control env offset v t) = queue_regs t"
proof (cases "offset = 0x70")
  case True
  then show ?thesis using assms queue_regs_setup[OF write_status_setup[of v env t]]
    by (simp add: write_control_def)
next
  case False
  then show ?thesis using assms
    by (simp add: write_control_def write_queue_address_def queue_regs_def write_driver_features_def
        notify_def Let_def)
qed

lemma control_features_frozen:
  assumes "features_ok t" "offset = 0x70 \<longrightarrow> v \<noteq> 0"
  shows "driver_features (write_control env offset v t) = driver_features t"
proof (cases "offset = 0x70")
  case True
  then show ?thesis using assms queue_regs_setup[OF write_status_setup[of v env t]]
    by (simp add: write_control_def)
next
  case False
  then show ?thesis using assms
    by (simp add: write_control_def write_queue_address_def write_driver_features_def notify_def Let_def)
qed

lemma reset_still_active:
  assumes act: "active t" and still: "active (t_reset env t)"
  shows "t_setup (t_reset env t) = t_setup t \<and> t_device (t_reset env t) = t_device t \<and>
    t_status (t_reset env t) = t_status t \<and> (\<exists>e. snd (wc_stop (e_worker env) (t_worker t)) = Inl e)"
proof -
  obtain w r where stop: "wc_stop (e_worker env) (t_worker t) = (w, r)"
    by (cases "wc_stop (e_worker env) (t_worker t)")
  show ?thesis
  proof (cases r)
    case (Inl e)
    then show ?thesis using act stop
      by (simp add: t_reset_def) (simp add: report_worker_failure_def send_device_failed_def)
  next
    case (Inr u)
    obtain t1 x where "device_reset env (t\<lparr>t_worker := w, active := False\<rparr>) = (t1, x)"
      by (cases "device_reset env (t\<lparr>t_worker := w, active := False\<rparr>)")
    then have "\<not> active (t_reset env t)"
      using Inr act stop device_reset_result(3) by (cases x) (fastforce simp: t_reset_def)+
    then show ?thesis using still by simp
  qed
qed

text \<open>
  C15. The queues a running device was given cannot change under it: from any reachable state, a
  step of the driver or of the worker thread that leaves the device active leaves the queue
  selector, every queue's size, addresses and ready bit, and the accepted features as they are.
  Only a Status=0 write, which first stops the worker, ends this.
\<close>

theorem active_queues_frozen:
  assumes reach: "transport_reachable env t" and act: "active t"
    and step: "transport_step env t t'" and still: "active t'"
  shows "queue_sel t' = queue_sel t \<and> t_queues t' = t_queues t \<and> driver_features t' = driver_features t"
proof -
  have "t_ok env t" by (rule t_ok_reachable[OF reach])
  then have frozen: "\<not> queue_writable t" and fok: "features_ok t"
    using act by (auto simp: t_ok_def status_link_def status_bits queue_writable_def)
  have kept: "queue_regs t' = queue_regs t \<and> driver_features t' = driver_features t \<Longrightarrow> ?thesis"
    by (simp add: queue_regs_def)
  show ?thesis
    using step
  proof cases
    case (guest_read offset data data')
    then show ?thesis using kept queue_regs_setup[OF read_setup] by blast
  next
    case (guest_write offset data)
    show ?thesis
    proof (cases rule: write_cases[where env = env and t = t and offset = offset and data = data])
      case same
      then show ?thesis using guest_write by simp
    next
      case control
      show ?thesis
      proof (cases "offset = 0x70 \<and> from_le_bytes data = (0 :: u32)")
        case True
        then have "t' = t_reset env t"
          using guest_write control by (simp add: write_control_def write_status_def)
        then show ?thesis using reset_still_active[OF act] still kept queue_regs_setup by blast
      next
        case False
        then show ?thesis
          using kept guest_write control(3) control_regs_frozen[OF frozen] control_features_frozen[OF fok]
          by metis
      qed
    next
      case config
      then show ?thesis using kept queue_regs_setup guest_write by blast
    qed
  qed (auto simp: queue_regs_def t_raise_config_def)
qed

text \<open>
  A device is started in one order only: if a write makes the transport active, it was a
  Status write, a worker generation was prepared, the device accepted an activation context that
  holds exactly the configured queues with the accepted features, the status register shows the
  driver's bits, and only then was the generation started.
\<close>

theorem activation_in_order:
  assumes "\<not> active t" "active (MmioTransport_write env t offset data)"
  shows "offset = 0x70 \<and>
    (\<exists>w g ctx d0 d w' w''.
       wc_prepare (e_worker env) (t_worker t) = (w, Inr g) \<and>
       transport_context env g t = Inr ctx \<and>
       (d0 = t_device t \<or> fst (negotiate_features env t) = t\<lparr>t_device := d0, features_ok := True\<rparr>) \<and>
       vd_activate (e_device env) d0 ctx w = (d, w', Inr ()) \<and>
       wc_start (e_worker env) w' = (w'', Inr ()) \<and>
       t_worker (MmioTransport_write env t offset data) = w'' \<and>
       t_device (MmioTransport_write env t offset data) = d \<and>
       t_status (MmioTransport_write env t offset data) =
         t_status t OR ((ucast (from_le_bytes data :: u32) :: u8) AND DRIVER_STATUS_BITS))"
proof -
  let ?t' = "MmioTransport_write env t offset data" and ?v = "from_le_bytes data :: u32"
  let ?bits = "(ucast ?v :: u8) AND DRIVER_STATUS_BITS"
  have ctl: "offset < CONFIG_OFFSET" "?t' = write_control env offset ?v t"
    using assms by (cases rule: write_cases[where env = env and t = t and offset = offset and data = data]; simp)+
  have off: "offset = 0x70"
  proof (rule ccontr)
    assume "offset \<noteq> 0x70"
    then have "active (write_control env offset ?v t) = active t"
      by (simp add: write_control_def write_driver_features_def notify_def write_queue_address_def Let_def)
    then show False using assms ctl by simp
  qed
  then have t': "?t' = write_status env ?v t" using ctl by (simp add: write_control_def)
  have nz: "?v \<noteq> 0"
  proof
    assume "?v = 0"
    then have "\<not> active ?t'"
      using assms(1) device_reset_result(3)
      by (auto simp: t' write_status_def t_reset_def split: prod.splits sum.splits)
    then show False using assms(2) by simp
  qed
  obtain t1 where gate: "feature_gate env ?bits t = (t1, False)" "write_status env ?v t = bring_up env (t_status t OR ?bits) t1"
    using nz refl
  proof (cases rule: write_status_cases[where env = env and t = t])
    case (refused t1)
    then show ?thesis using assms t' feature_gate_result(3)[OF refused(1)] by simp
  next
    case (early t1)
    then show ?thesis using assms t' by simp
  next
    case (update t1)
    then show ?thesis using assms t' feature_gate_result(3)[OF update(1)] by simp
  next
    case failed
    then show ?thesis using assms t' fail_device_result(4) by simp blast
  qed (use assms t' that in auto)
  have act1: "\<not> active t1" using feature_gate_result(3)[OF gate(1)] assms(1) by simp
  have dev: "t_device t1 = t_device t \<or>
      fst (negotiate_features env t) = t\<lparr>t_device := t_device t1, features_ok := True\<rparr>"
    using feature_gate_result(9)[OF gate(1)] by auto
  have same: "t_worker t1 = t_worker t" "t_setup t1 = t_setup t"
    using feature_gate_result[OF gate(1)] by simp_all
  show ?thesis
  proof (cases rule: bring_up_cases[where env = env and t = t1 and new = "t_status t OR ?bits"])
    case unprepared
    then show ?thesis using assms(2) act1 by (simp add: t' gate)
  next
    case (unstarted w g t2 w1 e)
    then show ?thesis using assms(2) act1 t_activate_result(3)[OF unstarted(2)] by (simp add: t' gate)
  next
    case (refused w g t2 e t3 b t4)
    then have "\<not> active ?t'"
      using act1 t_activate_result(3)[OF refused(2)] device_reset_result(3)[OF refused(3)]
      by (auto simp: t' gate)
    then show ?thesis using assms(2) by simp
  next
    case (started w g t2 w1)
    obtain ctx d w' where ctx: "transport_context env g (t1\<lparr>t_worker := w\<rparr>) = Inr ctx"
      and act: "vd_activate (e_device env) (t_device t1) ctx w = (d, w', Inr ())"
      and t2: "t2 = t1\<lparr>t_device := d, t_worker := w'\<rparr>"
      using started(2) by (auto simp: t_activate_def split: sum.splits prod.splits)
    have "transport_context env g t = Inr ctx"
      using ctx same(2) by (simp add: transport_context_def t_setup_def)
    moreover have "t_status t1 = t_status t" using feature_gate_result(2)[OF gate(1)] .
    ultimately show ?thesis
      using dev started act t2 same unfolding t' gate(2)
      by (intro conjI off exI[of _ w] exI[of _ g] exI[of _ ctx] exI[of _ "t_device t1"] exI[of _ d]
          exI[of _ w'] exI[of _ w1])
        (simp_all add: t_status_def t_set_status_def set_device_status_def)
  qed
qed

text \<open>
  C14. Status=0 gives a new device: when the worker stops and the device resets, the transport is
  exactly the one \<open>MmioTransport::new\<close> builds from the reset device, with every register, queue,
  feature and flag at its initial value; only the configuration generation, the interrupt line and
  the events already sent survive.
\<close>

theorem reset_is_fresh:
  assumes reach: "transport_reachable env t"
    and stop: "if active t then wc_stop (e_worker env) (t_worker t) = (w, Inr ()) else w = t_worker t"
    and reset: "vd_reset (e_device env) (t_device t) w = (d, w', Inr ())"
    and spec: "vd_spec (e_device env) d = t_spec t"
    and data: "length data = 4" "from_le_bytes data = (0 :: u32)"
  shows "MmioTransport_new env d (MmioInterrupt_reset (t_interrupt t)) (t_memory t) w' (t_sent t) =
    Inr (MmioTransport_write env t 0x70 data)"
proof -
  have fits: "spec_fits env (t_spec t)" using t_ok_reachable[OF reach] by (simp add: t_ok_def)
  have written: "MmioTransport_write env t 0x70 data = t_reset env t"
    using data by (simp add: MmioTransport_write_def CONFIG_OFFSET_def write_control_def write_status_def)
  have dev: "device_reset env (t\<lparr>t_worker := w, active := False\<rparr>) =
      (t\<lparr>t_device := d, t_worker := w', active := False\<rparr>, Inr ())"
    using reset by (simp add: device_reset_def)
  have reset_t: "t_reset env t = t\<lparr>t_device := d, t_worker := w', active := False, features_ok := False,
      driver_features := 0, device_features_sel := 0, driver_features_sel := 0, queue_sel := 0,
      t_queues := fresh_queues (t_spec t), t_interrupt := MmioInterrupt_reset (t_interrupt t)\<rparr>"
  proof (cases "active t")
    case True
    then show ?thesis using stop dev by (simp add: t_reset_def)
  next
    case False
    then have "t\<lparr>t_worker := w, active := False\<rparr> = t" using stop by simp
    then show ?thesis using False dev by (simp add: t_reset_def)
  qed
  show ?thesis
    using fits unfolding written reset_t
    by (auto simp: MmioTransport_new_def Let_def spec spec_fits_def not_less)
qed

text \<open>
  \<open>with_config env rd wr\<close> is the environment whose device has other configuration accessors.
\<close>

definition with_config where
  "with_config env rd wr =
     env\<lparr>e_device := (e_device env)\<lparr>vd_read_config := rd, vd_write_config := wr\<rparr>\<rparr>"

lemma with_config_simps [simp]:
  "vd_set_features (e_device (with_config env rd wr)) = vd_set_features (e_device env)"
  "vd_activate (e_device (with_config env rd wr)) = vd_activate (e_device env)"
  "vd_reset (e_device (with_config env rd wr)) = vd_reset (e_device env)"
  "vd_read_config (e_device (with_config env rd wr)) = rd"
  "vd_write_config (e_device (with_config env rd wr)) = wr"
  "e_worker (with_config env rd wr) = e_worker env"
  "e_line (with_config env rd wr) = e_line env"
  "e_queue (with_config env rd wr) = e_queue env"
  "e_queue_new (with_config env rd wr) = e_queue_new env"
  "e_try_set_size (with_config env rd wr) = e_try_set_size env"
  "e_try_set_desc_table_address (with_config env rd wr) = e_try_set_desc_table_address env"
  "e_try_set_avail_ring_address (with_config env rd wr) = e_try_set_avail_ring_address env"
  "e_try_set_used_ring_address (with_config env rd wr) = e_try_set_used_ring_address env"
  "e_set_ready (with_config env rd wr) = e_set_ready env"
  by (simp_all add: with_config_def)

lemma with_config_ops [simp]:
  "t_raise_config (with_config env rd wr) t = t_raise_config env t"
  "need_reset (with_config env rd wr) t = need_reset env t"
  "notify (with_config env rd wr) v t = notify env v t"
  "negotiate_features (with_config env rd wr) t = negotiate_features env t"
  "build_queue (with_config env rd wr) c mx = build_queue env c mx"
  "device_reset (with_config env rd wr) t = device_reset env t"
  unfolding t_raise_config_def need_reset_def notify_def negotiate_features_def build_queue_def
    device_reset_def with_config_simps by (rule refl)+

lemma with_config_errors [simp]: "handle_device_error (with_config env rd wr) e t = handle_device_error env e t"
  by (cases e) simp_all

lemma with_config_queues [simp]: "build_queues (with_config env rd wr) cs ms = build_queues env cs ms"
  by (induction env cs ms rule: build_queues.induct) simp_all

lemma with_config_activate [simp]: "t_activate (with_config env rd wr) g t = t_activate env g t"
  unfolding t_activate_def transport_context_def with_config_simps with_config_queues by (rule refl)

lemma with_config_control [simp]:
  "write_control (with_config env rd wr) offset v t = write_control env offset v t"
  unfolding write_control_def write_status_def t_reset_def fail_device_def feature_gate_def bring_up_def
    with_config_simps with_config_ops with_config_activate with_config_errors
  by (rule refl)

text \<open>
  No guest access reaches the device's configuration space out of range: in every reachable
  state, whatever the offset and the width of the access, the transport behaves the same with any
  device whose accessors agree with the real ones on accesses inside the declared space, so those
  are the only calls it makes.
\<close>

theorem config_access_in_range:
  assumes reach: "transport_reachable env t"
    and agree_rd: "\<And>d off buf. unat off + length buf \<le> config_len (t_spec t) \<Longrightarrow> buf \<noteq> [] \<Longrightarrow>
      rd d off buf = vd_read_config (e_device env) d off buf"
    and agree_wr: "\<And>d off buf. unat off + length buf \<le> config_len (t_spec t) \<Longrightarrow> buf \<noteq> [] \<Longrightarrow>
      wr d off buf = vd_write_config (e_device env) d off buf"
  shows "MmioTransport_read (with_config env rd wr) t offset data = MmioTransport_read env t offset data \<and>
    MmioTransport_write (with_config env rd wr) t offset data = MmioTransport_write env t offset data"
proof -
  have len: "config_len (t_spec t) \<le> 0xF00"
    using t_ok_reachable[OF reach] by (simp add: t_ok_def spec_fits_def MAX_CONFIG_LEN_def)
  have in_range: "unat off + length buf \<le> config_len (t_spec t)"
    if "config_in_range off (length buf) s" "length buf \<le> 8" "t_spec s = t_spec t" for off s and buf :: "u8 list"
  proof -
    have small: "unat (word_of_nat n :: u64) = n" if "n \<le> 0xF00" for n
      using that by (intro of_nat_inverse[OF refl]) simp
    show ?thesis
      using that len small[of "length buf"] small[of "config_len (t_spec t)"]
      by (auto simp: config_in_range_def checked_add_Some word_le_nat_alt split: option.splits)
  qed
  have rd: "read_config_space (with_config env rd wr) off buf s = read_config_space env off buf s"
    if "length buf \<le> 8" "buf \<noteq> []" "t_spec s = t_spec t" for off buf s
    using in_range[of off buf s] that agree_rd by (simp add: read_config_space_def)
  have wr: "write_config_space (with_config env rd wr) off buf s = write_config_space env off buf s"
    if "length buf \<le> 8" "buf \<noteq> []" "t_spec s = t_spec t" for off buf s
    using in_range[of off buf s] that agree_wr by (simp add: write_config_space_def)
  have spec_rd: "t_spec s' = t_spec s" if "read_config_space env off buf s = (s', b')" for off buf s s' b'
    using queue_regs_setup[OF read_config_setup[of env off buf s]] that by simp
  have spec_wr: "t_spec (write_config_space env off buf s) = t_spec s" for off buf s
    using queue_regs_setup[OF write_config_setup] by blast
  consider (narrow) "length data \<in> {1, 2, 4}" | (wide) "length data = 8"
    | (none) "length data \<notin> {1, 2, 4, 8}" by blast
  then show ?thesis
  proof cases
    case narrow
    then have "length data \<le> 8" "data \<noteq> []" by auto
    then show ?thesis
      unfolding MmioTransport_read_def MmioTransport_write_def Let_def with_config_control
      using narrow by (simp add: rd wr)
  next
    case wide
    obtain t1 low where one: "read_config_space env (offset - CONFIG_OFFSET) (take 4 data) t = (t1, low)"
      by (cases "read_config_space env (offset - CONFIG_OFFSET) (take 4 data) t")
    have "take 4 data \<noteq> []" "drop 4 data \<noteq> []" using wide by auto
    then show ?thesis
      unfolding MmioTransport_read_def MmioTransport_write_def Let_def with_config_control
      using wide spec_rd[OF one] one by (simp add: rd wr spec_wr)
  next
    case none
    then show ?thesis
      unfolding MmioTransport_read_def MmioTransport_write_def Let_def with_config_control by simp
  qed
qed

text \<open>
  The feature registers carry 64 bits faithfully: before FEATURES_OK, selecting and writing the
  two halves latches exactly the driver's 64-bit value, and the two halves of the device features
  register put together are exactly the offered features.
\<close>

theorem feature_registers_roundtrip:
  assumes "\<not> features_ok t" "t_status t AND (FEATURES_OK OR FAILED OR NEEDS_RESET) = 0"
  shows "driver_features
      (write_control env 0x20 (ucast (drop_bit 32 v)) (write_control env 0x24 1
        (write_control env 0x20 (ucast v) (write_control env 0x24 0 t)))) = v \<and>
    push_bit 32 (ucast (read_control (write_control env 0x14 1 t) 0x10)) OR
      ucast (read_control (write_control env 0x14 0 t) 0x10) = offered_features t"
proof -
  have status: "t_status (t\<lparr>driver_features_sel := a\<rparr>) = t_status t"
    "t_status (t\<lparr>driver_features_sel := a, driver_features := f\<rparr>) = t_status t"
    "t_status (t\<lparr>driver_features_sel := a, driver_features := f\<rparr>\<lparr>driver_features_sel := b\<rparr>) = t_status t"
    for a b f by (simp_all add: t_status_def)
  have halves: "high_half (low_half w (ucast v)) (ucast (drop_bit 32 v)) = v" for w
    by (rule bit_word_eqI)
      (auto simp: high_half_def low_half_def bit_or_iff bit_and_iff bit_not_iff bit_push_bit_iff
        bit_ucast_iff bit_drop_bit_eq)
  have "push_bit 32 (ucast (ucast (drop_bit 32 o1) :: u32)) OR ucast (ucast o1 :: u32) = o1" for o1 :: u64
    by (rule bit_word_eqI)
      (auto simp: bit_or_iff bit_push_bit_iff bit_ucast_iff bit_drop_bit_eq)
  moreover have "offered_features (t\<lparr>device_features_sel := a\<rparr>) = offered_features t" for a
    by (simp add: offered_features_def)
  ultimately show ?thesis
    using assms halves status
    by (simp add: write_control_def write_driver_features_def read_control_def)
qed

section \<open>The command line\<close>

text \<open>
  Announcing the slots never overruns the kernel's command-line buffer, whatever it starts
  with under the limit, and when it succeeds the line is the old one followed by the arguments,
  separated by single blanks.
\<close>

theorem announce_fits:
  assumes "length cmdline < MAX_CMDLINE_BYTES"
  shows "length (fst (announce cmdline slots)) < MAX_CMDLINE_BYTES \<and>
    (is_ok (snd (announce cmdline slots)) \<longrightarrow> fst (announce cmdline slots) =
       (if cmdline = [] \<and> slots \<noteq> [] then tl else id)
         (cmdline @ concat (map (\<lambda>s. '' '' @ cmdline_arg s) slots)))"
  using assms
proof (induction slots arbitrary: cmdline)
  case Nil
  then show ?case by simp
next
  case (Cons s slots)
  let ?full = "MAX_CMDLINE_BYTES \<le> length cmdline + length (cmdline_arg s) + (if cmdline = [] then 0 else 1)"
  let ?line = "cmdline @ (if cmdline = [] then [] else '' '') @ cmdline_arg s"
  show ?case
  proof (cases ?full)
    case True
    then show ?thesis using Cons.prems by (simp add: Let_def)
  next
    case False
    have "?line \<noteq> []" by (simp add: cmdline_arg_def)
    then show ?thesis using Cons.IH[of ?line] False by (auto simp: Let_def)
  qed
qed

section \<open>A driver's session\<close>

text \<open>
  A concrete transport for the witnesses: a one-queue device, a worker that counts its phase, and
  the list queue. The driver brings it up with the register writes of the virtio specification.
\<close>

definition demo_spec :: device_spec where
  "demo_spec = \<lparr>device_id = 5, spec_name = ''demo'', spec_features = 1, config_len = 8,
     queue_max = [8], snapshot = SnapshotUnsupported\<rparr>"

definition demo_device :: "(nat, nat, (list_queue, nat, unit) activation_context) virtio_device" where
  "demo_device = \<lparr>vd_spec = \<lambda>d. demo_spec, vd_set_features = \<lambda>d f. (d, Inr ()),
     vd_read_config = \<lambda>d off buf. (d, map (\<lambda>_. 7) buf, Inr ()),
     vd_write_config = \<lambda>d off buf. (d + length buf, Inr ()),
     vd_activate = \<lambda>d ctx w. (d + 1, w, Inr ()), vd_reset = \<lambda>d w. (0, w, Inr ())\<rparr>"

definition demo_worker :: "(nat, unit) worker_control" where
  "demo_worker = \<lparr>wc_prepare = \<lambda>w. (1, Inr ()), wc_start = \<lambda>w. (2, Inr ()), wc_kick = \<lambda>w i. w,
     wc_stop = \<lambda>w. (0, Inr ()), wc_cancel_prepare = \<lambda>w. 0\<rparr>"

definition demo_env :: "(nat, nat, unit, unit, list_queue, nat, u16, bool \<times> u16 option) mmio_env" where
  "demo_env = \<lparr>e_device = demo_device, e_worker = demo_worker, e_line = \<lambda>c n v. (c, Inr ()),
     e_queue = list_queue_ops,
     e_queue_new = \<lambda>mx. if mx = 8 then Some \<lparr>lq_avail = [], lq_popped = [], lq_used = []\<rparr> else None,
     e_try_set_size = \<lambda>n q. Some q, e_try_set_desc_table_address = \<lambda>a q. Some q,
     e_try_set_avail_ring_address = \<lambda>a q. Some q, e_try_set_used_ring_address = \<lambda>a q. Some q,
     e_set_ready = \<lambda>b q. q\<rparr>"

type_synonym demo = "(nat, nat, unit, nat) transport"

definition demo_new :: demo where
  "demo_new = \<lparr>t_device = 0, t_interrupt = MmioInterrupt_new () (IrqLine_new 5), t_memory = 0, t_sent = [],
     t_worker = 0, t_spec = demo_spec, device_features_sel = 0, driver_features_sel = 0,
     driver_features = 0, features_ok = False, active = False, queue_sel = 0,
     t_queues = fresh_queues demo_spec\<rparr>"

definition demo_write :: "u64 \<times> u8 \<Rightarrow> demo \<Rightarrow> demo" where
  "demo_write = (\<lambda>(offset, v) t. MmioTransport_write demo_env t offset [v, 0, 0, 0])"

definition demo_ready :: demo where
  "demo_ready = fold demo_write
     [(0x70, 1), (0x70, 3), (0x24, 1), (0x20, 1), (0x24, 0), (0x20, 1), (0x70, 0xB), (0x44, 1)] demo_new"

definition demo_active :: demo where
  "demo_active = demo_write (0x70, 0xF) demo_ready"

lemma demo_new_built: "MmioTransport_new demo_env 0 (MmioInterrupt_new () (IrqLine_new 5)) 0 0 [] = Inr demo_new"
  by (simp add: MmioTransport_new_def demo_env_def demo_device_def demo_spec_def demo_new_def
      Let_def MAX_CONFIG_LEN_def MAX_QUEUES_def)

lemma demo_reachable: "transport_reachable demo_env (fold demo_write ws demo_new)"
proof (induction ws rule: rev_induct)
  case Nil
  then show ?case using transport_reachable.built[OF demo_new_built] by simp
next
  case (snoc w ws)
  show ?case
    using transport_reachable.step[OF snoc guest_write[of demo_env _ "fst w" "[snd w, 0, 0, 0]"]]
    by (simp add: demo_write_def split_beta)
qed

lemma demo_ready_reachable: "transport_reachable demo_env demo_ready"
  unfolding demo_ready_def by (rule demo_reachable)

lemma demo_active_reachable: "transport_reachable demo_env demo_active"
  using demo_reachable[of "[(0x70, 1), (0x70, 3), (0x24, 1), (0x20, 1), (0x24, 0), (0x20, 1), (0x70, 0xB),
    (0x44, 1), (0x70, 0xF)]"]
  by (simp add: demo_active_def demo_ready_def)

lemma demo_le: "from_le_bytes [v, 0, 0, 0] = (ucast v :: u32)"
  by (simp add: from_le_bytes_def)

lemma low_mask: "(ucast (- 1 :: u32) :: u64) = 0xFFFFFFFF"
  by code_simp

lemmas demo_eval = demo_write_def MmioTransport_write_def CONFIG_OFFSET_def demo_le write_control_def
  write_status_def Let_def feature_gate_def t_status_def t_set_status_def set_device_status_def
  t_update_status_def update_device_status_alone queue_mut_def queue_writable_def
  write_driver_features_def low_half_def high_half_def low_mask
  ACKNOWLEDGE_def DRIVER_def DRIVER_OK_def FEATURES_OK_def FAILED_def NEEDS_RESET_def DRIVER_STATUS_BITS_def
  negotiate_features_def offered_features_def VIRTIO_F_VERSION_1_def UNSUPPORTED_TRANSPORT_FEATURES_def
  VIRTIO_F_RING_PACKED_def VIRTIO_F_NOTIFICATION_DATA_def VIRTIO_F_NOTIF_CONFIG_DATA_def
  VIRTIO_F_RING_RESET_def VIRTIO_F_ADMIN_VQ_def
  demo_env_def demo_device_def demo_spec_def fresh_queues_def MmioInterrupt_new_def demo_new_def

lemma demo_ready_state:
  "demo_ready = demo_new\<lparr>t_interrupt := (MmioInterrupt_new () (IrqLine_new 5))\<lparr>dev_status := 0xB\<rparr>,
     features_ok := True, driver_features_sel := 0, driver_features := 0x100000001,
     t_queues := [\<lparr>qc_size = 8, qc_desc = 0, qc_avail = 0, qc_used = 0, qc_ready = 1\<rparr>]\<rparr>"
  by (simp add: demo_ready_def demo_eval)

lemma demo_ready_inactive: "\<not> active demo_ready"
  by (simp add: demo_ready_state demo_new_def)

lemma demo_pow2: "is_power_of_two (8 :: u16)"
  unfolding is_power_of_two_def by (rule image_eqI[of _ _ 3]) simp_all

lemma demo_active_active: "active demo_active"
  by (simp add: demo_active_def demo_ready_state demo_eval bring_up_def demo_worker_def t_activate_def
      transport_context_def build_queue_def check_opt_def and_then_def VirtQueues_prepare_def
      check_queue_def demo_pow2 list_queue_ops_def)

lemma active_features_writable:
  assumes "transport_reachable env t" "active t"
  shows "\<not> queue_writable t"
  using t_ok_reachable[OF assms(1)] assms(2)
  by (auto simp: t_ok_def status_link_def status_bits queue_writable_def)

lemma demo_write_spec: "t_spec (demo_write w t) = t_spec t"
proof (cases w)
  case (Pair offset v)
  have "t_spec (t_reset demo_env t) = t_spec t" for t :: demo
    by (simp add: t_reset_def device_reset_def demo_env_def demo_worker_def demo_device_def)
  then have "t_spec (write_status demo_env v t) = t_spec t" for v and t :: demo
    using queue_regs_setup[OF write_status_setup[of v demo_env t]] by (cases "v = 0") (auto simp: write_status_def)
  then have "t_spec (write_control demo_env off v t) = t_spec t" for off v and t :: demo
    by (simp add: write_control_def write_driver_features_def notify_def write_queue_address_def Let_def)
  then show ?thesis
    using queue_regs_setup[of "demo_write w t" t]
    by (cases rule: write_cases[where env = demo_env and t = t and offset = offset and data = "[v, 0, 0, 0]"])
      (simp_all add: Pair demo_write_def)
qed

lemma demo_active_spec: "t_spec demo_active = demo_spec"
  by (simp add: demo_active_def demo_ready_def demo_write_spec) (simp add: demo_new_def)

theorem active_features_sound_witness:
  "t_status demo_active AND DRIVER_OK \<noteq> 0 \<and> driver_features demo_active AND UNSUPPORTED_TRANSPORT_FEATURES = 0"
  using active_features_sound[OF demo_active_reachable demo_active_active] by simp

theorem active_queues_frozen_witness:
  "t_queues (MmioTransport_write demo_env demo_active 0x38 [4, 0, 0, 0]) = t_queues demo_active"
proof -
  have "\<not> queue_writable demo_active"
    using active_features_writable[OF demo_active_reachable demo_active_active] .
  then have "MmioTransport_write demo_env demo_active 0x38 [4, 0, 0, 0] = demo_active"
    by (simp add: MmioTransport_write_def CONFIG_OFFSET_def write_control_def)
  then have "active (MmioTransport_write demo_env demo_active 0x38 [4, 0, 0, 0])"
    using demo_active_active by simp
  then show ?thesis
    using active_queues_frozen[OF demo_active_reachable demo_active_active
        guest_write[of demo_env demo_active "0x38" "[4, 0, 0, 0]"]] by simp
qed

theorem activation_in_order_witness:
  "\<exists>ctx. transport_context demo_env () demo_ready = Inr ctx"
proof -
  have "active (MmioTransport_write demo_env demo_ready 0x70 [0xF, 0, 0, 0])"
    using demo_active_active by (simp add: demo_active_def demo_write_def)
  from activation_in_order[OF demo_ready_inactive this] show ?thesis by auto
qed

theorem reset_is_fresh_witness:
  "MmioTransport_new demo_env 0 (MmioInterrupt_reset (t_interrupt demo_active)) (t_memory demo_active) 0
     (t_sent demo_active) = Inr (MmioTransport_write demo_env demo_active 0x70 [0, 0, 0, 0])"
proof (rule reset_is_fresh[OF demo_active_reachable, where w = 0])
  show "if active demo_active then wc_stop (e_worker demo_env) (t_worker demo_active) = (0, Inr ())
      else 0 = t_worker demo_active"
    using demo_active_active by (simp add: demo_env_def demo_worker_def)
  show "vd_reset (e_device demo_env) (t_device demo_active) 0 = (0, 0, Inr ())"
    by (simp add: demo_env_def demo_device_def)
  show "vd_spec (e_device demo_env) 0 = t_spec demo_active"
    by (simp add: demo_env_def demo_device_def demo_active_spec)
  show "from_le_bytes [0, 0, 0, 0 :: u8] = (0 :: u32)" by (simp add: demo_le)
qed simp

theorem config_access_in_range_witness:
  "MmioTransport_read (with_config demo_env
       (\<lambda>d off buf. if unat off + length buf \<le> 8 then vd_read_config demo_device d off buf else (9, [], Inr ()))
       (vd_write_config demo_device)) demo_active 0x106 [0, 0, 0, 0] =
     MmioTransport_read demo_env demo_active 0x106 [0, 0, 0, 0]"
proof -
  show ?thesis
    by (rule config_access_in_range[OF demo_active_reachable, THEN conjunct1])
      (simp_all add: demo_active_spec demo_spec_def demo_env_def)
qed

theorem feature_registers_roundtrip_witness:
  "driver_features
      (write_control demo_env 0x20 (ucast (drop_bit 32 (0x300000005 :: u64))) (write_control demo_env 0x24 1
        (write_control demo_env 0x20 (ucast (0x300000005 :: u64)) (write_control demo_env 0x24 0 demo_new)))) =
   0x300000005"
  by (rule feature_registers_roundtrip[THEN conjunct1])
    (simp_all add: demo_new_def t_status_def MmioInterrupt_new_def)

theorem announce_fits_witness:
  "fst (announce ''ro'' [\<lparr>slot_base = 0xd0, slot_gsi = 5\<rparr>]) =
     ''ro'' @ '' '' @ cmdline_arg \<lparr>slot_base = 0xd0, slot_gsi = 5\<rparr>"
proof -
  have "is_ok (snd (announce ''ro'' [\<lparr>slot_base = 0xd0, slot_gsi = 5\<rparr>]))"
    by code_simp
  moreover have "length ''ro'' < MAX_CMDLINE_BYTES" by (simp add: MAX_CMDLINE_BYTES_def)
  ultimately show ?thesis
    using announce_fits[of "''ro''" "[\<lparr>slot_base = 0xd0, slot_gsi = 5\<rparr>]"]
    by (simp only: if_False list.simps simp_thms concat.simps append_Nil2 append_Cons append_Nil list.map id_apply)
qed

lemma cmdline_arg_example:
  "cmdline_arg \<lparr>slot_base = 0xd1, slot_gsi = 16\<rparr> = ''virtio_mmio.device=4K@0xd1:16''"
  by code_simp

section \<open>The device and its worker\<close>

text \<open>
  \<open>with_reset env f\<close> is the environment whose device resets by \<open>f\<close>. A transport whose worker keeps
  the contract calls the device's reset only while the worker is quiet: any \<open>f\<close> that agrees with
  the real reset on quiet workers gives the same transport.
\<close>

definition with_reset where
  "with_reset env f = env\<lparr>e_device := (e_device env)\<lparr>vd_reset := f\<rparr>\<rparr>"

lemma with_reset_simps [simp]:
  "vd_set_features (e_device (with_reset env f)) = vd_set_features (e_device env)"
  "vd_activate (e_device (with_reset env f)) = vd_activate (e_device env)"
  "vd_read_config (e_device (with_reset env f)) = vd_read_config (e_device env)"
  "vd_write_config (e_device (with_reset env f)) = vd_write_config (e_device env)"
  "vd_reset (e_device (with_reset env f)) = f"
  "e_worker (with_reset env f) = e_worker env" "e_line (with_reset env f) = e_line env"
  "e_queue (with_reset env f) = e_queue env" "e_queue_new (with_reset env f) = e_queue_new env"
  "e_try_set_size (with_reset env f) = e_try_set_size env"
  "e_try_set_desc_table_address (with_reset env f) = e_try_set_desc_table_address env"
  "e_try_set_avail_ring_address (with_reset env f) = e_try_set_avail_ring_address env"
  "e_try_set_used_ring_address (with_reset env f) = e_try_set_used_ring_address env"
  "e_set_ready (with_reset env f) = e_set_ready env"
  by (simp_all add: with_reset_def)

lemma with_reset_ops [simp]:
  "t_raise_config (with_reset env f) t = t_raise_config env t"
  "need_reset (with_reset env f) t = need_reset env t"
  "notify (with_reset env f) v t = notify env v t"
  "negotiate_features (with_reset env f) t = negotiate_features env t"
  "build_queue (with_reset env f) c mx = build_queue env c mx"
  "fail_device (with_reset env f) bits t = fail_device env bits t"
  unfolding t_raise_config_def need_reset_def notify_def negotiate_features_def build_queue_def
    fail_device_def with_reset_simps by (rule refl)+

lemma with_reset_errors [simp]: "handle_device_error (with_reset env f) e t = handle_device_error env e t"
  by (cases e) simp_all

lemma with_reset_queues [simp]: "build_queues (with_reset env f) cs ms = build_queues env cs ms"
  by (induction env cs ms rule: build_queues.induct) simp_all

lemma with_reset_activate [simp]: "t_activate (with_reset env f) g t = t_activate env g t"
  unfolding t_activate_def transport_context_def with_reset_simps with_reset_queues by (rule refl)

lemma with_reset_gate [simp]: "feature_gate (with_reset env f) bits t = feature_gate env bits t"
  unfolding feature_gate_def with_reset_ops by (rule refl)

lemma with_reset_write_config [simp]:
  "write_config_space (with_reset env f) off buf t = write_config_space env off buf t"
  unfolding write_config_space_def with_reset_simps with_reset_errors by (rule refl)

lemma error_worker [simp]:
  "t_worker (handle_device_error env e t) = t_worker t" "t_worker (report_worker_failure e t) = t_worker t"
  "t_worker (t_raise_config env t) = t_worker t" "t_worker (t_set_status st t) = t_worker t"
  "t_worker (need_reset env t) = t_worker t" "t_worker (t_update_status bits blocked t) = t_worker t"
  by (cases e; simp add: report_worker_failure_def send_device_failed_def t_raise_config_def
      t_set_status_def need_reset_def t_update_status_def)+

context worker_typestate
begin

text \<open>A device keeps the worker's state when it is activated and reset: it only registers sources.\<close>

definition device_keeps where
  "device_keeps env \<longleftrightarrow>
     (\<forall>d ctx w d' w' r. vd_activate (e_device env) d ctx w = (d', w', r) \<longrightarrow> unstarted w \<longrightarrow> unstarted w') \<and>
     (\<forall>d w d' w' r. vd_reset (e_device env) d w = (d', w', r) \<longrightarrow> quiet w \<longrightarrow> quiet w')"

lemma quiet_sane [simp]: "quiet w \<Longrightarrow> sane w"
  using quiet_unstarted unstarted_sane by blast

lemma stop_sane: "sane w \<Longrightarrow> wc_stop wc w = (w', r) \<Longrightarrow> sane w'"
  by (cases r) (auto dest: stop_quiet stop_err)

definition agrees_when_quiet where
  "agrees_when_quiet env f \<longleftrightarrow> (\<forall>d w. quiet w \<longrightarrow> f d w = vd_reset (e_device env) d w)"

definition follows where
  "follows t \<longleftrightarrow> sane (t_worker t) \<and> (active t \<or> quiet (t_worker t))"

lemma device_reset_quiet:
  assumes "device_keeps env" "agrees_when_quiet env f" "quiet (t_worker t)"
  shows "device_reset (with_reset env f) t = device_reset env t \<and> quiet (t_worker (fst (device_reset env t)))"
  using assms by (auto simp: device_reset_def device_keeps_def agrees_when_quiet_def split: prod.splits)

lemma t_activate_unstarted:
  assumes "device_keeps env" "unstarted (t_worker t)" "t_activate env g t = (t', r)"
  shows "unstarted (t_worker t')"
proof (cases "transport_context env g t")
  case (Inl e)
  then show ?thesis using assms by (auto simp: t_activate_def)
next
  case (Inr ctx)
  obtain d w x where "vd_activate (e_device env) (t_device t) ctx (t_worker t) = (d, w, x)"
    by (rule prod_cases3)
  moreover from this have "unstarted w" using assms(1,2) unfolding device_keeps_def by metis
  ultimately show ?thesis using assms(3) Inr by (auto simp: t_activate_def)
qed

lemma t_reset_follows:
  assumes wc: "e_worker env = wc" and dev: "device_keeps env" "agrees_when_quiet env f" and t: "follows t"
  shows "t_reset (with_reset env f) t = t_reset env t \<and> follows (t_reset env t)"
proof -
  obtain w r where stop: "wc_stop wc (t_worker t) = (w, r)" by (cases "wc_stop wc (t_worker t)")
  have done_quiet: "quiet (t_worker s) \<Longrightarrow> device_reset (with_reset env f) s = device_reset env s \<and>
      quiet (t_worker (fst (device_reset env s)))" for s
    using device_reset_quiet[OF dev] by blast
  show ?thesis
  proof (cases "active t")
    case False
    then have q: "quiet (t_worker t)" using t by (simp add: follows_def)
    obtain s x where run: "device_reset env t = (s, x)" by (cases "device_reset env t")
    show ?thesis using done_quiet[OF q] False run
      by (cases x) (auto simp: t_reset_def follows_def)
  next
    case True
    show ?thesis
    proof (cases r)
      case (Inl e)
      then show ?thesis using True stop stop_sane[OF _ stop] t by (simp add: t_reset_def wc follows_def)
    next
      case (Inr u)
      then have q: "quiet (t_worker (t\<lparr>t_worker := w, active := False\<rparr>))"
        using stop_quiet[OF _ stop[unfolded Inr]] t by (simp add: follows_def)
      obtain s x where run: "device_reset env (t\<lparr>t_worker := w, active := False\<rparr>) = (s, x)"
        by (cases "device_reset env (t\<lparr>t_worker := w, active := False\<rparr>)")
      show ?thesis using done_quiet[OF q] True run stop Inr
        by (cases x) (auto simp: t_reset_def wc follows_def)
    qed
  qed
qed

lemma bring_up_follows:
  assumes wc: "e_worker env = wc" and dev: "device_keeps env" "agrees_when_quiet env f"
    and t: "quiet (t_worker t)"
  shows "bring_up (with_reset env f) new t = bring_up env new t \<and> follows (bring_up env new t)"
proof -
  obtain w p where prep: "wc_prepare wc (t_worker t) = (w, p)" by (cases "wc_prepare wc (t_worker t)")
  show ?thesis
  proof (cases p)
    case (Inl e)
    then show ?thesis using prep prepare_err[OF t] by (simp add: bring_up_def wc follows_def)
  next
    case p: (Inr g)
    have w: "unstarted w" using prepare_ok[OF t] prep p by simp
    obtain t1 r where act: "t_activate env g (t\<lparr>t_worker := w\<rparr>) = (t1, r)"
      by (cases "t_activate env g (t\<lparr>t_worker := w\<rparr>)")
    have t1: "unstarted (t_worker t1)" by (rule t_activate_unstarted[OF dev(1) _ act]) (simp add: w)
    show ?thesis
    proof (cases r)
      case r: (Inr u)
      obtain w1 s where start: "wc_start wc (t_worker t1) = (w1, s)" by (cases "wc_start wc (t_worker t1)")
      show ?thesis
      proof (cases s)
        case (Inl e)
        then have "quiet (wc_cancel_prepare wc w1)" using start_err[OF t1] start cancel_quiet by simp
        then show ?thesis using prep p act r start Inl by (simp add: bring_up_def wc Let_def follows_def)
      next
        case (Inr v)
        then show ?thesis using prep p act r start start_ok[OF t1] by (simp add: bring_up_def wc Let_def follows_def)
      qed
    next
      case r: (Inl e)
      let ?t2 = "t1\<lparr>t_worker := wc_cancel_prepare wc (t_worker t1)\<rparr>"
      have q: "quiet (t_worker ?t2)" using cancel_quiet[OF t1] by simp
      obtain t3 b where run: "device_reset env ?t2 = (t3, b)" by (cases "device_reset env ?t2")
      have "quiet (t_worker t3)" "device_reset (with_reset env f) ?t2 = (t3, b)"
        using device_reset_quiet[OF dev q] run by auto
      then show ?thesis using prep p act r run
        by (auto simp: bring_up_def wc Let_def follows_def split: sum.split device_error.split)
    qed
  qed
qed

lemma write_follows:
  assumes wc: "e_worker env = wc" and dev: "device_keeps env" "agrees_when_quiet env f" and t: "follows t"
  shows "MmioTransport_write (with_reset env f) t offset data = MmioTransport_write env t offset data \<and>
    follows (MmioTransport_write env t offset data)"
proof -
  obtain w r where stop: "wc_stop wc (t_worker t) = (w, r)" by (cases "wc_stop wc (t_worker t)")
  have fail: "follows (fail_device env bits t)" for bits
  proof (cases r)
    case (Inl e)
    then show ?thesis using t stop stop_sane[OF _ stop] by (auto simp: fail_device_def Let_def follows_def wc)
  next
    case (Inr u)
    then show ?thesis using t stop stop_quiet[OF _ stop[unfolded Inr]]
      by (auto simp: fail_device_def Let_def follows_def wc)
  qed
  have gate: "follows t1 \<and> (\<not> active t1 \<longrightarrow> quiet (t_worker t1))"
    if "feature_gate env bits t = (t1, refused)" for bits t1 refused
    using feature_gate_result(3,4)[OF that] t by (auto simp: follows_def)
  have status: "write_status (with_reset env f) v t = write_status env v t \<and> follows (write_status env v t)" for v
  proof (cases "v = 0")
    case True
    then show ?thesis using t_reset_follows[OF wc dev t] by (simp add: write_status_def)
  next
    case False
    define bits where "bits = (ucast v :: u8) AND DRIVER_STATUS_BITS"
    obtain t1 refused where g: "feature_gate env bits t = (t1, refused)" by (cases "feature_gate env bits t")
    have up: "\<not> active t1 \<Longrightarrow> bring_up (with_reset env f) new t1 = bring_up env new t1 \<and>
        follows (bring_up env new t1)" for new
      using bring_up_follows[OF wc dev] gate[OF g] by blast
    have same: "follows (need_reset env (t_set_status st t1))" "follows (t_set_status st t1)"
      "follows (t_update_status b1 b2 t1)" for st b1 b2
      using gate[OF g] by (auto simp: follows_def)
    have "write_status (with_reset env f) v t = write_status env v t"
      unfolding write_status_def Let_def bits_def[symmetric] with_reset_ops with_reset_gate g prod.case
      using False up by simp
    moreover have "follows (write_status env v t)"
      unfolding write_status_def Let_def bits_def[symmetric] g prod.case
      using False t fail up same by simp
    ultimately show ?thesis by simp
  qed
  have control: "write_control (with_reset env f) off v t = write_control env off v t \<and>
      follows (write_control env off v t)" for off v
    using t status[of v] kick_sane
    unfolding write_control_def write_driver_features_def notify_def write_queue_address_def
      queue_mut_def follows_def Let_def by (simp add: wc)
  have config: "follows (write_config_space env off buf s)" if "follows s" for off buf s
    using that by (auto simp: follows_def write_config_space_def split: prod.splits sum.splits)
  show ?thesis
    using t control config by (simp add: MmioTransport_write_def Let_def)
qed

end

end
