(* ===== verification/Worker.thy ===== *)
theory Worker
  imports Mmio
begin

text \<open>
  The virtio worker runtime of \<open>src/src/vmm/src/virtio/worker/shared.rs\<close>, seen from one device's
  slot: its phase, generation, kick bitmap and background sources, the operations of the
  transport, of the device's registrar, of the worker thread and of the shutdown.

  Each function is one critical section of the code. \<open>worker_step\<close> interleaves them, with the
  wait of \<open>stop\<close> split at its condition variable. \<open>shared_worker\<close> composes them into the
  \<open>WorkerControl\<close> handle of \<open>src/src/vmm/src/virtio/worker/mod.rs\<close> for a transport that nothing else
  runs beside. The poller, the host's threads and its clock are the record \<open>worker_host\<close>.
\<close>

section \<open>State\<close>

datatype phase = Stopped | Prepared | Running | Halted | Stopping | Failed

record worker_slot =
  kicks :: u32
  s_phase :: phase
  generation :: u64
  in_flight :: bool
  next_source :: u32
  sources :: "(u32 \<times> bool) list"

definition new_slot :: worker_slot where
  "new_slot = \<lparr>kicks = 0, s_phase = Stopped, generation = 0, in_flight = False, next_source = 0,
     sources = []\<rparr>"

definition SHUT_DOWN :: device_error where "SHUT_DOWN = Fatal ''virtio workers are shut down''"
definition WORKER_FAILED :: device_error where "WORKER_FAILED = Fatal ''virtio worker failed''"

definition slot_is_open :: "u64 \<Rightarrow> worker_slot \<Rightarrow> bool" where
  "slot_is_open gen s \<longleftrightarrow>
     generation s = gen \<and> s_phase s \<in> {Prepared, Running, Halted, Stopping}"

definition slot_close :: "phase \<Rightarrow> worker_slot \<Rightarrow> worker_slot" where
  "slot_close p s = s\<lparr>s_phase := p, kicks := 0, sources := []\<rparr>"

section \<open>Delivering one event\<close>

datatype begin_result = Deliver | BeginStopped | SourceGone

definition slot_begin :: "u64 \<Rightarrow> u32 option \<Rightarrow> worker_slot \<Rightarrow> worker_slot \<times> begin_result" where
  "slot_begin gen src s =
     (if s_phase s \<noteq> Running \<or> generation s \<noteq> gen then (s, BeginStopped)
      else case src of
        None \<Rightarrow> (s\<lparr>in_flight := True\<rparr>, Deliver)
      | Some i \<Rightarrow>
          (case map_of (sources s) i of
             Some True \<Rightarrow> (s\<lparr>sources := bt_insert i False (sources s), in_flight := True\<rparr>, Deliver)
           | _ \<Rightarrow> (s, SourceGone)))"

text \<open>
  \<open>slot_end\<close> returns the slot, whether it takes more events in this pass, and the reason of a
  failure to report. \<open>end_needs_reset\<close> says that the shared status gets DEVICE_NEEDS_RESET first.
\<close>

definition end_needs_reset :: "device_error + unit \<Rightarrow> bool" where
  "end_needs_reset r = (case r of Inl (NeedsReset _) \<Rightarrow> True | _ \<Rightarrow> False)"

definition slot_end :: "u64 \<Rightarrow> device_error + unit \<Rightarrow> worker_slot \<Rightarrow> worker_slot \<times> bool \<times> string option" where
  "slot_end gen r s =
     (let s = s\<lparr>in_flight := False\<rparr>; current = (generation s = gen);
          (s, failed) =
            (case r of
               Inr _ \<Rightarrow> (s, None)
             | Inl (Unsupported _) \<Rightarrow> (s, None)
             | Inl (NeedsReset _) \<Rightarrow>
                 (if current \<and> s_phase s = Running then s\<lparr>s_phase := Halted\<rparr> else s, None)
             | Inl (Fatal reason) \<Rightarrow>
                 (if current \<and> s_phase s \<noteq> Failed then (slot_close Failed s, Some reason) else (s, None)))
      in (s, s_phase s = Running, failed))"

text \<open>The events of one pass, and the slot with its kicks taken; \<open>None\<close> if it does not run.\<close>

definition serve_snapshot :: "worker_slot \<Rightarrow> worker_slot \<times> (u64 \<times> device_event list) option" where
  "serve_snapshot s =
     (if s_phase s \<noteq> Running then (s, None)
      else (s\<lparr>kicks := 0\<rparr>,
        Some (generation s,
          map (\<lambda>i. QueueKick (word_of_nat i)) (filter (\<lambda>i. kicks s AND push_bit i 1 \<noteq> 0) [0..<MAX_QUEUES]) @
          map (\<lambda>(i, _). BackendReady i) (filter snd (sources s)))))"

definition event_source :: "device_event \<Rightarrow> u32 option" where
  "event_source e = (case e of QueueKick _ \<Rightarrow> None | BackendReady i \<Rightarrow> Some i)"

definition mark_ready :: "u32 \<Rightarrow> worker_slot \<Rightarrow> worker_slot" where
  "mark_ready i s =
     (case map_of (sources s) i of
        None \<Rightarrow> s | Some _ \<Rightarrow> s\<lparr>sources := bt_insert i True (sources s)\<rparr>)"

section \<open>Tokens\<close>

definition token :: "u32 \<Rightarrow> u32 \<Rightarrow> u64" where
  "token slot i = push_bit 32 (ucast slot) OR ucast i"

definition source_of :: "u64 \<Rightarrow> nat \<times> u32" where
  "source_of t = (unat (drop_bit 32 t), ucast t)"

section \<open>The registrar\<close>

definition registrar_register ::
    "(u32 \<Rightarrow> error_kind option) \<Rightarrow> u64 \<Rightarrow> worker_slot \<Rightarrow> worker_slot \<times> (event_error + u32)" where
  "registrar_register host gen s =
     (if \<not> slot_is_open gen s then (s, Inl Closed)
      else
        let i = next_source s in
        case checked_add i 1 of
          None \<Rightarrow> (s, Inl (Register OutOfMemory))
        | Some nxt \<Rightarrow>
            (let s = s\<lparr>next_source := nxt\<rparr> in
             case host i of
               Some kind \<Rightarrow> (s, Inl (Register kind))
             | None \<Rightarrow> (s\<lparr>sources := bt_insert i False (sources s)\<rparr>, Inr i)))"

definition registrar_deregister :: "u64 \<Rightarrow> u32 \<Rightarrow> worker_slot \<Rightarrow> worker_slot" where
  "registrar_deregister gen i s =
     (if \<not> slot_is_open gen s then s
      else s\<lparr>sources := filter (\<lambda>(k, _). k \<noteq> i) (sources s)\<rparr>)"

section \<open>The transport's operations\<close>

datatype thread = ThreadIdle | ThreadRunning | ThreadJoined

record worker =
  w_slot :: worker_slot
  w_closed :: bool
  w_thread :: thread
  w_sent :: "event list"

definition SharedRuntime_new :: worker where
  "SharedRuntime_new = \<lparr>w_slot = new_slot, w_closed = False, w_thread = ThreadIdle, w_sent = []\<rparr>"

datatype wait_outcome = WaitTimedOut | EventEnds u64 "device_error + unit"

record worker_host =
  h_spawn :: "error_kind option"
  h_wait :: "worker \<Rightarrow> wait_outcome"
  h_name :: string

abbreviation on_slot :: "(worker_slot \<Rightarrow> worker_slot) \<Rightarrow> worker \<Rightarrow> worker" where
  "on_slot f w \<equiv> w\<lparr>w_slot := f (w_slot w)\<rparr>"

definition worker_prepare :: "worker \<Rightarrow> worker \<times> (device_error + u64)" where
  "worker_prepare w =
     (if w_closed w then (w, Inl SHUT_DOWN)
      else case s_phase (w_slot w) of
        Stopped \<Rightarrow>
          (let s = (w_slot w)\<lparr>s_phase := Prepared, generation := generation (w_slot w) + 1, kicks := 0\<rparr>
           in (w\<lparr>w_slot := s\<rparr>, Inr (generation s)))
      | Failed \<Rightarrow> (w, Inl WORKER_FAILED)
      | _ \<Rightarrow> (w, Inl (Fatal ''virtio worker is already open'')))"

definition ensure_thread :: "worker_host \<Rightarrow> worker \<Rightarrow> worker \<times> (device_error + unit)" where
  "ensure_thread h w =
     (case w_thread w of
        ThreadRunning \<Rightarrow> (w, Inr ())
      | ThreadJoined \<Rightarrow> (w, Inl SHUT_DOWN)
      | ThreadIdle \<Rightarrow>
          (case h_spawn h of
             None \<Rightarrow> (w\<lparr>w_thread := ThreadRunning\<rparr>, Inr ())
           | Some kind \<Rightarrow> (w\<lparr>w_sent := w_sent w @ [DeviceFailed (VirtioWorker kind)]\<rparr>,
               Inl (Fatal ''virtio workers start''))))"

definition worker_open :: "worker \<Rightarrow> worker \<times> (device_error + unit)" where
  "worker_open w =
     (if w_closed w then (w, Inl SHUT_DOWN)
      else if s_phase (w_slot w) \<noteq> Prepared then (w, Inl (Fatal ''virtio worker is not prepared''))
      else (on_slot (\<lambda>s. s\<lparr>s_phase := Running\<rparr>) w, Inr ()))"

definition worker_start :: "worker_host \<Rightarrow> worker \<Rightarrow> worker \<times> (device_error + unit)" where
  "worker_start h w =
     (case ensure_thread h w of
        (w, Inl e) \<Rightarrow> (w, Inl e)
      | (w, Inr _) \<Rightarrow> worker_open w)"

definition worker_kick :: "u16 \<Rightarrow> worker \<Rightarrow> worker" where
  "worker_kick index w =
     (if MAX_QUEUES \<le> unat index then w
      else on_slot (\<lambda>s. s\<lparr>kicks := kicks s OR push_bit (unat index) 1\<rparr>) w)"

text \<open>\<open>stop\<close> up to its wait: \<open>None\<close> means that it waits for the event in flight.\<close>

definition stop_enter :: "worker \<Rightarrow> worker \<times> (device_error + unit) option" where
  "stop_enter w =
     (case s_phase (w_slot w) of
        Stopped \<Rightarrow> (w, Some (Inr ()))
      | Failed \<Rightarrow> (w, Some (Inl WORKER_FAILED))
      | Prepared \<Rightarrow> (on_slot (slot_close Stopped) w, Some (Inr ()))
      | Halted \<Rightarrow> (on_slot (slot_close Stopped) w, Some (Inr ()))
      | _ \<Rightarrow> (on_slot (\<lambda>s. s\<lparr>s_phase := Stopping\<rparr>) w, None))"

text \<open>The rest of \<open>stop\<close>, once the wait ends; it timed out exactly when the event still runs.\<close>

definition stop_leave :: "worker \<Rightarrow> worker \<times> (device_error + unit)" where
  "stop_leave w =
     (if in_flight (w_slot w) then
        (on_slot (slot_close Failed) w, Inl (Fatal ''virtio worker stop timed out''))
      else if s_phase (w_slot w) = Failed then (w, Inl WORKER_FAILED)
      else (on_slot (slot_close Stopped) w, Inr ()))"

definition worker_end :: "worker_host \<Rightarrow> u64 \<Rightarrow> device_error + unit \<Rightarrow> worker \<Rightarrow> worker \<times> bool" where
  "worker_end h gen r w =
     (let (s, again, failed) = slot_end gen r (w_slot w) in
      (w\<lparr>w_slot := s, w_sent := w_sent w @
          (case failed of None \<Rightarrow> [] | Some reason \<Rightarrow> [DeviceFailed (VirtioDevice (h_name h) reason)])\<rparr>,
       again))"

definition worker_stop :: "worker_host \<Rightarrow> worker \<Rightarrow> worker \<times> (device_error + unit)" where
  "worker_stop h w =
     (case stop_enter w of
        (w, Some r) \<Rightarrow> (w, r)
      | (w, None) \<Rightarrow>
          stop_leave
            (if \<not> in_flight (w_slot w) then w
             else case h_wait h w of
               WaitTimedOut \<Rightarrow> w
             | EventEnds gen r \<Rightarrow> fst (worker_end h gen r w)))"

definition worker_cancel_prepare :: "worker \<Rightarrow> worker" where
  "worker_cancel_prepare w =
     (if s_phase (w_slot w) = Prepared then on_slot (slot_close Stopped) w else w)"

definition shared_worker :: "worker_host \<Rightarrow> (worker, u64) worker_control" where
  "shared_worker h = \<lparr>wc_prepare = worker_prepare, wc_start = worker_start h,
     wc_kick = (\<lambda>w index. worker_kick index w), wc_stop = worker_stop h,
     wc_cancel_prepare = worker_cancel_prepare\<rparr>"

section \<open>Shutdown and failure\<close>

text \<open>\<open>joined\<close> says whether the thread exited within the timeout.\<close>

definition worker_shutdown :: "bool \<Rightarrow> worker \<Rightarrow> worker \<times> (error_kind + unit)" where
  "worker_shutdown joined w =
     (let w = w\<lparr>w_closed := True\<rparr>;
          w = (if s_phase (w_slot w) \<noteq> Failed then on_slot (slot_close Stopped) w else w) in
      case w_thread w of
        ThreadRunning \<Rightarrow>
          if joined then (w\<lparr>w_thread := ThreadJoined\<rparr>, Inr ()) else (w, Inl TimedOut)
      | _ \<Rightarrow> (w\<lparr>w_thread := ThreadJoined\<rparr>, Inr ()))"

definition worker_run_failed :: "error_kind \<Rightarrow> worker \<Rightarrow> worker" where
  "worker_run_failed kind w =
     (let s = (w_slot w)\<lparr>in_flight := False\<rparr>;
          s = (if s_phase s \<noteq> Failed then slot_close Failed s else s) in
      w\<lparr>w_closed := True, w_slot := s, w_sent := w_sent w @ [DeviceFailed (VirtioWorker kind)]\<rparr>)"

section \<open>One pass over a slot\<close>

datatype event_outcome = Returned "device_error + unit" | Panicked

text \<open>
  \<open>dispatch\<close> runs one event on the device \<open>'d\<close>: a panic poisons the device lock, and a poisoned
  lock fails the slot without calling the device. The pass stops when the slot stops running.
\<close>

record ('d, 'c) served =
  sv_worker :: worker
  sv_interrupt :: "'c mmio_interrupt"
  sv_device :: 'd
  sv_poisoned :: bool
  sv_delivered :: "device_event list"

definition served_end ::
    "worker_host \<Rightarrow> 'c set_line \<Rightarrow> u64 \<Rightarrow> device_error + unit \<Rightarrow> ('d, 'c) served \<Rightarrow> ('d, 'c) served \<times> bool" where
  "served_end h sl gen r sv =
     (let sv = (if end_needs_reset r
                then sv\<lparr>sv_interrupt := raise_config sl (set_needs_reset (sv_interrupt sv))\<rparr> else sv);
          (w, again) = worker_end h gen r (sv_worker sv)
      in (sv\<lparr>sv_worker := w\<rparr>, again))"

definition dispatch ::
    "worker_host \<Rightarrow> 'c set_line \<Rightarrow> ('d \<Rightarrow> device_event \<Rightarrow> 'd \<times> event_outcome) \<Rightarrow> u64 \<Rightarrow> device_event \<Rightarrow>
     ('d, 'c) served \<Rightarrow> ('d, 'c) served \<times> bool" where
  "dispatch h sl on_event gen e sv =
     (case slot_begin gen (event_source e) (w_slot (sv_worker sv)) of
        (s, BeginStopped) \<Rightarrow> (sv, False)
      | (s, SourceGone) \<Rightarrow> (sv, True)
      | (s, Deliver) \<Rightarrow>
          (let sv = sv\<lparr>sv_worker := (sv_worker sv)\<lparr>w_slot := s\<rparr>\<rparr> in
           if sv_poisoned sv then
             served_end h sl gen (Inl (Fatal ''device lock is poisoned'')) sv
           else case on_event (sv_device sv) e of
             (d, Returned r) \<Rightarrow>
               served_end h sl gen r (sv\<lparr>sv_device := d, sv_delivered := sv_delivered sv @ [e]\<rparr>)
           | (d, Panicked) \<Rightarrow>
               served_end h sl gen (Inl (Fatal ''on_event panicked''))
                 (sv\<lparr>sv_device := d, sv_poisoned := True, sv_delivered := sv_delivered sv @ [e]\<rparr>)))"

fun dispatch_all ::
    "worker_host \<Rightarrow> 'c set_line \<Rightarrow> ('d \<Rightarrow> device_event \<Rightarrow> 'd \<times> event_outcome) \<Rightarrow> u64 \<Rightarrow> device_event list \<Rightarrow>
     ('d, 'c) served \<Rightarrow> ('d, 'c) served" where
  "dispatch_all h sl on_event gen [] sv = sv"
| "dispatch_all h sl on_event gen (e # es) sv =
     (case dispatch h sl on_event gen e sv of
        (sv, True) \<Rightarrow> dispatch_all h sl on_event gen es sv
      | (sv, False) \<Rightarrow> sv)"

definition serve_slot ::
    "worker_host \<Rightarrow> 'c set_line \<Rightarrow> ('d \<Rightarrow> device_event \<Rightarrow> 'd \<times> event_outcome) \<Rightarrow> ('d, 'c) served \<Rightarrow> ('d, 'c) served" where
  "serve_slot h sl on_event sv =
     (case serve_snapshot (w_slot (sv_worker sv)) of
        (s, None) \<Rightarrow> sv
      | (s, Some (gen, es)) \<Rightarrow>
          dispatch_all h sl on_event gen es (sv\<lparr>sv_worker := (sv_worker sv)\<lparr>w_slot := s\<rparr>\<rparr>))"

section \<open>The handle as a transport sees it\<close>

text \<open>
  A slot is quiet when it is stopped or failed and no event is being handled; the shutdown of the
  runtime also closes a slot whose event still runs. A stop that timed out leaves a failed slot with
  its event in flight, which is not quiet.
\<close>

definition slot_quiet :: "worker \<Rightarrow> bool" where
  "slot_quiet w \<longleftrightarrow>
     s_phase (w_slot w) = Stopped \<and> (in_flight (w_slot w) \<longrightarrow> w_closed w) \<or>
     s_phase (w_slot w) = Failed \<and> \<not> in_flight (w_slot w)"

definition slot_unstarted :: "worker \<Rightarrow> bool" where
  "slot_unstarted w \<longleftrightarrow>
     slot_quiet w \<or> s_phase (w_slot w) = Prepared \<and> (in_flight (w_slot w) \<longrightarrow> w_closed w)"

definition slot_sane :: "worker \<Rightarrow> bool" where
  "slot_sane w \<longleftrightarrow>
     (in_flight (w_slot w) \<longrightarrow> w_closed w \<or> s_phase (w_slot w) \<in> {Running, Stopping, Failed})"

lemma phase_close [simp]: "s_phase (slot_close p s) = p"
  by (simp add: slot_close_def)

lemma in_flight_close [simp]: "in_flight (slot_close p s) = in_flight s"
  by (simp add: slot_close_def)

lemma worker_end_idle: "worker_end h gen r w = (w', b) \<Longrightarrow> \<not> in_flight (w_slot w') \<and> w_closed w' = w_closed w"
  by (auto simp: worker_end_def slot_end_def Let_def split: sum.splits device_error.splits if_splits prod.splits)

lemma stop_leave_quiet: "stop_leave w = (w', Inr u) \<Longrightarrow> slot_quiet w'"
  by (auto simp: stop_leave_def slot_quiet_def split: if_splits)

lemma worker_stop_quiet: "slot_sane w \<Longrightarrow> worker_stop h w = (w', Inr u) \<Longrightarrow> slot_quiet w'"
  by (auto simp: worker_stop_def stop_enter_def slot_sane_def slot_quiet_def split: phase.splits prod.splits option.splits
      dest!: stop_leave_quiet)

lemma stop_leave_sane: "stop_leave w = (w', Inl e) \<Longrightarrow> slot_sane w'"
  by (auto simp: stop_leave_def slot_sane_def split: if_splits)

lemma worker_stop_sane: "slot_sane w \<Longrightarrow> worker_stop h w = (w', Inl e) \<Longrightarrow> slot_sane w'"
  by (auto simp: worker_stop_def stop_enter_def split: phase.splits prod.splits option.splits
      dest: stop_leave_sane)

interpretation slot_typestate: worker_typestate "shared_worker h" slot_quiet slot_unstarted slot_sane for h
proof
  show "slot_unstarted w" if "slot_quiet w" for w
    using that by (simp add: slot_unstarted_def)
  show "slot_sane w" if "slot_unstarted w" for w
    using that by (auto simp: slot_unstarted_def slot_quiet_def slot_sane_def)
  show "slot_unstarted w'" if "slot_quiet w" "wc_prepare (shared_worker h) w = (w', Inr g)" for w w' g
    using that by (auto simp: shared_worker_def worker_prepare_def slot_unstarted_def slot_quiet_def
        split: phase.splits if_splits)
  show "slot_quiet w'" if "slot_quiet w" "wc_prepare (shared_worker h) w = (w', Inl e)" for w w' e
    using that by (auto simp: shared_worker_def worker_prepare_def split: phase.splits if_splits)
  show "slot_unstarted w'" if "slot_unstarted w" "wc_start (shared_worker h) w = (w', Inl e)" for w w' e
    using that by (auto simp: shared_worker_def worker_start_def ensure_thread_def worker_open_def
        slot_unstarted_def slot_quiet_def split: thread.splits option.splits prod.splits if_splits sum.splits)
  show "slot_sane w'" if "slot_unstarted w" "wc_start (shared_worker h) w = (w', Inr u)" for w w' u
    using that by (auto simp: shared_worker_def worker_start_def ensure_thread_def worker_open_def
        slot_sane_def slot_unstarted_def slot_quiet_def split: thread.splits option.splits prod.splits if_splits sum.splits)
  show "slot_quiet (wc_cancel_prepare (shared_worker h) w)" if "slot_unstarted w" for w
    using that by (auto simp: shared_worker_def worker_cancel_prepare_def slot_unstarted_def slot_quiet_def)
  show "slot_sane (wc_kick (shared_worker h) w i)" if "slot_sane w" for w i
    using that by (simp add: shared_worker_def worker_kick_def slot_sane_def)
  show "slot_quiet w'" if "slot_sane w" "wc_stop (shared_worker h) w = (w', Inr u)" for w w' u
    using that worker_stop_quiet by (auto simp: shared_worker_def)
  show "slot_sane w'" if "slot_sane w" "wc_stop (shared_worker h) w = (w', Inl e)" for w w' e
    using that worker_stop_sane by (auto simp: shared_worker_def)
qed

section \<open>Interleaving\<close>

text \<open>
  The state of one slot and everything that runs beside it. The transport calls one operation at a
  time; \<open>waiting\<close> says that its \<open>stop\<close> waits. The worker thread is in a pass over the events it
  took (\<open>pass\<close>) and may be running one (\<open>running\<close>, with its generation). The rest is history:
  \<open>kick_gen\<close> and \<open>source_gen\<close> record the generation in which a kick was made and a source was
  registered, and \<open>delivered\<close> every event that began, with that origin and its delivery generation.
\<close>

record worker_sys =
  sys :: worker
  waiting :: bool
  pass :: "(u64 \<times> (device_event \<times> u64) list) option"
  running :: "u64 option"
  kick_gen :: "u16 \<Rightarrow> u64"
  source_gen :: "u32 \<Rightarrow> u64"
  delivered :: "(device_event \<times> u64 \<times> u64) list"

definition sys_start :: worker_sys where
  "sys_start = \<lparr>sys = SharedRuntime_new, waiting = False, pass = None, running = None,
     kick_gen = (\<lambda>_. 0), source_gen = (\<lambda>_. 0), delivered = []\<rparr>"

abbreviation slot_of :: "worker_sys \<Rightarrow> worker_slot" where
  "slot_of s \<equiv> w_slot (sys s)"

abbreviation with_slot :: "worker_slot \<Rightarrow> worker_sys \<Rightarrow> worker_sys" where
  "with_slot x s \<equiv> s\<lparr>sys := (sys s)\<lparr>w_slot := x\<rparr>\<rparr>"

definition origin :: "worker_sys \<Rightarrow> device_event \<Rightarrow> u64" where
  "origin s e = (case e of QueueKick i \<Rightarrow> kick_gen s i | BackendReady i \<Rightarrow> source_gen s i)"

inductive worker_step :: "worker_host \<Rightarrow> worker_sys \<Rightarrow> worker_sys \<Rightarrow> bool" for h where
  prepare: "\<not> waiting s \<Longrightarrow> worker_prepare (sys s) = (w, r) \<Longrightarrow> worker_step h s (s\<lparr>sys := w\<rparr>)"
| start: "\<not> waiting s \<Longrightarrow> worker_start h (sys s) = (w, r1) \<Longrightarrow> worker_step h s (s\<lparr>sys := w\<rparr>)"
| kick: "\<not> waiting s \<Longrightarrow>
    worker_step h s (s\<lparr>sys := worker_kick i (sys s), kick_gen := (kick_gen s)(i := generation (slot_of s))\<rparr>)"
| cancel: "\<not> waiting s \<Longrightarrow> worker_step h s (s\<lparr>sys := worker_cancel_prepare (sys s)\<rparr>)"
| stop_now: "\<not> waiting s \<Longrightarrow> stop_enter (sys s) = (w, Some r2) \<Longrightarrow> worker_step h s (s\<lparr>sys := w\<rparr>)"
| stop_wait: "\<not> waiting s \<Longrightarrow> stop_enter (sys s) = (w, None) \<Longrightarrow>
    worker_step h s (s\<lparr>sys := w, waiting := True\<rparr>)"
| stop_done: "waiting s \<Longrightarrow> stop_leave (sys s) = (w, r3) \<Longrightarrow>
    worker_step h s (s\<lparr>sys := w, waiting := False\<rparr>)"
| register: "registrar_register host gen (slot_of s) = (x, Inr i) \<Longrightarrow>
    worker_step h s ((with_slot x s)\<lparr>source_gen := (source_gen s)(i := gen)\<rparr>)"
| register_error: "registrar_register host gen (slot_of s) = (x, Inl e) \<Longrightarrow> worker_step h s (with_slot x s)"
| deregister: "worker_step h s (with_slot (registrar_deregister gen i (slot_of s)) s)"
| mark: "worker_step h s (with_slot (mark_ready i (slot_of s)) s)"
| take_pass: "pass s = None \<Longrightarrow> serve_snapshot (slot_of s) = (x, Some (gen, es)) \<Longrightarrow>
    worker_step h s ((with_slot x s)\<lparr>pass := Some (gen, map (\<lambda>e. (e, origin s e)) es)\<rparr>)"
| begin_event: "pass s = Some (gen, (e, og) # rest) \<Longrightarrow> running s = None \<Longrightarrow>
    slot_begin gen (event_source e) (slot_of s) = (x, Deliver) \<Longrightarrow>
    worker_step h s ((with_slot x s)\<lparr>pass := Some (gen, rest), running := Some gen,
      delivered := delivered s @ [(e, og, gen)]\<rparr>)"
| skip_event: "pass s = Some (gen, eo # rest) \<Longrightarrow> running s = None \<Longrightarrow>
    slot_begin gen (event_source (fst eo)) (slot_of s) = (x, SourceGone) \<Longrightarrow>
    worker_step h s ((with_slot x s)\<lparr>pass := Some (gen, rest)\<rparr>)"
| drop_pass: "running s = None \<Longrightarrow> worker_step h s (s\<lparr>pass := None\<rparr>)"
| end_event: "running s = Some gen \<Longrightarrow> worker_end h gen r4 (sys s) = (w, again) \<Longrightarrow>
    worker_step h s (s\<lparr>sys := w, running := None, pass := (if again then pass s else None)\<rparr>)"
| shutdown: "worker_shutdown joined (sys s) = (w, r5) \<Longrightarrow> (joined \<longrightarrow> running s = None) \<Longrightarrow>
    worker_step h s (s\<lparr>sys := w\<rparr>)"
| run_failed: "worker_step h s (s\<lparr>sys := worker_run_failed kind (sys s), running := None, pass := None\<rparr>)"

inductive worker_reachable :: "worker_host \<Rightarrow> worker_sys \<Rightarrow> bool" for h where
  initial: "worker_reachable h sys_start"
| step: "worker_reachable h s \<Longrightarrow> worker_step h s s' \<Longrightarrow> worker_reachable h s'"

section \<open>The invariant\<close>

text \<open>
  \<open>slot_ok\<close> is the invariant of a slot, given whether the runtime is closed, whether an event runs
  and where kicks and sources come from; \<open>history_ok\<close> that of the pass and the history.
\<close>

fun ended :: "phase \<Rightarrow> bool" where
  "ended Stopped = True" | "ended Failed = True" | "ended _ = False"

fun idle_phase :: "phase \<Rightarrow> bool" where
  "idle_phase Stopped = True" | "idle_phase Prepared = True" | "idle_phase Halted = True"
| "idle_phase _ = False"

definition slot_ok :: "bool \<Rightarrow> bool \<Rightarrow> (u16 \<Rightarrow> u64) \<Rightarrow> (u32 \<Rightarrow> u64) \<Rightarrow> worker_slot \<Rightarrow> bool" where
  "slot_ok closed busy kg sg x \<longleftrightarrow>
     in_flight x = busy \<and>
     (closed \<longrightarrow> ended (s_phase x)) \<and>
     (idle_phase (s_phase x) \<longrightarrow> closed \<or> \<not> busy) \<and>
     (ended (s_phase x) \<longrightarrow> sources x = []) \<and>
     bt_ok (sources x) \<and>
     (\<forall>i b. map_of (sources x) i = Some b \<longrightarrow> sg i = generation x) \<and>
     (\<not> ended (s_phase x) \<longrightarrow>
        (\<forall>i. unat i < MAX_QUEUES \<longrightarrow> bit (kicks x) (unat i) \<longrightarrow> kg i = generation x))"

definition history_ok :: "worker_sys \<Rightarrow> bool" where
  "history_ok s \<longleftrightarrow>
     (\<forall>gen es. pass s = Some (gen, es) \<longrightarrow> (\<forall>x\<in>set es. snd x = gen)) \<and>
     (\<forall>x\<in>set (delivered s). fst (snd x) = snd (snd x))"

definition slot_inv :: "worker_sys \<Rightarrow> bool" where
  "slot_inv s \<longleftrightarrow>
     slot_ok (w_closed (sys s)) (running s \<noteq> None) (kick_gen s) (source_gen s) (slot_of s) \<and> history_ok s"

lemma slot_okI:
  assumes "in_flight x = busy" "closed \<Longrightarrow> ended (s_phase x)" "idle_phase (s_phase x) \<Longrightarrow> busy \<Longrightarrow> closed"
    "ended (s_phase x) \<Longrightarrow> sources x = []" "bt_ok (sources x)"
    "\<And>i b. map_of (sources x) i = Some b \<Longrightarrow> sg i = generation x"
    "\<And>i. \<not> ended (s_phase x) \<Longrightarrow> unat i < MAX_QUEUES \<Longrightarrow> bit (kicks x) (unat i) \<Longrightarrow> kg i = generation x"
  shows "slot_ok closed busy kg sg x"
  using assms unfolding slot_ok_def by blast

lemma slot_okD:
  assumes "slot_ok closed busy kg sg x"
  shows "in_flight x = busy" "closed \<Longrightarrow> ended (s_phase x)" "idle_phase (s_phase x) \<Longrightarrow> busy \<Longrightarrow> closed"
    "ended (s_phase x) \<Longrightarrow> sources x = []" "bt_ok (sources x)"
    "map_of (sources x) i = Some b \<Longrightarrow> sg i = generation x"
    "\<not> ended (s_phase x) \<Longrightarrow> unat j < MAX_QUEUES \<Longrightarrow> bit (kicks x) (unat j) \<Longrightarrow> kg j = generation x"
  using assms unfolding slot_ok_def by blast+

lemma history_ok_pass: "history_ok s \<Longrightarrow> history_ok (s\<lparr>pass := None\<rparr>)"
  by (simp add: history_ok_def)

lemma history_ok_frame [simp]:
  "history_ok (s\<lparr>sys := w\<rparr>) = history_ok s" "history_ok (s\<lparr>waiting := b\<rparr>) = history_ok s"
  "history_ok (s\<lparr>running := r\<rparr>) = history_ok s" "history_ok (s\<lparr>kick_gen := kg\<rparr>) = history_ok s"
  "history_ok (s\<lparr>source_gen := sg\<rparr>) = history_ok s"
  by (simp_all add: history_ok_def)

lemma slot_close_simps [simp]:
  "kicks (slot_close p s) = 0" "generation (slot_close p s) = generation s"
  "in_flight (slot_close p s) = in_flight s" "sources (slot_close p s) = []"
  by (simp_all add: slot_close_def)

lemma slot_ok_close:
  assumes "in_flight x = busy" "ended p" "p = Stopped \<Longrightarrow> busy \<Longrightarrow> closed"
  shows "slot_ok closed busy kg sg (slot_close p x)"
  using assms by (intro slot_okI) (auto elim!: idle_phase.elims(2))

lemma slot_ok_phase:
  assumes "slot_ok closed busy kg sg x" "\<not> ended (s_phase x)" "\<not> closed" "p = Running \<or> p = Stopping"
  shows "slot_ok closed busy kg sg (x\<lparr>s_phase := p\<rparr>)"
  by (intro slot_okI) (use assms(2-) slot_okD[OF assms(1)] in auto)

lemma slot_ok_mono:
  assumes "slot_ok closed busy kg sg x"
  shows "slot_ok closed busy kg sg (x\<lparr>next_source := n\<rparr>)" "slot_ok closed busy kg sg (x\<lparr>kicks := 0\<rparr>)"
  by (intro slot_okI; use slot_okD[OF assms] in auto)+

lemma map_of_filter_key:
  "map_of (filter (\<lambda>(k, _). k \<noteq> i) m) j = (if j = i then None else map_of m j)"
  by (induction m) auto

lemma bt_ok_filter: "bt_ok m \<Longrightarrow> bt_ok (filter P m)"
  by (induction m) auto

section \<open>Every critical section keeps the invariant\<close>

lemma slot_ok_prepare:
  assumes inv: "slot_ok (w_closed w) busy kg sg (w_slot w)" and run: "worker_prepare w = (w', r)"
  shows "slot_ok (w_closed w') busy kg sg (w_slot w')"
proof (cases "\<not> w_closed w \<and> s_phase (w_slot w) = Stopped")
  case False
  then have "w' = w" using run by (auto simp: worker_prepare_def Let_def split: if_splits phase.splits)
  then show ?thesis using inv by simp
next
  case True
  note old = slot_okD[OF inv]
  have "w_closed w' = w_closed w"
    "w_slot w' = (w_slot w)\<lparr>s_phase := Prepared, generation := generation (w_slot w) + 1, kicks := 0\<rparr>"
    using run True by (auto simp: worker_prepare_def Let_def)
  then show ?thesis using True old(1,3,4) by (intro slot_okI) auto
qed

lemma ensure_thread_slot:
  "ensure_thread h v = (w, r) \<Longrightarrow> w_slot w = w_slot v \<and> w_closed w = w_closed v"
  by (auto simp: ensure_thread_def split: thread.splits option.splits)

lemma slot_ok_start:
  assumes inv: "slot_ok (w_closed w) busy kg sg (w_slot w)" and run: "worker_start h w = (w', r)"
  shows "slot_ok (w_closed w') busy kg sg (w_slot w')"
proof -
  obtain v e where et: "ensure_thread h w = (v, e)" by (cases "ensure_thread h w")
  note v = ensure_thread_slot[OF et]
  have "w' = v \<or> \<not> w_closed w \<and> s_phase (w_slot w) = Prepared \<and> w_closed w' = w_closed w \<and>
      w_slot w' = (w_slot w)\<lparr>s_phase := Running\<rparr>"
    using run et v by (auto simp: worker_start_def worker_open_def split: sum.splits if_splits)
  then show ?thesis using inv v slot_ok_phase[OF inv, of Running] by auto
qed

lemma kick_bit:
  fixes i j :: u16
  assumes "unat i < MAX_QUEUES" "unat j < MAX_QUEUES"
  shows "bit (k OR push_bit (unat i) 1 :: u32) (unat j) \<longleftrightarrow> bit k (unat j) \<or> j = i"
proof -
  have "bit (push_bit (unat i) 1 :: u32) (unat j) \<longleftrightarrow> unat j = unat i"
    using assms by (auto simp: bit_push_bit_iff MAX_QUEUES_def bit_1_iff simp del: push_bit_of_1)
  also have "\<dots> \<longleftrightarrow> j = i" by (auto intro: unsigned_word_eqI)
  finally show ?thesis by (simp add: bit_or_iff del: push_bit_of_1)
qed

lemma slot_ok_kick:
  assumes inv: "slot_ok (w_closed w) busy kg sg (w_slot w)"
  shows "slot_ok (w_closed (worker_kick i w)) busy (kg(i := generation (w_slot w))) sg (w_slot (worker_kick i w))"
proof -
  note old = slot_okD[OF inv]
  have kept: "w_closed (worker_kick i w) = w_closed w" "in_flight (w_slot (worker_kick i w)) = busy"
    "s_phase (w_slot (worker_kick i w)) = s_phase (w_slot w)"
    "sources (w_slot (worker_kick i w)) = sources (w_slot w)"
    "generation (w_slot (worker_kick i w)) = generation (w_slot w)"
    using old(1) by (simp_all add: worker_kick_def)
  have "bit (kicks (w_slot w)) (unat j) \<or> j = i"
    if "unat j < MAX_QUEUES" "bit (kicks (w_slot (worker_kick i w))) (unat j)" for j
    using that kick_bit[of i j "kicks (w_slot w)"]
    by (cases "MAX_QUEUES \<le> unat i") (simp_all add: worker_kick_def del: push_bit_of_1)
  then show ?thesis
    unfolding kept(1) by (intro slot_okI; unfold kept; use old in auto)
qed

lemma slot_ok_stop_enter:
  assumes inv: "slot_ok (w_closed w) busy kg sg (w_slot w)" and run: "stop_enter w = (w', r)"
  shows "slot_ok (w_closed w') busy kg sg (w_slot w')"
proof -
  have closed: "w_closed w' = w_closed w" using run by (auto simp: stop_enter_def split: phase.splits)
  note old = slot_okD[OF inv]
  show ?thesis unfolding closed
  proof (cases "s_phase (w_slot w)")
    case Prepared
    then show "slot_ok (w_closed w) busy kg sg (w_slot w')"
      using run old(1,3) by (auto simp: stop_enter_def intro!: slot_ok_close)
  next
    case Halted
    then show "slot_ok (w_closed w) busy kg sg (w_slot w')"
      using run old(1,3) by (auto simp: stop_enter_def intro!: slot_ok_close)
  next
    case Running
    then show "slot_ok (w_closed w) busy kg sg (w_slot w')"
      using run old(2) by (auto simp: stop_enter_def intro!: slot_ok_phase[OF inv])
  next
    case Stopping
    then show "slot_ok (w_closed w) busy kg sg (w_slot w')"
      using run old(2) by (auto simp: stop_enter_def intro!: slot_ok_phase[OF inv])
  qed (use run inv in \<open>auto simp: stop_enter_def\<close>)
qed

lemma slot_ok_stop_leave:
  assumes inv: "slot_ok (w_closed w) busy kg sg (w_slot w)" and run: "stop_leave w = (w', r)"
  shows "slot_ok (w_closed w') busy kg sg (w_slot w')"
  using run inv slot_okD(1)[OF inv]
  by (auto simp: stop_leave_def intro!: slot_ok_close split: if_splits)

lemma slot_ok_register:
  assumes inv: "slot_ok closed busy kg sg x" and run: "registrar_register host gen x = (x', r)"
  shows "slot_ok closed busy kg (case r of Inr i \<Rightarrow> sg(i := gen) | Inl _ \<Rightarrow> sg) x'"
proof -
  consider (no) e where "r = Inl e" "x' = x \<or> (\<exists>n. x' = x\<lparr>next_source := n\<rparr>)"
    | (yes) n where "r = Inr (next_source x)" "slot_is_open gen x"
        "x' = x\<lparr>next_source := n, sources := bt_insert (next_source x) False (sources x)\<rparr>"
  proof (cases "slot_is_open gen x")
    case False
    then show ?thesis using run no by (auto simp: registrar_register_def Let_def)
  next
    case True
    show ?thesis
    proof (cases "checked_add (next_source x) 1")
      case None
      then show ?thesis using run no True by (auto simp: registrar_register_def Let_def)
    next
      case (Some n)
      then show ?thesis
        using run no yes[of n] True by (cases "host (next_source x)") (auto simp: registrar_register_def Let_def)
    qed
  qed
  then show ?thesis
  proof cases
    case no
    then show ?thesis using inv slot_ok_mono(1)[OF inv] by (elim disjE exE) simp_all
  next
    case yes
    note old = slot_okD[OF inv]
    have "\<not> ended (s_phase x)" "generation x = gen" using yes(2) by (auto simp: slot_is_open_def)
    then show ?thesis using yes(1,3) old
      by (intro slot_okI) (auto simp: bt_ok_insert map_of_bt_insert split: if_splits)
  qed
qed

lemma slot_ok_deregister:
  assumes inv: "slot_ok closed busy kg sg x"
  shows "slot_ok closed busy kg sg (registrar_deregister gen i x)"
proof -
  note old = slot_okD[OF inv]
  show ?thesis
    by (intro slot_okI)
      (use old in \<open>auto simp: registrar_deregister_def map_of_filter_key bt_ok_filter split: if_splits\<close>)
qed

lemma slot_ok_set_ready:
  assumes inv: "slot_ok closed busy kg sg x" and known: "map_of (sources x) i = Some b"
  shows "slot_ok closed busy kg sg (x\<lparr>sources := bt_insert i v (sources x)\<rparr>)"
proof -
  note old = slot_okD[OF inv]
  have "\<not> ended (s_phase x)" using old(4) known by auto
  then show ?thesis using old known
    by (intro slot_okI) (auto simp: bt_ok_insert map_of_bt_insert split: if_splits)
qed

lemma slot_ok_end:
  assumes inv: "slot_ok closed busy kg sg x" and run: "slot_end gen r x = (x', again, failed)"
  shows "slot_ok closed False kg sg x'"
proof -
  note old = slot_okD[OF inv]
  have idle: "slot_ok closed False kg sg (x\<lparr>in_flight := False\<rparr>)"
    by (intro slot_okI) (use old in auto)
  have halt: "slot_ok closed False kg sg (x\<lparr>in_flight := False, s_phase := Halted\<rparr>)" if "s_phase x = Running"
    by (intro slot_okI) (use old that in auto)
  show ?thesis
    using run idle halt
    by (auto simp: slot_end_def Let_def intro!: slot_ok_close
        split: sum.splits device_error.splits if_splits)
qed

lemma slot_ok_shutdown:
  assumes inv: "slot_ok (w_closed w) busy kg sg (w_slot w)" and run: "worker_shutdown joined w = (w', r)"
  shows "slot_ok (w_closed w') busy kg sg (w_slot w')"
proof -
  have "w_closed w'" "w_slot w' = (if s_phase (w_slot w) \<noteq> Failed then slot_close Stopped (w_slot w) else w_slot w)"
    using run by (auto simp: worker_shutdown_def Let_def split: thread.splits if_splits)
  moreover have "slot_ok True busy kg sg (w_slot w)" if "s_phase (w_slot w) = Failed"
    by (intro slot_okI) (use slot_okD[OF inv] that in auto)
  ultimately show ?thesis using slot_okD(1)[OF inv] by (auto intro: slot_ok_close)
qed

lemma slot_ok_run_failed:
  assumes inv: "slot_ok (w_closed w) busy kg sg (w_slot w)"
  shows "slot_ok (w_closed (worker_run_failed kind w)) False kg sg (w_slot (worker_run_failed kind w))"
proof (cases "s_phase (w_slot w) = Failed")
  case True
  then show ?thesis
    by (intro slot_okI) (use slot_okD[OF inv] True in \<open>auto simp: worker_run_failed_def Let_def\<close>)
next
  case False
  then show ?thesis by (auto simp: worker_run_failed_def Let_def intro: slot_ok_close)
qed

lemma slot_begin_cases:
  assumes "slot_begin gen src x = (x', b)"
  obtains (run) "b = Deliver" "s_phase x = Running" "generation x = gen" "src = None"
      "x' = x\<lparr>in_flight := True\<rparr>"
    | (source) i where "b = Deliver" "s_phase x = Running" "generation x = gen" "src = Some i"
      "map_of (sources x) i = Some True"
      "x' = x\<lparr>sources := bt_insert i False (sources x), in_flight := True\<rparr>"
    | (stopped) "b = BeginStopped" "x' = x" "s_phase x \<noteq> Running \<or> generation x \<noteq> gen"
    | (gone) "b = SourceGone" "x' = x"
proof (cases "s_phase x \<noteq> Running \<or> generation x \<noteq> gen")
  case True
  then show ?thesis using assms stopped by (auto simp: slot_begin_def)
next
  case False
  show ?thesis
  proof (cases src)
    case None
    then show ?thesis using assms False run by (auto simp: slot_begin_def)
  next
    case (Some i)
    show ?thesis
    proof (cases "map_of (sources x) i = Some True")
      case True
      then show ?thesis using assms False source[of i] Some by (auto simp: slot_begin_def)
    next
      case other: False
      have "(x', b) = (x, SourceGone)"
        using assms False Some other by (auto simp: slot_begin_def split: option.splits bool.splits)
      then show ?thesis using gone by simp
    qed
  qed
qed

lemma slot_ok_deliver:
  assumes inv: "slot_ok closed False kg sg x" and run: "slot_begin gen src x = (x', Deliver)"
  shows "slot_ok closed True kg sg x'"
proof -
  have busy: "slot_ok closed True kg sg (y\<lparr>in_flight := True\<rparr>)"
    if "slot_ok closed False kg sg y" "s_phase y = Running" for y
    by (intro slot_okI) (use slot_okD[OF that(1)] that(2) in auto)
  show ?thesis using run
  proof (cases rule: slot_begin_cases)
    case run
    then show ?thesis using busy[OF inv] by simp
  next
    case (source i)
    then show ?thesis using busy[OF slot_ok_set_ready[OF inv source(5), of False]] by simp
  qed auto
qed

lemma snapshot_origin:
  assumes inv: "slot_ok closed busy (kick_gen s) (source_gen s) x"
    and run: "serve_snapshot x = (x', Some (gen, es))" and e: "e \<in> set es"
  shows "origin s e = gen"
proof -
  note old = slot_okD[OF inv]
  have gen: "gen = generation x" and phase: "s_phase x = Running"
    using run by (auto simp: serve_snapshot_def split: if_splits)
  have "(\<exists>i<MAX_QUEUES. e = QueueKick (word_of_nat i) \<and> kicks x AND push_bit i 1 \<noteq> 0) \<or>
      (\<exists>i. e = BackendReady i \<and> (i, True) \<in> set (sources x))"
    using run e by (auto simp: serve_snapshot_def simp del: push_bit_of_1 split: if_splits)
  then show ?thesis
  proof (elim disjE exE conjE)
    fix i assume i: "i < MAX_QUEUES" "e = QueueKick (word_of_nat i)" "kicks x AND push_bit i 1 \<noteq> 0"
    have n: "unat (word_of_nat i :: u16) = i"
      using i(1) by (intro of_nat_inverse[OF refl]) (simp add: MAX_QUEUES_def)
    have "bit (kicks x) i" using i(3) by (simp add: and_exp_eq_0_iff_not_bit)
    then show ?thesis using i n old(7)[of "word_of_nat i"] phase gen by (simp add: origin_def)
  next
    fix i assume "e = BackendReady i" "(i, True) \<in> set (sources x)"
    then show ?thesis using old(5,6) gen map_of_Some_iff[OF old(5)] by (simp add: origin_def)
  qed
qed

lemma slot_inv_step:
  assumes inv: "slot_inv s" and step: "worker_step h s s'"
  shows "slot_inv s'"
proof -
  have ok: "slot_ok (w_closed (sys s)) (running s \<noteq> None) (kick_gen s) (source_gen s) (slot_of s)"
    and hist: "history_ok s" using inv by (auto simp: slot_inv_def)
  show ?thesis
    using step
  proof cases
    case (prepare w r)
    then show ?thesis using slot_ok_prepare[OF ok] hist by (auto simp: slot_inv_def)
  next
    case (start w r1)
    then show ?thesis using slot_ok_start[OF ok] hist by (auto simp: slot_inv_def)
  next
    case (kick i)
    then show ?thesis using slot_ok_kick[OF ok] hist by (simp add: slot_inv_def)
  next
    case cancel
    then show ?thesis using ok hist slot_okD(1,3)[OF ok]
      by (auto simp: slot_inv_def worker_cancel_prepare_def intro: slot_ok_close)
  next
    case (stop_now w r2)
    then show ?thesis using slot_ok_stop_enter[OF ok] hist by (auto simp: slot_inv_def)
  next
    case (stop_wait w)
    then show ?thesis using slot_ok_stop_enter[OF ok] hist by (auto simp: slot_inv_def)
  next
    case (stop_done w r3)
    then show ?thesis using slot_ok_stop_leave[OF ok] hist by (auto simp: slot_inv_def)
  next
    case (register host gen x i)
    then show ?thesis using slot_ok_register[OF ok, of host gen x] hist by (auto simp: slot_inv_def)
  next
    case (register_error host gen x e)
    then show ?thesis using slot_ok_register[OF ok, of host gen x] hist by (auto simp: slot_inv_def)
  next
    case (deregister gen i)
    then show ?thesis using slot_ok_deregister[OF ok] hist by (simp add: slot_inv_def)
  next
    case (mark i)
    then show ?thesis using slot_ok_set_ready[OF ok] ok hist
      by (auto simp: slot_inv_def mark_ready_def split: option.splits)
  next
    case (take_pass x gen es)
    then have "x = (slot_of s)\<lparr>kicks := 0\<rparr>" by (auto simp: serve_snapshot_def split: if_splits)
    moreover have "history_ok s'"
      using take_pass hist snapshot_origin[OF ok take_pass(3)] by (auto simp: history_ok_def)
    ultimately show ?thesis using take_pass slot_ok_mono(2)[OF ok] by (simp add: slot_inv_def)
  next
    case (begin_event gen e og rest x)
    have "og = gen" "\<forall>x\<in>set rest. snd x = gen" using hist begin_event(2) by (auto simp: history_ok_def)
    then have "history_ok s'" using hist begin_event by (auto simp: history_ok_def)
    then show ?thesis using begin_event slot_ok_deliver[OF _ begin_event(4)] ok by (simp add: slot_inv_def)
  next
    case (skip_event gen eo rest x)
    have "x = slot_of s" using skip_event(4) by (cases rule: slot_begin_cases) auto
    moreover have "history_ok s'" using hist skip_event by (auto simp: history_ok_def)
    ultimately show ?thesis using skip_event ok by (simp add: slot_inv_def)
  next
    case drop_pass
    then show ?thesis using ok history_ok_pass[OF hist] by (simp add: slot_inv_def)
  next
    case (end_event gen r4 w again)
    obtain x again' failed where e: "slot_end gen r4 (slot_of s) = (x, again', failed)"
      by (rule prod_cases3)
    have "w_slot w = x" "w_closed w = w_closed (sys s)"
      using end_event(3) e by (auto simp: worker_end_def)
    moreover have "history_ok s'" using hist end_event by (auto simp: history_ok_def)
    ultimately show ?thesis using end_event slot_ok_end[OF ok e] by (simp add: slot_inv_def)
  next
    case (shutdown joined w r5)
    then show ?thesis using slot_ok_shutdown[OF ok] hist by (auto simp: slot_inv_def)
  next
    case (run_failed kind)
    then show ?thesis using slot_ok_run_failed[OF ok] hist by (simp add: slot_inv_def history_ok_def)
  qed
qed

lemma slot_inv_reachable: "worker_reachable h s \<Longrightarrow> slot_inv s"
proof (induction rule: worker_reachable.induct)
  case initial
  have "slot_ok False False (\<lambda>_. 0) (\<lambda>_. 0) new_slot" by (intro slot_okI) (simp_all add: new_slot_def)
  then show ?case
    by (simp add: slot_inv_def sys_start_def SharedRuntime_new_def history_ok_def)
next
  case step
  then show ?case using slot_inv_step by blast
qed

section \<open>Properties\<close>

text \<open>
  C2. No event crosses a generation: whatever the transport, the device, the poller, the worker
  thread and a shutdown do and in whatever order, every event the device is given was kicked, or
  comes from a source registered, in the very generation it is delivered in; and an event begins
  only while that generation runs.
\<close>

theorem events_stay_in_generation:
  assumes reach: "worker_reachable h s"
  shows "(\<forall>(e, origin_gen, gen)\<in>set (delivered s). origin_gen = gen) \<and>
    (\<forall>s' x. worker_step h s s' \<longrightarrow> delivered s' = delivered s @ [x] \<longrightarrow>
       s_phase (slot_of s) = Running \<and> generation (slot_of s) = snd (snd x) \<and> \<not> in_flight (slot_of s))"
proof (intro conjI allI impI)
  have inv: "slot_inv s" by (rule slot_inv_reachable[OF reach])
  then show "\<forall>(e, origin_gen, gen)\<in>set (delivered s). origin_gen = gen"
    by (auto simp: slot_inv_def history_ok_def)
  fix s' x assume step: "worker_step h s s'" and new: "delivered s' = delivered s @ [x]"
  show "s_phase (slot_of s) = Running" "generation (slot_of s) = snd (snd x)" "\<not> in_flight (slot_of s)"
  proof -
    have "s_phase (slot_of s) = Running \<and> generation (slot_of s) = snd (snd x) \<and> running s = None"
      using step new
    proof cases
      case (begin_event gen e og rest y)
      then show ?thesis using new by (cases rule: slot_begin_cases[OF begin_event(4)]) auto
    qed simp_all
    then show "s_phase (slot_of s) = Running" "generation (slot_of s) = snd (snd x)" "\<not> in_flight (slot_of s)"
      using inv by (auto simp: slot_inv_def dest: slot_okD(1))
  qed
qed

text \<open>
  C16. A stop that succeeds leaves nothing behind: unless the runtime was shut down, when \<open>stop\<close>
  returns Ok, at once or after its wait, no event is in flight, no kick and no source is left, and
  no event can begin in any generation until a new one is prepared and started.
\<close>

theorem stop_leaves_nothing:
  assumes reach: "worker_reachable h s" and live: "\<not> w_closed (sys s)"
    and stop: "stop_enter (sys s) = (w, Some (Inr ())) \<or> stop_leave (sys s) = (w, Inr ())"
  shows "s_phase (w_slot w) = Stopped \<and> \<not> in_flight (w_slot w) \<and> sources (w_slot w) = [] \<and>
    (\<forall>gen src. snd (slot_begin gen src (w_slot w)) = BeginStopped)"
proof -
  have ok: "slot_ok False (running s \<noteq> None) (kick_gen s) (source_gen s) (slot_of s)"
    using slot_inv_reachable[OF reach] live by (simp add: slot_inv_def)
  note old = slot_okD[OF ok]
  have "s_phase (w_slot w) = Stopped \<and> \<not> in_flight (w_slot w) \<and> sources (w_slot w) = []"
    using stop old(1,3,4)
    by (auto simp: stop_enter_def stop_leave_def split: phase.splits if_splits)
  then show ?thesis by (simp add: slot_begin_def)
qed

text \<open>
  A closed runtime stays closed: once it was shut down or its thread failed, the slot is
  stopped or failed in every later state, so no event begins and no generation opens.
\<close>

theorem closed_runtime_is_final:
  assumes reach: "worker_reachable h s" and closed: "w_closed (sys s)" and step: "worker_step h s s'"
  shows "w_closed (sys s') \<and> s_phase (slot_of s') \<in> {Stopped, Failed} \<and> delivered s' = delivered s \<and>
    \<not> is_ok (snd (worker_prepare (sys s'))) \<and> \<not> is_ok (snd (worker_start h (sys s')))"
proof -
  have ok: "slot_ok True (running s \<noteq> None) (kick_gen s) (source_gen s) (slot_of s)"
    using slot_inv_reachable[OF reach] closed by (simp add: slot_inv_def)
  have phase: "s_phase (slot_of s) \<noteq> Running" using slot_okD(2)[OF ok] by auto
  have "w_closed (sys s') \<and> delivered s' = delivered s"
    using step
  proof cases
    case (begin_event gen e og rest y)
    then show ?thesis using phase by (cases rule: slot_begin_cases[OF begin_event(4)]) auto
  qed (use closed in \<open>auto simp: worker_prepare_def worker_start_def worker_open_def worker_kick_def Let_def
      worker_cancel_prepare_def stop_enter_def stop_leave_def worker_end_def worker_shutdown_def
      worker_run_failed_def dest: ensure_thread_slot
      split: if_splits phase.splits prod.splits sum.splits thread.splits\<close>)
  moreover have "slot_inv s'" using slot_inv_step[OF slot_inv_reachable[OF reach] step] .
  ultimately show ?thesis
    by (auto simp: slot_inv_def worker_prepare_def worker_start_def worker_open_def
        dest!: slot_okD(2) elim!: ended.elims(2) dest: ensure_thread_slot split: sum.splits prod.splits)
qed

lemma slot_end_ok: "slot_end gen (Inr u) x = (x\<lparr>in_flight := False\<rparr>, s_phase x = Running, None)"
  by (simp add: slot_end_def Let_def)

lemma bt_insert_same: "map_of (bt_insert i v m) j = (if j = i then Some v else map_of m j)" if "bt_ok m"
  using map_of_bt_insert[OF that, of i v] by simp

lemma dispatch_runs:
  assumes fine: "\<And>d e. \<exists>d'. on_event d e = (d', Returned (Inr ()))"
    and run: "s_phase (w_slot (sv_worker sv)) = Running" "generation (w_slot (sv_worker sv)) = gen"
    and live: "\<not> sv_poisoned sv" "\<not> in_flight (w_slot (sv_worker sv))"
    and ready: "\<And>i. e = BackendReady i \<Longrightarrow> map_of (sources (w_slot (sv_worker sv))) i = Some True"
  shows "\<exists>d. dispatch h sl on_event gen e sv =
    (sv\<lparr>sv_worker := (sv_worker sv)\<lparr>w_slot := (case e of QueueKick _ \<Rightarrow> w_slot (sv_worker sv)
        | BackendReady i \<Rightarrow> (w_slot (sv_worker sv))\<lparr>sources := bt_insert i False (sources (w_slot (sv_worker sv)))\<rparr>)\<rparr>,
      sv_device := d, sv_delivered := sv_delivered sv @ [e]\<rparr>, True)"
proof -
  obtain d where d: "on_event (sv_device sv) e = (d, Returned (Inr ()))" using fine by blast
  have idle: "(w_slot (sv_worker sv))\<lparr>in_flight := False\<rparr> = w_slot (sv_worker sv)"
    using live(2) by (simp add: worker_slot.equality)
  show ?thesis
    using run live ready d idle
    by (intro exI[of _ d], cases e)
      (simp_all add: dispatch_def slot_begin_def event_source_def served_end_def end_needs_reset_def
        worker_end_def slot_end_ok Let_def)
qed

lemma dispatch_all_runs:
  assumes fine: "\<And>d e. \<exists>d'. on_event d e = (d', Returned (Inr ()))"
    and "s_phase (w_slot (sv_worker sv)) = Running" "generation (w_slot (sv_worker sv)) = gen"
    and "\<not> sv_poisoned sv" "\<not> in_flight (w_slot (sv_worker sv))"
    and "bt_ok (sources (w_slot (sv_worker sv)))" "distinct es"
    and "\<And>i. BackendReady i \<in> set es \<Longrightarrow> map_of (sources (w_slot (sv_worker sv))) i = Some True"
  shows "let sv' = dispatch_all h sl on_event gen es sv; x = w_slot (sv_worker sv); x' = w_slot (sv_worker sv') in
    sv_delivered sv' = sv_delivered sv @ es \<and> s_phase x' = Running \<and> \<not> in_flight x' \<and> kicks x' = kicks x \<and>
    map_of (sources x') = (\<lambda>i. if BackendReady i \<in> set es then Some False else map_of (sources x) i)"
  using assms(2-)
proof (induction es arbitrary: sv)
  case Nil
  then show ?case by simp
next
  case (Cons e es)
  obtain d where step: "dispatch h sl on_event gen e sv =
    (sv\<lparr>sv_worker := (sv_worker sv)\<lparr>w_slot := (case e of QueueKick _ \<Rightarrow> w_slot (sv_worker sv)
        | BackendReady i \<Rightarrow> (w_slot (sv_worker sv))\<lparr>sources := bt_insert i False (sources (w_slot (sv_worker sv)))\<rparr>)\<rparr>,
      sv_device := d, sv_delivered := sv_delivered sv @ [e]\<rparr>, True)" (is "_ = (?sv, True)")
    using dispatch_runs[where on_event = on_event and sv = sv and gen = gen and e = e and h = h and sl = sl,
        OF fine Cons.prems(1-4)] Cons.prems(7)
    by auto
  have prem: "s_phase (w_slot (sv_worker ?sv)) = Running" "generation (w_slot (sv_worker ?sv)) = gen"
    "\<not> sv_poisoned ?sv" "\<not> in_flight (w_slot (sv_worker ?sv))" "bt_ok (sources (w_slot (sv_worker ?sv)))"
    "distinct es" using Cons.prems by (simp_all add: bt_ok_insert split: device_event.split)
  have src: "map_of (sources (w_slot (sv_worker ?sv))) =
      (\<lambda>i. if e = BackendReady i then Some False else map_of (sources (w_slot (sv_worker sv))) i)"
    using bt_insert_same[OF Cons.prems(5)] by (auto split: device_event.split)
  have "map_of (sources (w_slot (sv_worker ?sv))) i = Some True" if "BackendReady i \<in> set es" for i
    unfolding src using that Cons.prems(6,7) by auto
  note IH = Cons.IH[OF prem this]
  show ?case
    using IH[unfolded Let_def src] step by (auto simp: Let_def fun_eq_iff split: device_event.splits)
qed

text \<open>The queues whose kick bit is set and the sources that are ready, each in ascending order.\<close>

definition kicked_queues :: "worker_slot \<Rightarrow> u16 list" where
  "kicked_queues x = filter (\<lambda>i. bit (kicks x) (unat i)) (map word_of_nat [0..<MAX_QUEUES])"

definition ready_sources :: "worker_slot \<Rightarrow> u32 list" where
  "ready_sources x = map fst (filter snd (sources x))"

text \<open>
  A pass loses nothing: over a running slot whose device keeps answering Ok, it delivers one
  QueueKick for every kicked queue, in queue order, then one BackendReady for every ready source,
  in source order, clears exactly those marks, and leaves the slot running and idle.
\<close>

theorem pass_delivers_everything:
  assumes fine: "\<And>d e. \<exists>d'. on_event d e = (d', Returned (Inr ()))"
    and reach: "worker_reachable h0 s" and x: "w_slot (sv_worker sv) = slot_of s"
    and run: "s_phase (slot_of s) = Running" "running s = None" "\<not> sv_poisoned sv"
  shows "let sv' = serve_slot h sl on_event sv; x' = w_slot (sv_worker sv') in
    sv_delivered sv' = sv_delivered sv @ map QueueKick (kicked_queues (slot_of s)) @
      map BackendReady (ready_sources (slot_of s)) \<and>
    s_phase x' = Running \<and> \<not> in_flight x' \<and> kicks x' = 0 \<and>
    (\<forall>i. map_of (sources x') i = map_option (\<lambda>_. False) (map_of (sources (slot_of s)) i))"
proof -
  have ok: "slot_ok (w_closed (sys s)) False (kick_gen s) (source_gen s) (slot_of s)"
    using slot_inv_reachable[OF reach] run(2) by (simp add: slot_inv_def)
  note old = slot_okD[OF ok]
  let ?x = "slot_of s"
  let ?es = "map QueueKick (kicked_queues ?x) @ map BackendReady (ready_sources ?x)"
  have idx: "unat (word_of_nat i :: u16) = i" if "i < MAX_QUEUES" for i
    using that by (intro of_nat_inverse[OF refl]) (simp add: MAX_QUEUES_def)
  have kicked: "kicked_queues ?x =
      map word_of_nat (filter (\<lambda>i. kicks ?x AND push_bit i 1 \<noteq> 0) [0..<MAX_QUEUES])"
    unfolding kicked_queues_def filter_map
    by (intro arg_cong[where f = "map word_of_nat"] filter_cong) (auto simp: idx and_exp_eq_0_iff_not_bit)
  have snap: "serve_snapshot ?x = (?x\<lparr>kicks := 0\<rparr>, Some (generation ?x, ?es))"
    using run(1) by (simp add: serve_snapshot_def kicked ready_sources_def comp_def split_beta del: push_bit_of_1)
  have "inj_on (word_of_nat :: nat \<Rightarrow> u16) {0..<MAX_QUEUES}"
    by (intro inj_onI) (metis atLeastLessThan_iff idx)
  then have "distinct (kicked_queues ?x)"
    by (auto simp: kicked_queues_def distinct_map)
  moreover have "distinct (ready_sources ?x)"
    using old(5) bt_ok_filter[of "sources ?x" snd]
    by (simp add: ready_sources_def bt_ok_def strict_sorted_iff)
  ultimately have dist: "distinct ?es"
    by (auto simp: distinct_map inj_on_def)
  have ready: "BackendReady i \<in> set ?es \<longleftrightarrow> map_of (sources ?x) i = Some True" for i
    using map_of_Some_iff[OF old(5)] by (force simp: ready_sources_def)
  have all: "let sv' = dispatch_all h sl on_event (generation ?x) ?es
        (sv\<lparr>sv_worker := (sv_worker sv)\<lparr>w_slot := ?x\<lparr>kicks := 0\<rparr>\<rparr>\<rparr>) in
      sv_delivered sv' = sv_delivered sv @ ?es \<and> s_phase (w_slot (sv_worker sv')) = Running \<and>
      \<not> in_flight (w_slot (sv_worker sv')) \<and> kicks (w_slot (sv_worker sv')) = 0 \<and>
      map_of (sources (w_slot (sv_worker sv'))) =
        (\<lambda>i. if BackendReady i \<in> set ?es then Some False else map_of (sources ?x) i)"
    using dispatch_all_runs[where sv = "sv\<lparr>sv_worker := (sv_worker sv)\<lparr>w_slot := ?x\<lparr>kicks := 0\<rparr>\<rparr>\<rparr>" and gen = "generation ?x"
        and es = ?es and on_event = on_event and h = h and sl = sl] fine run old(1,5) dist ready
    by (simp add: Let_def cong: if_cong)
  have "(if BackendReady i \<in> set ?es then Some False else map_of (sources ?x) i) =
      map_option (\<lambda>_. False) (map_of (sources ?x) i)" for i
    unfolding ready by (cases "map_of (sources ?x) i") auto
  then show ?thesis
    using all snap x by (simp add: serve_slot_def Let_def)
qed

text \<open>
  A poller token names one slot and one source: unpacking the token of a slot and a source
  id gives both back, and the token of a registered source is never the waker's.
\<close>

theorem token_roundtrip:
  "source_of (token slot i) = (unat slot, i) \<and>
   (snd (registrar_register host gen x) = Inr i \<longrightarrow> token slot i \<noteq> - 1)"
proof -
  have low: "ucast (token slot i) = i"
    by (rule bit_word_eqI) (auto simp: token_def bit_ucast_iff bit_or_iff bit_push_bit_iff)
  have high: "drop_bit 32 (token slot i) = ucast slot"
    by (rule bit_word_eqI)
      (auto simp: token_def bit_ucast_iff bit_or_iff bit_push_bit_iff bit_drop_bit_eq dest: bit_imp_le_length)
  have "unat (ucast slot :: u64) = unat slot"
    by (simp add: unsigned_ucast_eq take_bit_nat_eq_self order_less_trans[OF unsigned_less])
  then have pair: "source_of (token slot i) = (unat slot, i)"
    by (simp add: source_of_def low high)
  have "token slot i \<noteq> - 1" if reg: "snd (registrar_register host gen x) = Inr i"
  proof
    assume "token slot i = - 1"
    then have "i = ucast (- 1 :: u64)" using low by simp
    also have "\<dots> = - 1" by (rule bit_word_eqI) (simp add: bit_ucast_iff)
    finally have "unat i + 1 = 2 ^ LENGTH(32)" by (simp add: unsigned_minus_1_eq_mask mask_eq_exp_minus_1)
    moreover have "checked_add i 1 \<noteq> None"
      using reg by (auto simp: registrar_register_def Let_def split: if_splits option.splits)
    ultimately show False by (simp add: checked_add_def)
  qed
  then show ?thesis using pair by blast
qed

section \<open>A run of the runtime\<close>

definition demo_host :: worker_host where
  "demo_host = \<lparr>h_spawn = None, h_wait = (\<lambda>_. WaitTimedOut), h_name = ''demo''\<rparr>"

definition demo_slot :: "phase \<Rightarrow> u32 \<Rightarrow> bool \<Rightarrow> worker_slot" where
  "demo_slot p k busy = \<lparr>kicks = k, s_phase = p, generation = 1, in_flight = busy, next_source = 0, sources = []\<rparr>"

definition demo_running :: worker where
  "demo_running = \<lparr>w_slot = demo_slot Running 0 False, w_closed = False, w_thread = ThreadRunning, w_sent = []\<rparr>"

definition demo_sys :: "(u16 \<Rightarrow> u64) \<Rightarrow> worker \<Rightarrow> worker_sys" where
  "demo_sys kg w = sys_start\<lparr>sys := w, kick_gen := kg\<rparr>"

lemma demo_running_reachable: "worker_reachable demo_host (demo_sys (\<lambda>_. 0) demo_running)"
proof -
  let ?w = "SharedRuntime_new\<lparr>w_slot := demo_slot Prepared 0 False\<rparr>"
  have "worker_prepare (sys sys_start) = (?w, Inr 1)"
    by (simp add: worker_prepare_def sys_start_def SharedRuntime_new_def new_slot_def demo_slot_def)
  from worker_step.prepare[OF _ this, of demo_host]
  have "worker_reachable demo_host (sys_start\<lparr>sys := ?w\<rparr>)"
    using worker_reachable.step[OF worker_reachable.initial] by (simp add: sys_start_def)
  moreover have "worker_start demo_host ?w = (demo_running, Inr ())"
    by (simp add: worker_start_def ensure_thread_def worker_open_def SharedRuntime_new_def demo_host_def
        demo_running_def demo_slot_def)
  then have "worker_step demo_host (sys_start\<lparr>sys := ?w\<rparr>) (sys_start\<lparr>sys := ?w\<rparr>\<lparr>sys := demo_running\<rparr>)"
    by (intro worker_step.start) (simp_all add: sys_start_def)
  ultimately have "worker_reachable demo_host (sys_start\<lparr>sys := ?w\<rparr>\<lparr>sys := demo_running\<rparr>)"
    by (rule worker_reachable.step)
  then show ?thesis by (simp add: demo_sys_def sys_start_def)
qed

lemma demo_kicked_reachable:
  "worker_reachable demo_host (demo_sys ((\<lambda>_. 0)(3 := 1)) (worker_kick 3 demo_running))"
proof -
  have "worker_step demo_host (demo_sys (\<lambda>_. 0) demo_running)
      ((demo_sys (\<lambda>_. 0) demo_running)\<lparr>sys := worker_kick 3 demo_running, kick_gen := (\<lambda>_. 0)(3 := 1)\<rparr>)"
    using worker_step.kick[of "demo_sys (\<lambda>_. 0) demo_running" demo_host 3]
    by (simp add: demo_sys_def sys_start_def demo_running_def demo_slot_def)
  from worker_reachable.step[OF demo_running_reachable this] show ?thesis
    by (simp add: demo_sys_def)
qed

lemma demo_kicked_slot: "w_slot (worker_kick 3 demo_running) = demo_slot Running 8 False"
  by (simp add: worker_kick_def demo_running_def demo_slot_def MAX_QUEUES_def)

theorem pass_delivers_everything_witness:
  "sv_delivered (serve_slot demo_host (\<lambda>c n v. (c, Inr ())) (\<lambda>d e. (d + 1, Returned (Inr ())))
     \<lparr>sv_worker = worker_kick 3 demo_running, sv_interrupt = MmioInterrupt_new () (IrqLine_new 5),
      sv_device = (0 :: nat), sv_poisoned = False, sv_delivered = []\<rparr>) = [QueueKick 3]"
proof -
  let ?sv = "\<lparr>sv_worker = worker_kick 3 demo_running, sv_interrupt = MmioInterrupt_new () (IrqLine_new 5),
      sv_device = (0 :: nat), sv_poisoned = False, sv_delivered = []\<rparr>"
  have slot: "slot_of (demo_sys ((\<lambda>_. 0)(3 := 1)) (worker_kick 3 demo_running)) = demo_slot Running 8 False"
    by (simp add: demo_sys_def demo_kicked_slot)
  have "kicked_queues (demo_slot Running 8 False) = [3]" by code_simp
  moreover have "ready_sources (demo_slot Running 8 False) = []" by code_simp
  ultimately show ?thesis
    using pass_delivers_everything[where on_event = "\<lambda>d e. (d + 1, Returned (Inr ()))" and sv = ?sv
        and h = demo_host and sl = "\<lambda>c n v. (c, Inr ())", OF _ demo_kicked_reachable] slot
    by (simp add: Let_def demo_kicked_slot demo_sys_def sys_start_def) (simp add: demo_slot_def)
qed

lemma demo_delivered_reachable:
  "\<exists>s. worker_reachable demo_host s \<and> delivered s = [(QueueKick 3, 1, 1)]"
proof -
  let ?s = "demo_sys ((\<lambda>_. 0)(3 := 1)) (worker_kick 3 demo_running)"
  have "serve_snapshot (demo_slot Running 8 False) = (demo_slot Running 0 False, Some (1, [QueueKick 3]))"
    by code_simp
  then have take: "worker_step demo_host ?s
      ((with_slot (demo_slot Running 0 False) ?s)\<lparr>pass := Some (1, map (\<lambda>e. (e, origin ?s e)) [QueueKick 3])\<rparr>)"
    by (intro take_pass) (simp_all add: demo_sys_def sys_start_def demo_kicked_slot)
  let ?t = "(with_slot (demo_slot Running 0 False) ?s)\<lparr>pass := Some (1, [(QueueKick 3, 1)])\<rparr>"
  have t: "worker_reachable demo_host ?t"
    using worker_reachable.step[OF demo_kicked_reachable take] by (simp add: origin_def demo_sys_def)
  have "worker_step demo_host ?t ((with_slot (demo_slot Running 0 True) ?t)\<lparr>pass := Some (1, []), running := Some 1,
      delivered := delivered ?t @ [(QueueKick 3, 1, 1)]\<rparr>)"
    by (intro begin_event)
      (simp_all add: demo_sys_def sys_start_def slot_begin_def event_source_def demo_slot_def)
  from worker_reachable.step[OF t this] show ?thesis
    by (intro exI conjI, assumption) (simp add: demo_sys_def sys_start_def)
qed

theorem events_stay_in_generation_witness:
  "\<exists>s :: worker_sys. delivered s = [(QueueKick 3, 1, 1)] \<and> (\<forall>(e, origin_gen, gen)\<in>set (delivered s). origin_gen = gen)"
proof -
  obtain s where s: "worker_reachable demo_host s" "delivered s = [(QueueKick 3, 1, 1)]"
    using demo_delivered_reachable by blast
  show ?thesis
    using events_stay_in_generation[OF s(1), THEN conjunct1] s(2) by blast
qed

theorem stop_leaves_nothing_witness:
  "snd (slot_begin 1 None (demo_slot Stopped 0 False)) = BeginStopped"
proof -
  let ?s = "demo_sys (\<lambda>_. 0) demo_running"
  have "stop_leave (sys ?s) = (demo_running\<lparr>w_slot := demo_slot Stopped 0 False\<rparr>, Inr ())"
    by (simp add: stop_leave_def demo_sys_def demo_running_def demo_slot_def slot_close_def)
  from stop_leaves_nothing[OF demo_running_reachable _ disjI2[OF this]] show ?thesis
    by (simp add: demo_sys_def demo_running_def)
qed

theorem closed_runtime_is_final_witness:
  "\<not> is_ok (snd (worker_prepare (worker_kick 1 (fst (worker_shutdown True demo_running)))))"
proof -
  let ?s = "demo_sys (\<lambda>_. 0) demo_running"
  let ?c = "?s\<lparr>sys := fst (worker_shutdown True demo_running)\<rparr>"
  have "worker_step demo_host ?s ?c"
    by (rule worker_step.shutdown[where joined = True and ?r5.0 = "snd (worker_shutdown True demo_running)"])
      (simp_all add: demo_sys_def sys_start_def)
  from worker_reachable.step[OF demo_running_reachable this] have reach: "worker_reachable demo_host ?c" .
  have step: "worker_step demo_host ?c (?c\<lparr>sys := worker_kick 1 (sys ?c),
      kick_gen := (kick_gen ?c)(1 := generation (slot_of ?c))\<rparr>)"
    by (rule worker_step.kick) (simp add: demo_sys_def sys_start_def)
  show ?thesis
    using closed_runtime_is_final[OF reach _ step]
    by (simp add: worker_shutdown_def demo_running_def Let_def)
qed

theorem token_roundtrip_witness: "token 2 0 \<noteq> - 1"
proof -
  have "snd (registrar_register (\<lambda>_. None) 1 (demo_slot Running 0 False)) = Inr 0"
    by (simp add: registrar_register_def slot_is_open_def demo_slot_def checked_add_def)
  then show ?thesis using token_roundtrip[of 2 0 "\<lambda>_. None" 1 "demo_slot Running 0 False"] by blast
qed

section \<open>The transport on the shared runtime\<close>

lemma failed_stop_keeps:
  assumes "e_worker env = shared_worker h" "active t" "worker_stop h (t_worker t) = (w, Inl e)"
  shows "t_device (MmioTransport_write env t 0x70 [0, 0, 0, 0]) = t_device t \<and>
    active (MmioTransport_write env t 0x70 [0, 0, 0, 0])"
  using assms by (simp add: MmioTransport_write_def write_control_def write_status_def t_reset_def shared_worker_def
      Let_def report_worker_failure_def send_device_failed_def from_le_bytes_def CONFIG_OFFSET_def)

text \<open>
  C1. The device is reset only while its worker is quiet: stopped or failed, with no event being
  handled. A transport on the shared runtime whose worker is quiet whenever it is not active stays so
  across every guest write, and calls the device's reset only on a quiet slot, for any function that
  agrees with the real reset there gives the same transport. When the worker does not stop, because the
  event in flight outlasts the timeout or the slot has failed, a status write of zero leaves the device
  as it is and the transport active. The device may register sources when it is activated and reset, but
  not run the slot.
\<close>

theorem reset_only_when_quiet:
  assumes wc: "e_worker env = shared_worker h"
    and activate: "\<And>d ctx w d' w' r. vd_activate (e_device env) d ctx w = (d', w', r) \<Longrightarrow>
      s_phase (w_slot w') = s_phase (w_slot w) \<and> in_flight (w_slot w') = in_flight (w_slot w) \<and> w_closed w' = w_closed w"
    and reset: "\<And>d w d' w' r. vd_reset (e_device env) d w = (d', w', r) \<Longrightarrow>
      s_phase (w_slot w') = s_phase (w_slot w) \<and> in_flight (w_slot w') = in_flight (w_slot w) \<and> w_closed w' = w_closed w"
    and agree: "\<And>d w. slot_quiet w \<Longrightarrow> f d w = vd_reset (e_device env) d w"
    and start: "slot_sane (t_worker t)" "active t \<or> slot_quiet (t_worker t)"
  shows "MmioTransport_write (with_reset env f) t offset data = MmioTransport_write env t offset data \<and>
    slot_sane (t_worker (MmioTransport_write env t offset data)) \<and>
    (active (MmioTransport_write env t offset data) \<or> slot_quiet (t_worker (MmioTransport_write env t offset data))) \<and>
    (active t \<and> (\<exists>w e. worker_stop h (t_worker t) = (w, Inl e)) \<longrightarrow>
      t_device (MmioTransport_write env t 0x70 [0, 0, 0, 0]) = t_device t \<and>
      active (MmioTransport_write env t 0x70 [0, 0, 0, 0]))"
proof -
  have keeps: "slot_typestate.device_keeps env"
    unfolding slot_typestate.device_keeps_def
  proof (intro conjI allI impI)
    fix d ctx w d' w' r
    assume "vd_activate (e_device env) d ctx w = (d', w', r)" and "slot_unstarted w"
    then show "slot_unstarted w'" using activate by (metis slot_unstarted_def slot_quiet_def)
  next
    fix d w d' w' r
    assume "vd_reset (e_device env) d w = (d', w', r)" and "slot_quiet w"
    then show "slot_quiet w'" using reset by (metis slot_quiet_def)
  qed
  have agrees: "slot_typestate.agrees_when_quiet env f"
    unfolding slot_typestate.agrees_when_quiet_def using agree by blast
  have "slot_typestate.follows t"
    using start by (simp add: slot_typestate.follows_def)
  from slot_typestate.write_follows[OF wc keeps agrees this] show ?thesis
    using failed_stop_keeps[OF wc, of t] unfolding slot_typestate.follows_def by blast
qed

text \<open>A device over the shared runtime whose reset cheats on a running worker.\<close>

definition shared_device :: "(nat, worker, (list_queue, nat, u64) activation_context) virtio_device" where
  "shared_device = \<lparr>vd_spec = \<lambda>d. demo_spec, vd_set_features = \<lambda>d f. (d, Inr ()),
     vd_read_config = \<lambda>d off buf. (d, buf, Inr ()), vd_write_config = \<lambda>d off buf. (d, Inr ()),
     vd_activate = \<lambda>d ctx w. (d + 1, w, Inr ()), vd_reset = \<lambda>d w. (0, w, Inr ())\<rparr>"

definition shared_env :: "(nat, worker, u64, unit, list_queue, nat, u16, bool \<times> u16 option) mmio_env" where
  "shared_env = \<lparr>e_device = shared_device, e_worker = shared_worker demo_host, e_line = \<lambda>c n v. (c, Inr ()),
     e_queue = list_queue_ops,
     e_queue_new = \<lambda>mx. Some \<lparr>lq_avail = [], lq_popped = [], lq_used = []\<rparr>,
     e_try_set_size = \<lambda>n q. Some q, e_try_set_desc_table_address = \<lambda>a q. Some q,
     e_try_set_avail_ring_address = \<lambda>a q. Some q, e_try_set_used_ring_address = \<lambda>a q. Some q,
     e_set_ready = \<lambda>b q. q\<rparr>"

definition shared_transport :: "(nat, worker, unit, nat) transport" where
  "shared_transport = \<lparr>t_device = 1, t_interrupt = MmioInterrupt_new () (IrqLine_new 5), t_memory = 0, t_sent = [],
     t_worker = demo_running, t_spec = demo_spec, device_features_sel = 0, driver_features_sel = 0,
     driver_features = 0x100000001, features_ok = True, active = True, queue_sel = 0,
     t_queues = fresh_queues demo_spec\<rparr>"

text \<open>The event in flight outlasts the stop: the slot fails, and a reset that cheats there is never called.\<close>

definition busy_transport :: "(nat, worker, unit, nat) transport" where
  "busy_transport = shared_transport\<lparr>t_worker := demo_running\<lparr>w_slot := demo_slot Running 0 True\<rparr>\<rparr>"

theorem reset_only_when_quiet_witness:
  "MmioTransport_write (with_reset shared_env (\<lambda>d w. if in_flight (w_slot w) \<and> \<not> w_closed w then (99, w, Inr ())
       else (0, w, Inr ()))) shared_transport 0x70 [0, 0, 0, 0] =
   MmioTransport_write shared_env shared_transport 0x70 [0, 0, 0, 0] \<and>
   t_device (MmioTransport_write shared_env busy_transport 0x70 [0, 0, 0, 0]) = 1"
proof
  show "MmioTransport_write (with_reset shared_env (\<lambda>d w. if in_flight (w_slot w) \<and> \<not> w_closed w then (99, w, Inr ())
       else (0, w, Inr ()))) shared_transport 0x70 [0, 0, 0, 0] =
    MmioTransport_write shared_env shared_transport 0x70 [0, 0, 0, 0]"
    by (rule reset_only_when_quiet[where h = demo_host, THEN conjunct1])
      (auto simp: shared_env_def shared_device_def shared_transport_def slot_quiet_def slot_sane_def demo_running_def
        demo_slot_def)
  have "active busy_transport \<and> (\<exists>w e. worker_stop demo_host (t_worker busy_transport) = (w, Inl e)) \<longrightarrow>
      t_device (MmioTransport_write shared_env busy_transport 0x70 [0, 0, 0, 0]) = t_device busy_transport \<and>
      active (MmioTransport_write shared_env busy_transport 0x70 [0, 0, 0, 0])"
    by (rule reset_only_when_quiet[where f = "vd_reset (e_device shared_env)", THEN conjunct2, THEN conjunct2, THEN conjunct2])
      (auto simp: shared_env_def shared_device_def busy_transport_def shared_transport_def slot_quiet_def slot_sane_def
        demo_running_def demo_slot_def)
  then show "t_device (MmioTransport_write shared_env busy_transport 0x70 [0, 0, 0, 0]) = 1"
    by (simp add: busy_transport_def shared_transport_def demo_running_def demo_slot_def worker_stop_def stop_enter_def
        stop_leave_def demo_host_def)
qed

end
