(* ===== verification/Guest_Memory.thy ===== *)
theory Guest_Memory
  imports Virt_Queues
begin

text \<open>
  What the virtio devices use of guest memory and of a descriptor chain. Both come from external
  crates (\<open>vm_memory\<close>, \<open>virtio_queue\<close>) and are parameters, the operations of the record \<open>mem_ops\<close>.
  An operation that touches guest memory returns the memory too, so that a guest writing to it
  between two operations of the device is an instance. \<open>mo_descriptors\<close> is one walk of a chain:
  two walks of the same chain may differ.

  A \<open>virtio_queue::Reader\<close> yields each byte of the readable descriptors once, so it is the list of
  the bytes it still yields.
\<close>

record descriptor =
  d_addr :: u64
  d_len :: u32
  d_write_only :: bool
  d_has_next :: bool

record ('m, 'chain) mem_ops =
  mo_head_index :: "'chain \<Rightarrow> u16"
  mo_descriptors :: "'chain \<Rightarrow> 'm \<Rightarrow> 'm \<times> descriptor list"
  mo_reader :: "'chain \<Rightarrow> 'm \<Rightarrow> 'm \<times> (unit + u8 list)"
  mo_check_range :: "'m \<Rightarrow> u64 \<Rightarrow> nat \<Rightarrow> bool"
  mo_write_slice :: "u8 list \<Rightarrow> u64 \<Rightarrow> 'm \<Rightarrow> 'm \<times> (unit + unit)"
  mo_read_slice :: "nat \<Rightarrow> u64 \<Rightarrow> 'm \<Rightarrow> 'm \<times> (unit + u8 list)"

definition read_exact :: "nat \<Rightarrow> u8 list \<Rightarrow> (u8 list \<times> u8 list) option" where
  "read_exact n bs = (if length bs < n then None else Some (take n bs, drop n bs))"

lemma read_exact_Some:
  "read_exact n bs = Some (xs, rest) \<longleftrightarrow> bs = xs @ rest \<and> length xs = n"
  by (auto simp: read_exact_def)

lemma read_exact_append [simp]: "length xs = n \<Longrightarrow> read_exact n (xs @ ys) = Some (xs, ys)"
  by (simp add: read_exact_def)

text \<open>Bytes of an array at an offset, as \<open>bytes[i..i + n]\<close>, and the store \<open>copy_from_slice\<close>.\<close>

definition slice :: "nat \<Rightarrow> nat \<Rightarrow> 'a list \<Rightarrow> 'a list" where
  "slice i n xs = take n (drop i xs)"

definition put :: "nat \<Rightarrow> 'a list \<Rightarrow> 'a list \<Rightarrow> 'a list" where
  "put i ys xs = take i xs @ ys @ drop (i + length ys) xs"

lemma length_slice [simp]: "length (slice i n xs) = min n (length xs - i)"
  by (simp add: slice_def)

lemma length_put [simp]: "i + length ys \<le> length xs \<Longrightarrow> length (put i ys xs) = length xs"
  by (simp add: put_def)

lemma slice_put_same:
  "i + length ys \<le> length xs \<Longrightarrow> n = length ys \<Longrightarrow> slice i n (put i ys xs) = ys"
  by (simp add: slice_def put_def)

lemma slice_put_before:
  "i + length ys \<le> length xs \<Longrightarrow> j + n \<le> i \<Longrightarrow> slice j n (put i ys xs) = slice j n xs"
  by (simp add: slice_def put_def drop_take)

lemma slice_append_left: "i + n \<le> length xs \<Longrightarrow> slice i n (xs @ ys) = slice i n xs"
  by (simp add: slice_def)

lemma slice_append_right:
  "length xs \<le> i \<Longrightarrow> slice i n (xs @ ys) = slice (i - length xs) n ys"
  by (simp add: slice_def)

lemma put_first: "put 0 ys (replicate n z) = ys @ replicate (n - length ys) z"
  by (simp add: put_def)

lemma put_next:
  "length xs = i \<Longrightarrow> put i ys (xs @ replicate n z) = (xs @ ys) @ replicate (n - length ys) z"
  by (simp add: put_def)

text \<open>
  A configuration space read: bytes past the end, and past the end of the address space, are zero.
  The devices spell this loop out in their \<open>read_config\<close>.
\<close>

definition config_bytes :: "u8 list \<Rightarrow> u64 \<Rightarrow> nat \<Rightarrow> u8 list" where
  "config_bytes cfg offset n =
     map (\<lambda>i. case checked_add offset (of_nat i) of
         None \<Rightarrow> 0
       | Some a \<Rightarrow> if unat a < length cfg then cfg ! unat a else 0) [0..<n]"

lemma length_config_bytes [simp]: "length (config_bytes cfg offset n) = n"
  by (simp add: config_bytes_def)

lemma config_bytes_in_range:
  assumes "unat offset + n \<le> length cfg" "length cfg < 2 ^ 64"
  shows "config_bytes cfg offset n = slice (unat offset) n cfg"
proof (rule nth_equalityI)
  show "length (config_bytes cfg offset n) = length (slice (unat offset) n cfg)"
    using assms by simp
next
  fix i assume "i < length (config_bytes cfg offset n)"
  then have i: "i < n" by simp
  then have u: "unat (of_nat i :: u64) = i"
    using assms by (simp add: unat_of_nat)
  have "checked_add offset (of_nat i) = Some (offset + of_nat i)"
    "unat (offset + of_nat i) = unat offset + i"
    using i assms u by (simp_all add: checked_add_def unat_add_fits)
  then show "config_bytes cfg offset n ! i = slice (unat offset) n cfg ! i"
    using i assms by (simp add: config_bytes_def slice_def)
qed

end
