(* ===== verification/Vsock_Packet.thy ===== *)
theory Vsock_Packet
  imports Guest_Memory
begin

text \<open>
  The packets of the vsock device, \<open>src/src/vmm/src/virtio/vsock/packet.rs\<close>, and the writable guest
  buffers of \<open>buffer.rs\<close>. A header is a record, its encoding the 44-byte array the code fills
  field by field.
\<close>

section \<open>Headers and packets\<close>

definition HEADER_LEN :: nat where "HEADER_LEN = 44"
definition BUFFER_SIZE :: nat where "BUFFER_SIZE = 64 * 1024"
definition HOST_CID :: u64 where "HOST_CID = 2"
definition STREAM :: u16 where "STREAM = 1"
definition REQUEST :: u16 where "REQUEST = 1"
definition RESPONSE :: u16 where "RESPONSE = 2"
definition RST :: u16 where "RST = 3"
definition SHUTDOWN :: u16 where "SHUTDOWN = 4"
definition RW :: u16 where "RW = 5"
definition CREDIT_UPDATE :: u16 where "CREDIT_UPDATE = 6"
definition CREDIT_REQUEST :: u16 where "CREDIT_REQUEST = 7"
definition RECEIVE :: u32 where "RECEIVE = 1"
definition SEND :: u32 where "SEND = 2"

lemmas vsock_ops =
  STREAM_def REQUEST_def RESPONSE_def RST_def SHUTDOWN_def RW_def CREDIT_UPDATE_def CREDIT_REQUEST_def

record header =
  src_cid :: u64
  dst_cid :: u64
  src_port :: u32
  dst_port :: u32
  h_len :: u32
  socket_type :: u16
  h_op :: u16
  h_flags :: u32
  buf_alloc :: u32
  fwd_cnt :: u32

definition Header_decode :: "u8 list \<Rightarrow> header" where
  "Header_decode bytes =
     \<lparr>src_cid = from_le_bytes (slice 0 8 bytes),
      dst_cid = from_le_bytes (slice 8 8 bytes),
      src_port = from_le_bytes (slice 16 4 bytes),
      dst_port = from_le_bytes (slice 20 4 bytes),
      h_len = from_le_bytes (slice 24 4 bytes),
      socket_type = from_le_bytes (slice 28 2 bytes),
      h_op = from_le_bytes (slice 30 2 bytes),
      h_flags = from_le_bytes (slice 32 4 bytes),
      buf_alloc = from_le_bytes (slice 36 4 bytes),
      fwd_cnt = from_le_bytes (slice 40 4 bytes)\<rparr>"

definition Header_encode :: "header \<Rightarrow> u8 list" where
  "Header_encode h =
     (let bytes = replicate HEADER_LEN 0;
          bytes = put 0 (to_le_bytes 8 (src_cid h)) bytes;
          bytes = put 8 (to_le_bytes 8 (dst_cid h)) bytes;
          bytes = put 16 (to_le_bytes 4 (src_port h)) bytes;
          bytes = put 20 (to_le_bytes 4 (dst_port h)) bytes;
          bytes = put 24 (to_le_bytes 4 (h_len h)) bytes;
          bytes = put 28 (to_le_bytes 2 (socket_type h)) bytes;
          bytes = put 30 (to_le_bytes 2 (h_op h)) bytes;
          bytes = put 32 (to_le_bytes 4 (h_flags h)) bytes;
          bytes = put 36 (to_le_bytes 4 (buf_alloc h)) bytes;
          bytes = put 40 (to_le_bytes 4 (fwd_cnt h)) bytes
      in bytes)"

definition Header_default :: header where
  "Header_default = \<lparr>src_cid = 0, dst_cid = 0, src_port = 0, dst_port = 0, h_len = 0,
     socket_type = 0, h_op = 0, h_flags = 0, buf_alloc = 0, fwd_cnt = 0\<rparr>"

record packet =
  p_header :: header
  p_payload :: "u8 list"

definition Header_reply :: "header \<Rightarrow> u16 \<Rightarrow> packet" where
  "Header_reply h op =
     \<lparr>p_header = Header_default\<lparr>src_cid := dst_cid h, dst_cid := src_cid h, src_port := dst_port h,
        dst_port := src_port h, socket_type := socket_type h, h_op := op\<rparr>,
      p_payload = []\<rparr>"

text \<open>The reader is the bytes it still yields; a short one ends \<open>read_exact\<close> with \<open>UnexpectedEof\<close>.\<close>

definition Packet_read :: "u8 list \<Rightarrow> u8 list \<times> (error_kind + packet)" where
  "Packet_read reader =
     (case read_exact HEADER_LEN reader of
        None \<Rightarrow> ([], Inl UnexpectedEof)
      | Some (bytes, reader) \<Rightarrow>
          (let header = Header_decode bytes in
           if unat (h_len header) > BUFFER_SIZE then (reader, Inl InvalidData)
           else case read_exact (unat (h_len header)) reader of
             None \<Rightarrow> ([], Inl UnexpectedEof)
           | Some (payload, reader) \<Rightarrow>
               (reader, Inr \<lparr>p_header = header, p_payload = payload\<rparr>)))"

subsection \<open>Round trips\<close>

lemma Header_encode_append:
  "Header_encode h =
     to_le_bytes 8 (src_cid h) @ to_le_bytes 8 (dst_cid h) @ to_le_bytes 4 (src_port h) @
     to_le_bytes 4 (dst_port h) @ to_le_bytes 4 (h_len h) @ to_le_bytes 2 (socket_type h) @
     to_le_bytes 2 (h_op h) @ to_le_bytes 4 (h_flags h) @ to_le_bytes 4 (buf_alloc h) @
     to_le_bytes 4 (fwd_cnt h)"
  unfolding Header_encode_def Let_def HEADER_LEN_def put_first
  by (simp add: put_next del: append_assoc)

lemma length_Header_encode [simp]: "length (Header_encode h) = HEADER_LEN"
  by (simp add: Header_encode_append HEADER_LEN_def)

lemma decode_encode: "Header_decode (Header_encode h) = h"
  by (simp add: Header_encode_append Header_decode_def slice_def from_to_le_bytes)

lemma slice_step: "slice i n xs @ slice (i + n) m xs = slice i (n + m) xs"
  unfolding slice_def take_add drop_drop by (simp add: add.commute)

lemma to_from_slice:
  "LENGTH('a) = 8 * n \<Longrightarrow> i + n \<le> length bs \<Longrightarrow>
     to_le_bytes n (from_le_bytes (slice i n bs) :: 'a::len word) = slice i n bs"
  using to_from_le_bytes[where 'a = 'a and bs = "slice i n bs"] by simp

lemma slices_44:
  assumes "length bs = 44"
  shows "slice 0 8 bs @ slice 8 8 bs @ slice 16 4 bs @ slice 20 4 bs @ slice 24 4 bs @
    slice 28 2 bs @ slice 30 2 bs @ slice 32 4 bs @ slice 36 4 bs @ slice 40 4 bs = bs"
proof -
  have s: "slice 36 4 bs @ slice 40 4 bs = slice 36 8 bs"
    "slice 32 4 bs @ slice 36 8 bs = slice 32 12 bs"
    "slice 30 2 bs @ slice 32 12 bs = slice 30 14 bs"
    "slice 28 2 bs @ slice 30 14 bs = slice 28 16 bs"
    "slice 24 4 bs @ slice 28 16 bs = slice 24 20 bs"
    "slice 20 4 bs @ slice 24 20 bs = slice 20 24 bs"
    "slice 16 4 bs @ slice 20 24 bs = slice 16 28 bs"
    "slice 8 8 bs @ slice 16 28 bs = slice 8 36 bs"
    "slice 0 8 bs @ slice 8 36 bs = slice 0 44 bs"
    using slice_step[of 36 4 bs 4] slice_step[of 32 4 bs 8] slice_step[of 30 2 bs 12]
      slice_step[of 28 2 bs 14] slice_step[of 24 4 bs 16] slice_step[of 20 4 bs 20]
      slice_step[of 16 4 bs 24] slice_step[of 8 8 bs 28] slice_step[of 0 8 bs 36]
    by simp_all
  show ?thesis
    using assms by (simp only: s) (simp add: slice_def)
qed

lemma encode_decode:
  assumes "length bs = HEADER_LEN"
  shows "Header_encode (Header_decode bs) = bs"
proof -
  have len: "length bs = 44" using assms by (simp add: HEADER_LEN_def)
  show ?thesis
    by (simp add: Header_encode_append Header_decode_def to_from_slice len slices_44)
qed

text \<open>C30. A packet written to the wire is read back: for every header and every payload the receive
  buffer can hold, reading the 44 encoded header bytes followed by the payload yields exactly that
  packet and leaves the rest of the reader untouched. Conversely, whenever a packet is read, the
  bytes taken off the reader are the encoding of its header followed by its payload, which has the
  announced length and fits the receive buffer.\<close>
theorem packet_roundtrip:
  assumes "length payload \<le> BUFFER_SIZE" "unat (h_len h) = length payload"
  shows "Packet_read (Header_encode h @ payload @ rest) =
      (rest, Inr \<lparr>p_header = h, p_payload = payload\<rparr>) \<and>
    (\<forall>reader rest' p. Packet_read reader = (rest', Inr p) \<longrightarrow>
      reader = Header_encode (p_header p) @ p_payload p @ rest' \<and>
      unat (h_len (p_header p)) = length (p_payload p) \<and> length (p_payload p) \<le> BUFFER_SIZE)"
proof (intro conjI allI impI)
  show "Packet_read (Header_encode h @ payload @ rest) =
      (rest, Inr \<lparr>p_header = h, p_payload = payload\<rparr>)"
    using assms by (simp add: Packet_read_def decode_encode)
next
  fix reader rest' p assume r: "Packet_read reader = (rest', Inr p)"
  obtain bytes tail where 1: "reader = bytes @ tail" "length bytes = HEADER_LEN"
    and 2: "unat (h_len (Header_decode bytes)) \<le> BUFFER_SIZE"
    and 3: "tail = p_payload p @ rest'" "length (p_payload p) = unat (h_len (Header_decode bytes))"
    and 4: "p_header p = Header_decode bytes"
    using r by (auto simp: Packet_read_def Let_def read_exact_Some split: option.splits if_splits)
  show "reader = Header_encode (p_header p) @ p_payload p @ rest'"
    "unat (h_len (p_header p)) = length (p_payload p)" "length (p_payload p) \<le> BUFFER_SIZE"
    using 1 2 3 4 by (simp_all add: encode_decode)
qed

lemma packet_roundtrip_witness:
  "Packet_read (Header_encode (Header_default\<lparr>h_op := RW, h_len := 2\<rparr>) @ [7, 9] @ [1]) =
     ([1], Inr \<lparr>p_header = Header_default\<lparr>h_op := RW, h_len := 2\<rparr>, p_payload = [7, 9]\<rparr>)"
  using packet_roundtrip[of "[7, 9]" "Header_default\<lparr>h_op := RW, h_len := 2\<rparr>" "[1]"]
  by (simp add: BUFFER_SIZE_def)

section \<open>Receive buffers\<close>

record buffer =
  b_head :: u16
  b_descriptors :: "descriptor list"
  b_capacity :: u64

definition bad_queue :: device_error where
  "bad_queue = NeedsReset ''vsock descriptor queue''"

fun buffer_loop ::
    "('m, 'chain) mem_ops \<Rightarrow> 'm \<Rightarrow> descriptor list \<Rightarrow> descriptor list \<Rightarrow> u64 \<Rightarrow>
     device_error + descriptor list \<times> u64" where
  "buffer_loop mo m [] acc capacity = Inr (acc, capacity)"
| "buffer_loop mo m (d # ds) acc capacity =
     (if \<not> d_write_only d \<or> \<not> mo_check_range mo m (d_addr d) (unat (d_len d)) then Inl bad_queue
      else case checked_add capacity (ucast (d_len d)) of
        None \<Rightarrow> Inl bad_queue
      | Some capacity \<Rightarrow> buffer_loop mo m ds (acc @ [d]) capacity)"

definition Buffer_new ::
    "('m, 'chain) mem_ops \<Rightarrow> 'chain \<Rightarrow> 'm \<Rightarrow> 'm \<times> (device_error + buffer)" where
  "Buffer_new mo chain m =
     (case mo_descriptors mo chain m of
        (m, ds) \<Rightarrow> (m, map_sum id (\<lambda>(ds, capacity).
          \<lparr>b_head = mo_head_index mo chain, b_descriptors = ds, b_capacity = capacity\<rparr>)
          (buffer_loop mo m ds [] 0)))"

fun write_descriptors ::
    "('m, 'chain) mem_ops \<Rightarrow> descriptor list \<Rightarrow> u8 list \<Rightarrow> 'm \<Rightarrow> 'm \<times> (device_error + unit)" where
  "write_descriptors mo [] bytes m = (m, Inr ())"
| "write_descriptors mo (d # ds) bytes m =
     (let count = min (length bytes) (unat (d_len d)) in
      case mo_write_slice mo (take count bytes) (d_addr d) m of
        (m, Inl _) \<Rightarrow> (m, Inl bad_queue)
      | (m, Inr _) \<Rightarrow>
          (let bytes = drop count bytes in
           if bytes = [] then (m, Inr ()) else write_descriptors mo ds bytes m))"

definition Buffer_write ::
    "('m, 'chain) mem_ops \<Rightarrow> buffer \<Rightarrow> u8 list \<Rightarrow> 'm \<Rightarrow> 'm \<times> (device_error + unit)" where
  "Buffer_write mo b bytes m =
     (if length bytes > unat (b_capacity b) then (m, Inl bad_queue)
      else write_descriptors mo (b_descriptors b) bytes m)"

lemma buffer_loop_ok:
  "buffer_loop mo m ds acc c = Inr (acc', c') \<Longrightarrow>
     acc' = acc @ ds \<and> unat c' = unat c + sum_list (map (\<lambda>d. unat (d_len d)) ds) \<and>
     (\<forall>d\<in>set ds. d_write_only d \<and> mo_check_range mo m (d_addr d) (unat (d_len d)))"
proof (induction mo m ds acc c rule: buffer_loop.induct)
  case (2 mo m d ds acc c)
  from 2(2) obtain c1 where d: "d_write_only d" "mo_check_range mo m (d_addr d) (unat (d_len d))"
    and c1: "checked_add c (ucast (d_len d)) = Some c1"
    and rest: "buffer_loop mo m ds (acc @ [d]) c1 = Inr (acc', c')"
    by (auto split: if_splits option.splits)
  have "unat (ucast (d_len d) :: u64) = unat (d_len d)" by (rule unat_ucast_up) simp
  then have "unat c1 = unat c + unat (d_len d)"
    using c1[unfolded checked_add_Some] by simp
  then show ?case using 2(1)[OF _ c1 rest] d by auto
qed simp

lemma Buffer_new_ok:
  assumes "Buffer_new mo chain m = (m', Inr b)"
  shows "mo_descriptors mo chain m = (m', b_descriptors b) \<and> b_head b = mo_head_index mo chain \<and>
    unat (b_capacity b) = sum_list (map (\<lambda>d. unat (d_len d)) (b_descriptors b)) \<and>
    (\<forall>d\<in>set (b_descriptors b). d_write_only d \<and> mo_check_range mo m' (d_addr d) (unat (d_len d)))"
proof -
  obtain ds acc c where "mo_descriptors mo chain m = (m', ds)"
    "buffer_loop mo m' ds [] 0 = Inr (acc, c)"
    "b = \<lparr>b_head = mo_head_index mo chain, b_descriptors = acc, b_capacity = c\<rparr>"
    using assms by (auto simp: Buffer_new_def map_sum_def split: prod.splits sum.splits)
  then show ?thesis
    using buffer_loop_ok[of mo m' ds "[]" 0 acc c] by simp
qed

end
