(* ===== verification/Vsock_Connection.thy ===== *)
theory Vsock_Connection
  imports Vsock_Packet
begin

text \<open>
  One stream flow of the vsock device, \<open>src/src/vmm/src/virtio/vsock/connection.rs\<close>: the receive
  side with its protocol checks, the drive turn that moves bytes between the guest and the host
  socket, and the credit bookkeeping of both directions.

  The host socket is a parameter, the operations \<open>sock_ops\<close> on a socket state \<open>'s\<close>. A write
  reports how many bytes it took, a read the bytes it stored. \<open>so_front\<close> is the length of the
  first of the two slices a \<open>VecDeque\<close> keeps its elements in, which the code passes to one write.
  The registration of the socket with the workers is the source id the caller obtained.
\<close>

section \<open>State\<close>

record 's sock_ops =
  so_take_error :: "'s \<Rightarrow> 's \<times> (error_kind + error_kind option)"
  so_peer_addr :: "'s \<Rightarrow> 's \<times> (error_kind + unit)"
  so_front :: "'s \<Rightarrow> u8 list \<Rightarrow> nat"
  so_write :: "'s \<Rightarrow> u8 list \<Rightarrow> 's \<times> (error_kind + nat)"
  so_read :: "'s \<Rightarrow> nat \<Rightarrow> 's \<times> (error_kind + u8 list)"
  so_shutdown_write :: "'s \<Rightarrow> 's \<times> (error_kind + unit)"
  so_poll_hangup :: "'s \<Rightarrow> 's \<times> (error_kind + bool list)"

record vsock_key =
  k_guest :: u32
  k_host :: u32

datatype conn_state = Connecting | AwaitResponse | Established

record 's connection =
  registration :: u32
  socket :: 's
  c_state :: conn_state
  c_key :: vsock_key
  c_cid :: u64
  pending :: "u8 list"
  peer_alloc :: u32
  peer_fwd :: u32
  tx_count :: u32
  delivered :: u32
  fwd_count :: u32
  guest_shutdown :: u32
  write_shutdown :: bool
  host_eof :: bool
  credit_requested :: bool
  lookahead :: "u8 option"

definition Connection_new :: "u32 \<Rightarrow> 's \<Rightarrow> conn_state \<Rightarrow> vsock_key \<Rightarrow> u64 \<Rightarrow> 's connection" where
  "Connection_new reg s st key cid =
     \<lparr>registration = reg, socket = s, c_state = st, c_key = key, c_cid = cid, pending = [],
      peer_alloc = 0, peer_fwd = 0, tx_count = 0, delivered = 0, fwd_count = 0,
      guest_shutdown = 0, write_shutdown = False, host_eof = False, credit_requested = False,
      lookahead = None\<rparr>"

definition Connection_packet :: "u16 \<Rightarrow> u32 \<Rightarrow> u8 list \<Rightarrow> 's connection \<Rightarrow> packet" where
  "Connection_packet op flags payload c =
     \<lparr>p_header = \<lparr>src_cid = HOST_CID, dst_cid = c_cid c, src_port = k_host (c_key c),
        dst_port = k_guest (c_key c), h_len = of_nat (length payload), socket_type = STREAM,
        h_op = op, h_flags = flags, buf_alloc = of_nat BUFFER_SIZE, fwd_cnt = fwd_count c\<rparr>,
      p_payload = payload\<rparr>"

definition Connection_delivered :: "u32 \<Rightarrow> 's connection \<Rightarrow> 's connection" where
  "Connection_delivered cnt c = c\<lparr>delivered := delivered c + cnt\<rparr>"

section \<open>Receiving from the guest\<close>

definition conn_credit :: "'s connection \<Rightarrow> u32" where
  "conn_credit c = saturating_sub (peer_alloc c) (tx_count c - peer_fwd c)"

definition receive_credit :: "header \<Rightarrow> 's connection \<Rightarrow> 's connection" where
  "receive_credit h c =
     (let c = c\<lparr>peer_alloc := buf_alloc h, peer_fwd := fwd_cnt h\<rparr> in
      if conn_credit c > 0 then c\<lparr>credit_requested := False\<rparr> else c)"

definition receive_op :: "packet \<Rightarrow> 's connection \<Rightarrow> 's connection \<times> (error_kind + packet option)" where
  "receive_op p c =
     (let h = p_header p in
      if c_state c = Connecting \<and> h_op h = REQUEST then (c, Inr None)
      else if c_state c = AwaitResponse \<and> h_op h = RESPONSE then
        (c\<lparr>c_state := Established\<rparr>, Inr None)
      else if c_state c = Established \<and> h_op h = RW \<and> guest_shutdown c AND SEND = 0 then
        (if length (p_payload p) > BUFFER_SIZE - length (pending c) then (c, Inl InvalidData)
         else (c\<lparr>pending := pending c @ p_payload p\<rparr>, Inr None))
      else if c_state c = Established \<and> h_op h = SHUTDOWN \<and> h_flags h \<noteq> 0 \<and>
          h_flags h AND NOT (RECEIVE OR SEND) = 0 then
        (c\<lparr>guest_shutdown := guest_shutdown c OR h_flags h\<rparr>, Inr None)
      else if c_state c = Established \<and> h_op h = CREDIT_REQUEST then
        (c, Inr (Some (Connection_packet CREDIT_UPDATE 0 [] c)))
      else if c_state c = Established \<and> h_op h = CREDIT_UPDATE then (c, Inr None)
      else (c, Inl InvalidData))"

definition Connection_receive :: "packet \<Rightarrow> 's connection \<Rightarrow> 's connection \<times> (error_kind + packet option)" where
  "Connection_receive p c =
     (let h = p_header p; advanced = fwd_cnt h - peer_fwd c in
      if advanced > delivered c - peer_fwd c then (c, Inl InvalidData)
      else
        let c = receive_credit h c in
        if (h_op h \<noteq> SHUTDOWN \<and> h_flags h \<noteq> 0) \<or> (h_op h \<noteq> RW \<and> h_len h \<noteq> 0) then (c, Inl InvalidData)
        else receive_op p c)"

section \<open>Driving the host socket\<close>

definition host_closed :: "'s sock_ops \<Rightarrow> 's connection \<Rightarrow> 's connection \<times> (error_kind + bool)" where
  "host_closed so c =
     (case so_poll_hangup so (socket c) of
        (s, Inl e) \<Rightarrow> (c\<lparr>socket := s\<rparr>, Inl e)
      | (s, Inr hangups) \<Rightarrow> (c\<lparr>socket := s\<rparr>, Inr (list_all id hangups)))"

type_synonym 's driving = "'s connection \<times> packet list"

text \<open>\<open>Inr False\<close> is the early return of a connect that has not finished.\<close>

definition drive_connecting :: "'s sock_ops \<Rightarrow> 's driving \<Rightarrow> 's driving \<times> (error_kind + bool)" where
  "drive_connecting so = (\<lambda>(c, out).
     if c_state c \<noteq> Connecting then ((c, out), Inr True)
     else case so_take_error so (socket c) of
       (s, Inl e) \<Rightarrow> ((c\<lparr>socket := s\<rparr>, out), Inl e)
     | (s, Inr (Some e)) \<Rightarrow> ((c\<lparr>socket := s\<rparr>, out), Inl e)
     | (s, Inr None) \<Rightarrow>
         (case so_peer_addr so s of
            (s, Inl e) \<Rightarrow>
              ((c\<lparr>socket := s\<rparr>, out), if e = NotConnected \<or> e = WouldBlock then Inr False else Inl e)
          | (s, Inr _) \<Rightarrow>
              (let c = c\<lparr>socket := s, c_state := Established\<rparr> in
               ((c, out @ [Connection_packet RESPONSE 0 [] c]), Inr True))))"

definition drive_write :: "'s sock_ops \<Rightarrow> 's driving \<Rightarrow> 's driving \<times> (error_kind + bool)" where
  "drive_write so = (\<lambda>(c, out).
     if pending c = [] then ((c, out), Inr False)
     else case so_write so (socket c) (take (so_front so (socket c) (pending c)) (pending c)) of
       (s, Inl e) \<Rightarrow> ((c\<lparr>socket := s\<rparr>, out),
           if e = WouldBlock then Inr False else if e = Interrupted then Inr True else Inl e)
     | (s, Inr cnt) \<Rightarrow>
         (if cnt = 0 then ((c\<lparr>socket := s\<rparr>, out), Inl WriteZero)
          else
            let c = c\<lparr>socket := s, pending := drop cnt (pending c),
                  fwd_count := fwd_count c + of_nat cnt\<rparr> in
            ((c, out @ [Connection_packet CREDIT_UPDATE 0 [] c]), Inr (pending c \<noteq> []))))"

definition drive_shutdown :: "'s sock_ops \<Rightarrow> 's connection \<Rightarrow> 's connection \<times> (error_kind + unit)" where
  "drive_shutdown so c =
     (if guest_shutdown c AND SEND \<noteq> 0 \<and> pending c = [] \<and> \<not> write_shutdown c then
        (case so_shutdown_write so (socket c) of
           (s, Inl e) \<Rightarrow> (c\<lparr>socket := s\<rparr>, Inl e)
         | (s, Inr _) \<Rightarrow> (c\<lparr>socket := s, write_shutdown := True\<rparr>, Inr ()))
      else (c, Inr ()))"

definition clamp :: "nat \<Rightarrow> nat \<Rightarrow> nat \<Rightarrow> nat" where
  "clamp lo hi n = max lo (min hi n)"

definition drive_socket_read ::
    "'s sock_ops \<Rightarrow> nat \<Rightarrow> bool \<Rightarrow> 's driving \<Rightarrow> 's driving \<times> (error_kind + bool)" where
  "drive_socket_read so credit again = (\<lambda>(c, out).
     case so_read so (socket c) (clamp 1 4096 credit) of
       (s, Inl e) \<Rightarrow> ((c\<lparr>socket := s\<rparr>, out),
           if e = WouldBlock then Inr again else if e = Interrupted then Inr True else Inl e)
     | (s, Inr data) \<Rightarrow>
         (let c = c\<lparr>socket := s\<rparr> in
          if data = [] then
            let c = c\<lparr>host_eof := True\<rparr> in
            ((c, out @ [Connection_packet SHUTDOWN SEND [] c]), Inr again)
          else if credit = 0 then ((c\<lparr>lookahead := Some (hd data)\<rparr>, out), Inr again)
          else
            let c = c\<lparr>tx_count := tx_count c + of_nat (length data)\<rparr> in
            ((c, out @ [Connection_packet RW 0 data c]), Inr True)))"

definition drive_read ::
    "'s sock_ops \<Rightarrow> bool \<Rightarrow> 's driving \<Rightarrow> 's driving \<times> (error_kind + bool \<times> bool)" where
  "drive_read so again = (\<lambda>(c, out).
     if host_eof c \<or> guest_shutdown c AND RECEIVE \<noteq> 0 then ((c, out), Inr (False, again))
     else
       let credit = unat (conn_credit c) in
       case (if credit > 0 then lookahead c else None) of
         Some byte \<Rightarrow>
           (let c = c\<lparr>lookahead := None, tx_count := tx_count c + 1\<rparr> in
            ((c, out @ [Connection_packet RW 0 [byte] c]), Inr (False, True)))
       | None \<Rightarrow>
           (case (if lookahead c = None then drive_socket_read so credit again (c, out)
                  else ((c, out), Inr again)) of
              (d, Inl e) \<Rightarrow> (d, Inl e)
            | ((c, out), Inr again) \<Rightarrow>
                (if credit = 0 \<and> \<not> host_eof c \<and> \<not> credit_requested c then
                   ((c\<lparr>credit_requested := True\<rparr>,
                     out @ [Connection_packet CREDIT_REQUEST 0 [] c]), Inr (False, again))
                 else ((c, out), Inr (False, again)))))"

definition drive_established :: "'s sock_ops \<Rightarrow> 's driving \<Rightarrow> 's driving \<times> (error_kind + bool \<times> bool)" where
  "drive_established so d =
     (case drive_write so d of
        (d, Inl e) \<Rightarrow> (d, Inl e)
      | ((c, out), Inr again) \<Rightarrow>
          (case drive_shutdown so c of
             (c, Inl e) \<Rightarrow> ((c, out), Inl e)
           | (c, Inr _) \<Rightarrow>
               (if guest_shutdown c = RECEIVE OR SEND \<and> pending c = [] then
                  ((c, out @ [Connection_packet RST 0 [] c]), Inr (True, False))
                else drive_read so again (c, out))))"

definition Connection_drive :: "'s sock_ops \<Rightarrow> 's driving \<Rightarrow> 's driving \<times> (error_kind + bool \<times> bool)" where
  "Connection_drive so = (\<lambda>(c, out).
     if c_state c = AwaitResponse then
       (case host_closed so c of
          (c, Inr closed) \<Rightarrow> ((c, out), Inr (closed, False))
        | (c, Inl e) \<Rightarrow> ((c, out), if e = Interrupted then Inr (False, True) else Inl e))
     else case drive_connecting so (c, out) of
       (d, Inl e) \<Rightarrow> (d, Inl e)
     | (d, Inr False) \<Rightarrow> (d, Inr (False, False))
     | (d, Inr True) \<Rightarrow> drive_established so d)"

section \<open>Flows\<close>

text \<open>
  A flow is a connection with its history. \<open>logged\<close> runs the code on any host socket and keeps,
  beside the socket, the bytes the host took and the bytes it gave. \<open>fl_out\<close> is every packet the
  connection emitted, \<open>fl_in\<close> every payload byte it accepted from the guest, \<open>fl_delivered\<close> how
  many payload bytes were copied to the guest and \<open>fl_acked\<close> how many the guest acknowledged,
  counted without wrapping. An error or a close ends the flow.
\<close>

definition logged :: "'s sock_ops \<Rightarrow> ('s \<times> u8 list \<times> u8 list) sock_ops" where
  "logged so =
     \<lparr>so_take_error = (\<lambda>(s, l). case so_take_error so s of (s, r) \<Rightarrow> ((s, l), r)),
      so_peer_addr = (\<lambda>(s, l). case so_peer_addr so s of (s, r) \<Rightarrow> ((s, l), r)),
      so_front = (\<lambda>(s, l). so_front so s),
      so_write = (\<lambda>(s, took, gave) bs. case so_write so s bs of
          (s, Inl e) \<Rightarrow> ((s, took, gave), Inl e)
        | (s, Inr n) \<Rightarrow> ((s, took @ take n bs, gave), Inr n)),
      so_read = (\<lambda>(s, took, gave) n. case so_read so s n of
          (s, Inl e) \<Rightarrow> ((s, took, gave), Inl e)
        | (s, Inr data) \<Rightarrow> ((s, took, gave @ data), Inr data)),
      so_shutdown_write = (\<lambda>(s, l). case so_shutdown_write so s of (s, r) \<Rightarrow> ((s, l), r)),
      so_poll_hangup = (\<lambda>(s, l). case so_poll_hangup so s of (s, r) \<Rightarrow> ((s, l), r))\<rparr>"

type_synonym 's logged_connection = "('s \<times> u8 list \<times> u8 list) connection"

definition host_took :: "'s logged_connection \<Rightarrow> u8 list" where
  "host_took c = fst (snd (socket c))"

definition host_gave :: "'s logged_connection \<Rightarrow> u8 list" where
  "host_gave c = snd (snd (socket c))"

definition sent_bytes :: "packet list \<Rightarrow> u8 list" where
  "sent_bytes out = concat (map p_payload (filter (\<lambda>p. h_op (p_header p) = RW) out))"

record 's flow =
  fl_conn :: "'s logged_connection"
  fl_out :: "packet list"
  fl_in :: "u8 list"
  fl_delivered :: nat
  fl_acked :: nat

datatype flow_input = Receive packet | Deliver nat | Drive

definition flow_start :: "u32 \<Rightarrow> 's \<Rightarrow> conn_state \<Rightarrow> vsock_key \<Rightarrow> u64 \<Rightarrow> 's flow" where
  "flow_start reg s st key cid =
     \<lparr>fl_conn = Connection_new reg (s, [], []) st key cid, fl_out = [], fl_in = [],
      fl_delivered = 0, fl_acked = 0\<rparr>"

fun flow_step :: "'s sock_ops \<Rightarrow> flow_input \<Rightarrow> 's flow \<Rightarrow> 's flow option" where
  "flow_step so (Receive p) fl =
     (case Connection_receive p (fl_conn fl) of
        (c, Inl _) \<Rightarrow> None
      | (c, Inr r) \<Rightarrow> Some (fl\<lparr>fl_conn := c,
          fl_out := fl_out fl @ (case r of None \<Rightarrow> [] | Some q \<Rightarrow> [q]),
          fl_in := fl_in fl @ (if h_op (p_header p) = RW then p_payload p else []),
          fl_acked := fl_acked fl + unat (fwd_cnt (p_header p) - peer_fwd (fl_conn fl))\<rparr>))"
| "flow_step so (Deliver n) fl =
     (if fl_delivered fl + n \<le> length (sent_bytes (fl_out fl)) then
        Some (fl\<lparr>fl_conn := Connection_delivered (of_nat n) (fl_conn fl),
          fl_delivered := fl_delivered fl + n\<rparr>)
      else None)"
| "flow_step so Drive fl =
     (case Connection_drive (logged so) (fl_conn fl, fl_out fl) of
        ((c, out), Inr (False, _)) \<Rightarrow> Some (fl\<lparr>fl_conn := c, fl_out := out\<rparr>)
      | _ \<Rightarrow> None)"

fun flow_run :: "'s sock_ops \<Rightarrow> flow_input list \<Rightarrow> 's flow \<Rightarrow> 's flow option" where
  "flow_run so [] fl = Some fl"
| "flow_run so (i # is) fl =
     (case flow_step so i fl of None \<Rightarrow> None | Some fl \<Rightarrow> flow_run so is fl)"

text \<open>What the code relies on: a write takes at most the bytes it was given, and a read gives at most
  the bytes it was asked for.\<close>

definition sock_law :: "'s sock_ops \<Rightarrow> bool" where
  "sock_law so \<longleftrightarrow>
     (\<forall>s bs s' n. so_write so s bs = (s', Inr n) \<longrightarrow> n \<le> length bs) \<and>
     (\<forall>s n s' d. so_read so s n = (s', Inr d) \<longrightarrow> length d \<le> n)"

text \<open>The two byte streams of a flow, and its counters against the true counts.\<close>

definition streams_ok :: "'s logged_connection \<Rightarrow> packet list \<Rightarrow> u8 list \<Rightarrow> bool" where
  "streams_ok c out fin \<longleftrightarrow>
     host_took c @ pending c = fin \<and>
     host_gave c = sent_bytes out @ (case lookahead c of None \<Rightarrow> [] | Some b \<Rightarrow> [b]) \<and>
     fwd_count c = of_nat (length (host_took c)) \<and>
     length (pending c) \<le> BUFFER_SIZE"

definition credit_ok :: "'s connection \<Rightarrow> nat \<Rightarrow> nat \<Rightarrow> nat \<Rightarrow> bool" where
  "credit_ok c sent dl ack \<longleftrightarrow>
     tx_count c = of_nat sent \<and> delivered c = of_nat dl \<and> peer_fwd c = of_nat ack \<and>
     ack \<le> dl \<and> dl \<le> sent \<and> sent - ack < 2 ^ 32"

definition flow_ok :: "'s flow \<Rightarrow> bool" where
  "flow_ok fl \<longleftrightarrow>
     streams_ok (fl_conn fl) (fl_out fl) (fl_in fl) \<and>
     credit_ok (fl_conn fl) (length (sent_bytes (fl_out fl))) (fl_delivered fl) (fl_acked fl)"

subsection \<open>Each stage keeps the books\<close>

lemma sent_bytes_Nil [simp]: "sent_bytes [] = []"
  by (simp add: sent_bytes_def)

lemma sent_bytes_snoc [simp]:
  "sent_bytes (out @ [p]) = sent_bytes out @ (if h_op (p_header p) = RW then p_payload p else [])"
  by (simp add: sent_bytes_def)

lemma Connection_packet_simps [simp]:
  "h_op (p_header (Connection_packet op flags payload c)) = op"
  "p_payload (Connection_packet op flags payload c) = payload"
  by (simp_all add: Connection_packet_def)

lemma vsock_ops_distinct [simp]:
  "RESPONSE \<noteq> RW" "CREDIT_UPDATE \<noteq> RW" "CREDIT_REQUEST \<noteq> RW" "SHUTDOWN \<noteq> RW" "RST \<noteq> RW"
  "REQUEST \<noteq> RW"
  by (simp_all add: vsock_ops)

lemma unat_diff_of_nat:
  "a \<le> b \<Longrightarrow> b - a < 2 ^ LENGTH('a) \<Longrightarrow> unat (of_nat b - of_nat a :: 'a::len word) = b - a"
  by (metis of_nat_diff of_nat_inverse)

lemma unat_conn_credit:
  "credit_ok c sent dl ack \<Longrightarrow> unat (conn_credit c) = unat (peer_alloc c) - (sent - ack)"
  by (simp add: credit_ok_def conn_credit_def unat_saturating_sub unat_diff_of_nat)

text \<open>A stage that sends nothing keeps both books when it only touches the other fields.\<close>

lemma credit_ok_cong:
  "tx_count c' = tx_count c \<Longrightarrow> delivered c' = delivered c \<Longrightarrow> peer_fwd c' = peer_fwd c \<Longrightarrow>
     credit_ok c' sent dl ack = credit_ok c sent dl ack"
  by (simp add: credit_ok_def)

lemma credit_ok_send:
  assumes ok: "credit_ok c sent dl ack" and n: "n \<le> unat (conn_credit c)"
    and c': "tx_count c' = tx_count c + of_nat n" "delivered c' = delivered c" "peer_fwd c' = peer_fwd c"
  shows "credit_ok c' (sent + n) dl ack \<and> (0 < n \<longrightarrow> sent + n - ack \<le> unat (peer_alloc c))"
proof -
  have cr: "n \<le> unat (peer_alloc c) - (sent - ack)"
    using n unat_conn_credit[OF ok] by simp
  have small: "unat (peer_alloc c) < 2 ^ 32"
    using unsigned_less[of "peer_alloc c", where 'a = nat] by simp
  show ?thesis
    using ok cr small by (auto simp: credit_ok_def c')
qed

lemma streams_ok_cong:
  "host_took c' = host_took c \<Longrightarrow> host_gave c' = host_gave c \<Longrightarrow> pending c' = pending c \<Longrightarrow>
     lookahead c' = lookahead c \<Longrightarrow> fwd_count c' = fwd_count c \<Longrightarrow> sent_bytes out' = sent_bytes out \<Longrightarrow>
     streams_ok c' out' fin = streams_ok c out fin"
  by (simp add: streams_ok_def)

definition books :: "'s logged_connection \<Rightarrow> packet list \<Rightarrow> u8 list \<Rightarrow> nat \<Rightarrow> nat \<Rightarrow> bool" where
  "books c out fin dl ack \<longleftrightarrow>
     streams_ok c out fin \<and> credit_ok c (length (sent_bytes out)) dl ack"

lemma drive_connecting_books:
  assumes "drive_connecting (logged so) (c, out) = ((c', out'), Inr r)" "books c out fin dl ack"
  shows "books c' out' fin dl ack" "sent_bytes out' = sent_bytes out"
proof -
  have same: "host_took c' = host_took c \<and> host_gave c' = host_gave c \<and> pending c' = pending c \<and>
      lookahead c' = lookahead c \<and> fwd_count c' = fwd_count c \<and> tx_count c' = tx_count c \<and>
      delivered c' = delivered c \<and> peer_fwd c' = peer_fwd c \<and> sent_bytes out' = sent_bytes out"
    using assms(1)
    by (auto simp: drive_connecting_def logged_def host_took_def host_gave_def Let_def
        split: if_splits prod.splits sum.splits option.splits)
  then show "sent_bytes out' = sent_bytes out" by simp
  then show "books c' out' fin dl ack"
    using assms(2) same by (simp add: books_def streams_ok_def credit_ok_def)
qed

lemma drive_write_books:
  assumes "drive_write (logged so) (c, out) = ((c', out'), Inr r)" "books c out fin dl ack"
    and law: "sock_law so"
  shows "books c' out' fin dl ack" "sent_bytes out' = sent_bytes out"
    "peer_alloc c' = peer_alloc c" "guest_shutdown c' = guest_shutdown c"
proof -
  obtain s took gave where sock: "socket c = (s, took, gave)" by (cases "socket c")
  have "books c' out' fin dl ack \<and> sent_bytes out' = sent_bytes out \<and>
    peer_alloc c' = peer_alloc c \<and> guest_shutdown c' = guest_shutdown c"
  proof (cases "pending c = []")
    case True
    then show ?thesis using assms by (simp add: drive_write_def)
  next
    case False
    define buf where "buf = take (so_front so s (pending c)) (pending c)"
    obtain s1 w where w: "so_write so s buf = (s1, w)" by (cases "so_write so s buf")
    show ?thesis
    proof (cases w)
      case (Inl e)
      then have "c' = c\<lparr>socket := (s1, took, gave)\<rparr>" "out' = out"
        using assms(1) False w sock
        by (auto simp: drive_write_def logged_def buf_def split: if_splits)
      then show ?thesis
        using assms(2) sock by (simp add: books_def streams_ok_def credit_ok_def host_took_def host_gave_def)
    next
      case (Inr n)
      then have n: "n \<le> length buf" using law w by (auto simp: sock_law_def)
      have c': "c' = c\<lparr>socket := (s1, took @ take n buf, gave), pending := drop n (pending c),
          fwd_count := fwd_count c + of_nat n\<rparr>" "sent_bytes out' = sent_bytes out"
        using assms(1) False w sock Inr
        by (auto simp: drive_write_def logged_def buf_def Let_def split: if_splits)
      have "take n buf = take n (pending c)" "length (take n buf) = n" "n \<le> length (pending c)"
        using n by (auto simp: buf_def)
      then show ?thesis
        using assms(2) sock by (auto simp: c' books_def streams_ok_def credit_ok_def host_took_def host_gave_def)
    qed
  qed
  then show "books c' out' fin dl ack" "sent_bytes out' = sent_bytes out"
    "peer_alloc c' = peer_alloc c" "guest_shutdown c' = guest_shutdown c" by auto
qed

lemma drive_shutdown_books:
  assumes "drive_shutdown (logged so) c = (c', Inr u)"
  shows "books c' out fin dl ack = books c out fin dl ack"
    "pending c' = pending c" "peer_alloc c' = peer_alloc c" "guest_shutdown c' = guest_shutdown c"
    "host_took c' = host_took c"
  using assms
  by (auto simp: drive_shutdown_def logged_def books_def streams_ok_def credit_ok_def
      host_took_def host_gave_def split: if_splits prod.splits sum.splits)

lemma drive_socket_read_books:
  assumes rd: "drive_socket_read (logged so) (unat (conn_credit c)) again (c, out) = ((c', out'), Inr r)"
    and ok: "books c out fin dl ack" and law: "sock_law so" and la: "lookahead c = None"
  shows "books c' out' fin dl ack \<and> peer_alloc c' = peer_alloc c \<and>
    (sent_bytes out' \<noteq> sent_bytes out \<longrightarrow> length (sent_bytes out') - ack \<le> unat (peer_alloc c))"
proof -
  obtain s took gave where sock: "socket c = (s, took, gave)" by (cases "socket c")
  define n where "n = clamp 1 4096 (unat (conn_credit c))"
  obtain s1 w where w: "so_read so s n = (s1, w)" by (cases "so_read so s n")
  note w' = w[unfolded n_def]
  note simps = drive_socket_read_def logged_def Let_def
  show ?thesis
  proof (cases w)
    case (Inl e)
    then have "c' = c\<lparr>socket := (s1, took, gave)\<rparr>" "out' = out"
      using rd w' sock by (auto simp: simps split: if_splits)
    then show ?thesis
      using ok sock by (simp add: books_def streams_ok_def credit_ok_def host_took_def host_gave_def)
  next
    case (Inr d)
    then have d: "length d \<le> n" using law w by (auto simp: sock_law_def)
    consider (eof) "d = []" | (probe) "d \<noteq> []" "unat (conn_credit c) = 0"
      | (data) "d \<noteq> []" "unat (conn_credit c) \<noteq> 0" by auto
    then show ?thesis
    proof cases
      case eof
      then have "c' = c\<lparr>socket := (s1, took, gave), host_eof := True\<rparr>" "sent_bytes out' = sent_bytes out"
        using rd w' sock Inr by (auto simp: simps)
      then show ?thesis
        using ok sock by (simp add: books_def streams_ok_def credit_ok_def host_took_def host_gave_def)
    next
      case probe
      then have c': "c' = c\<lparr>socket := (s1, took, gave @ d), lookahead := Some (hd d)\<rparr>" "out' = out"
        using rd w' sock Inr by (auto simp: simps)
      have "d = [hd d]" using d probe by (cases d) (auto simp: n_def clamp_def)
      then have "gave @ d = sent_bytes out @ [hd d]"
        using ok sock la by (simp add: books_def streams_ok_def host_gave_def)
      then show ?thesis
        using ok sock by (simp add: c' books_def streams_ok_def credit_ok_def host_took_def host_gave_def)
    next
      case data
      then have c': "c' = c\<lparr>socket := (s1, took, gave @ d), tx_count := tx_count c + of_nat (length d)\<rparr>"
        "sent_bytes out' = sent_bytes out @ d"
        using rd w' sock Inr by (auto simp: simps)
      have "length d \<le> unat (conn_credit c)" using d data by (simp add: n_def clamp_def)
      then have "credit_ok c' (length (sent_bytes out) + length d) dl ack \<and>
          (0 < length d \<longrightarrow> length (sent_bytes out) + length d - ack \<le> unat (peer_alloc c))"
        using ok by (intro credit_ok_send) (simp_all add: c' books_def)
      then show ?thesis
        using ok sock la data
        by (simp add: c' books_def streams_ok_def host_took_def host_gave_def)
    qed
  qed
qed

lemma drive_read_books:
  assumes rd: "drive_read (logged so) again (c, out) = ((c', out'), Inr r)"
    and ok: "books c out fin dl ack" and law: "sock_law so"
  shows "books c' out' fin dl ack \<and> peer_alloc c' = peer_alloc c \<and>
    (sent_bytes out' \<noteq> sent_bytes out \<longrightarrow> length (sent_bytes out') - ack \<le> unat (peer_alloc c))"
proof (cases "host_eof c \<or> guest_shutdown c AND RECEIVE \<noteq> 0")
  case True
  then show ?thesis using rd ok by (auto simp: drive_read_def)
next
  case open_: False
  show ?thesis
  proof (cases "unat (conn_credit c) > 0 \<and> lookahead c \<noteq> None")
    case True
    then obtain b where b: "lookahead c = Some b" by auto
    have c': "c' = c\<lparr>lookahead := None, tx_count := tx_count c + of_nat 1\<rparr>"
      "sent_bytes out' = sent_bytes out @ [b]"
      using rd open_ True b by (auto simp: drive_read_def Let_def)
    have "credit_ok c' (length (sent_bytes out) + 1) dl ack \<and>
        (0 < (1::nat) \<longrightarrow> length (sent_bytes out) + 1 - ack \<le> unat (peer_alloc c))"
      using ok True by (intro credit_ok_send) (simp_all add: c' books_def)
    then show ?thesis
      using ok b by (simp add: c' books_def streams_ok_def host_took_def host_gave_def)
  next
    case False
    define step where "step = (if lookahead c = None
      then drive_socket_read (logged so) (unat (conn_credit c)) again (c, out) else ((c, out), Inr again))"
    obtain c1 out1 a where st: "step = ((c1, out1), Inr a)"
      and tail: "(c', out') = (c1, out1) \<or>
        c' = c1\<lparr>credit_requested := True\<rparr> \<and> sent_bytes out' = sent_bytes out1"
      using rd open_ False
      by (auto simp: drive_read_def Let_def step_def split: if_splits option.splits prod.splits sum.splits)
    have "books c1 out1 fin dl ack \<and> peer_alloc c1 = peer_alloc c \<and>
      (sent_bytes out1 \<noteq> sent_bytes out \<longrightarrow> length (sent_bytes out1) - ack \<le> unat (peer_alloc c))"
      using st ok law drive_socket_read_books[of so c again out c1 out1 a fin dl ack]
      by (auto simp: step_def split: if_splits)
    then show ?thesis
      using tail by (auto simp: books_def streams_ok_def credit_ok_def host_took_def host_gave_def)
  qed
qed

lemma drive_read_open: "drive_read so a d = (d', Inr (closed, again)) \<Longrightarrow> \<not> closed"
  by (cases d) (auto simp: drive_read_def Let_def
      split: if_splits option.splits prod.splits sum.splits)

lemma drive_established_books:
  assumes dr: "drive_established (logged so) (c, out) = ((c', out'), Inr (closed, again))"
    and ok: "books c out fin dl ack" and law: "sock_law so"
  shows "books c' out' fin dl ack"
    "sent_bytes out' \<noteq> sent_bytes out \<Longrightarrow> length (sent_bytes out') - ack \<le> unat (peer_alloc c')"
    "closed \<Longrightarrow> pending c' = []"
proof -
  obtain c1 out1 a where wr: "drive_write (logged so) (c, out) = ((c1, out1), Inr a)"
    using dr by (auto simp: drive_established_def split: prod.splits sum.splits)
  note w = drive_write_books[OF wr ok law]
  obtain c2 u where sh: "drive_shutdown (logged so) c1 = (c2, Inr u)"
    using dr wr by (auto simp: drive_established_def split: prod.splits sum.splits)
  note s = drive_shutdown_books[OF sh]
  have ok2: "books c2 out1 fin dl ack" using w(1) s(1) by simp
  consider (close) "pending c2 = []" "c' = c2" "sent_bytes out' = sent_bytes out1"
    | (read) "drive_read (logged so) a (c2, out1) = ((c', out'), Inr (closed, again))" "\<not> closed"
    using dr wr sh
    by (auto simp: drive_established_def dest: drive_read_open split: if_splits)
  then have "books c' out' fin dl ack \<and> (closed \<longrightarrow> pending c' = []) \<and>
    (sent_bytes out' \<noteq> sent_bytes out \<longrightarrow> length (sent_bytes out') - ack \<le> unat (peer_alloc c'))"
  proof cases
    case close
    then show ?thesis using ok2 w(2) by (simp add: books_def streams_ok_def credit_ok_def)
  next
    case read
    then show ?thesis using drive_read_books[OF read(1) ok2 law] w(2) s by auto
  qed
  then show "books c' out' fin dl ack" "closed \<Longrightarrow> pending c' = []"
    "sent_bytes out' \<noteq> sent_bytes out \<Longrightarrow> length (sent_bytes out') - ack \<le> unat (peer_alloc c')"
    by auto
qed

lemma Connection_drive_books:
  assumes dr: "Connection_drive (logged so) (c, out) = ((c', out'), Inr (closed, again))"
    and ok: "books c out fin dl ack" and law: "sock_law so"
  shows "books c' out' fin dl ack"
    "sent_bytes out' \<noteq> sent_bytes out \<Longrightarrow> length (sent_bytes out') - ack \<le> unat (peer_alloc c')"
    "closed \<Longrightarrow> c_state c \<noteq> AwaitResponse \<Longrightarrow> pending c' = []"
proof -
  have "books c' out' fin dl ack \<and> (closed \<and> c_state c \<noteq> AwaitResponse \<longrightarrow> pending c' = []) \<and>
    (sent_bytes out' \<noteq> sent_bytes out \<longrightarrow> length (sent_bytes out') - ack \<le> unat (peer_alloc c'))"
  proof (cases "c_state c = AwaitResponse")
    case True
    obtain s l where sock: "socket c = (s, l)" by (cases "socket c")
    obtain s1 h where poll: "so_poll_hangup so s = (s1, h)" by (cases "so_poll_hangup so s")
    have "c' = c\<lparr>socket := (s1, l)\<rparr>" "out' = out"
      using dr True sock poll
      by (cases h; auto simp: Connection_drive_def host_closed_def logged_def split: if_splits)+
    then show ?thesis
      using True ok sock
      by (simp add: books_def streams_ok_def credit_ok_def host_took_def host_gave_def)
  next
    case False
    obtain c1 out1 b where cn: "drive_connecting (logged so) (c, out) = ((c1, out1), Inr b)"
      using dr False by (auto simp: Connection_drive_def split: prod.splits sum.splits)
    note c1 = drive_connecting_books[OF cn ok]
    show ?thesis
    proof (cases b)
      case True
      then have "drive_established (logged so) (c1, out1) = ((c', out'), Inr (closed, again))"
        using dr cn False by (simp add: Connection_drive_def)
      from drive_established_books[OF this c1(1) law] c1(2) show ?thesis by auto
    next
      case no: False
      then have "c' = c1" "out' = out1" "\<not> closed"
        using dr cn False by (simp_all add: Connection_drive_def)
      then show ?thesis using c1 by simp
    qed
  qed
  then show "books c' out' fin dl ack"
    "sent_bytes out' \<noteq> sent_bytes out \<Longrightarrow> length (sent_bytes out') - ack \<le> unat (peer_alloc c')"
    "closed \<Longrightarrow> c_state c \<noteq> AwaitResponse \<Longrightarrow> pending c' = []" by auto
qed

subsection \<open>Receiving\<close>

lemma Connection_receive_ok:
  assumes "Connection_receive p c = (c', Inr r)"
  shows "fwd_cnt (p_header p) - peer_fwd c \<le> delivered c - peer_fwd c"
    "peer_fwd c' = fwd_cnt (p_header p)" "tx_count c' = tx_count c" "delivered c' = delivered c"
    "pending c' = pending c @ (if h_op (p_header p) = RW then p_payload p else [])"
    "length (pending c) \<le> BUFFER_SIZE \<Longrightarrow> length (pending c') \<le> BUFFER_SIZE"
    "socket c' = socket c" "lookahead c' = lookahead c" "fwd_count c' = fwd_count c"
    "\<And>q. r = Some q \<Longrightarrow> h_op (p_header q) \<noteq> RW"
proof -
  define c1 where "c1 = receive_credit (p_header p) c"
  have adv: "\<not> delivered c - peer_fwd c < fwd_cnt (p_header p) - peer_fwd c"
    and op: "receive_op p c1 = (c', Inr r)"
    using assms by (auto simp: Connection_receive_def Let_def c1_def split: if_splits)
  have c1: "peer_fwd c1 = fwd_cnt (p_header p)" "tx_count c1 = tx_count c" "delivered c1 = delivered c"
    "pending c1 = pending c" "socket c1 = socket c" "lookahead c1 = lookahead c"
    "fwd_count c1 = fwd_count c"
    by (simp_all add: c1_def receive_credit_def Let_def)
  show "fwd_cnt (p_header p) - peer_fwd c \<le> delivered c - peer_fwd c"
    using adv by simp
  show "peer_fwd c' = fwd_cnt (p_header p)" "tx_count c' = tx_count c" "delivered c' = delivered c"
    "socket c' = socket c" "lookahead c' = lookahead c" "fwd_count c' = fwd_count c"
    using op c1 by (auto simp: receive_op_def Let_def split: if_splits)
  show "pending c' = pending c @ (if h_op (p_header p) = RW then p_payload p else [])"
    using op c1 by (auto simp: receive_op_def Let_def vsock_ops split: if_splits)
  show "length (pending c) \<le> BUFFER_SIZE \<Longrightarrow> length (pending c') \<le> BUFFER_SIZE"
    using op c1 by (auto simp: receive_op_def Let_def split: if_splits)
  show "\<And>q. r = Some q \<Longrightarrow> h_op (p_header q) \<noteq> RW"
    using op by (auto simp: receive_op_def Let_def split: if_splits)
qed

lemma acked_advances:
  assumes c: "credit_ok c sent dl ack" and a: "fwd - peer_fwd c \<le> delivered c - peer_fwd c"
    and c': "tx_count c' = tx_count c" "delivered c' = delivered c" "peer_fwd c' = fwd"
  shows "credit_ok c' sent dl (ack + unat (fwd - peer_fwd c))"
proof -
  have b: "ack \<le> dl" "dl \<le> sent" "sent - ack < 2 ^ 32" "peer_fwd c = of_nat ack" "delivered c = of_nat dl"
    using c by (simp_all add: credit_ok_def)
  have "unat (fwd - peer_fwd c) \<le> unat (delivered c - peer_fwd c)"
    using a by (simp add: word_le_nat_alt)
  also have "\<dots> = dl - ack" using b by (simp add: unat_diff_of_nat)
  finally have "unat (fwd - peer_fwd c) \<le> dl - ack" .
  moreover have "fwd = of_nat (ack + unat (fwd - peer_fwd c))" using b by simp
  ultimately show ?thesis using c b(1,2,3) by (auto simp: credit_ok_def c')
qed

lemma flow_ok_books:
  "flow_ok fl = books (fl_conn fl) (fl_out fl) (fl_in fl) (fl_delivered fl) (fl_acked fl)"
  by (simp add: flow_ok_def books_def)

lemma flow_start_ok: "flow_ok (flow_start reg s st key cid)"
  by (simp add: flow_ok_def flow_start_def Connection_new_def streams_ok_def credit_ok_def
      host_took_def host_gave_def)

lemma flow_step_ok:
  assumes st: "flow_step so i fl = Some fl'" and ok: "flow_ok fl" and law: "sock_law so"
  shows "flow_ok fl'"
    "sent_bytes (fl_out fl') \<noteq> sent_bytes (fl_out fl) \<Longrightarrow>
      length (sent_bytes (fl_out fl')) - fl_acked fl' \<le> unat (peer_alloc (fl_conn fl'))"
proof -
  have "flow_ok fl' \<and> (sent_bytes (fl_out fl') \<noteq> sent_bytes (fl_out fl) \<longrightarrow>
      length (sent_bytes (fl_out fl')) - fl_acked fl' \<le> unat (peer_alloc (fl_conn fl')))"
  proof (cases i)
    case (Receive p)
    then obtain c' r where rc: "Connection_receive p (fl_conn fl) = (c', Inr r)"
      using st by (auto split: prod.splits sum.splits)
    note R = Connection_receive_ok[OF rc]
    have fl': "fl' = fl\<lparr>fl_conn := c', fl_out := fl_out fl @ (case r of None \<Rightarrow> [] | Some q \<Rightarrow> [q]),
        fl_in := fl_in fl @ (if h_op (p_header p) = RW then p_payload p else []),
        fl_acked := fl_acked fl + unat (fwd_cnt (p_header p) - peer_fwd (fl_conn fl))\<rparr>"
      using st Receive rc by simp
    have sent: "sent_bytes (fl_out fl') = sent_bytes (fl_out fl)"
      using R(10) by (cases r) (simp_all add: fl')
    have b: "streams_ok (fl_conn fl) (fl_out fl) (fl_in fl)"
      "credit_ok (fl_conn fl) (length (sent_bytes (fl_out fl))) (fl_delivered fl) (fl_acked fl)"
      using ok by (simp_all add: flow_ok_def)
    have "credit_ok c' (length (sent_bytes (fl_out fl))) (fl_delivered fl) (fl_acked fl')"
      using acked_advances[OF b(2) R(1,3,4,2)] by (simp add: fl')
    moreover have "streams_ok c' (fl_out fl') (fl_in fl')"
      using b(1) R sent by (auto simp: fl' streams_ok_def host_took_def host_gave_def)
    ultimately show ?thesis using sent by (simp add: flow_ok_def) (simp add: fl')
  next
    case (Deliver n)
    then show ?thesis
      using st ok
      by (auto simp: flow_ok_def streams_ok_def credit_ok_def Connection_delivered_def host_took_def
          host_gave_def split: if_splits)
  next
    case Drive
    then obtain c' out' again where
      dr: "Connection_drive (logged so) (fl_conn fl, fl_out fl) = ((c', out'), Inr (False, again))"
      and fl': "fl' = fl\<lparr>fl_conn := c', fl_out := out'\<rparr>"
      using st by (auto split: prod.splits sum.splits bool.splits)
    from Connection_drive_books[OF dr ok[unfolded flow_ok_books] law] show ?thesis
      by (auto simp: flow_ok_books fl')
  qed
  then show "flow_ok fl'"
    "sent_bytes (fl_out fl') \<noteq> sent_bytes (fl_out fl) \<Longrightarrow>
      length (sent_bytes (fl_out fl')) - fl_acked fl' \<le> unat (peer_alloc (fl_conn fl'))" by auto
qed

lemma flow_run_ok:
  "flow_run so is fl = Some fl' \<Longrightarrow> flow_ok fl \<Longrightarrow> sock_law so \<Longrightarrow> flow_ok fl'"
proof (induction "is" arbitrary: fl)
  case (Cons i "is")
  then show ?case by (auto dest: flow_step_ok(1) split: option.splits)
qed simp

section \<open>Properties\<close>

definition demo_sock :: "nat sock_ops" where
  "demo_sock =
     \<lparr>so_take_error = (\<lambda>s. (s, Inr None)), so_peer_addr = (\<lambda>s. (s, Inr ())),
      so_front = (\<lambda>_. length), so_write = (\<lambda>s bs. (s + 1, Inr (min 2 (length bs)))),
      so_read = (\<lambda>s n. (s + 1, Inr (take n [7, 7]))),
      so_shutdown_write = (\<lambda>s. (s, Inr ())), so_poll_hangup = (\<lambda>s. (s, Inr [True, False]))\<rparr>"

definition guest_packet :: "u16 \<Rightarrow> u32 \<Rightarrow> u8 list \<Rightarrow> u32 \<Rightarrow> u32 \<Rightarrow> packet" where
  "guest_packet op flags payload alloc fwd =
     \<lparr>p_header = Header_default\<lparr>h_op := op, h_flags := flags, h_len := of_nat (length payload),
        buf_alloc := alloc, fwd_cnt := fwd\<rparr>, p_payload = payload\<rparr>"

definition demo_flow :: "nat flow" where
  "demo_flow = flow_start 0 0 Connecting \<lparr>k_guest = 9, k_host = 80\<rparr> 3"

definition demo_inputs :: "flow_input list" where
  "demo_inputs = [Receive (guest_packet REQUEST 0 [] 3 0), Drive, Deliver 1,
     Receive (guest_packet RW 0 [5, 6, 8] 3 1)]"

lemma demo_law: "sock_law demo_sock"
  by (auto simp: sock_law_def demo_sock_def)

lemmas demo_flow_eval =
  demo_flow_def demo_inputs_def demo_sock_def flow_start_def Connection_new_def guest_packet_def
  Header_default_def Connection_receive_def receive_credit_def receive_op_def Connection_drive_def
  drive_connecting_def drive_established_def drive_write_def drive_shutdown_def drive_read_def
  drive_socket_read_def Connection_packet_def Connection_delivered_def conn_credit_def
  saturating_sub_def clamp_def logged_def sent_bytes_def vsock_ops BUFFER_SIZE_def HOST_CID_def
  RECEIVE_def SEND_def host_took_def host_gave_def Let_def

lemma demo_run:
  "\<exists>fl. flow_run demo_sock demo_inputs demo_flow = Some fl \<and> fl_in fl = [5, 6, 8] \<and>
     sent_bytes (fl_out fl) = [7, 7] \<and> fl_acked fl = 1 \<and>
     (\<exists>fl'. flow_step demo_sock Drive fl = Some fl' \<and> host_took (fl_conn fl') = [5, 6] \<and>
        sent_bytes (fl_out fl') = [7, 7, 7, 7] \<and> fl_acked fl' = 1)"
  by (simp add: demo_flow_eval)

text \<open>C9. The two byte streams of a flow are carried without loss, duplication or reordering. On any
  host socket and after any sequence of guest packets, deliveries and drive turns: the bytes the
  host socket took followed by the bytes still pending are exactly the payload the guest sent;
  the payload of the emitted RW packets, followed by the one byte that may be held back, is exactly
  what the host socket gave; \<open>fwd_count\<close> counts the bytes the host took; and the pending bytes fit
  the advertised buffer.\<close>
theorem flow_streams:
  assumes "sock_law so" "flow_run so is (flow_start reg s st key cid) = Some fl"
  shows "host_took (fl_conn fl) @ pending (fl_conn fl) = fl_in fl \<and>
    host_gave (fl_conn fl) = sent_bytes (fl_out fl) @
      (case lookahead (fl_conn fl) of None \<Rightarrow> [] | Some b \<Rightarrow> [b]) \<and>
    fwd_count (fl_conn fl) = of_nat (length (host_took (fl_conn fl))) \<and>
    length (pending (fl_conn fl)) \<le> BUFFER_SIZE"
  using flow_run_ok[OF assms(2) flow_start_ok assms(1)] by (simp add: flow_ok_def streams_ok_def)

lemma flow_streams_witness:
  "\<exists>fl. flow_run demo_sock demo_inputs demo_flow = Some fl \<and>
     host_took (fl_conn fl) @ pending (fl_conn fl) = [5, 6, 8]"
proof -
  obtain fl where fl: "flow_run demo_sock demo_inputs demo_flow = Some fl" "fl_in fl = [5, 6, 8]"
    using demo_run by blast
  then show ?thesis
    using flow_streams[OF demo_law fl(1)[unfolded demo_flow_def]] by auto
qed

text \<open>C18. The host never sends uncredited data. Whatever the guest acknowledges and however its
  buffer shrinks, a step of a flow that emits payload leaves at most the guest's advertised
  \<open>buf_alloc\<close> bytes unacknowledged; and the guest can only acknowledge bytes that were really copied
  to it, so the 32-bit counters, which wrap, always stand for the true byte counts.\<close>
theorem credit_respected:
  assumes "sock_law so" "flow_run so is (flow_start reg s st key cid) = Some fl"
    and "flow_step so i fl = Some fl'"
  shows "(sent_bytes (fl_out fl') = sent_bytes (fl_out fl) \<or>
      length (sent_bytes (fl_out fl')) - fl_acked fl' \<le> unat (peer_alloc (fl_conn fl'))) \<and>
    fl_acked fl' \<le> fl_delivered fl' \<and> fl_delivered fl' \<le> length (sent_bytes (fl_out fl')) \<and>
    tx_count (fl_conn fl') - peer_fwd (fl_conn fl') =
      of_nat (length (sent_bytes (fl_out fl')) - fl_acked fl') \<and>
    length (sent_bytes (fl_out fl')) - fl_acked fl' < 2 ^ 32"
proof -
  have ok: "flow_ok fl" by (rule flow_run_ok[OF assms(2) flow_start_ok assms(1)])
  have "credit_ok (fl_conn fl') (length (sent_bytes (fl_out fl'))) (fl_delivered fl') (fl_acked fl')"
    using flow_step_ok(1)[OF assms(3) ok assms(1)] by (simp add: flow_ok_def)
  then show ?thesis
    using flow_step_ok(2)[OF assms(3) ok assms(1)] by (auto simp: credit_ok_def of_nat_diff)
qed

lemma credit_respected_witness:
  "\<exists>fl fl'. flow_run demo_sock demo_inputs demo_flow = Some fl \<and>
     flow_step demo_sock Drive fl = Some fl' \<and> length (sent_bytes (fl_out fl')) = 4 \<and>
     4 - fl_acked fl' \<le> unat (peer_alloc (fl_conn fl')) \<and> fl_acked fl' = 1"
proof -
  obtain fl fl' where 1: "flow_run demo_sock demo_inputs demo_flow = Some fl"
    "flow_step demo_sock Drive fl = Some fl'"
    and 2: "sent_bytes (fl_out fl) = [7, 7]" "sent_bytes (fl_out fl') = [7, 7, 7, 7]" "fl_acked fl' = 1"
    using demo_run by blast
  show ?thesis
    using credit_respected[OF demo_law 1(1)[unfolded demo_flow_def] 1(2)] 1 2 by auto
qed

text \<open>Closing loses nothing: when a flow that both sides had opened is closed by its drive turn,
  every byte the guest sent on it has been written to the host socket.\<close>
theorem close_delivers:
  assumes "sock_law so" "flow_run so is (flow_start reg s st key cid) = Some fl"
    and "c_state (fl_conn fl) \<noteq> AwaitResponse"
    and "Connection_drive (logged so) (fl_conn fl, fl_out fl) = ((c', out'), Inr (True, again))"
  shows "host_took c' = fl_in fl"
proof -
  have "books (fl_conn fl) (fl_out fl) (fl_in fl) (fl_delivered fl) (fl_acked fl)"
    using flow_run_ok[OF assms(2) flow_start_ok assms(1)] by (simp add: flow_ok_books)
  from Connection_drive_books[OF assms(4) this assms(1)] assms(3)
  show ?thesis by (simp add: books_def streams_ok_def)
qed

definition closing_inputs :: "flow_input list" where
  "closing_inputs = [Receive (guest_packet REQUEST 0 [] 3 0), Drive,
     Receive (guest_packet RW 0 [5, 6] 3 0), Receive (guest_packet SHUTDOWN 3 [] 3 0)]"

lemma close_delivers_witness:
  "\<exists>fl c' out' again. flow_run demo_sock closing_inputs demo_flow = Some fl \<and>
     Connection_drive (logged demo_sock) (fl_conn fl, fl_out fl) = ((c', out'), Inr (True, again)) \<and>
     host_took c' = [5, 6]"
proof -
  have "\<exists>fl c' out' again. flow_run demo_sock closing_inputs demo_flow = Some fl \<and>
     c_state (fl_conn fl) \<noteq> AwaitResponse \<and> fl_in fl = [5, 6] \<and>
     Connection_drive (logged demo_sock) (fl_conn fl, fl_out fl) = ((c', out'), Inr (True, again))"
    by (simp add: closing_inputs_def demo_flow_eval) blast
  then obtain fl c' out' again where
    1: "flow_run demo_sock closing_inputs demo_flow = Some fl" and
    2: "c_state (fl_conn fl) \<noteq> AwaitResponse" "fl_in fl = [5, 6]" and
    3: "Connection_drive (logged demo_sock) (fl_conn fl, fl_out fl) = ((c', out'), Inr (True, again))"
    by blast
  from close_delivers[OF demo_law 1[unfolded demo_flow_def] 2(1) 3] 1 2 3 show ?thesis by auto
qed

end
