(* ===== verification/Vsock_Backend.thy ===== *)
theory Vsock_Backend
  imports Vsock_Connection
begin

text \<open>
  The host side of the vsock device, \<open>src/src/vmm/src/virtio/vsock/backend.rs\<close> and the
  registrations of \<open>source.rs\<close>: the port mappings, the table of flows, the queue of outgoing
  packets, the listener sweep and the fair turns of the flows.

  The host is a parameter, the record \<open>vsock_host\<close> of what the code asks of it: Unix sockets to
  connect, accept and duplicate, and the workers' registrar. Its state \<open>'h\<close> changes with each call.
  The table of flows and the outgoing packets are the lists the code's deques hold.
\<close>

definition MAX_CONNECTIONS :: nat where "MAX_CONNECTIONS = 128"
definition MAX_PENDING :: nat where "MAX_PENDING = 256"
definition FIRST_HOST_PORT :: u32 where "FIRST_HOST_PORT = push_bit 30 1"
definition IO_BUDGET :: nat where "IO_BUDGET = 256"

record ('s, 'h) vsock_host =
  vh_sock :: "'s sock_ops"
  vh_connect :: "string \<Rightarrow> 'h \<Rightarrow> 'h \<times> 's option"
  vh_accept :: "nat \<Rightarrow> 'h \<Rightarrow> 'h \<times> (error_kind + 's)"
  vh_set_nonblocking :: "'s \<Rightarrow> 's \<times> (error_kind + unit)"
  vh_clone_stream :: "'s \<Rightarrow> 'h \<Rightarrow> bool"
  vh_clone_listener :: "nat \<Rightarrow> 'h \<Rightarrow> bool"
  vh_register :: "'h \<Rightarrow> 'h \<times> (event_error + u32)"
  vh_deregister :: "u32 \<Rightarrow> 'h \<Rightarrow> 'h"
  vh_pair :: "'h \<Rightarrow> 'h \<times> (error_kind + unit)"
  vh_clone_pair :: "'h \<Rightarrow> bool"
  vh_notify :: "'h \<Rightarrow> 'h \<times> (error_kind + unit)"
  vh_consume :: "'h \<Rightarrow> 'h \<times> (error_kind + unit)"

section \<open>Registrations\<close>

text \<open>\<open>Registration::new\<close>; \<open>cloned\<close> says whether the duplicate handle could be made.\<close>

definition Registration_new ::
    "('s, 'h) vsock_host \<Rightarrow> bool \<Rightarrow> 'h \<Rightarrow> 'h \<times> (device_error + u32)" where
  "Registration_new env cloned h =
     (if \<not> cloned then (h, Inl (Fatal ''vsock socket duplication''))
      else case vh_register env h of
        (h, Inl _) \<Rightarrow> (h, Inl (Fatal ''vsock event registration''))
      | (h, Inr i) \<Rightarrow> (h, Inr i))"

definition Registration_stream ::
    "('s, 'h) vsock_host \<Rightarrow> 's \<Rightarrow> 'h \<Rightarrow> 'h \<times> (device_error + u32)" where
  "Registration_stream env s h = Registration_new env (vh_clone_stream env s h) h"

definition Registration_listener ::
    "('s, 'h) vsock_host \<Rightarrow> nat \<Rightarrow> 'h \<Rightarrow> 'h \<times> (device_error + u32)" where
  "Registration_listener env l h = Registration_new env (vh_clone_listener env l h) h"

definition Registration_drop :: "('s, 'h) vsock_host \<Rightarrow> u32 \<Rightarrow> 'h \<Rightarrow> 'h" where
  "Registration_drop env i h = vh_deregister env i h"

text \<open>Dropping a flow releases its registration.\<close>

definition drop_connection :: "('s, 'h) vsock_host \<Rightarrow> 's connection \<Rightarrow> 'h \<Rightarrow> 'h" where
  "drop_connection env c = Registration_drop env (registration c)"

definition connect_flow ::
    "('s, 'h) vsock_host \<Rightarrow> 's \<Rightarrow> conn_state \<Rightarrow> vsock_key \<Rightarrow> u64 \<Rightarrow> 'h \<Rightarrow>
     'h \<times> (device_error + 's connection)" where
  "connect_flow env s st key cid h =
     (case Registration_stream env s h of
        (h, Inl e) \<Rightarrow> (h, Inl e)
      | (h, Inr i) \<Rightarrow> (h, Inr (Connection_new i s st key cid)))"

text \<open>
  \<open>Reschedule\<close>: one coalesced callback. The host keeps the socket pair; \<open>vh_notify\<close> writes one byte
  to it and \<open>vh_consume\<close> reads one.
\<close>

record reschedule =
  rs_registration :: u32
  rs_pending :: bool

definition notification_error :: device_error where
  "notification_error = Fatal ''vsock private notification''"

definition Reschedule_new :: "('s, 'h) vsock_host \<Rightarrow> 'h \<Rightarrow> 'h \<times> (device_error + reschedule)" where
  "Reschedule_new env h =
     (case vh_pair env h of
        (h, Inl _) \<Rightarrow> (h, Inl notification_error)
      | (h, Inr _) \<Rightarrow>
          (case Registration_new env (vh_clone_pair env h) h of
             (h, Inl e) \<Rightarrow> (h, Inl e)
           | (h, Inr i) \<Rightarrow> (h, Inr \<lparr>rs_registration = i, rs_pending = False\<rparr>)))"

definition Reschedule_schedule ::
    "('s, 'h) vsock_host \<Rightarrow> 'h \<times> reschedule \<Rightarrow> ('h \<times> reschedule) \<times> (device_error + unit)" where
  "Reschedule_schedule env = (\<lambda>(h, r).
     if rs_pending r then ((h, r), Inr ())
     else case vh_notify env h of
       (h, Inl _) \<Rightarrow> ((h, r), Inl notification_error)
     | (h, Inr _) \<Rightarrow> ((h, r\<lparr>rs_pending := True\<rparr>), Inr ()))"

definition Reschedule_acknowledge ::
    "('s, 'h) vsock_host \<Rightarrow> device_event \<Rightarrow> 'h \<times> reschedule \<Rightarrow>
     ('h \<times> reschedule) \<times> (device_error + bool)" where
  "Reschedule_acknowledge env event = (\<lambda>(h, r).
     if event \<noteq> BackendReady (rs_registration r) then ((h, r), Inr False)
     else case vh_consume env h of
       (h, Inr _) \<Rightarrow> ((h, r\<lparr>rs_pending := False\<rparr>), Inr True)
     | (h, Inl e) \<Rightarrow>
         (if e = WouldBlock then ((h, r), Inr True) else ((h, r), Inl notification_error)))"

section \<open>The backend\<close>

record mappings =
  mp_listeners :: "(u32 \<times> nat) list"
  mp_connects :: "u32 \<Rightarrow> string option"

record 's backend =
  bk_registrations :: "u32 list"
  bk_mappings :: mappings
  bk_cid :: u64
  bk_connections :: "(vsock_key \<times> 's connection) list"
  bk_port :: u32
  bk_next_listener :: nat
  bk_listener_retry :: bool
  bk_outgoing :: "packet list"

text \<open>Collecting the registrations stops at the first failure and releases those already made.\<close>

fun register_listeners ::
    "('s, 'h) vsock_host \<Rightarrow> (u32 \<times> nat) list \<Rightarrow> u32 list \<Rightarrow> 'h \<Rightarrow> 'h \<times> (device_error + u32 list)" where
  "register_listeners env [] acc h = (h, Inr acc)"
| "register_listeners env ((_, l) # ls) acc h =
     (case Registration_listener env l h of
        (h, Inl e) \<Rightarrow> (fold (Registration_drop env) acc h, Inl e)
      | (h, Inr i) \<Rightarrow> register_listeners env ls (acc @ [i]) h)"

definition Backend_new ::
    "('s, 'h) vsock_host \<Rightarrow> u64 \<Rightarrow> mappings \<Rightarrow> 'h \<Rightarrow> 'h \<times> (device_error + 's backend)" where
  "Backend_new env cid mp h =
     (case register_listeners env (mp_listeners mp) [] h of
        (h, Inl e) \<Rightarrow> (h, Inl e)
      | (h, Inr regs) \<Rightarrow> (h, Inr \<lparr>bk_registrations = regs, bk_mappings = mp, bk_cid = cid,
          bk_connections = [], bk_port = FIRST_HOST_PORT, bk_next_listener = 0,
          bk_listener_retry = False, bk_outgoing = []\<rparr>))"

definition can_receive :: "'s backend \<Rightarrow> bool" where
  "can_receive b \<longleftrightarrow> length (bk_outgoing b) < MAX_PENDING"

definition reply_key :: "header \<Rightarrow> vsock_key" where
  "reply_key h = \<lparr>k_guest = dst_port h, k_host = src_port h\<rparr>"

definition bk_connection :: "vsock_key \<Rightarrow> 's backend \<Rightarrow> 's connection option" where
  "bk_connection key b = map_option snd (find (\<lambda>(k, _). k = key) (bk_connections b))"

fun update_first :: "vsock_key \<Rightarrow> 'a \<Rightarrow> (vsock_key \<times> 'a) list \<Rightarrow> (vsock_key \<times> 'a) list" where
  "update_first key c [] = []"
| "update_first key c ((k, d) # rest) =
     (if k = key then (k, c) # rest else (k, d) # update_first key c rest)"

definition without_key :: "vsock_key \<Rightarrow> packet list \<Rightarrow> packet list" where
  "without_key key = filter (\<lambda>p. reply_key (p_header p) \<noteq> key)"

definition Backend_remove ::
    "('s, 'h) vsock_host \<Rightarrow> vsock_key \<Rightarrow> 'h \<times> 's backend \<Rightarrow> 'h \<times> 's backend" where
  "Backend_remove env key = (\<lambda>(h, b).
     (fold (\<lambda>(k, c). if k = key then drop_connection env c else id) (bk_connections b) h,
      b\<lparr>bk_connections := filter (\<lambda>(k, _). k \<noteq> key) (bk_connections b),
        bk_outgoing := without_key key (bk_outgoing b)\<rparr>))"

text \<open>A request that names a mapped port and finds room opens a flow; otherwise nothing changes
  here and the packet is answered below like any other.\<close>

definition backend_request ::
    "('s, 'h) vsock_host \<Rightarrow> header \<Rightarrow> vsock_key \<Rightarrow> 'h \<times> 's backend \<Rightarrow>
     ('h \<times> 's backend) \<times> (device_error + unit)" where
  "backend_request env hdr key = (\<lambda>(h, b).
     if socket_type hdr = STREAM \<and> h_op hdr = REQUEST \<and> h_len hdr = 0 \<and> h_flags hdr = 0 \<and>
         bk_connection key b = None \<and> length (bk_connections b) < MAX_CONNECTIONS then
       (case mp_connects (bk_mappings b) (k_host key) of
          None \<Rightarrow> ((h, b), Inr ())
        | Some path \<Rightarrow>
            (case vh_connect env path h of
               (h, None) \<Rightarrow> ((h, b), Inr ())
             | (h, Some s) \<Rightarrow>
                 (case connect_flow env s Connecting key (bk_cid b) h of
                    (h, Inl e) \<Rightarrow> ((h, b), Inl e)
                  | (h, Inr c) \<Rightarrow>
                      ((h, b\<lparr>bk_connections := bk_connections b @ [(key, c)]\<rparr>), Inr ()))))
     else ((h, b), Inr ()))"

definition backend_respond ::
    "('s, 'h) vsock_host \<Rightarrow> packet \<Rightarrow> vsock_key \<Rightarrow> 'h \<times> 's backend \<Rightarrow> 'h \<times> 's backend" where
  "backend_respond env p key = (\<lambda>(h, b).
     let hdr = p_header p;
         reset = Header_reply hdr RST;
         stop_reading = h_op hdr = SHUTDOWN \<and> h_flags hdr AND RECEIVE \<noteq> 0;
         refuse = (\<lambda>hb. case Backend_remove env key hb of
             (h, b) \<Rightarrow> (h, b\<lparr>bk_outgoing := bk_outgoing b @ [reset]\<rparr>)) in
     case (if socket_type hdr = STREAM then bk_connection key b else None) of
       None \<Rightarrow> refuse (h, b)
     | Some c \<Rightarrow>
         (case Connection_receive p c of
            (c, r) \<Rightarrow>
              (let b = b\<lparr>bk_connections := update_first key c (bk_connections b)\<rparr> in
               case r of
                 Inl _ \<Rightarrow> refuse (h, b)
               | Inr response \<Rightarrow>
                   (let out = (if stop_reading then
                          filter (\<lambda>q. reply_key (p_header q) \<noteq> key \<or> h_op (p_header q) \<noteq> RW)
                            (bk_outgoing b)
                        else bk_outgoing b) in
                    (h, b\<lparr>bk_outgoing := out @ (case response of None \<Rightarrow> [] | Some q \<Rightarrow> [q])\<rparr>)))))"

definition Backend_receive ::
    "('s, 'h) vsock_host \<Rightarrow> packet \<Rightarrow> 'h \<times> 's backend \<Rightarrow> ('h \<times> 's backend) \<times> (device_error + unit)" where
  "Backend_receive env p = (\<lambda>(h, b).
     let hdr = p_header p in
     if src_cid hdr \<noteq> bk_cid b \<or> dst_cid hdr \<noteq> HOST_CID then ((h, b), Inr ())
     else
       let key = \<lparr>k_guest = src_port hdr, k_host = dst_port hdr\<rparr> in
       if h_op hdr = RST then (Backend_remove env key (h, b), Inr ())
       else case backend_request env hdr key (h, b) of
         (hb, Inl e) \<Rightarrow> (hb, Inl e)
       | (hb, Inr _) \<Rightarrow> (backend_respond env p key hb, Inr ()))"

definition Backend_delivered :: "header \<Rightarrow> 's backend \<Rightarrow> 's backend" where
  "Backend_delivered hdr b =
     (if h_op hdr = RW then
        (case bk_connection (reply_key hdr) b of
           None \<Rightarrow> b
         | Some c \<Rightarrow> b\<lparr>bk_connections :=
             update_first (reply_key hdr) (Connection_delivered (h_len hdr) c) (bk_connections b)\<rparr>)
      else b)"

definition Backend_rescan :: "'s backend \<Rightarrow> 's backend" where
  "Backend_rescan b = b\<lparr>bk_listener_retry := bk_listener_retry b \<or> bk_next_listener b \<noteq> 0\<rparr>"

section \<open>The listener sweep and the turns of the flows\<close>

text \<open>\<open>Range<u32>::find\<close>: the range is its start, its end \<open>u32::MAX\<close>.\<close>

function ports_find :: "(u32 \<Rightarrow> bool) \<Rightarrow> u32 \<Rightarrow> u32 \<times> u32 option" where
  "ports_find good p =
     (if p = - 1 then (p, None)
      else if good p then (p + 1, Some p)
      else ports_find good (p + 1))"
  by pat_completeness auto
termination
proof (relation "measure (\<lambda>(good, p). 2 ^ 32 - unat p)")
  fix good :: "u32 \<Rightarrow> bool" and p :: u32
  assume "p \<noteq> - 1"
  then have "unat (p + 1) = unat p + 1" by (rule unat_plus_one)
  moreover have "unat (p + 1) < 2 ^ 32"
    using unsigned_less[of "p + 1", where 'a = nat] by simp
  ultimately show "((good, p + 1), good, p) \<in> measure (\<lambda>(good, p). 2 ^ 32 - unat p)"
    by simp
qed simp

declare ports_find.simps [simp del]

definition accept_one ::
    "('s, 'h) vsock_host \<Rightarrow> u32 \<Rightarrow> nat \<Rightarrow> 'h \<times> 's backend \<Rightarrow>
     ('h \<times> 's backend) \<times> (device_error + unit)" where
  "accept_one env guest l = (\<lambda>(h, b).
     case vh_accept env l h of
       (h, Inl e) \<Rightarrow>
         (if e = WouldBlock then ((h, b), Inr ())
          else if e = Interrupted then ((h, b\<lparr>bk_listener_retry := True\<rparr>), Inr ())
          else ((h, b), Inl (Fatal ''vsock listener accept'')))
     | (h, Inr s) \<Rightarrow>
         (let b = b\<lparr>bk_listener_retry := True\<rparr> in
          case ports_find (\<lambda>p. mp_connects (bk_mappings b) p = None) (bk_port b) of
            (port, None) \<Rightarrow> ((h, b\<lparr>bk_port := port\<rparr>), Inr ())
          | (port, Some host) \<Rightarrow>
              (let b = b\<lparr>bk_port := port\<rparr> in
               case vh_set_nonblocking env s of
                 (s, Inl _) \<Rightarrow> ((h, b), Inl (Fatal ''vsock nonblocking accept''))
               | (s, Inr _) \<Rightarrow>
                   (let key = \<lparr>k_guest = guest, k_host = host\<rparr> in
                    case connect_flow env s AwaitResponse key (bk_cid b) h of
                      (h, Inl e) \<Rightarrow> ((h, b), Inl e)
                    | (h, Inr c) \<Rightarrow>
                        ((h, b\<lparr>bk_outgoing := bk_outgoing b @ [Connection_packet REQUEST 0 [] c],
                           bk_connections := bk_connections b @ [(key, c)]\<rparr>), Inr ())))))"

fun accept_sweep ::
    "('s, 'h) vsock_host \<Rightarrow> nat \<Rightarrow> 'h \<times> 's backend \<Rightarrow> ('h \<times> 's backend) \<times> (device_error + unit)" where
  "accept_sweep env 0 (h, b) = ((h, b), Inr ())"
| "accept_sweep env (Suc n) (h, b) =
     (case get_at (mp_listeners (bk_mappings b)) (bk_next_listener b) of
        None \<Rightarrow> ((h, b), Inr ())
      | Some (guest, l) \<Rightarrow>
          (if length (bk_connections b) \<ge> MAX_CONNECTIONS \<or> \<not> can_receive b then ((h, b), Inr ())
           else case accept_one env guest l (h, b\<lparr>bk_next_listener := bk_next_listener b + 1\<rparr>) of
             (hb, Inl e) \<Rightarrow> (hb, Inl e)
           | (hb, Inr _) \<Rightarrow> accept_sweep env n hb))"

text \<open>One turn: the flow leaves the front of the table and goes to the back, or is closed.\<close>

definition drive_turn ::
    "('s, 'h) vsock_host \<Rightarrow> vsock_key \<Rightarrow> 's connection \<Rightarrow> 'h \<times> 's backend \<Rightarrow> ('h \<times> 's backend) \<times> bool" where
  "drive_turn env key c = (\<lambda>(h, b).
     case Connection_drive (vh_sock env) (c, bk_outgoing b) of
       ((c, out), Inr (False, runnable)) \<Rightarrow>
         ((h, b\<lparr>bk_outgoing := out, bk_connections := bk_connections b @ [(key, c)]\<rparr>), runnable)
     | ((c, out), _) \<Rightarrow>
         ((drop_connection env c h,
           b\<lparr>bk_outgoing := without_key key out @ [Connection_packet RST 0 [] c]\<rparr>), True))"

fun drive_flows ::
    "('s, 'h) vsock_host \<Rightarrow> nat \<Rightarrow> bool \<Rightarrow> 'h \<times> 's backend \<Rightarrow> ('h \<times> 's backend) \<times> bool" where
  "drive_flows env 0 again hb = (hb, again)"
| "drive_flows env (Suc n) again (h, b) =
     (if length (bk_outgoing b) + 2 > MAX_PENDING then ((h, b), again)
      else case bk_connections b of
        [] \<Rightarrow> ((h, b), again)
      | (key, c) # rest \<Rightarrow>
          (case drive_turn env key c (h, b\<lparr>bk_connections := rest\<rparr>) of
             (hb, a) \<Rightarrow> drive_flows env n (again \<or> a) hb))"

definition Backend_drive ::
    "('s, 'h) vsock_host \<Rightarrow> 'h \<times> 's backend \<Rightarrow> ('h \<times> 's backend) \<times> (device_error + bool)" where
  "Backend_drive env hb =
     (case accept_sweep env IO_BUDGET hb of
        (hb, Inl e) \<Rightarrow> (hb, Inl e)
      | ((h, b), Inr _) \<Rightarrow>
          (let (b, again) =
             (if bk_next_listener b = length (mp_listeners (bk_mappings b)) then
                (b\<lparr>bk_next_listener := 0, bk_listener_retry := False\<rparr>, bk_listener_retry b)
              else (b, length (bk_connections b) < MAX_CONNECTIONS \<and> can_receive b)) in
           case drive_flows env (length (bk_connections b)) again (h, b) of
             (hb, again) \<Rightarrow> (hb, Inr again)))"

section \<open>What a turn of a flow may emit\<close>

text \<open>\<open>emits c out out' n\<close>: at most \<open>n\<close> packets were appended, all of them the flow's own.\<close>

definition emits :: "'s connection \<Rightarrow> packet list \<Rightarrow> packet list \<Rightarrow> nat \<Rightarrow> bool" where
  "emits c out out' n \<longleftrightarrow>
     (\<exists>new. out' = out @ new \<and> length new \<le> n \<and> (\<forall>p\<in>set new. reply_key (p_header p) = c_key c))"

definition conn_ok :: "'s connection \<Rightarrow> bool" where
  "conn_ok c \<longleftrightarrow> length (pending c) \<le> BUFFER_SIZE \<and> (c_state c \<noteq> Established \<longrightarrow> pending c = [])"

lemma emits_refl [simp]: "emits c out out n"
  by (simp add: emits_def)

lemma emits_one [simp]: "c_key d = c_key c \<Longrightarrow> emits c out (out @ [Connection_packet op f pl d]) (Suc n)"
  by (auto simp: emits_def Connection_packet_def reply_key_def)

lemma emits_trans:
  "emits c out out1 n \<Longrightarrow> emits d out1 out2 m \<Longrightarrow> c_key d = c_key c \<Longrightarrow> n + m \<le> k \<Longrightarrow> emits c out out2 k"
  unfolding emits_def by (elim exE conjE) (auto intro!: exI[of _ "_ @ _"])

lemma emits_mono: "emits c out out' n \<Longrightarrow> n \<le> k \<Longrightarrow> emits c out out' k"
  by (auto simp: emits_def)

lemma emits_length: "emits c out out' n \<Longrightarrow> length out' \<le> length out + n"
  by (auto simp: emits_def)

lemma emits_without: "emits c out out' n \<Longrightarrow> without_key (c_key c) out' = without_key (c_key c) out"
  by (auto simp: emits_def without_key_def filter_empty_conv)

lemma length_without_key: "length (without_key key out) \<le> length out"
  by (simp add: without_key_def)

definition same_flow :: "'s connection \<Rightarrow> 's connection \<Rightarrow> bool" where
  "same_flow c c' \<longleftrightarrow> c_key c' = c_key c \<and> c_cid c' = c_cid c \<and> registration c' = registration c"

lemma drive_connecting_emits:
  assumes "drive_connecting so (c, out) = ((c', out'), r)" "conn_ok c"
  shows "same_flow c c' \<and> emits c out out' 1 \<and> conn_ok c' \<and> (out' = out \<or> pending c' = []) \<and>
    (r = Inr True \<longrightarrow> c_state c' \<noteq> Connecting)"
  using assms
  by (auto simp: drive_connecting_def same_flow_def conn_ok_def Let_def
      split: if_splits prod.splits sum.splits option.splits)

lemma drive_write_emits:
  assumes "drive_write so (c, out) = ((c', out'), r)" "conn_ok c"
  shows "same_flow c c' \<and> emits c out out' 1 \<and> conn_ok c' \<and> (pending c = [] \<longrightarrow> out' = out) \<and>
    c_state c' = c_state c"
  using assms
  by (auto simp: drive_write_def same_flow_def conn_ok_def Let_def split: if_splits prod.splits sum.splits)

lemma drive_shutdown_emits:
  "drive_shutdown so c = (c', r) \<Longrightarrow>
     same_flow c c' \<and> pending c' = pending c \<and> c_state c' = c_state c"
  by (auto simp: drive_shutdown_def same_flow_def split: if_splits prod.splits sum.splits)

lemma drive_socket_read_emits:
  assumes "drive_socket_read so credit a (c, out) = ((c', out'), r)"
  shows "same_flow c c' \<and> pending c' = pending c \<and> c_state c' = c_state c \<and>
    emits c out out' 1 \<and> (credit = 0 \<and> \<not> host_eof c' \<longrightarrow> out' = out)"
  using assms
  by (auto simp: drive_socket_read_def same_flow_def Let_def split: if_splits prod.splits sum.splits)

lemma drive_read_emits:
  assumes "drive_read so a (c, out) = ((c', out'), r)"
  shows "same_flow c c' \<and> pending c' = pending c \<and> c_state c' = c_state c \<and> emits c out out' 1"
proof (cases "host_eof c \<or> guest_shutdown c AND RECEIVE \<noteq> 0")
  case True
  then show ?thesis using assms by (auto simp: drive_read_def same_flow_def)
next
  case open_: False
  define credit where "credit = unat (conn_credit c)"
  show ?thesis
  proof (cases "credit > 0 \<and> lookahead c \<noteq> None")
    case True
    then show ?thesis
      using assms open_ by (auto simp: drive_read_def same_flow_def Let_def credit_def)
  next
    case False
    define st where "st = (if lookahead c = None then drive_socket_read so credit a (c, out)
      else ((c, out), Inr a))"
    obtain c1 out1 r1 where s1: "st = ((c1, out1), r1)" by (cases st) auto
    have 1: "same_flow c c1 \<and> pending c1 = pending c \<and> c_state c1 = c_state c \<and>
        emits c out out1 1 \<and> (credit = 0 \<and> \<not> host_eof c1 \<longrightarrow> out1 = out)"
      using s1 drive_socket_read_emits[of so credit a c out c1 out1 r1]
      by (auto simp: st_def same_flow_def split: if_splits)
    have 2: "(c', out') = (c1, out1) \<or> c' = c1\<lparr>credit_requested := True\<rparr> \<and>
        out' = out1 @ [Connection_packet CREDIT_REQUEST 0 [] c1] \<and> credit = 0 \<and> \<not> host_eof c1"
      using assms open_ False s1
      by (auto simp: drive_read_def Let_def st_def credit_def
          split: if_splits option.splits prod.splits sum.splits)
    from 1 2 show ?thesis by (auto simp: same_flow_def)
  qed
qed

lemma drive_established_emits:
  assumes "drive_established so (c, out) = ((c', out'), r)" "conn_ok c" "c_state c = Established"
  shows "same_flow c c' \<and> conn_ok c' \<and> emits c out out' (if pending c = [] then 1 else 2)"
proof -
  obtain c1 out1 r1 where w: "drive_write so (c, out) = ((c1, out1), r1)" by (metis prod.collapse)
  note W = drive_write_emits[OF w assms(2)]
  then have w1: "emits c out out1 (if pending c = [] then 0 else 1)" by auto
  obtain c2 r2 where sh: "drive_shutdown so c1 = (c2, r2)" by (metis prod.collapse)
  note S = drive_shutdown_emits[OF sh]
  have key: "c_key c2 = c_key c" using W S by (simp add: same_flow_def)
  consider (early) "c' = c1 \<or> c' = c2" "out' = out1"
    | (rst) "c' = c2" "out' = out1 @ [Connection_packet RST 0 [] c2]"
    | (read) a r3 where "drive_read so a (c2, out1) = ((c', out'), r3)"
    using assms(1) w sh by (auto simp: drive_established_def split: sum.splits if_splits)
  then have "same_flow c c' \<and> conn_ok c' \<and> emits c2 out1 out' 1"
  proof cases
    case early
    then show ?thesis using W S by (auto simp: same_flow_def conn_ok_def)
  next
    case rst
    then show ?thesis using W S by (auto simp: same_flow_def conn_ok_def)
  next
    case read
    from drive_read_emits[OF this] show ?thesis using W S by (auto simp: same_flow_def conn_ok_def)
  qed
  then show ?thesis using emits_trans[OF w1 _ key] by auto
qed

lemma Connection_drive_emits:
  assumes "Connection_drive so (c, out) = ((c', out'), r)" "conn_ok c"
  shows "same_flow c c'" "emits c out out' 2" "conn_ok c'"
proof -
  have "same_flow c c' \<and> emits c out out' 2 \<and> conn_ok c'"
  proof (cases "c_state c = AwaitResponse")
    case True
    then show ?thesis
      using assms by (auto simp: Connection_drive_def host_closed_def same_flow_def conn_ok_def
          split: prod.splits sum.splits)
  next
    case False
    obtain c1 out1 r1 where cn: "drive_connecting so (c, out) = ((c1, out1), r1)" by (metis prod.collapse)
    note C = drive_connecting_emits[OF cn assms(2)]
    have key: "c_key c1 = c_key c" using C by (simp add: same_flow_def)
    show ?thesis
    proof (cases "r1 = Inr True")
      case True
      then have e: "drive_established so (c1, out1) = ((c', out'), r)"
        using assms(1) cn False by (simp add: Connection_drive_def)
      have "c_state c1 = Established"
      proof (cases "c_state c = Connecting")
        case st: True
        then show ?thesis using cn True
          by (auto simp: drive_connecting_def Let_def split: prod.splits sum.splits option.splits if_splits)
      next
        case st: False
        then show ?thesis using cn False by (cases "c_state c") (auto simp: drive_connecting_def)
      qed
      note E = drive_established_emits[OF e _ this]
      have "emits c out out1 (if pending c1 = [] then 1 else 0)"
        using C by auto
      from emits_trans[OF this _ key, of out' "if pending c1 = [] then 1 else 2" 2]
      show ?thesis using E C by (auto simp: same_flow_def)
    next
      case no: False
      have "c' = c1 \<and> out' = out1"
        using assms(1) cn False no
        by (cases r1) (auto simp: Connection_drive_def split: bool.splits)
      then show ?thesis using C emits_mono[of c out out1 1 2] by simp
    qed
  qed
  then show "same_flow c c'" "emits c out out' 2" "conn_ok c'" by auto
qed

lemma Connection_receive_keeps:
  assumes "Connection_receive p c = (c', Inr r)" "conn_ok c"
  shows "same_flow c c' \<and> conn_ok c'"
proof -
  define c1 where "c1 = receive_credit (p_header p) c"
  have op: "receive_op p c1 = (c', Inr r)"
    using assms by (auto simp: Connection_receive_def Let_def c1_def split: if_splits)
  have "same_flow c c1 \<and> conn_ok c1"
    using assms(2) by (simp add: c1_def receive_credit_def Let_def same_flow_def conn_ok_def)
  then show ?thesis
    using op by (auto simp: receive_op_def Let_def same_flow_def conn_ok_def split: if_splits)
qed

lemma conn_ok_new: "conn_ok (Connection_new reg s st key cid)"
  by (simp add: conn_ok_def Connection_new_def)


section \<open>The backend's invariant\<close>

text \<open>
  A flow the guest opened goes to a mapped port; a flow the host opened has a port the sweep
  handed out, below the next one and never mapped. Hence no two flows share a key.
\<close>

definition port_used :: "'s backend \<Rightarrow> vsock_key \<Rightarrow> bool" where
  "port_used b k \<longleftrightarrow> mp_connects (bk_mappings b) (k_host k) \<noteq> None \<or>
     FIRST_HOST_PORT \<le> k_host k \<and> k_host k < bk_port b \<and> mp_connects (bk_mappings b) (k_host k) = None"

definition backend_ok :: "'s backend \<Rightarrow> bool" where
  "backend_ok b \<longleftrightarrow>
     length (bk_connections b) \<le> MAX_CONNECTIONS \<and> distinct (map fst (bk_connections b)) \<and>
     FIRST_HOST_PORT \<le> bk_port b \<and> length (bk_outgoing b) \<le> MAX_PENDING \<and>
     (\<forall>(k, c)\<in>set (bk_connections b). c_key c = k \<and> conn_ok c \<and> port_used b k)"

lemma backend_okI:
  assumes "length (bk_connections b) \<le> MAX_CONNECTIONS" "distinct (map fst (bk_connections b))"
    and "FIRST_HOST_PORT \<le> bk_port b" "length (bk_outgoing b) \<le> MAX_PENDING"
    and "\<And>k c. (k, c) \<in> set (bk_connections b) \<Longrightarrow> c_key c = k \<and> conn_ok c \<and> port_used b k"
  shows "backend_ok b"
  using assms by (auto simp: backend_ok_def)

lemma backend_okD:
  assumes "backend_ok b"
  shows "length (bk_connections b) \<le> MAX_CONNECTIONS" "distinct (map fst (bk_connections b))"
    and "FIRST_HOST_PORT \<le> bk_port b" "length (bk_outgoing b) \<le> MAX_PENDING"
    and "(k, c) \<in> set (bk_connections b) \<Longrightarrow> c_key c = k \<and> conn_ok c \<and> port_used b k"
  using assms by (auto simp: backend_ok_def)

lemma Backend_new_ok: "Backend_new env cid mp h = (h', Inr b) \<Longrightarrow> backend_ok b"
  by (auto simp: Backend_new_def backend_ok_def split: prod.splits sum.splits)

lemma update_first_keys: "map fst (update_first key c l) = map fst l"
  by (induction key c l rule: update_first.induct) auto

lemma length_update_first [simp]: "length (update_first key c l) = length l"
  by (metis update_first_keys length_map)

lemma update_first_in:
  "(k, d) \<in> set (update_first key c l) \<Longrightarrow> (k, d) \<in> set l \<or> (k, d) = (key, c)"
  by (induction key c l rule: update_first.induct) (auto split: if_splits)

lemma bk_connection_Some:
  "bk_connection key b = Some c \<Longrightarrow> (key, c) \<in> set (bk_connections b)"
  by (auto simp: bk_connection_def find_Some_iff) (metis nth_mem)

lemma bk_connection_None:
  "bk_connection key b = None \<longleftrightarrow> key \<notin> fst ` set (bk_connections b)"
  by (force simp: bk_connection_def find_None_iff)

lemma distinct_map_filter: "distinct (map f xs) \<Longrightarrow> distinct (map f (filter P xs))"
  by (induction xs) auto

lemma Backend_remove_ok:
  assumes "backend_ok b" "Backend_remove env key (h, b) = (h', b')"
  shows "backend_ok b'" "length (bk_outgoing b') \<le> length (bk_outgoing b)"
    "bk_mappings b' = bk_mappings b"
proof -
  have b': "b' = b\<lparr>bk_connections := filter (\<lambda>(k, _). k \<noteq> key) (bk_connections b),
      bk_outgoing := without_key key (bk_outgoing b)\<rparr>"
    using assms(2) by (simp add: Backend_remove_def)
  note D = backend_okD[OF assms(1)]
  show len: "length (bk_outgoing b') \<le> length (bk_outgoing b)" "bk_mappings b' = bk_mappings b"
    by (simp_all add: b' length_without_key)
  show "backend_ok b'"
  proof (rule backend_okI)
    show "length (bk_connections b') \<le> MAX_CONNECTIONS"
      using D(1) by (simp add: b' order_trans[OF length_filter_le])
    show "distinct (map fst (bk_connections b'))" using D(2) by (simp add: b' distinct_map_filter)
    show "FIRST_HOST_PORT \<le> bk_port b'" using D(3) by (simp add: b')
    show "length (bk_outgoing b') \<le> MAX_PENDING" using D(4) len by simp
    fix k c assume "(k, c) \<in> set (bk_connections b')"
    then show "c_key c = k \<and> conn_ok c \<and> port_used b' k"
      using D(5) by (auto simp: b' port_used_def)
  qed
qed

text \<open>Adding a flow whose key is new, with room for it.\<close>

lemma add_flow_ok:
  assumes "backend_ok b" "key \<notin> fst ` set (bk_connections b)"
    and "length (bk_connections b) < MAX_CONNECTIONS"
    and "c_key c = key" "conn_ok c" "port_used b' key"
    and b': "bk_connections b' = bk_connections b @ [(key, c)]" "bk_mappings b' = bk_mappings b"
    "bk_port b \<le> bk_port b'" "length (bk_outgoing b') \<le> MAX_PENDING"
  shows "backend_ok b'"
proof (rule backend_okI)
  note D = backend_okD[OF assms(1)]
  show "length (bk_connections b') \<le> MAX_CONNECTIONS" using assms(3) by (simp add: b')
  show "distinct (map fst (bk_connections b'))" using D(2) assms(2) by (simp add: b')
  show "FIRST_HOST_PORT \<le> bk_port b'" using D(3) b'(3) by (rule order_trans)
  show "length (bk_outgoing b') \<le> MAX_PENDING" by (rule b')
  fix k d assume "(k, d) \<in> set (bk_connections b')"
  then consider "(k, d) \<in> set (bk_connections b)" | "(k, d) = (key, c)" by (auto simp: b')
  then show "c_key d = k \<and> conn_ok d \<and> port_used b' k"
  proof cases
    case 1
    from D(5)[OF this] show ?thesis
      using b'(2,3) by (auto simp: port_used_def dest: order_less_le_trans)
  qed (use assms in simp)
qed

lemma connect_flow_Inr:
  "connect_flow env s st key cid h = (h', Inr c) \<Longrightarrow> c_key c = key \<and> conn_ok c"
  by (auto simp: connect_flow_def Connection_new_def conn_ok_def split: prod.splits sum.splits)

lemma backend_request_cases:
  assumes "backend_request env hdr key (h, b) = ((h', b'), r)"
  obtains (same) "b' = b"
  | (new) c where "bk_connection key b = None" "length (bk_connections b) < MAX_CONNECTIONS"
      "mp_connects (bk_mappings b) (k_host key) \<noteq> None" "c_key c = key" "conn_ok c"
      "b' = b\<lparr>bk_connections := bk_connections b @ [(key, c)]\<rparr>"
proof (cases "b' = b")
  case False
  then obtain path h1 s h2 c where go: "bk_connection key b = None"
      "length (bk_connections b) < MAX_CONNECTIONS" "mp_connects (bk_mappings b) (k_host key) = Some path"
    and c: "connect_flow env s Connecting key (bk_cid b) h1 = (h2, Inr c)"
      "b' = b\<lparr>bk_connections := bk_connections b @ [(key, c)]\<rparr>"
    using assms
    by (auto simp: backend_request_def split: if_split_asm option.split_asm prod.split_asm sum.split_asm)
  from connect_flow_Inr[OF c(1)] go c(2) show ?thesis by (intro new) auto
qed (rule same)

lemma backend_request_ok:
  assumes ok: "backend_ok b" and eq: "backend_request env hdr key (h, b) = ((h', b'), r)"
  shows "backend_ok b'" "bk_outgoing b' = bk_outgoing b"
proof -
  from eq have "backend_ok b' \<and> bk_outgoing b' = bk_outgoing b"
  proof (cases rule: backend_request_cases)
    case (new c)
    have "backend_ok b'"
      by (rule add_flow_ok[OF ok _ new(2) new(4,5)])
        (use new backend_okD(4)[OF ok] in \<open>simp_all add: bk_connection_None port_used_def\<close>)
    then show ?thesis using new by simp
  qed (use ok in simp)
  then show "backend_ok b'" "bk_outgoing b' = bk_outgoing b" by auto
qed

text \<open>Replacing a flow by a later state of itself.\<close>

lemma update_flow_ok:
  assumes ok: "backend_ok b" and c: "bk_connection key b = Some c"
    and same: "c_key c' = c_key c" "conn_ok c'"
    and b': "b' = b\<lparr>bk_connections := update_first key c' (bk_connections b), bk_outgoing := out\<rparr>"
    and out: "length out \<le> MAX_PENDING"
  shows "backend_ok b'"
proof (rule backend_okI)
  note D = backend_okD[OF ok]
  show "length (bk_connections b') \<le> MAX_CONNECTIONS" using D(1) by (simp add: b')
  show "distinct (map fst (bk_connections b'))" using D(2) by (simp add: b' update_first_keys)
  show "FIRST_HOST_PORT \<le> bk_port b'" using D(3) by (simp add: b')
  show "length (bk_outgoing b') \<le> MAX_PENDING" using out by (simp add: b')
  fix k d assume "(k, d) \<in> set (bk_connections b')"
  then consider "(k, d) \<in> set (bk_connections b)" | "(k, d) = (key, c')"
    by (auto simp: b' dest: update_first_in)
  then show "c_key d = k \<and> conn_ok d \<and> port_used b' k"
  proof cases
    case 1
    from D(5)[OF this] show ?thesis by (simp add: b' port_used_def)
  next
    case 2
    from D(5)[OF bk_connection_Some[OF c]] show ?thesis using 2 same by (simp add: b' port_used_def)
  qed
qed

lemma push_ok:
  assumes "backend_ok b" "length (bk_outgoing b) < MAX_PENDING"
  shows "backend_ok (b\<lparr>bk_outgoing := bk_outgoing b @ [p]\<rparr>)"
  using assms by (auto simp: backend_ok_def port_used_def)

lemma removed_twice:
  "backend_ok b \<Longrightarrow> length (bk_outgoing b) < MAX_PENDING \<Longrightarrow>
     bk_connections b2 = update_first key c (bk_connections b) \<Longrightarrow> b2 = b\<lparr>bk_connections := bk_connections b2\<rparr> \<Longrightarrow>
     Backend_remove env key (h, b2) = (h', b') \<Longrightarrow>
     backend_ok (b'\<lparr>bk_outgoing := bk_outgoing b' @ [p]\<rparr>)"
proof -
  assume ok: "backend_ok b" "length (bk_outgoing b) < MAX_PENDING"
    and b2: "bk_connections b2 = update_first key c (bk_connections b)" "b2 = b\<lparr>bk_connections := bk_connections b2\<rparr>"
    and rm: "Backend_remove env key (h, b2) = (h', b')"
  have "filter (\<lambda>(k, _). k \<noteq> key) (update_first key c l) = filter (\<lambda>(k, _). k \<noteq> key) l" for l :: "(vsock_key \<times> _) list"
    by (induction key c l rule: update_first.induct) auto
  then have b': "b' = snd (Backend_remove env key (h, b))"
    using rm b2 by (auto simp: Backend_remove_def)
  obtain h0 where h0: "Backend_remove env key (h, b) = (h0, b')" using b' by (metis prod.collapse)
  from Backend_remove_ok[OF ok(1) h0] ok(2) show ?thesis by (intro push_ok) auto
qed


lemma backend_respond_ok:
  assumes ok: "backend_ok b" and room: "length (bk_outgoing b) < MAX_PENDING"
    and eq: "backend_respond env p key (h, b) = (h', b')"
  shows "backend_ok b'"
proof -
  define reset where "reset = Header_reply (p_header p) RST"
  have refuse: "backend_ok b'"
    if "backend_ok b2" "length (bk_outgoing b2) < MAX_PENDING"
      "(case Backend_remove env key (h, b2) of (h, b) \<Rightarrow>
         (h, b\<lparr>bk_outgoing := bk_outgoing b @ [reset]\<rparr>)) = (h', b')" for b2
  proof -
    obtain h3 b3 where rm: "Backend_remove env key (h, b2) = (h3, b3)" by (metis prod.collapse)
    from Backend_remove_ok[OF that(1) rm] that show ?thesis using rm push_ok[of b3 reset] by auto
  qed
  show ?thesis
  proof (cases "if socket_type (p_header p) = STREAM then bk_connection key b else None")
    case None
    then show ?thesis using eq refuse[OF ok room]
      by (simp add: backend_respond_def Let_def reset_def)
  next
    case (Some c)
    then have c: "bk_connection key b = Some c" "socket_type (p_header p) = STREAM"
      by (auto split: if_splits)
    obtain c' r where rc: "Connection_receive p c = (c', r)" by (metis prod.collapse)
    show ?thesis
    proof (cases r)
      case (Inl e)
      obtain h3 b3 where rm: "Backend_remove env key
          (h, b\<lparr>bk_connections := update_first key c' (bk_connections b)\<rparr>) = (h3, b3)"
        by (metis prod.collapse)
      have "b' = b3\<lparr>bk_outgoing := bk_outgoing b3 @ [reset]\<rparr>"
        using eq c rc Inl rm by (simp add: backend_respond_def Let_def reset_def)
      then show ?thesis using removed_twice[OF ok room _ _ rm] by simp
    next
      case (Inr resp)
      have key: "conn_ok c" using backend_okD(5)[OF ok bk_connection_Some[OF c(1)]] by simp
      note K = Connection_receive_keeps[OF rc[unfolded Inr] key]
      define out where "out = (if h_op (p_header p) = SHUTDOWN \<and> h_flags (p_header p) AND RECEIVE \<noteq> 0
        then filter (\<lambda>q. reply_key (p_header q) \<noteq> key \<or> h_op (p_header q) \<noteq> RW) (bk_outgoing b)
        else bk_outgoing b) @ (case resp of None \<Rightarrow> [] | Some q \<Rightarrow> [q])"
      have "length out \<le> Suc (length (bk_outgoing b))"
        by (auto simp: out_def split: option.split intro: le_SucI)
      then have "length out \<le> MAX_PENDING" using room by simp
      moreover have "b' = b\<lparr>bk_connections := update_first key c' (bk_connections b), bk_outgoing := out\<rparr>"
        using eq c rc Inr by (simp add: backend_respond_def Let_def out_def cong: if_cong)
      ultimately show ?thesis
        using update_flow_ok[OF ok c(1)] K by (simp add: same_flow_def)
    qed
  qed
qed

lemma Backend_receive_ok:
  assumes ok: "backend_ok b" and room: "h_op (p_header p) = RST \<or> can_receive b"
    and eq: "Backend_receive env p (h, b) = ((h', b'), r)"
  shows "backend_ok b'"
proof -
  define key where "key = \<lparr>k_guest = src_port (p_header p), k_host = dst_port (p_header p)\<rparr>"
  consider (same) "b' = b"
    | (rst) "Backend_remove env key (h, b) = (h', b')"
    | (req) r' where "backend_request env (p_header p) key (h, b) = ((h', b'), r')"
    | (respond) h1 b1 where "backend_request env (p_header p) key (h, b) = ((h1, b1), Inr ())"
      "backend_respond env p key (h1, b1) = (h', b')" "h_op (p_header p) \<noteq> RST"
    using eq
    by (auto simp: Backend_receive_def Let_def key_def[symmetric]
        split: if_split_asm prod.split_asm sum.split_asm)
  then show ?thesis
  proof cases
    case rst
    then show ?thesis by (rule Backend_remove_ok(1)[OF ok])
  next
    case req
    then show ?thesis by (rule backend_request_ok(1)[OF ok])
  next
    case respond
    note R = backend_request_ok[OF ok respond(1)]
    show ?thesis
      by (rule backend_respond_ok[OF R(1) _ respond(2)])
        (use room respond(3) R(2) in \<open>simp add: can_receive_def\<close>)
  qed (use ok in simp)
qed

lemma Backend_delivered_ok: "backend_ok b \<Longrightarrow> backend_ok (Backend_delivered hdr b)"
proof (cases "h_op hdr = RW \<and> bk_connection (reply_key hdr) b \<noteq> None")
  case True
  assume ok: "backend_ok b"
  obtain c where c: "bk_connection (reply_key hdr) b = Some c" using True by auto
  have "conn_ok c" using backend_okD(5)[OF ok bk_connection_Some[OF c]] by simp
  then show ?thesis
    using True c backend_okD(4)[OF ok]
    by (intro update_flow_ok[OF ok c, where c' = "Connection_delivered (h_len hdr) c"
          and out = "bk_outgoing b"])
      (simp_all add: Backend_delivered_def Connection_delivered_def conn_ok_def)
qed (auto simp: Backend_delivered_def split: option.split)

lemma Backend_rescan_ok: "backend_ok b \<Longrightarrow> backend_ok (Backend_rescan b)"
  by (simp add: backend_ok_def Backend_rescan_def port_used_def)

lemma ports_find_props:
  "ports_find good p = (q, r) \<Longrightarrow>
     p \<le> q \<and> (\<forall>x. r = Some x \<longrightarrow> p \<le> x \<and> x < q \<and> good x)"
proof (induction good p rule: ports_find.induct)
  case (1 good p)
  show ?case
  proof (cases "p = - 1")
    case True
    then show ?thesis using 1(2) by (subst (asm) ports_find.simps) simp
  next
    case False
    then have up: "p < p + 1" using unat_plus_one[OF False] by (simp add: word_less_nat_alt)
    show ?thesis
    proof (cases "good p")
      case True
      then have "q = p + 1" "r = Some p" using 1(2) False by (subst (asm) (1) ports_find.simps, simp)+
      then show ?thesis using up True by auto
    next
      case bad: False
      then have "ports_find good (p + 1) = (q, r)" using 1(2) False bad by (subst (asm) ports_find.simps) simp
      moreover have "p \<le> z" if "p + 1 \<le> z" for z
        using order_less_imp_le[OF up] that by (rule order_trans)
      ultimately show ?thesis using 1(1)[OF False bad] by simp
    qed
  qed
qed

lemma ports_ok:
  assumes "backend_ok b" "ports_find (\<lambda>p. mp_connects (bk_mappings b) p = None) (bk_port b) = (port, r)"
    and "b' = b\<lparr>bk_listener_retry := x, bk_port := port\<rparr>"
  shows "backend_ok b'"
proof (rule backend_okI)
  note D = backend_okD[OF assms(1)]
  have le: "bk_port b \<le> port" using ports_find_props[OF assms(2)] by simp
  show "length (bk_connections b') \<le> MAX_CONNECTIONS" "distinct (map fst (bk_connections b'))"
    "length (bk_outgoing b') \<le> MAX_PENDING"
    using D(1,2,4) by (simp_all add: assms(3))
  show "FIRST_HOST_PORT \<le> bk_port b'" using D(3) le by (simp add: assms(3))
  fix k c assume "(k, c) \<in> set (bk_connections b')"
  then have "(k, c) \<in> set (bk_connections b)" by (simp add: assms(3))
  from D(5)[OF this] show "c_key c = k \<and> conn_ok c \<and> port_used b' k"
    using le by (simp add: assms(3) port_used_def) (metis order_less_le_trans)
qed

lemma accept_one_ok:
  assumes ok: "backend_ok b" and room: "length (bk_connections b) < MAX_CONNECTIONS" "can_receive b"
    and eq: "accept_one env guest l (h, b) = ((h', b'), r)"
  shows "backend_ok b'"
proof -
  obtain port host where pf:
    "ports_find (\<lambda>p. mp_connects (bk_mappings b) p = None) (bk_port b) = (port, host)" by (metis prod.collapse)
  note P = ports_find_props[OF pf]
  define b1 where "b1 = b\<lparr>bk_listener_retry := True, bk_port := port\<rparr>"
  have ok1: "backend_ok b1" by (rule ports_ok[OF ok pf b1_def])
  obtain h1 acc where ac: "vh_accept env l h = (h1, acc)" by (metis prod.collapse)
  consider (same) x where "b' = b\<lparr>bk_listener_retry := x\<rparr>"
    | (port) "b' = b1"
    | (new) x c s h2 where "host = Some x"
      "connect_flow env s AwaitResponse \<lparr>k_guest = guest, k_host = x\<rparr> (bk_cid b) h1 = (h2, Inr c)"
      "b' = b1\<lparr>bk_outgoing := bk_outgoing b @ [Connection_packet REQUEST 0 [] c],
         bk_connections := bk_connections b @ [(\<lparr>k_guest = guest, k_host = x\<rparr>, c)]\<rparr>"
  proof (cases acc)
    case (Inl e)
    then have "\<exists>x. b' = b\<lparr>bk_listener_retry := x\<rparr>"
      using eq ac by (auto simp: accept_one_def split: if_split_asm intro: exI[of _ "bk_listener_retry b"])
    then show ?thesis using that(1) by blast
  next
    case (Inr s)
    show ?thesis
    proof (cases host)
      case None
      then have "b' = b1" using eq ac Inr pf by (simp add: accept_one_def b1_def)
      then show ?thesis by (rule that(2))
    next
      case (Some x)
      obtain s1 nb where nb: "vh_set_nonblocking env s = (s1, nb)" by (metis prod.collapse)
      obtain h2 cf where cf:
        "connect_flow env s1 AwaitResponse \<lparr>k_guest = guest, k_host = x\<rparr> (bk_cid b) h1 = (h2, cf)"
        by (metis prod.collapse)
      show ?thesis
      proof (cases "\<exists>u c. nb = Inr u \<and> cf = Inr c")
        case True
        then obtain u c where "nb = Inr u" and c: "cf = Inr c" by auto
        then show ?thesis
          using eq ac Inr pf Some nb cf that(3)[OF Some cf[unfolded c]]
          by (simp add: accept_one_def b1_def Let_def)
      next
        case False
        then have "b' = b1"
          using eq ac Inr pf Some nb cf
          by (cases nb; cases cf) (simp_all add: accept_one_def b1_def Let_def)
        then show ?thesis by (rule that(2))
      qed
    qed
  qed
  then show ?thesis
  proof cases
    case same
    then show ?thesis using ok by (simp add: backend_ok_def port_used_def)
  next
    case port
    then show ?thesis using ok1 by simp
  next
    case (new x c)
    define key where "key = \<lparr>k_guest = guest, k_host = x\<rparr>"
    have x: "bk_port b \<le> x" "x < port" "mp_connects (bk_mappings b) x = None"
      using P new(1) by auto
    have fresh: "key \<notin> fst ` set (bk_connections b)"
    proof
      assume "key \<in> fst ` set (bk_connections b)"
      then obtain d where "(key, d) \<in> set (bk_connections b)" by auto
      from backend_okD(5)[OF ok this] show False
        using x(1,3) by (auto simp: port_used_def key_def)
    qed
    note C = connect_flow_Inr[OF new(2)]
    show ?thesis
    proof (rule add_flow_ok[OF ok fresh room(1)])
      show "c_key c = key" "conn_ok c" using C by (simp_all add: key_def)
      show "port_used b' key"
        using x backend_okD(3)[OF ok] by (simp add: port_used_def key_def new(3) b1_def)
      show "length (bk_outgoing b') \<le> MAX_PENDING" using room(2) by (simp add: new(3) can_receive_def)
      show "bk_port b \<le> bk_port b'" using P by (simp add: new(3) b1_def)
    qed (simp_all add: new(3) b1_def key_def)
  qed
qed

lemma accept_sweep_ok:
  "accept_sweep env n (h, b) = ((h', b'), r) \<Longrightarrow> backend_ok b \<Longrightarrow> backend_ok b'"
proof (induction n arbitrary: h b)
  case (Suc n)
  consider (same) "b' = b"
    | (one) guest l r1 where "length (bk_connections b) < MAX_CONNECTIONS" "can_receive b"
      "accept_one env guest l (h, b\<lparr>bk_next_listener := bk_next_listener b + 1\<rparr>) = ((h', b'), r1)"
    | (more) guest l h1 b1 where "length (bk_connections b) < MAX_CONNECTIONS" "can_receive b"
      "accept_one env guest l (h, b\<lparr>bk_next_listener := bk_next_listener b + 1\<rparr>) = ((h1, b1), Inr ())"
      "accept_sweep env n (h1, b1) = ((h', b'), r)"
    using Suc.prems(1)
    by (auto split: if_split_asm prod.split_asm sum.split_asm option.split_asm)
  then show ?case
  proof cases
    case one
    then show ?thesis
      using Suc.prems(2) by (intro accept_one_ok[OF _ _ _ one(3)]) (auto simp: backend_ok_def port_used_def can_receive_def)
  next
    case more
    have "backend_ok b1"
      using Suc.prems(2) more(1,2)
      by (intro accept_one_ok[OF _ _ _ more(3)]) (auto simp: backend_ok_def port_used_def can_receive_def)
    then show ?thesis by (rule Suc.IH[OF more(4)])
  qed (use Suc.prems in simp)
qed simp

lemma drive_turn_ok:
  assumes ok: "backend_ok b" and b: "bk_connections b = (key, c) # rest"
    and room: "length (bk_outgoing b) + 2 \<le> MAX_PENDING"
    and eq: "drive_turn env key c (h, b\<lparr>bk_connections := rest\<rparr>) = ((h', b'), again)"
  shows "backend_ok b'"
proof -
  note D = backend_okD[OF ok]
  have c: "c_key c = key" "conn_ok c" using D(5)[of key c] b by auto
  obtain c' out r where dr: "Connection_drive (vh_sock env) (c, bk_outgoing b) = ((c', out), r)"
    by (metis prod.collapse)
  note E = Connection_drive_emits[OF dr c(2)]
  have key': "c_key c' = key" using E(1) c(1) by (simp add: same_flow_def)
  consider (open_) "b' = b\<lparr>bk_outgoing := out, bk_connections := rest @ [(key, c')]\<rparr>"
    | (close) "b' = b\<lparr>bk_outgoing := without_key key out @ [Connection_packet RST 0 [] c'],
        bk_connections := rest\<rparr>"
    using eq dr by (auto simp: drive_turn_def split: sum.split_asm bool.split_asm prod.split_asm)
  then show ?thesis
  proof cases
    case open_
    show ?thesis
    proof (rule backend_okI)
      show "length (bk_connections b') \<le> MAX_CONNECTIONS" using D(1) b by (simp add: open_)
      show "distinct (map fst (bk_connections b'))" using D(2) b by (auto simp: open_)
      show "FIRST_HOST_PORT \<le> bk_port b'" using D(3) by (simp add: open_)
      show "length (bk_outgoing b') \<le> MAX_PENDING"
        using room emits_length[OF E(2)] by (simp add: open_)
      fix k d assume "(k, d) \<in> set (bk_connections b')"
      then show "c_key d = k \<and> conn_ok d \<and> port_used b' k"
        using D(5)[of k d] D(5)[of key c] b key' E(3) by (auto simp: open_ port_used_def)
    qed
  next
    case close
    show ?thesis
    proof (rule backend_okI)
      show "length (bk_connections b') \<le> MAX_CONNECTIONS" using D(1) b by (simp add: close)
      show "distinct (map fst (bk_connections b'))" using D(2) b by (auto simp: close)
      show "FIRST_HOST_PORT \<le> bk_port b'" using D(3) by (simp add: close)
      show "length (bk_outgoing b') \<le> MAX_PENDING"
        using room emits_without[OF E(2)] length_without_key[of key "bk_outgoing b"] c(1)
        by (simp add: close)
      fix k d assume "(k, d) \<in> set (bk_connections b')"
      then show "c_key d = k \<and> conn_ok d \<and> port_used b' k"
        using D(5)[of k d] b by (auto simp: close port_used_def)
    qed
  qed
qed

lemma drive_flows_ok:
  "drive_flows env n again (h, b) = ((h', b'), a) \<Longrightarrow> backend_ok b \<Longrightarrow> backend_ok b'"
proof (induction n arbitrary: again h b)
  case (Suc n)
  show ?case
  proof (cases "length (bk_outgoing b) + 2 > MAX_PENDING \<or> bk_connections b = []")
    case True
    then show ?thesis using Suc.prems by (auto split: if_split_asm list.split_asm)
  next
    case False
    then obtain key c rest where b: "bk_connections b = (key, c) # rest"
      by (metis list.exhaust prod.collapse)
    obtain h1 b1 a1 where dt: "drive_turn env key c (h, b\<lparr>bk_connections := rest\<rparr>) = ((h1, b1), a1)"
      by (metis prod.collapse)
    have "drive_flows env n (again \<or> a1) (h1, b1) = ((h', b'), a)"
      using Suc.prems(1) False b dt by simp
    from Suc.IH[OF this drive_turn_ok[OF Suc.prems(2) b _ dt]] False show ?thesis by simp
  qed
qed simp

lemma Backend_drive_ok:
  assumes "Backend_drive env (h, b) = ((h', b'), r)" "backend_ok b"
  shows "backend_ok b'"
proof -
  obtain h1 b1 r1 where s: "accept_sweep env IO_BUDGET (h, b) = ((h1, b1), r1)" by (metis prod.collapse)
  have ok1: "backend_ok b1" by (rule accept_sweep_ok[OF s assms(2)])
  show ?thesis
  proof (cases r1)
    case (Inl e)
    then show ?thesis using assms(1) s ok1 by (simp add: Backend_drive_def)
  next
    case (Inr u)
    define b2 where "b2 = (if bk_next_listener b1 = length (mp_listeners (bk_mappings b1))
      then b1\<lparr>bk_next_listener := 0, bk_listener_retry := False\<rparr> else b1)"
    have ok2: "backend_ok b2" using ok1 by (simp add: b2_def backend_ok_def port_used_def)
    obtain n a r2 where "drive_flows env n a (h1, b2) = ((h', b'), r2)"
      using assms(1) s Inr
      by (auto simp: Backend_drive_def Let_def b2_def split: prod.split_asm if_split_asm)
    from drive_flows_ok[OF this ok2] show ?thesis .
  qed
qed

end
