(* ===== verification/Vsock.thy ===== *)
theory Vsock
  imports Vsock_Backend
begin

text \<open>
  The vsock device, \<open>src/src/vmm/src/virtio/vsock/mod.rs\<close>: construction from the port mappings,
  activation and reset, and the event handler that takes the guest's buffers and packets off the
  queues, moves packets between the guest and the backend, and asks for another turn while work
  remains.

  \<open>vsock_env\<close> collects the parameters: the host, guest memory, the external queues and the
  interrupt chip. A drain that never returns makes the handler never return, the value \<open>None\<close>.
\<close>

section \<open>Construction\<close>

definition RX :: nat where "RX = 0"
definition TX :: nat where "TX = 1"

definition VSOCK_SPEC :: device_spec where
  "VSOCK_SPEC = \<lparr>device_id = 19, spec_name = ''vsock'', spec_features = 0, config_len = 8,
     queue_max = [256, 256, 256], snapshot = SnapshotUnsupported\<rparr>"

text \<open>A listener is the handle of a bound socket, a path a Unix path.\<close>

datatype port_mapping = Listen u32 nat | Connect u32 string

fun mapping_port :: "port_mapping \<Rightarrow> u32" where
  "mapping_port (Listen port _) = port"
| "mapping_port (Connect port _) = port"

record vsock_ports =
  vp_set_nonblocking :: "nat \<Rightarrow> error_kind + unit"
  vp_from_pathname :: "string \<Rightarrow> error_kind + unit"

fun add_mappings ::
    "vsock_ports \<Rightarrow> port_mapping list \<Rightarrow> u32 list \<Rightarrow> mappings \<Rightarrow> error_kind + mappings" where
  "add_mappings vp [] seen mp = Inr mp"
| "add_mappings vp (p # ps) seen mp =
     (if mapping_port p = - 1 \<or> mapping_port p \<in> set seen then Inl InvalidInput
      else case p of
        Listen port l \<Rightarrow>
          (case vp_set_nonblocking vp l of
             Inl e \<Rightarrow> Inl e
           | Inr _ \<Rightarrow> add_mappings vp ps (port # seen)
               (mp\<lparr>mp_listeners := mp_listeners mp @ [(port, l)]\<rparr>))
      | Connect port path \<Rightarrow>
          (case vp_from_pathname vp path of
             Inl e \<Rightarrow> Inl e
           | Inr _ \<Rightarrow>
               (if path = [] then Inl InvalidInput
                else add_mappings vp ps (port # seen)
                  (mp\<lparr>mp_connects := (mp_connects mp)(port := Some path)\<rparr>))))"

record ('s, 'q, 'm, 'c) vsock_active =
  va_reschedule :: reschedule
  va_backend :: "'s backend"
  va_queues :: "('q, 'm) virt_queues"
  va_interrupt :: "'c mmio_interrupt"
  va_tx :: "(u16 \<times> packet) list"
  va_rx :: "buffer list"

record ('s, 'q, 'm, 'c) vsock =
  v_cid :: u64
  v_mappings :: mappings
  v_features_set :: bool
  v_active :: "('s, 'q, 'm, 'c) vsock_active option"

definition Vsock_new ::
    "vsock_ports \<Rightarrow> u64 \<Rightarrow> port_mapping list \<Rightarrow> error_kind + ('s, 'q, 'm, 'c) vsock" where
  "Vsock_new vp cid ports =
     (if cid < 3 \<or> 0xffffffff \<le> cid then Inl InvalidInput
      else map_sum id (\<lambda>mp. \<lparr>v_cid = cid, v_mappings = mp, v_features_set = False, v_active = None\<rparr>)
        (add_mappings vp ports [] \<lparr>mp_listeners = [], mp_connects = (\<lambda>_. None)\<rparr>))"

section \<open>The transport's methods\<close>

record ('s, 'h, 'q, 'm, 'chain, 'desc, 'c) vsock_env =
  ve_host :: "('s, 'h) vsock_host"
  ve_mem :: "('m, 'chain) mem_ops"
  ve_queue :: "('q, 'm, 'chain, 'desc) queue_ops"
  ve_line :: "'c set_line"

definition Vsock_set_features :: "u64 \<Rightarrow> ('s, 'q, 'm, 'c) vsock \<Rightarrow> ('s, 'q, 'm, 'c) vsock \<times> (u64 + unit)" where
  "Vsock_set_features negotiated v =
     (let unsupported = negotiated in
      if unsupported \<noteq> 0 then (v, Inl unsupported) else (v\<lparr>v_features_set := True\<rparr>, Inr ()))"

definition Vsock_read_config :: "u64 \<Rightarrow> nat \<Rightarrow> ('s, 'q, 'm, 'c) vsock \<Rightarrow> u8 list" where
  "Vsock_read_config offset n v = config_bytes (to_le_bytes 8 (v_cid v)) offset n"

definition Vsock_activate ::
    "('s, 'h, 'q, 'm, 'chain, 'desc, 'c) vsock_env \<Rightarrow> ('q, 'm) virt_queues \<Rightarrow> 'c mmio_interrupt \<Rightarrow>
     'h \<times> ('s, 'q, 'm, 'c) vsock \<Rightarrow> ('h \<times> ('s, 'q, 'm, 'c) vsock) \<times> (device_error + unit)" where
  "Vsock_activate env vq intr = (\<lambda>(h, v).
     if v_active v \<noteq> None \<or> \<not> v_features_set v \<or> VirtQueues_len vq \<noteq> 3 \<or>
         list_ex (\<lambda>i. \<not> VirtQueues_is_ready (ve_queue env) vq i \<or>
           VirtQueues_max_size (ve_queue env) vq i \<noteq> Some 256) [0, 1, 2]
     then ((h, v), Inl (NeedsReset ''vsock activation''))
     else case Backend_new (ve_host env) (v_cid v) (v_mappings v) h of
       (h, Inl e) \<Rightarrow> ((h, v), Inl e)
     | (h, Inr b) \<Rightarrow>
         (case Reschedule_new (ve_host env) h of
            (h, Inl e) \<Rightarrow>
              ((fold (Registration_drop (ve_host env)) (bk_registrations b) h, v), Inl e)
          | (h, Inr r) \<Rightarrow>
              (case Reschedule_schedule (ve_host env) (h, r) of
                 ((h, r), Inl e) \<Rightarrow>
                   ((fold (Registration_drop (ve_host env)) (bk_registrations b)
                       (Registration_drop (ve_host env) (rs_registration r) h), v), Inl e)
               | ((h, r), Inr _) \<Rightarrow>
                   ((h, v\<lparr>v_active := Some \<lparr>va_reschedule = r, va_backend = b, va_queues = vq,
                      va_interrupt = intr, va_tx = [], va_rx = []\<rparr>\<rparr>), Inr ()))))"

text \<open>Dropping the active state releases its registrations in the order the fields are declared.\<close>

definition drop_active ::
    "('s, 'h) vsock_host \<Rightarrow> ('s, 'q, 'm, 'c) vsock_active \<Rightarrow> 'h \<Rightarrow> 'h" where
  "drop_active env a h =
     fold (\<lambda>(_, c). drop_connection env c) (bk_connections (va_backend a))
       (fold (Registration_drop env) (bk_registrations (va_backend a))
         (Registration_drop env (rs_registration (va_reschedule a)) h))"

definition Vsock_reset ::
    "('s, 'h) vsock_host \<Rightarrow> 'h \<times> ('s, 'q, 'm, 'c) vsock \<Rightarrow>
     ('h \<times> ('s, 'q, 'm, 'c) vsock) \<times> (device_error + unit)" where
  "Vsock_reset env = (\<lambda>(h, v).
     ((case v_active v of None \<Rightarrow> h | Some a \<Rightarrow> drop_active env a h,
       v\<lparr>v_active := None, v_features_set := False\<rparr>), Inr ()))"

section \<open>Intake\<close>

text \<open>The limit is the queue's maximum; activation made sure that the queue exists.\<close>

definition queue_limit :: "('q, 'm, 'chain, 'desc) queue_ops \<Rightarrow> ('q, 'm) virt_queues \<Rightarrow> nat \<Rightarrow> nat" where
  "queue_limit ops vq index = (case VirtQueues_max_size ops vq index of None \<Rightarrow> 0 | Some n \<Rightarrow> unat n)"

definition take_buffer :: "('m, 'chain) mem_ops \<Rightarrow> nat \<Rightarrow> ('m, 'chain, buffer list) process" where
  "take_buffer mo limit rx m chain =
     (if length rx \<ge> limit then (rx, m, Inl bad_queue)
      else case Buffer_new mo chain m of
        (m, Inl e) \<Rightarrow> (rx, m, Inl e)
      | (m, Inr b) \<Rightarrow> (rx @ [b], m, Inr Deferred))"

definition take_packet :: "('m, 'chain) mem_ops \<Rightarrow> nat \<Rightarrow> ('m, 'chain, (u16 \<times> packet) list) process" where
  "take_packet mo limit tx m chain =
     (if length tx \<ge> limit then (tx, m, Inl bad_queue)
      else case mo_descriptors mo chain m of
        (m, ds) \<Rightarrow>
          (if list_ex d_write_only ds then (tx, m, Inl bad_queue)
           else case mo_reader mo chain m of
             (m, Inl _) \<Rightarrow> (tx, m, Inl bad_queue)
           | (m, Inr reader) \<Rightarrow>
               (case Packet_read reader of
                  (_, Inl _) \<Rightarrow> (tx, m, Inl bad_queue)
                | (_, Inr p) \<Rightarrow> (tx @ [(mo_head_index mo chain, p)], m, Inr Deferred))))"

definition vsock_collect ::
    "('s, 'h, 'q, 'm, 'chain, 'desc, 'c) vsock_env \<Rightarrow> ('s, 'q, 'm, 'c) vsock_active \<Rightarrow>
     (('s, 'q, 'm, 'c) vsock_active \<times> (device_error + unit)) option" where
  "vsock_collect env a =
     (case VirtQueues_drain (ve_queue env)
         (take_buffer (ve_mem env) (queue_limit (ve_queue env) (va_queues a) RX)) RX
         (va_rx a) (va_queues a) of
        None \<Rightarrow> None
      | Some (vq, rx, r) \<Rightarrow>
          (let a = a\<lparr>va_queues := vq, va_rx := rx\<rparr> in
           case r of
             Inl e \<Rightarrow> Some (a, Inl e)
           | Inr _ \<Rightarrow>
               (case VirtQueues_drain (ve_queue env)
                   (take_packet (ve_mem env) (queue_limit (ve_queue env) (va_queues a) TX)) TX
                   (va_tx a) (va_queues a) of
                  None \<Rightarrow> None
                | Some (vq, tx, r) \<Rightarrow>
                    Some (a\<lparr>va_queues := vq, va_tx := tx\<rparr>, map_sum id (\<lambda>_. ()) r))))"

section \<open>Completion, transmission and delivery\<close>

definition vsock_complete ::
    "('s, 'h, 'q, 'm, 'chain, 'desc, 'c) vsock_env \<Rightarrow> nat \<Rightarrow> u16 \<Rightarrow> u32 \<Rightarrow>
     ('s, 'q, 'm, 'c) vsock_active \<Rightarrow> ('s, 'q, 'm, 'c) vsock_active \<times> (device_error + unit)" where
  "vsock_complete env index head len a =
     (case VirtQueues_complete (ve_queue env) index head len (va_queues a) of
        (vq, Inl e) \<Rightarrow> (a\<lparr>va_queues := vq\<rparr>, Inl e)
      | (vq, Inr notify) \<Rightarrow>
          (a\<lparr>va_queues := vq, va_interrupt :=
             (if notify then MmioInterrupt_raise (ve_line env) (va_interrupt a) else va_interrupt a)\<rparr>,
           Inr ()))"

fun vsock_transmit ::
    "('s, 'h, 'q, 'm, 'chain, 'desc, 'c) vsock_env \<Rightarrow> nat \<Rightarrow> 'h \<times> ('s, 'q, 'm, 'c) vsock_active \<Rightarrow>
     ('h \<times> ('s, 'q, 'm, 'c) vsock_active) \<times> (device_error + unit)" where
  "vsock_transmit env 0 (h, a) = ((h, a), Inr ())"
| "vsock_transmit env (Suc n) (h, a) =
     (case va_tx a of
        [] \<Rightarrow> ((h, a), Inr ())
      | (head, p) # tx \<Rightarrow>
          (if h_op (p_header p) \<noteq> RST \<and> \<not> can_receive (va_backend a) then ((h, a), Inr ())
           else case Backend_receive (ve_host env) p (h, va_backend a) of
             ((h, b), Inl e) \<Rightarrow> ((h, a\<lparr>va_tx := tx, va_backend := b\<rparr>), Inl e)
           | ((h, b), Inr _) \<Rightarrow>
               (case vsock_complete env TX head 0 (a\<lparr>va_tx := tx, va_backend := b\<rparr>) of
                  (a, Inl e) \<Rightarrow> ((h, a), Inl e)
                | (a, Inr _) \<Rightarrow> vsock_transmit env n (h, a))))"

text \<open>
  One turn of the delivery loop for a buffer and the packet at the front of the outgoing queue. The
  flag says whether something was delivered; a buffer with room for a header only is returned
  empty when the packet carries data.
\<close>

definition deliver_one ::
    "('s, 'h, 'q, 'm, 'chain, 'desc, 'c) vsock_env \<Rightarrow> buffer \<Rightarrow> packet \<Rightarrow> packet list \<Rightarrow>
     ('s, 'q, 'm, 'c) vsock_active \<Rightarrow> ('s, 'q, 'm, 'c) vsock_active \<times> (device_error + bool)" where
  "deliver_one env buf p rest a =
     (case checked_sub (b_capacity buf) (of_nat HEADER_LEN) of
        None \<Rightarrow> (a, Inl bad_queue)
      | Some capacity \<Rightarrow>
          (let cnt = min (length (p_payload p)) (unat capacity) in
           if cnt = 0 \<and> p_payload p \<noteq> [] then
             (case vsock_complete env RX (b_head buf) 0 a of (a, r) \<Rightarrow> (a, map_sum id (\<lambda>_. False) r))
           else
             (let hdr = (p_header p)\<lparr>h_len := of_nat cnt\<rparr>;
                  bytes = Header_encode hdr @ take cnt (p_payload p) in
              case Buffer_write (ve_mem env) buf bytes (vq_memory (va_queues a)) of
                (m, Inl e) \<Rightarrow> (a\<lparr>va_queues := (va_queues a)\<lparr>vq_memory := m\<rparr>\<rparr>, Inl e)
              | (m, Inr _) \<Rightarrow>
                  (let tail = drop cnt (p_payload p);
                       out = (if cnt = length (p_payload p) then rest
                         else \<lparr>p_header = (p_header p)\<lparr>h_len := of_nat (length tail)\<rparr>,
                             p_payload = tail\<rparr> # rest);
                       b = Backend_delivered hdr ((va_backend a)\<lparr>bk_outgoing := out\<rparr>) in
                   case vsock_complete env RX (b_head buf) (of_nat (length bytes))
                       (a\<lparr>va_queues := (va_queues a)\<lparr>vq_memory := m\<rparr>, va_backend := b\<rparr>) of
                     (a, r) \<Rightarrow> (a, map_sum id (\<lambda>_. True) r)))))"

fun vsock_receive ::
    "('s, 'h, 'q, 'm, 'chain, 'desc, 'c) vsock_env \<Rightarrow> nat \<Rightarrow> bool \<Rightarrow> ('s, 'q, 'm, 'c) vsock_active \<Rightarrow>
     ('s, 'q, 'm, 'c) vsock_active \<times> (device_error + bool)" where
  "vsock_receive env 0 sofar a = (a, Inr sofar)"
| "vsock_receive env (Suc n) sofar a =
     (case (va_rx a, bk_outgoing (va_backend a)) of
        (buf # rx, p # rest) \<Rightarrow>
          (case deliver_one env buf p rest (a\<lparr>va_rx := rx\<rparr>) of
             (a, Inl e) \<Rightarrow> (a, Inl e)
           | (a, Inr d) \<Rightarrow> vsock_receive env n (sofar \<or> d) a)
      | _ \<Rightarrow> (a, Inr sofar))"

section \<open>Events\<close>

definition vsock_process ::
    "('s, 'h, 'q, 'm, 'chain, 'desc, 'c) vsock_env \<Rightarrow> 'h \<times> ('s, 'q, 'm, 'c) vsock_active \<Rightarrow>
     (('h \<times> ('s, 'q, 'm, 'c) vsock_active) \<times> (device_error + unit)) option" where
  "vsock_process env = (\<lambda>(h, a).
     case vsock_collect env a of
       None \<Rightarrow> None
     | Some (a, Inl e) \<Rightarrow> Some ((h, a), Inl e)
     | Some (a, Inr _) \<Rightarrow>
         (case vsock_transmit env IO_BUDGET (h, a) of
            (ha, Inl e) \<Rightarrow> Some (ha, Inl e)
          | ((h, a), Inr _) \<Rightarrow>
              (case Backend_drive (ve_host env) (h, va_backend a) of
                 ((h, b), Inl e) \<Rightarrow> Some ((h, a\<lparr>va_backend := b\<rparr>), Inl e)
               | ((h, b), Inr again) \<Rightarrow>
                   (case vsock_receive env IO_BUDGET False (a\<lparr>va_backend := b\<rparr>) of
                      (a, Inl e) \<Rightarrow> Some ((h, a), Inl e)
                    | (a, Inr sent) \<Rightarrow>
                        (if again \<or> sent then
                           (case Reschedule_schedule (ve_host env) (h, va_reschedule a) of
                              ((h, r), x) \<Rightarrow> Some ((h, a\<lparr>va_reschedule := r\<rparr>), x))
                         else Some ((h, a), Inr ()))))))"

definition Vsock_on_event ::
    "('s, 'h, 'q, 'm, 'chain, 'desc, 'c) vsock_env \<Rightarrow> device_event \<Rightarrow> 'h \<times> ('s, 'q, 'm, 'c) vsock \<Rightarrow>
     (('h \<times> ('s, 'q, 'm, 'c) vsock) \<times> (device_error + unit)) option" where
  "Vsock_on_event env event = (\<lambda>(h, v).
     if (case event of QueueKick i \<Rightarrow> i > 2 | BackendReady _ \<Rightarrow> False)
     then Some ((h, v), Inl (NeedsReset ''vsock queue index''))
     else case v_active v of
       None \<Rightarrow> Some ((h, v), Inr ())
     | Some a \<Rightarrow>
         (case Reschedule_acknowledge (ve_host env) event (h, va_reschedule a) of
            ((h, r), Inl e) \<Rightarrow>
              Some ((h, v\<lparr>v_active := Some (a\<lparr>va_reschedule := r\<rparr>)\<rparr>), Inl e)
          | ((h, r), Inr mine) \<Rightarrow>
              (let a = a\<lparr>va_reschedule := r\<rparr>;
                   a = (if \<not> mine \<and> (case event of QueueKick _ \<Rightarrow> False | BackendReady _ \<Rightarrow> True)
                     then a\<lparr>va_backend := Backend_rescan (va_backend a)\<rparr> else a) in
               case vsock_process env (h, a) of
                 None \<Rightarrow> None
               | Some ((h, a), x) \<Rightarrow> Some ((h, v\<lparr>v_active := Some a\<rparr>), x))))"

section \<open>The bounds of the device\<close>

text \<open>The invariant of an active device, and a run over events, deactivation and activation aside.\<close>

definition vsock_ok :: "('s, 'q, 'm, 'c) vsock \<Rightarrow> bool" where
  "vsock_ok v \<longleftrightarrow> (\<forall>a. v_active v = Some a \<longrightarrow> backend_ok (va_backend a))"

fun vsock_run ::
    "('s, 'h, 'q, 'm, 'chain, 'desc, 'c) vsock_env \<Rightarrow> device_event list \<Rightarrow> 'h \<times> ('s, 'q, 'm, 'c) vsock \<Rightarrow>
     ('h \<times> ('s, 'q, 'm, 'c) vsock) option" where
  "vsock_run env [] hv = Some hv"
| "vsock_run env (e # es) hv =
     (case Vsock_on_event env e hv of None \<Rightarrow> None | Some (hv, _) \<Rightarrow> vsock_run env es hv)"

lemma fewer_outgoing_ok:
  "backend_ok b \<Longrightarrow> length out \<le> length (bk_outgoing b) \<Longrightarrow> backend_ok (b\<lparr>bk_outgoing := out\<rparr>)"
  by (auto simp: backend_ok_def port_used_def)

lemma vsock_complete_keeps:
  "vsock_complete env i head len a = (a', r) \<Longrightarrow>
     va_backend a' = va_backend a \<and> va_rx a' = va_rx a \<and> va_tx a' = va_tx a"
  by (auto simp: vsock_complete_def split: prod.splits sum.splits)

lemma vsock_transmit_ok:
  "vsock_transmit env n (h, a) = ((h', a'), r) \<Longrightarrow> backend_ok (va_backend a) \<Longrightarrow>
     backend_ok (va_backend a')"
proof (induction n arbitrary: h a)
  case (Suc n)
  show ?case
  proof (cases "va_tx a")
    case Nil
    then show ?thesis using Suc.prems by simp
  next
    case (Cons hp tx)
    obtain head p where hp: "hp = (head, p)" by (cases hp)
    show ?thesis
    proof (cases "h_op (p_header p) \<noteq> RST \<and> \<not> can_receive (va_backend a)")
      case True
      then show ?thesis using Suc.prems Cons hp by simp
    next
      case False
      obtain h1 b r1 where rcv: "Backend_receive (ve_host env) p (h, va_backend a) = ((h1, b), r1)"
        by (metis prod.collapse)
      have b: "backend_ok b" using Backend_receive_ok[OF Suc.prems(2) _ rcv] False by blast
      obtain a1 r2 where cm: "vsock_complete env TX head 0 (a\<lparr>va_tx := tx, va_backend := b\<rparr>) = (a1, r2)"
        by (metis prod.collapse)
      have a1: "va_backend a1 = b" using vsock_complete_keeps[OF cm] by simp
      show ?thesis
      proof (cases "(\<exists>u. r1 = Inr u) \<and> (\<exists>u. r2 = Inr u)")
        case True
        then have "vsock_transmit env n (h1, a1) = ((h', a'), r)"
          using Suc.prems(1) Cons hp False rcv cm by auto
        from Suc.IH[OF this] show ?thesis using a1 b by simp
      next
        case err: False
        then have "va_backend a' = b"
          using Suc.prems(1) Cons hp False rcv cm a1 by (cases r1; cases r2) auto
        then show ?thesis using b by simp
      qed
    qed
  qed
qed simp

text \<open>What one delivery does to the outgoing queue: nothing, or the front packet loses the fragment
  that the guest received.\<close>

definition fragment :: "nat \<Rightarrow> packet \<Rightarrow> packet" where
  "fragment cnt p =
     \<lparr>p_header = (p_header p)\<lparr>h_len := of_nat cnt\<rparr>, p_payload = take cnt (p_payload p)\<rparr>"

definition after_fragment :: "nat \<Rightarrow> packet \<Rightarrow> packet list \<Rightarrow> packet list" where
  "after_fragment cnt p rest =
     (if cnt = length (p_payload p) then rest
      else let tail = drop cnt (p_payload p) in
        \<lparr>p_header = (p_header p)\<lparr>h_len := of_nat (length tail)\<rparr>, p_payload = tail\<rparr> # rest)"

lemma deliver_one_shape:
  assumes "deliver_one env buf p rest a = (a', r)"
  obtains (nothing) "va_backend a' = va_backend a" "r \<noteq> Inr True"
  | (sent) cnt m where "cnt \<le> length (p_payload p)" "r \<noteq> Inr False"
      "va_backend a' = Backend_delivered (p_header (fragment cnt p))
         ((va_backend a)\<lparr>bk_outgoing := after_fragment cnt p rest\<rparr>)"
      "Buffer_write (ve_mem env) buf
         (Header_encode (p_header (fragment cnt p)) @ p_payload (fragment cnt p))
         (vq_memory (va_queues a)) = (m, Inr ())"
proof (cases "checked_sub (b_capacity buf) (of_nat HEADER_LEN)")
  case None
  then show ?thesis using assms(1) by - (rule nothing, auto simp: deliver_one_def)
next
  case (Some capacity)
  define cnt where "cnt = min (length (p_payload p)) (unat capacity)"
  show ?thesis
  proof (cases "cnt = 0 \<and> p_payload p \<noteq> []")
    case True
    then show ?thesis
      using assms(1) Some vsock_complete_keeps[of env RX "b_head buf" 0 a]
      by - (rule nothing, auto simp: deliver_one_def Let_def cnt_def[symmetric] map_sum_def
          split: prod.split_asm sum.split_asm)
  next
    case False
    define f where "f = fragment cnt p"
    define bytes where "bytes = Header_encode (p_header f) @ p_payload f"
    have dl: "deliver_one env buf p rest a =
        (case Buffer_write (ve_mem env) buf bytes (vq_memory (va_queues a)) of
           (m, Inl e) \<Rightarrow> (a\<lparr>va_queues := (va_queues a)\<lparr>vq_memory := m\<rparr>\<rparr>, Inl e)
         | (m, Inr _) \<Rightarrow>
             (case vsock_complete env RX (b_head buf) (of_nat (length bytes))
                 (a\<lparr>va_queues := (va_queues a)\<lparr>vq_memory := m\<rparr>,
                    va_backend := Backend_delivered (p_header f)
                      ((va_backend a)\<lparr>bk_outgoing := after_fragment cnt p rest\<rparr>)\<rparr>) of
               (a, r) \<Rightarrow> (a, map_sum id (\<lambda>_. True) r)))"
      by (simp only: deliver_one_def Some Let_def option.case cnt_def[symmetric] False if_False
          f_def fragment_def after_fragment_def bytes_def packet.simps)
    obtain m w where bw: "Buffer_write (ve_mem env) buf bytes (vq_memory (va_queues a)) = (m, w)"
      by (metis prod.collapse)
    show ?thesis
    proof (cases w)
      case (Inl e)
      then show ?thesis using assms(1) dl bw by - (rule nothing, auto)
    next
      case (Inr u)
      show ?thesis
      proof (rule sent)
        show "cnt \<le> length (p_payload p)" by (simp add: cnt_def)
        show "va_backend a' = Backend_delivered (p_header (fragment cnt p))
            ((va_backend a)\<lparr>bk_outgoing := after_fragment cnt p rest\<rparr>)"
          using assms(1) dl bw Inr by (auto simp: f_def split: prod.split_asm dest: vsock_complete_keeps)
        show "r \<noteq> Inr False"
          using assms(1) dl bw Inr by (auto simp: map_sum_def split: prod.split_asm sum.split_asm)
        show "Buffer_write (ve_mem env) buf
            (Header_encode (p_header (fragment cnt p)) @ p_payload (fragment cnt p))
            (vq_memory (va_queues a)) = (m, Inr ())"
          using bw Inr by (simp add: bytes_def f_def)
      qed
    qed
  qed
qed

lemma sent_bytes_fragment:
  "cnt \<le> length (p_payload p) \<Longrightarrow>
     sent_bytes [fragment cnt p] @ sent_bytes (after_fragment cnt p rest) = sent_bytes (p # rest)"
  by (auto simp: fragment_def after_fragment_def sent_bytes_def Let_def)

lemma length_after_fragment: "length (after_fragment cnt p rest) \<le> length (p # rest)"
  by (simp add: after_fragment_def Let_def)

lemma small_after_fragment:
  "\<forall>q\<in>set (p # rest). length (p_payload q) < n \<Longrightarrow>
     \<forall>q\<in>set (after_fragment cnt p rest). length (p_payload q) < n"
  by (auto simp: after_fragment_def Let_def)

lemma fragment_len:
  "cnt \<le> length (p_payload p) \<Longrightarrow> length (p_payload p) < 2 ^ 32 \<Longrightarrow>
     unat (h_len (p_header (fragment cnt p))) = length (p_payload (fragment cnt p))"
  by (simp add: fragment_def unat_of_nat)

definition confirm :: "packet list \<Rightarrow> 's backend \<Rightarrow> 's backend" where
  "confirm = fold (\<lambda>f. Backend_delivered (p_header f))"

lemma Backend_delivered_outgoing:
  "Backend_delivered hdr (b\<lparr>bk_outgoing := out\<rparr>) = (Backend_delivered hdr b)\<lparr>bk_outgoing := out\<rparr>"
  "bk_outgoing (Backend_delivered hdr b) = bk_outgoing b"
  by (simp_all add: Backend_delivered_def bk_connection_def split: option.split)

lemma confirm_outgoing:
  "confirm fs (b\<lparr>bk_outgoing := out\<rparr>) = (confirm fs b)\<lparr>bk_outgoing := out\<rparr>"
  "bk_outgoing (confirm fs b) = bk_outgoing b"
  by (induction fs arbitrary: b) (simp_all add: confirm_def Backend_delivered_outgoing)

lemma confirm_ok: "backend_ok b \<Longrightarrow> backend_ok (confirm fs b)"
  by (induction fs arbitrary: b) (simp_all add: confirm_def Backend_delivered_ok)

definition fragments :: "'s backend \<Rightarrow> 's backend \<Rightarrow> packet list \<Rightarrow> bool" where
  "fragments b b' frags \<longleftrightarrow>
     b' = (confirm frags b)\<lparr>bk_outgoing := bk_outgoing b'\<rparr> \<and>
     sent_bytes frags @ sent_bytes (bk_outgoing b') = sent_bytes (bk_outgoing b) \<and>
     (\<forall>f\<in>set frags. unat (h_len (p_header f)) = length (p_payload f)) \<and>
     length (bk_outgoing b') \<le> length (bk_outgoing b)"

lemma fragments_Nil: "fragments b b []"
  by (simp add: fragments_def confirm_def)

lemma fragments_Cons:
  assumes "sent_bytes [f] @ sent_bytes out = sent_bytes (bk_outgoing b)"
    and "unat (h_len (p_header f)) = length (p_payload f)" "length out \<le> length (bk_outgoing b)"
    and "fragments (Backend_delivered (p_header f) (b\<lparr>bk_outgoing := out\<rparr>)) b' fs"
  shows "fragments b b' (f # fs)"
proof -
  have split: "sent_bytes (f # fs) = sent_bytes [f] @ sent_bytes fs" by (simp add: sent_bytes_def)
  have c: "confirm (f # fs) b = confirm fs (Backend_delivered (p_header f) b)" by (simp add: confirm_def)
  show ?thesis
    using assms
    by (simp add: fragments_def split c Backend_delivered_outgoing confirm_outgoing flip: assms(1))
qed

lemma vsock_receive_fragments:
  "vsock_receive env n sofar a = (a', r) \<Longrightarrow>
     \<forall>q\<in>set (bk_outgoing (va_backend a)). length (p_payload q) < 2 ^ 32 \<Longrightarrow>
     \<exists>frags. length frags \<le> n \<and> fragments (va_backend a) (va_backend a') frags"
proof (induction n arbitrary: sofar a)
  case 0
  then show ?case using fragments_Nil by fastforce
next
  case (Suc n)
  show ?case
  proof (cases "va_rx a = [] \<or> bk_outgoing (va_backend a) = []")
    case True
    then have "a' = a" using Suc.prems(1) by (auto split: list.split_asm)
    then show ?thesis using fragments_Nil by (metis list.size(3) le0)
  next
    case False
    then obtain buf rx p rest where q: "va_rx a = buf # rx" "bk_outgoing (va_backend a) = p # rest"
      by (metis list.exhaust)
    obtain a1 r1 where d: "deliver_one env buf p rest (a\<lparr>va_rx := rx\<rparr>) = (a1, r1)" by (metis prod.collapse)
    from d show ?thesis
    proof (cases rule: deliver_one_shape)
      case nothing
      then have b: "va_backend a1 = va_backend a" by simp
      show ?thesis
      proof (cases r1)
        case (Inl e)
        then have "a' = a1" using Suc.prems(1) q d by simp
        then show ?thesis using b fragments_Nil by (metis list.size(3) le0)
      next
        case (Inr x)
        then have "vsock_receive env n (sofar \<or> x) a1 = (a', r)" using Suc.prems(1) q d by simp
        from Suc.IH[OF this] obtain frags where "length frags \<le> n"
          "fragments (va_backend a) (va_backend a') frags"
          using b Suc.prems(2) by auto
        then show ?thesis by (meson le_SucI)
      qed
    next
      case (sent cnt m)
      have fr: "fragments (va_backend a) b' (fragment cnt p # fs)" if "fragments (va_backend a1) b' fs" for b' fs
        by (rule fragments_Cons[where out = "after_fragment cnt p rest"])
          (use sent q that Suc.prems(2) in
            \<open>simp_all add: sent_bytes_fragment length_after_fragment[simplified] fragment_len del: length_Cons\<close>)
      show ?thesis
      proof (cases r1)
        case (Inl e)
        then have "a' = a1" using Suc.prems(1) q d by simp
        then show ?thesis using fr[OF fragments_Nil] by (auto intro!: exI[of _ "[fragment cnt p]"])
      next
        case (Inr x)
        then have "vsock_receive env n (sofar \<or> x) a1 = (a', r)" using Suc.prems(1) q d by simp
        moreover have "bk_outgoing (va_backend a1) = after_fragment cnt p rest"
          using sent by (simp add: Backend_delivered_outgoing)
        ultimately obtain fs where "length fs \<le> n" "fragments (va_backend a1) (va_backend a') fs"
          using Suc.IH[of "sofar \<or> x" a1] small_after_fragment[of p rest "2 ^ 32" cnt] Suc.prems(2) q(2)
          by (metis (no_types, lifting))
        then show ?thesis using fr by (auto intro!: exI[of _ "fragment cnt p # fs"])
      qed
    qed
  qed
qed

lemma fragments_ok: "backend_ok b \<Longrightarrow> fragments b b' frags \<Longrightarrow> backend_ok b'"
  using fewer_outgoing_ok[OF confirm_ok[of b frags], of "bk_outgoing b'"]
  by (metis confirm_outgoing(2) fragments_def)

lemma deliver_one_ok:
  assumes "deliver_one env buf p rest a = (a', r)" "backend_ok (va_backend a)"
    and "bk_outgoing (va_backend a) = p # rest"
  shows "backend_ok (va_backend a')"
  using assms(1)
proof (cases rule: deliver_one_shape)
  case (sent cnt m)
  then show ?thesis
    using assms(2,3) length_after_fragment[of cnt p rest]
    by (auto intro!: Backend_delivered_ok fewer_outgoing_ok)
qed (use assms in simp)

lemma vsock_receive_ok:
  "vsock_receive env n sofar a = (a', r) \<Longrightarrow> backend_ok (va_backend a) \<Longrightarrow> backend_ok (va_backend a')"
proof (induction n arbitrary: sofar a)
  case (Suc n)
  show ?case
  proof (cases "va_rx a = [] \<or> bk_outgoing (va_backend a) = []")
    case True
    then show ?thesis using Suc.prems by (auto split: list.split_asm)
  next
    case False
    then obtain buf rx p rest where q: "va_rx a = buf # rx" "bk_outgoing (va_backend a) = p # rest"
      by (metis list.exhaust)
    obtain a1 r1 where d: "deliver_one env buf p rest (a\<lparr>va_rx := rx\<rparr>) = (a1, r1)" by (metis prod.collapse)
    have "backend_ok (va_backend a1)" by (rule deliver_one_ok[OF d]) (use Suc.prems(2) q in simp_all)
    then show ?thesis
      using Suc.prems(1) q d Suc.IH[of _ a1] by (auto split: sum.split_asm)
  qed
qed simp

lemma vsock_process_ok:
  assumes "vsock_process env (h, a) = Some ((h', a'), r)" "backend_ok (va_backend a)"
  shows "backend_ok (va_backend a')"
proof -
  obtain a1 r1 where c: "vsock_collect env a = Some (a1, r1)"
    using assms(1) by (auto simp: vsock_process_def split: option.split_asm)
  have a1: "va_backend a1 = va_backend a"
    using c by (auto simp: vsock_collect_def Let_def split: option.split_asm prod.split_asm sum.split_asm)
  obtain h2 a2 r2 where t: "vsock_transmit env IO_BUDGET (h, a1) = ((h2, a2), r2)" by (metis prod.collapse)
  have ok2: "backend_ok (va_backend a2)" by (rule vsock_transmit_ok[OF t]) (use a1 assms(2) in simp)
  obtain h3 b3 r3 where d: "Backend_drive (ve_host env) (h2, va_backend a2) = ((h3, b3), r3)"
    by (metis prod.collapse)
  have ok3: "backend_ok b3" by (rule Backend_drive_ok[OF d ok2])
  obtain a4 r4 where rc: "vsock_receive env IO_BUDGET False (a2\<lparr>va_backend := b3\<rparr>) = (a4, r4)"
    by (metis prod.collapse)
  have ok4: "backend_ok (va_backend a4)" by (rule vsock_receive_ok[OF rc]) (use ok3 in simp)
  show ?thesis
    using assms(1) c t d rc a1 assms(2) ok2 ok3 ok4
    by (auto simp: vsock_process_def split: sum.split_asm if_split_asm prod.split_asm)
qed

lemma Vsock_on_event_ok:
  assumes "Vsock_on_event env e (h, v) = Some ((h', v'), r)" "vsock_ok v"
  shows "vsock_ok v'"
proof (cases "v_active v")
  case None
  then show ?thesis
    using assms by (auto simp: Vsock_on_event_def split: if_split_asm device_event.split_asm)
next
  case (Some a)
  then have ok: "backend_ok (va_backend a)" using assms(2) by (simp add: vsock_ok_def)
  obtain h1 rs x where ak: "Reschedule_acknowledge (ve_host env) e (h, va_reschedule a) = ((h1, rs), x)"
    by (metis prod.collapse)
  consider (same) "v' = v" | (err) "v' = v\<lparr>v_active := Some (a\<lparr>va_reschedule := rs\<rparr>)\<rparr>"
    | (go) a1 h2 a2 r2 where "backend_ok (va_backend a1)"
      "vsock_process env (h1, a1) = Some ((h2, a2), r2)" "v' = v\<lparr>v_active := Some a2\<rparr>"
  proof (cases "(case e of QueueKick i \<Rightarrow> i > 2 | BackendReady _ \<Rightarrow> False)")
    case True
    then show ?thesis using assms(1) that(1) by (simp add: Vsock_on_event_def)
  next
    case False
    show ?thesis
    proof (cases x)
      case (Inl err)
      then show ?thesis using assms(1) Some ak False that(2) by (simp add: Vsock_on_event_def)
    next
      case (Inr mine)
      define a1 where "a1 = (if \<not> mine \<and> (case e of QueueKick _ \<Rightarrow> False | BackendReady _ \<Rightarrow> True)
        then a\<lparr>va_reschedule := rs, va_backend := Backend_rescan (va_backend a)\<rparr>
        else a\<lparr>va_reschedule := rs\<rparr>)"
      have "backend_ok (va_backend a1)" using ok by (simp add: a1_def Backend_rescan_ok)
      moreover obtain h2 a2 r2 where "vsock_process env (h1, a1) = Some ((h2, a2), r2)"
        "v' = v\<lparr>v_active := Some a2\<rparr>"
        using assms(1) Some ak False Inr
        by (auto simp: Vsock_on_event_def Let_def a1_def split: option.split_asm if_split_asm)
      ultimately show ?thesis using that(3) by blast
    qed
  qed
  then show ?thesis
  proof cases
    case go
    then show ?thesis using vsock_process_ok[OF go(2,1)] by (simp add: vsock_ok_def)
  qed (use ok assms(2) in \<open>simp_all add: vsock_ok_def\<close>)
qed

lemma Vsock_activate_ok:
  assumes "Vsock_activate env vq intr (h, v) = ((h', v'), r)" "v_active v = None"
  shows "vsock_ok v'"
proof (cases "v_active v'")
  case (Some a)
  then have "\<exists>h1. Backend_new (ve_host env) (v_cid v) (v_mappings v) h = (h1, Inr (va_backend a))"
    using assms by (auto simp: Vsock_activate_def split: if_split_asm prod.split_asm sum.split_asm)
  then show ?thesis using Some by (auto simp: vsock_ok_def intro: Backend_new_ok)
qed (simp add: vsock_ok_def)

lemma vsock_run_ok: "vsock_run env es (h, v) = Some (h', v') \<Longrightarrow> vsock_ok v \<Longrightarrow> vsock_ok v'"
proof (induction es arbitrary: h v)
  case (Cons e es)
  then obtain h1 v1 r where e: "Vsock_on_event env e (h, v) = Some ((h1, v1), r)"
    "vsock_run env es (h1, v1) = Some (h', v')"
    by (auto split: option.split_asm)
  from Cons.IH[OF e(2) Vsock_on_event_ok[OF e(1) Cons.prems(2)]] show ?case .
qed simp


section \<open>Properties\<close>

text \<open>A host whose one listener has one client waiting, over the list queues of the virtqueue
  theory with one receive buffer of 60 bytes on the ring.\<close>

definition demo_vsock_host :: "(nat, nat) vsock_host" where
  "demo_vsock_host =
     \<lparr>vh_sock = demo_sock, vh_connect = (\<lambda>_ h. (h, None)),
      vh_accept = (\<lambda>_ h. if h = 0 then (1, Inr 0) else (h, Inl WouldBlock)),
      vh_set_nonblocking = (\<lambda>s. (s, Inr ())), vh_clone_stream = (\<lambda>_ _. True),
      vh_clone_listener = (\<lambda>_ _. True), vh_register = (\<lambda>h. (h, Inr 4)),
      vh_deregister = (\<lambda>_ h. h), vh_pair = (\<lambda>h. (h, Inr ())), vh_clone_pair = (\<lambda>_. True),
      vh_notify = (\<lambda>h. (h, Inr ())), vh_consume = (\<lambda>h. (h, Inr ()))\<rparr>"

definition demo_mem :: "(nat, u16) mem_ops" where
  "demo_mem =
     \<lparr>mo_head_index = (\<lambda>c. c),
      mo_descriptors = (\<lambda>_ m. (m, [\<lparr>d_addr = 0, d_len = 60, d_write_only = True, d_has_next = False\<rparr>])),
      mo_reader = (\<lambda>_ m. (m, Inr [])), mo_check_range = (\<lambda>_ _ _. True),
      mo_write_slice = (\<lambda>_ _ m. (m, Inr ())), mo_read_slice = (\<lambda>_ _ m. (m, Inl ()))\<rparr>"

definition demo_vsock_env ::
    "(nat, nat, list_queue, nat, u16, bool \<times> u16 option, unit) vsock_env" where
  "demo_vsock_env =
     \<lparr>ve_host = demo_vsock_host, ve_mem = demo_mem,
      ve_queue = list_queue_ops\<lparr>q_max_size := \<lambda>_. 256, q_size := \<lambda>_. 256\<rparr>,
      ve_line = (\<lambda>c _ _. (c, Inr ()))\<rparr>"

definition demo_vsock_queues :: "(list_queue, nat) virt_queues" where
  "demo_vsock_queues =
     \<lparr>vq_queues = [\<lparr>lq_avail = [5], lq_popped = [], lq_used = []\<rparr>,
        \<lparr>lq_avail = [], lq_popped = [], lq_used = []\<rparr>, \<lparr>lq_avail = [], lq_popped = [], lq_used = []\<rparr>],
      vq_deferred = [[], [], []], vq_memory = 0, vq_indirect = True\<rparr>"

definition demo_vsock :: "(nat, list_queue, nat, unit) vsock" where
  "demo_vsock = \<lparr>v_cid = 3, v_mappings = \<lparr>mp_listeners = [(7, 0)], mp_connects = (\<lambda>_. None)\<rparr>,
     v_features_set = True, v_active = None\<rparr>"

lemma accept_sweep_step:
  "0 < n \<Longrightarrow> accept_sweep env n (h, b) =
     (case get_at (mp_listeners (bk_mappings b)) (bk_next_listener b) of
        None \<Rightarrow> ((h, b), Inr ())
      | Some (guest, l) \<Rightarrow>
          (if length (bk_connections b) \<ge> MAX_CONNECTIONS \<or> \<not> can_receive b then ((h, b), Inr ())
           else case accept_one env guest l (h, b\<lparr>bk_next_listener := bk_next_listener b + 1\<rparr>) of
             (hb, Inl e) \<Rightarrow> (hb, Inl e)
           | (hb, Inr _) \<Rightarrow> accept_sweep env (n - 1) hb))"
proof (cases n)
  case (Suc m)
  show ?thesis unfolding Suc accept_sweep.simps diff_Suc_1 by (rule refl)
qed simp

lemma vsock_transmit_idle: "va_tx a = [] \<Longrightarrow> vsock_transmit env n (h, a) = ((h, a), Inr ())"
  by (cases n) simp_all

lemma vsock_receive_step:
  "0 < n \<Longrightarrow> vsock_receive env n sofar a =
     (case (va_rx a, bk_outgoing (va_backend a)) of
        (buf # rx, p # rest) \<Rightarrow>
          (case deliver_one env buf p rest (a\<lparr>va_rx := rx\<rparr>) of
             (a, Inl e) \<Rightarrow> (a, Inl e)
           | (a, Inr d) \<Rightarrow> vsock_receive env (n - 1) (sofar \<or> d) a)
      | _ \<Rightarrow> (a, Inr sofar))"
proof (cases n)
  case (Suc m)
  show ?thesis unfolding Suc vsock_receive.simps diff_Suc_1 by (rule refl)
qed simp

lemmas demo_vsock_eval =
  demo_vsock_host_def demo_mem_def demo_vsock_env_def demo_vsock_queues_def demo_vsock_def
  list_queue_ops_def Vsock_activate_def VirtQueues_len_def VirtQueues_is_ready_def
  VirtQueues_max_size_def get_at_def Backend_new_def Registration_listener_def Registration_new_def
  Registration_stream_def Reschedule_new_def Reschedule_schedule_def Reschedule_acknowledge_def

lemma demo_vsock_active:
  "\<exists>v r. Vsock_activate demo_vsock_env demo_vsock_queues intr (0, demo_vsock) = ((0, v), r) \<and>
     v_active v = Some \<lparr>va_reschedule = \<lparr>rs_registration = 4, rs_pending = True\<rparr>,
       va_backend = \<lparr>bk_registrations = [4], bk_mappings = v_mappings demo_vsock, bk_cid = 3,
         bk_connections = [], bk_port = FIRST_HOST_PORT, bk_next_listener = 0,
         bk_listener_retry = False, bk_outgoing = []\<rparr>,
       va_queues = demo_vsock_queues, va_interrupt = intr, va_tx = [], va_rx = []\<rparr>"
  by (simp add: demo_vsock_eval)

lemma demo_vsock_event:
  assumes "v_active v = Some \<lparr>va_reschedule = \<lparr>rs_registration = 4, rs_pending = True\<rparr>,
       va_backend = \<lparr>bk_registrations = [4], bk_mappings = v_mappings demo_vsock, bk_cid = 3,
         bk_connections = [], bk_port = FIRST_HOST_PORT, bk_next_listener = 0,
         bk_listener_retry = False, bk_outgoing = []\<rparr>,
       va_queues = demo_vsock_queues, va_interrupt = intr, va_tx = [], va_rx = []\<rparr>"
  shows "\<exists>h' v' a. vsock_run demo_vsock_env [BackendReady 4] (0, v) = Some (h', v') \<and>
     v_active v' = Some a \<and> length (bk_connections (va_backend a)) = 1"
  using assms
  by (simp add: demo_vsock_eval Vsock_on_event_def vsock_process_def vsock_collect_def
      queue_limit_def VirtQueues_drain_def drain_rounds.simps drain_round_def drain_chains.simps
      drain_one_def Let_def take_buffer_def Buffer_new_def defer_head_def store_queue_def RX_def TX_def
      vsock_transmit_idle Backend_drive_def IO_BUDGET_def accept_sweep_step accept_one_def
      MAX_CONNECTIONS_def can_receive_def MAX_PENDING_def connect_flow_def Connection_new_def
      FIRST_HOST_PORT_def ports_find.simps[of _ "0x40000000"] drive_turn_def Connection_drive_def
      host_closed_def demo_sock_def vsock_receive_step deliver_one_def checked_sub_def HEADER_LEN_def
      checked_add_def Buffer_write_def length_Header_encode vsock_complete_def VirtQueues_complete_def
      add_used_def Connection_packet_def Backend_delivered_def vsock_ops demo_mem_def queue_error_def
      bad_queue_def)

text \<open>The memory a guest can make the device hold is bounded. After activation and any sequence of
  events on any host, an active vsock device has at most 128 flows with pairwise different keys,
  at most 64 KiB pending on each, and at most 256 packets queued for the guest; a flow the host
  opened never uses a port that a mapping serves.\<close>
theorem vsock_bounded:
  assumes "v_active v = None" "Vsock_activate env vq intr (h, v) = ((h1, v1), r)"
    and "vsock_run env es (h1, v1) = Some (h2, v2)" "v_active v2 = Some a"
  shows "length (bk_connections (va_backend a)) \<le> 128 \<and>
    distinct (map fst (bk_connections (va_backend a))) \<and>
    length (bk_outgoing (va_backend a)) \<le> 256 \<and>
    (\<forall>(k, c)\<in>set (bk_connections (va_backend a)).
       c_key c = k \<and> length (pending c) \<le> 64 * 1024 \<and> port_used (va_backend a) k)"
proof -
  have "vsock_ok v2"
    using vsock_run_ok[OF assms(3)] Vsock_activate_ok[OF assms(2,1)] by blast
  then show ?thesis
    using assms(4)
    by (auto simp: vsock_ok_def backend_ok_def conn_ok_def MAX_CONNECTIONS_def MAX_PENDING_def
        BUFFER_SIZE_def)
qed

lemma vsock_bounded_witness:
  "\<exists>h v a. vsock_run demo_vsock_env [BackendReady 4] (0, v) = Some h \<and> v_active (snd h) = Some a \<and>
     length (bk_connections (va_backend a)) = 1 \<and> length (bk_outgoing (va_backend a)) \<le> 256"
proof -
  define intr where "intr = MmioInterrupt_new () (IrqLine_new 5)"
  obtain v r where act: "Vsock_activate demo_vsock_env demo_vsock_queues intr (0, demo_vsock) = ((0, v), r)"
    and on: "v_active v = Some \<lparr>va_reschedule = \<lparr>rs_registration = 4, rs_pending = True\<rparr>,
       va_backend = \<lparr>bk_registrations = [4], bk_mappings = v_mappings demo_vsock, bk_cid = 3,
         bk_connections = [], bk_port = FIRST_HOST_PORT, bk_next_listener = 0,
         bk_listener_retry = False, bk_outgoing = []\<rparr>,
       va_queues = demo_vsock_queues, va_interrupt = intr, va_tx = [], va_rx = []\<rparr>"
    using demo_vsock_active by blast
  obtain h' v' a where run: "vsock_run demo_vsock_env [BackendReady 4] (0, v) = Some (h', v')"
    "v_active v' = Some a" "length (bk_connections (va_backend a)) = 1"
    using demo_vsock_event[OF on] by blast
  have "v_active demo_vsock = None" by (simp add: demo_vsock_def)
  from vsock_bounded[OF this act run(1,2)] run show ?thesis by auto
qed

text \<open>What the backend queues for the guest reaches it in order and complete. A delivery pass cuts the
  queued packets into fragments whose headers carry their true length; the payload of the
  fragments followed by the payload still queued is the payload that was queued before, and the
  flows are credited with exactly the fragments.\<close>
theorem vsock_delivery:
  assumes "vsock_receive env n False a = (a', r)"
    and "\<forall>q\<in>set (bk_outgoing (va_backend a)). length (p_payload q) < 2 ^ 32"
  shows "\<exists>frags. length frags \<le> n \<and>
    sent_bytes frags @ sent_bytes (bk_outgoing (va_backend a')) = sent_bytes (bk_outgoing (va_backend a)) \<and>
    (\<forall>f\<in>set frags. unat (h_len (p_header f)) = length (p_payload f)) \<and>
    va_backend a' = (confirm frags (va_backend a))\<lparr>bk_outgoing := bk_outgoing (va_backend a')\<rparr>"
  using vsock_receive_fragments[OF assms] by (auto simp: fragments_def)

definition demo_delivery :: "(nat, list_queue, nat, unit) vsock_active" where
  "demo_delivery =
     \<lparr>va_reschedule = \<lparr>rs_registration = 4, rs_pending = True\<rparr>,
      va_backend = \<lparr>bk_registrations = [], bk_mappings = v_mappings demo_vsock, bk_cid = 3,
        bk_connections = [], bk_port = FIRST_HOST_PORT, bk_next_listener = 0,
        bk_listener_retry = False, bk_outgoing = [guest_packet RW 0 [1, 2, 3] 0 0]\<rparr>,
      va_queues = demo_vsock_queues\<lparr>vq_deferred := [[5], [], []]\<rparr>,
      va_interrupt = MmioInterrupt_new () (IrqLine_new 5), va_tx = [],
      va_rx = [\<lparr>b_head = 5, b_descriptors = [], b_capacity = 46\<rparr>]\<rparr>"

lemma vsock_delivery_witness:
  "\<exists>frags a'. fst (vsock_receive demo_vsock_env 1 False demo_delivery) = a' \<and>
     sent_bytes frags @ [3] = [1, 2, 3] \<and> sent_bytes (bk_outgoing (va_backend a')) = [3]"
proof -
  define a' where "a' = fst (vsock_receive demo_vsock_env 1 False demo_delivery)"
  have left: "sent_bytes (bk_outgoing (va_backend a')) = [3]"
    "sent_bytes (bk_outgoing (va_backend demo_delivery)) = [1, 2, 3]"
    "\<forall>q\<in>set (bk_outgoing (va_backend demo_delivery)). length (p_payload q) < 2 ^ 32"
    unfolding a'_def
    by (simp_all add: demo_delivery_def vsock_receive_step guest_packet_def deliver_one_def checked_sub_def
        HEADER_LEN_def Buffer_write_def demo_vsock_env_def demo_mem_def Let_def vsock_complete_def
        VirtQueues_complete_def get_at_def demo_vsock_queues_def list_queue_ops_def add_used_def
        queue_error_def store_queue_def Backend_delivered_def bk_connection_def sent_bytes_def RX_def
        split: prod.split)
  obtain r where "vsock_receive demo_vsock_env 1 False demo_delivery = (a', r)"
    unfolding a'_def by (metis prod.collapse)
  from vsock_delivery[OF this left(3)] left a'_def show ?thesis by metis
qed

end
