(* ===== verification/Blk_Request.thy ===== *)
theory Blk_Request
  imports Guest_Memory Mmio
begin

text \<open>
  Requests of the block device: the constants of \<open>src/src/vmm/src/virtio/blk/mod.rs\<close>, the request
  and disk types of \<open>backend.rs\<close>, the configuration space of \<open>config.rs\<close>, chain parsing and result
  targets of \<open>request.rs\<close>, and the table of deferred chains of \<open>inflight.rs\<close>.

  A \<open>macro_rules! finish\<close> early return of the parser is \<open>Reject\<close>; a slice length is a \<open>nat\<close>.
\<close>

section \<open>Constants\<close>

definition BLK_DEVICE_ID :: u32 where "BLK_DEVICE_ID = 2"
definition QUEUE_MAX :: u16 where "QUEUE_MAX = 256"
definition SECTOR_SIZE :: u64 where "SECTOR_SIZE = 512"
definition SEG_MAX :: u32 where "SEG_MAX = ucast QUEUE_MAX - 2"
definition REQUEST_HEADER_LEN :: nat where "REQUEST_HEADER_LEN = 16"
definition MAX_REQUEST_BYTES :: nat where "MAX_REQUEST_BYTES = 4 * 1024 * 1024"
definition MAX_DISCARD_SECTORS :: u32 where "MAX_DISCARD_SECTORS = push_bit 20 128 div ucast SECTOR_SIZE"
definition DISCARD_PAYLOAD_LEN :: nat where "DISCARD_PAYLOAD_LEN = 16"
definition BLK_CONFIG_LEN :: nat where "BLK_CONFIG_LEN = 60"

definition VIRTIO_BLK_F_SEG_MAX :: u64 where "VIRTIO_BLK_F_SEG_MAX = push_bit 2 1"
definition VIRTIO_BLK_F_RO :: u64 where "VIRTIO_BLK_F_RO = push_bit 5 1"
definition VIRTIO_BLK_F_FLUSH :: u64 where "VIRTIO_BLK_F_FLUSH = push_bit 9 1"
definition VIRTIO_BLK_F_DISCARD :: u64 where "VIRTIO_BLK_F_DISCARD = push_bit 13 1"

definition VIRTIO_BLK_T_IN :: u32 where "VIRTIO_BLK_T_IN = 0"
definition VIRTIO_BLK_T_OUT :: u32 where "VIRTIO_BLK_T_OUT = 1"
definition VIRTIO_BLK_T_FLUSH :: u32 where "VIRTIO_BLK_T_FLUSH = 4"
definition VIRTIO_BLK_T_DISCARD :: u32 where "VIRTIO_BLK_T_DISCARD = 11"

definition VIRTIO_BLK_S_OK :: u8 where "VIRTIO_BLK_S_OK = 0"
definition VIRTIO_BLK_S_IOERR :: u8 where "VIRTIO_BLK_S_IOERR = 1"
definition VIRTIO_BLK_S_UNSUPP :: u8 where "VIRTIO_BLK_S_UNSUPP = 2"

lemmas blk_types =
  VIRTIO_BLK_T_IN_def VIRTIO_BLK_T_OUT_def VIRTIO_BLK_T_FLUSH_def VIRTIO_BLK_T_DISCARD_def

section \<open>Disks and requests\<close>

record disk_info =
  capacity_sectors :: u64
  read_only :: bool
  discard_sector_alignment :: u32

datatype request_kind =
  In u64 "u8 list"
  | Out u64 "u8 list" bool
  | Flush
  | Discard u64 u64

record completed_request =
  done_token :: u32
  done_status :: u8
  done_request :: request_kind

datatype submit_outcome = Done completed_request | Pending

section \<open>The configuration space\<close>

definition BlkConfig_new :: "disk_info \<Rightarrow> u8 list" where
  "BlkConfig_new info =
     (let bytes = replicate BLK_CONFIG_LEN 0;
          bytes = put 0 (to_le_bytes 8 (capacity_sectors info)) bytes;
          bytes = put 12 (to_le_bytes 4 SEG_MAX) bytes;
          bytes = put 36 (to_le_bytes 4 MAX_DISCARD_SECTORS) bytes;
          bytes = put 40 (to_le_bytes 4 (1 :: u32)) bytes;
          bytes = put 44 (to_le_bytes 4 (max (discard_sector_alignment info) 1)) bytes
      in bytes)"

definition BlkConfig_read :: "u8 list \<Rightarrow> u64 \<Rightarrow> nat \<Rightarrow> u8 list" where
  "BlkConfig_read bytes offset n = config_bytes bytes offset n"

section \<open>Result targets\<close>

record write_targets =
  wt_data :: "(u64 \<times> u32) list"
  wt_data_len :: nat
  wt_status :: u64

definition lengths :: "(u64 \<times> u32) list \<Rightarrow> nat" where
  "lengths ds = sum_list (map (\<lambda>(_, len). unat len) ds)"

definition WriteTargets_split :: "(u64 \<times> u32) list \<Rightarrow> write_targets option" where
  "WriteTargets_split writable =
     (if writable = [] then None
      else
        let (last_addr, last_len) = last writable in
        if last_len = 0 then None
        else case checked_add last_addr (ucast last_len - 1) of
          None \<Rightarrow> None
        | Some status \<Rightarrow>
            (let data = (if last_len = 1 then butlast writable
                else butlast writable @ [(last_addr, last_len - 1)]) in
             Some \<lparr>wt_data = data, wt_data_len = lengths data, wt_status = status\<rparr>))"

fun finish_data ::
    "('m, 'chain) mem_ops \<Rightarrow> (u64 \<times> u32) list \<Rightarrow> u8 list \<Rightarrow> 'm \<Rightarrow> 'm \<times> (device_error + unit)" where
  "finish_data mo [] rest m = (m, Inr ())"
| "finish_data mo ((addr, len) # ds) rest m =
     (let n = min (length rest) (unat len) in
      case mo_write_slice mo (take n rest) addr m of
        (m, Inl _) \<Rightarrow> (m, Inl (NeedsReset ''block descriptor''))
      | (m, Inr _) \<Rightarrow> finish_data mo ds (drop n rest) m)"

definition WriteTargets_finish ::
    "('m, 'chain) mem_ops \<Rightarrow> u8 \<Rightarrow> u8 list option \<Rightarrow> write_targets \<Rightarrow> 'm \<Rightarrow>
     'm \<times> (device_error + u32)" where
  "WriteTargets_finish mo status data t m =
     (case (case data of None \<Rightarrow> (m, Inr ()) | Some bytes \<Rightarrow> finish_data mo (wt_data t) bytes m) of
        (m, Inl e) \<Rightarrow> (m, Inl e)
      | (m, Inr _) \<Rightarrow>
          (case mo_write_slice mo [status] (wt_status t) m of
             (m, Inl _) \<Rightarrow> (m, Inl (NeedsReset ''block status''))
           | (m, Inr _) \<Rightarrow>
               (m, Inr (1 + (case data of None \<Rightarrow> 0 | Some bytes \<Rightarrow> of_nat (length bytes))))))"

section \<open>Parsing\<close>

datatype decoded = Reject u8 write_targets | Submit request_kind write_targets

definition capacity_bytes :: "disk_info \<Rightarrow> u64" where
  "capacity_bytes info = saturating_mul (capacity_sectors info) SECTOR_SIZE"

definition data_offset :: "disk_info \<Rightarrow> u64 \<Rightarrow> nat \<Rightarrow> u64 option" where
  "data_offset info sector len =
     (if len > MAX_REQUEST_BYTES \<or> len mod unat SECTOR_SIZE \<noteq> 0 then None
      else case checked_mul sector SECTOR_SIZE of
        None \<Rightarrow> None
      | Some offset \<Rightarrow>
          (case checked_add offset (of_nat len) of
             None \<Rightarrow> None
           | Some e \<Rightarrow> if e \<le> capacity_bytes info then Some offset else None))"

definition discard_range :: "disk_info \<Rightarrow> u64 \<Rightarrow> u32 \<Rightarrow> (u64 \<times> u64) option" where
  "discard_range info sector sectors =
     (if sectors = 0 \<or> sectors > MAX_DISCARD_SECTORS then None
      else case checked_mul sector SECTOR_SIZE of
        None \<Rightarrow> None
      | Some offset \<Rightarrow>
          (let len = ucast sectors * SECTOR_SIZE in
           case checked_add offset len of
             None \<Rightarrow> None
           | Some e \<Rightarrow>
               (if e > capacity_bytes info then None
                else
                  let alignment = ucast (max (discard_sector_alignment info) 1) * SECTOR_SIZE in
                  if offset mod alignment = 0 \<and> len mod alignment = 0 then Some (offset, len)
                  else None)))"

fun scan_writable :: "descriptor list \<Rightarrow> (u64 \<times> u32) list \<Rightarrow> bool \<Rightarrow> (u64 \<times> u32) list \<times> bool" where
  "scan_writable [] writable after = (writable, after)"
| "scan_writable (d # ds) writable after =
     (if d_write_only d then scan_writable ds (writable @ [(d_addr d, d_len d)]) after
      else scan_writable ds writable (after \<or> writable \<noteq> []))"

text \<open>The arms of the request type: \<open>Inl\<close> is the status of a rejected chain.\<close>

definition parse_kind ::
    "disk_info \<Rightarrow> u64 \<Rightarrow> u32 \<Rightarrow> u64 \<Rightarrow> u8 list \<Rightarrow> write_targets \<Rightarrow> u8 + request_kind" where
  "parse_kind info negotiated request_type sector reader targets =
     (let payload = length reader in
      if request_type = VIRTIO_BLK_T_IN then
        (let len = wt_data_len targets in
         case data_offset info sector len of
           None \<Rightarrow> Inl VIRTIO_BLK_S_IOERR
         | Some offset \<Rightarrow>
             if payload = 0 then Inr (In offset (replicate len 0)) else Inl VIRTIO_BLK_S_IOERR)
      else if request_type = VIRTIO_BLK_T_OUT then
        (case data_offset info sector payload of
           None \<Rightarrow> Inl VIRTIO_BLK_S_IOERR
         | Some offset \<Rightarrow>
             if \<not> read_only info \<and> wt_data_len targets = 0 then
               (case read_exact payload reader of
                  None \<Rightarrow> Inl VIRTIO_BLK_S_IOERR
                | Some (buf, _) \<Rightarrow> Inr (Out offset buf (negotiated AND VIRTIO_BLK_F_FLUSH = 0)))
             else Inl VIRTIO_BLK_S_IOERR)
      else if request_type = VIRTIO_BLK_T_FLUSH then
        (if negotiated AND VIRTIO_BLK_F_FLUSH = 0 then Inl VIRTIO_BLK_S_UNSUPP
         else if payload \<noteq> 0 \<or> wt_data_len targets \<noteq> 0 then Inl VIRTIO_BLK_S_IOERR
         else Inr Flush)
      else if request_type = VIRTIO_BLK_T_DISCARD then
        (if negotiated AND VIRTIO_BLK_F_DISCARD = 0 then Inl VIRTIO_BLK_S_UNSUPP
         else if payload \<noteq> DISCARD_PAYLOAD_LEN \<or> wt_data_len targets \<noteq> 0 then Inl VIRTIO_BLK_S_IOERR
         else case read_exact DISCARD_PAYLOAD_LEN reader of
           None \<Rightarrow> Inl VIRTIO_BLK_S_IOERR
         | Some (bytes, _) \<Rightarrow>
             (let flags = from_le_bytes (slice 12 4 bytes) :: u32 in
              if flags \<noteq> 0 then Inl VIRTIO_BLK_S_UNSUPP
              else case discard_range info (from_le_bytes (slice 0 8 bytes)) (from_le_bytes (slice 8 4 bytes)) of
                None \<Rightarrow> Inl VIRTIO_BLK_S_IOERR
              | Some (offset, len) \<Rightarrow> Inr (Discard offset len)))
      else Inl VIRTIO_BLK_S_UNSUPP)"

definition parse ::
    "('m, 'chain) mem_ops \<Rightarrow> 'chain \<Rightarrow> disk_info \<Rightarrow> u64 \<Rightarrow> 'm \<Rightarrow> 'm \<times> (device_error + decoded)" where
  "parse mo chain info negotiated m =
     (case mo_descriptors mo chain m of
        (m, ds) \<Rightarrow>
          (let (writable, readable_after_writable) = scan_writable ds [] False in
           case WriteTargets_split writable of
             None \<Rightarrow> (m, Inl (NeedsReset ''block status''))
           | Some targets \<Rightarrow>
               if readable_after_writable then (m, Inr (Reject VIRTIO_BLK_S_IOERR targets))
               else case mo_reader mo chain m of
                 (m, Inl _) \<Rightarrow> (m, Inr (Reject VIRTIO_BLK_S_IOERR targets))
               | (m, Inr reader) \<Rightarrow>
                   (case read_exact REQUEST_HEADER_LEN reader of
                      None \<Rightarrow> (m, Inr (Reject VIRTIO_BLK_S_IOERR targets))
                    | Some (hdr, reader) \<Rightarrow>
                        (m, Inr (case parse_kind info negotiated (from_le_bytes (slice 0 4 hdr))
                              (from_le_bytes (slice 8 8 hdr)) reader targets of
                            Inl status \<Rightarrow> Reject status targets
                          | Inr kind \<Rightarrow> Submit kind targets)))))"

section \<open>Deferred chains\<close>

record deferred_chain =
  dc_token :: u32
  dc_head :: u16
  dc_targets :: write_targets

record inflight =
  if_entries :: "deferred_chain list"
  if_next_token :: u32

definition Inflight_default :: inflight where
  "Inflight_default = \<lparr>if_entries = [], if_next_token = 0\<rparr>"

definition Inflight_next_token :: "inflight \<Rightarrow> inflight \<times> u32" where
  "Inflight_next_token t = (t\<lparr>if_next_token := if_next_token t + 1\<rparr>, if_next_token t)"

definition Inflight_insert :: "u32 \<Rightarrow> u16 \<Rightarrow> write_targets \<Rightarrow> inflight \<Rightarrow> inflight" where
  "Inflight_insert token head targets t =
     t\<lparr>if_entries := if_entries t @ [\<lparr>dc_token = token, dc_head = head, dc_targets = targets\<rparr>]\<rparr>"

text \<open>\<open>swap_remove\<close> moves the last entry into the hole.\<close>

definition swap_remove :: "nat \<Rightarrow> 'a list \<Rightarrow> 'a list" where
  "swap_remove i xs = (if i = length xs - 1 then butlast xs else (butlast xs)[i := last xs])"

fun position :: "('a \<Rightarrow> bool) \<Rightarrow> 'a list \<Rightarrow> nat option" where
  "position P [] = None"
| "position P (x # xs) = (if P x then Some 0 else map_option Suc (position P xs))"

definition Inflight_remove :: "u32 \<Rightarrow> inflight \<Rightarrow> inflight \<times> (u16 \<times> write_targets) option" where
  "Inflight_remove token t =
     (case position (\<lambda>e. dc_token e = token) (if_entries t) of
        None \<Rightarrow> (t, None)
      | Some i \<Rightarrow>
          (let entry = if_entries t ! i in
           (t\<lparr>if_entries := swap_remove i (if_entries t)\<rparr>, Some (dc_head entry, dc_targets entry))))"

definition Inflight_is_empty :: "inflight \<Rightarrow> bool" where
  "Inflight_is_empty t \<longleftrightarrow> if_entries t = []"

end
