(* ===== verification/Drain_Invariant.thy ===== *)
theory Drain_Invariant
  imports Virt_Queues
begin

text \<open>
  A drain changes the device only through its callback: what every call of the callback keeps of the
  device state, the drain keeps, however long it runs and however it ends.
\<close>

definition process_keeps :: "('s \<Rightarrow> bool) \<Rightarrow> ('m, 'chain, 's) process \<Rightarrow> bool" where
  "process_keeps I proc \<longleftrightarrow>
     (\<forall>s m chain s' m' r. I s \<longrightarrow> proc s m chain = (s', m', r) \<longrightarrow> I s')"

lemma process_keepsI:
  "(\<And>s m chain s' m' r. I s \<Longrightarrow> proc s m chain = (s', m', r) \<Longrightarrow> I s') \<Longrightarrow> process_keeps I proc"
  by (auto simp: process_keeps_def)

lemma drain_one_keeps:
  assumes "process_keeps I proc" "drain_one ops proc indirect table qsize chain st = (st', r)"
    and "I (dr_device st)"
  shows "I (dr_device st')"
proof -
  obtain s m x where p: "proc (dr_device st) (dr_memory st) chain = (s, m, x)" by (rule prod_cases3)
  have "I s" using assms(1,3) p unfolding process_keeps_def by blast
  then show ?thesis
    using assms(2,3) p
    by (auto simp: drain_one_def Let_def split: if_split_asm sum.split_asm bool.split_asm
        completion.split_asm prod.split_asm)
qed

lemma drain_chains_keeps:
  assumes "drain_chains ops proc indirect table qsize st = Some x"
    and "process_keeps I proc" "I (dr_device st)"
  shows "I (dr_device (fst x))"
  using assms
proof (induction rule: drain_chains_induct)
  case (step dc ops proc indirect table qsize st x)
  obtain q m nx where iter: "q_iter_next ops (dr_queue st) (dr_memory st) = (q, m, nx)"
    by (rule prod_cases3)
  let ?st = "st\<lparr>dr_queue := q, dr_memory := m\<rparr>"
  show ?case
  proof (cases "\<exists>c. nx = Inr (Some c)")
    case True
    then obtain c where c: "nx = Inr (Some c)" by blast
    obtain st' r where one: "drain_one ops proc indirect table qsize c ?st = (st', r)"
      by (cases "drain_one ops proc indirect table qsize c ?st")
    have I: "I (dr_device st')" by (rule drain_one_keeps[OF step.prems(1) one]) (use step.prems(2) in simp)
    show ?thesis
    proof (cases r)
      case (Inl e)
      then show ?thesis using step.hyps iter c one I by (auto simp: queue_error_def)
    next
      case (Inr u)
      then have "dc ops proc indirect table qsize st' = Some x"
        using step.hyps iter c one by (simp add: queue_error_def)
      from step.IH[OF this step.prems(1) I] show ?thesis .
    qed
  next
    case False
    then have "dr_device (fst x) = dr_device st"
      using step.hyps iter by (cases nx) (auto simp: queue_error_def split: option.splits)
    then show ?thesis using step.prems by simp
  qed
qed

lemma drain_round_keeps:
  assumes "drain_round ops proc indirect st = Some (st', r)"
    and "process_keeps I proc" "I (dr_device st)"
  shows "I (dr_device st')"
proof -
  obtain q m x where dis: "q_disable_notification ops (dr_queue st) (dr_memory st) = (q, m, x)"
    by (rule prod_cases3)
  let ?st = "st\<lparr>dr_queue := q, dr_memory := m\<rparr>"
  show ?thesis
  proof (cases x)
    case (Inl e)
    then show ?thesis using assms dis by (auto simp: drain_round_def queue_error_def)
  next
    case (Inr u)
    then obtain st1 r1 where dc:
      "drain_chains ops proc indirect (q_desc_table ops q) (q_size ops q) ?st = Some (st1, r1)"
      using assms(1) dis by (auto simp: drain_round_def queue_error_def split: option.split_asm)
    have "I (dr_device st1)" using drain_chains_keeps[OF dc assms(2)] assms(3) by simp
    moreover have "dr_device st' = dr_device st1"
      using assms(1) dis Inr dc
      by (auto simp: drain_round_def queue_error_def split: sum.split_asm prod.split_asm)
    ultimately show ?thesis by simp
  qed
qed

lemma drain_rounds_keeps:
  assumes "drain_rounds ops proc indirect st = Some x"
    and "process_keeps I proc" "I (dr_device st)"
  shows "I (dr_device (fst x))"
  using assms
proof (induction rule: drain_rounds_induct)
  case (step dr ops proc indirect st x)
  obtain st' r where round: "drain_round ops proc indirect st = Some (st', r)"
    using step.hyps by (auto split: option.splits)
  have I: "I (dr_device st')" by (rule drain_round_keeps[OF round step.prems])
  show ?case
  proof (cases "r = Inr True")
    case True
    then have "dr ops proc indirect st' = Some x" using step.hyps round by auto
    from step.IH[OF this step.prems(1) I] show ?thesis .
  next
    case False
    then show ?thesis using step.hyps round I by (auto split: sum.splits if_splits)
  qed
qed

lemma VirtQueues_drain_keeps:
  assumes "VirtQueues_drain ops proc index s vq = Some (vq', s', r)"
    and "process_keeps I proc" "I s"
  shows "I s'"
proof (cases "\<exists>q d. get_at (vq_queues vq) index = Some q \<and> get_at (vq_deferred vq) index = Some d \<and>
    q_ready ops q")
  case True
  then obtain q d where qd: "get_at (vq_queues vq) index = Some q" "get_at (vq_deferred vq) index = Some d"
    "q_ready ops q" by blast
  let ?st = "\<lparr>dr_queue = q, dr_memory = vq_memory vq, dr_deferred = d, dr_device = s, dr_completed = False\<rparr>"
  obtain st x where dr: "drain_rounds ops proc (vq_indirect vq) ?st = Some (st, x)"
    using assms(1) qd by (auto simp: VirtQueues_drain_def split: Option.bind_splits)
  have "I (dr_device st)" using drain_rounds_keeps[OF dr assms(2)] assms(3) by simp
  moreover have "s' = dr_device st"
    using assms(1) qd dr
    by (auto simp: VirtQueues_drain_def split: sum.split_asm if_split_asm prod.split_asm)
  ultimately show ?thesis by simp
next
  case False
  then show ?thesis
    using assms by (auto simp: VirtQueues_drain_def split: option.split_asm if_split_asm)
qed

end
