(* ===== verification/Blk.thy ===== *)
theory Blk
  imports Blk_Request Drain_Invariant
begin

text \<open>
  The block device of \<open>src/src/vmm/src/virtio/blk/device.rs\<close> over an arbitrary disk backend, and the
  synchronous backend of \<open>imago.rs\<close> over an arbitrary disk image.

  \<open>disk_ops\<close> is the trait \<open>DiskBackend\<close>, with the result of each call as the changed backend state.
  The image itself (crate \<open>imago\<close>) is a parameter, the operations \<open>image_ops\<close>; \<open>imago\<close> makes a disk
  backend of it. Registering and removing the backend's source goes through the workers'
  registrar, a parameter with state \<open>'h\<close>.
\<close>

section \<open>The backend\<close>

record 'b disk_ops =
  db_disk_info :: "'b \<Rightarrow> disk_info"
  db_submit :: "u32 \<Rightarrow> request_kind \<Rightarrow> 'b \<Rightarrow> 'b \<times> submit_outcome"
  db_completions :: "'b \<Rightarrow> 'b \<times> completed_request list"
  db_event_source :: "'b \<Rightarrow> 'b \<times> bool"
  db_flush :: "'b \<Rightarrow> 'b \<times> (error_kind + unit)"

record 'i image_ops =
  im_read :: "u8 list \<Rightarrow> u64 \<Rightarrow> 'i \<Rightarrow> 'i \<times> u8 list \<times> (error_kind + unit)"
  im_write :: "u8 list \<Rightarrow> u64 \<Rightarrow> 'i \<Rightarrow> 'i \<times> (error_kind + unit)"
  im_discard_to_zero :: "u64 \<Rightarrow> u64 \<Rightarrow> 'i \<Rightarrow> 'i \<times> (error_kind + unit)"
  im_flush :: "'i \<Rightarrow> 'i \<times> (error_kind + unit)"
  im_sync :: "'i \<Rightarrow> 'i \<times> (error_kind + unit)"
  im_size :: "'i \<Rightarrow> u64"

record 'i imago_backend =
  ib_image :: 'i
  ib_disk_info :: disk_info

definition SECTOR_SHIFT :: nat where "SECTOR_SHIFT = 9"

text \<open>Opening the path is the host's; an opened image becomes a backend.\<close>

definition ImagoBackend_open ::
    "'i image_ops \<Rightarrow> error_kind + 'i \<Rightarrow> bool \<Rightarrow> error_kind + 'i imago_backend" where
  "ImagoBackend_open im opened ro =
     map_sum id (\<lambda>image. \<lparr>ib_image = image, ib_disk_info =
       \<lparr>capacity_sectors = drop_bit SECTOR_SHIFT (im_size im image), read_only = ro,
        discard_sector_alignment = 1\<rparr>\<rparr>) opened"

definition imago_flush :: "'i image_ops \<Rightarrow> 'i imago_backend \<Rightarrow> 'i imago_backend \<times> (error_kind + unit)" where
  "imago_flush im b =
     (case im_flush im (ib_image b) of
        (i, Inl e) \<Rightarrow> (b\<lparr>ib_image := i\<rparr>, Inl e)
      | (i, Inr _) \<Rightarrow> (case im_sync im i of (i, r) \<Rightarrow> (b\<lparr>ib_image := i\<rparr>, r)))"

fun imago_execute ::
    "'i image_ops \<Rightarrow> request_kind \<Rightarrow> 'i imago_backend \<Rightarrow>
     'i imago_backend \<times> request_kind \<times> (error_kind + unit)" where
  "imago_execute im (In offset buf) b =
     (case im_read im buf offset (ib_image b) of
        (i, buf, r) \<Rightarrow> (b\<lparr>ib_image := i\<rparr>, In offset buf, r))"
| "imago_execute im (Out offset buf sync) b =
     (case im_write im buf offset (ib_image b) of
        (i, Inl e) \<Rightarrow> (b\<lparr>ib_image := i\<rparr>, Out offset buf sync, Inl e)
      | (i, Inr _) \<Rightarrow>
          (if sync then (case imago_flush im (b\<lparr>ib_image := i\<rparr>) of (b, r) \<Rightarrow> (b, Out offset buf sync, r))
           else (b\<lparr>ib_image := i\<rparr>, Out offset buf sync, Inr ())))"
| "imago_execute im Flush b = (case imago_flush im b of (b, r) \<Rightarrow> (b, Flush, r))"
| "imago_execute im (Discard offset len) b =
     (case im_discard_to_zero im offset len (ib_image b) of
        (i, r) \<Rightarrow> (b\<lparr>ib_image := i\<rparr>, Discard offset len, r))"

definition imago_submit ::
    "'i image_ops \<Rightarrow> u32 \<Rightarrow> request_kind \<Rightarrow> 'i imago_backend \<Rightarrow> 'i imago_backend \<times> submit_outcome" where
  "imago_submit im token request b =
     (case imago_execute im request b of
        (b, request, r) \<Rightarrow>
          (b, Done \<lparr>done_token = token,
             done_status = (case r of Inr _ \<Rightarrow> VIRTIO_BLK_S_OK | Inl _ \<Rightarrow> VIRTIO_BLK_S_IOERR),
             done_request = request\<rparr>))"

definition imago :: "'i image_ops \<Rightarrow> 'i imago_backend disk_ops" where
  "imago im =
     \<lparr>db_disk_info = ib_disk_info, db_submit = imago_submit im, db_completions = (\<lambda>b. (b, [])),
      db_event_source = (\<lambda>b. (b, False)), db_flush = imago_flush im\<rparr>"

section \<open>The device\<close>

record ('q, 'm, 'c) blk_active =
  ba_queues :: "('q, 'm) virt_queues"
  ba_interrupt :: "'c mmio_interrupt"
  ba_source :: "u32 option"
  ba_inflight :: inflight

record ('b, 'q, 'm, 'c) virtio_blk =
  bl_spec :: device_spec
  bl_negotiated :: u64
  bl_config :: "u8 list"
  bl_disk_info :: disk_info
  bl_backend :: 'b
  bl_active :: "('q, 'm, 'c) blk_active option"

record ('b, 'h, 'q, 'm, 'chain, 'desc, 'c) blk_env =
  be_disk :: "'b disk_ops"
  be_mem :: "('m, 'chain) mem_ops"
  be_queue :: "('q, 'm, 'chain, 'desc) queue_ops"
  be_line :: "'c set_line"
  be_register :: "'h \<Rightarrow> 'h \<times> (event_error + u32)"
  be_deregister :: "u32 \<Rightarrow> 'h \<Rightarrow> 'h"

definition blk_features :: "disk_info \<Rightarrow> u64" where
  "blk_features info =
     (let features = VIRTIO_F_VERSION_1 OR VIRTIO_BLK_F_SEG_MAX OR VIRTIO_F_INDIRECT_DESC in
      if read_only info then features OR VIRTIO_BLK_F_RO
      else features OR VIRTIO_BLK_F_FLUSH OR VIRTIO_BLK_F_DISCARD)"

definition VirtioBlk_new :: "'b disk_ops \<Rightarrow> 'b \<Rightarrow> ('b, 'q, 'm, 'c) virtio_blk" where
  "VirtioBlk_new ops b =
     (let info = db_disk_info ops b in
      \<lparr>bl_spec = \<lparr>device_id = BLK_DEVICE_ID, spec_name = ''block'', spec_features = blk_features info,
         config_len = BLK_CONFIG_LEN, queue_max = [QUEUE_MAX], snapshot = SnapshotUnsupported\<rparr>,
       bl_negotiated = 0, bl_config = BlkConfig_new info, bl_disk_info = info, bl_backend = b,
       bl_active = None\<rparr>)"

definition blk_set_features ::
    "u64 \<Rightarrow> ('b, 'q, 'm, 'c) virtio_blk \<Rightarrow> ('b, 'q, 'm, 'c) virtio_blk \<times> (u64 + unit)" where
  "blk_set_features negotiated v =
     (let unsupported = negotiated AND NOT (spec_features (bl_spec v)) in
      if unsupported \<noteq> 0 then (v, Inl unsupported) else (v\<lparr>bl_negotiated := negotiated\<rparr>, Inr ()))"

definition blk_read_config :: "u64 \<Rightarrow> nat \<Rightarrow> ('b, 'q, 'm, 'c) virtio_blk \<Rightarrow> u8 list" where
  "blk_read_config offset n v = BlkConfig_read (bl_config v) offset n"

definition complete_request ::
    "('m, 'chain) mem_ops \<Rightarrow> write_targets \<Rightarrow> completed_request \<Rightarrow> 'm \<Rightarrow> 'm \<times> (device_error + u32)" where
  "complete_request mo targets completed m =
     WriteTargets_finish mo (done_status completed)
       (case done_request completed of
          In _ buf \<Rightarrow> if done_status completed = VIRTIO_BLK_S_OK then Some buf else None
        | _ \<Rightarrow> None) targets m"

text \<open>The callback of the drain: the device state it changes is the backend and the table.\<close>

definition blk_process ::
    "'b disk_ops \<Rightarrow> ('m, 'chain) mem_ops \<Rightarrow> disk_info \<Rightarrow> u64 \<Rightarrow> ('m, 'chain, 'b \<times> inflight) process" where
  "blk_process ops mo info negotiated = (\<lambda>(b, t) m chain.
     case parse mo chain info negotiated m of
       (m, Inl e) \<Rightarrow> ((b, t), m, Inl e)
     | (m, Inr (Reject status targets)) \<Rightarrow>
         (case WriteTargets_finish mo status None targets m of
            (m, r) \<Rightarrow> ((b, t), m, map_sum id Used r))
     | (m, Inr (Submit request targets)) \<Rightarrow>
         (let (t, token) = Inflight_next_token t in
          case db_submit ops token request b of
            (b, Done completed) \<Rightarrow>
              (case complete_request mo targets completed m of
                 (m, r) \<Rightarrow> ((b, t), m, map_sum id Used r))
          | (b, Pending) \<Rightarrow>
              ((b, Inflight_insert token (mo_head_index mo chain) targets t), m, Inr Deferred)))"

definition blk_raise ::
    "'c set_line \<Rightarrow> bool \<Rightarrow> ('q, 'm, 'c) blk_active \<Rightarrow> ('q, 'm, 'c) blk_active" where
  "blk_raise sl pulse a =
     (if pulse then a\<lparr>ba_interrupt := MmioInterrupt_raise sl (ba_interrupt a)\<rparr> else a)"

definition process_queue ::
    "('b, 'h, 'q, 'm, 'chain, 'desc, 'c) blk_env \<Rightarrow> ('b, 'q, 'm, 'c) virtio_blk \<Rightarrow>
     (('b, 'q, 'm, 'c) virtio_blk \<times> (device_error + unit)) option" where
  "process_queue env v =
     (case bl_active v of
        None \<Rightarrow> Some (v, Inl (NeedsReset ''block device is not active''))
      | Some a \<Rightarrow>
          (case VirtQueues_drain (be_queue env)
              (blk_process (be_disk env) (be_mem env) (bl_disk_info v) (bl_negotiated v)) 0
              (bl_backend v, ba_inflight a) (ba_queues a) of
             None \<Rightarrow> None
           | Some (vq, (b, t), r) \<Rightarrow>
               (let a = a\<lparr>ba_queues := vq, ba_inflight := t\<rparr> in
                case r of
                  Inl e \<Rightarrow> Some (v\<lparr>bl_backend := b, bl_active := Some a\<rparr>, Inl e)
                | Inr pulse \<Rightarrow>
                    Some (v\<lparr>bl_backend := b, bl_active := Some (blk_raise (be_line env) pulse a)\<rparr>, Inr ()))))"

fun complete_all ::
    "('b, 'h, 'q, 'm, 'chain, 'desc, 'c) blk_env \<Rightarrow> completed_request list \<Rightarrow> bool \<Rightarrow>
     ('q, 'm, 'c) blk_active \<Rightarrow> ('q, 'm, 'c) blk_active \<times> (device_error + bool)" where
  "complete_all env [] pulse a = (a, Inr pulse)"
| "complete_all env (d # ds) pulse a =
     (case Inflight_remove (done_token d) (ba_inflight a) of
        (t, None) \<Rightarrow> (a, Inl (NeedsReset ''block completion token''))
      | (t, Some (head, targets)) \<Rightarrow>
          (case complete_request (be_mem env) targets d (vq_memory (ba_queues a)) of
             (m, r) \<Rightarrow>
               (let a = a\<lparr>ba_inflight := t, ba_queues := (ba_queues a)\<lparr>vq_memory := m\<rparr>\<rparr> in
                case r of
                  Inl e \<Rightarrow> (a, Inl e)
                | Inr used \<Rightarrow>
                    (case VirtQueues_complete (be_queue env) 0 head used (ba_queues a) of
                       (vq, Inl e) \<Rightarrow> (a\<lparr>ba_queues := vq\<rparr>, Inl e)
                     | (vq, Inr n) \<Rightarrow> complete_all env ds (pulse \<or> n) (a\<lparr>ba_queues := vq\<rparr>)))))"

text \<open>A backend that always has completions keeps the loop going: \<open>None\<close>.\<close>

partial_function (option) completion_loop ::
    "('b, 'h, 'q, 'm, 'chain, 'desc, 'c) blk_env \<Rightarrow> bool \<Rightarrow> 'b \<times> ('q, 'm, 'c) blk_active \<Rightarrow>
     (('b \<times> ('q, 'm, 'c) blk_active) \<times> (device_error + bool)) option" where
  "completion_loop env pulse ba =
     (case ba of
        (b, a) \<Rightarrow>
          (case db_completions (be_disk env) b of
             (b, completed) \<Rightarrow>
               if completed = [] then Some ((b, a), Inr pulse)
               else
                 (case complete_all env completed pulse a of
                    (a, r) \<Rightarrow>
                      (case r of
                         Inl e \<Rightarrow> Some ((b, a), Inl e)
                       | Inr n \<Rightarrow> completion_loop env n (b, a)))))"

definition backend_ready ::
    "('b, 'h, 'q, 'm, 'chain, 'desc, 'c) blk_env \<Rightarrow> u32 \<Rightarrow> ('b, 'q, 'm, 'c) virtio_blk \<Rightarrow>
     (('b, 'q, 'm, 'c) virtio_blk \<times> (device_error + unit)) option" where
  "backend_ready env i v =
     (case bl_active v of
        None \<Rightarrow> Some (v, Inl (NeedsReset ''block device is not active''))
      | Some a \<Rightarrow>
          (if ba_source a \<noteq> Some i then Some (v, Inr ())
           else case completion_loop env False (bl_backend v, a) of
             None \<Rightarrow> None
           | Some ((b, a), Inl e) \<Rightarrow> Some (v\<lparr>bl_backend := b, bl_active := Some a\<rparr>, Inl e)
           | Some ((b, a), Inr pulse) \<Rightarrow>
               Some (v\<lparr>bl_backend := b, bl_active := Some (blk_raise (be_line env) pulse a)\<rparr>, Inr ())))"

definition blk_activate ::
    "('b, 'h, 'q, 'm, 'chain, 'desc, 'c) blk_env \<Rightarrow> ('q, 'm) virt_queues \<Rightarrow> 'c mmio_interrupt \<Rightarrow>
     'h \<times> ('b, 'q, 'm, 'c) virtio_blk \<Rightarrow> ('h \<times> ('b, 'q, 'm, 'c) virtio_blk) \<times> (device_error + unit)" where
  "blk_activate env vq intr = (\<lambda>(h, v).
     if bl_active v \<noteq> None then ((h, v), Inl (NeedsReset ''block device is already active''))
     else if \<not> VirtQueues_is_ready (be_queue env) vq 0
     then ((h, v), Inl (NeedsReset ''block queue is not ready''))
     else
       let start = (\<lambda>src. \<lparr>ba_queues = vq, ba_interrupt = intr, ba_source = src,
              ba_inflight = Inflight_default\<rparr>) in
       case db_event_source (be_disk env) (bl_backend v) of
         (b, False) \<Rightarrow> ((h, v\<lparr>bl_backend := b, bl_active := Some (start None)\<rparr>), Inr ())
       | (b, True) \<Rightarrow>
           (case be_register env h of
              (h, Inl _) \<Rightarrow> ((h, v\<lparr>bl_backend := b\<rparr>), Inl (NeedsReset ''block backend source''))
            | (h, Inr i) \<Rightarrow> ((h, v\<lparr>bl_backend := b, bl_active := Some (start (Some i))\<rparr>), Inr ())))"

definition blk_flush ::
    "'b disk_ops \<Rightarrow> ('b, 'q, 'm, 'c) virtio_blk \<Rightarrow> ('b, 'q, 'm, 'c) virtio_blk \<times> (device_error + unit)" where
  "blk_flush ops v =
     (case db_flush ops (bl_backend v) of
        (b, r) \<Rightarrow> (v\<lparr>bl_backend := b\<rparr>, map_sum (\<lambda>_. Fatal ''block flush'') id r))"

definition blk_reset ::
    "('b, 'h, 'q, 'm, 'chain, 'desc, 'c) blk_env \<Rightarrow> 'h \<times> ('b, 'q, 'm, 'c) virtio_blk \<Rightarrow>
     ('h \<times> ('b, 'q, 'm, 'c) virtio_blk) \<times> (device_error + unit)" where
  "blk_reset env = (\<lambda>(h, v).
     let v = v\<lparr>bl_negotiated := 0\<rparr> in
     case bl_active v of
       None \<Rightarrow> (case blk_flush (be_disk env) v of (v, r) \<Rightarrow> ((h, v), r))
     | Some a \<Rightarrow>
         (let v = v\<lparr>bl_active := None\<rparr>;
              h = (case ba_source a of None \<Rightarrow> h | Some i \<Rightarrow> be_deregister env i h) in
          if \<not> Inflight_is_empty (ba_inflight a)
          then ((h, v), Inl (Fatal ''block requests in flight at reset''))
          else case blk_flush (be_disk env) v of (v, r) \<Rightarrow> ((h, v), r)))"

definition blk_quiesce ::
    "'b disk_ops \<Rightarrow> ('b, 'q, 'm, 'c) virtio_blk \<Rightarrow> ('b, 'q, 'm, 'c) virtio_blk \<times> (device_error + unit)" where
  "blk_quiesce ops v = blk_flush ops v"

definition blk_on_event ::
    "('b, 'h, 'q, 'm, 'chain, 'desc, 'c) blk_env \<Rightarrow> device_event \<Rightarrow> ('b, 'q, 'm, 'c) virtio_blk \<Rightarrow>
     (('b, 'q, 'm, 'c) virtio_blk \<times> (device_error + unit)) option" where
  "blk_on_event env event v =
     (case event of
        QueueKick i \<Rightarrow>
          (if i = 0 then process_queue env v
           else Some (v, Inl (Unsupported ''block queue index'')))
      | BackendReady i \<Rightarrow> backend_ready env i v)"


section \<open>What reaches the backend\<close>

text \<open>The contract of a request, for a disk and the negotiated features: \<open>len\<close> is the room the driver
  gave for the data.\<close>

definition in_disk :: "disk_info \<Rightarrow> u64 \<Rightarrow> nat \<Rightarrow> bool" where
  "in_disk info offset len \<longleftrightarrow> 512 dvd unat offset \<and> 512 dvd len \<and>
     unat offset + len \<le> unat (capacity_sectors info) * 512"

fun request_ok :: "disk_info \<Rightarrow> u64 \<Rightarrow> nat \<Rightarrow> request_kind \<Rightarrow> bool" where
  "request_ok info negotiated len (In offset buf) =
     (in_disk info offset (length buf) \<and> length buf = len \<and> len \<le> 4194304)"
| "request_ok info negotiated len (Out offset buf sync) =
     (in_disk info offset (length buf) \<and> len = 0 \<and> length buf \<le> 4194304 \<and> \<not> read_only info \<and>
      (sync \<longleftrightarrow> negotiated AND VIRTIO_BLK_F_FLUSH = 0))"
| "request_ok info negotiated len Flush = (negotiated AND VIRTIO_BLK_F_FLUSH \<noteq> 0 \<and> len = 0)"
| "request_ok info negotiated len (Discard offset n) =
     (in_disk info offset (unat n) \<and> len = 0 \<and> 0 < unat n \<and> unat n \<le> 134217728 \<and> \<not> read_only info)"

lemma capacity_bytes_le: "unat (capacity_bytes info) \<le> unat (capacity_sectors info) * 512"
  using unat_saturating_mul_le[of "capacity_sectors info" SECTOR_SIZE]
  by (simp add: capacity_bytes_def SECTOR_SIZE_def)

lemma data_offset_Some:
  assumes "data_offset info sector len = Some offset"
  shows "in_disk info offset len" "len \<le> 4194304"
proof -
  obtain e where e: "checked_mul sector SECTOR_SIZE = Some offset"
    "checked_add offset (of_nat len) = Some e" "e \<le> capacity_bytes info"
    and len: "len \<le> MAX_REQUEST_BYTES" "len mod 512 = 0"
    using assms by (auto simp: data_offset_def SECTOR_SIZE_def split: if_split_asm option.split_asm)
  show small: "len \<le> 4194304" using len by (simp add: MAX_REQUEST_BYTES_def)
  have "unat offset = unat sector * 512"
    using e(1) by (simp add: checked_mul_Some SECTOR_SIZE_def)
  moreover have "unat (of_nat len :: u64) = len" using small by (simp add: unat_of_nat)
  then have "unat e = unat offset + len" using e(2) by (simp add: checked_add_Some)
  moreover have "unat e \<le> unat (capacity_bytes info)" using e(3) by (simp add: word_le_nat_alt)
  ultimately show "in_disk info offset len"
    using len(2) capacity_bytes_le[of info] by (auto simp: in_disk_def)
qed

lemma discard_range_Some:
  assumes "discard_range info sector sectors = Some (offset, n)"
  shows "in_disk info offset (unat n)" "0 < unat n" "unat n \<le> 134217728"
proof -
  have s: "sectors \<noteq> 0" "\<not> MAX_DISCARD_SECTORS < sectors"
    using assms unfolding discard_range_def by (metis option.distinct(1))+
  obtain off where mul: "checked_mul sector SECTOR_SIZE = Some off"
    using assms s by (cases "checked_mul sector SECTOR_SIZE") (simp_all add: discard_range_def)
  define len where "len = ucast sectors * SECTOR_SIZE"
  obtain e where add: "checked_add off len = Some e"
    using assms s mul by (cases "checked_add off len") (simp_all add: discard_range_def len_def Let_def)
  have "\<not> capacity_bytes info < e \<and> offset = off \<and> n = len"
    using assms s mul add unfolding discard_range_def len_def[symmetric] Let_def
    by (simp split: if_split_asm)
  then have e: "checked_mul sector SECTOR_SIZE = Some offset"
    "checked_add offset n = Some e" "\<not> capacity_bytes info < e" "n = ucast sectors * SECTOR_SIZE"
    using mul add len_def by auto
  have sec: "unat sectors \<le> 262144" "0 < unat sectors"
    using s by (simp_all add: MAX_DISCARD_SECTORS_def SECTOR_SIZE_def word_le_nat_alt not_less unat_gt_0)
  have u: "unat (ucast sectors :: u64) = unat sectors" by (rule unat_ucast_up) simp
  have n: "unat n = unat sectors * 512"
    using sec u unat_mult_fits[of "ucast sectors :: u64" SECTOR_SIZE] by (simp add: e(4) SECTOR_SIZE_def)
  have "unat offset = unat sector * 512" using e(1) by (simp add: checked_mul_Some SECTOR_SIZE_def)
  moreover have "unat e = unat offset + unat n" using e(2) by (simp add: checked_add_Some)
  moreover have "unat e \<le> unat (capacity_bytes info)" using e(3) by (simp add: word_le_nat_alt not_less)
  ultimately show "in_disk info offset (unat n)" "0 < unat n" "unat n \<le> 134217728"
    using capacity_bytes_le[of info] sec n by (auto simp: in_disk_def)
qed

lemma read_only_no_discard:
  assumes "negotiated AND NOT (blk_features info) = 0" "read_only info"
  shows "negotiated AND VIRTIO_BLK_F_DISCARD = 0"
proof -
  have "VIRTIO_BLK_F_DISCARD AND blk_features info = 0"
    using assms(2)
    by (simp add: blk_features_def VIRTIO_BLK_F_DISCARD_def VIRTIO_BLK_F_RO_def VIRTIO_BLK_F_SEG_MAX_def
        VIRTIO_F_INDIRECT_DESC_def VIRTIO_F_VERSION_1_def push_bit_eq_mult)
  then have "\<not> (bit VIRTIO_BLK_F_DISCARD n \<and> bit (blk_features info) n)" for n
    by (metis bit_and_iff bit_0_eq bot_fun_def bot_bool_def)
  moreover have "bit negotiated n \<Longrightarrow> bit (blk_features info) n" for n
    using assms(1)
    by (metis bit_and_iff bit_not_iff bit_0_eq bot_fun_def bot_bool_def bit_imp_possible_bit)
  ultimately show ?thesis
    by (intro bit_eqI) (auto simp: bit_and_iff)
qed

lemma parse_kind_ok:
  assumes "parse_kind info negotiated ty sector reader t = Inr kind"
    and "negotiated AND NOT (blk_features info) = 0"
  shows "request_ok info negotiated (wt_data_len t) kind"
proof -
  consider (rd) offset where "kind = In offset (replicate (wt_data_len t) 0)"
      "data_offset info sector (wt_data_len t) = Some offset"
    | (wr) offset buf rest where "data_offset info sector (length reader) = Some offset"
      "read_exact (length reader) reader = Some (buf, rest)" "\<not> read_only info" "wt_data_len t = 0"
      "kind = Out offset buf (negotiated AND VIRTIO_BLK_F_FLUSH = 0)"
    | (flush) "kind = Flush" "negotiated AND VIRTIO_BLK_F_FLUSH \<noteq> 0" "wt_data_len t = 0"
    | (discard) s n offset len where "kind = Discard offset len" "wt_data_len t = 0"
      "discard_range info s n = Some (offset, len)" "negotiated AND VIRTIO_BLK_F_DISCARD \<noteq> 0"
    using assms(1)
    by (auto simp: parse_kind_def Let_def split: if_split_asm option.split_asm)
  then show ?thesis
  proof cases
    case rd
    then show ?thesis using data_offset_Some[OF rd(2)] by simp
  next
    case wr
    have "buf = reader" using wr(2) by (auto simp: read_exact_def)
    then show ?thesis using data_offset_Some[OF wr(1)] wr by simp
  next
    case discard
    then show ?thesis
      using discard_range_Some[OF discard(3)] read_only_no_discard[OF assms(2)] by auto
  qed simp
qed

text \<open>C13. Nothing a guest writes on its request ring reaches the disk outside the contract. Whatever the
  chain, a request that \<open>parse\<close> submits addresses whole sectors inside the disk; a transfer is at
  most 4 MiB and a read exactly as long as the room the driver gave for it; a write and a discard
  only go to a disk that is not read-only; a flush was negotiated, a discard covers at most
  128 MiB and is not empty; and a write is synchronous exactly when the driver cannot flush.\<close>
theorem request_in_bounds:
  assumes "parse mo chain info negotiated m = (m', Inr (Submit kind t))"
    and "negotiated AND NOT (blk_features info) = 0"
  shows "request_ok info negotiated (wt_data_len t) kind"
proof -
  obtain ty sector reader where "parse_kind info negotiated ty sector reader t = Inr kind"
    using assms(1)
    by (auto simp: parse_def Let_def split: prod.split_asm option.split_asm if_split_asm sum.split_asm)
  from parse_kind_ok[OF this assms(2)] show ?thesis .
qed

text \<open>A chain over a memory that is the list of the bytes its reader yields: a writable descriptor of
  513 bytes at 0x1000.\<close>

definition list_mem :: "(u8 list, u16) mem_ops" where
  "list_mem =
     \<lparr>mo_head_index = (\<lambda>c. c),
      mo_descriptors = (\<lambda>_ m. (m, [\<lparr>d_addr = 0x1000, d_len = 513, d_write_only = True, d_has_next = False\<rparr>])),
      mo_reader = (\<lambda>_ m. (m, Inr m)), mo_check_range = (\<lambda>_ _ _. True),
      mo_write_slice = (\<lambda>_ _ m. (m, Inr ())), mo_read_slice = (\<lambda>_ _ m. (m, Inl ()))\<rparr>"

definition small_disk :: disk_info where
  "small_disk = \<lparr>capacity_sectors = 8, read_only = True, discard_sector_alignment = 1\<rparr>"

lemma parse_small:
  "parse list_mem 0 small_disk 0 ([0, 0, 0, 0, 0, 0, 0, 0, 7, 0, 0, 0, 0, 0, 0, 0]) =
     ([0, 0, 0, 0, 0, 0, 0, 0, 7, 0, 0, 0, 0, 0, 0, 0], Inr (Submit (In 3584 (replicate 512 0))
       \<lparr>wt_data = [(0x1000, 512)], wt_data_len = 512, wt_status = 0x1200\<rparr>))"
  by (simp add: parse_def list_mem_def WriteTargets_split_def checked_add_def lengths_def read_exact_def
      REQUEST_HEADER_LEN_def parse_kind_def slice_def from_le_bytes_def VIRTIO_BLK_T_IN_def data_offset_def
      MAX_REQUEST_BYTES_def SECTOR_SIZE_def checked_mul_def capacity_bytes_def saturating_mul_def
      small_disk_def Let_def)

lemma request_in_bounds_witness:
  "in_disk small_disk 3584 512 \<and> \<not> in_disk small_disk 4096 512"
  using request_in_bounds[OF parse_small] by (simp add: in_disk_def small_disk_def)


section \<open>Where results are written\<close>

text \<open>\<open>logged_mem\<close> keeps, beside the memory, every write the device makes: its address and bytes.\<close>

definition logged_mem :: "('m, 'chain) mem_ops \<Rightarrow> ('m \<times> (u64 \<times> u8 list) list, 'chain) mem_ops" where
  "logged_mem mo =
     \<lparr>mo_head_index = mo_head_index mo,
      mo_descriptors = (\<lambda>chain (m, log). case mo_descriptors mo chain m of (m, ds) \<Rightarrow> ((m, log), ds)),
      mo_reader = (\<lambda>chain (m, log). case mo_reader mo chain m of (m, r) \<Rightarrow> ((m, log), r)),
      mo_check_range = (\<lambda>(m, log). mo_check_range mo m),
      mo_write_slice = (\<lambda>bytes a (m, log). case mo_write_slice mo bytes a m of
         (m, r) \<Rightarrow> ((m, log @ [(a, bytes)]), r)),
      mo_read_slice = (\<lambda>n a (m, log). case mo_read_slice mo n a m of (m, r) \<Rightarrow> ((m, log), r))\<rparr>"

lemma logged_write:
  "mo_write_slice (logged_mem mo) bytes a (m, log) =
     (case mo_write_slice mo bytes a m of (m, r) \<Rightarrow> ((m, log @ [(a, bytes)]), r))"
  by (simp add: logged_mem_def)

definition covers :: "(u64 \<times> u32) list \<Rightarrow> u64 \<times> u8 list \<Rightarrow> bool" where
  "covers ds = (\<lambda>(a, bytes). bytes = [] \<or> (\<exists>(base, len)\<in>set ds.
     unat base \<le> unat a \<and> unat a + length bytes \<le> unat base + unat len))"

lemma finish_data_writes:
  "finish_data (logged_mem mo) ds bytes (m, log) = ((m', log'), r) \<Longrightarrow>
     \<exists>ws. log' = log @ ws \<and> (\<forall>w\<in>set ws. covers ds w) \<and>
       (is_ok r \<longrightarrow> concat (map snd ws) = take (lengths ds) bytes)"
proof (induction ds arbitrary: bytes m log)
  case Nil
  then show ?case by (simp add: lengths_def)
next
  case (Cons d ds)
  obtain a len where d: "d = (a, len)" by (cases d)
  define n where "n = min (length bytes) (unat len)"
  obtain m1 w where w: "mo_write_slice mo (take n bytes) a m = (m1, w)" by (metis prod.collapse)
  have this_one: "covers (d # ds) (a, take n bytes)"
    by (auto simp: covers_def d n_def)
  have more: "covers ds x \<Longrightarrow> covers (d # ds) x" for x by (auto simp: covers_def)
  show ?case
  proof (cases w)
    case (Inl e)
    then have "log' = log @ [(a, take n bytes)] \<and> \<not> is_ok r"
      using Cons.prems w by (auto simp: d n_def[symmetric] Let_def logged_write)
    then show ?thesis using this_one by auto
  next
    case (Inr u)
    then have "finish_data (logged_mem mo) ds (drop n bytes) (m1, log @ [(a, take n bytes)]) = ((m', log'), r)"
      using Cons.prems w by (simp add: d n_def[symmetric] Let_def logged_write)
    from Cons.IH[OF this] obtain ws where ws: "log' = (log @ [(a, take n bytes)]) @ ws"
      "\<forall>w\<in>set ws. covers ds w"
      "is_ok r \<longrightarrow> concat (map snd ws) = take (lengths ds) (drop n bytes)" by blast
    have "take n bytes @ take (lengths ds) (drop n bytes) = take (lengths (d # ds)) bytes"
      by (simp add: d lengths_def n_def take_add min_def)
    then show ?thesis
      using ws this_one more by (intro exI[of _ "(a, take n bytes) # ws"]) auto
  qed
qed

lemma split_exact:
  assumes "WriteTargets_split ws = Some t"
  shows "lengths ws = wt_data_len t + 1" "wt_data_len t = lengths (wt_data t)"
    and "\<And>w. covers (wt_data t) w \<Longrightarrow> covers ws w" "covers ws (wt_status t, [s])"
proof -
  obtain init a len where ws: "ws = init @ [(a, len)]"
    using assms by (cases ws rule: rev_cases) (auto simp: WriteTargets_split_def)
  obtain st where len: "len \<noteq> 0" and st: "checked_add a (ucast len - 1) = Some st"
    and t: "t = \<lparr>wt_data = (if len = 1 then init else init @ [(a, len - 1)]),
      wt_data_len = lengths (if len = 1 then init else init @ [(a, len - 1)]), wt_status = st\<rparr>"
    using assms ws by (auto simp: WriteTargets_split_def Let_def split: if_split_asm option.split_asm)
  have pos: "0 < unat len" using len by (simp add: unat_gt_0)
  have l1: "unat (len - 1) = unat len - 1" using len by (simp add: unat_minus_one)
  have u: "unat (ucast len :: u64) = unat len" by (rule unat_ucast_up) simp
  have "(ucast len :: u64) \<noteq> 0" using u pos by (metis less_irrefl unat_0)
  then have st': "unat st = unat a + (unat len - 1)"
    using st u by (simp add: checked_add_Some unat_minus_one)
  show "wt_data_len t = lengths (wt_data t)" by (simp add: t)
  show "lengths ws = wt_data_len t + 1" using pos l1 by (auto simp: t ws lengths_def)
  show "covers ws (wt_status t, [s])" using st' pos by (auto simp: t ws covers_def)
  show "covers ws w" if "covers (wt_data t) w" for w
    using that l1 by (force simp: t ws covers_def split: if_split_asm)
qed

text \<open>A request's results stay inside what the driver offered. Of the writable descriptors of a chain
  the last byte is the status byte and the rest the data room. Finishing the request writes only
  inside those descriptors; when it succeeds it has written exactly the data, cut to the room, and
  then the status byte; and the used length it returns for data that fits is the number of bytes
  written, never more than the driver offered.\<close>
theorem results_confined:
  assumes "WriteTargets_split ws = Some t"
    and "WriteTargets_finish (logged_mem mo) status data t (m, []) = ((m', log), r)"
  shows "lengths ws = wt_data_len t + 1 \<and> (\<forall>w\<in>set log. covers ws w) \<and>
    (\<forall>used. r = Inr used \<longrightarrow>
       concat (map snd log) = take (wt_data_len t) (case data of None \<Rightarrow> [] | Some d \<Rightarrow> d) @ [status] \<and>
       (\<forall>d. data = Some d \<longrightarrow> length d \<le> wt_data_len t \<longrightarrow> length d < 2 ^ 31 \<longrightarrow>
          unat used = length (concat (map snd log)) \<and> unat used \<le> lengths ws))"
proof -
  note S = split_exact[OF assms(1)]
  define body where "body = (case data of None \<Rightarrow> ((m, []), Inr ())
    | Some bytes \<Rightarrow> finish_data (logged_mem mo) (wt_data t) bytes (m, []))"
  obtain m1 log1 r1 where b: "body = ((m1, log1), r1)" by (metis prod.collapse)
  have log1: "\<forall>w\<in>set log1. covers ws w"
    "is_ok r1 \<Longrightarrow> concat (map snd log1) = take (wt_data_len t) (case data of None \<Rightarrow> [] | Some d \<Rightarrow> d)"
    using b finish_data_writes[of mo "wt_data t" _ m "[]" m1 log1 r1] S(2,3)
    by (force simp: body_def split: option.splits)+
  show ?thesis
  proof (cases r1)
    case (Inl e)
    then have "log = log1" "\<not> is_ok r"
      using assms(2) b by (auto simp: WriteTargets_finish_def body_def[symmetric])
    then show ?thesis using log1 S(1) by auto
  next
    case (Inr u)
    obtain m2 w where w: "mo_write_slice mo [status] (wt_status t) m1 = (m2, w)" by (metis prod.collapse)
    have log: "log = log1 @ [(wt_status t, [status])]"
      and r: "\<And>used. r = Inr used \<Longrightarrow> used = 1 + (case data of None \<Rightarrow> 0 | Some bytes \<Rightarrow> of_nat (length bytes))"
      using assms(2) b w Inr
      by (auto simp: WriteTargets_finish_def body_def[symmetric] logged_write split: sum.split_asm)
    have cat: "concat (map snd log) =
        take (wt_data_len t) (case data of None \<Rightarrow> [] | Some d \<Rightarrow> d) @ [status]"
      using log1(2) Inr by (simp add: log)
    have "unat used = length d + 1" if "r = Inr used" "data = Some d" "length d < 2 ^ 31" for used d
    proof -
      have "used = of_nat (Suc (length d))" using r[OF that(1)] that(2) by simp
      then have "unat used = Suc (length d) mod 2 ^ 32" by (simp only: unat_of_nat) simp
      then show ?thesis using that(3) by simp
    qed
    then show ?thesis using log1(1) S(1) S(4)[of status] cat by (auto simp: log)
  qed
qed

lemma results_confined_witness:
  "\<exists>log r. snd (WriteTargets_finish (logged_mem list_mem) VIRTIO_BLK_S_OK (Some [1, 2])
      \<lparr>wt_data = [(0x1000, 2)], wt_data_len = 2, wt_status = 0x1002\<rparr> ([], [])) = r \<and>
     concat (map snd log) = [1, 2, 0] \<and> r = Inr 3 \<and>
     (\<forall>w\<in>set log. covers [(0x1000, 3)] w)"
proof -
  let ?t = "\<lparr>wt_data = [(0x1000, 2)], wt_data_len = 2, wt_status = 0x1002\<rparr>"
  have sp: "WriteTargets_split [(0x1000, 3)] = Some ?t"
    by (simp add: WriteTargets_split_def checked_add_def lengths_def)
  have fin: "WriteTargets_finish (logged_mem list_mem) VIRTIO_BLK_S_OK (Some [1, 2]) ?t ([], []) =
      (([], [(0x1000, [1, 2]), (0x1002, [0])]), Inr 3)"
    by (simp add: WriteTargets_finish_def logged_mem_def list_mem_def VIRTIO_BLK_S_OK_def)
  from results_confined[OF sp fin] fin show ?thesis
    by (intro exI[of _ "[(0x1000, [1, 2]), (0x1002, [0])]"]) auto
qed

section \<open>The synchronous backend\<close>

fun blk_run ::
    "('b, 'h, 'q, 'm, 'chain, 'desc, 'c) blk_env \<Rightarrow> device_event list \<Rightarrow> ('b, 'q, 'm, 'c) virtio_blk \<Rightarrow>
     ('b, 'q, 'm, 'c) virtio_blk option" where
  "blk_run env [] v = Some v"
| "blk_run env (e # es) v =
     (case blk_on_event env e v of None \<Rightarrow> None | Some (v, _) \<Rightarrow> blk_run env es v)"

definition nothing_deferred :: "('b, 'q, 'm, 'c) virtio_blk \<Rightarrow> bool" where
  "nothing_deferred v \<longleftrightarrow> (\<forall>a. bl_active v = Some a \<longrightarrow> ba_source a = None \<and> if_entries (ba_inflight a) = [])"

lemma imago_process_keeps:
  "process_keeps (\<lambda>(b, t). if_entries t = []) (blk_process (imago im) mo info negotiated)"
proof (rule process_keepsI, clarify)
  fix b t m chain b' t' m' r
  assume t: "if_entries t = []" and p: "blk_process (imago im) mo info negotiated (b, t) m chain = ((b', t'), m', r)"
  then show "if_entries t' = []"
    by (auto simp: blk_process_def Let_def Inflight_next_token_def imago_def imago_submit_def
        split: prod.split_asm sum.split_asm decoded.split_asm)
qed

lemma imago_event_keeps:
  assumes "blk_on_event env e v = Some (v', r)" "nothing_deferred v" "be_disk env = imago im"
  shows "nothing_deferred v'"
proof (cases "bl_active v")
  case None
  then show ?thesis
    using assms by (auto simp: blk_on_event_def process_queue_def backend_ready_def
        split: device_event.split_asm if_split_asm)
next
  case (Some a)
  then have a: "ba_source a = None" "if_entries (ba_inflight a) = []"
    using assms(2) by (simp_all add: nothing_deferred_def)
  show ?thesis
  proof (cases "e = QueueKick 0")
    case True
    then obtain vq b t x where dr: "VirtQueues_drain (be_queue env)
        (blk_process (imago im) (be_mem env) (bl_disk_info v) (bl_negotiated v)) 0
        (bl_backend v, ba_inflight a) (ba_queues a) = Some (vq, (b, t), x)"
      using assms(1,3) Some by (auto simp: blk_on_event_def process_queue_def split: option.split_asm)
    have "if_entries t = []"
      using VirtQueues_drain_keeps[OF dr imago_process_keeps] a(2) by simp
    moreover have "\<exists>a'. bl_active v' = Some a' \<and> ba_source a' = ba_source a \<and> ba_inflight a' = t"
      using assms(1,3) Some True dr
      by (auto simp: blk_on_event_def process_queue_def Let_def blk_raise_def split: sum.split_asm)
    ultimately show ?thesis using a(1) by (auto simp: nothing_deferred_def)
  next
    case False
    then have "v' = v"
      using assms(1) Some a by (auto simp: blk_on_event_def backend_ready_def
          split: device_event.split_asm if_split_asm)
    then show ?thesis using assms(2) by simp
  qed
qed

lemma imago_run_keeps:
  "blk_run env es v = Some v' \<Longrightarrow> nothing_deferred v \<Longrightarrow> be_disk env = imago im \<Longrightarrow> nothing_deferred v'"
  by (induction es arbitrary: v) (auto split: option.split_asm dest: imago_event_keeps)

text \<open>With the synchronous imago backend no chain is ever left behind. Once activated, after any
  events the device waits for nothing and has deferred no chain, so a reset never finds a request
  in flight: it always deactivates the device and succeeds exactly when the image flushes.\<close>
theorem imago_never_defers:
  assumes "be_disk env = imago im" "bl_active v = None"
    and "blk_activate env vq intr (h, v) = ((h1, v1), Inr u)" "blk_run env es v1 = Some v2"
    and "blk_reset env (h1, v2) = ((h3, v3), r)"
  shows "nothing_deferred v2 \<and> bl_active v3 = None \<and> h3 = h1 \<and>
    (r = Inr () \<longleftrightarrow> is_ok (snd (imago_flush im (bl_backend v2)))) \<and>
    (\<forall>e. r = Inl e \<longrightarrow> e = Fatal ''block flush'')"
proof -
  have "nothing_deferred v1"
    using assms(1,2,3)
    by (auto simp: blk_activate_def nothing_deferred_def imago_def Inflight_default_def Let_def
        split: if_split_asm)
  then have nd: "nothing_deferred v2" by (rule imago_run_keeps[OF assms(4) _ assms(1)])
  obtain b fr where fl: "imago_flush im (bl_backend v2) = (b, fr)" by (metis prod.collapse)
  have "bl_active v3 = None \<and> h3 = h1 \<and> r = map_sum (\<lambda>_. Fatal ''block flush'') id fr"
    using assms(5) nd fl assms(1)
    by (auto simp: blk_reset_def nothing_deferred_def Inflight_is_empty_def blk_flush_def imago_def
        Let_def split: option.split_asm)
  then show ?thesis using nd fl by (cases fr) auto
qed

definition demo_image :: "nat image_ops" where
  "demo_image =
     \<lparr>im_read = (\<lambda>buf _ i. (i + 1, buf, Inr ())), im_write = (\<lambda>_ _ i. (i, Inr ())),
      im_discard_to_zero = (\<lambda>_ _ i. (i, Inr ())), im_flush = (\<lambda>i. (i, Inr ())),
      im_sync = (\<lambda>i. (i, Inr ())), im_size = (\<lambda>_. 4096)\<rparr>"

definition demo_blk_env ::
    "(nat imago_backend, nat, list_queue, nat, u16, bool \<times> u16 option, unit) blk_env" where
  "demo_blk_env =
     \<lparr>be_disk = imago demo_image,
      be_mem = \<lparr>mo_head_index = (\<lambda>c. c), mo_descriptors = (\<lambda>_ m. (m,
          [\<lparr>d_addr = 0x1000, d_len = 513, d_write_only = True, d_has_next = False\<rparr>])),
        mo_reader = (\<lambda>_ m. (m, Inr [0, 0, 0, 0, 0, 0, 0, 0, 7, 0, 0, 0, 0, 0, 0, 0])),
        mo_check_range = (\<lambda>_ _ _. True), mo_write_slice = (\<lambda>_ _ m. (m, Inr ())),
        mo_read_slice = (\<lambda>_ _ m. (m, Inl ()))\<rparr>,
      be_queue = list_queue_ops, be_line = (\<lambda>c _ _. (c, Inr ())),
      be_register = (\<lambda>h. (h, Inr 0)), be_deregister = (\<lambda>_ h. h)\<rparr>"

definition demo_disk :: "nat imago_backend" where
  "demo_disk = \<lparr>ib_image = 0, ib_disk_info =
     \<lparr>capacity_sectors = 8, read_only = False, discard_sector_alignment = 1\<rparr>\<rparr>"

definition demo_blk :: "(nat imago_backend, list_queue, nat, unit) virtio_blk" where
  "demo_blk = VirtioBlk_new (imago demo_image) demo_disk"

definition demo_blk_queues :: "(list_queue, nat) virt_queues" where
  "demo_blk_queues = \<lparr>vq_queues = [\<lparr>lq_avail = [5], lq_popped = [], lq_used = []\<rparr>],
     vq_deferred = [[]], vq_memory = 0, vq_indirect = True\<rparr>"

definition demo_blk_on :: "(nat imago_backend, list_queue, nat, unit) virtio_blk" where
  "demo_blk_on = demo_blk\<lparr>bl_active := Some \<lparr>ba_queues = demo_blk_queues,
     ba_interrupt = MmioInterrupt_new () (IrqLine_new 5), ba_source = None,
     ba_inflight = Inflight_default\<rparr>\<rparr>"

lemma demo_blk_activate:
  "blk_activate demo_blk_env demo_blk_queues (MmioInterrupt_new () (IrqLine_new 5)) (0, demo_blk) =
     ((0, demo_blk_on), Inr ())"
  by (simp add: blk_activate_def demo_blk_on_def demo_blk_def VirtioBlk_new_def Let_def
      VirtQueues_is_ready_def get_at_def demo_blk_env_def demo_blk_queues_def list_queue_ops_def
      imago_def demo_disk_def)

lemma demo_blk_run:
  "\<exists>v. blk_run demo_blk_env [QueueKick 0] demo_blk_on = Some v \<and> bl_active demo_blk = None \<and>
     ib_image (bl_backend v) = 1"
  by (simp add: blk_on_event_def process_queue_def demo_blk_on_def demo_blk_def VirtioBlk_new_def Let_def
      get_at_def demo_blk_env_def demo_blk_queues_def list_queue_ops_def
      imago_def demo_disk_def VirtQueues_drain_def drain_rounds.simps drain_round_def drain_chains.simps
      drain_one_def blk_process_def parse_def WriteTargets_split_def checked_add_def lengths_def
      read_exact_def REQUEST_HEADER_LEN_def parse_kind_def slice_def from_le_bytes_def
      VIRTIO_BLK_T_IN_def data_offset_def MAX_REQUEST_BYTES_def SECTOR_SIZE_def checked_mul_def
      capacity_bytes_def saturating_mul_def Inflight_next_token_def imago_submit_def
      demo_image_def complete_request_def WriteTargets_finish_def VIRTIO_BLK_S_OK_def add_used_def
      queue_error_def store_queue_def)

lemma imago_never_defers_witness:
  "\<exists>v. blk_run demo_blk_env [QueueKick 0] demo_blk_on = Some v \<and> nothing_deferred v \<and>
     snd (blk_reset demo_blk_env (0, v)) = Inr ()"
proof -
  obtain v where v: "blk_run demo_blk_env [QueueKick 0] demo_blk_on = Some v" "bl_active demo_blk = None"
    using demo_blk_run by blast
  obtain h3 v3 r where rs: "blk_reset demo_blk_env (0, v) = ((h3, v3), r)" by (metis prod.collapse)
  have "be_disk demo_blk_env = imago demo_image" by (simp add: demo_blk_env_def)
  from imago_never_defers[OF this v(2) demo_blk_activate v(1) rs]
  have "nothing_deferred v" "r = Inr () \<longleftrightarrow> is_ok (snd (imago_flush demo_image (bl_backend v)))" by auto
  moreover have "is_ok (snd (imago_flush demo_image b))" for b
    by (simp add: imago_flush_def demo_image_def)
  ultimately show ?thesis using v rs by auto
qed

end
