(* ===== verification/Box_State.thy ===== *)
theory Box_State
  imports Prelude
begin

text \<open>
  The lifecycle of a box, \<open>src/src/boxlite/src/litebox/state.rs\<close>: its status with the transition
  table and the database text, its health, and the persisted row with the operations on it;
  and the places of the runtime that write the row, \<open>rt_impl.rs\<close> and \<open>box_impl.rs\<close>: publishing a
  started box, recovery after a restart, pausing, stopping and forced removal.

  The clock is a parameter: every operation that reads it takes the time \<open>now\<close>, in microseconds.
  Policies and resolved images are opaque values of the types \<open>'p\<close> and \<open>'i\<close>.
\<close>

section \<open>Status\<close>

datatype box_status = Unknown | Configured | Running | Stopping | Stopped | Paused | Failed

definition is_active :: "box_status \<Rightarrow> bool" where
  "is_active s \<longleftrightarrow> s \<in> {Running, Paused}"

definition is_running :: "box_status \<Rightarrow> bool" where "is_running s \<longleftrightarrow> s = Running"
definition is_configured :: "box_status \<Rightarrow> bool" where "is_configured s \<longleftrightarrow> s = Configured"
definition is_stopped :: "box_status \<Rightarrow> bool" where "is_stopped s \<longleftrightarrow> s = Stopped"
definition is_paused :: "box_status \<Rightarrow> bool" where "is_paused s \<longleftrightarrow> s = Paused"
definition is_transient :: "box_status \<Rightarrow> bool" where "is_transient s \<longleftrightarrow> s = Stopping"

definition can_start :: "box_status \<Rightarrow> bool" where
  "can_start s \<longleftrightarrow> s \<in> {Configured, Stopped, Failed}"

definition can_stop :: "box_status \<Rightarrow> bool" where
  "can_stop s \<longleftrightarrow> s \<in> {Running, Paused}"

definition can_remove :: "box_status \<Rightarrow> bool" where
  "can_remove s \<longleftrightarrow> s \<in> {Configured, Stopped, Failed, Unknown}"

definition can_exec :: "box_status \<Rightarrow> bool" where
  "can_exec s \<longleftrightarrow> s \<in> {Configured, Running, Stopped}"

fun can_transition_to :: "box_status \<Rightarrow> box_status \<Rightarrow> bool" where
  "can_transition_to Unknown _ = True"
| "can_transition_to Configured Running = True"
| "can_transition_to Configured Stopped = True"
| "can_transition_to Configured Failed = True"
| "can_transition_to Configured Unknown = True"
| "can_transition_to Running Stopping = True"
| "can_transition_to Running Stopped = True"
| "can_transition_to Running Paused = True"
| "can_transition_to Running Failed = True"
| "can_transition_to Running Unknown = True"
| "can_transition_to Stopping Stopped = True"
| "can_transition_to Stopping Failed = True"
| "can_transition_to Stopping Unknown = True"
| "can_transition_to Stopped Running = True"
| "can_transition_to Stopped Failed = True"
| "can_transition_to Stopped Unknown = True"
| "can_transition_to Paused Running = True"
| "can_transition_to Paused Stopped = True"
| "can_transition_to Paused Unknown = True"
| "can_transition_to Failed Running = True"
| "can_transition_to Failed Stopped = True"
| "can_transition_to Failed Unknown = True"
| "can_transition_to _ _ = False"

fun as_str :: "box_status \<Rightarrow> string" where
  "as_str Unknown = ''unknown''"
| "as_str Configured = ''configured''"
| "as_str Running = ''running''"
| "as_str Stopping = ''stopping''"
| "as_str Stopped = ''stopped''"
| "as_str Paused = ''paused''"
| "as_str Failed = ''failed''"

definition status_from_str :: "string \<Rightarrow> box_status option" where
  "status_from_str s =
     (if s = ''unknown'' then Some Unknown
      else if s = ''configured'' then Some Configured
      else if s = ''starting'' then Some Configured
      else if s = ''running'' then Some Running
      else if s = ''stopping'' then Some Stopping
      else if s = ''stopped'' then Some Stopped
      else if s = ''paused'' then Some Paused
      else if s = ''failed'' then Some Failed
      else if s \<in> {''snapshotting'', ''restoring'', ''exporting'', ''cloning''} then Some Stopped
      else None)"

section \<open>Health\<close>

datatype health_state = NoCheck | Starting | Healthy | Unhealthy

record health_status =
  hs_state :: health_state
  hs_failures :: u32
  hs_last_check :: "int option"

definition HealthStatus_new :: health_status where
  "HealthStatus_new = \<lparr>hs_state = NoCheck, hs_failures = 0, hs_last_check = None\<rparr>"

definition HealthStatus_init :: "int \<Rightarrow> health_status \<Rightarrow> health_status" where
  "HealthStatus_init now h = h\<lparr>hs_state := Starting, hs_failures := 0, hs_last_check := Some now\<rparr>"

definition HealthStatus_mark_success :: "int \<Rightarrow> health_status \<Rightarrow> health_status" where
  "HealthStatus_mark_success now h =
     h\<lparr>hs_state := Healthy, hs_failures := 0, hs_last_check := Some now\<rparr>"

text \<open>The counter is a \<open>u32\<close> increment; it would take 2^32 failed checks in a row to wrap.\<close>

definition HealthStatus_mark_failure :: "int \<Rightarrow> u32 \<Rightarrow> health_status \<Rightarrow> health_status \<times> bool" where
  "HealthStatus_mark_failure now retries h =
     (let h = h\<lparr>hs_failures := hs_failures h + 1, hs_last_check := Some now\<rparr> in
      if hs_failures h \<ge> retries then (h\<lparr>hs_state := Unhealthy\<rparr>, True) else (h, False))"

definition HealthStatus_clear :: "health_status \<Rightarrow> health_status" where
  "HealthStatus_clear h = h\<lparr>hs_state := NoCheck, hs_failures := 0, hs_last_check := None\<rparr>"

section \<open>The row\<close>

record ('p, 'i) box_state =
  outbound_policy :: "'p option"
  status :: box_status
  pid :: "u32 option"
  container_id :: "string option"
  last_updated :: int
  lock_id :: "u32 option"
  health_status :: health_status
  error_reason :: "string option"
  exit_code :: "32 word option"
  started_at :: "int option"
  resolved_image :: "'i option"

definition BoxState_new :: "int \<Rightarrow> ('p, 'i) box_state" where
  "BoxState_new now =
     \<lparr>outbound_policy = None, status = Configured, pid = None, container_id = None,
      last_updated = now, lock_id = None, health_status = HealthStatus_new, error_reason = None,
      exit_code = None, started_at = None, resolved_image = None\<rparr>"

definition record_resolved_image :: "'i option \<Rightarrow> ('p, 'i) box_state \<Rightarrow> ('p, 'i) box_state" where
  "record_resolved_image built_from b =
     (case built_from of None \<Rightarrow> b | Some r \<Rightarrow> b\<lparr>resolved_image := Some r\<rparr>)"

definition mark_started :: "int \<Rightarrow> ('p, 'i) box_state \<Rightarrow> ('p, 'i) box_state" where
  "mark_started now b = b\<lparr>started_at := Some now, last_updated := now\<rparr>"

definition force_status :: "int \<Rightarrow> box_status \<Rightarrow> ('p, 'i) box_state \<Rightarrow> ('p, 'i) box_state" where
  "force_status now s b = b\<lparr>status := s, last_updated := now\<rparr>"

definition set_status :: "int \<Rightarrow> box_status \<Rightarrow> ('p, 'i) box_state \<Rightarrow> ('p, 'i) box_state" where
  "set_status now s b = force_status now s b"

definition set_pid :: "int \<Rightarrow> u32 option \<Rightarrow> ('p, 'i) box_state \<Rightarrow> ('p, 'i) box_state" where
  "set_pid now p b = b\<lparr>pid := p, last_updated := now\<rparr>"

definition adopt_recovered_shim :: "int \<Rightarrow> u32 \<Rightarrow> ('p, 'i) box_state \<Rightarrow> ('p, 'i) box_state" where
  "adopt_recovered_shim now p b =
     (let b = (if pid b \<noteq> Some p then b\<lparr>started_at := None\<rparr> else b);
          b = set_pid now (Some p) b
      in set_status now Running b)"

definition set_lock_id :: "int \<Rightarrow> u32 \<Rightarrow> ('p, 'i) box_state \<Rightarrow> ('p, 'i) box_state" where
  "set_lock_id now l b = b\<lparr>lock_id := Some l, last_updated := now\<rparr>"

definition transition_to ::
    "int \<Rightarrow> box_status \<Rightarrow> ('p, 'i) box_state \<Rightarrow> ('p, 'i) box_state \<times> (string + unit)" where
  "transition_to now s b =
     (if \<not> can_transition_to (status b) s then
        (b, Inl (''Cannot transition from '' @ as_str (status b) @ '' to '' @ as_str s))
      else (b\<lparr>status := s, last_updated := now\<rparr>, Inr ()))"

definition mark_stop :: "int \<Rightarrow> ('p, 'i) box_state \<Rightarrow> ('p, 'i) box_state" where
  "mark_stop now b = b\<lparr>status := Stopped, pid := None, last_updated := now\<rparr>"

definition mark_failed :: "int \<Rightarrow> string \<Rightarrow> ('p, 'i) box_state \<Rightarrow> ('p, 'i) box_state" where
  "mark_failed now reason b =
     b\<lparr>status := Failed, error_reason := Some reason, pid := None, last_updated := now\<rparr>"

definition reset_for_reboot :: "int \<Rightarrow> ('p, 'i) box_state \<Rightarrow> ('p, 'i) box_state" where
  "reset_for_reboot now b =
     (let b = (if is_active (status b) then b\<lparr>status := Stopped\<rparr> else b)
      in b\<lparr>pid := None, last_updated := now\<rparr>)"

definition init_health_status :: "int \<Rightarrow> ('p, 'i) box_state \<Rightarrow> ('p, 'i) box_state" where
  "init_health_status now b =
     b\<lparr>health_status := HealthStatus_init now (health_status b), last_updated := now\<rparr>"

definition mark_health_check_success :: "int \<Rightarrow> ('p, 'i) box_state \<Rightarrow> ('p, 'i) box_state" where
  "mark_health_check_success now b =
     b\<lparr>health_status := HealthStatus_mark_success now (health_status b), last_updated := now\<rparr>"

definition mark_health_check_failure ::
    "int \<Rightarrow> u32 \<Rightarrow> ('p, 'i) box_state \<Rightarrow> ('p, 'i) box_state \<times> bool" where
  "mark_health_check_failure now retries b =
     (case HealthStatus_mark_failure now retries (health_status b) of
        (h, became_unhealthy) \<Rightarrow> (b\<lparr>health_status := h, last_updated := now\<rparr>, became_unhealthy))"

definition clear_health_status :: "int \<Rightarrow> ('p, 'i) box_state \<Rightarrow> ('p, 'i) box_state" where
  "clear_health_status now b =
     b\<lparr>health_status := HealthStatus_clear (health_status b), last_updated := now\<rparr>"

section \<open>The writers of the row\<close>

text \<open>\<open>recorded\<close> is what the guest's exit file says, if it exists and parses.\<close>

definition record_main_command_exit ::
    "int \<Rightarrow> 32 word option \<Rightarrow> ('p, 'i) box_state \<Rightarrow> ('p, 'i) box_state" where
  "record_main_command_exit now recorded b =
     (let b = (case recorded of None \<Rightarrow> b | Some code \<Rightarrow> b\<lparr>exit_code := Some code\<rparr>)
      in mark_stop now b)"

text \<open>
  The end of \<open>init_live_state\<close>, under the state lock: \<open>p\<close> is the pid of the PID file, \<open>adopting\<close> says
  that the box was already running, \<open>health\<close> that a health check is configured.
\<close>

definition publish_running ::
    "int \<Rightarrow> u32 \<Rightarrow> bool \<Rightarrow> bool \<Rightarrow> 'i option \<Rightarrow> ('p, 'i) box_state \<Rightarrow>
     (box_status + ('p, 'i) box_state)" where
  "publish_running now p adopting health built_from b =
     (if adopting \<and> status b \<noteq> Running then Inl (status b)
      else
        let b = set_pid now (Some p) b;
            b = set_status now Running b;
            b = (if \<not> adopting then mark_started now b else b);
            b = b\<lparr>exit_code := None\<rparr>;
            b = record_resolved_image built_from b
        in Inr (if health then init_health_status now b else b))"

text \<open>The pause bracket: the first write after SIGSTOP, the second after SIGCONT if the shim lives.\<close>

definition pause_box :: "int \<Rightarrow> ('p, 'i) box_state \<Rightarrow> ('p, 'i) box_state" where
  "pause_box now b = force_status now Paused b"

definition resume_box :: "int \<Rightarrow> bool \<Rightarrow> ('p, 'i) box_state \<Rightarrow> ('p, 'i) box_state" where
  "resume_box now alive b = (if alive then force_status now Running b else b)"

text \<open>\<open>stop\<close>: the early return, the health reset, and the write after the teardown.\<close>

definition stop_box :: "int \<Rightarrow> 32 word option \<Rightarrow> ('p, 'i) box_state \<Rightarrow> ('p, 'i) box_state" where
  "stop_box now recorded b =
     (if status b = Stopped then b
      else
        let b = clear_health_status now b in
        if \<not> is_configured (status b) then record_main_command_exit now recorded b else b)"

text \<open>The status check of \<open>remove_box\<close>; \<open>None\<close> is the refusal.\<close>

definition remove_check :: "int \<Rightarrow> bool \<Rightarrow> ('p, 'i) box_state \<Rightarrow> ('p, 'i) box_state option" where
  "remove_check now force b =
     (if is_active (status b) \<or> pid b \<noteq> None then
        (if force then Some (set_pid now None (set_status now Stopped b)) else None)
      else Some b)"

text \<open>Recovery of one row. \<open>crash\<close> is the client message of the crash report when the shim's exit
  file exists and parses, \<open>recorded\<close> the exit code of the guest's exit file.\<close>

datatype process_identity = Verified u32 | Legacy u32 | Absent

definition recover_row ::
    "int \<Rightarrow> process_identity \<Rightarrow> string option \<Rightarrow> 32 word option \<Rightarrow> ('p, 'i) box_state \<Rightarrow> ('p, 'i) box_state" where
  "recover_row now who crash recorded b =
     (case who of
        Verified p \<Rightarrow> adopt_recovered_shim now p b
      | Legacy p \<Rightarrow> adopt_recovered_shim now p b
      | Absent \<Rightarrow>
          (case crash of
             Some message \<Rightarrow> mark_failed now message b
           | None \<Rightarrow>
               if status b = Running then record_main_command_exit now recorded b else b))"

text \<open>Whether recovery writes the row back.\<close>

definition recover_saves :: "('p, 'i) box_state \<Rightarrow> ('p, 'i) box_state \<Rightarrow> bool" where
  "recover_saves original b \<longleftrightarrow> status b \<noteq> status original \<or> pid b \<noteq> pid original"

section \<open>Status properties\<close>

text \<open>Every status survives the database: its text reads back as the same status, different statuses
  have different texts, and the texts of older versions read as statuses that a box can be started
  from.\<close>
theorem status_text_roundtrip:
  "status_from_str (as_str s) = Some s \<and> (as_str s = as_str t \<longleftrightarrow> s = t) \<and>
   (case status_from_str text of
      Some u \<Rightarrow> text = as_str u \<or> u \<in> {Configured, Stopped}
    | None \<Rightarrow> text \<noteq> as_str s)"
proof -
  have rt: "status_from_str (as_str x) = Some x" for x
    by (cases x) (simp_all add: status_from_str_def)
  moreover have "text = as_str u \<or> u \<in> {Configured, Stopped}" if "status_from_str text = Some u" for u
    using that by (auto simp: status_from_str_def split: if_split_asm)
  moreover have "as_str s = as_str t \<longleftrightarrow> s = t"
    by (metis rt option.inject)
  ultimately show ?thesis
    by (cases "status_from_str text") auto
qed

section \<open>The lifecycle of a row\<close>

text \<open>
  After a reboot the database resets the rows its query calls active, by their status text.
\<close>

definition list_active :: "('n \<times> ('p, 'i) box_state) list \<Rightarrow> ('n \<times> ('p, 'i) box_state) list" where
  "list_active rows = filter (\<lambda>(_, b). as_str (status b) \<in> {''starting'', ''running'', ''detached''}) rows"

definition reset_active_boxes_after_reboot ::
    "int \<Rightarrow> ('n \<times> ('p, 'i) box_state) list \<Rightarrow> ('n \<times> ('p, 'i) box_state) list" where
  "reset_active_boxes_after_reboot now rows =
     map (\<lambda>(n, b). if n \<in> fst ` set (list_active rows) then (n, reset_for_reboot now b) else (n, b)) rows"

text \<open>
  What can happen to a row, and beside it the facts about the world it should tell: \<open>(p, t)\<close> is in
  \<open>runs\<close> when the shim with pid \<open>p\<close> entered Running at time \<open>t\<close>. An adopting publish reads the pid of
  the shim the row already names. The bracket around an export pauses a row with a live shim.
\<close>

type_synonym ('p, 'i) life = "('p, 'i) box_state \<times> (u32 \<times> int) set"

inductive life_step :: "('p, 'i) life \<Rightarrow> ('p, 'i) life \<Rightarrow> bool" where
  started: "publish_running now p False health built b = Inr b' \<Longrightarrow> life_step (b, runs) (b', insert (p, now) runs)"
| adopted: "pid b = Some p \<Longrightarrow> publish_running now p True health built b = Inr b' \<Longrightarrow> life_step (b, runs) (b', runs)"
| recovered: "life_step (b, runs) (recover_row now who crash recorded b, runs)"
| rebooted: "life_step (b, runs) (reset_for_reboot now b, runs)"
| paused: "status b = Running \<Longrightarrow> life_step (b, runs) (pause_box now b, runs)"
| resumed: "life_step (b, runs) (resume_box now alive b, runs)"
| stopped: "life_step (b, runs) (stop_box now recorded b, runs)"
| exited: "life_step (b, runs) (record_main_command_exit now recorded b, runs)"
| failed: "life_step (b, runs) (mark_failed now reason b, runs)"
| removed: "remove_check now force b = Some b' \<Longrightarrow> life_step (b, runs) (b', runs)"
| locked: "life_step (b, runs) (set_lock_id now l b, runs)"
| healthy: "life_step (b, runs) (mark_health_check_success now b, runs)"
| unhealthy: "life_step (b, runs) (fst (mark_health_check_failure now retries b), runs)"

inductive life_reachable :: "('p, 'i) life \<Rightarrow> bool" where
  created: "life_reachable (BoxState_new now, {})"
| imported: "life_reachable (set_status now Stopped (BoxState_new now), {})"
| step: "life_reachable x \<Longrightarrow> life_step x y \<Longrightarrow> life_reachable y"

text \<open>The invariant: the recorded start time is the one of the live pid, and a box that is not up
  names no pid.\<close>

definition row_ok :: "('p, 'i) life \<Rightarrow> bool" where
  "row_ok = (\<lambda>(b, runs).
     (\<forall>p t. pid b = Some p \<and> started_at b = Some t \<longrightarrow> (p, t) \<in> runs) \<and>
     (status b \<in> {Configured, Stopped, Failed} \<longrightarrow> pid b = None))"

named_theorems row_ops
declare BoxState_new_def [row_ops] record_resolved_image_def [row_ops] mark_started_def [row_ops]
  force_status_def [row_ops] set_status_def [row_ops] set_pid_def [row_ops]
  adopt_recovered_shim_def [row_ops] set_lock_id_def [row_ops] mark_stop_def [row_ops]
  mark_failed_def [row_ops] reset_for_reboot_def [row_ops] init_health_status_def [row_ops]
  mark_health_check_success_def [row_ops] mark_health_check_failure_def [row_ops]
  clear_health_status_def [row_ops] record_main_command_exit_def [row_ops]
  publish_running_def [row_ops] pause_box_def [row_ops] resume_box_def [row_ops]
  stop_box_def [row_ops] remove_check_def [row_ops] recover_row_def [row_ops] Let_def [row_ops]
  is_configured_def [row_ops] is_active_def [row_ops]

lemma publish_running_ok:
  assumes "publish_running now p adopting health built b = Inr b'"
  shows "pid b' = Some p \<and> status b' = Running \<and> error_reason b' = error_reason b \<and>
    started_at b' = (if adopting then started_at b else Some now)"
  using assms
  by (cases built) (auto simp: row_ops split: if_split_asm)

lemma recover_row_cases:
  obtains (live) p where "who = Verified p \<or> who = Legacy p"
      "recover_row now who crash recorded b = adopt_recovered_shim now p b"
  | (crashed) message where "who = Absent" "crash = Some message"
      "recover_row now who crash recorded b = mark_failed now message b"
  | (exited) "who = Absent" "crash = None" "status b = Running"
      "recover_row now who crash recorded b = record_main_command_exit now recorded b"
  | (same) "who = Absent" "crash = None" "status b \<noteq> Running" "recover_row now who crash recorded b = b"
  by (cases who; cases crash; cases "status b = Running") (simp_all add: recover_row_def)

lemma adopt_recovered_shim_simps:
  "pid (adopt_recovered_shim now p b) = Some p" "status (adopt_recovered_shim now p b) = Running"
  "error_reason (adopt_recovered_shim now p b) = error_reason b"
  "started_at (adopt_recovered_shim now p b) = (if pid b = Some p then started_at b else None)"
  by (simp_all add: row_ops)

lemma record_main_command_exit_simps:
  "pid (record_main_command_exit now r b) = None" "status (record_main_command_exit now r b) = Stopped"
  "error_reason (record_main_command_exit now r b) = error_reason b"
  "started_at (record_main_command_exit now r b) = started_at b"
  by (simp_all add: row_ops split: option.split)

lemma recover_row_ok: "row_ok (b, runs) \<Longrightarrow> row_ok (recover_row now who crash recorded b, runs)"
  by (cases rule: recover_row_cases[of who now crash recorded b])
    (auto simp: row_ok_def adopt_recovered_shim_simps record_main_command_exit_simps mark_failed_def)

lemma stop_box_ok: "row_ok (b, runs) \<Longrightarrow> row_ok (stop_box now recorded b, runs)"
  by (auto simp: stop_box_def Let_def row_ok_def record_main_command_exit_simps clear_health_status_def
      is_configured_def)

lemma life_step_ok: "life_step x y \<Longrightarrow> row_ok x \<Longrightarrow> row_ok y"
proof (induction rule: life_step.induct)
  case (started now p health built b b' runs)
  then show ?case using publish_running_ok[OF started(1)] by (auto simp: row_ok_def)
next
  case (adopted b p now health built b' runs)
  then show ?case using publish_running_ok[OF adopted(2)] by (auto simp: row_ok_def)
next
  case (recovered b runs now who crash recorded)
  then show ?case by (rule recover_row_ok)
next
  case (stopped b runs now recorded)
  then show ?case by (rule stop_box_ok)
next
  case (exited b runs now recorded)
  then show ?case by (simp add: row_ok_def record_main_command_exit_simps)
next
  case (removed now force b b' runs)
  then show ?case by (auto simp: row_ok_def row_ops split: if_split_asm)
next
  case (unhealthy b runs now retries)
  then show ?case by (simp add: row_ok_def mark_health_check_failure_def split: prod.split)
qed (auto simp: row_ok_def row_ops)

lemma life_reachable_ok: "life_reachable x \<Longrightarrow> row_ok x"
proof (induction rule: life_reachable.induct)
  case (step x y)
  from life_step_ok[OF step(2,3)] show ?case .
qed (simp_all add: row_ok_def row_ops)

text \<open>C27. A live pid in a row is always the one its start time describes. However a box is started,
  adopted, recovered, paused, stopped, crashed, rebooted and removed: when the row holds a pid and
  a start time, the shim with that pid entered Running at that time; and a row that is Configured,
  Stopped or Failed holds no pid.\<close>
theorem start_time_describes_pid:
  assumes "life_reachable (b, runs)"
  shows "(\<forall>p t. pid b = Some p \<and> started_at b = Some t \<longrightarrow> (p, t) \<in> runs) \<and>
    (status b \<in> {Configured, Stopped, Failed} \<longrightarrow> pid b = None)"
  using life_reachable_ok[OF assms] by (simp add: row_ok_def)

lemma start_time_describes_pid_witness:
  "\<exists>(b :: (unit, unit) box_state) runs. life_reachable (b, runs) \<and> pid b = Some 7 \<and>
     started_at b = Some 100 \<and> (7, 100) \<in> runs"
proof -
  obtain b :: "(unit, unit) box_state" where
    b: "publish_running 100 7 False False None (BoxState_new 0) = Inr b"
    by (simp add: publish_running_def Let_def)
  have "life_reachable (b, {(7, 100)})"
    using life_reachable.step[OF life_reachable.created started[OF b]] by simp
  moreover have "pid b = Some 7 \<and> started_at b = Some 100" using publish_running_ok[OF b] by simp
  ultimately show ?thesis using start_time_describes_pid[of b "{(7, 100)}"] by blast
qed

text \<open>Recovery tells the truth about a running box: a row that is Running after recovery names the pid
  of a shim that was found alive, whatever the row said before; a row whose shim is gone is never
  left Running; and a recovered pid that the row did not hold before has no start time.\<close>
theorem recovery_truth:
  "(status (recover_row now who crash recorded b) = Running \<longrightarrow>
      (\<exists>p. (who = Verified p \<or> who = Legacy p) \<and> pid (recover_row now who crash recorded b) = Some p)) \<and>
   (\<forall>p. (who = Verified p \<or> who = Legacy p) \<longrightarrow>
      status (recover_row now who crash recorded b) = Running \<and>
      (pid b \<noteq> Some p \<longrightarrow> started_at (recover_row now who crash recorded b) = None))"
  by (cases rule: recover_row_cases[of who now crash recorded b])
    (auto simp: adopt_recovered_shim_simps record_main_command_exit_simps mark_failed_def)

lemma recovery_truth_witness:
  "started_at (recover_row 9 (Verified 5) None None (BoxState_new 0 :: (unit, unit) box_state)) = None"
  using recovery_truth[of 9 "Verified 5" None None "BoxState_new 0 :: (unit, unit) box_state"]
  by (simp add: BoxState_new_def)

text \<open>A failure reason is never cleared: every step of the lifecycle of a row that carries one, a
  successful restart, a stop and a recovery included, leaves it with one, and changes it only by
  failing again.\<close>
theorem failure_reason_sticks:
  assumes "life_step (b, runs) (b', runs')" "error_reason b = Some r"
  shows "error_reason b' = Some r \<or> (\<exists>r'. error_reason b' = Some r' \<and> status b' = Failed)"
  using assms
proof (cases rule: life_step.cases)
  case (started now p health built)
  then show ?thesis using publish_running_ok[OF started(2)] assms(2) by simp
next
  case (adopted p now health built)
  then show ?thesis using publish_running_ok[OF adopted(3)] assms(2) by simp
next
  case (recovered now who crash recorded)
  then show ?thesis using assms(2)
    by (cases rule: recover_row_cases[of who now crash recorded b])
      (simp_all add: adopt_recovered_shim_simps record_main_command_exit_simps mark_failed_def)
next
  case (stopped now recorded)
  then show ?thesis using assms(2)
    by (simp add: stop_box_def Let_def record_main_command_exit_simps clear_health_status_def)
next
  case (exited now recorded)
  then show ?thesis using assms(2) by (simp add: record_main_command_exit_simps)
next
  case (removed now force)
  then show ?thesis using assms(2) by (auto simp: row_ops split: if_split_asm)
next
  case (unhealthy now retries)
  then show ?thesis using assms(2) by (simp add: mark_health_check_failure_def split: prod.split)
qed (use assms(2) in \<open>simp_all add: row_ops\<close>)

lemma failure_reason_sticks_witness:
  "\<exists>b' :: (unit, unit) box_state.
     publish_running 9 7 False False None (mark_failed 1 ''boom'' (BoxState_new 0)) = Inr b' \<and>
     status b' = Running \<and> error_reason b' = Some ''boom''"
proof -
  define b :: "(unit, unit) box_state" where "b = mark_failed 1 ''boom'' (BoxState_new 0)"
  obtain b' where b': "publish_running 9 7 False False None b = Inr b'"
    by (simp add: publish_running_def Let_def)
  have "error_reason b = Some ''boom''" by (simp add: b_def mark_failed_def)
  from failure_reason_sticks[OF started[OF b'] this] publish_running_ok[OF b'] show ?thesis
    using b' by (auto simp: b_def)
qed

text \<open>C39. A box that is paused when the host reboots is not reset. The reset covers only the rows its query
  lists, so a Running row becomes Stopped without a pid, but a Paused row is left as it is; recovery
  finds no shim and leaves it Paused as well, with the pid of a process that is gone, and in that
  status it can be neither started nor used until it is stopped.\<close>
theorem paused_row_survives_reboot:
  "(status b = Running \<longrightarrow> reset_active_boxes_after_reboot now [(n, b)] = [(n, reset_for_reboot now b)]) \<and>
   (status b = Paused \<longrightarrow>
      reset_active_boxes_after_reboot now [(n, b)] = [(n, b)] \<and>
      recover_row later Absent None recorded b = b \<and>
      status (reset_for_reboot now b) = Stopped \<and>
      \<not> can_start (status b) \<and> \<not> can_exec (status b))"
  by (auto simp: reset_active_boxes_after_reboot_def list_active_def recover_row_def reset_for_reboot_def
      is_active_def can_start_def can_exec_def Let_def)

lemma paused_row_survives_reboot_witness:
  "reset_active_boxes_after_reboot 9 [((), (BoxState_new 0 :: (unit, unit) box_state)\<lparr>status := Paused, pid := Some 7\<rparr>)] =
     [((), (BoxState_new 0)\<lparr>status := Paused, pid := Some 7\<rparr>)]"
  using paused_row_survives_reboot[of "(BoxState_new 0 :: (unit, unit) box_state)\<lparr>status := Paused, pid := Some 7\<rparr>" 9 "()"]
  by simp

end
