(* ===== verification/Chipset.thy ===== *)
theory Chipset
  imports Bus Irq
begin

text \<open>
  Model of \<open>src/src/vmm/src/chipset.rs\<close>, of \<open>Buses::dispatch\<close> in \<open>bus.rs\<close>: the
  registry of port ranges, MMIO ranges and interrupt lines, and the chipset it builds on x86_64.

  A device constructor is a function on the \<open>Resources\<close> it claims from, as in the code; devices
  are numbered in the order the builder stores them, and a device of any kind is a value of \<open>'d\<close>.
\<close>

section \<open>Buses and vCPU exits\<close>

record buses =
  mmio_bus :: bus
  pio_bus :: bus

definition Buses_default :: buses where
  "Buses_default = \<lparr>mmio_bus = Bus_default, pio_bus = Bus_default\<rparr>"

datatype vcpu_exit =
  MmioRead u64 "u8 list"
  | MmioWrite u64 "u8 list"
  | IoIn u16 "u8 list"
  | IoOut u16 "u8 list"
  | ExitInterrupted
  | ExitHalted
  | ExitShutdown
  | ExitReset

text \<open>
  The last component is what the caller gets back: \<open>Inl\<close> of the bytes of a served access (the
  buffer the code fills in place, with its \<open>None\<close>), or \<open>Inr\<close> of the exit it must handle itself.
\<close>

fun Buses_dispatch :: "'d bus_device_ops \<Rightarrow> buses \<Rightarrow> 'd list \<Rightarrow> vcpu_exit \<Rightarrow>
    buses \<times> 'd list \<times> (u8 list + vcpu_exit)" where
  "Buses_dispatch ops bs ds (MmioRead addr bytes) =
     (let (b, ds, data) = Bus_read ops (mmio_bus bs) ds addr bytes in
      (bs\<lparr>mmio_bus := b\<rparr>, ds, Inl data))"
| "Buses_dispatch ops bs ds (MmioWrite addr bytes) =
     (let (b, ds) = Bus_write ops (mmio_bus bs) ds addr bytes in (bs\<lparr>mmio_bus := b\<rparr>, ds, Inl bytes))"
| "Buses_dispatch ops bs ds (IoIn port bytes) =
     (let (b, ds, data) = Bus_read ops (pio_bus bs) ds (ucast port) bytes in
      (bs\<lparr>pio_bus := b\<rparr>, ds, Inl data))"
| "Buses_dispatch ops bs ds (IoOut port bytes) =
     (let (b, ds) = Bus_write ops (pio_bus bs) ds (ucast port) bytes in (bs\<lparr>pio_bus := b\<rparr>, ds, Inl bytes))"
| "Buses_dispatch ops bs ds other = (bs, ds, Inr other)"

section \<open>Claims\<close>

record range_claim =
  claim_bus :: bus_kind
  claim_base :: u64
  claim_len :: u64
  claim_first_offset :: u64

record resources =
  range_claims :: "range_claim list"
  line_claims :: "u32 list"

definition Resources_pio_with_offset :: "u64 \<Rightarrow> u64 \<Rightarrow> u64 \<Rightarrow> resources \<Rightarrow> resources" where
  "Resources_pio_with_offset base len first_offset r =
     r\<lparr>range_claims := range_claims r @
       [\<lparr>claim_bus = Pio, claim_base = base, claim_len = len, claim_first_offset = first_offset\<rparr>]\<rparr>"

definition Resources_pio :: "u64 \<Rightarrow> u64 \<Rightarrow> resources \<Rightarrow> resources" where
  "Resources_pio base len r = Resources_pio_with_offset base len 0 r"

definition Resources_mmio :: "u64 \<Rightarrow> u64 \<Rightarrow> resources \<Rightarrow> resources" where
  "Resources_mmio base len r =
     r\<lparr>range_claims := range_claims r @
       [\<lparr>claim_bus = Mmio, claim_base = base, claim_len = len, claim_first_offset = 0\<rparr>]\<rparr>"

definition Resources_line :: "u32 \<Rightarrow> resources \<Rightarrow> irq_line \<times> resources" where
  "Resources_line line r = (IrqLine_new line, r\<lparr>line_claims := line_claims r @ [line]\<rparr>)"

type_synonym 'd ctor = "resources \<Rightarrow> (vmm_error + 'd) \<times> resources"

section \<open>The builder\<close>

record 'd builder =
  b_armed :: bool
  b_buses :: buses
  line_owners :: "(u32 \<times> string) list"
  devices :: "'d list"
  conflicts :: "conflict list"

definition ChipsetBuilder_new :: "'d builder" where
  "ChipsetBuilder_new = \<lparr>b_armed = False, b_buses = Buses_default, line_owners = [], devices = [],
     conflicts = []\<rparr>"

fun select_bus :: "bus_kind \<Rightarrow> buses \<Rightarrow> bus" where
  "select_bus Mmio bs = mmio_bus bs"
| "select_bus Pio bs = pio_bus bs"

fun put_bus :: "bus_kind \<Rightarrow> bus \<Rightarrow> buses \<Rightarrow> buses" where
  "put_bus Mmio b bs = bs\<lparr>mmio_bus := b\<rparr>"
| "put_bus Pio b bs = bs\<lparr>pio_bus := b\<rparr>"

definition insert_range :: "range_claim \<Rightarrow> string \<Rightarrow> target option \<Rightarrow> 'd builder \<Rightarrow> 'd builder" where
  "insert_range claim claimant t b =
     (case BusRange_new (claim_base claim) (claim_len claim) of
        None \<Rightarrow> b\<lparr>conflicts := conflicts b @
          [InvalidRange (claim_bus claim) claimant (claim_base claim) (claim_len claim)]\<rparr>
      | Some r \<Rightarrow>
          (case Bus_insert (select_bus (claim_bus claim) (b_buses b)) r claimant t of
             Inl owner \<Rightarrow> b\<lparr>conflicts := conflicts b @
               [RangeTaken (claim_bus claim) claimant (claim_base claim) (claim_len claim) owner]\<rparr>
           | Inr bus' \<Rightarrow> b\<lparr>b_buses := put_bus (claim_bus claim) bus' (b_buses b)\<rparr>))"

definition insert_line :: "string \<Rightarrow> u32 \<Rightarrow> 'd builder \<Rightarrow> 'd builder" where
  "insert_line name line b =
     (case map_of (line_owners b) line of
        None \<Rightarrow> b\<lparr>line_owners := bt_insert line name (line_owners b)\<rparr>
      | Some owner \<Rightarrow> b\<lparr>conflicts := conflicts b @ [LineTaken line name owner]\<rparr>)"

definition ChipsetBuilder_reserve :: "bus_kind \<Rightarrow> u64 \<Rightarrow> u64 \<Rightarrow> string \<Rightarrow> 'd builder \<Rightarrow> 'd builder" where
  "ChipsetBuilder_reserve k base len owner b =
     insert_range \<lparr>claim_bus = k, claim_base = base, claim_len = len, claim_first_offset = 0\<rparr> owner None b"

definition ChipsetBuilder_add :: "string \<Rightarrow> 'd ctor \<Rightarrow> 'd builder \<Rightarrow> vmm_error + 'd builder" where
  "ChipsetBuilder_add name ctor b =
     (case ctor \<lparr>range_claims = [], line_claims = []\<rparr> of
        (Inl e, _) \<Rightarrow> Inl e
      | (Inr dev, r) \<Rightarrow>
          (let b = fold (\<lambda>claim. insert_range claim name
                 (Some (length (devices b), claim_first_offset claim))) (range_claims r) b;
               b = fold (insert_line name) (line_claims r) b
           in Inr (b\<lparr>devices := devices b @ [dev]\<rparr>)))"

record 'd chipset =
  c_buses :: buses
  c_devices :: "'d list"

definition ChipsetBuilder_build :: "'d builder \<Rightarrow> vmm_error + (bool \<times> 'd chipset)" where
  "ChipsetBuilder_build b =
     (if conflicts b \<noteq> [] then Inl (ChipsetConflicts (conflicts b))
      else Inr (True, \<lparr>c_buses = b_buses b, c_devices = devices b\<rparr>))"

definition Chipset_dispatch :: "'d bus_device_ops \<Rightarrow> 'd chipset \<Rightarrow> vcpu_exit \<Rightarrow>
    'd chipset \<times> (u8 list + vcpu_exit)" where
  "Chipset_dispatch ops c x =
     (let (bs, ds, r) = Buses_dispatch ops (c_buses c) (c_devices c) x
      in (c\<lparr>c_buses := bs, c_devices := ds\<rparr>, r))"

section \<open>A build as a list of claims\<close>

text \<open>
  What the builder is asked for, in order: a reservation, or a device with its constructor. The
  run stops at the first constructor error, as the callers' \<open>?\<close> does.
\<close>

datatype 'd builder_op =
  Reserve bus_kind u64 u64 string
  | Add string "'d ctor"

fun builder_step :: "'d builder_op \<Rightarrow> 'd builder \<Rightarrow> vmm_error + 'd builder" where
  "builder_step (Reserve k base len owner) b = Inr (ChipsetBuilder_reserve k base len owner b)"
| "builder_step (Add name ctor) b = ChipsetBuilder_add name ctor b"

fun builder_run :: "'d builder_op list \<Rightarrow> 'd builder \<Rightarrow> vmm_error + 'd builder" where
  "builder_run [] b = Inr b"
| "builder_run (x # xs) b = (case builder_step x b of Inl e \<Rightarrow> Inl e | Inr b \<Rightarrow> builder_run xs b)"

text \<open>
  The abstract view: every range claim with its owner and target, and every line claim. A set of
  claims is conflict-free when each range exists, two ranges on one bus never share an address,
  and no line is claimed twice.
\<close>

type_synonym owned_claim = "bus_kind \<times> u64 \<times> u64 \<times> string \<times> target option"

definition claim_of :: "string \<Rightarrow> nat \<Rightarrow> range_claim \<Rightarrow> owned_claim" where
  "claim_of name d c =
     (claim_bus c, claim_base c, claim_len c, name, Some (d, claim_first_offset c))"

fun op_claims :: "nat \<Rightarrow> 'd builder_op \<Rightarrow> owned_claim list \<times> u32 list \<times> nat" where
  "op_claims n (Reserve k base len owner) = ([(k, base, len, owner, None)], [], n)"
| "op_claims n (Add name ctor) =
     (let r = snd (ctor \<lparr>range_claims = [], line_claims = []\<rparr>)
      in (map (claim_of name n) (range_claims r), line_claims r, Suc n))"

fun all_claims :: "nat \<Rightarrow> 'd builder_op list \<Rightarrow> owned_claim list \<times> u32 list" where
  "all_claims n [] = ([], [])"
| "all_claims n (x # xs) =
     (let (cs, ls, n') = op_claims n x; (cs', ls') = all_claims n' xs in (cs @ cs', ls @ ls'))"

definition claim_addrs :: "owned_claim \<Rightarrow> nat set" where
  "claim_addrs c = (case c of (k, base, len, _) \<Rightarrow> {unat base ..< unat base + unat len})"

definition claim_valid :: "owned_claim \<Rightarrow> bool" where
  "claim_valid c = (case c of (k, base, len, _) \<Rightarrow> 0 < unat len \<and> unat base + unat len \<le> 2 ^ 64)"

definition claims_clash :: "owned_claim \<Rightarrow> owned_claim \<Rightarrow> bool" where
  "claims_clash c c' \<longleftrightarrow> fst c = fst c' \<and> claim_addrs c \<inter> claim_addrs c' \<noteq> {}"

definition ranges_free :: "owned_claim list \<Rightarrow> bool" where
  "ranges_free cs \<longleftrightarrow> list_all claim_valid cs \<and> sorted_wrt (\<lambda>c c'. \<not> claims_clash c c') cs"

text \<open>The entry a claim becomes.\<close>

definition entry_of :: "owned_claim \<Rightarrow> entry" where
  "entry_of c = (case c of (k, base, len, owner, t) \<Rightarrow>
     \<lparr>entry_range = the (BusRange_new base len), entry_owner = owner, entry_target = t\<rparr>)"

definition entries_match :: "owned_claim list \<Rightarrow> buses \<Rightarrow> bool" where
  "entries_match cs bs \<longleftrightarrow>
     (\<forall>k. bus_wf (select_bus k bs) \<and> entries (select_bus k bs) = entry_of ` {c \<in> set cs. fst c = k})"

text \<open>
  The builder's invariant against the claims made so far: a conflict has been recorded exactly
  when the claims clash, and until then both registries hold exactly the claims.
\<close>

definition built :: "owned_claim list \<Rightarrow> u32 list \<Rightarrow> 'd builder \<Rightarrow> bool" where
  "built cs ls b \<longleftrightarrow>
     (conflicts b = [] \<longleftrightarrow> ranges_free cs \<and> distinct ls) \<and> bt_ok (line_owners b) \<and>
     (\<forall>k. bus_wf (select_bus k (b_buses b))) \<and>
     (conflicts b = [] \<longrightarrow> entries_match cs (b_buses b) \<and> dom (map_of (line_owners b)) = set ls)"

lemma select_put [simp]:
  "select_bus k (put_bus k' b bs) = (if k = k' then b else select_bus k bs)"
  by (cases k; cases k') auto

lemma BusRange_new_valid:
  "(\<exists>r. BusRange_new base len = Some r) \<longleftrightarrow> claim_valid (k, base, len, owner, t)"
proof -
  have "BusRange_new base len \<noteq> None \<longleftrightarrow> 0 < unat len \<and> unat base + unat len \<le> 2 ^ 64"
    using BusRange_new_None[of base len] by (auto simp: not_le)
  then show ?thesis by (auto simp: claim_valid_def)
qed

lemma BusRange_new_addrs:
  assumes "BusRange_new base len = Some r"
  shows "range_addrs r = claim_addrs (k, base, len, owner, t)"
  using assms by (auto simp: BusRange_new_Some range_addrs_def claim_addrs_def)

lemma ranges_free_snoc:
  "ranges_free (cs @ [c]) \<longleftrightarrow> ranges_free cs \<and> claim_valid c \<and> (\<forall>c' \<in> set cs. \<not> claims_clash c' c)"
  by (auto simp: ranges_free_def sorted_wrt_append)

lemma entry_of_addrs:
  assumes "claim_valid c"
  shows "range_addrs (entry_range (entry_of c)) = claim_addrs c \<and> range_wf (entry_range (entry_of c))"
proof -
  obtain k base len owner t where c: "c = (k, base, len, owner, t)" by (cases c) auto
  then obtain r where r: "BusRange_new base len = Some r"
    using assms BusRange_new_valid by blast
  then show ?thesis using BusRange_new_addrs[OF r] range_wf_new[OF r] c by (simp add: entry_of_def)
qed

lemma built_insert_range:
  assumes built: "built cs ls b" and c: "oc = (claim_bus c, claim_base c, claim_len c, owner, t)"
  shows "built (cs @ [oc]) ls (insert_range c owner t b)"
proof (cases "BusRange_new (claim_base c) (claim_len c)")
  case None
  then have "\<not> claim_valid oc" using BusRange_new_valid c by (metis option.distinct(1))
  then show ?thesis using built None
    by (simp add: built_def insert_range_def ranges_free_snoc)
next
  case (Some r)
  let ?k = "claim_bus c" and ?bus = "select_bus (claim_bus c) (b_buses b)"
  have valid: "claim_valid oc" using BusRange_new_valid Some c by blast
  have addrs: "range_addrs r = claim_addrs oc" using BusRange_new_addrs[OF Some] c by simp
  have wf: "bus_wf ?bus" using built by (simp add: built_def)
  have rwf: "range_wf r" by (rule range_wf_new[OF Some])
  have fst: "fst oc = ?k" using c by simp
  have clash: "(\<forall>e \<in> entries ?bus. \<not> overlaps (entry_range e) r) \<longleftrightarrow>
      (\<forall>c' \<in> set cs. \<not> claims_clash c' oc)" if ok: "conflicts b = []"
  proof -
    have em: "entries ?bus = entry_of ` {c' \<in> set cs. fst c' = ?k}" and free: "ranges_free cs"
      using built ok by (auto simp: built_def entries_match_def)
    have "overlaps (entry_range (entry_of c')) r \<longleftrightarrow> claim_addrs c' \<inter> claim_addrs oc \<noteq> {}"
      if "c' \<in> set cs" for c'
      using entry_of_addrs[of c'] overlaps_iff_addrs[OF _ rwf] that free addrs
      by (auto simp: ranges_free_def list_all_iff)
    then show ?thesis
      unfolding em claims_clash_def fst by (auto simp del: split_paired_All split_paired_Ex)
  qed
  show ?thesis
  proof (cases "Bus_insert ?bus r owner t")
    case (Inl o')
    have "conflicts b = [] \<Longrightarrow> \<not> ranges_free (cs @ [oc])"
      using Bus_insert_Inl[OF wf rwf Inl] clash by (auto simp: ranges_free_snoc)
    then show ?thesis using built Some Inl
      by (auto simp: built_def insert_range_def ranges_free_snoc)
  next
    case (Inr bus')
    note ins = Bus_insert_Inr[OF wf rwf Inr]
    have new: "entry_of oc = \<lparr>entry_range = r, entry_owner = owner, entry_target = t\<rparr>"
      using Some c by (simp add: entry_of_def)
    have iff: "conflicts b = [] \<longleftrightarrow> ranges_free (cs @ [oc]) \<and> distinct ls"
      using built clash ins valid by (auto simp: built_def ranges_free_snoc)
    have em: "entries_match (cs @ [oc]) (put_bus ?k bus' (b_buses b))" if "conflicts b = []"
    proof -
      have "entries_match cs (b_buses b)" using built that by (simp add: built_def)
      moreover have "{c' \<in> set (cs @ [oc]). fst c' = k} =
          (if k = ?k then insert oc {c' \<in> set cs. fst c' = k} else {c' \<in> set cs. fst c' = k})" for k
        using fst by auto
      ultimately show ?thesis using ins new
        by (simp add: entries_match_def del: split_paired_All split_paired_Ex)
    qed
    have wfs: "bus_wf (select_bus k (put_bus ?k bus' (b_buses b)))" for k
      using built ins by (simp add: built_def)
    show ?thesis
      using built Some Inr iff em wfs by (auto simp: built_def insert_range_def simp del: select_put)
  qed
qed

lemma built_insert_line:
  assumes "built cs ls b"
  shows "built cs (ls @ [l]) (insert_line name l b)"
proof (cases "map_of (line_owners b) l")
  case None
  then have "l \<notin> dom (map_of (line_owners b))" by (simp add: domIff)
  then have "conflicts b = [] \<longrightarrow> l \<notin> set ls"
    using assms by (auto simp: built_def simp del: domIff)
  moreover have "dom (map_of (bt_insert l name (line_owners b))) =
      insert l (dom (map_of (line_owners b)))"
    using assms by (simp add: built_def map_of_bt_insert)
  ultimately show ?thesis using assms None
    by (auto simp: built_def insert_line_def bt_ok_insert)
next
  case (Some o')
  then have "conflicts b = [] \<longrightarrow> l \<in> set ls"
    using assms by (auto simp: built_def)
  then show ?thesis using assms Some by (auto simp: built_def insert_line_def)
qed

lemma insert_range_devices [simp]: "devices (insert_range c owner t b) = devices b"
  by (auto simp: insert_range_def split: option.splits sum.splits)

lemma insert_line_devices [simp]: "devices (insert_line name l b) = devices b"
  by (auto simp: insert_line_def split: option.splits)

lemma fold_insert_range:
  assumes "built cs ls b"
  shows "built (cs @ map (claim_of name d) claims) ls
      (fold (\<lambda>c. insert_range c name (Some (d, claim_first_offset c))) claims b) \<and>
    devices (fold (\<lambda>c. insert_range c name (Some (d, claim_first_offset c))) claims b) = devices b"
  using assms
proof (induction claims arbitrary: cs b)
  case Nil
  then show ?case by simp
next
  case (Cons c claims)
  have "built (cs @ [claim_of name d c]) ls
      (insert_range c name (Some (d, claim_first_offset c)) b)"
    by (rule built_insert_range[OF Cons.prems]) (simp add: claim_of_def)
  from Cons.IH[OF this] show ?case by simp
qed

lemma fold_insert_line:
  assumes "built cs ls b"
  shows "built cs (ls @ ls') (fold (insert_line name) ls' b) \<and>
    devices (fold (insert_line name) ls' b) = devices b"
  using assms
proof (induction ls' arbitrary: ls b)
  case Nil
  then show ?case by simp
next
  case (Cons l ls')
  from Cons.IH[OF built_insert_line[OF Cons.prems, of l name]] show ?case by simp
qed

lemma built_devices [simp]: "built cs ls (b\<lparr>devices := ds\<rparr>) \<longleftrightarrow> built cs ls b"
  by (simp add: built_def)

lemma built_step:
  assumes built: "built cs ls b" and st: "builder_step x b = Inr b'"
    and cl: "op_claims (length (devices b)) x = (cs', ls', n')"
  shows "built (cs @ cs') (ls @ ls') b' \<and> length (devices b') = n'"
proof (cases x)
  case (Reserve k base len owner)
  then show ?thesis
    using st cl built_insert_range[OF built, of "(k, base, len, owner, None)"
        "\<lparr>claim_bus = k, claim_base = base, claim_len = len, claim_first_offset = 0\<rparr>" owner None]
    by (auto simp: ChipsetBuilder_reserve_def)
next
  case (Add name ctor)
  obtain d r where c: "ctor \<lparr>range_claims = [], line_claims = []\<rparr> = (Inr d, r)"
    using st Add by (auto simp: ChipsetBuilder_add_def split: prod.splits sum.splits)
  note fr = fold_insert_range[OF built, of name "length (devices b)" "range_claims r"]
  note fl = fold_insert_line[OF conjunct1[OF fr], of "line_claims r" name]
  show ?thesis
    using st cl Add c fr fl by (auto simp: ChipsetBuilder_add_def Let_def)
qed

lemma built_run:
  assumes "built cs ls b" "builder_run xs b = Inr b'"
    and "all_claims (length (devices b)) xs = (cs', ls')"
  shows "built (cs @ cs') (ls @ ls') b'"
  using assms
proof (induction xs arbitrary: cs ls b cs' ls')
  case Nil
  then show ?case by simp
next
  case (Cons x xs)
  obtain b1 where b1: "builder_step x b = Inr b1" "builder_run xs b1 = Inr b'"
    using Cons.prems(2) by (auto split: sum.splits)
  obtain cs1 ls1 n1 where c1: "op_claims (length (devices b)) x = (cs1, ls1, n1)"
    by (cases "op_claims (length (devices b)) x") auto
  obtain cs2 ls2 where c2: "all_claims n1 xs = (cs2, ls2)" by (cases "all_claims n1 xs")
  note st = built_step[OF Cons.prems(1) b1(1) c1]
  from Cons.IH[OF conjunct1[OF st] b1(2)] st c2
  have "built ((cs @ cs1) @ cs2) ((ls @ ls1) @ ls2) b'" by simp
  then show ?case using Cons.prems(3) c1 c2 by (auto simp: Let_def)
qed

lemma select_default [simp]: "select_bus k Buses_default = Bus_default"
  by (cases k) (simp_all add: Buses_default_def)

lemma built_new: "built [] [] ChipsetBuilder_new"
  by (simp add: built_def ChipsetBuilder_new_def ranges_free_def entries_match_def bus_wf_default
      entries_def) (simp add: Bus_default_def)

section \<open>Properties\<close>

text \<open>
  C21. A chipset builds exactly when the claims are conflict-free: after any sequence of
  reservations and devices, \<open>build\<close> succeeds if and only if every claimed range is non-empty and
  does not wrap, no two ranges claimed on one bus share an address, and no interrupt line is
  claimed twice. The buses it then holds are well formed and hold exactly the claimed ranges,
  each with the name and target it was claimed under.
\<close>

theorem build_iff_claims_free:
  assumes run: "builder_run xs (ChipsetBuilder_new :: 'd builder) = Inr b"
  shows "(case ChipsetBuilder_build b of
       Inl _ \<Rightarrow> \<not> (ranges_free (fst (all_claims 0 xs)) \<and> distinct (snd (all_claims 0 xs)))
     | Inr (armed, c) \<Rightarrow> armed \<and>
         ranges_free (fst (all_claims 0 xs)) \<and> distinct (snd (all_claims 0 xs)) \<and>
         entries_match (fst (all_claims 0 xs)) (c_buses c))"
proof -
  obtain cs ls where cl: "all_claims 0 xs = (cs, ls)" by (cases "all_claims 0 xs")
  have "built cs ls b"
    using built_run[OF built_new run, of cs ls] cl by (simp add: ChipsetBuilder_new_def)
  then show ?thesis using cl by (auto simp: ChipsetBuilder_build_def built_def)
qed

theorem build_iff_claims_free_witness:
  "\<exists>b :: nat builder.
     builder_run [Reserve Pio 0x61 1 ''pit'', Add ''kbd'' (\<lambda>r. (Inr 7, Resources_pio 0x60 2 r))]
       ChipsetBuilder_new = Inr b \<and>
     ChipsetBuilder_build b = Inl (ChipsetConflicts [RangeTaken Pio ''kbd'' 0x60 2 ''pit'']) \<and>
     \<not> ranges_free [(Pio, 0x61, 1, ''pit'', None), (Pio, 0x60, 2, ''kbd'', Some (0, 0))]"
proof -
  let ?xs = "[Reserve Pio 0x61 1 ''pit'', Add ''kbd'' (\<lambda>r. (Inr 7, Resources_pio 0x60 2 r))]
    :: nat builder_op list"
  obtain b where run: "builder_run ?xs ChipsetBuilder_new = Inr b"
    by (simp add: ChipsetBuilder_add_def Let_def)
  have b: "ChipsetBuilder_build b = Inl (ChipsetConflicts [RangeTaken Pio ''kbd'' 0x60 2 ''pit''])"
    using run by (auto simp: ChipsetBuilder_add_def ChipsetBuilder_reserve_def insert_range_def
        BusRange_new_def checked_sub_def checked_add_def Bus_insert_def ChipsetBuilder_new_def
        Buses_default_def Bus_default_def Resources_pio_def Resources_pio_with_offset_def
        ChipsetBuilder_build_def)
  show ?thesis using build_iff_claims_free[OF run] run b
    by (auto simp: Resources_pio_def Resources_pio_with_offset_def claim_of_def)
qed

end
