(* ===== verification/Vcpus.thy ===== *)
theory Vcpus
  imports Chipset
begin

text \<open>
  The threads of a running virtual machine: the vCPU workers of \<open>src/src/vmm/src/vcpu.rs\<close>, the event
  queue and stop latch of \<open>events.rs\<close>, and the thread that runs \<open>Vm::run\<close> (\<open>vm.rs\<close>) up to the join.

  One step of \<open>vm_step\<close> is one atomic action of one thread. \<open>EventSender::send\<close> is two of them, the
  latch and then the queue, so other threads run in between. The guest, the host calls of a vCPU and a
  panic are free to happen or fail at every point the code allows; the devices are those of the chipset,
  with \<open>dev_events\<close> the events a dispatch makes them send. Threads outside these (a stop handle, the
  virtio workers) send at any time.
\<close>

section \<open>Phases\<close>

datatype vcpu_phase =
  Unspawned
  | Configuring
  | Sending event vcpu_phase
  | Queuing event vcpu_phase
  | Arriving bool
  | Waiting bool
  | Checking
  | Completing
  | Entering
  | Running
  | Dispatching vcpu_exit
  | Finished

text \<open>\<open>Sending e k\<close> is a call of \<open>send\<close> before the latch, \<open>Queuing e k\<close> after it; \<open>k\<close> follows the call.
  \<open>Arriving\<close> and \<open>Waiting\<close> say whether the worker has a configured vCPU. \<open>Entering\<close> is the time between
  the check of the latch and the entry itself, in which the latch may still be set.\<close>

datatype main_phase =
  Spawning nat
  | MainSending event main_phase
  | MainQueuing event main_phase
  | Aborting
  | Awaiting
  | Kicking "error_kind + event"
  | Joining "error_kind + event"
  | Joined "error_kind + event"

text \<open>
  The channel is the list of all events ever queued and the number already received.
\<close>

record 'd vm_threads =
  vm_count :: nat
  vm_phase :: "nat \<Rightarrow> vcpu_phase"
  vm_main :: main_phase
  stopping :: bool
  queued :: "event list"
  received :: nat
  outside :: "event list"
  gate_arrived :: nat
  gate_aborted :: bool
  vm_kicks :: "nat set"
  kicked :: "nat set"
  vm_chipset :: "'d chipset"

definition threads_start :: "nat \<Rightarrow> 'd chipset \<Rightarrow> 'd vm_threads" where
  "threads_start n c = \<lparr>vm_count = n, vm_phase = \<lambda>_. Unspawned, vm_main = Spawning 0, stopping = False,
     queued = [], received = 0, outside = [], gate_arrived = 0, gate_aborted = False, vm_kicks = {},
     kicked = {}, vm_chipset = c\<rparr>"

definition set_phase :: "nat \<Rightarrow> vcpu_phase \<Rightarrow> 'd vm_threads \<Rightarrow> 'd vm_threads" where
  "set_phase i p s = s\<lparr>vm_phase := (vm_phase s)(i := p)\<rparr>"

section \<open>A worker\<close>

definition gate_open :: "'d vm_threads \<Rightarrow> bool" where
  "gate_open s \<longleftrightarrow> \<not> (gate_arrived s < vm_count s \<and> \<not> gate_aborted s)"

text \<open>
  What follows a dispatched exit: the next turn of the loop, or a result of \<open>run_guest\<close>. \<open>debug\<close> is the
  exit's \<open>Debug\<close> text.
\<close>

definition run_guest_exit ::
    "(vcpu_exit \<Rightarrow> string) \<Rightarrow> nat \<Rightarrow> u8 list + vcpu_exit \<Rightarrow> (vmm_error + event) option" where
  "run_guest_exit debug i r =
     (case r of
        Inl _ \<Rightarrow> None
      | Inr ExitInterrupted \<Rightarrow> None
      | Inr ExitShutdown \<Rightarrow> Some (Inr GuestShutdown)
      | Inr ExitReset \<Rightarrow> Some (Inr GuestReset)
      | Inr x \<Rightarrow> Some (Inl (UnexpectedExit (of_nat i) (debug x))))"

definition ended :: "vmm_error + event \<Rightarrow> vcpu_phase" where
  "ended r = (case r of Inl e \<Rightarrow> Sending (VcpuFailed e) Finished | Inr ev \<Rightarrow> Sending ev Finished)"

definition after_dispatch :: "(vmm_error + event) option \<Rightarrow> event list \<Rightarrow> vcpu_phase" where
  "after_dispatch r evs = foldr Sending evs (case r of None \<Rightarrow> Checking | Some r \<Rightarrow> ended r)"

definition panicked :: "nat \<Rightarrow> vmm_error" where
  "panicked i = VcpuPanicked (of_nat i)"

inductive vcpu_step ::
    "'d bus_device_ops \<Rightarrow> (vcpu_exit \<Rightarrow> string) \<Rightarrow> ('d chipset \<Rightarrow> vcpu_exit \<Rightarrow> event list) \<Rightarrow> nat \<Rightarrow>
     'd vm_threads \<Rightarrow> 'd vm_threads \<Rightarrow> bool"
  for ops debug dev_events i
where
  configured: "vm_phase s i = Configuring \<Longrightarrow>
    vcpu_step ops debug dev_events i s (set_phase i (Arriving True) (s\<lparr>vm_kicks := insert i (vm_kicks s)\<rparr>))"
| configure_fails: "vm_phase s i = Configuring \<Longrightarrow>
    vcpu_step ops debug dev_events i s (set_phase i (Sending (VcpuFailed e) (Arriving False)) s)"
| latch: "vm_phase s i = Sending e k \<Longrightarrow>
    vcpu_step ops debug dev_events i s (set_phase i (Queuing e k) (s\<lparr>stopping := True\<rparr>))"
| queue: "vm_phase s i = Queuing e k \<Longrightarrow>
    vcpu_step ops debug dev_events i s (set_phase i k (s\<lparr>queued := queued s @ [e]\<rparr>))"
| arrive: "vm_phase s i = Arriving b \<Longrightarrow>
    vcpu_step ops debug dev_events i s (set_phase i (Waiting b) (s\<lparr>gate_arrived := gate_arrived s + 1\<rparr>))"
| pass: "vm_phase s i = Waiting b \<Longrightarrow> gate_open s \<Longrightarrow>
    vcpu_step ops debug dev_events i s (set_phase i (if b then Checking else Finished) s)"
| stop: "vm_phase s i = Checking \<Longrightarrow> stopping s \<Longrightarrow>
    vcpu_step ops debug dev_events i s (set_phase i Completing s)"
| enter: "vm_phase s i = Checking \<Longrightarrow> \<not> stopping s \<Longrightarrow>
    vcpu_step ops debug dev_events i s (set_phase i Entering s)"
| guest: "vm_phase s i = Entering \<Longrightarrow>
    vcpu_step ops debug dev_events i s (set_phase i Running s)"
| completed: "vm_phase s i = Completing \<Longrightarrow>
    vcpu_step ops debug dev_events i s (set_phase i Finished s)"
| complete_fails: "vm_phase s i = Completing \<Longrightarrow>
    vcpu_step ops debug dev_events i s (set_phase i (ended (Inl e)) s)"
| exits: "vm_phase s i = Running \<Longrightarrow>
    vcpu_step ops debug dev_events i s (set_phase i (Dispatching x) s)"
| run_fails: "vm_phase s i = Running \<Longrightarrow>
    vcpu_step ops debug dev_events i s (set_phase i (ended (Inl e)) s)"
| dispatch: "vm_phase s i = Dispatching x \<Longrightarrow> Chipset_dispatch ops (vm_chipset s) x = (c, r) \<Longrightarrow>
    vcpu_step ops debug dev_events i s
      (set_phase i (after_dispatch (run_guest_exit debug i r) (dev_events (vm_chipset s) x))
        (s\<lparr>vm_chipset := c\<rparr>))"
| dispatch_panics: "vm_phase s i = Dispatching x \<Longrightarrow>
    vcpu_step ops debug dev_events i s (set_phase i (ended (Inl (panicked i))) (s\<lparr>vm_chipset := c\<rparr>))"

text \<open>
  A panic during the configuration or a run is one of the failures \<open>e\<close> there; one during a dispatch may
  leave the chipset in any state \<open>c\<close>.
\<close>

section \<open>The main thread and the outside\<close>

text \<open>\<open>wait\<close> fails only when the poller does; \<open>K\<close> are the vCPUs whose kick succeeds.\<close>

inductive main_step :: "'d vm_threads \<Rightarrow> 'd vm_threads \<Rightarrow> bool" where
  spawn: "vm_main s = Spawning i \<Longrightarrow> i < vm_count s \<Longrightarrow>
    main_step s (set_phase i Configuring (s\<lparr>vm_main := Spawning (Suc i)\<rparr>))"
| spawn_fails: "vm_main s = Spawning i \<Longrightarrow> i < vm_count s \<Longrightarrow>
    main_step s (s\<lparr>vm_main := MainSending (VcpuFailed (SpawnVcpu (of_nat i) kind)) Aborting\<rparr>)"
| spawned: "vm_main s = Spawning i \<Longrightarrow> i = vm_count s \<Longrightarrow> main_step s (s\<lparr>vm_main := Awaiting\<rparr>)"
| main_latch: "vm_main s = MainSending e k \<Longrightarrow>
    main_step s (s\<lparr>vm_main := MainQueuing e k, stopping := True\<rparr>)"
| main_queue: "vm_main s = MainQueuing e k \<Longrightarrow>
    main_step s (s\<lparr>vm_main := k, queued := queued s @ [e]\<rparr>)"
| abort: "vm_main s = Aborting \<Longrightarrow> main_step s (s\<lparr>vm_main := Awaiting, gate_aborted := True\<rparr>)"
| await: "vm_main s = Awaiting \<Longrightarrow> received s < length (queued s) \<Longrightarrow>
    main_step s (s\<lparr>vm_main := Kicking (Inr (queued s ! received s)), received := received s + 1\<rparr>)"
| await_fails: "vm_main s = Awaiting \<Longrightarrow>
    main_step s (s\<lparr>vm_main := MainSending StopRequested (Kicking (Inl kind))\<rparr>)"
| kick: "vm_main s = Kicking r \<Longrightarrow> K \<subseteq> vm_kicks s \<Longrightarrow>
    main_step s (s\<lparr>vm_main := Joining r, kicked := K\<rparr>)"
| join: "vm_main s = Joining r \<Longrightarrow> (\<forall>i < vm_count s. vm_phase s i \<in> {Unspawned, Finished}) \<Longrightarrow>
    main_step s (s\<lparr>vm_main := Joined r\<rparr>)"

inductive vm_step ::
    "'d bus_device_ops \<Rightarrow> (vcpu_exit \<Rightarrow> string) \<Rightarrow> ('d chipset \<Rightarrow> vcpu_exit \<Rightarrow> event list) \<Rightarrow>
     'd vm_threads \<Rightarrow> 'd vm_threads \<Rightarrow> bool"
  for ops debug dev_events
where
  vcpu: "vcpu_step ops debug dev_events i s s' \<Longrightarrow> vm_step ops debug dev_events s s'"
| main: "main_step s s' \<Longrightarrow> vm_step ops debug dev_events s s'"
| outside_latch: "vm_step ops debug dev_events s (s\<lparr>stopping := True, outside := outside s @ [e]\<rparr>)"
| outside_queue: "outside s = es @ e # es' \<Longrightarrow>
    vm_step ops debug dev_events s (s\<lparr>outside := es @ es', queued := queued s @ [e]\<rparr>)"

inductive vm_reach ::
    "'d bus_device_ops \<Rightarrow> (vcpu_exit \<Rightarrow> string) \<Rightarrow> ('d chipset \<Rightarrow> vcpu_exit \<Rightarrow> event list) \<Rightarrow> nat \<Rightarrow>
     'd vm_threads \<Rightarrow> bool"
  for ops debug dev_events n
where
  start: "vm_reach ops debug dev_events n (threads_start n c)"
| step: "vm_reach ops debug dev_events n s \<Longrightarrow> vm_step ops debug dev_events s s' \<Longrightarrow>
    vm_reach ops debug dev_events n s'"

section \<open>The invariant\<close>

fun has_arrived :: "vcpu_phase \<Rightarrow> bool" where
  "has_arrived (Sending e k) = has_arrived k"
| "has_arrived (Queuing e k) = has_arrived k"
| "has_arrived Unspawned = False"
| "has_arrived Configuring = False"
| "has_arrived (Arriving b) = False"
| "has_arrived _ = True"

fun past_gate :: "vcpu_phase \<Rightarrow> bool" where
  "past_gate (Sending e k) = past_gate k"
| "past_gate (Queuing e k) = past_gate k"
| "past_gate Checking = True"
| "past_gate Entering = True"
| "past_gate Running = True"
| "past_gate (Dispatching x) = True"
| "past_gate _ = False"

fun serves :: "vcpu_phase \<Rightarrow> bool" where
  "serves (Sending e k) = serves k"
| "serves (Queuing e k) = serves k"
| "serves (Arriving b) = b"
| "serves (Waiting b) = b"
| "serves Unspawned = False"
| "serves Configuring = False"
| "serves _ = True"

text \<open>A phase with a configured vCPU; a finished worker may have failed before it had one.\<close>

fun has_vcpu :: "vcpu_phase \<Rightarrow> bool" where
  "has_vcpu (Queuing e k) = has_vcpu k"
| "has_vcpu Finished = False"
| "has_vcpu p = serves p"

fun only_stopping :: "vcpu_phase \<Rightarrow> bool" where
  "only_stopping (Queuing e k) = True"
| "only_stopping (Arriving b) = (\<not> b)"
| "only_stopping (Waiting b) = (\<not> b)"
| "only_stopping Completing = True"
| "only_stopping Finished = True"
| "only_stopping _ = False"

text \<open>Past the check of the latch, so in the guest or on the way there.\<close>

fun in_guest :: "vcpu_phase \<Rightarrow> bool" where
  "in_guest Entering = True"
| "in_guest Running = True"
| "in_guest (Dispatching x) = True"
| "in_guest _ = False"

fun main_stopping :: "main_phase \<Rightarrow> bool" where
  "main_stopping (MainQueuing e k) = True"
| "main_stopping Aborting = True"
| "main_stopping (Kicking r) = True"
| "main_stopping (Joining r) = True"
| "main_stopping (Joined r) = True"
| "main_stopping _ = False"

definition workers_ok :: "'d vm_threads \<Rightarrow> bool" where
  "workers_ok s \<longleftrightarrow>
     (\<forall>i. only_stopping (vm_phase s i) \<longrightarrow> stopping s) \<and>
     (\<forall>i. has_vcpu (vm_phase s i) \<longrightarrow> i \<in> vm_kicks s) \<and>
     (\<forall>i. past_gate (vm_phase s i) \<longrightarrow> stopping s \<or> vm_count s \<le> gate_arrived s) \<and>
     (\<forall>i\<ge>vm_count s. vm_phase s i = Unspawned) \<and>
     gate_arrived s = card {i. i < vm_count s \<and> has_arrived (vm_phase s i)}"

definition latch_ok :: "'d vm_threads \<Rightarrow> bool" where
  "latch_ok s \<longleftrightarrow>
     (gate_aborted s \<longrightarrow> stopping s) \<and> (main_stopping (vm_main s) \<longrightarrow> stopping s) \<and>
     (queued s \<noteq> [] \<longrightarrow> stopping s) \<and> (outside s \<noteq> [] \<longrightarrow> stopping s)"

lemma foldr_sending [simp]:
  "has_arrived (foldr Sending evs k) = has_arrived k" "past_gate (foldr Sending evs k) = past_gate k"
  "serves (foldr Sending evs k) = serves k"
  by (induction evs) simp_all

lemma dispatched [simp]:
  "has_arrived (after_dispatch r evs)" "serves (after_dispatch r evs)"
  "\<not> only_stopping (after_dispatch r evs)" "has_vcpu (after_dispatch r evs)"
  "has_arrived (ended q)" "serves (ended q)" "\<not> only_stopping (ended q)" "has_vcpu (ended q)"
  "\<not> past_gate (ended q)" "\<not> in_guest (ended q)" "\<not> in_guest (after_dispatch r evs)"
  by (cases evs; auto simp: after_dispatch_def ended_def split: option.split sum.split)+

lemma set_phase_simps [simp]:
  "vm_phase (set_phase i p s) = (vm_phase s)(i := p)" "vm_count (set_phase i p s) = vm_count s"
  "vm_main (set_phase i p s) = vm_main s" "stopping (set_phase i p s) = stopping s"
  "queued (set_phase i p s) = queued s" "received (set_phase i p s) = received s"
  "outside (set_phase i p s) = outside s" "gate_arrived (set_phase i p s) = gate_arrived s"
  "gate_aborted (set_phase i p s) = gate_aborted s" "vm_kicks (set_phase i p s) = vm_kicks s"
  "kicked (set_phase i p s) = kicked s" "vm_chipset (set_phase i p s) = vm_chipset s"
  by (simp_all add: set_phase_def)

text \<open>What a worker's step leaves alone.\<close>

lemma vcpu_other: "vcpu_step ops debug dev_events i s s' \<Longrightarrow> j \<noteq> i \<Longrightarrow> vm_phase s' j = vm_phase s j"
  by (erule vcpu_step.cases) auto

lemma vcpu_runs: "vcpu_step ops debug dev_events i s s' \<Longrightarrow> vm_phase s i \<notin> {Unspawned, Finished}"
  by (erule vcpu_step.cases) auto

lemma vcpu_same:
  assumes "vcpu_step ops debug dev_events i s s'"
  shows "vm_main s' = vm_main s" "vm_count s' = vm_count s" "outside s' = outside s"
    "gate_aborted s' = gate_aborted s" "received s' = received s" "kicked s' = kicked s"
    "stopping s \<Longrightarrow> stopping s'" "vm_kicks s \<subseteq> vm_kicks s'" "\<exists>es. queued s' = queued s @ es"
  using assms by (cases; auto)+

text \<open>What any step keeps.\<close>

lemma vm_step_mono:
  assumes "vm_step ops debug dev_events s s'"
  shows "vm_count s' = vm_count s" "stopping s \<Longrightarrow> stopping s'" "vm_kicks s \<subseteq> vm_kicks s'"
    "\<exists>es. queued s' = queued s @ es"
  using assms by (auto elim!: vm_step.cases vcpu_step.cases main_step.cases)

lemma latch_vcpu:
  assumes "vcpu_step ops debug dev_events i s s'" "latch_ok s" "workers_ok s"
  shows "latch_ok s'"
proof -
  have q: "only_stopping (vm_phase s i) \<Longrightarrow> stopping s" using assms(3) by (auto simp: workers_ok_def)
  from assms(1,2) show ?thesis using q by cases (auto simp: latch_ok_def)
qed

lemma latch_main: "main_step s s' \<Longrightarrow> latch_ok s \<Longrightarrow> latch_ok s'"
  by (erule main_step.cases) (auto simp: latch_ok_def)

lemma latch_step:
  assumes "vm_step ops debug dev_events s s'" "latch_ok s" "workers_ok s"
  shows "latch_ok s'"
  using assms(1)
proof cases
  case (vcpu i)
  then show ?thesis using latch_vcpu assms by blast
next
  case main
  then show ?thesis using latch_main assms by blast
next
  case (outside_queue es e es')
  then show ?thesis using assms(2) by (simp add: latch_ok_def)
qed (simp add: latch_ok_def)

lemma has_vcpu_serves: "has_vcpu p \<Longrightarrow> serves p"
  by (induction p) simp_all

text \<open>A worker's step, as its effect on the counted and guarded sets.\<close>

lemma arrived_set:
  assumes "i < n"
  shows "card {j. j < n \<and> has_arrived (((vm_phase s)(i := p)) j)} =
    card {j. j < n \<and> has_arrived (vm_phase s j)} +
    (if has_arrived p then 1 else 0) - (if has_arrived (vm_phase s i) then 1 else 0)"
proof -
  let ?A = "{j. j < n \<and> j \<noteq> i \<and> has_arrived (vm_phase s j)}"
  have f: "finite ?A" "i \<notin> ?A" by simp_all
  have "{j. j < n \<and> has_arrived (((vm_phase s)(i := p)) j)} = (if has_arrived p then insert i ?A else ?A)"
    "{j. j < n \<and> has_arrived (vm_phase s j)} = (if has_arrived (vm_phase s i) then insert i ?A else ?A)"
    using assms by auto
  then show ?thesis using f by simp
qed

lemma workers_vcpu:
  assumes st: "vcpu_step ops debug dev_events i s s'" and w: "workers_ok s" and l: "latch_ok s"
  shows "workers_ok s'"
proof -
  have spawned: "vm_phase s i \<noteq> Unspawned"
    using st by cases auto
  then have i: "i < vm_count s" using w unfolding workers_ok_def by (metis not_less)
  have ph: "vm_phase s' = (vm_phase s)(i := vm_phase s' i)" and n: "vm_count s' = vm_count s"
    and mono: "stopping s \<Longrightarrow> stopping s'" "vm_kicks s \<subseteq> vm_kicks s'"
    using st by (cases; auto)+
  have ga: "gate_arrived s' = gate_arrived s +
      (if has_arrived (vm_phase s' i) then 1 else 0) - (if has_arrived (vm_phase s i) then 1 else 0)"
    using st by cases auto
  have wi: "only_stopping (vm_phase s i) \<Longrightarrow> stopping s" "has_vcpu (vm_phase s i) \<Longrightarrow> i \<in> vm_kicks s"
    "past_gate (vm_phase s i) \<Longrightarrow> stopping s \<or> vm_count s \<le> gate_arrived s"
    using w by (auto simp: workers_ok_def)
  have a1: "only_stopping (vm_phase s' i) \<Longrightarrow> stopping s'"
    using st by cases (use wi in \<open>auto split: if_split_asm\<close>)
  have a2: "has_vcpu (vm_phase s' i) \<Longrightarrow> i \<in> vm_kicks s'"
    using st by cases (use wi in \<open>auto dest: has_vcpu_serves split: if_split_asm\<close>)
  have a3: "past_gate (vm_phase s' i) \<Longrightarrow> stopping s' \<or> vm_count s' \<le> gate_arrived s'"
    using st by cases (use wi l in \<open>auto simp: latch_ok_def gate_open_def split: if_split_asm\<close>)
  have mono_ga: "gate_arrived s \<le> gate_arrived s'" using st by cases auto
  have "gate_arrived s' = card {j. j < vm_count s' \<and> has_arrived (vm_phase s' j)}"
    using arrived_set[OF i, of s "vm_phase s' i"] ga w ph n by (simp add: workers_ok_def)
  moreover have "only_stopping (vm_phase s' j) \<longrightarrow> stopping s'" "has_vcpu (vm_phase s' j) \<longrightarrow> j \<in> vm_kicks s'"
    "past_gate (vm_phase s' j) \<longrightarrow> stopping s' \<or> vm_count s' \<le> gate_arrived s'"
    "vm_count s' \<le> j \<longrightarrow> vm_phase s' j = Unspawned" for j
    using a1 a2 a3 w[unfolded workers_ok_def] mono mono_ga n i fun_upd_other[of j i "vm_phase s" "vm_phase s' i"] ph
    by (cases "j = i"; force)+
  ultimately show ?thesis by (simp add: workers_ok_def)
qed

lemma workers_main:
  assumes st: "main_step s s'" and w: "workers_ok s"
    and sp: "\<And>i. vm_main s = Spawning i \<Longrightarrow> vm_phase s i = Unspawned"
  shows "workers_ok s'"
  using st
proof cases
  case (spawn i)
  then have "card {j. j < vm_count s \<and> has_arrived (((vm_phase s)(i := Configuring)) j)} =
      card {j. j < vm_count s \<and> has_arrived (vm_phase s j)}"
    using arrived_set[of i "vm_count s" s Configuring] sp[of i] by simp
  then show ?thesis using spawn w sp[of i] by (auto simp: workers_ok_def)
qed (use w in \<open>auto simp: workers_ok_def\<close>)

text \<open>The main thread: what it has received, and who was spawned.\<close>

fun main_result :: "main_phase \<Rightarrow> (error_kind + event) option" where
  "main_result (MainSending e k) = main_result k"
| "main_result (MainQueuing e k) = main_result k"
| "main_result (Kicking r) = Some r"
| "main_result (Joining r) = Some r"
| "main_result (Joined r) = Some r"
| "main_result _ = None"

definition main_ok :: "'d vm_threads \<Rightarrow> bool" where
  "main_ok s \<longleftrightarrow>
     (\<forall>i. vm_main s = Spawning i \<longrightarrow> i \<le> vm_count s \<and> (\<forall>j\<ge>i. vm_phase s j = Unspawned)) \<and>
     (case main_result (vm_main s) of
        None \<Rightarrow> received s = 0
      | Some (Inl k) \<Rightarrow> received s = 0
      | Some (Inr e) \<Rightarrow> received s = 1 \<and> (\<exists>es. queued s = e # es)) \<and>
     (\<forall>e k. vm_main s = MainSending e k \<or> vm_main s = MainQueuing e k \<longrightarrow>
        k = Aborting \<or> (\<exists>kind. k = Kicking (Inl kind)))"

lemma main_step_ok: "main_step s s' \<Longrightarrow> main_ok s \<Longrightarrow> main_ok s'"
  by (erule main_step.cases)
    (auto simp: main_ok_def neq_Nil_conv split: option.splits sum.splits)

lemma main_vcpu_ok:
  assumes "vcpu_step ops debug dev_events i s s'" "main_ok s"
  shows "main_ok s'"
proof -
  show ?thesis
    using assms(2) vcpu_runs[OF assms(1)] vcpu_same[OF assms(1)] vcpu_other[OF assms(1)] unfolding main_ok_def
    by (auto split: option.splits sum.splits) metis+
qed

lemma main_ok_step: "vm_step ops debug dev_events s s' \<Longrightarrow> main_ok s \<Longrightarrow> main_ok s'"
  by (erule vm_step.cases)
    (auto intro: main_step_ok main_vcpu_ok, auto simp: main_ok_def split: option.splits sum.splits)

definition threads_ok :: "'d vm_threads \<Rightarrow> bool" where
  "threads_ok s \<longleftrightarrow> workers_ok s \<and> latch_ok s \<and> main_ok s"

lemma threads_step:
  assumes "vm_step ops debug dev_events s s'" "threads_ok s"
  shows "threads_ok s'"
proof -
  have "workers_ok s'"
    using assms(1)
  proof cases
    case (vcpu i)
    then show ?thesis using workers_vcpu assms(2) by (auto simp: threads_ok_def)
  next
    case main
    then show ?thesis
      using workers_main[of s s'] assms(2) by (auto simp: threads_ok_def main_ok_def)
  qed (use assms(2) in \<open>auto simp: threads_ok_def workers_ok_def\<close>)
  then show ?thesis using latch_step main_ok_step assms by (auto simp: threads_ok_def)
qed

lemma threads_reach: "vm_reach ops debug dev_events n s \<Longrightarrow> threads_ok s \<and> vm_count s = n"
  by (induction rule: vm_reach.induct)
    (auto simp: threads_step vm_step_mono(1),
     auto simp: threads_ok_def workers_ok_def latch_ok_def main_ok_def threads_start_def)

section \<open>Continuations, spawned workers and events in flight\<close>

fun resumes :: "vcpu_phase \<Rightarrow> bool" where
  "resumes (Sending e k) = resumes k"
| "resumes (Queuing e k) = resumes k"
| "resumes (Arriving b) = (\<not> b)"
| "resumes Checking = True"
| "resumes Finished = True"
| "resumes _ = False"

fun wf_phase :: "vcpu_phase \<Rightarrow> bool" where
  "wf_phase (Sending e k) = resumes k"
| "wf_phase (Queuing e k) = resumes k"
| "wf_phase _ = True"

fun is_queuing :: "vcpu_phase \<Rightarrow> bool" where
  "is_queuing (Queuing e k) = True"
| "is_queuing _ = False"

fun spawns_left :: "main_phase \<Rightarrow> bool" where
  "spawns_left (Spawning i) = True"
| "spawns_left (MainSending e k) = spawns_left k"
| "spawns_left (MainQueuing e k) = spawns_left k"
| "spawns_left Aborting = True"
| "spawns_left _ = False"

definition live_ok :: "'d vm_threads \<Rightarrow> bool" where
  "live_ok s \<longleftrightarrow>
     (\<forall>i. wf_phase (vm_phase s i)) \<and>
     (stopping s \<longrightarrow> queued s \<noteq> [] \<or> outside s \<noteq> [] \<or> (\<exists>i. is_queuing (vm_phase s i)) \<or>
        (\<exists>e k. vm_main s = MainQueuing e k)) \<and>
     (\<forall>i. vm_main s = Spawning i \<longrightarrow> (\<forall>j<i. vm_phase s j \<noteq> Unspawned)) \<and>
     (\<not> spawns_left (vm_main s) \<longrightarrow> gate_aborted s \<or> (\<forall>j<vm_count s. vm_phase s j \<noteq> Unspawned))"

lemma resumes_wf: "resumes k \<Longrightarrow> wf_phase k \<and> k \<noteq> Unspawned"
  by (cases k) simp_all

lemma foldr_resumes [simp]: "resumes (foldr Sending evs k) = resumes k"
  by (induction evs) simp_all

lemma dispatched_wf [simp]:
  "wf_phase (after_dispatch r evs)" "wf_phase (ended q)" "after_dispatch r evs \<noteq> Unspawned" "ended q \<noteq> Unspawned"
  by (cases evs; auto simp: after_dispatch_def ended_def split: option.split sum.split)+

lemma live_vcpu:
  assumes st: "vcpu_step ops debug dev_events i s s'" and l: "live_ok s"
  shows "live_ok s'"
proof -
  have wf: "wf_phase (vm_phase s i)" using l by (simp add: live_ok_def)
  have p: "wf_phase (vm_phase s' i) \<and> vm_phase s' i \<noteq> Unspawned"
    using st by cases (use wf in \<open>auto dest: resumes_wf split: if_split_asm\<close>)
  have "\<And>j. j \<noteq> i \<Longrightarrow> vm_phase s' j = vm_phase s j"
    and same: "vm_main s' = vm_main s" "vm_count s' = vm_count s" "gate_aborted s' = gate_aborted s"
    using st by (cases; auto)+
  then have ph: "wf_phase (vm_phase s' j)" "vm_phase s j \<noteq> Unspawned \<Longrightarrow> vm_phase s' j \<noteq> Unspawned" for j
    using p l by (metis live_ok_def)+
  have "stopping s' \<longrightarrow> queued s' \<noteq> [] \<or> outside s' \<noteq> [] \<or> (\<exists>j. is_queuing (vm_phase s' j)) \<or>
      (\<exists>e k. vm_main s' = MainQueuing e k)"
  proof (cases "queued s' \<noteq> [] \<or> (\<exists>e k. vm_phase s' i = Queuing e k)")
    case True
    then show ?thesis by (metis is_queuing.simps(1))
  next
    case False
    have "stopping s' = stopping s \<and> queued s' = queued s \<and> outside s' = outside s \<and>
        \<not> is_queuing (vm_phase s i)"
      using st by cases (use False in simp_all)
    moreover from this have "is_queuing (vm_phase s j) \<Longrightarrow> is_queuing (vm_phase s' j)" for j
      using \<open>\<And>j. j \<noteq> i \<Longrightarrow> vm_phase s' j = vm_phase s j\<close> by (cases "j = i") auto
    ultimately show ?thesis using l same by (auto simp: live_ok_def)
  qed
  then show ?thesis using ph same l by (auto simp: live_ok_def)
qed

lemma live_main:
  assumes st: "main_step s s'" and l: "live_ok s" and m: "main_ok s"
  shows "live_ok s'"
proof -
  have wf: "wf_phase (vm_phase s' i)" for i
    using st l by (cases; simp add: live_ok_def)
  have grow: "stopping s \<longrightarrow> queued s \<noteq> [] \<or> outside s \<noteq> [] \<or> (\<exists>i. is_queuing (vm_phase s i)) \<or>
      (\<exists>e k. vm_main s = MainQueuing e k)"
    using l by (simp add: live_ok_def)
  have E: "stopping s' \<longrightarrow> queued s' \<noteq> [] \<or> outside s' \<noteq> [] \<or> (\<exists>i. is_queuing (vm_phase s' i)) \<or>
      (\<exists>e k. vm_main s' = MainQueuing e k)"
    using st
  proof cases
    case (spawn i)
    have "is_queuing (vm_phase s j) \<Longrightarrow> j \<noteq> i" for j
      using m spawn by (auto simp: main_ok_def)
    then have "(\<exists>j. is_queuing (vm_phase s j)) \<longrightarrow> (\<exists>j. is_queuing (((vm_phase s)(i := Configuring)) j))"
      by (metis fun_upd_other)
    then show ?thesis using spawn grow by simp
  qed (use grow in simp_all)
  have sp: "\<forall>j<i. vm_phase s' j \<noteq> Unspawned" if "vm_main s' = Spawning i" for i
    using st
  proof cases
    case (main_queue e k)
    then show ?thesis using that m by (auto simp: main_ok_def)
  qed (use that l in \<open>auto simp: live_ok_def less_Suc_eq\<close>)
  have all: "gate_aborted s' \<or> (\<forall>j<vm_count s'. vm_phase s' j \<noteq> Unspawned)" if "\<not> spawns_left (vm_main s')"
    using st
  proof cases
    case (main_queue e k)
    then show ?thesis using that l by (auto simp: live_ok_def)
  qed (use that l in \<open>auto simp: live_ok_def\<close>)
  show ?thesis using wf E sp all by (simp add: live_ok_def)
qed

lemma live_step:
  assumes "vm_step ops debug dev_events s s'" "live_ok s" "main_ok s"
  shows "live_ok s'"
  using assms(1)
proof cases
  case (vcpu i)
  then show ?thesis using live_vcpu assms by blast
next
  case main
  then show ?thesis using live_main assms by blast
qed (use assms(2) in \<open>auto simp: live_ok_def\<close>)

lemma live_reach: "vm_reach ops debug dev_events n s \<Longrightarrow> live_ok s"
proof (induction rule: vm_reach.induct)
  case (start c)
  then show ?case by (simp add: live_ok_def threads_start_def)
next
  case (step s s')
  then show ?case using threads_reach[OF step.hyps(1)] live_step by (auto simp: threads_ok_def)
qed

section \<open>Entering the guest\<close>

lemma arrived_has_vcpu:
  "wf_phase p \<Longrightarrow> has_arrived p \<Longrightarrow> \<not> only_stopping p \<Longrightarrow> has_vcpu p"
proof (induction p)
  case (Sending e k)
  have "resumes k \<Longrightarrow> has_arrived k \<Longrightarrow> serves k" by (induction k) simp_all
  then show ?case using Sending by simp
qed simp_all

lemma all_configured:
  assumes t: "threads_ok s" and l: "live_ok s" and c: "vm_phase s i = Checking" and ns: "\<not> stopping s"
  shows "\<forall>j < vm_count s. j \<in> vm_kicks s"
proof -
  let ?A = "{j. j < vm_count s \<and> has_arrived (vm_phase s j)}"
  have w: "workers_ok s" using t by (simp add: threads_ok_def)
  have "past_gate (vm_phase s i)" using c by simp
  then have "vm_count s \<le> card ?A" using w ns unfolding workers_ok_def by metis
  moreover have "?A \<subseteq> {..<vm_count s}" by auto
  ultimately have "?A = {..<vm_count s}" by (intro card_seteq) simp_all
  then have "has_arrived (vm_phase s j)" if "j < vm_count s" for j using that by blast
  moreover have "\<not> only_stopping (vm_phase s j)" "wf_phase (vm_phase s j)" for j
    using w ns l by (auto simp: workers_ok_def live_ok_def)
  ultimately show ?thesis using w arrived_has_vcpu by (auto simp: workers_ok_def)
qed

lemma new_entry:
  assumes "vm_step ops debug dev_events s s'" "in_guest (vm_phase s' i)" "live_ok s"
  shows "in_guest (vm_phase s i) \<or> vm_phase s i = Checking \<and> \<not> stopping s"
  using assms(1)
proof cases
  case (vcpu j)
  then show ?thesis
  proof (cases "j = i")
    case False
    then have "vm_phase s' i = vm_phase s i" using vcpu_other[OF vcpu] by simp
    then show ?thesis using assms(2) by simp
  next
    case True
    have k: "\<not> in_guest k" if "resumes k" for k using that by (cases k) simp_all
    have wf: "wf_phase (vm_phase s i)" using assms(3) by (simp add: live_ok_def)
    show ?thesis
      using vcpu[unfolded True] assms(2)
    proof cases
      case (queue e k)
      then show ?thesis using assms(2) wf k[of k] by simp
    qed (auto split: if_split_asm)
  qed
next
  case main
  then show ?thesis using assms(2) by cases (auto split: if_split_asm)
qed (use assms(2) in auto)

lemma guest_configured:
  "vm_reach ops debug dev_events n s \<Longrightarrow> in_guest (vm_phase s i) \<Longrightarrow> \<forall>j<n. j \<in> vm_kicks s"
proof (induction arbitrary: i rule: vm_reach.induct)
  case (start c)
  then show ?case by (simp add: threads_start_def)
next
  case (step s s')
  have r: "threads_ok s" "vm_count s = n" "live_ok s"
    using threads_reach[OF step.hyps(1)] live_reach[OF step.hyps(1)] by simp_all
  have "\<forall>j<n. j \<in> vm_kicks s"
    using new_entry[OF step.hyps(2) step.prems r(3)] step.IH all_configured[OF r(1,3)] r(2) by blast
  then show ?case using vm_step_mono(3)[OF step.hyps(2)] by blast
qed

text \<open>The entries into the guest a vCPU makes along a run of the threads.\<close>

inductive entries ::
    "'d bus_device_ops \<Rightarrow> (vcpu_exit \<Rightarrow> string) \<Rightarrow> ('d chipset \<Rightarrow> vcpu_exit \<Rightarrow> event list) \<Rightarrow> nat \<Rightarrow>
     'd vm_threads \<Rightarrow> nat \<Rightarrow> 'd vm_threads \<Rightarrow> bool"
  for ops debug dev_events i s
where
  none: "entries ops debug dev_events i s 0 s"
| more: "entries ops debug dev_events i s k t \<Longrightarrow> vm_step ops debug dev_events t t' \<Longrightarrow>
    entries ops debug dev_events i s
      (k + (if vm_phase t i = Entering \<and> vm_phase t' i = Running then 1 else 0)) t'"

lemma no_new_check:
  assumes "vm_step ops debug dev_events s s'" "live_ok s" "stopping s" "vm_phase s' i = Entering"
  shows "vm_phase s i = Entering"
proof -
  have "in_guest (vm_phase s i)"
    using new_entry[OF assms(1) _ assms(2), of i] assms(3,4) by simp
  with assms(1) show ?thesis
  proof cases
    case (vcpu j)
    have d: "after_dispatch a b \<noteq> Entering" "ended q \<noteq> Entering" for a b q
      by (metis dispatched(10,11) in_guest.simps(1))+
    show ?thesis
    proof (cases "j = i")
      case False
      then show ?thesis using vcpu_other[OF vcpu, of i] assms(4) by simp
    next
      case True
      show ?thesis
        by (rule vcpu_step.cases[OF vcpu[unfolded True]])
          (use assms(3,4) \<open>in_guest (vm_phase s i)\<close> d in \<open>auto split: if_split_asm\<close>)
    qed
  next
    case main
    then show ?thesis using assms(4) by cases (auto split: if_split_asm)
  qed (use assms(4) in auto)
qed

lemma entries_reach:
  "entries ops debug dev_events i s k t \<Longrightarrow> vm_reach ops debug dev_events n s \<Longrightarrow> vm_reach ops debug dev_events n t"
  by (induction rule: entries.induct) (auto intro: vm_reach.step)

lemma entries_bounded:
  assumes "entries ops debug dev_events i s k t" "vm_reach ops debug dev_events n s" "stopping s"
  shows "stopping t \<and> k + (if vm_phase t i = Entering then 1 else 0) \<le> (if vm_phase s i = Entering then 1 else 0)"
  using assms
proof (induction rule: entries.induct)
  case none
  then show ?case by simp
next
  case (more k t t')
  have "live_ok t" using live_reach[OF entries_reach[OF more.hyps(1) more.prems(1)]] .
  from no_new_check[OF more.hyps(2) this, of i] show ?case
    using more.IH[OF more.prems] vm_step_mono(2)[OF more.hyps(2)] by (auto split: if_splits)
qed

text \<open>C3. No vCPU runs the guest before all of them exist, and a VM that is ending lets at most one more
  entry per vCPU through. Along every interleaving of the vCPU threads, the main thread and outside
  senders: a vCPU in the guest, or past the check before its entry, implies that each of the n vCPUs was
  created and configured and has left its kick handle, so no failure to spawn or configure one is ever
  followed by guest code and the kicks of the end reach every vCPU; and from a state whose stop latch is
  set a vCPU enters the guest once at most, and only when it had already passed its check of the latch.
  In particular the thread that sent an event never enters again.\<close>
theorem guest_entry_safe:
  assumes "vm_reach ops debug dev_events n s" "entries ops debug dev_events i s k t"
  shows "(\<forall>j. in_guest (vm_phase t j) \<longrightarrow> (\<forall>m<n. m \<in> vm_kicks t)) \<and>
    (stopping s \<longrightarrow> k = 0 \<or> k = 1 \<and> vm_phase s i = Entering)"
  using guest_configured[OF entries_reach[OF assms(2,1)]] entries_bounded[OF assms(2,1)]
  by (auto split: if_splits)

section \<open>How the run ends\<close>

lemma joined_finished:
  assumes "vm_reach ops debug dev_events n s" "vm_main s = Joined r"
  shows "\<forall>i<n. vm_phase s i \<in> {Unspawned, Finished}"
  using assms
proof (induction arbitrary: r rule: vm_reach.induct)
  case (start c)
  then show ?case by (simp add: threads_start_def)
next
  case (step s s')
  note n = threads_reach[OF step.hyps(1)]
  from step.hyps(2) show ?case
  proof cases
    case (vcpu i)
    have "vm_main s = Joined r" using step.prems vcpu_same(1)[OF vcpu] by simp
    then have "\<forall>i<n. vm_phase s i \<in> {Unspawned, Finished}" by (rule step.IH)
    moreover have "vm_phase s i \<notin> {Unspawned, Finished}" by (rule vcpu_runs[OF vcpu])
    moreover have "i < n"
      using n calculation(2) unfolding threads_ok_def workers_ok_def by (metis insertI1 not_less)
    ultimately show ?thesis by blast
  next
    case main
    then show ?thesis
    proof cases
      case (main_queue e k)
      then show ?thesis using step.prems n by (auto simp: threads_ok_def main_ok_def)
    qed (use step.prems n in auto)
  qed (use step in auto)
qed

datatype vm_exit = ExitStopRequested | ExitGuestShutdown | ExitGuestReset

definition vm_ended :: "error_kind + event \<Rightarrow> vmm_error + vm_exit" where
  "vm_ended r =
     (case r of
        Inr StopRequested \<Rightarrow> Inr ExitStopRequested
      | Inr GuestShutdown \<Rightarrow> Inr ExitGuestShutdown
      | Inr GuestReset \<Rightarrow> Inr ExitGuestReset
      | Inr (VcpuFailed e) \<Rightarrow> Inl e
      | Inr (DeviceFailed e) \<Rightarrow> Inl e
      | Inl kind \<Rightarrow> Inl (EventLoop kind))"

definition run_result :: "error_kind + event \<Rightarrow> vmm_error + unit \<Rightarrow> vmm_error + vm_exit" where
  "run_result r shutdown =
     (case (vm_ended r, shutdown) of
        (out, Inr _) \<Rightarrow> out
      | (Inr exit, Inl e) \<Rightarrow> Inl e
      | (Inl out, Inl e) \<Rightarrow> Inl out)"

text \<open>C23. The first event decides how a VM ended. Whatever the interleaving, when the main thread has
  joined the vCPUs every one of them has stopped, the stop latch is set, and the result of the run is that
  of the oldest event ever queued: its exit, or its error even when the virtio workers then fail to shut
  down; later events change nothing.\<close>
theorem first_event_decides:
  assumes "vm_reach ops debug dev_events n s" "vm_main s = Joined (Inr e)"
  shows "(\<exists>es. queued s = e # es) \<and> stopping s \<and> (\<forall>i<n. vm_phase s i \<in> {Unspawned, Finished}) \<and>
    run_result (Inr e) shutdown =
      (case vm_ended (Inr (hd (queued s))) of
         Inl err \<Rightarrow> Inl err
       | Inr exit \<Rightarrow> (case shutdown of Inl err \<Rightarrow> Inl err | Inr _ \<Rightarrow> Inr exit))"
proof -
  have "main_ok s" "latch_ok s" using threads_reach[OF assms(1)] by (simp_all add: threads_ok_def)
  then have q: "\<exists>es. queued s = e # es" "stopping s" using assms(2) by (auto simp: main_ok_def latch_ok_def)
  then have "run_result (Inr e) shutdown =
      (case vm_ended (Inr (hd (queued s))) of
         Inl err \<Rightarrow> Inl err
       | Inr exit \<Rightarrow> (case shutdown of Inl err \<Rightarrow> Inl err | Inr _ \<Rightarrow> Inr exit))"
    by (auto simp: run_result_def split: sum.split)
  then show ?thesis using q joined_finished[OF assms] by simp
qed

section \<open>The run ends\<close>

text \<open>
  Steps without a new outside request, in which every kick succeeds; and among them the steps the VMM
  can always take: the guest is only relied on to leave when it has been kicked, and the poller only to
  find an event that is queued.
\<close>

inductive quiet_step for ops debug dev_events where
  q_vcpu: "vcpu_step ops debug dev_events i s s' \<Longrightarrow> quiet_step ops debug dev_events s s'"
| q_main: "main_step s s' \<Longrightarrow> (\<forall>r. vm_main s = Kicking r \<longrightarrow> kicked s' = vm_kicks s) \<Longrightarrow>
    quiet_step ops debug dev_events s s'"
| q_outside: "outside s = es @ e # es' \<Longrightarrow>
    quiet_step ops debug dev_events s (s\<lparr>outside := es @ es', queued := queued s @ [e]\<rparr>)"

definition relies_on_guest :: "'d vm_threads \<Rightarrow> 'd vm_threads \<Rightarrow> bool" where
  "relies_on_guest s s' \<longleftrightarrow>
     (\<exists>i. vm_phase s i = Running \<and> vm_phase s' i \<noteq> Running \<and> i \<notin> kicked s) \<or>
     (vm_main s = Awaiting \<and> (\<exists>k. vm_main s' = MainSending StopRequested k))"

fun phase_weight :: "nat \<Rightarrow> vcpu_phase \<Rightarrow> nat" where
  "phase_weight B (Sending e k) = 2 + phase_weight B k"
| "phase_weight B (Queuing e k) = 1 + phase_weight B k"
| "phase_weight B Finished = 0"
| "phase_weight B Completing = 3"
| "phase_weight B Checking = 4"
| "phase_weight B (Waiting b) = 5"
| "phase_weight B (Arriving b) = 6"
| "phase_weight B Configuring = 9"
| "phase_weight B Unspawned = 10"
| "phase_weight B (Dispatching x) = 2 * B + 5"
| "phase_weight B Running = 2 * B + 6"
| "phase_weight B Entering = 2 * B + 7"

fun main_weight :: "main_phase \<Rightarrow> nat" where
  "main_weight (MainSending e k) = 2 + main_weight k"
| "main_weight (MainQueuing e k) = 1 + main_weight k"
| "main_weight (Joined r) = 0"
| "main_weight (Joining r) = 1"
| "main_weight (Kicking r) = 2"
| "main_weight Awaiting = 5"
| "main_weight Aborting = 6"
| "main_weight (Spawning i) = 9"

definition weight :: "nat \<Rightarrow> 'd vm_threads \<Rightarrow> nat" where
  "weight B s = (\<Sum>i<vm_count s. phase_weight B (vm_phase s i)) + main_weight (vm_main s) + length (outside s)"

lemma weight_foldr: "phase_weight B (foldr Sending evs k) = 2 * length evs + phase_weight B k"
  by (induction evs) simp_all

lemma weight_dispatch:
  "length evs \<le> B \<Longrightarrow> phase_weight B (after_dispatch r evs) < 2 * B + 5"
  by (auto simp: after_dispatch_def weight_foldr ended_def split: option.split sum.split)

lemma weight_ended: "phase_weight B (ended q) = 2"
  by (simp add: ended_def split: sum.split)

lemma sum_upd_less:
  fixes f g :: "nat \<Rightarrow> nat"
  assumes "i < n" "f i < g i" "\<And>j. j \<noteq> i \<Longrightarrow> f j = g j"
  shows "(\<Sum>j<n. f j) < (\<Sum>j<n. g j)"
proof (rule sum_strict_mono_ex1)
  show "\<forall>j\<in>{..<n}. f j \<le> g j" using assms by (metis le_less)
  show "\<exists>j\<in>{..<n}. f j < g j" using assms by auto
qed simp

lemma vcpu_weight:
  assumes st: "vcpu_step ops debug dev_events i s s'" and t: "threads_ok s" and stop: "stopping s"
    and B: "\<And>c x. length (dev_events c x) \<le> B"
  shows "weight B s' < weight B s"
proof -
  have i: "i < vm_count s"
    using vcpu_runs[OF st] t unfolding threads_ok_def workers_ok_def by (metis insertI1 not_less)
  have less: "phase_weight B (vm_phase s' i) < phase_weight B (vm_phase s i)"
    using st by cases (use stop B weight_dispatch in \<open>auto simp: weight_ended\<close>)
  note same = vcpu_same[OF st]
  have "(\<Sum>j<vm_count s. phase_weight B (vm_phase s' j)) < (\<Sum>j<vm_count s. phase_weight B (vm_phase s j))"
    using sum_upd_less[OF i, of "\<lambda>j. phase_weight B (vm_phase s' j)" "\<lambda>j. phase_weight B (vm_phase s j)"] less
      vcpu_other[OF st] by simp
  then show ?thesis using same by (simp add: weight_def)
qed

lemma main_weight_less:
  assumes st: "main_step s s'" and m: "main_ok s"
  shows "weight B s' < weight B s"
  using st
proof cases
  case (spawn i)
  then have "vm_phase s i = Unspawned" using m by (auto simp: main_ok_def)
  then show ?thesis
    using spawn sum_upd_less[of i "vm_count s" "\<lambda>j. phase_weight B (((vm_phase s)(i := Configuring)) j)"
        "\<lambda>j. phase_weight B (vm_phase s j)"]
    by (simp add: weight_def)
qed (simp_all add: weight_def)

lemma quiet_weight:
  assumes st: "quiet_step ops debug dev_events s s'" and t: "threads_ok s" and stop: "stopping s"
    and B: "\<And>c x. length (dev_events c x) \<le> B"
  shows "weight B s' < weight B s"
  using st
proof cases
  case (q_vcpu i)
  then show ?thesis using vcpu_weight t stop B by blast
next
  case q_main
  then show ?thesis using main_weight_less t by (auto simp: threads_ok_def)
next
  case (q_outside es e es')
  then show ?thesis by (simp add: weight_def)
qed

definition kicks_landed :: "'d vm_threads \<Rightarrow> bool" where
  "kicks_landed s \<longleftrightarrow> (\<exists>r. vm_main s = Joining r \<or> vm_main s = Joined r) \<longrightarrow>
     (\<forall>i. vm_phase s i = Entering \<or> vm_phase s i = Running \<longrightarrow> i \<in> kicked s)"

lemma quiet_vm_step: "quiet_step ops debug dev_events s s' \<Longrightarrow> vm_step ops debug dev_events s s'"
  by (erule quiet_step.cases) (auto intro: vm_step.intros)

lemma running_kick:
  assumes "threads_ok s" "vm_phase s i = Entering \<or> vm_phase s i = Running"
  shows "i \<in> vm_kicks s"
proof -
  have "has_vcpu (vm_phase s i)" using assms(2) by auto
  then show ?thesis using assms(1) by (simp only: threads_ok_def workers_ok_def)
qed

lemma kicks_landed_step:
  assumes st: "quiet_step ops debug dev_events s s'" and ok: "kicks_landed s" "threads_ok s" "live_ok s"
    and stop: "stopping s"
  shows "kicks_landed s'"
  using st
proof cases
  case (q_vcpu i)
  have "vm_phase s j = Entering \<or> vm_phase s j = Running"
    if r: "vm_phase s' j = Entering \<or> vm_phase s' j = Running" for j
  proof (cases "j = i")
    case False
    then show ?thesis using r vcpu_other[OF q_vcpu, of j] by simp
  next
    case True
    have wf: "wf_phase (vm_phase s i)" using ok(3) by (simp add: live_ok_def)
    have d: "after_dispatch a b \<noteq> p" "ended q \<noteq> p" if "in_guest p" for a b q p
      using that dispatched(10,11) by metis+
    show ?thesis
      by (rule vcpu_step.cases[OF q_vcpu]) (use stop wf d r True in \<open>auto split: if_split_asm\<close>)
  qed
  then show ?thesis using ok(1) unfolding kicks_landed_def vcpu_same(1,6)[OF q_vcpu] by blast
next
  case q_main
  have kicks: "vm_phase s i = Entering \<or> vm_phase s i = Running \<Longrightarrow> i \<in> vm_kicks s" for i
    by (rule running_kick[OF ok(2)])
  from q_main(1) show ?thesis
  proof cases
    case (kick r K)
    then show ?thesis using q_main(2) kicks by (simp add: kicks_landed_def)
  next
    case (join r)
    then show ?thesis using ok(1) by (simp add: kicks_landed_def)
  next
    case (main_queue e k)
    then show ?thesis using ok(2) by (auto simp: kicks_landed_def threads_ok_def main_ok_def)
  qed (simp_all add: kicks_landed_def)
next
  case q_outside
  then show ?thesis using ok(1) by (simp add: kicks_landed_def)
qed

text \<open>A worker can go on by itself unless it is done, holds at the gate, or is in the guest unkicked.\<close>

lemma worker_progress:
  assumes "vm_phase s i \<notin> {Unspawned, Finished}" "\<And>b. vm_phase s i = Waiting b \<Longrightarrow> gate_open s"
    "vm_phase s i = Running \<Longrightarrow> i \<in> kicked s"
  shows "\<exists>s'. quiet_step ops debug dev_events s s' \<and> \<not> relies_on_guest s s'"
proof -
  have "\<exists>s'. vcpu_step ops debug dev_events i s s'"
  proof (cases "vm_phase s i")
    case (Dispatching x)
    then show ?thesis using vcpu_step.dispatch_panics by blast
  next
    case (Waiting b)
    then show ?thesis using assms(2) vcpu_step.pass by blast
  next
    case Checking
    then show ?thesis using vcpu_step.stop vcpu_step.enter by blast
  qed (use assms(1) in \<open>blast intro: vcpu_step.intros\<close>)+
  then obtain s' where st: "vcpu_step ops debug dev_events i s s'" by blast
  have "j \<in> kicked s" if "vm_phase s j = Running" "vm_phase s' j \<noteq> Running" for j
    using that vcpu_other[OF st, of j] assms(3) by (cases "j = i") auto
  then have "\<not> relies_on_guest s s'"
    using vcpu_same(1)[OF st] by (auto simp: relies_on_guest_def)
  then show ?thesis using q_vcpu[OF st] by blast
qed

lemma main_progress:
  assumes "main_step s s'" "\<And>r. vm_main s = Kicking r \<Longrightarrow> kicked s' = vm_kicks s"
    "\<And>k. vm_main s' \<noteq> MainSending StopRequested k" "\<And>i. vm_phase s i = Running \<Longrightarrow> vm_phase s' i = Running"
  shows "\<exists>s'. quiet_step ops debug dev_events s s' \<and> \<not> relies_on_guest s s'"
  using q_main[OF assms(1)] assms(2-4) unfolding relies_on_guest_def by blast

lemma queue_ready:
  assumes "live_ok s" "stopping s" "vm_main s = Awaiting" "queued s = []"
  shows "outside s \<noteq> [] \<or> (\<exists>i. is_queuing (vm_phase s i))"
  using assms by (simp add: live_ok_def)

lemma gate_opens:
  assumes "threads_ok s" "live_ok s" "vm_main s = Joining r"
    "\<And>i. vm_phase s i = Unspawned \<or> vm_phase s i = Finished \<or> (\<exists>b. vm_phase s i = Waiting b)"
  shows "gate_open s"
proof (cases "gate_aborted s")
  case True
  then show ?thesis by (simp add: gate_open_def)
next
  case False
  then have u: "\<forall>j<vm_count s. vm_phase s j \<noteq> Unspawned" using assms(2,3) by (auto simp: live_ok_def)
  have "has_arrived (vm_phase s j)" if "j < vm_count s" for j
    using assms(4)[of j] u that by auto
  then have "{j. j < vm_count s \<and> has_arrived (vm_phase s j)} = {..<vm_count s}" by auto
  then have "gate_arrived s = vm_count s" using assms(1) by (simp add: threads_ok_def workers_ok_def)
  then show ?thesis by (simp add: gate_open_def)
qed

lemma joining_progress:
  assumes t: "threads_ok s" and l: "live_ok s" and k: "kicks_landed s" and m: "vm_main s = Joining r"
  shows "\<exists>s'. quiet_step ops debug dev_events s s' \<and> \<not> relies_on_guest s s'"
proof (cases "\<forall>i<vm_count s. vm_phase s i \<in> {Unspawned, Finished}")
  case True
  then show ?thesis by (intro main_progress[OF join[OF m]]) (auto simp: m)
next
  case False
  then obtain i where i: "vm_phase s i \<notin> {Unspawned, Finished}" by blast
  show ?thesis
  proof (cases "\<exists>i. vm_phase s i \<notin> {Unspawned, Finished} \<and> (\<forall>b. vm_phase s i \<noteq> Waiting b)")
    case True
    then obtain j where "vm_phase s j \<notin> {Unspawned, Finished}" "\<forall>b. vm_phase s j \<noteq> Waiting b" by blast
    then show ?thesis using k m by (intro worker_progress[of s j]) (auto simp: kicks_landed_def)
  next
    case stuck: False
    then have "gate_open s" by (intro gate_opens[OF t l m]) blast
    moreover obtain b where "vm_phase s i = Waiting b" using stuck i by blast
    ultimately show ?thesis by (intro worker_progress[of s i]) auto
  qed
qed

lemma progress:
  assumes t: "threads_ok s" and l: "live_ok s" and k: "kicks_landed s" and stop: "stopping s"
    and nj: "\<nexists>r. vm_main s = Joined r"
  shows "\<exists>s'. quiet_step ops debug dev_events s s' \<and> \<not> relies_on_guest s s'"
proof (cases "vm_main s")
  case (Spawning i)
  have "i < vm_count s \<or> i = vm_count s" and u: "vm_phase s i = Unspawned"
    using t Spawning by (auto simp: threads_ok_def main_ok_def)
  then show ?thesis
  proof (elim disjE)
    assume "i < vm_count s"
    then show ?thesis by (intro main_progress[OF spawn[OF Spawning]]) (auto simp: Spawning u)
  next
    assume "i = vm_count s"
    then show ?thesis by (intro main_progress[OF spawned[OF Spawning]]) (auto simp: Spawning)
  qed
next
  case (MainSending e k)
  then show ?thesis by (intro main_progress[OF main_latch[OF MainSending]]) auto
next
  case (MainQueuing e k)
  then have "k \<noteq> MainSending StopRequested k'" for k'
    using t by (auto simp: threads_ok_def main_ok_def)
  then show ?thesis by (intro main_progress[OF main_queue[OF MainQueuing]]) (auto simp: MainQueuing)
next
  case Aborting
  then show ?thesis by (intro main_progress[OF abort[OF Aborting]]) auto
next
  case Awaiting
  show ?thesis
  proof (cases "queued s = []")
    case False
    then have "received s < length (queued s)" using t Awaiting by (auto simp: threads_ok_def main_ok_def)
    then show ?thesis by (intro main_progress[OF await[OF Awaiting]]) (auto simp: Awaiting)
  next
    case True
    from queue_ready[OF l stop Awaiting True] show ?thesis
    proof
      assume "outside s \<noteq> []"
      then obtain e es where "outside s = [] @ e # es" by (cases "outside s") auto
      from q_outside[OF this] show ?thesis
        using Awaiting by (intro exI conjI) (auto simp: relies_on_guest_def)
    next
      assume "\<exists>i. is_queuing (vm_phase s i)"
      then obtain i e k where "vm_phase s i = Queuing e k" by (auto elim: is_queuing.elims)
      then show ?thesis by (intro worker_progress[of s i]) auto
    qed
  qed
next
  case (Kicking r)
  then show ?thesis by (intro main_progress[OF kick[OF Kicking order_refl]]) auto
next
  case (Joining r)
  then show ?thesis by (rule joining_progress[OF t l k])
next
  case (Joined r)
  then show ?thesis using nj by blast
qed

definition ending :: "'d vm_threads \<Rightarrow> bool" where
  "ending s \<longleftrightarrow> threads_ok s \<and> live_ok s \<and> kicks_landed s \<and> stopping s"

lemma ending_step:
  assumes "quiet_step ops debug dev_events s s'" "ending s"
  shows "ending s'"
proof -
  note v = quiet_vm_step[OF assms(1)]
  have ok: "threads_ok s" "live_ok s" "kicks_landed s" "stopping s" "main_ok s"
    using assms(2) by (simp_all add: ending_def threads_ok_def)
  show ?thesis
    using threads_step[OF v ok(1)] live_step[OF v ok(2,5)] kicks_landed_step[OF assms(1) ok(3,1,2,4)]
      vm_step_mono(2)[OF v ok(4)] by (simp add: ending_def)
qed

lemma ending_steps:
  assumes B: "\<And>c x. length (dev_events c x) \<le> B"
  shows "(quiet_step ops debug dev_events ^^ k) s s' \<Longrightarrow> ending s \<Longrightarrow> ending s' \<and> weight B s' + k \<le> weight B s"
proof (induction k arbitrary: s')
  case 0
  then show ?case by simp
next
  case (Suc k)
  then obtain t where t: "(quiet_step ops debug dev_events ^^ k) s t" "quiet_step ops debug dev_events t s'" by auto
  have e: "ending t" "weight B t + k \<le> weight B s" using Suc.IH[OF t(1)] Suc.prems(2) by simp_all
  have "weight B s' < weight B t"
    using quiet_weight[OF t(2)] e(1) B by (simp add: ending_def)
  then show ?case using ending_step[OF t(2) e(1)] e(2) by simp
qed

lemma ending_joins:
  assumes B: "\<And>c x. length (dev_events c x) \<le> B"
  shows "ending s \<Longrightarrow> \<exists>s' r. (quiet_step ops debug dev_events)\<^sup>*\<^sup>* s s' \<and> vm_main s' = Joined r"
proof (induction "weight B s" arbitrary: s rule: less_induct)
  case less
  show ?case
  proof (cases "\<exists>r. vm_main s = Joined r")
    case True
    then show ?thesis by blast
  next
    case False
    then obtain t where t: "quiet_step ops debug dev_events s t"
      using progress[of s ops debug dev_events] less.prems by (auto simp: ending_def)
    have "weight B t < weight B s" using quiet_weight[OF t] B less.prems by (simp add: ending_def)
    from less.hyps[OF this ending_step[OF t less.prems]] show ?thesis
      using t by (meson converse_rtranclp_into_rtranclp)
  qed
qed

text \<open>C4. A VM that is ending ends. From any reachable state whose stop latch is set, where the vCPUs
  found in the guest or entering it at the join have been kicked, and when a dispatch makes the devices send at most B
  events: without new outside requests the threads take at most \<open>weight B s\<close> more steps; until the main
  thread has joined the vCPUs some thread can always take one, relying on neither an unkicked guest nor a
  failing poller; so the join is reached.\<close>
theorem run_returns:
  assumes reach: "vm_reach ops debug dev_events n s" and stop: "stopping s" and kicks: "kicks_landed s"
    and B: "\<And>c x. length (dev_events c x) \<le> B"
  shows "(\<forall>k s'. (quiet_step ops debug dev_events ^^ k) s s' \<longrightarrow> k \<le> weight B s) \<and>
    (\<forall>s'. (quiet_step ops debug dev_events)\<^sup>*\<^sup>* s s' \<longrightarrow> (\<exists>r. vm_main s' = Joined r) \<or>
       (\<exists>s''. quiet_step ops debug dev_events s' s'' \<and> \<not> relies_on_guest s' s'')) \<and>
    (\<exists>s' r. (quiet_step ops debug dev_events)\<^sup>*\<^sup>* s s' \<and> vm_main s' = Joined r)"
proof -
  have e: "ending s"
    using threads_reach[OF reach] live_reach[OF reach] stop kicks by (simp add: ending_def)
  have later: "ending s'" if "(quiet_step ops debug dev_events)\<^sup>*\<^sup>* s s'" for s'
    using that by (induction rule: rtranclp_induct) (auto simp: e intro: ending_step)
  have "k \<le> weight B s" if "(quiet_step ops debug dev_events ^^ k) s s'" for k s'
    using ending_steps[of dev_events B, OF B that e] by simp
  moreover have "(\<exists>r. vm_main s' = Joined r) \<or>
      (\<exists>s''. quiet_step ops debug dev_events s' s'' \<and> \<not> relies_on_guest s' s'')"
    if "(quiet_step ops debug dev_events)\<^sup>*\<^sup>* s s'" for s'
    using later[OF that] progress[of s' ops debug dev_events] unfolding ending_def by blast
  moreover have "\<exists>s' r. (quiet_step ops debug dev_events)\<^sup>*\<^sup>* s s' \<and> vm_main s' = Joined r"
    by (rule ending_joins[of dev_events B, OF B e])
  ultimately show ?thesis by blast
qed

section \<open>A one-vCPU machine\<close>

text \<open>The guest resets: its vCPU is spawned and configured, passes the gate, runs, and sends the event.\<close>

definition no_chipset :: "unit chipset" where
  "no_chipset = \<lparr>c_buses = Buses_default, c_devices = []\<rparr>"

definition no_ops :: "unit bus_device_ops" where
  "no_ops = \<lparr>dev_read = \<lambda>d off data. (d, data), dev_write = \<lambda>d off data. d\<rparr>"

abbreviation solo_reach :: "unit vm_threads \<Rightarrow> bool" where
  "solo_reach \<equiv> vm_reach no_ops (\<lambda>_. []) (\<lambda>_ _. []) 1"

definition solo_spawned :: "unit vm_threads" where
  "solo_spawned = (threads_start 1 no_chipset)\<lparr>vm_phase := (\<lambda>_. Unspawned)(0 := Configuring), vm_main := Awaiting\<rparr>"

definition solo_checking :: "unit vm_threads" where
  "solo_checking = solo_spawned\<lparr>vm_phase := (\<lambda>_. Unspawned)(0 := Checking), gate_arrived := 1, vm_kicks := {0}\<rparr>"

definition solo_latched :: "unit vm_threads" where
  "solo_latched = solo_checking\<lparr>vm_phase := (\<lambda>_. Unspawned)(0 := Queuing GuestReset Finished), stopping := True\<rparr>"

definition solo_joined :: "unit vm_threads" where
  "solo_joined = solo_latched\<lparr>vm_phase := (\<lambda>_. Unspawned)(0 := Finished), queued := [GuestReset], received := 1,
     vm_main := Joined (Inr GuestReset), kicked := {0}\<rparr>"

lemmas solo_defs = set_phase_def threads_start_def solo_spawned_def solo_checking_def solo_latched_def solo_joined_def

text \<open>One more step of a worker or of the main thread, to a state given by its fields.\<close>

lemma reach_vcpu:
  "vm_reach ops debug dev_events n s \<Longrightarrow> vcpu_step ops debug dev_events i s t \<Longrightarrow> t = s' \<Longrightarrow>
   vm_reach ops debug dev_events n s'"
  by (auto intro: vm_reach.step vm_step.vcpu)

lemma reach_main:
  "vm_reach ops debug dev_events n s \<Longrightarrow> main_step s t \<Longrightarrow> t = s' \<Longrightarrow> vm_reach ops debug dev_events n s'"
  by (auto intro: vm_reach.step vm_step.main)

lemma solo_spawned_reach: "solo_reach solo_spawned"
proof -
  let ?s = "(threads_start 1 no_chipset)\<lparr>vm_phase := (\<lambda>_. Unspawned)(0 := Configuring), vm_main := Spawning 1\<rparr>"
  have "solo_reach ?s"
    by (rule reach_main[OF vm_reach.start[of _ _ _ _ no_chipset] spawn[of _ 0]]) (simp_all add: solo_defs)
  then show ?thesis
    by (rule reach_main[OF _ spawned[of _ 1]]) (simp_all add: solo_defs)
qed

lemma solo_checking_reach: "solo_reach solo_checking"
proof -
  let ?s = "\<lambda>p g. solo_spawned\<lparr>vm_phase := (\<lambda>_. Unspawned)(0 := p), gate_arrived := g, vm_kicks := {0}\<rparr>"
  have "solo_reach (?s (Arriving True) 0)"
    by (rule reach_vcpu[OF solo_spawned_reach configured[of _ 0]]) (simp_all add: solo_defs)
  then have "solo_reach (?s (Waiting True) 1)"
    by (rule reach_vcpu[OF _ arrive[of _ 0 True]]) (simp_all add: solo_defs)
  then show ?thesis
    by (rule reach_vcpu[OF _ pass[of _ 0 True]]) (simp_all add: solo_defs gate_open_def)
qed

lemma solo_latched_reach: "solo_reach solo_latched"
proof -
  let ?s = "\<lambda>p. solo_checking\<lparr>vm_phase := (\<lambda>_. Unspawned)(0 := p)\<rparr>"
  have "solo_reach (?s Entering)"
    by (rule reach_vcpu[OF solo_checking_reach enter[of _ 0]]) (simp_all add: solo_defs)
  then have "solo_reach (?s Running)"
    by (rule reach_vcpu[OF _ guest[of _ 0]]) (simp_all add: solo_defs)
  then have "solo_reach (?s (Dispatching ExitReset))"
    by (rule reach_vcpu[OF _ exits[of _ 0 _ _ _ ExitReset]]) (simp_all add: solo_defs)
  then have "solo_reach (?s (Sending GuestReset Finished))"
    by (rule reach_vcpu[OF _ dispatch[of _ 0 ExitReset no_ops no_chipset "Inr ExitReset"]])
      (simp_all add: solo_defs Chipset_dispatch_def no_chipset_def run_guest_exit_def after_dispatch_def ended_def)
  then show ?thesis
    by (rule reach_vcpu[OF _ latch[of _ 0 GuestReset Finished]]) (simp_all add: solo_defs)
qed

lemma solo_joined_reach: "solo_reach solo_joined"
proof -
  let ?s = "\<lambda>m r k. solo_latched\<lparr>vm_phase := (\<lambda>_. Unspawned)(0 := Finished), queued := [GuestReset], received := r,
     vm_main := m, kicked := k\<rparr>"
  have "solo_reach (?s Awaiting 0 {})"
    by (rule reach_vcpu[OF solo_latched_reach queue[of _ 0 GuestReset Finished]]) (simp_all add: solo_defs)
  then have "solo_reach (?s (Kicking (Inr GuestReset)) 1 {})"
    by (rule reach_main[OF _ await]) (simp_all add: solo_defs)
  then have "solo_reach (?s (Joining (Inr GuestReset)) 1 {0})"
    by (rule reach_main[OF _ kick[of _ "Inr GuestReset" "{0}"]]) (simp_all add: solo_defs)
  then show ?thesis
    by (rule reach_main[OF _ join[of _ "Inr GuestReset"]]) (simp_all add: solo_defs)
qed

lemma guest_entry_safe_witness:
  "\<exists>s t. stopping s \<and> entries no_ops (\<lambda>_. []) (\<lambda>_ _. []) 0 s 1 t \<and> vm_phase s 0 = Entering \<and> 0 \<in> vm_kicks t"
proof -
  let ?e = "set_phase 0 Entering solo_checking"
  let ?s = "?e\<lparr>stopping := True, outside := outside ?e @ [StopRequested]\<rparr>"
  let ?t = "set_phase 0 Running ?s"
  have "solo_reach ?e"
    by (rule vm_reach.step[OF solo_checking_reach vm_step.vcpu[OF enter]]) (simp_all add: solo_defs)
  then have s: "solo_reach ?s" by (rule vm_reach.step[OF _ outside_latch])
  have "vm_step no_ops (\<lambda>_. []) (\<lambda>_ _. []) ?s ?t"
    by (rule vm_step.vcpu[OF guest]) (simp add: solo_defs)
  from more[OF none this, of 0] have e: "entries no_ops (\<lambda>_. []) (\<lambda>_ _. []) 0 ?s 1 ?t"
    by (simp add: solo_defs)
  show ?thesis
    using guest_entry_safe[OF s e] e by (intro exI[of _ ?s] exI[of _ ?t]) (auto simp: solo_defs)
qed

lemma first_event_decides_witness:
  "stopping solo_joined \<and> run_result (Inr GuestReset) (Inl (VirtioWorker TimedOut)) = Inl (VirtioWorker TimedOut)"
  using first_event_decides[OF solo_joined_reach, of GuestReset "Inl (VirtioWorker TimedOut)"]
  by (simp add: solo_defs vm_ended_def)

lemma run_returns_witness:
  "weight 0 solo_latched = 6 \<and>
   (\<exists>s' r. (quiet_step no_ops (\<lambda>_. []) (\<lambda>_ _. []))\<^sup>*\<^sup>* solo_latched s' \<and> vm_main s' = Joined r)"
  using run_returns[OF solo_latched_reach, of 0]
  by (simp add: solo_defs kicks_landed_def weight_def)

end
