(* ===== verification/Machine.thy ===== *)
theory Machine
  imports Mmio Vmm_Error "HOL-Library.Char_ord"
begin

text \<open>
  Machine configuration and guest RAM: \<open>src/src/vmm/src/config.rs\<close> and
  \<open>src/src/vmm/src/memory.rs\<close> on x86_64 Linux. A command line is the list of its bytes; a path is a
  string. Host memory mappings (crate \<open>vm_memory\<close>) are the operations of the record \<open>region_ops\<close>, the
  hypervisor's memory calls those of \<open>vm_memory_ops\<close>. A \<open>usize\<close> is a natural number, and every
  checked operation on it tests the 64-bit bound.
\<close>

section \<open>Configuration\<close>

definition MAX_VCPUS :: u8 where "MAX_VCPUS = 64"
definition MAX_DISKS :: nat where "MAX_DISKS = 8"
definition MAX_MEMORY_MIB :: u32 where "MAX_MEMORY_MIB = 3072"

datatype disk_format = Raw | Qcow2

record disk_config =
  disk_path :: string
  disk_format :: disk_format
  disk_read_only :: bool

record vm_config =
  vcpu_count :: u8
  memory_mib :: u32
  kernel :: string
  cmdline :: string
  initramfs :: "string option"
  disks :: "disk_config list"

definition VmConfig_validate :: "vm_config \<Rightarrow> vmm_error + unit" where
  "VmConfig_validate c =
     (if \<not> (1 \<le> vcpu_count c \<and> vcpu_count c \<le> MAX_VCPUS) then Inl (InvalidVcpuCount (vcpu_count c))
      else if \<not> (1 \<le> memory_mib c \<and> memory_mib c \<le> MAX_MEMORY_MIB)
      then Inl (InvalidMemorySize (memory_mib c))
      else if length (disks c) > MAX_DISKS then Inl (InvalidDiskCount (length (disks c)))
      else if length (cmdline c) \<ge> MAX_CMDLINE_BYTES
      then Inl (InvalidCommandLine ''2048 bytes or longer'')
      else if \<not> list_all (\<lambda>b. CHR '' '' \<le> b \<and> b \<le> CHR ''~'') (cmdline c)
      then Inl (InvalidCommandLine ''not printable ASCII'')
      else Inr ())"

section \<open>The layout of guest RAM\<close>

definition MIB :: u64 where "MIB = push_bit 20 1"
definition RAM_START :: u64 where "RAM_START = 0"
definition MMIO_HOLE_START :: u64 where "MMIO_HOLE_START = 0xC0000000"

definition ram_ranges :: "u32 \<Rightarrow> (u64 \<times> nat) list" where
  "ram_ranges mib = [(RAM_START, unat (ucast mib * MIB))]"

lemma ram_size:
  "unat (ucast mib * MIB) = unat mib * 2 ^ 20" for mib :: u32
proof -
  have "unat (ucast mib :: u64) = unat mib" by (rule unat_ucast_up) simp
  moreover have "unat MIB = 2 ^ 20" by (simp add: MIB_def)
  moreover have "unat mib < 2 ^ 32" using unsigned_less[of mib] by simp
  ultimately show ?thesis by (simp add: unat_mult_fits)
qed

lemma validate_Inr:
  assumes "VmConfig_validate c = Inr ()"
  shows "1 \<le> vcpu_count c \<and> vcpu_count c \<le> MAX_VCPUS \<and> 1 \<le> memory_mib c \<and>
    memory_mib c \<le> MAX_MEMORY_MIB \<and> length (disks c) \<le> MAX_DISKS \<and>
    length (cmdline c) < MAX_CMDLINE_BYTES"
proof -
  have one: "1 \<le> w \<longleftrightarrow> w \<noteq> 0" for w :: "'a::len word"
    by (simp add: word_le_nat_alt unat_gt_0 Suc_le_eq)
  show ?thesis
    using assms unfolding one by (auto simp: VmConfig_validate_def not_le not_less split: if_split_asm)
qed

text \<open>All RAM of a valid configuration lies below the MMIO hole.\<close>

lemma ram_below_hole:
  assumes "VmConfig_validate c = Inr ()" "(start, sz) \<in> set (ram_ranges (memory_mib c))"
  shows "start = 0 \<and> 0 < sz \<and> unat start + sz \<le> unat MMIO_HOLE_START"
proof -
  have "1 \<le> unat (memory_mib c)" "unat (memory_mib c) \<le> 3072"
    using validate_Inr[OF assms(1)] by (simp_all add: word_le_nat_alt MAX_MEMORY_MIB_def)
  then show ?thesis
    using assms(2) by (simp add: ram_ranges_def ram_size RAM_START_def MMIO_HOLE_START_def)
qed

section \<open>Ranges to reclaim\<close>

datatype reclaim_policy = Immediate | Lazy

record 'r region_ops =
  ro_to_region_addr :: "u64 \<Rightarrow> ('r \<times> u64) option"
  ro_slice_at :: "u64 \<Rightarrow> nat \<Rightarrow> nat option"
  ro_owned :: "'r \<Rightarrow> bool"
  ro_file_offset :: "'r \<Rightarrow> u64 option"
  ro_flags :: "'r \<Rightarrow> u32"
  ro_is_hugetlbfs :: "'r \<Rightarrow> bool option"
  ro_get_slice :: "'r \<Rightarrow> u64 \<Rightarrow> nat \<Rightarrow> nat option"

definition MAP_SHARED :: u32 where "MAP_SHARED = 0x01"
definition MAP_PRIVATE :: u32 where "MAP_PRIVATE = 0x02"
definition MAP_ANONYMOUS :: u32 where "MAP_ANONYMOUS = 0x20"
definition MAP_HUGETLB :: u32 where "MAP_HUGETLB = 0x40000"

text \<open>
  The layout of a VM's memory never changes, so these operations do not depend on its contents.
  The flags are Linux's. \<open>ro_slice_at\<close> is \<open>get_slice\<close> of the whole memory and \<open>ro_get_slice\<close> that of one
  mapping; both give the host address of the slice. A range borrows its slice of host memory, here the host address the slice starts at.\<close>

record reclaim_range =
  rr_slice :: nat
  rr_offset :: nat
  rr_len :: nat
  rr_host_start :: nat

definition usize_checked_add :: "nat \<Rightarrow> nat \<Rightarrow> nat option" where
  "usize_checked_add a b = (if a + b < 2 ^ 64 then Some (a + b) else None)"

definition interior_pages :: "nat \<Rightarrow> nat \<Rightarrow> nat \<Rightarrow> nat \<times> nat" where
  "interior_pages start len page_size =
     (let offset = (page_size - start mod page_size) mod page_size;
          remaining = len - offset
      in (min offset len, remaining div page_size * page_size))"

definition backing_ok :: "'r region_ops \<Rightarrow> 'r \<Rightarrow> bool" where
  "backing_ok ro mapping \<longleftrightarrow>
     \<not> (\<not> ro_owned ro mapping
        \<or> ro_file_offset ro mapping \<noteq> None
        \<or> ro_flags ro mapping AND MAP_ANONYMOUS = 0
        \<or> ro_flags ro mapping AND MAP_PRIVATE = 0
        \<or> ro_flags ro mapping AND MAP_SHARED \<noteq> 0
        \<or> ro_is_hugetlbfs ro mapping = Some True)
     \<and> ro_flags ro mapping AND MAP_HUGETLB = 0"

definition ReclaimRange_new ::
    "'r region_ops \<Rightarrow> u64 \<Rightarrow> nat \<Rightarrow> nat \<Rightarrow> error_kind + reclaim_range" where
  "ReclaimRange_new ro address len page_size =
     (if len = 0 \<or> page_size = 0 \<or> checked_add address (of_nat len) = None then Inl InvalidInput
      else case ro_to_region_addr ro address of
        None \<Rightarrow> Inl InvalidInput
      | Some (mapping, region_address) \<Rightarrow>
          if \<not> backing_ok ro mapping then Inl InvalidInput
          else case ro_get_slice ro mapping region_address len of
            None \<Rightarrow> Inl InvalidInput
          | Some start \<Rightarrow>
              (case usize_checked_add start len of
                 None \<Rightarrow> Inl InvalidInput
               | Some _ \<Rightarrow>
                   (let (offset, aligned_len) = interior_pages start len page_size in
                    case usize_checked_add start offset of
                      None \<Rightarrow> Inl InvalidInput
                    | Some host_start \<Rightarrow>
                        (case usize_checked_add host_start aligned_len of
                           None \<Rightarrow> Inl InvalidInput
                         | Some _ \<Rightarrow> Inr \<lparr>rr_slice = start, rr_offset = offset, rr_len = aligned_len,
                             rr_host_start = host_start\<rparr>))))"

text \<open>
  The interior of a range: whole pages, inside it, and every whole page of it.
\<close>

lemma interior_pages_exact:
  assumes "0 < page" "interior_pages start len page = (offset, n)"
  shows "offset + n \<le> len" "n mod page = 0" "0 < n \<Longrightarrow> (start + offset) mod page = 0"
    "k mod page = 0 \<Longrightarrow> start \<le> k \<Longrightarrow> k + page \<le> start + len \<Longrightarrow>
       start + offset \<le> k \<and> k + page \<le> start + offset + n"
proof -
  define off where "off = (page - start mod page) mod page"
  have o: "offset = min off len" and n: "n = (len - off) div page * page"
    using assms(2) by (auto simp: interior_pages_def off_def Let_def)
  have al: "(start + off) mod page = 0"
  proof (cases "start mod page = 0")
    case True
    then show ?thesis by (simp add: off_def)
  next
    case False
    then have "off = page - start mod page"
      using assms(1) by (simp add: off_def)
    moreover have "start mod page < page" using assms(1) by simp
    moreover have "start div page * page + start mod page = start" by (rule div_mult_mod_eq)
    ultimately have "start + off = start div page * page + page" by linarith
    then have "start + off = (start div page + 1) * page" by simp
    then show ?thesis by simp
  qed
  have le: "n \<le> len - off" using n by simp
  then show "offset + n \<le> len" using o by (auto simp: min_def)
  show "n mod page = 0" using n by simp
  have off_le: "off \<le> len" if "0 < n" using that le by simp
  then show "(start + offset) mod page = 0" if "0 < n"
    using that o al by (simp add: min_def)
  show "start + offset \<le> k \<and> k + page \<le> start + offset + n"
    if k: "k mod page = 0" "start \<le> k" "k + page \<le> start + len"
  proof -
    obtain a where a: "k = a * page" using k(1) by (metis mod_0_imp_dvd dvd_def mult.commute)
    obtain b where b: "start + off = b * page" using al by (metis mod_0_imp_dvd dvd_def mult.commute)
    have "off < page" using assms(1) by (simp add: off_def)
    then have "b * page < start + page" using b by simp
    also have "\<dots> \<le> (a + 1) * page" using k(2) a by simp
    finally have "b < a + 1" using assms(1) by (metis mult_less_cancel2)
    then have ba: "b \<le> a" by simp
    then have ge: "start + off \<le> k" using a b by simp
    then have "off \<le> len" using k(3) by simp
    have "k + page - (start + off) = (a + 1 - b) * page"
      using a b ba by (simp add: algebra_simps diff_mult_distrib)
    moreover have "k + page - (start + off) \<le> len - off" using k(3) ge by simp
    ultimately have "(a + 1 - b) * page \<le> len - off" by simp
    then have "a + 1 - b \<le> (len - off) div page"
      using assms(1) by (metis div_le_mono nonzero_mult_div_cancel_right less_numeral_extra(3))
    then have "(a + 1 - b) * page \<le> n" unfolding n by (rule mult_le_mono1)
    then show ?thesis using ge o \<open>off \<le> len\<close> a b ba
      by (simp add: min_def algebra_simps diff_mult_distrib)
  qed
qed

text \<open>\<open>madvise\<close> on the host state \<open>'h\<close>: address, length and advice.\<close>

datatype advice = MADV_DONTNEED | MADV_FREE

type_synonym 'h madvise = "nat \<Rightarrow> nat \<Rightarrow> advice \<Rightarrow> 'h \<Rightarrow> 'h \<times> (error_kind + unit)"

definition ReclaimRange_reclaim ::
    "'h madvise \<Rightarrow> reclaim_policy \<Rightarrow> reclaim_range \<Rightarrow> 'h \<Rightarrow> 'h \<times> (error_kind + unit)" where
  "ReclaimRange_reclaim madvise policy r h =
     (if rr_len r = 0 then (h, Inr ())
      else madvise (rr_slice r + rr_offset r) (rr_len r)
        (case policy of Immediate \<Rightarrow> MADV_DONTNEED | Lazy \<Rightarrow> MADV_FREE) h)"

text \<open>What a range stands for: whole pages inside one slice of reclaimable memory.\<close>

definition reclaimable :: "'r region_ops \<Rightarrow> nat \<Rightarrow> nat \<Rightarrow> nat \<Rightarrow> bool" where
  "reclaimable ro page a n \<longleftrightarrow> a mod page = 0 \<and> n mod page = 0 \<and>
     (\<exists>addr len mapping reg start. ro_to_region_addr ro addr = Some (mapping, reg) \<and>
        backing_ok ro mapping \<and> ro_get_slice ro mapping reg len = Some start \<and>
        start \<le> a \<and> a + n \<le> start + len)"

lemma ReclaimRange_new_Inr:
  assumes "ReclaimRange_new ro address len page = Inr r"
  shows "rr_host_start r = rr_slice r + rr_offset r"
    "0 < rr_len r \<Longrightarrow> reclaimable ro page (rr_host_start r) (rr_len r)"
proof -
  obtain mapping reg start where m: "ro_to_region_addr ro address = Some (mapping, reg)"
    "backing_ok ro mapping" "ro_get_slice ro mapping reg len = Some start" "0 < page"
    and r: "r = \<lparr>rr_slice = start, rr_offset = fst (interior_pages start len page),
        rr_len = snd (interior_pages start len page),
        rr_host_start = start + fst (interior_pages start len page)\<rparr>"
    using assms
    by (auto simp: ReclaimRange_new_def usize_checked_add_def split_beta Let_def
        split: if_split_asm option.split_asm)
  then show "rr_host_start r = rr_slice r + rr_offset r" by simp
  assume "0 < rr_len r"
  then show "reclaimable ro page (rr_host_start r) (rr_len r)"
    using interior_pages_exact[OF m(4) prod.collapse[symmetric], of start len] m r
    unfolding reclaimable_def by fastforce
qed

end
