(* ===== verification/Kvm_Memory.thy ===== *)
theory Kvm_Memory
  imports Vmm_Error
begin

text \<open>
  Guest memory on KVM: the slot table of \<open>src/src/hypervisor/src/kvm/memory.rs\<close>, the calls of
  \<open>src/src/hypervisor/src/kvm/vm.rs\<close> that use it, and the contract of \<open>Vm::map_memory\<close> and
  \<open>Vm::unmap_memory\<close> (\<open>src/src/hypervisor/src/vm.rs\<close>) as the locale \<open>vm_memory\<close>. The kernel is the
  parameter \<open>set_region\<close>, the \<open>KVM_SET_USER_MEMORY_REGION\<close> ioctl on a kernel state \<open>'k\<close>. A host
  pointer is its address.
\<close>

section \<open>Slots\<close>

record memory_region =
  mr_guest :: u64
  mr_host :: u64
  mr_size :: u64

record kvm_region =
  km_slot :: u32
  km_flags :: u32
  km_guest :: u64
  km_size :: u64
  km_host :: u64

record memory_slots =
  ms_regions :: "kvm_region option list"
  ms_page_size :: u64

definition MemorySlots_new :: "nat \<Rightarrow> u64 \<Rightarrow> memory_slots" where
  "MemorySlots_new limit page_size = \<lparr>ms_regions = replicate limit None, ms_page_size = page_size\<rparr>"

definition is_multiple_of :: "'a::len word \<Rightarrow> 'a word \<Rightarrow> bool" where
  "is_multiple_of a b \<longleftrightarrow> (if b = 0 then a = 0 else a mod b = 0)"

definition MemorySlots_validate :: "memory_region \<Rightarrow> memory_slots \<Rightarrow> error_kind + unit" where
  "MemorySlots_validate r ms =
     (if mr_size r = 0
         \<or> \<not> is_multiple_of (mr_size r) (ms_page_size ms)
         \<or> \<not> is_multiple_of (mr_host r) (ms_page_size ms)
         \<or> \<not> is_multiple_of (mr_guest r) (ms_page_size ms)
         \<or> checked_add (mr_host r) (mr_size r) = None
         \<or> checked_add (mr_guest r) (mr_size r) = None
      then Inl InvalidInput else Inr ())"

fun position :: "('a \<Rightarrow> bool) \<Rightarrow> 'a list \<Rightarrow> nat option" where
  "position p [] = None"
| "position p (x # xs) = (if p x then Some 0 else map_option Suc (position p xs))"

definition MemorySlots_map ::
    "('k \<Rightarrow> kvm_region \<Rightarrow> 'k \<times> (error_kind + unit)) \<Rightarrow> memory_region \<Rightarrow> memory_slots \<times> 'k \<Rightarrow>
     (memory_slots \<times> 'k) \<times> (error_kind + unit)" where
  "MemorySlots_map install r = (\<lambda>(ms, k).
     case MemorySlots_validate r ms of
       Inl e \<Rightarrow> ((ms, k), Inl e)
     | Inr _ \<Rightarrow>
         (let e = mr_guest r + mr_size r in
          if \<exists>m\<in>set (ms_regions ms). case m of None \<Rightarrow> False
               | Some existing \<Rightarrow> mr_guest r < km_guest existing + km_size existing \<and> km_guest existing < e
          then ((ms, k), Inl AlreadyExists)
          else case position (\<lambda>m. m = None) (ms_regions ms) of
            None \<Rightarrow> ((ms, k), Inl OutOfMemory)
          | Some slot \<Rightarrow>
              (let mapping = \<lparr>km_slot = of_nat slot, km_flags = 0, km_guest = mr_guest r,
                   km_size = mr_size r, km_host = mr_host r\<rparr> in
               case install k mapping of
                 (k, Inl err) \<Rightarrow> ((ms, k), Inl err)
               | (k, Inr _) \<Rightarrow> ((ms\<lparr>ms_regions := (ms_regions ms)[slot := Some mapping]\<rparr>, k), Inr ()))))"

definition names :: "memory_region \<Rightarrow> kvm_region \<Rightarrow> bool" where
  "names r m \<longleftrightarrow> km_guest m = mr_guest r \<and> km_size m = mr_size r \<and> km_host m = mr_host r"

definition MemorySlots_unmap ::
    "('k \<Rightarrow> kvm_region \<Rightarrow> 'k \<times> (error_kind + unit)) \<Rightarrow> memory_region \<Rightarrow> memory_slots \<times> 'k \<Rightarrow>
     (memory_slots \<times> 'k) \<times> (error_kind + unit)" where
  "MemorySlots_unmap remove r = (\<lambda>(ms, k).
     case position (\<lambda>entry. case entry of None \<Rightarrow> False | Some m \<Rightarrow> names r m) (ms_regions ms) of
       None \<Rightarrow> ((ms, k), Inl NotFound)
     | Some slot \<Rightarrow>
         (case remove k \<lparr>km_slot = of_nat slot, km_flags = 0, km_guest = 0, km_size = 0, km_host = 0\<rparr> of
            (k, Inl err) \<Rightarrow> ((ms, k), Inl err)
          | (k, Inr _) \<Rightarrow> ((ms\<lparr>ms_regions := (ms_regions ms)[slot := None]\<rparr>, k), Inr ())))"

section \<open>The VM\<close>

definition KvmVm_map_memory ::
    "('k \<Rightarrow> kvm_region \<Rightarrow> 'k \<times> (error_kind + unit)) \<Rightarrow> memory_region \<Rightarrow> memory_slots \<times> 'k \<Rightarrow>
     (memory_slots \<times> 'k) \<times> (hypervisor_error + unit)" where
  "KvmVm_map_memory set_region r v =
     (case MemorySlots_map set_region r v of
        (v, Inl source) \<Rightarrow> (v, Inl (MapMemory (mr_guest r) (mr_size r) source))
      | (v, Inr _) \<Rightarrow> (v, Inr ()))"

definition KvmVm_unmap_memory ::
    "('k \<Rightarrow> kvm_region \<Rightarrow> 'k \<times> (error_kind + unit)) \<Rightarrow> memory_region \<Rightarrow> memory_slots \<times> 'k \<Rightarrow>
     (memory_slots \<times> 'k) \<times> (hypervisor_error + unit)" where
  "KvmVm_unmap_memory set_region r v =
     (case MemorySlots_unmap set_region r v of
        (v, Inl source) \<Rightarrow> (v, Inl (UnmapMemory (mr_guest r) (mr_size r) source))
      | (v, Inr _) \<Rightarrow> (v, Inr ()))"

section \<open>The contract\<close>

text \<open>
  \<open>held\<close> is what a VM has mapped. Mapping adds exactly the region, which the VM did not hold before;
  unmapping removes exactly a region it held; a failure changes nothing that is held.
\<close>

locale vm_memory =
  fixes map_memory unmap_memory :: "memory_region \<Rightarrow> 'v \<Rightarrow> 'v \<times> (hypervisor_error + unit)"
    and vm_ok :: "'v \<Rightarrow> bool"
    and held :: "'v \<Rightarrow> memory_region set"
  assumes map_ok: "vm_ok v \<Longrightarrow> map_memory r v = (v', Inr u) \<Longrightarrow>
      vm_ok v' \<and> r \<notin> held v \<and> held v' = insert r (held v)"
    and map_err: "vm_ok v \<Longrightarrow> map_memory r v = (v', Inl e) \<Longrightarrow> vm_ok v' \<and> held v' = held v"
    and unmap_ok: "vm_ok v \<Longrightarrow> unmap_memory r v = (v', Inr u) \<Longrightarrow>
      vm_ok v' \<and> r \<in> held v \<and> held v' = held v - {r}"
    and unmap_err: "vm_ok v \<Longrightarrow> unmap_memory r v = (v', Inl e) \<Longrightarrow> vm_ok v' \<and> held v' = held v"

section \<open>KVM keeps the contract\<close>

lemma position_Some:
  "position p xs = Some i \<longleftrightarrow> i < length xs \<and> p (xs ! i) \<and> (\<forall>j<i. \<not> p (xs ! j))"
proof (induction xs arbitrary: i)
  case Nil
  then show ?case by simp
next
  case (Cons x xs)
  show ?case
  proof (cases i)
    case 0
    then show ?thesis by auto
  next
    case (Suc k)
    then show ?thesis using Cons.IH[of k] by (auto simp: All_less_Suc2)
  qed
qed

lemma position_None: "position p xs = None \<longleftrightarrow> (\<forall>x\<in>set xs. \<not> p x)"
  by (induction xs) auto

definition region_of :: "kvm_region \<Rightarrow> memory_region" where
  "region_of m = \<lparr>mr_guest = km_guest m, mr_host = km_host m, mr_size = km_size m\<rparr>"

definition guest_addrs :: "memory_region \<Rightarrow> nat set" where
  "guest_addrs r = {unat (mr_guest r) ..< unat (mr_guest r) + unat (mr_size r)}"

definition slots_hold :: "memory_slots \<Rightarrow> memory_region set" where
  "slots_hold ms = {region_of m |m. Some m \<in> set (ms_regions ms)}"

definition region_fits :: "memory_region \<Rightarrow> bool" where
  "region_fits r \<longleftrightarrow> mr_size r \<noteq> 0 \<and> unat (mr_guest r) + unat (mr_size r) < 2 ^ 64"

definition slots_ok :: "memory_slots \<Rightarrow> bool" where
  "slots_ok ms \<longleftrightarrow>
     (\<forall>i m. i < length (ms_regions ms) \<longrightarrow> ms_regions ms ! i = Some m \<longrightarrow>
        km_slot m = of_nat i \<and> region_fits (region_of m)) \<and>
     (\<forall>i j m m'. i < length (ms_regions ms) \<longrightarrow> j < length (ms_regions ms) \<longrightarrow> i \<noteq> j \<longrightarrow>
        ms_regions ms ! i = Some m \<longrightarrow> ms_regions ms ! j = Some m' \<longrightarrow>
        guest_addrs (region_of m) \<inter> guest_addrs (region_of m') = {})"

lemma slots_ok_new: "slots_ok (MemorySlots_new limit page)"
  by (simp add: slots_ok_def MemorySlots_new_def)

lemma slots_hold_new: "slots_hold (MemorySlots_new limit page) = {}"
  by (simp add: slots_hold_def MemorySlots_new_def)

lemma slots_hold_iff:
  "r \<in> slots_hold ms \<longleftrightarrow> (\<exists>i m. i < length (ms_regions ms) \<and> ms_regions ms ! i = Some m \<and> region_of m = r)"
  by (fastforce simp: slots_hold_def in_set_conv_nth)

lemma names_iff: "names r m \<longleftrightarrow> region_of m = r"
  by (cases r) (auto simp: names_def region_of_def)

lemma region_validate_Inr:
  assumes "MemorySlots_validate r ms = Inr u"
  shows "region_fits r"
  using assms
  by (auto simp: MemorySlots_validate_def region_fits_def checked_add_def split: if_split_asm)

lemma overlap_test:
  assumes "region_fits r" "region_fits (region_of m)"
  shows "(mr_guest r < km_guest m + km_size m \<and> km_guest m < mr_guest r + mr_size r) \<longleftrightarrow>
    guest_addrs r \<inter> guest_addrs (region_of m) \<noteq> {}"
proof -
  have "unat (km_guest m + km_size m) = unat (km_guest m) + unat (km_size m)"
    "unat (mr_guest r + mr_size r) = unat (mr_guest r) + unat (mr_size r)"
    using assms by (simp_all add: region_fits_def region_of_def unat_add_fits)
  moreover have "0 < unat (km_size m)" "0 < unat (mr_size r)"
    using assms by (simp_all add: region_fits_def region_of_def unat_gt_0)
  ultimately show ?thesis
    by (auto simp: word_less_nat_alt guest_addrs_def region_of_def
        intro!: exI[of _ "max (unat (mr_guest r)) (unat (km_guest m))"])
qed

lemma MemorySlots_map_Inr:
  assumes "MemorySlots_map install r (ms, k) = ((ms', k'), Inr u)"
  obtains slot m where "MemorySlots_validate r ms = Inr ()"
    "\<not> (\<exists>x\<in>set (ms_regions ms). case x of None \<Rightarrow> False
        | Some old \<Rightarrow> mr_guest r < km_guest old + km_size old \<and> km_guest old < mr_guest r + mr_size r)"
    "position (\<lambda>m. m = None) (ms_regions ms) = Some slot"
    "m = \<lparr>km_slot = of_nat slot, km_flags = 0, km_guest = mr_guest r, km_size = mr_size r, km_host = mr_host r\<rparr>"
    "install k m = (k', Inr ())" "ms' = ms\<lparr>ms_regions := (ms_regions ms)[slot := Some m]\<rparr>"
  using assms
  by (auto simp: MemorySlots_map_def Let_def split: sum.split_asm if_split_asm option.split_asm prod.split_asm)

lemma MemorySlots_map_Inl:
  "MemorySlots_map install r (ms, k) = ((ms', k'), Inl e) \<Longrightarrow> ms' = ms \<and> (k' = k \<or> (\<exists>m. install k m = (k', Inl e)))"
  by (auto simp: MemorySlots_map_def Let_def split: sum.split_asm if_split_asm option.split_asm prod.split_asm)

lemma MemorySlots_unmap_Inr:
  assumes "MemorySlots_unmap remove r (ms, k) = ((ms', k'), Inr u)"
  obtains slot m where "slot < length (ms_regions ms)" "ms_regions ms ! slot = Some m" "region_of m = r"
    "remove k \<lparr>km_slot = of_nat slot, km_flags = 0, km_guest = 0, km_size = 0, km_host = 0\<rparr> = (k', Inr ())"
    "ms' = ms\<lparr>ms_regions := (ms_regions ms)[slot := None]\<rparr>"
  using assms
  by (auto simp: MemorySlots_unmap_def position_Some names_iff
      split: option.split_asm sum.split_asm prod.split_asm)

lemma MemorySlots_unmap_Inl:
  "MemorySlots_unmap remove r (ms, k) = ((ms', k'), Inl e) \<Longrightarrow> ms' = ms \<and> (k' = k \<or> (\<exists>m. remove k m = (k', Inl e)))"
  by (auto simp: MemorySlots_unmap_def split: option.split_asm sum.split_asm prod.split_asm)

lemma slots_ok_update_None:
  "slots_ok ms \<Longrightarrow> slot < length (ms_regions ms) \<Longrightarrow>
     slots_ok (ms\<lparr>ms_regions := (ms_regions ms)[slot := None]\<rparr>)"
  by (auto simp: slots_ok_def nth_list_update split: if_split_asm)

lemma slots_map_ok:
  assumes ok: "slots_ok ms" and mapped: "MemorySlots_map install r (ms, k) = ((ms', k'), Inr u)"
  shows "slots_ok ms' \<and> r \<notin> slots_hold ms \<and> slots_hold ms' = insert r (slots_hold ms)"
proof -
  from mapped obtain slot m where valid: "MemorySlots_validate r ms = Inr ()"
    and free: "\<not> (\<exists>x\<in>set (ms_regions ms). case x of None \<Rightarrow> False
        | Some old \<Rightarrow> mr_guest r < km_guest old + km_size old \<and> km_guest old < mr_guest r + mr_size r)"
    and pos: "position (\<lambda>m. m = None) (ms_regions ms) = Some slot"
    and m: "m = \<lparr>km_slot = of_nat slot, km_flags = 0, km_guest = mr_guest r, km_size = mr_size r, km_host = mr_host r\<rparr>"
    and ms': "ms' = ms\<lparr>ms_regions := (ms_regions ms)[slot := Some m]\<rparr>"
    by (rule MemorySlots_map_Inr)
  have r: "region_of m = r" and sl: "km_slot m = of_nat slot" using m by (simp_all add: region_of_def)
  have fits: "region_fits r" by (rule region_validate_Inr[OF valid])
  have slot: "slot < length (ms_regions ms)" "ms_regions ms ! slot = None"
    using pos by (simp_all add: position_Some)
  have apart: "guest_addrs r \<inter> guest_addrs (region_of old) = {}"
    if "i < length (ms_regions ms)" "ms_regions ms ! i = Some old" for i old
  proof -
    have "Some old \<in> set (ms_regions ms)" using that nth_mem by metis
    moreover have "region_fits (region_of old)" using ok that by (auto simp: slots_ok_def)
    ultimately show ?thesis using free overlap_test[OF fits, of old] by fastforce
  qed
  have "slots_ok ms'"
    unfolding slots_ok_def
  proof (intro conjI allI impI)
    fix i x assume "i < length (ms_regions ms')" "ms_regions ms' ! i = Some x"
    then show "km_slot x = of_nat i" "region_fits (region_of x)"
      using ok ms' sl r fits slot by (auto simp: slots_ok_def nth_list_update split: if_split_asm)
  next
    fix i j x y
    assume "i < length (ms_regions ms')" "j < length (ms_regions ms')" "i \<noteq> j"
      "ms_regions ms' ! i = Some x" "ms_regions ms' ! j = Some y"
    then show "guest_addrs (region_of x) \<inter> guest_addrs (region_of y) = {}"
      using ok ms' r apart slot
      by (auto simp: slots_ok_def nth_list_update Int_commute split: if_split_asm)
  qed
  moreover have "r \<notin> slots_hold ms"
  proof
    assume "r \<in> slots_hold ms"
    then obtain i old where "i < length (ms_regions ms)" "ms_regions ms ! i = Some old" "region_of old = r"
      by (auto simp: slots_hold_iff)
    with apart have "guest_addrs r = {}" by fastforce
    then show False using fits by (simp add: guest_addrs_def region_fits_def unat_gt_0)
  qed
  moreover have "slots_hold ms' = insert r (slots_hold ms)"
  proof (rule set_eqI)
    fix x
    have "x \<in> slots_hold ms' \<longleftrightarrow> x = r \<or> (\<exists>i old. i < length (ms_regions ms) \<and> i \<noteq> slot \<and>
        ms_regions ms ! i = Some old \<and> region_of old = x)"
      using slot r ms' by (auto simp: slots_hold_iff nth_list_update)
    also have "\<dots> \<longleftrightarrow> x = r \<or> x \<in> slots_hold ms"
      using slot by (fastforce simp: slots_hold_iff)
    finally show "x \<in> slots_hold ms' \<longleftrightarrow> x \<in> insert r (slots_hold ms)" by simp
  qed
  ultimately show ?thesis by blast
qed

lemma slots_unmap_ok:
  assumes ok: "slots_ok ms" and un: "MemorySlots_unmap remove r (ms, k) = ((ms', k'), Inr u)"
  shows "slots_ok ms' \<and> r \<in> slots_hold ms \<and> slots_hold ms' = slots_hold ms - {r}"
proof -
  from un obtain slot m where slot: "slot < length (ms_regions ms)" "ms_regions ms ! slot = Some m"
    and r: "region_of m = r" and ms': "ms' = ms\<lparr>ms_regions := (ms_regions ms)[slot := None]\<rparr>"
    by (rule MemorySlots_unmap_Inr)
  have other: "region_of old \<noteq> r"
    if "i < length (ms_regions ms)" "ms_regions ms ! i = Some old" "i \<noteq> slot" for i old
  proof
    assume "region_of old = r"
    with that slot r ok have "guest_addrs r \<inter> guest_addrs r = {}" by (fastforce simp: slots_ok_def)
    moreover have "region_fits r" using ok slot r by (auto simp: slots_ok_def)
    ultimately show False by (simp add: guest_addrs_def region_fits_def unat_gt_0)
  qed
  have "slots_hold ms' = slots_hold ms - {r}"
  proof (rule set_eqI)
    fix x
    have "x \<in> slots_hold ms' \<longleftrightarrow> (\<exists>i old. i < length (ms_regions ms) \<and> i \<noteq> slot \<and>
        ms_regions ms ! i = Some old \<and> region_of old = x)"
      using ms' slot by (auto simp: slots_hold_iff nth_list_update)
    also have "\<dots> \<longleftrightarrow> x \<in> slots_hold ms \<and> x \<noteq> r"
      using slot r other by (auto simp: slots_hold_iff)
    finally show "x \<in> slots_hold ms' \<longleftrightarrow> x \<in> slots_hold ms - {r}" by simp
  qed
  then show ?thesis
    using slots_ok_update_None[OF ok slot(1)] ms' slot r by (auto simp: slots_hold_iff)
qed

section \<open>The kernel's table\<close>

text \<open>
  What the kernel documents of the ioctl: accepting a region sets its slot, or deletes the slot when
  the size is zero; refusing it changes nothing. \<open>in_slot\<close> reads the kernel's table.
\<close>

definition kvm_law ::
    "('k \<Rightarrow> kvm_region \<Rightarrow> 'k \<times> (error_kind + unit)) \<Rightarrow> ('k \<Rightarrow> u32 \<Rightarrow> memory_region option) \<Rightarrow> bool" where
  "kvm_law set_region in_slot \<longleftrightarrow>
     (\<forall>k m k'. set_region k m = (k', Inr ()) \<longrightarrow>
        in_slot k' = (in_slot k)(km_slot m := if km_size m = 0 then None else Some (region_of m))) \<and>
     (\<forall>k m k' e. set_region k m = (k', Inl e) \<longrightarrow> in_slot k' = in_slot k)"

definition books_agree :: "('k \<Rightarrow> u32 \<Rightarrow> memory_region option) \<Rightarrow> memory_slots \<times> 'k \<Rightarrow> bool" where
  "books_agree in_slot = (\<lambda>(ms, k).
     length (ms_regions ms) \<le> 2 ^ 32 \<and>
     (\<forall>s. in_slot k s = (if unat s < length (ms_regions ms)
        then map_option region_of (ms_regions ms ! unat s) else None)))"

lemma kvm_law_err: "kvm_law set_region in_slot \<Longrightarrow> set_region k m = (k', Inl e) \<Longrightarrow> in_slot k' = in_slot k"
  unfolding kvm_law_def by blast

lemma MemorySlots_map_agrees:
  assumes law: "kvm_law set_region in_slot" and ok: "slots_ok ms" and agree: "books_agree in_slot (ms, k)"
    and mapped: "MemorySlots_map set_region r (ms, k) = ((ms', k'), res)"
  shows "books_agree in_slot (ms', k')"
proof (cases res)
  case (Inl e)
  then show ?thesis
    using MemorySlots_map_Inl[of set_region r ms k ms' k' e] mapped agree kvm_law_err[OF law, of k _ k' e]
    by (auto simp: books_agree_def)
next
  case (Inr u)
  with mapped obtain slot m where valid: "MemorySlots_validate r ms = Inr ()"
    and pos: "position (\<lambda>m. m = None) (ms_regions ms) = Some slot"
    and m: "m = \<lparr>km_slot = of_nat slot, km_flags = 0, km_guest = mr_guest r, km_size = mr_size r, km_host = mr_host r\<rparr>"
    and inst: "set_region k m = (k', Inr ())" and ms': "ms' = ms\<lparr>ms_regions := (ms_regions ms)[slot := Some m]\<rparr>"
    by (auto elim: MemorySlots_map_Inr)
  have slot: "slot < length (ms_regions ms)" using pos by (simp add: position_Some)
  have len: "length (ms_regions ms) \<le> 2 ^ 32" using agree by (simp add: books_agree_def)
  have us: "unat (of_nat slot :: u32) = slot" using slot len by (simp add: unat_of_nat)
  have eq: "s = of_nat slot \<longleftrightarrow> unat s = slot" for s :: u32
    using us by (metis word_unat_eq_iff)
  have "mr_size r \<noteq> 0" using region_validate_Inr[OF valid] by (simp add: region_fits_def)
  then have "in_slot k' = (in_slot k)(of_nat slot := Some (region_of m))"
    using law inst m by (auto simp: kvm_law_def)
  then show ?thesis
    using agree ms' slot by (auto simp: books_agree_def nth_list_update eq us)
qed

lemma MemorySlots_unmap_agrees:
  assumes law: "kvm_law set_region in_slot" and ok: "slots_ok ms" and agree: "books_agree in_slot (ms, k)"
    and un: "MemorySlots_unmap set_region r (ms, k) = ((ms', k'), res)"
  shows "books_agree in_slot (ms', k')"
proof (cases res)
  case (Inl e)
  then show ?thesis
    using MemorySlots_unmap_Inl[of set_region r ms k ms' k' e] un agree kvm_law_err[OF law, of k _ k' e]
    by (auto simp: books_agree_def)
next
  case (Inr u)
  with un obtain slot m where slot: "slot < length (ms_regions ms)" "ms_regions ms ! slot = Some m"
    and rem: "set_region k \<lparr>km_slot = of_nat slot, km_flags = 0, km_guest = 0, km_size = 0, km_host = 0\<rparr> = (k', Inr ())"
    and ms': "ms' = ms\<lparr>ms_regions := (ms_regions ms)[slot := None]\<rparr>"
    by (auto elim: MemorySlots_unmap_Inr)
  have len: "length (ms_regions ms) \<le> 2 ^ 32" using agree by (simp add: books_agree_def)
  have us: "unat (of_nat slot :: u32) = slot" using slot len by (simp add: unat_of_nat)
  have eq: "s = of_nat slot \<longleftrightarrow> unat s = slot" for s :: u32
    using us by (metis word_unat_eq_iff)
  have "in_slot k' = (in_slot k)(of_nat slot := None)"
    using law rem by (auto simp: kvm_law_def)
  then show ?thesis
    using agree ms' slot by (auto simp: books_agree_def nth_list_update eq us)
qed

lemma KvmVm_agrees:
  assumes "kvm_law set_region in_slot" "slots_ok (fst v)" "books_agree in_slot v"
  shows "books_agree in_slot (fst (KvmVm_map_memory set_region r v))"
    "books_agree in_slot (fst (KvmVm_unmap_memory set_region r v))"
  using MemorySlots_map_agrees[OF assms(1), of "fst v" "snd v" r]
    MemorySlots_unmap_agrees[OF assms(1), of "fst v" "snd v" r] assms(2,3)
  by (auto simp: KvmVm_map_memory_def KvmVm_unmap_memory_def split: prod.splits sum.splits)

text \<open>A VM in order: its table is, and under the kernel's law the kernel has the same table.\<close>

definition kvm_ok ::
    "('k \<Rightarrow> kvm_region \<Rightarrow> 'k \<times> (error_kind + unit)) \<Rightarrow> ('k \<Rightarrow> u32 \<Rightarrow> memory_region option) \<Rightarrow>
     memory_slots \<times> 'k \<Rightarrow> bool" where
  "kvm_ok set_region in_slot v \<longleftrightarrow>
     slots_ok (fst v) \<and> (kvm_law set_region in_slot \<longrightarrow> books_agree in_slot v)"

lemma KvmVm_call_cases:
  "KvmVm_map_memory set_region r v = (v', Inr u) \<Longrightarrow>
     MemorySlots_map set_region r (fst v, snd v) = ((fst v', snd v'), Inr ())"
  "KvmVm_map_memory set_region r v = (v', Inl err) \<Longrightarrow>
     \<exists>e. MemorySlots_map set_region r (fst v, snd v) = ((fst v', snd v'), Inl e)"
  "KvmVm_unmap_memory set_region r v = (v', Inr u) \<Longrightarrow>
     MemorySlots_unmap set_region r (fst v, snd v) = ((fst v', snd v'), Inr ())"
  "KvmVm_unmap_memory set_region r v = (v', Inl err) \<Longrightarrow>
     \<exists>e. MemorySlots_unmap set_region r (fst v, snd v) = ((fst v', snd v'), Inl e)"
  by (auto simp: KvmVm_map_memory_def KvmVm_unmap_memory_def split: prod.split_asm sum.split_asm)

interpretation kvm: vm_memory "KvmVm_map_memory set_region" "KvmVm_unmap_memory set_region"
    "kvm_ok set_region in_slot" "\<lambda>v. slots_hold (fst v)"
  for set_region :: "'k \<Rightarrow> kvm_region \<Rightarrow> 'k \<times> (error_kind + unit)" and in_slot
proof unfold_locales
  fix v v' :: "memory_slots \<times> 'k" and r u
  assume ok: "kvm_ok set_region in_slot v" and call: "KvmVm_map_memory set_region r v = (v', Inr u)"
  then have "books_agree in_slot v'" if "kvm_law set_region in_slot"
    using KvmVm_agrees(1)[OF that, of v r] that by (simp add: kvm_ok_def)
  then show "kvm_ok set_region in_slot v' \<and> r \<notin> slots_hold (fst v) \<and>
      slots_hold (fst v') = insert r (slots_hold (fst v))"
    using slots_map_ok[OF _ KvmVm_call_cases(1)[OF call]] ok by (simp add: kvm_ok_def)
next
  fix v v' :: "memory_slots \<times> 'k" and r e
  assume ok: "kvm_ok set_region in_slot v" and call: "KvmVm_map_memory set_region r v = (v', Inl e)"
  then have "books_agree in_slot v'" if "kvm_law set_region in_slot"
    using KvmVm_agrees(1)[OF that, of v r] that by (simp add: kvm_ok_def)
  moreover have "fst v' = fst v" using KvmVm_call_cases(2)[OF call] MemorySlots_map_Inl[of set_region r "fst v" "snd v" "fst v'" "snd v'"] by fastforce
  ultimately show "kvm_ok set_region in_slot v' \<and> slots_hold (fst v') = slots_hold (fst v)"
    using ok by (simp add: kvm_ok_def)
next
  fix v v' :: "memory_slots \<times> 'k" and r u
  assume ok: "kvm_ok set_region in_slot v" and call: "KvmVm_unmap_memory set_region r v = (v', Inr u)"
  then have "books_agree in_slot v'" if "kvm_law set_region in_slot"
    using KvmVm_agrees(2)[OF that, of v r] that by (simp add: kvm_ok_def)
  then show "kvm_ok set_region in_slot v' \<and> r \<in> slots_hold (fst v) \<and>
      slots_hold (fst v') = slots_hold (fst v) - {r}"
    using slots_unmap_ok[OF _ KvmVm_call_cases(3)[OF call]] ok by (simp add: kvm_ok_def)
next
  fix v v' :: "memory_slots \<times> 'k" and r e
  assume ok: "kvm_ok set_region in_slot v" and call: "KvmVm_unmap_memory set_region r v = (v', Inl e)"
  then have "books_agree in_slot v'" if "kvm_law set_region in_slot"
    using KvmVm_agrees(2)[OF that, of v r] that by (simp add: kvm_ok_def)
  moreover have "fst v' = fst v" using KvmVm_call_cases(4)[OF call] MemorySlots_unmap_Inl[of set_region r "fst v" "snd v" "fst v'" "snd v'"] by fastforce
  ultimately show "kvm_ok set_region in_slot v' \<and> slots_hold (fst v') = slots_hold (fst v)"
    using ok by (simp add: kvm_ok_def)
qed

lemma books_agree_ran:
  "books_agree in_slot v \<Longrightarrow> {r. \<exists>s. in_slot (snd v) s = Some r} = slots_hold (fst v)"
proof -
  assume a: "books_agree in_slot v"
  obtain ms k where v: "v = (ms, k)" by (cases v)
  have len: "length (ms_regions ms) \<le> 2 ^ 32" using a v by (simp add: books_agree_def)
  have "\<exists>s. in_slot k s = Some (region_of m)" if "i < length (ms_regions ms)" "ms_regions ms ! i = Some m" for i m
    using a that len v by (intro exI[of _ "of_nat i"]) (auto simp: books_agree_def unat_of_nat)
  moreover have "\<exists>i<length (ms_regions ms). \<exists>m. ms_regions ms ! i = Some m \<and> region_of m = r"
    if "in_slot k s = Some r" for s r
    using a that v by (auto simp: books_agree_def split: if_split_asm)
  ultimately show ?thesis using v by (fastforce simp: slots_hold_iff)
qed

end
