(* ===== verification/Guest_Ram.thy ===== *)
theory Guest_Ram
  imports Machine Kvm_Memory
begin

text \<open>
  Guest RAM and its registrations, \<open>GuestRam\<close> of \<open>src/src/vmm/src/memory.rs\<close>. The memory itself is
  the crate \<open>vm_memory\<close>; \<open>gr_regions\<close> is what \<open>GuestRam::regions\<close> yields of it, in ascending guest
  order. \<open>None\<close> is a panic: mapping twice, or a registered region the memory does not have.
\<close>

record guest_ram =
  gr_regions :: "memory_region list"
  gr_mapped :: nat

text \<open>\<open>allocate\<close> is \<open>GuestMemoryMmap::from_ranges\<close>.\<close>

definition GuestRam_new ::
    "((u64 \<times> nat) list \<Rightarrow> memory_region list option) \<Rightarrow> (u64 \<times> nat) list \<Rightarrow> vmm_error + guest_ram" where
  "GuestRam_new allocate layout =
     (case allocate layout of
        None \<Rightarrow> Inl (AllocateMemory (of_nat (sum_list (map snd layout))) OtherKind)
      | Some rs \<Rightarrow> Inr \<lparr>gr_regions = rs, gr_mapped = 0\<rparr>)"

type_synonym 'v vm_call = "memory_region \<Rightarrow> 'v \<Rightarrow> 'v \<times> (hypervisor_error + unit)"

fun unmap_loop :: "'v vm_call \<Rightarrow> memory_region list \<Rightarrow> nat \<Rightarrow> 'v \<Rightarrow> (nat \<times> 'v \<times> (vmm_error + unit)) option" where
  "unmap_loop um rs 0 v = Some (0, v, Inr ())"
| "unmap_loop um rs (Suc n) v =
     (if \<not> n < length rs then None
      else case um (rs ! n) v of
        (v, Inl e) \<Rightarrow> Some (Suc n, v, Inl (Hypervisor e))
      | (v, Inr _) \<Rightarrow> unmap_loop um rs n v)"

definition GuestRam_unmap ::
    "'v vm_call \<Rightarrow> guest_ram \<times> 'v \<Rightarrow> ((guest_ram \<times> 'v) \<times> (vmm_error + unit)) option" where
  "GuestRam_unmap um = (\<lambda>(g, v).
     case unmap_loop um (gr_regions g) (gr_mapped g) v of
       None \<Rightarrow> None
     | Some (n, v, r) \<Rightarrow> Some ((g\<lparr>gr_mapped := n\<rparr>, v), r))"

fun map_loop ::
    "'v vm_call \<Rightarrow> 'v vm_call \<Rightarrow> memory_region list \<Rightarrow> guest_ram \<times> 'v \<Rightarrow>
     ((guest_ram \<times> 'v) \<times> (vmm_error + unit)) option" where
  "map_loop mp um [] s = Some (s, Inr ())"
| "map_loop mp um (r # rs) (g, v) =
     (case mp r v of
        (v, Inl e) \<Rightarrow>
          (case GuestRam_unmap um (g, v) of
             None \<Rightarrow> None
           | Some (s, _) \<Rightarrow> Some (s, Inl (Hypervisor e)))
      | (v, Inr _) \<Rightarrow> map_loop mp um rs (g\<lparr>gr_mapped := gr_mapped g + 1\<rparr>, v))"

definition GuestRam_map ::
    "'v vm_call \<Rightarrow> 'v vm_call \<Rightarrow> guest_ram \<times> 'v \<Rightarrow> ((guest_ram \<times> 'v) \<times> (vmm_error + unit)) option" where
  "GuestRam_map mp um = (\<lambda>(g, v).
     if gr_mapped g \<noteq> 0 then None else map_loop mp um (gr_regions g) (g, v))"

text \<open>Whether dropping it keeps the backing allocated for ever.\<close>

definition GuestRam_drop_leaks :: "guest_ram \<Rightarrow> bool" where
  "GuestRam_drop_leaks g \<longleftrightarrow> 0 < gr_mapped g"

section \<open>Registrations follow the count\<close>

definition registered ::
    "('v \<Rightarrow> bool) \<Rightarrow> ('v \<Rightarrow> memory_region set) \<Rightarrow> guest_ram \<times> 'v \<Rightarrow> bool" where
  "registered ok holds = (\<lambda>(g, v). ok v \<and> gr_mapped g \<le> length (gr_regions g) \<and>
     distinct (take (gr_mapped g) (gr_regions g)) \<and> holds v = set (take (gr_mapped g) (gr_regions g)))"

context vm_memory
begin

lemma unmap_loop_keeps:
  assumes "vm_ok v" "n \<le> length rs" "distinct (take n rs)" "held v = set (take n rs)"
  shows "\<exists>n' v' r. unmap_loop unmap_memory rs n v = Some (n', v', r) \<and> vm_ok v' \<and> n' \<le> n \<and>
    held v' = set (take n' rs) \<and> (r = Inr () \<longleftrightarrow> n' = 0)"
  using assms
proof (induction n arbitrary: v)
  case 0
  then show ?case by simp
next
  case (Suc n)
  have n: "n < length rs" using Suc.prems by simp
  have tk: "take (Suc n) rs = take n rs @ [rs ! n]" by (rule take_Suc_conv_app_nth[OF n])
  obtain v1 r1 where um: "unmap_memory (rs ! n) v = (v1, r1)" by (cases "unmap_memory (rs ! n) v")
  show ?case
  proof (cases r1)
    case (Inl e)
    then show ?thesis using um n Suc.prems unmap_err[OF Suc.prems(1)] by auto
  next
    case (Inr u)
    have v1: "vm_ok v1" "held v1 = held v - {rs ! n}"
      using unmap_ok[OF Suc.prems(1), of "rs ! n" v1 u] um Inr by simp_all
    then have "held v1 = set (take n rs)" using Suc.prems(3,4) unfolding tk by auto
    moreover have "distinct (take n rs)" using Suc.prems(3) unfolding tk by simp
    ultimately have "\<exists>n' v' r. unmap_loop unmap_memory rs n v1 = Some (n', v', r) \<and> vm_ok v' \<and> n' \<le> n \<and>
        held v' = set (take n' rs) \<and> (r = Inr () \<longleftrightarrow> n' = 0)"
      using Suc.IH[of v1] v1(1) n by simp
    then show ?thesis using um Inr n le_SucI by fastforce
  qed
qed

lemma GuestRam_unmap_keeps:
  assumes "registered vm_ok held (g, v)"
  shows "\<exists>g' v' r. GuestRam_unmap unmap_memory (g, v) = Some ((g', v'), r) \<and>
    registered vm_ok held (g', v') \<and> gr_regions g' = gr_regions g \<and> (r = Inr () \<longleftrightarrow> gr_mapped g' = 0)"
proof -
  let ?rs = "gr_regions g" and ?n = "gr_mapped g"
  have reg: "vm_ok v" "?n \<le> length ?rs" "distinct (take ?n ?rs)" "held v = set (take ?n ?rs)"
    using assms by (simp_all add: registered_def)
  obtain n' v' r where um: "unmap_loop unmap_memory ?rs ?n v = Some (n', v', r)" "vm_ok v'" "n' \<le> ?n"
    "held v' = set (take n' ?rs)" "r = Inr () \<longleftrightarrow> n' = 0"
    using unmap_loop_keeps[OF reg] by blast
  have "distinct (take n' ?rs)"
    using reg(3) um(3) by (metis distinct_take min.absorb1 take_take)
  then have "registered vm_ok held (g\<lparr>gr_mapped := n'\<rparr>, v')"
    using um reg(2) by (simp add: registered_def)
  then show ?thesis using um by (simp add: GuestRam_unmap_def)
qed

lemma map_loop_keeps:
  assumes "registered vm_ok held (g, v)" "rs = drop (gr_mapped g) (gr_regions g)"
  shows "\<exists>g' v' r. map_loop map_memory unmap_memory rs (g, v) = Some ((g', v'), r) \<and>
    registered vm_ok held (g', v') \<and> gr_regions g' = gr_regions g \<and>
    (r = Inr () \<longrightarrow> gr_mapped g' = length (gr_regions g))"
  using assms
proof (induction rs arbitrary: g v)
  case Nil
  then have "gr_mapped g = length (gr_regions g)" by (simp add: registered_def)
  with Nil show ?case by simp
next
  case (Cons r rs)
  let ?n = "gr_mapped g" and ?all = "gr_regions g"
  have n: "?n < length ?all" using Cons.prems(2) by (metis drop_all list.distinct(1) not_less)
  have r: "r = ?all ! ?n" and rs: "rs = drop (Suc ?n) ?all"
    using Cons.prems(2) Cons_nth_drop_Suc[OF n] by (metis list.inject)+
  have tk: "take (Suc ?n) ?all = take ?n ?all @ [r]" using take_Suc_conv_app_nth[OF n] r by simp
  have reg: "vm_ok v" "distinct (take ?n ?all)" "held v = set (take ?n ?all)" "?n \<le> length ?all"
    using Cons.prems(1) by (simp_all add: registered_def)
  obtain v1 res where mp: "map_memory r v = (v1, res)" by (cases "map_memory r v")
  show ?case
  proof (cases res)
    case (Inl e)
    then have "registered vm_ok held (g, v1)"
      using map_err[OF reg(1)] mp reg by (simp add: registered_def)
    then obtain g' v' r' where "GuestRam_unmap unmap_memory (g, v1) = Some ((g', v'), r')"
      "registered vm_ok held (g', v')" "gr_regions g' = ?all"
      using GuestRam_unmap_keeps by blast
    then show ?thesis using mp Inl by simp
  next
    case (Inr u)
    let ?g = "g\<lparr>gr_mapped := gr_mapped g + 1\<rparr>"
    have "vm_ok v1" "r \<notin> held v" "held v1 = insert r (held v)"
      using map_ok[OF reg(1), of r v1 u] mp Inr by simp_all
    then have "registered vm_ok held (?g, v1)"
      using reg n by (simp add: registered_def tk)
    from Cons.IH[OF this] rs show ?thesis using mp Inr by simp
  qed
qed

lemma GuestRam_map_keeps:
  assumes "registered vm_ok held (g, v)"
  shows "GuestRam_map map_memory unmap_memory (g, v) = None \<longleftrightarrow> gr_mapped g \<noteq> 0"
    "gr_mapped g = 0 \<Longrightarrow> \<exists>g' v' r. GuestRam_map map_memory unmap_memory (g, v) = Some ((g', v'), r) \<and>
       registered vm_ok held (g', v') \<and> gr_regions g' = gr_regions g \<and>
       (r = Inr () \<longrightarrow> gr_mapped g' = length (gr_regions g))"
  using map_loop_keeps[OF assms, of "gr_regions g"] by (auto simp: GuestRam_map_def)

end

section \<open>Releasing guest RAM\<close>

text \<open>What the owner of the RAM does with it, and a run of such calls on KVM.\<close>

datatype ram_call = MapRam | UnmapRam

fun ram_run ::
    "('k \<Rightarrow> kvm_region \<Rightarrow> 'k \<times> (error_kind + unit)) \<Rightarrow> ram_call list \<Rightarrow> guest_ram \<times> memory_slots \<times> 'k \<Rightarrow>
     (guest_ram \<times> memory_slots \<times> 'k) option" where
  "ram_run sr [] s = Some s"
| "ram_run sr (MapRam # cs) s =
     (case GuestRam_map (KvmVm_map_memory sr) (KvmVm_unmap_memory sr) s of
        None \<Rightarrow> None
      | Some (s, _) \<Rightarrow> ram_run sr cs s)"
| "ram_run sr (UnmapRam # cs) s =
     (case GuestRam_unmap (KvmVm_unmap_memory sr) s of
        None \<Rightarrow> None
      | Some (s, _) \<Rightarrow> ram_run sr cs s)"

abbreviation on_kvm ::
    "('k \<Rightarrow> kvm_region \<Rightarrow> 'k \<times> (error_kind + unit)) \<Rightarrow> ('k \<Rightarrow> u32 \<Rightarrow> memory_region option) \<Rightarrow>
     guest_ram \<times> memory_slots \<times> 'k \<Rightarrow> bool" where
  "on_kvm sr in_slot \<equiv> registered (kvm_ok sr in_slot) (\<lambda>v. slots_hold (fst v))"

lemma ram_run_keeps:
  assumes "on_kvm sr in_slot s" "ram_run sr cs s = Some s'"
  shows "on_kvm sr in_slot s' \<and> gr_regions (fst s') = gr_regions (fst s)"
  using assms
proof (induction sr cs s rule: ram_run.induct)
  case (1 sr s)
  then show ?case by simp
next
  case (2 sr cs s)
  obtain g v where s: "s = (g, v)" by (cases s)
  have reg: "on_kvm sr in_slot (g, v)" using 2 s by simp
  have "GuestRam_map (KvmVm_map_memory sr) (KvmVm_unmap_memory sr) (g, v) \<noteq> None"
    using 2(3) s by (auto split: option.split_asm)
  then have "gr_mapped g = 0" using kvm.GuestRam_map_keeps(1)[OF reg] by simp
  then obtain g1 v1 r where c: "GuestRam_map (KvmVm_map_memory sr) (KvmVm_unmap_memory sr) (g, v) = Some ((g1, v1), r)"
    "on_kvm sr in_slot (g1, v1)" "gr_regions g1 = gr_regions g"
    using kvm.GuestRam_map_keeps(2)[OF reg] by blast
  then show ?case using "2.IH"[of "((g1, v1), r)" "(g1, v1)" r] 2(3) s by auto
next
  case (3 sr cs s)
  obtain g v where s: "s = (g, v)" by (cases s)
  have reg: "on_kvm sr in_slot (g, v)" using 3 s by simp
  obtain g1 v1 r where c: "GuestRam_unmap (KvmVm_unmap_memory sr) (g, v) = Some ((g1, v1), r)"
    "on_kvm sr in_slot (g1, v1)" "gr_regions g1 = gr_regions g"
    using kvm.GuestRam_unmap_keeps[OF reg] by blast
  then show ?case using "3.IH"[of "((g1, v1), r)" "(g1, v1)" r] 3(3) s by auto
qed

lemma on_kvm_start:
  assumes "kvm_law sr in_slot" "\<forall>s. in_slot k s = None" "limit \<le> 2 ^ 32"
  shows "on_kvm sr in_slot (\<lparr>gr_regions = rs, gr_mapped = 0\<rparr>, MemorySlots_new limit page, k)"
proof -
  have "books_agree in_slot (MemorySlots_new limit page, k)"
    using assms by (simp add: books_agree_def MemorySlots_new_def)
  then show ?thesis
    by (simp add: registered_def kvm_ok_def slots_ok_new slots_hold_new)
qed

text \<open>C24. The host never keeps a mapping of freed guest RAM. On any kernel that does what the ioctl
  documents, after any calls of \<open>map\<close> and \<open>unmap\<close>, failing ones included, the kernel's slots are
  exactly the regions counted as mapped; so whenever dropping the RAM frees its backing, the kernel
  maps none of it, and no call panics but a second \<open>map\<close>.\<close>
theorem ram_release_safe:
  assumes "kvm_law sr in_slot" "\<forall>s. in_slot k s = None" "limit \<le> 2 ^ 32"
    and "ram_run sr cs (\<lparr>gr_regions = rs, gr_mapped = 0\<rparr>, MemorySlots_new limit page, k) = Some (g, v)"
  shows "{r. \<exists>s. in_slot (snd v) s = Some r} = set (take (gr_mapped g) rs) \<and>
    (\<not> GuestRam_drop_leaks g \<longrightarrow> (\<forall>s. in_slot (snd v) s = None)) \<and>
    GuestRam_unmap (KvmVm_unmap_memory sr) (g, v) \<noteq> None \<and>
    (GuestRam_map (KvmVm_map_memory sr) (KvmVm_unmap_memory sr) (g, v) = None \<longleftrightarrow> gr_mapped g \<noteq> 0)"
proof -
  have reg: "on_kvm sr in_slot (g, v)" and rs: "gr_regions g = rs"
    using ram_run_keeps[OF on_kvm_start[OF assms(1-3)] assms(4)] by simp_all
  have "books_agree in_slot v" using reg assms(1) by (simp add: registered_def kvm_ok_def)
  from books_agree_ran[OF this] reg rs
  have ran: "{r. \<exists>s. in_slot (snd v) s = Some r} = set (take (gr_mapped g) rs)"
    by (simp add: registered_def)
  have "in_slot (snd v) s = None" if "\<not> GuestRam_drop_leaks g" for s
    using ran that by (cases "in_slot (snd v) s") (auto simp: GuestRam_drop_leaks_def)
  moreover have "GuestRam_unmap (KvmVm_unmap_memory sr) (g, v) \<noteq> None"
    using kvm.GuestRam_unmap_keeps[OF reg] by auto
  ultimately show ?thesis using ran kvm.GuestRam_map_keeps(1)[OF reg] by blast
qed

text \<open>A kernel with two slots that refuses whatever it is told to refuse.\<close>

definition demo_kernel :: "bool list \<times> (u32 \<Rightarrow> memory_region option) \<Rightarrow> kvm_region \<Rightarrow>
    (bool list \<times> (u32 \<Rightarrow> memory_region option)) \<times> (error_kind + unit)" where
  "demo_kernel = (\<lambda>(faults, tab) m.
     if faults \<noteq> [] \<and> hd faults then ((tl faults, tab), Inl OutOfMemory)
     else ((tl faults, tab(km_slot m := if km_size m = 0 then None else Some (region_of m))), Inr ()))"

lemma demo_kernel_law: "kvm_law demo_kernel snd"
  by (auto simp: kvm_law_def demo_kernel_def split: if_split_asm)

definition demo_regions :: "memory_region list" where
  "demo_regions = [\<lparr>mr_guest = 0, mr_host = 0x10000, mr_size = 0x1000\<rparr>,
     \<lparr>mr_guest = 0x2000, mr_host = 0x20000, mr_size = 0x1000\<rparr>]"


text \<open>The second registration fails and so does its rollback: the backing is leaked.\<close>

lemma demo_valid:
  "r \<in> set demo_regions \<Longrightarrow> MemorySlots_validate r \<lparr>ms_regions = xs, ms_page_size = 0x1000\<rparr> = Inr ()"
  by (auto simp: demo_regions_def MemorySlots_validate_def is_multiple_of_def checked_add_def)

lemma demo_slots: "MemorySlots_new 2 page = \<lparr>ms_regions = [None, None], ms_page_size = page\<rparr>"
  by (simp add: MemorySlots_new_def numeral_2_eq_2)

lemma demo_ram_run:
  "\<exists>g v. ram_run demo_kernel [MapRam] (\<lparr>gr_regions = demo_regions, gr_mapped = 0\<rparr>,
      MemorySlots_new 2 0x1000, ([False, True, True], \<lambda>_. None)) = Some (g, v) \<and> gr_mapped g = 1"
  using demo_valid
  by (simp add: demo_regions_def GuestRam_map_def KvmVm_map_memory_def KvmVm_unmap_memory_def
      MemorySlots_map_def MemorySlots_unmap_def demo_slots demo_kernel_def GuestRam_unmap_def
      names_def Let_def)

lemma ram_release_safe_witness:
  "\<exists>g v. ram_run demo_kernel [MapRam] (\<lparr>gr_regions = demo_regions, gr_mapped = 0\<rparr>,
      MemorySlots_new 2 0x1000, ([False, True, True], \<lambda>_. None)) = Some (g, v) \<and>
    GuestRam_drop_leaks g \<and> {r. \<exists>s. snd (snd v) s = Some r} = {hd demo_regions}"
proof -
  obtain g v where run: "ram_run demo_kernel [MapRam] (\<lparr>gr_regions = demo_regions, gr_mapped = 0\<rparr>,
      MemorySlots_new 2 0x1000, ([False, True, True], \<lambda>_. None)) = Some (g, v)" "gr_mapped g = 1"
    using demo_ram_run by blast
  have "{r. \<exists>s. snd (snd v) s = Some r} = set (take 1 demo_regions)"
    using ram_release_safe[OF demo_kernel_law _ _ run(1)] run(2) by simp
  then show ?thesis using run by (auto simp: GuestRam_drop_leaks_def demo_regions_def)
qed

end
