(* ===== verification/Balloon.thy ===== *)
theory Balloon
  imports Machine Guest_Memory Drain_Invariant Virtio
begin

text \<open>
  The reporting balloon, \<open>src/src/vmm/src/devices/balloon.rs\<close>. The guest reports free pages as the
  descriptors of a chain, and the device advises the host kernel to take them back. \<open>be_madvise\<close> is
  the system call on the host state \<open>'h\<close>; guest memory, the ring and the interrupt line are
  parameters, as for the other devices. The array of control ranges is the list of its filled part.
\<close>

definition REPORTING :: u64 where "REPORTING = push_bit 5 1"
definition MAX_DESCRIPTORS :: nat where "MAX_DESCRIPTORS = 256"
definition MAX_CONTROL_RANGES :: nat where "MAX_CONTROL_RANGES = 9"

definition BALLOON_SPEC :: device_spec where
  "BALLOON_SPEC = \<lparr>device_id = 5, spec_name = ''balloon'', spec_features = REPORTING, config_len = 8,
     queue_max = [256, 256, 256], snapshot = SnapshotUnsupported\<rparr>"

record ('q, 'm, 'c) balloon_context =
  bc_queues :: "('q, 'm) virt_queues"
  bc_interrupt :: "'c mmio_interrupt"

type_synonym control = "u64 \<times> nat \<times> nat"

record ('q, 'm, 'c) virtio_balloon =
  vb_actual :: u32
  vb_features :: u64
  vb_page_size :: nat
  vb_reclaim :: reclaim_policy
  vb_context :: "('q, 'm, 'c) balloon_context option"
  vb_controls :: "control list"

record ('h, 'r, 'q, 'm, 'chain, 'desc, 'c) balloon_env =
  ne_regions :: "'r region_ops"
  ne_madvise :: "'h madvise"
  ne_mem :: "('m, 'chain) mem_ops"
  ne_queue :: "('q, 'm, 'chain, 'desc) queue_ops"
  ne_line :: "'c set_line"

text \<open>\<open>page_size\<close> is the outcome of \<open>host_page_size\<close>.\<close>

definition VirtioBalloon_new ::
    "error_kind + nat \<Rightarrow> reclaim_policy \<Rightarrow> error_kind + ('q, 'm, 'c) virtio_balloon" where
  "VirtioBalloon_new page_size policy =
     (case page_size of
        Inl e \<Rightarrow> Inl e
      | Inr page \<Rightarrow> Inr \<lparr>vb_actual = 0, vb_features = 0, vb_page_size = page, vb_reclaim = policy,
          vb_context = None, vb_controls = []\<rparr>)"

definition balloon_set_features ::
    "u64 \<Rightarrow> ('q, 'm, 'c) virtio_balloon \<Rightarrow> ('q, 'm, 'c) virtio_balloon \<times> (u64 + unit)" where
  "balloon_set_features negotiated v =
     (let unsupported = negotiated AND NOT REPORTING in
      if unsupported \<noteq> 0 then (v, Inl unsupported) else (v\<lparr>vb_features := negotiated\<rparr>, Inr ()))"

definition balloon_read_config :: "u64 \<Rightarrow> nat \<Rightarrow> ('q, 'm, 'c) virtio_balloon \<Rightarrow> u8 list" where
  "balloon_read_config offset n v =
     config_bytes (put 4 (to_le_bytes 4 (vb_actual v)) (replicate 8 0)) offset n"

fun write_actual :: "u64 \<Rightarrow> nat \<Rightarrow> u8 list \<Rightarrow> u8 list \<Rightarrow> u8 list" where
  "write_actual offset index [] actual = actual"
| "write_actual offset index (byte # bytes) actual =
     write_actual offset (Suc index) bytes
       (case checked_add offset (of_nat index) of
          None \<Rightarrow> actual
        | Some address \<Rightarrow>
            if 4 \<le> address \<and> address \<le> 7 then actual[unat address - 4 := byte] else actual)"

definition balloon_write_config ::
    "u64 \<Rightarrow> u8 list \<Rightarrow> ('q, 'm, 'c) virtio_balloon \<Rightarrow> ('q, 'm, 'c) virtio_balloon" where
  "balloon_write_config offset bytes v =
     v\<lparr>vb_actual := from_le_bytes (write_actual offset 0 bytes (to_le_bytes 4 (vb_actual v)))\<rparr>"

section \<open>Activation\<close>

fun collect_controls ::
    "'r region_ops \<Rightarrow> (u64 \<times> nat) list \<Rightarrow> control list \<Rightarrow> control list \<times> (device_error + unit)" where
  "collect_controls ro [] acc = (acc, Inr ())"
| "collect_controls ro ((g, n) # rest) acc =
     (if MAX_CONTROL_RANGES \<le> length acc
      then (acc, Inl (NeedsReset ''balloon queue control ranges''))
      else if checked_add g (of_nat n) = None
      then (acc, Inl (NeedsReset ''balloon queue control range overflow''))
      else case ro_slice_at ro g n of
        None \<Rightarrow> (acc, Inl (NeedsReset ''balloon queue control region''))
      | Some host \<Rightarrow>
          (if usize_checked_add host n = None
           then (acc, Inl (NeedsReset ''balloon queue control host overflow''))
           else collect_controls ro rest (acc @ [(g, n, host)])))"

definition balloon_activate ::
    "('h, 'r, 'q, 'm, 'chain, 'desc, 'c) balloon_env \<Rightarrow> ('q, 'm) virt_queues \<Rightarrow> 'c mmio_interrupt \<Rightarrow>
     ('q, 'm, 'c) virtio_balloon \<Rightarrow> ('q, 'm, 'c) virtio_balloon \<times> (device_error + unit)" where
  "balloon_activate env vq intr v =
     (if vb_context v \<noteq> None
         \<or> VirtQueues_len vq \<noteq> 3
         \<or> \<not> VirtQueues_is_ready (ne_queue env) vq 0
         \<or> \<not> VirtQueues_is_ready (ne_queue env) vq 1
         \<or> (vb_features v AND REPORTING \<noteq> 0 \<and> \<not> VirtQueues_is_ready (ne_queue env) vq 2)
      then (v, Inl (NeedsReset ''balloon queues''))
      else case collect_controls (ne_regions env) (control_ranges (ne_queue env) vq) [] of
        (controls, Inl e) \<Rightarrow> (v\<lparr>vb_controls := controls\<rparr>, Inl e)
      | (controls, Inr _) \<Rightarrow>
          (v\<lparr>vb_controls := controls,
             vb_context := Some \<lparr>bc_queues = vq, bc_interrupt = intr\<rparr>\<rparr>, Inr ()))"

definition balloon_reset ::
    "('q, 'm, 'c) virtio_balloon \<Rightarrow> ('q, 'm, 'c) virtio_balloon \<times> (device_error + unit)" where
  "balloon_reset v =
     (v\<lparr>vb_actual := 0, vb_features := 0, vb_context := None, vb_controls := []\<rparr>, Inr ())"

section \<open>Reports\<close>

definition guest_overlap :: "control list \<Rightarrow> u64 \<Rightarrow> u64 \<Rightarrow> bool" where
  "guest_overlap controls addr e \<longleftrightarrow>
     (\<exists>(start, n, _)\<in>set controls. addr < start + of_nat n \<and> start < e)"

definition host_overlap :: "control list \<Rightarrow> reclaim_range \<Rightarrow> bool" where
  "host_overlap controls r \<longleftrightarrow>
     (\<exists>(_, n, host)\<in>set controls. rr_host_start r < host + n \<and> host < rr_host_start r + rr_len r)"

fun report_ranges ::
    "'r region_ops \<Rightarrow> control list \<Rightarrow> nat \<Rightarrow> descriptor list \<Rightarrow> reclaim_range list \<Rightarrow> bool \<Rightarrow>
     unit + reclaim_range list \<times> bool" where
  "report_ranges ro controls page [] acc terminated = Inr (acc, terminated)"
| "report_ranges ro controls page (d # ds) acc terminated =
     (if \<not> d_write_only d then Inl ()
      else case checked_add (d_addr d) (ucast (d_len d)) of
        None \<Rightarrow> Inl ()
      | Some e \<Rightarrow>
          (if guest_overlap controls (d_addr d) e then Inl ()
           else case ReclaimRange_new ro (d_addr d) (unat (d_len d)) page of
             Inl _ \<Rightarrow> Inl ()
           | Inr r \<Rightarrow>
               (if rr_len r \<noteq> 0 \<and> host_overlap controls r then Inl ()
                else if MAX_DESCRIPTORS \<le> length acc then Inl ()
                else report_ranges ro controls page ds (acc @ [r]) (\<not> d_has_next d))))"

fun reclaim_all :: "'h madvise \<Rightarrow> reclaim_policy \<Rightarrow> reclaim_range list \<Rightarrow> 'h \<Rightarrow> 'h" where
  "reclaim_all madvise policy [] h = h"
| "reclaim_all madvise policy (r # rs) h =
     reclaim_all madvise policy rs (fst (ReclaimRange_reclaim madvise policy r h))"

definition report ::
    "('h, 'r, 'q, 'm, 'chain, 'desc, 'c) balloon_env \<Rightarrow> control list \<Rightarrow> nat \<Rightarrow> reclaim_policy \<Rightarrow>
     ('m, 'chain, 'h) process" where
  "report env controls page policy = (\<lambda>h m chain.
     case mo_descriptors (ne_mem env) chain m of
       (m, ds) \<Rightarrow>
         (case report_ranges (ne_regions env) controls page ds [] False of
            Inl _ \<Rightarrow> (h, m, Inl (NeedsReset ''balloon report descriptor''))
          | Inr (found, terminated) \<Rightarrow>
              (if found = [] \<or> \<not> terminated
               then (h, m, Inl (NeedsReset ''balloon report descriptor''))
               else (reclaim_all (ne_madvise env) policy found h, m, Inr (Used 0)))))"

definition quota_request :: "('m, 'chain, 'h) process" where
  "quota_request = (\<lambda>h m chain. (h, m, Inl (NeedsReset ''reporting-only balloon quota request'')))"

text \<open>\<open>None\<close> is a drain that never ends, as in the queue facade.\<close>

definition balloon_drain ::
    "('h, 'r, 'q, 'm, 'chain, 'desc, 'c) balloon_env \<Rightarrow> ('m, 'chain, 'h) process \<Rightarrow> nat \<Rightarrow>
     'h \<Rightarrow> ('q, 'm, 'c) virtio_balloon \<Rightarrow>
     (('h \<times> ('q, 'm, 'c) virtio_balloon) \<times> (device_error + unit)) option" where
  "balloon_drain env proc index h v =
     (case vb_context v of
        None \<Rightarrow> Some ((h, v), Inl (NeedsReset ''inactive balloon''))
      | Some c \<Rightarrow>
          (case VirtQueues_drain (ne_queue env) proc index h (bc_queues c) of
             None \<Rightarrow> None
           | Some (vq, h, Inl e) \<Rightarrow> Some ((h, v\<lparr>vb_context := Some (c\<lparr>bc_queues := vq\<rparr>)\<rparr>), Inl e)
           | Some (vq, h, Inr pulse) \<Rightarrow>
               Some ((h, v\<lparr>vb_context := Some (c\<lparr>bc_queues := vq,
                   bc_interrupt := (if pulse then MmioInterrupt_raise (ne_line env) (bc_interrupt c)
                     else bc_interrupt c)\<rparr>)\<rparr>), Inr ())))"

definition balloon_on_event ::
    "('h, 'r, 'q, 'm, 'chain, 'desc, 'c) balloon_env \<Rightarrow> device_event \<Rightarrow>
     'h \<times> ('q, 'm, 'c) virtio_balloon \<Rightarrow>
     (('h \<times> ('q, 'm, 'c) virtio_balloon) \<times> (device_error + unit)) option" where
  "balloon_on_event env event = (\<lambda>(h, v).
     case event of
       BackendReady _ \<Rightarrow> Some ((h, v), Inl (Unsupported ''balloon backend event''))
     | QueueKick index \<Rightarrow>
         (if index = 2 \<and> vb_features v AND REPORTING = 0 then Some ((h, v), Inr ())
          else if vb_context v = None then Some ((h, v), Inl (NeedsReset ''inactive balloon''))
          else if index = 0 \<or> index = 1 then balloon_drain env quota_request (unat index) h v
          else if index = 2
          then balloon_drain env (report env (vb_controls v) (vb_page_size v) (vb_reclaim v)) 2 h v
          else Some ((h, v), Inl (NeedsReset ''balloon queue index''))))"

section \<open>What is reclaimed\<close>

text \<open>The \<open>madvise\<close> that also keeps a log of its calls.\<close>

type_synonym advice_call = "nat \<times> nat \<times> advice"

definition logged_madvise :: "'h madvise \<Rightarrow> ('h \<times> advice_call list) madvise" where
  "logged_madvise f = (\<lambda>a n adv (h, l). case f a n adv h of (h, r) \<Rightarrow> ((h, l @ [(a, n, adv)]), r))"

text \<open>A call that takes back whole pages of one reclaimable mapping and no byte of a control range.\<close>

definition apart :: "nat \<Rightarrow> nat \<Rightarrow> nat \<Rightarrow> nat \<Rightarrow> bool" where
  "apart a n host k \<longleftrightarrow> {a ..< a + n} \<inter> {host ..< host + k} = {}"

definition confined :: "'r region_ops \<Rightarrow> control list \<Rightarrow> nat \<Rightarrow> reclaim_policy \<Rightarrow> advice_call \<Rightarrow> bool" where
  "confined ro controls page policy c \<longleftrightarrow> (case c of (a, n, adv) \<Rightarrow>
     0 < n \<and> reclaimable ro page a n \<and> (adv = MADV_FREE \<longleftrightarrow> policy = Lazy) \<and>
     (\<forall>(_, k, host)\<in>set controls. apart a n host k))"

definition range_ok :: "'r region_ops \<Rightarrow> control list \<Rightarrow> nat \<Rightarrow> reclaim_range \<Rightarrow> bool" where
  "range_ok ro controls page r \<longleftrightarrow> rr_host_start r = rr_slice r + rr_offset r \<and>
     (0 < rr_len r \<longrightarrow> reclaimable ro page (rr_host_start r) (rr_len r) \<and>
        (\<forall>(_, k, host)\<in>set controls. apart (rr_host_start r) (rr_len r) host k))"

lemma not_host_overlap:
  "\<not> host_overlap controls r \<Longrightarrow> (g, k, host) \<in> set controls \<Longrightarrow> apart (rr_host_start r) (rr_len r) host k"
  by (fastforce simp: host_overlap_def apart_def)

lemma report_ranges_ok:
  assumes "report_ranges ro controls page ds acc t = Inr (rs, t')" "list_all (range_ok ro controls page) acc"
  shows "list_all (range_ok ro controls page) rs"
  using assms
proof (induction ds arbitrary: acc t)
  case Nil
  then show ?case by simp
next
  case (Cons d ds)
  obtain e r where ds: "ReclaimRange_new ro (d_addr d) (unat (d_len d)) page = Inr r"
    "\<not> (rr_len r \<noteq> 0 \<and> host_overlap controls r)"
    "report_ranges ro controls page ds (acc @ [r]) (\<not> d_has_next d) = Inr (rs, t')"
    using Cons.prems(1) by (auto split: if_split_asm option.split_asm sum.split_asm)
  have "range_ok ro controls page r"
    using ReclaimRange_new_Inr[OF ds(1)] ds(2) not_host_overlap[of controls r]
    by (auto simp: range_ok_def)
  then show ?case using Cons.IH[OF ds(3)] Cons.prems(2) by simp
qed

definition log_ok ::
    "'r region_ops \<Rightarrow> control list \<Rightarrow> nat \<Rightarrow> reclaim_policy \<Rightarrow> 'h \<times> advice_call list \<Rightarrow> bool" where
  "log_ok ro controls page policy hl \<longleftrightarrow> list_all (confined ro controls page policy) (snd hl)"

lemma reclaim_all_log:
  assumes "list_all (range_ok ro controls page) rs" "log_ok ro controls page policy hl"
  shows "log_ok ro controls page policy (reclaim_all (logged_madvise f) policy rs hl)"
  using assms
proof (induction rs arbitrary: hl)
  case Nil
  then show ?case by simp
next
  case (Cons r rs)
  have "log_ok ro controls page policy (fst (ReclaimRange_reclaim (logged_madvise f) policy r hl))"
    using Cons.prems
    by (cases hl; cases policy)
      (auto simp: ReclaimRange_reclaim_def logged_madvise_def log_ok_def confined_def range_ok_def
        split: prod.split)
  then show ?case using Cons by simp
qed

lemma report_keeps_log:
  assumes "ne_madvise env = logged_madvise f"
  shows "process_keeps (log_ok (ne_regions env) controls page policy) (report env controls page policy)"
proof (rule process_keepsI)
  fix s m chain s' m' r
  assume ok: "log_ok (ne_regions env) controls page policy s"
    and rep: "report env controls page policy s m chain = (s', m', r)"
  obtain m1 ds where walk: "mo_descriptors (ne_mem env) chain m = (m1, ds)"
    by (cases "mo_descriptors (ne_mem env) chain m")
  show "log_ok (ne_regions env) controls page policy s'"
  proof (cases "report_ranges (ne_regions env) controls page ds [] False")
    case (Inl u)
    then show ?thesis using ok rep walk by (simp add: report_def)
  next
    case (Inr x)
    obtain rs t where x: "x = (rs, t)" by (cases x)
    have "list_all (range_ok (ne_regions env) controls page) rs"
      using report_ranges_ok[of "ne_regions env" controls page ds "[]" False rs t] Inr x by simp
    then have "log_ok (ne_regions env) controls page policy
        (reclaim_all (ne_madvise env) policy rs s)"
      unfolding assms by (rule reclaim_all_log) (rule ok)
    then show ?thesis using ok rep walk Inr x by (auto simp: report_def split: if_split_asm)
  qed
qed

lemma quota_keeps: "process_keeps I quota_request"
  by (rule process_keepsI) (simp add: quota_request_def)

text \<open>A run of events on an active device.\<close>

fun balloon_run ::
    "('h, 'r, 'q, 'm, 'chain, 'desc, 'c) balloon_env \<Rightarrow> device_event list \<Rightarrow>
     'h \<times> ('q, 'm, 'c) virtio_balloon \<Rightarrow> ('h \<times> ('q, 'm, 'c) virtio_balloon) option" where
  "balloon_run env [] s = Some s"
| "balloon_run env (e # es) s =
     (case balloon_on_event env e s of None \<Rightarrow> None | Some (s, _) \<Rightarrow> balloon_run env es s)"

definition settings :: "('q, 'm, 'c) virtio_balloon \<Rightarrow> control list \<times> nat \<times> reclaim_policy" where
  "settings v = (vb_controls v, vb_page_size v, vb_reclaim v)"

lemma balloon_drain_keeps:
  assumes "balloon_drain env proc i h v = Some ((h', v'), r)" "process_keeps I proc" "I h"
  shows "I h' \<and> settings v' = settings v"
proof (cases "vb_context v")
  case None
  then show ?thesis using assms by (simp add: balloon_drain_def)
next
  case (Some c)
  then obtain vq h1 r1 where d: "VirtQueues_drain (ne_queue env) proc i h (bc_queues c) = Some (vq, h1, r1)"
    using assms(1) by (auto simp: balloon_drain_def split: option.split_asm)
  have "I h1" by (rule VirtQueues_drain_keeps[OF d assms(2,3)])
  then show ?thesis using assms(1) Some d
    by (auto simp: balloon_drain_def settings_def split: sum.split_asm)
qed

lemma balloon_on_event_keeps:
  assumes "ne_madvise env = logged_madvise f" "balloon_on_event env e (h, v) = Some ((h', v'), r)"
    and "log_ok (ne_regions env) (vb_controls v) (vb_page_size v) (vb_reclaim v) h"
  shows "log_ok (ne_regions env) (vb_controls v) (vb_page_size v) (vb_reclaim v) h' \<and>
    settings v' = settings v"
proof (cases e)
  case (BackendReady i)
  then show ?thesis using assms by (simp add: balloon_on_event_def)
next
  case (QueueKick i)
  consider "balloon_drain env quota_request (unat i) h v = Some ((h', v'), r)"
    | "balloon_drain env (report env (vb_controls v) (vb_page_size v) (vb_reclaim v)) 2 h v = Some ((h', v'), r)"
    | "h' = h" "v' = v"
    using assms(2) QueueKick by (auto simp: balloon_on_event_def split: if_split_asm)
  then show ?thesis
  proof cases
    case 1
    show ?thesis by (rule balloon_drain_keeps[OF 1 quota_keeps]) (rule assms(3))
  next
    case 2
    show ?thesis by (rule balloon_drain_keeps[OF 2 report_keeps_log[OF assms(1)]]) (rule assms(3))
  next
    case 3
    then show ?thesis using assms(3) by simp
  qed
qed

lemma balloon_run_keeps:
  assumes "ne_madvise env = logged_madvise f" "balloon_run env es (h, v) = Some (h', v')"
    and "log_ok (ne_regions env) (vb_controls v) (vb_page_size v) (vb_reclaim v) h"
  shows "log_ok (ne_regions env) (vb_controls v) (vb_page_size v) (vb_reclaim v) h'"
  using assms(2,3)
proof (induction es arbitrary: h v)
  case Nil
  then show ?case by simp
next
  case (Cons e es)
  obtain h1 v1 r where e: "balloon_on_event env e (h, v) = Some ((h1, v1), r)"
    and es: "balloon_run env es (h1, v1) = Some (h', v')"
    using Cons.prems(1) by (auto split: option.split_asm prod.split_asm)
  have k: "log_ok (ne_regions env) (vb_controls v) (vb_page_size v) (vb_reclaim v) h1"
    "settings v1 = settings v"
    using balloon_on_event_keeps[OF assms(1) e Cons.prems(2)] by blast+
  then have "vb_controls v1 = vb_controls v \<and> vb_page_size v1 = vb_page_size v \<and> vb_reclaim v1 = vb_reclaim v"
    by (simp add: settings_def)
  with k Cons.IH[OF es] show ?case by simp
qed

lemma collect_controls_Inr:
  assumes "collect_controls ro todo acc = (controls, Inr u)"
  shows "\<exists>xs. controls = acc @ xs \<and> map (\<lambda>(g, n, host). (g, n)) xs = todo \<and>
    (\<forall>(g, n, host)\<in>set xs. ro_slice_at ro g n = Some host)"
  using assms
proof (induction todo arbitrary: acc)
  case Nil
  then show ?case by simp
next
  case (Cons x rest)
  obtain g n where x: "x = (g, n)" by (cases x)
  obtain host where h: "ro_slice_at ro g n = Some host"
    "collect_controls ro rest (acc @ [(g, n, host)]) = (controls, Inr u)"
    using Cons.prems x by (auto split: if_split_asm option.split_asm)
  from Cons.IH[OF h(2)] obtain xs where "controls = (acc @ [(g, n, host)]) @ xs"
    "map (\<lambda>(g, n, host). (g, n)) xs = rest" "\<forall>(g, n, host)\<in>set xs. ro_slice_at ro g n = Some host"
    by blast
  then show ?case using x h(1) by (intro exI[of _ "(g, n, host) # xs"]) auto
qed

text \<open>C19. What the guest reports never costs it anything else. On any host, from an activation and over
  any events with any chains the guest may publish, every advice the device gives covers whole pages
  inside one private anonymous mapping of guest RAM, is the configured kind, and touches no byte of
  the rings and descriptor tables of the queues the device was activated with.\<close>
theorem reclaim_confined:
  assumes "ne_madvise env = logged_madvise f" "balloon_activate env vq intr v = (v1, Inr ())"
    and "balloon_run env es ((h, []), v1) = Some ((h', log), v2)"
    and "(a, n, adv) \<in> set log"
  shows "0 < n \<and> reclaimable (ne_regions env) (vb_page_size v) a n \<and>
    (adv = MADV_FREE \<longleftrightarrow> vb_reclaim v = Lazy) \<and>
    (\<forall>(g, k)\<in>set (control_ranges (ne_queue env) vq).
       \<exists>host. ro_slice_at (ne_regions env) g k = Some host \<and> apart a n host k)"
proof -
  obtain controls where col: "collect_controls (ne_regions env) (control_ranges (ne_queue env) vq) [] = (controls, Inr ())"
    and v1: "vb_controls v1 = controls" "vb_page_size v1 = vb_page_size v" "vb_reclaim v1 = vb_reclaim v"
    using assms(2) by (auto simp: balloon_activate_def split: if_split_asm prod.split_asm sum.split_asm)
  have "confined (ne_regions env) controls (vb_page_size v) (vb_reclaim v) (a, n, adv)"
    using balloon_run_keeps[OF assms(1,3)] v1 assms(4) by (simp add: log_ok_def list_all_iff)
  then have c: "0 < n" "reclaimable (ne_regions env) (vb_page_size v) a n"
    "adv = MADV_FREE \<longleftrightarrow> vb_reclaim v = Lazy" "\<forall>(g, k, host)\<in>set controls. apart a n host k"
    by (auto simp: confined_def)
  obtain xs where xs: "controls = xs" "map (\<lambda>(g, n, host). (g, n)) xs = control_ranges (ne_queue env) vq"
    "\<forall>(g, n, host)\<in>set xs. ro_slice_at (ne_regions env) g n = Some host"
    using collect_controls_Inr[OF col] by auto
  have "\<exists>host. ro_slice_at (ne_regions env) g k = Some host \<and> apart a n host k"
    if "(g, k) \<in> set (control_ranges (ne_queue env) vq)" for g k
  proof -
    obtain host where "(g, k, host) \<in> set controls"
      using \<open>(g, k) \<in> _\<close> xs(1) unfolding xs(2)[symmetric] by auto
    then show ?thesis using xs c(4) by fastforce
  qed
  then show ?thesis using c(1-3) by blast
qed

text \<open>A guest that reports three pages from the middle of one.\<close>

definition demo_balloon_env ::
    "(unit \<times> advice_call list, unit, list_queue, nat, u16, bool \<times> u16 option, unit) balloon_env" where
  "demo_balloon_env =
     \<lparr>ne_regions = \<lparr>ro_to_region_addr = (\<lambda>a. Some ((), a)), ro_slice_at = (\<lambda>a _. Some (0x70000000 + unat a)),
        ro_owned = (\<lambda>_. True), ro_file_offset = (\<lambda>_. None), ro_flags = (\<lambda>_. 0x22),
        ro_is_hugetlbfs = (\<lambda>_. Some False), ro_get_slice = (\<lambda>_ a _. Some (0x70000000 + unat a))\<rparr>,
      ne_madvise = logged_madvise (\<lambda>_ _ _ h. (h, Inr ())),
      ne_mem = \<lparr>mo_head_index = (\<lambda>c. c), mo_descriptors = (\<lambda>_ m. (m,
          [\<lparr>d_addr = 0x10800, d_len = 0x3000, d_write_only = True, d_has_next = False\<rparr>])),
        mo_reader = (\<lambda>_ m. (m, Inl ())), mo_check_range = (\<lambda>_ _ _. True),
        mo_write_slice = (\<lambda>_ _ m. (m, Inr ())), mo_read_slice = (\<lambda>_ _ m. (m, Inl ()))\<rparr>,
      ne_queue = list_queue_ops, ne_line = (\<lambda>c _ _. (c, Inr ()))\<rparr>"

definition demo_balloon :: "(list_queue, nat, unit) virtio_balloon" where
  "demo_balloon = \<lparr>vb_actual = 0, vb_features = REPORTING, vb_page_size = 0x1000, vb_reclaim = Lazy,
     vb_context = None, vb_controls = []\<rparr>"

definition demo_balloon_queues :: "(list_queue, nat) virt_queues" where
  "demo_balloon_queues = \<lparr>vq_queues = [\<lparr>lq_avail = [], lq_popped = [], lq_used = []\<rparr>,
       \<lparr>lq_avail = [], lq_popped = [], lq_used = []\<rparr>, \<lparr>lq_avail = [5], lq_popped = [], lq_used = []\<rparr>],
     vq_deferred = [[], [], []], vq_memory = 0, vq_indirect = True\<rparr>"

lemma demo_controls:
  "control_ranges list_queue_ops demo_balloon_queues =
     [(0x1000, 128), (0x2000, 22), (0x3000, 70), (0x1000, 128), (0x2000, 22), (0x3000, 70),
      (0x1000, 128), (0x2000, 22), (0x3000, 70)]"
  by (simp add: control_ranges_def demo_balloon_queues_def list_queue_ops_def)

definition demo_controls_host :: "control list" where
  "demo_controls_host = map (\<lambda>(g, k). (g, k, 0x70000000 + unat g))
     (control_ranges list_queue_ops demo_balloon_queues)"

lemma demo_balloon_activate:
  "balloon_activate demo_balloon_env demo_balloon_queues (MmioInterrupt_new () (IrqLine_new 5)) demo_balloon =
     (demo_balloon\<lparr>vb_controls := demo_controls_host,
        vb_context := Some \<lparr>bc_queues = demo_balloon_queues,
          bc_interrupt = MmioInterrupt_new () (IrqLine_new 5)\<rparr>\<rparr>, Inr ())"
proof -
  have "collect_controls (ne_regions demo_balloon_env)
      (control_ranges list_queue_ops demo_balloon_queues) [] = (demo_controls_host, Inr ())"
    unfolding demo_controls_host_def demo_controls
    by (simp add: demo_balloon_env_def MAX_CONTROL_RANGES_def checked_add_def usize_checked_add_def)
  then show ?thesis
    by (simp add: balloon_activate_def demo_balloon_env_def demo_balloon_def VirtQueues_len_def
        VirtQueues_is_ready_def get_at_def demo_balloon_queues_def list_queue_ops_def)
qed

lemma demo_report:
  "report demo_balloon_env demo_controls_host 0x1000 Lazy ((), []) 0 5 =
     (((), [(0x70011000, 0x2000, MADV_FREE)]), 0, Inr (Used 0))"
proof -
  have r: "ReclaimRange_new (ne_regions demo_balloon_env) 0x10800 0x3000 0x1000 =
     Inr \<lparr>rr_slice = 0x70010800, rr_offset = 0x800, rr_len = 0x2000, rr_host_start = 0x70011000\<rparr>"
    by (simp add: ReclaimRange_new_def demo_balloon_env_def checked_add_def backing_ok_def
        MAP_SHARED_def MAP_PRIVATE_def MAP_ANONYMOUS_def MAP_HUGETLB_def usize_checked_add_def
        interior_pages_def)
  then have "report_ranges (ne_regions demo_balloon_env) demo_controls_host 0x1000
      [\<lparr>d_addr = 0x10800, d_len = 0x3000, d_write_only = True, d_has_next = False\<rparr>] [] False =
    Inr ([\<lparr>rr_slice = 0x70010800, rr_offset = 0x800, rr_len = 0x2000, rr_host_start = 0x70011000\<rparr>], True)"
    by (simp add: checked_add_def guest_overlap_def host_overlap_def demo_controls_host_def demo_controls
        MAX_DESCRIPTORS_def)
  then show ?thesis
    by (simp add: report_def demo_balloon_env_def ReclaimRange_reclaim_def logged_madvise_def)
qed

lemma demo_balloon_run:
  "\<exists>h v. balloon_run demo_balloon_env [QueueKick 2] (((), []),
      demo_balloon\<lparr>vb_controls := demo_controls_host,
        vb_context := Some \<lparr>bc_queues = demo_balloon_queues,
          bc_interrupt = MmioInterrupt_new () (IrqLine_new 5)\<rparr>\<rparr>) =
     Some ((h, [(0x70011000, 0x2000, MADV_FREE)]), v)"
proof -
  have q: "ne_queue demo_balloon_env = list_queue_ops" by (simp add: demo_balloon_env_def)
  have "\<exists>vq. VirtQueues_drain list_queue_ops (report demo_balloon_env demo_controls_host 0x1000 Lazy) 2
      ((), []) demo_balloon_queues = Some (vq, ((), [(0x70011000, 0x2000, MADV_FREE)]), Inr True)"
    using demo_report
    by (simp add: VirtQueues_drain_def demo_balloon_queues_def get_at_def list_queue_ops_def
        drain_rounds.simps drain_round_def drain_chains.simps drain_one_def add_used_def queue_error_def
        store_queue_def)
  then show ?thesis
    by (auto simp: balloon_on_event_def balloon_drain_def demo_balloon_def REPORTING_def q)
qed

lemma reclaim_confined_witness:
  "0 < (0x2000 :: nat) \<and> reclaimable (ne_regions demo_balloon_env) 0x1000 0x70011000 0x2000 \<and>
   apart 0x70011000 0x2000 0x70001000 128"
proof -
  obtain h v2 where run: "balloon_run demo_balloon_env [QueueKick 2] ((h, []),
      demo_balloon\<lparr>vb_controls := demo_controls_host,
        vb_context := Some \<lparr>bc_queues = demo_balloon_queues,
          bc_interrupt = MmioInterrupt_new () (IrqLine_new 5)\<rparr>\<rparr>) =
     Some ((h, [(0x70011000, 0x2000, MADV_FREE)]), v2)"
    using demo_balloon_run by auto
  have env: "ne_madvise demo_balloon_env = logged_madvise (\<lambda>_ _ _ h. (h, Inr ()))"
    "ne_queue demo_balloon_env = list_queue_ops"
    "ro_slice_at (ne_regions demo_balloon_env) 0x1000 128 = Some 0x70001000"
    by (simp_all add: demo_balloon_env_def)
  have "(0x1000, 128) \<in> set (control_ranges list_queue_ops demo_balloon_queues)"
    by (simp add: demo_controls)
  then show ?thesis
    using reclaim_confined[OF env(1) demo_balloon_activate run, where a = "0x70011000" and n = "0x2000" and adv = MADV_FREE] env(2,3)
    by (auto simp: demo_balloon_def)
qed

end
