(* ===== verification/Console.thy ===== *)
theory Console
  imports Prelude "HOL-Library.Sublist"
begin

text \<open>
  The console queue of \<open>src/src/vmm/src/devices/console.rs\<close>: the serial port and the virtio console
  write into it, a worker thread takes what is pending and writes it to the host's sink. Every
  access holds the queue's lock, so the threads interleave between the operations below. The counter
  of dropped bytes is a \<open>usize\<close>, here 64 bits, that wraps as \<open>fetch_add\<close> does.
\<close>

definition DEFAULT_QUEUE_BYTES :: nat where "DEFAULT_QUEUE_BYTES = 64 * 1024"

record console_state =
  co_pending :: "u8 list"
  co_writing_len :: nat
  co_closed :: bool
  co_capacity :: nat
  co_dropped :: u64

text \<open>\<open>None\<close> is the refusal of a capacity of 0; starting the thread is the host's.\<close>

definition ConsoleWorker_spawn :: "nat \<Rightarrow> console_state option" where
  "ConsoleWorker_spawn capacity =
     (if capacity = 0 then None
      else Some \<lparr>co_pending = [], co_writing_len = 0, co_closed = False, co_capacity = capacity,
        co_dropped = 0\<rparr>)"

fun push_bytes :: "u8 list \<Rightarrow> console_state \<Rightarrow> console_state" where
  "push_bytes [] q = q"
| "push_bytes (byte # buf) q =
     (let q = (if length (co_pending q) = co_capacity q
               then q\<lparr>co_pending := tl (co_pending q), co_dropped := co_dropped q + 1\<rparr> else q)
      in push_bytes buf (q\<lparr>co_pending := co_pending q @ [byte]\<rparr>))"

definition ConsoleWriter_write :: "u8 list \<Rightarrow> console_state \<Rightarrow> console_state \<times> nat" where
  "ConsoleWriter_write buf q =
     (if co_closed q then (q\<lparr>co_dropped := co_dropped q + of_nat (length buf)\<rparr>, length buf)
      else (push_bytes buf q, length buf))"

definition ConsoleState_close :: "console_state \<Rightarrow> console_state" where
  "ConsoleState_close q = q\<lparr>co_closed := True\<rparr>"

text \<open>
  The worker's loop: \<open>worker_may_run\<close> is the condition its wait ends on, \<open>worker_take\<close> takes the batch
  (\<open>None\<close>: the thread ends), \<open>worker_done\<close> accounts for it after the sink's answer.
\<close>

definition worker_may_run :: "console_state \<Rightarrow> bool" where
  "worker_may_run q \<longleftrightarrow> \<not> (co_pending q = [] \<and> \<not> co_closed q)"

definition worker_take :: "console_state \<Rightarrow> console_state \<times> u8 list option" where
  "worker_take q =
     (if co_pending q = [] then (q, None)
      else (q\<lparr>co_pending := [], co_writing_len := length (co_pending q)\<rparr>, Some (co_pending q)))"

definition worker_done :: "bool \<Rightarrow> console_state \<Rightarrow> console_state" where
  "worker_done written q =
     (let lost = co_writing_len q; q = q\<lparr>co_writing_len := 0\<rparr> in
      if \<not> written then q\<lparr>co_dropped := co_dropped q + of_nat lost\<rparr> else q)"

text \<open>\<open>finish\<close> after its wait: \<open>exited\<close> when the worker ended in time.\<close>

definition ConsoleWorker_finish :: "bool \<Rightarrow> console_state \<Rightarrow> console_state" where
  "ConsoleWorker_finish exited q =
     (if exited then q
      else q\<lparr>co_pending := [], co_writing_len := 0,
        co_dropped := co_dropped q + of_nat (length (co_pending q) + co_writing_len q)\<rparr>)"

section \<open>Every byte is accounted for\<close>

text \<open>
  The threads, with the history that the property speaks of: every byte written, the bytes of the
  batches the sink took, the batch the worker holds, and whether \<open>finish\<close> gave up on it. The worker
  waits for bytes only while it holds no batch; \<open>finish\<close> closes the queue, and gives up only later.
\<close>

record console_sys =
  cs_queue :: console_state
  cs_written :: "u8 list"
  cs_sunk :: "u8 list"
  cs_late :: "u8 list"
  cs_batch :: "u8 list option"
  cs_ended :: bool
  cs_given_up :: bool

inductive console_step :: "console_sys \<Rightarrow> console_sys \<Rightarrow> bool" where
  guest_writes: "ConsoleWriter_write buf (cs_queue s) = (q, n) \<Longrightarrow>
    console_step s (s\<lparr>cs_queue := q, cs_written := cs_written s @ buf\<rparr>)"
| takes: "cs_batch s = None \<Longrightarrow> \<not> cs_ended s \<Longrightarrow> worker_may_run (cs_queue s) \<Longrightarrow>
    worker_take (cs_queue s) = (q, Some batch) \<Longrightarrow>
    console_step s (s\<lparr>cs_queue := q, cs_batch := Some batch\<rparr>)"
| ends: "cs_batch s = None \<Longrightarrow> \<not> cs_ended s \<Longrightarrow> worker_may_run (cs_queue s) \<Longrightarrow>
    worker_take (cs_queue s) = (q, None) \<Longrightarrow> console_step s (s\<lparr>cs_queue := q, cs_ended := True\<rparr>)"
| sinks: "cs_batch s = Some batch \<Longrightarrow>
    console_step s (s\<lparr>cs_queue := worker_done ok (cs_queue s), cs_batch := None,
      cs_sunk := cs_sunk s @ (if ok \<and> \<not> cs_given_up s then batch else []),
      cs_late := cs_late s @ (if ok \<and> cs_given_up s then batch else [])\<rparr>)"
| closes: "console_step s (s\<lparr>cs_queue := ConsoleState_close (cs_queue s)\<rparr>)"
| finishes: "co_closed (cs_queue s) \<Longrightarrow> \<not> cs_given_up s \<Longrightarrow>
    console_step s (s\<lparr>cs_queue := ConsoleWorker_finish (cs_ended s) (cs_queue s),
      cs_given_up := \<not> cs_ended s\<rparr>)"

inductive console_reachable :: "nat \<Rightarrow> console_sys \<Rightarrow> bool" for capacity where
  spawned: "ConsoleWorker_spawn capacity = Some q \<Longrightarrow>
    console_reachable capacity \<lparr>cs_queue = q, cs_written = [], cs_sunk = [], cs_late = [],
      cs_batch = None, cs_ended = False, cs_given_up = False\<rparr>"
| step: "console_reachable capacity s \<Longrightarrow> console_step s s' \<Longrightarrow> console_reachable capacity s'"

definition held :: "console_sys \<Rightarrow> u8 list" where
  "held s = (case cs_batch s of None \<Rightarrow> [] | Some batch \<Rightarrow> batch)"

text \<open>The invariant.\<close>

definition console_ok :: "nat \<Rightarrow> console_sys \<Rightarrow> bool" where
  "console_ok capacity s \<longleftrightarrow>
     co_capacity (cs_queue s) = capacity \<and> 0 < capacity \<and> length (co_pending (cs_queue s)) \<le> capacity \<and>
     co_writing_len (cs_queue s) = (if cs_given_up s then 0 else length (held s)) \<and>
     (cs_given_up s \<longrightarrow> co_closed (cs_queue s) \<and> co_pending (cs_queue s) = []) \<and>
     (cs_ended s \<longrightarrow> co_closed (cs_queue s) \<and> co_pending (cs_queue s) = [] \<and> cs_batch s = None) \<and>
     subseq (cs_sunk s @ cs_late s @ held s @ co_pending (cs_queue s)) (cs_written s) \<and>
     (\<not> cs_given_up s \<longrightarrow> cs_late s = []) \<and>
     of_nat (length (cs_written s)) =
       (of_nat (length (cs_sunk s) + co_writing_len (cs_queue s) + length (co_pending (cs_queue s))) :: u64)
       + co_dropped (cs_queue s)"

lemma subseq_drop_mid:
  assumes "subseq (a @ b @ c) w"
  shows "subseq (a @ c) w"
proof -
  have "subseq (a @ c) (a @ b @ c)"
    by (rule list_emb_append_mono[OF subseq_order.order_refl]) (rule list_emb_append2, rule subseq_order.order_refl)
  then show ?thesis using assms by (rule subseq_order.order_trans)
qed

lemma subseq_more: "subseq a w \<Longrightarrow> subseq a (w @ x)"
  by (rule list_emb_prefix)

lemma push_bytes_keeps:
  assumes "0 < co_capacity q" "length (co_pending q) \<le> co_capacity q" "subseq (front @ co_pending q) w"
    and "of_nat (length w) = (of_nat (k + length (co_pending q)) :: u64) + co_dropped q"
  shows "co_capacity (push_bytes buf q) = co_capacity q \<and> co_closed (push_bytes buf q) = co_closed q \<and>
    co_writing_len (push_bytes buf q) = co_writing_len q \<and>
    length (co_pending (push_bytes buf q)) \<le> co_capacity q \<and>
    subseq (front @ co_pending (push_bytes buf q)) (w @ buf) \<and>
    of_nat (length (w @ buf)) =
      (of_nat (k + length (co_pending (push_bytes buf q))) :: u64) + co_dropped (push_bytes buf q)"
  using assms
proof (induction buf arbitrary: q w)
  case Nil
  then show ?case by simp
next
  case (Cons byte buf)
  define q1 where "q1 = (if length (co_pending q) = co_capacity q
     then q\<lparr>co_pending := tl (co_pending q), co_dropped := co_dropped q + 1\<rparr> else q)"
  let ?q = "q1\<lparr>co_pending := co_pending q1 @ [byte]\<rparr>"
  have q1: "co_capacity q1 = co_capacity q" "co_closed q1 = co_closed q" "co_writing_len q1 = co_writing_len q"
    by (simp_all add: q1_def)
  have room: "length (co_pending q1) < co_capacity q"
    using Cons.prems(1,2) by (auto simp: q1_def)
  have sub1: "subseq (front @ co_pending q1) w"
  proof (cases "length (co_pending q) = co_capacity q")
    case True
    then obtain b rest where b: "co_pending q = b # rest" using Cons.prems(1) by (cases "co_pending q") auto
    have "subseq (front @ rest) (front @ b # rest)" by (intro list_emb_append_mono) auto
    then show ?thesis using Cons.prems(3) True b by (simp add: q1_def subseq_order.order_trans)
  next
    case False
    then show ?thesis using Cons.prems(3) by (simp add: q1_def)
  qed
  then have sub: "subseq (front @ co_pending ?q) (w @ [byte])"
    using list_emb_append_mono[OF sub1, of "[byte]" "[byte]"] by simp
  have cnt: "of_nat (length (w @ [byte])) = (of_nat (k + length (co_pending ?q)) :: u64) + co_dropped ?q"
    using Cons.prems(1,4) by (cases "co_pending q") (auto simp: q1_def algebra_simps)
  have "push_bytes (byte # buf) q = push_bytes buf ?q" by (simp add: q1_def Let_def)
  with Cons.IH[of ?q "w @ [byte]"] room sub cnt q1 Cons.prems(1) show ?case by simp
qed

lemma console_ok_step:
  assumes "console_step s s'" "console_ok capacity s"
  shows "console_ok capacity s'"
  using assms
proof (induction rule: console_step.induct)
  case (guest_writes buf s q n)
  show ?case
  proof (cases "co_closed (cs_queue s)")
    case True
    have "subseq (cs_sunk s @ cs_late s @ held s @ co_pending (cs_queue s)) (cs_written s @ buf)"
      using guest_writes(2) by (intro subseq_more) (simp add: console_ok_def)
    then show ?thesis
      using guest_writes True
      by (cases "cs_given_up s")
        (clarsimp simp: console_ok_def ConsoleWriter_write_def held_def algebra_simps)+
  next
    case False
    have open_: "\<not> cs_given_up s" "\<not> cs_ended s" using guest_writes(2) False by (auto simp: console_ok_def)
    have q: "q = push_bytes buf (cs_queue s)" using guest_writes(1) False by (simp add: ConsoleWriter_write_def)
    let ?front = "cs_sunk s @ cs_late s @ held s" and ?k = "length (cs_sunk s) + co_writing_len (cs_queue s)"
    have "0 < co_capacity (cs_queue s)" "length (co_pending (cs_queue s)) \<le> co_capacity (cs_queue s)"
      "subseq (?front @ co_pending (cs_queue s)) (cs_written s)"
      "of_nat (length (cs_written s)) =
         (of_nat (?k + length (co_pending (cs_queue s))) :: u64) + co_dropped (cs_queue s)"
      using guest_writes(2) by (simp_all add: console_ok_def)
    from push_bytes_keeps[OF this, of buf] show ?thesis
      using guest_writes(2) open_ q by (simp add: console_ok_def held_def)
  qed
next
  case (takes s q batch)
  then show ?case
    by (auto simp: console_ok_def worker_take_def held_def algebra_simps split: if_split_asm)
next
  case (ends s q)
  then show ?case
    by (auto simp: console_ok_def worker_take_def worker_may_run_def held_def split: if_split_asm)
next
  case (sinks s batch ok)
  have "subseq ((cs_sunk s @ cs_late s) @ batch @ co_pending (cs_queue s)) (cs_written s)"
    using sinks by (simp add: console_ok_def held_def)
  then have "subseq ((cs_sunk s @ cs_late s) @ co_pending (cs_queue s)) (cs_written s)"
    by (rule subseq_drop_mid)
  then show ?case using sinks
    by (cases ok; cases "cs_given_up s")
      (simp_all add: console_ok_def worker_done_def held_def Let_def algebra_simps)
next
  case (closes s)
  then show ?case by (simp add: console_ok_def ConsoleState_close_def held_def)
next
  case (finishes s)
  have all: "subseq ((cs_sunk s @ cs_late s @ held s) @ co_pending (cs_queue s) @ []) (cs_written s)"
    using finishes(3) by (simp add: console_ok_def)
  then have "subseq ((cs_sunk s @ cs_late s @ held s) @ []) (cs_written s)"
    by (rule subseq_drop_mid)
  note all this
  moreover have "cs_late s = []" using finishes by (simp add: console_ok_def)
  ultimately have "subseq (cs_sunk s @ held s @ co_pending (cs_queue s)) (cs_written s)"
    "subseq (cs_sunk s @ held s) (cs_written s)" by simp_all
  then show ?case using finishes
    by (cases "cs_ended s")
      (simp_all add: console_ok_def ConsoleWorker_finish_def held_def algebra_simps)
qed

lemma console_reachable_ok: "console_reachable capacity s \<Longrightarrow> console_ok capacity s"
proof (induction rule: console_reachable.induct)
  case (spawned q)
  then show ?case by (auto simp: ConsoleWorker_spawn_def console_ok_def held_def split: if_split_asm)
next
  case (step s s')
  then show ?case using console_ok_step by blast
qed

text \<open>C26. The console never stalls the guest and never loses count. However the guest's writes, the
  worker, a slow or failing sink and \<open>finish\<close> interleave, at most \<open>capacity\<close> bytes wait, what the sink
  took, what the worker holds and what waits are in the order the guest wrote them, and every byte
  the guest wrote is exactly one of sunk, in the worker's hands, waiting, or counted as dropped;
  once the worker has ended or \<open>finish\<close> gave up on it, every byte is sunk or counted as dropped.\<close>
theorem console_accounting:
  assumes "console_reachable capacity s"
  shows "length (co_pending (cs_queue s)) \<le> capacity \<and>
    subseq (cs_sunk s @ cs_late s @ held s @ co_pending (cs_queue s)) (cs_written s) \<and>
    (of_nat (length (cs_written s)) :: u64) =
      of_nat (length (cs_sunk s) + co_writing_len (cs_queue s) + length (co_pending (cs_queue s)))
      + co_dropped (cs_queue s) \<and>
    (cs_ended s \<or> cs_given_up s \<longrightarrow>
      (of_nat (length (cs_written s)) :: u64) = of_nat (length (cs_sunk s)) + co_dropped (cs_queue s))"
  using console_reachable_ok[OF assms] by (auto simp: console_ok_def held_def)

text \<open>A queue of two bytes: three are written, the worker takes two, and \<open>finish\<close> gives up on it.\<close>

definition demo_console :: "bool \<Rightarrow> u8 list \<Rightarrow> u64 \<Rightarrow> nat \<Rightarrow> u8 list \<Rightarrow> u8 list option \<Rightarrow> bool \<Rightarrow> console_sys" where
  "demo_console closed pending dropped writing written batch given_up =
     \<lparr>cs_queue = \<lparr>co_pending = pending, co_writing_len = writing, co_closed = closed, co_capacity = 2,
        co_dropped = dropped\<rparr>, cs_written = written, cs_sunk = [], cs_late = [], cs_batch = batch,
      cs_ended = False, cs_given_up = given_up\<rparr>"

lemma demo_console_reachable:
  "console_reachable 2 (demo_console True [] 3 0 [1, 2, 3] (Some [2, 3]) True)"
proof -
  have 0: "console_reachable 2 (demo_console False [] 0 0 [] None False)"
    using console_reachable.spawned[of 2 "cs_queue (demo_console False [] 0 0 [] None False)"]
    by (simp add: demo_console_def ConsoleWorker_spawn_def)
  have 1: "console_step (demo_console False [] 0 0 [] None False)
      (demo_console False [2, 3] 1 0 [1, 2, 3] None False)"
    using guest_writes[of "[1, 2, 3]" "demo_console False [] 0 0 [] None False"]
    by (simp add: demo_console_def ConsoleWriter_write_def Let_def)
  have 2: "console_step (demo_console False [2, 3] 1 0 [1, 2, 3] None False)
      (demo_console False [] 1 2 [1, 2, 3] (Some [2, 3]) False)"
    using takes[of "demo_console False [2, 3] 1 0 [1, 2, 3] None False"]
    by (simp add: demo_console_def worker_may_run_def worker_take_def numeral_2_eq_2)
  have 3: "console_step (demo_console False [] 1 2 [1, 2, 3] (Some [2, 3]) False)
      (demo_console True [] 1 2 [1, 2, 3] (Some [2, 3]) False)"
    using closes[of "demo_console False [] 1 2 [1, 2, 3] (Some [2, 3]) False"]
    by (simp add: demo_console_def ConsoleState_close_def)
  have 4: "console_step (demo_console True [] 1 2 [1, 2, 3] (Some [2, 3]) False)
      (demo_console True [] 3 0 [1, 2, 3] (Some [2, 3]) True)"
    using finishes[of "demo_console True [] 1 2 [1, 2, 3] (Some [2, 3]) False"]
    by (simp add: demo_console_def ConsoleWorker_finish_def)
  note step = console_reachable.step
  show ?thesis by (rule step[OF step[OF step[OF step[OF 0 1] 2] 3] 4])
qed

lemma console_accounting_witness:
  "subseq [2, 3] [1, 2, 3 :: u8] \<and> (of_nat (length [1, 2, 3 :: u8]) :: u64) = 3"
  using console_accounting[OF demo_console_reachable] by (simp add: demo_console_def held_def)

end
