(* ===== verification/Virtio_Console.thy ===== *)
theory Virtio_Console
  imports Console Guest_Memory Drain_Invariant Virtio
begin

text \<open>
  The output port of the virtio console, \<open>src/src/vmm/src/devices/virtio_console.rs\<close>. It copies the
  bytes of each transmit chain into the console queue shared with the serial port. Guest memory, the
  ring and the interrupt line are parameters, as for the other devices.
\<close>

definition VC_QUEUE_SIZE :: nat where "VC_QUEUE_SIZE = 256"
definition TX :: nat where "TX = 1"
definition CHUNK_BYTES :: nat where "CHUNK_BYTES = 4096"

definition CONSOLE_SPEC :: device_spec where
  "CONSOLE_SPEC = \<lparr>device_id = 3, spec_name = ''virtio-console'', spec_features = 0, config_len = 12,
     queue_max = [256, 256], snapshot = SnapshotUnsupported\<rparr>"

record ('q, 'm, 'c) console_context =
  vc_queues :: "('q, 'm) virt_queues"
  vc_interrupt :: "'c mmio_interrupt"

text \<open>The writer is shared, so the queue it writes to is passed beside the device.\<close>

record ('q, 'm, 'c) virtio_console =
  vc_activation :: "('q, 'm, 'c) console_context option"
  vc_broken :: bool
  vc_stopped :: bool

record ('q, 'm, 'chain, 'desc, 'c) console_env =
  ce_mem :: "('m, 'chain) mem_ops"
  ce_queue :: "('q, 'm, 'chain, 'desc) queue_ops"
  ce_line :: "'c set_line"

definition VirtioConsole_new :: "('q, 'm, 'c) virtio_console" where
  "VirtioConsole_new = \<lparr>vc_activation = None, vc_broken = False, vc_stopped = False\<rparr>"

section \<open>Copying a chain\<close>

abbreviation chain_error :: device_error where
  "chain_error \<equiv> NeedsReset ''virtio-console TX chain''"

text \<open>The first walk: every descriptor is checked before any byte is copied.\<close>

fun snapshot_chain ::
    "('m, 'chain) mem_ops \<Rightarrow> 'm \<Rightarrow> descriptor list \<Rightarrow> descriptor list \<Rightarrow> device_error + descriptor list" where
  "snapshot_chain mo m [] acc =
     (if acc = [] \<or> d_has_next (last acc) then Inl chain_error else Inr acc)"
| "snapshot_chain mo m (d # ds) acc =
     (if VC_QUEUE_SIZE \<le> length acc then Inl chain_error
      else if d_write_only d
        \<or> (unat (d_len d) \<noteq> 0 \<and> (checked_add (d_addr d) (ucast (d_len d)) = None
             \<or> \<not> mo_check_range mo m (d_addr d) (unat (d_len d))))
      then Inl chain_error
      else snapshot_chain mo m ds (acc @ [d]))"

text \<open>\<open>write_all\<close> is one call of the writer's \<open>write\<close>, which takes every byte and never fails.\<close>

function copy_descriptor ::
    "('m, 'chain) mem_ops \<Rightarrow> nat \<Rightarrow> u64 \<Rightarrow> console_state \<Rightarrow> 'm \<Rightarrow> console_state \<times> 'm \<times> (device_error + unit)" where
  "copy_descriptor mo remaining address w m =
     (if remaining = 0 then (w, m, Inr ())
      else
        let len = min remaining CHUNK_BYTES in
        case mo_read_slice mo len address m of
          (m, Inl _) \<Rightarrow> (w, m, Inl (NeedsReset ''virtio-console TX memory''))
        | (m, Inr buffer) \<Rightarrow>
            (let w = fst (ConsoleWriter_write buffer w) in
             case checked_add address (of_nat len) of
               None \<Rightarrow> (w, m, Inl (NeedsReset ''virtio-console TX memory''))
             | Some address \<Rightarrow> copy_descriptor mo (remaining - len) address w m))"
  by pat_completeness auto
termination
  by (relation "measure (\<lambda>(mo, remaining, address, w, m). remaining)") (auto simp: CHUNK_BYTES_def)

declare copy_descriptor.simps [simp del]

fun copy_descriptors ::
    "('m, 'chain) mem_ops \<Rightarrow> descriptor list \<Rightarrow> console_state \<Rightarrow> 'm \<Rightarrow> console_state \<times> 'm \<times> (device_error + unit)" where
  "copy_descriptors mo [] w m = (w, m, Inr ())"
| "copy_descriptors mo (d # ds) w m =
     (case copy_descriptor mo (unat (d_len d)) (d_addr d) w m of
        (w, m, Inl e) \<Rightarrow> (w, m, Inl e)
      | (w, m, Inr _) \<Rightarrow> copy_descriptors mo ds w m)"

definition copy_tx ::
    "('m, 'chain) mem_ops \<Rightarrow> 'chain \<Rightarrow> console_state \<Rightarrow> 'm \<Rightarrow> console_state \<times> 'm \<times> (device_error + unit)" where
  "copy_tx mo chain w m =
     (case mo_descriptors mo chain m of
        (m, ds) \<Rightarrow>
          (case snapshot_chain mo m ds [] of
             Inl e \<Rightarrow> (w, m, Inl e)
           | Inr snap \<Rightarrow> copy_descriptors mo snap w m))"

section \<open>The device\<close>

text \<open>The callback of the drain; it changes the console queue and the list of accepted heads.\<close>

definition tx_process :: "('m, 'chain) mem_ops \<Rightarrow> ('m, 'chain, console_state \<times> u16 list) process" where
  "tx_process mo = (\<lambda>(w, heads) m chain.
     let head = mo_head_index mo chain in
     if length heads = VC_QUEUE_SIZE \<or> head \<in> set heads
     then ((w, heads), m, Inl (NeedsReset ''virtio-console TX head''))
     else case copy_tx mo chain w m of
       (w, m, Inl e) \<Rightarrow> ((w, heads), m, Inl e)
     | (w, m, Inr _) \<Rightarrow> ((w, heads @ [head]), m, Inr Deferred))"

text \<open>Completing the accepted heads keeps the first error but attempts every head.\<close>

fun complete_heads ::
    "('q, 'm, 'chain, 'desc, 'c) console_env \<Rightarrow> u16 list \<Rightarrow> ('q, 'm, 'c) console_context \<Rightarrow> device_error + bool \<Rightarrow>
     ('q, 'm, 'c) console_context \<times> (device_error + bool)" where
  "complete_heads env [] c result = (c, result)"
| "complete_heads env (head # heads) c result =
     (case VirtQueues_complete (ce_queue env) TX head 0 (vc_queues c) of
        (vq, Inr True) \<Rightarrow>
          complete_heads env heads
            (c\<lparr>vc_queues := vq, vc_interrupt := MmioInterrupt_raise (ce_line env) (vc_interrupt c)\<rparr>) result
      | (vq, Inr False) \<Rightarrow> complete_heads env heads (c\<lparr>vc_queues := vq\<rparr>) result
      | (vq, Inl e) \<Rightarrow>
          complete_heads env heads (c\<lparr>vc_queues := vq\<rparr>) (if is_ok result then Inl e else result))"

text \<open>\<open>None\<close> is a drain that never ends.\<close>

definition transmit ::
    "('q, 'm, 'chain, 'desc, 'c) console_env \<Rightarrow> console_state \<times> ('q, 'm, 'c) virtio_console \<Rightarrow>
     ((console_state \<times> ('q, 'm, 'c) virtio_console) \<times> (device_error + unit)) option" where
  "transmit env = (\<lambda>(w, v).
     case vc_activation v of
       None \<Rightarrow> Some ((w, v), Inr ())
     | Some c \<Rightarrow>
         (if vc_broken v then Some ((w, v), Inl (NeedsReset ''virtio-console TX''))
          else case VirtQueues_drain (ce_queue env) (tx_process (ce_mem env)) TX (w, []) (vc_queues c) of
            None \<Rightarrow> None
          | Some (vq, (w, heads), r) \<Rightarrow>
              (case complete_heads env heads (c\<lparr>vc_queues := vq\<rparr>) r of
                 (c, result) \<Rightarrow>
                   Some ((w, v\<lparr>vc_activation := Some c, vc_broken := \<not> is_ok result\<rparr>),
                     map_sum id (\<lambda>_. ()) result))))"

definition finish_tx ::
    "('q, 'm, 'chain, 'desc, 'c) console_env \<Rightarrow> console_state \<times> ('q, 'm, 'c) virtio_console \<Rightarrow>
     ((console_state \<times> ('q, 'm, 'c) virtio_console) \<times> (device_error + unit)) option" where
  "finish_tx env = (\<lambda>(w, v).
     case (if vc_broken v then Some ((w, v), Inr ()) else transmit env (w, v)) of
       None \<Rightarrow> None
     | Some ((w, v), r) \<Rightarrow> Some ((w, v\<lparr>vc_activation := None, vc_stopped := False\<rparr>), r))"

definition console_set_features :: "u64 \<Rightarrow> u64 + unit" where
  "console_set_features negotiated = (if negotiated \<noteq> 0 then Inl negotiated else Inr ())"

definition console_read_config :: "u64 \<Rightarrow> nat \<Rightarrow> u8 list" where
  "console_read_config offset n = replicate n 0"

definition console_activate ::
    "('q, 'm, 'chain, 'desc, 'c) console_env \<Rightarrow> ('q, 'm) virt_queues \<Rightarrow> 'c mmio_interrupt \<Rightarrow>
     ('q, 'm, 'c) virtio_console \<Rightarrow> ('q, 'm, 'c) virtio_console \<times> (device_error + unit)" where
  "console_activate env vq intr v =
     (if vc_activation v \<noteq> None \<or> \<not> VirtQueues_is_ready (ce_queue env) vq TX
      then (v, Inl (NeedsReset ''virtio-console activation''))
      else (v\<lparr>vc_activation := Some \<lparr>vc_queues = vq, vc_interrupt = intr\<rparr>, vc_broken := False,
              vc_stopped := False\<rparr>, Inr ()))"

definition console_reset :: "('q, 'm, 'c) virtio_console \<Rightarrow> ('q, 'm, 'c) virtio_console" where
  "console_reset v = v\<lparr>vc_activation := None, vc_broken := False, vc_stopped := False\<rparr>"

definition console_quiesce :: "('q, 'm, 'c) virtio_console \<Rightarrow> ('q, 'm, 'c) virtio_console" where
  "console_quiesce v = v\<lparr>vc_stopped := True\<rparr>"

definition console_on_event ::
    "('q, 'm, 'chain, 'desc, 'c) console_env \<Rightarrow> device_event \<Rightarrow> console_state \<times> ('q, 'm, 'c) virtio_console \<Rightarrow>
     ((console_state \<times> ('q, 'm, 'c) virtio_console) \<times> (device_error + unit)) option" where
  "console_on_event env event = (\<lambda>(w, v).
     if event = QueueKick (of_nat TX) \<and> \<not> vc_stopped v then transmit env (w, v)
     else Some ((w, v), Inr ()))"

end
