(* ===== verification/Platform.thy ===== *)
theory Platform
  imports Chipset Machine Blk Balloon Virtio_Console
begin

text \<open>
  The devices of a virtual machine and where they sit: \<open>add_all\<close> and \<open>add_slot_device\<close>
  (\<open>src/src/vmm/src/devices/mod.rs\<close>), the legacy platform (\<open>devices/x86_64.rs\<close>), the serial port
  (\<open>devices/serial.rs\<close>), the keyboard controller (\<open>devices/i8042.rs\<close>), \<open>add_disk\<close>
  (\<open>virtio/blk/mod.rs\<close>), \<open>balloon::add\<close> and \<open>mmio::add_device\<close>.

  The UART and the controller themselves are the crate \<open>vm_superio\<close>, parameters here; opening a disk
  image and creating a balloon are host calls, parameters that give the device or the error.
\<close>

section \<open>The serial port\<close>

datatype uart_error = UartFullFifo | UartIO | UartTrigger vmm_error

record 'u uart_ops =
  ua_read :: "'u \<Rightarrow> u8 \<Rightarrow> 'u \<times> u8"
  ua_write :: "'u \<Rightarrow> u8 \<Rightarrow> u8 \<Rightarrow> 'u \<times> (uart_error + unit)"

record 'u serial =
  uart :: 'u
  serial_sent :: "event list"
  irq_failed :: bool

definition Serial8250_new :: "'u \<Rightarrow> event list \<Rightarrow> 'u serial" where
  "Serial8250_new u sent = \<lparr>uart = u, serial_sent = sent, irq_failed = False\<rparr>"

definition Serial8250_read :: "'u uart_ops \<Rightarrow> 'u serial \<Rightarrow> u64 \<Rightarrow> u8 list \<Rightarrow> 'u serial \<times> u8 list" where
  "Serial8250_read uo s offset data =
     (case data of
        [_] \<Rightarrow> (let (u, v) = ua_read uo (uart s) (ucast offset) in (s\<lparr>uart := u\<rparr>, [v]))
      | _ \<Rightarrow> (s, replicate (length data) UNCLAIMED_READ))"

definition Serial8250_write :: "'u uart_ops \<Rightarrow> 'u serial \<Rightarrow> u64 \<Rightarrow> u8 list \<Rightarrow> 'u serial" where
  "Serial8250_write uo s offset data =
     (case data of
        [v] \<Rightarrow>
          (case ua_write uo (uart s) (ucast offset) v of
             (u, Inl (UartTrigger e)) \<Rightarrow>
               (if irq_failed s then s\<lparr>uart := u\<rparr>
                else s\<lparr>uart := u, irq_failed := True, serial_sent := serial_sent s @ [DeviceFailed e]\<rparr>)
           | (u, _) \<Rightarrow> s\<lparr>uart := u\<rparr>)
      | _ \<Rightarrow> s)"

section \<open>The keyboard controller\<close>

text \<open>The last component of a controller write says whether it called its reset trigger.\<close>

record 'k i8042_ops =
  kb_read :: "'k \<Rightarrow> u8 \<Rightarrow> 'k \<times> u8"
  kb_write :: "'k \<Rightarrow> u8 \<Rightarrow> u8 \<Rightarrow> 'k \<times> bool"

record 'k i8042 =
  controller :: 'k
  kb_sent :: "event list"
  reset_sent :: bool

definition I8042_new :: "'k \<Rightarrow> event list \<Rightarrow> 'k i8042" where
  "I8042_new k sent = \<lparr>controller = k, kb_sent = sent, reset_sent = False\<rparr>"

definition ResetTrigger_trigger :: "'k i8042 \<Rightarrow> 'k i8042" where
  "ResetTrigger_trigger s =
     (if reset_sent s then s else s\<lparr>reset_sent := True, kb_sent := kb_sent s @ [GuestReset]\<rparr>)"

definition I8042_read :: "'k i8042_ops \<Rightarrow> 'k i8042 \<Rightarrow> u64 \<Rightarrow> u8 list \<Rightarrow> 'k i8042 \<times> u8 list" where
  "I8042_read ko s offset data =
     (let (k, v) = kb_read ko (controller s) (ucast offset)
      in (s\<lparr>controller := k\<rparr>, replicate (length data) v))"

definition I8042_write :: "'k i8042_ops \<Rightarrow> 'k i8042 \<Rightarrow> u64 \<Rightarrow> u8 list \<Rightarrow> 'k i8042" where
  "I8042_write ko s offset data =
     (case data of
        [v] \<Rightarrow>
          (let (k, triggered) = kb_write ko (controller s) (ucast offset) v;
               s = s\<lparr>controller := k\<rparr>
           in if triggered then ResetTrigger_trigger s else s)
      | _ \<Rightarrow> s)"

section \<open>Devices on the buses\<close>

datatype ('u, 'k, 't) platform_device =
  Com1 "'u serial" | Keyboard "'k i8042" | VirtioMmio 't

fun platform_read where
  "platform_read uo ko env (Com1 s) offset data =
     (let (s, data) = Serial8250_read uo s offset data in (Com1 s, data))"
| "platform_read uo ko env (Keyboard s) offset data =
     (let (s, data) = I8042_read ko s offset data in (Keyboard s, data))"
| "platform_read uo ko env (VirtioMmio t) offset data =
     (let (t, data) = MmioTransport_read env t offset data in (VirtioMmio t, data))"

fun platform_write where
  "platform_write uo ko env (Com1 s) offset data = Com1 (Serial8250_write uo s offset data)"
| "platform_write uo ko env (Keyboard s) offset data = Keyboard (I8042_write ko s offset data)"
| "platform_write uo ko env (VirtioMmio t) offset data = VirtioMmio (MmioTransport_write env t offset data)"

definition platform_bus_ops ::
    "'u uart_ops \<Rightarrow> 'k i8042_ops \<Rightarrow> ('d, 'w, 'g, 'c, 'q, 'm, 'chain, 'desc) mmio_env \<Rightarrow>
     ('u, 'k, ('d, 'w, 'c, 'm) transport) platform_device bus_device_ops" where
  "platform_bus_ops uo ko env = \<lparr>dev_read = platform_read uo ko env, dev_write = platform_write uo ko env\<rparr>"

text \<open>
  Every device fills exactly the buffer it is given, the law of \<open>bus_device\<close>: the serial port and the
  keyboard controller always, a transport when its device fills the buffer of a configuration read.
\<close>

locale config_space =
  fixes env :: "('d, 'w, 'g, 'c, 'q, 'm, 'chain, 'desc) mmio_env"
  assumes config_length: "length (fst (snd (vd_read_config (e_device env) dev off buf))) = length buf"
begin

lemma config_read_length: "length (snd (read_config_space env off buf t)) = length buf"
  using config_length[of "t_device t" off buf]
  by (auto simp: read_config_space_def split: prod.split sum.split)

lemma transport_read_length: "length (snd (MmioTransport_read env t off buf)) = length buf"
proof -
  have "length (snd (MmioTransport_read env t off buf)) = length buf" if "length buf = 8"
    using that config_read_length[of _ "take 4 buf"] config_read_length[of _ "drop 4 buf"]
    by (auto simp: MmioTransport_read_def Let_def split_def config_read_length)
  then show ?thesis
    by (auto simp: MmioTransport_read_def Let_def config_read_length)
qed

end

lemma serial_read_length: "length (snd (Serial8250_read uo s off buf)) = length buf"
  by (auto simp: Serial8250_read_def split: list.split prod.split)

lemma i8042_read_length: "length (snd (I8042_read ko s off buf)) = length buf"
  by (simp add: I8042_read_def split: prod.split)

lemma platform_read_length:
  assumes "config_space env"
  shows "length (snd (platform_read uo ko env d off buf)) = length buf"
  using serial_read_length[of uo _ off buf] i8042_read_length[of ko _ off buf]
    config_space.transport_read_length[OF assms, of _ off buf]
  by (cases d) (simp_all add: split_def Let_def)

sublocale config_space \<subseteq> platform: bus_device "platform_bus_ops uo ko env" for uo ko
  by unfold_locales (simp add: platform_bus_ops_def platform_read_length config_space_axioms)

text \<open>
  The devices' own configuration reads keep the law. \<open>reads f\<close> is the trait's method over a device
  whose read never fails and changes nothing.
\<close>

definition reads where
  "reads f = (\<lambda>dev off buf. (dev, f off (length buf) dev :: u8 list, Inr () :: device_error + unit))"

definition with_reads where
  "with_reads env f = env\<lparr>e_device := (e_device env)\<lparr>vd_read_config := reads f\<rparr>\<rparr>"

interpretation balloon_config: config_space "with_reads env balloon_read_config" for env
  by unfold_locales (simp add: with_reads_def reads_def balloon_read_config_def)

interpretation blk_config: config_space "with_reads env blk_read_config" for env
  by unfold_locales (simp add: with_reads_def reads_def blk_read_config_def BlkConfig_read_def)

interpretation console_config: config_space "with_reads env (\<lambda>off n dev. console_read_config off n)" for env
  by unfold_locales (simp add: with_reads_def reads_def console_read_config_def)

lemma blk_machine_read_length:
  "length (snd (snd (Bus_read (platform_bus_ops uo ko (with_reads env blk_read_config)) b ds a buf))) = length buf"
  by (rule blk_config.platform.Bus_read_length)

section \<open>The legacy platform\<close>

definition COM1 :: u64 where "COM1 = 0x3f8"
definition COM1_GSI :: u32 where "COM1_GSI = 4"
definition I8042_DATA :: u64 where "I8042_DATA = 0x60"
definition I8042_COMMAND :: u64 where "I8042_COMMAND = 0x64"

definition reserved_windows :: "(bus_kind \<times> u64 \<times> u64 \<times> string) list" where
  "reserved_windows =
     [(Pio, 0x20, 2, ''in-kernel PIC''), (Pio, 0xa0, 2, ''in-kernel PIC''), (Pio, 0x4d0, 2, ''in-kernel PIC''),
      (Pio, 0x40, 4, ''in-kernel PIT''), (Pio, 0x61, 1, ''in-kernel PIT''),
      (Mmio, 0xfec00000, 0x1000, ''in-kernel IOAPIC''), (Mmio, 0xfee00000, 0x1000, ''in-kernel local APIC'')]"

text \<open>\<open>new_uart line\<close> is \<open>Serial::new\<close> over the line and the console writer.\<close>

record ('u, 'k, 'd, 'w, 'c, 'm, 'ws) platform_env =
  pf_uart :: "irq_line \<Rightarrow> 'u"
  pf_keyboard :: 'k
  pf_open_disk :: "disk_config \<Rightarrow> error_kind + 'd"
  pf_new_balloon :: "reclaim_policy \<Rightarrow> error_kind + 'd"
  pf_add_worker :: "'d \<Rightarrow> 'c mmio_interrupt \<Rightarrow> 'ws \<Rightarrow> 'w \<times> 'ws"
  pf_irq_chip :: 'c
  pf_memory :: 'm

definition com1_ctor ::
    "('u, 'k, 'd, 'w, 'c, 'm, 'ws) platform_env \<Rightarrow> ('u, 'k, ('d, 'w, 'c, 'm) transport) platform_device ctor" where
  "com1_ctor pf r =
     (let r = Resources_pio COM1 8 r; (line, r) = Resources_line COM1_GSI r
      in (Inr (Com1 (Serial8250_new (pf_uart pf line) [])), r))"

definition i8042_ctor ::
    "('u, 'k, 'd, 'w, 'c, 'm, 'ws) platform_env \<Rightarrow> ('u, 'k, ('d, 'w, 'c, 'm) transport) platform_device ctor" where
  "i8042_ctor pf r =
     (let r = Resources_pio I8042_DATA 1 r; r = Resources_pio_with_offset I8042_COMMAND 1 4 r
      in (Inr (Keyboard (I8042_new (pf_keyboard pf) [])), r))"

definition add_legacy_devices where
  "add_legacy_devices pf b =
     (let b = fold (\<lambda>(k, base, len, owner). ChipsetBuilder_reserve k base len owner) reserved_windows b in
      case ChipsetBuilder_add ''com1'' (com1_ctor pf) b of
        Inl e \<Rightarrow> Inl e
      | Inr b \<Rightarrow> ChipsetBuilder_add ''i8042'' (i8042_ctor pf) b)"

section \<open>The virtio devices\<close>

text \<open>
  The state the calls thread: the slots taken, the slots in use, the VM's workers and the builder.
\<close>

record ('d, 'ws) platform =
  p_taken :: u32
  p_used :: "mmio_slot list"
  p_workers :: 'ws
  p_builder :: "'d builder"

definition virtio_ctor ::
    "('u, 'k, 'd, 'w, 'c, 'm, 'ws) platform_env \<Rightarrow> ('d, 'w, 'g, 'c, 'q, 'm, 'chain, 'desc) mmio_env \<Rightarrow>
     mmio_slot \<Rightarrow> 'd \<Rightarrow> 'ws \<Rightarrow> ('u, 'k, ('d, 'w, 'c, 'm) transport) platform_device ctor" where
  "virtio_ctor pf env slot dev ws r =
     (let r = Resources_mmio (slot_base slot) MMIO_WINDOW_LEN r;
          (line, r) = Resources_line (slot_gsi slot) r;
          intr = MmioInterrupt_new (pf_irq_chip pf) line;
          (w, ws) = pf_add_worker pf dev intr ws
      in (map_sum id VirtioMmio (MmioTransport_new env dev intr (pf_memory pf) w []), r))"

definition add_device where
  "add_device pf env name slot dev p =
     (let intr = MmioInterrupt_new (pf_irq_chip pf) (IrqLine_new (slot_gsi slot));
          ws = snd (pf_add_worker pf dev intr (p_workers p))
      in case ChipsetBuilder_add name (virtio_ctor pf env slot dev (p_workers p)) (p_builder p) of
        Inl e \<Rightarrow> Inl e
      | Inr b \<Rightarrow> Inr (p\<lparr>p_workers := ws, p_builder := b\<rparr>))"

definition CHIPSET_NAMES :: "string list" where
  "CHIPSET_NAMES = [''virtio-blk0'', ''virtio-blk1'', ''virtio-blk2'', ''virtio-blk3'', ''virtio-blk4'',
     ''virtio-blk5'', ''virtio-blk6'', ''virtio-blk7'']"

definition add_disk where
  "add_disk pf env disk index slot p =
     (if length CHIPSET_NAMES \<le> index then Inl (InvalidDiskCount (index + 1))
      else case pf_open_disk pf disk of
        Inl e \<Rightarrow> Inl (OpenDisk (disk_path disk) e)
      | Inr dev \<Rightarrow> add_device pf env (CHIPSET_NAMES ! index) slot dev p)"

definition balloon_add where
  "balloon_add pf env slot policy p =
     (case pf_new_balloon pf policy of
        Inl e \<Rightarrow> Inl (CreateBalloon e)
      | Inr dev \<Rightarrow> add_device pf env (spec_name BALLOON_SPEC) slot dev p)"

definition add_slot_device ::
    "(mmio_slot \<Rightarrow> ('d, 'ws) platform \<Rightarrow> vmm_error + ('d, 'ws) platform) \<Rightarrow> ('d, 'ws) platform \<Rightarrow>
     vmm_error + ('d, 'ws) platform" where
  "add_slot_device attach p =
     (case Slots_take (p_taken p) of
        (taken, Inl e) \<Rightarrow> Inl e
      | (taken, Inr slot) \<Rightarrow>
          (case attach slot (p\<lparr>p_taken := taken\<rparr>) of
             Inl e \<Rightarrow> Inl e
           | Inr p \<Rightarrow> Inr (p\<lparr>p_used := p_used p @ [slot]\<rparr>)))"

fun add_disks where
  "add_disks pf env index [] p = Inr p"
| "add_disks pf env index (disk # rest) p =
     (case add_slot_device (add_disk pf env disk index) p of
        Inl e \<Rightarrow> Inl e
      | Inr p \<Rightarrow> add_disks pf env (Suc index) rest p)"

definition default_reclaim :: reclaim_policy where "default_reclaim = Immediate"

text \<open>A failure drops the builder, the workers and the configuration.\<close>

definition add_all where
  "add_all pf env c ws b =
     (case add_legacy_devices pf b of
        Inl e \<Rightarrow> Inl e
      | Inr b \<Rightarrow>
          (case add_disks pf env 0 (disks c) \<lparr>p_taken = 0, p_used = [], p_workers = ws, p_builder = b\<rparr> of
             Inl e \<Rightarrow> Inl e
           | Inr p \<Rightarrow>
               (case add_slot_device (\<lambda>slot. balloon_add pf env slot default_reclaim) p of
                  Inl e \<Rightarrow> Inl e
                | Inr p \<Rightarrow>
                    (case announce (cmdline c) (p_used p) of
                       (line, Inl e) \<Rightarrow> Inl e
                     | (line, Inr _) \<Rightarrow> Inr (p, c\<lparr>cmdline := line\<rparr>)))))"

section \<open>Where everything sits\<close>

definition slot_at :: "nat \<Rightarrow> mmio_slot" where
  "slot_at i = \<lparr>slot_base = WINDOW_START + of_nat i * MMIO_WINDOW_LEN, slot_gsi = FIRST_GSI + of_nat i\<rparr>"

definition window :: "string \<Rightarrow> nat \<Rightarrow> owned_claim" where
  "window name i = (Mmio, slot_base (slot_at i), MMIO_WINDOW_LEN, name, Some (i + 2, 0))"

definition legacy_claims :: "owned_claim list" where
  "legacy_claims = map (\<lambda>(k, base, len, owner). (k, base, len, owner, None)) reserved_windows @
     [(Pio, COM1, 8, ''com1'', Some (0, 0)), (Pio, I8042_DATA, 1, ''i8042'', Some (1, 0)),
      (Pio, I8042_COMMAND, 1, ''i8042'', Some (1, 4))]"

definition windows :: "string list \<Rightarrow> owned_claim list" where
  "windows names = legacy_claims @ map2 window names [0..<length names]"

definition lines :: "nat \<Rightarrow> u32 list" where
  "lines k = COM1_GSI # map (\<lambda>i. slot_gsi (slot_at i)) [0..<k]"

text \<open>The state of the build after the devices \<open>names\<close> have their slots.\<close>

definition placed :: "string list \<Rightarrow> ('d, 'ws) platform \<Rightarrow> bool" where
  "placed names p \<longleftrightarrow>
     built (windows names) (lines (length names)) (p_builder p) \<and>
     length (devices (p_builder p)) = length names + 2 \<and>
     p_taken p = of_nat (length names) \<and> p_used p = map slot_at [0..<length names]"

lemma windows_snoc: "windows (names @ [name]) = windows names @ [window name (length names)]"
  by (simp add: windows_def)

lemma window_in:
  assumes "i < length names"
  shows "window (names ! i) i \<in> set (windows names)"
proof -
  have "map2 window names [0..<length names] ! i = window (names ! i) i" using assms by simp
  then have "window (names ! i) i \<in> set (map2 window names [0..<length names])"
    using assms nth_mem[of i "map2 window names [0..<length names]"] by simp
  then show ?thesis by (simp add: windows_def)
qed

lemma lines_Suc: "lines (Suc k) = lines k @ [slot_gsi (slot_at k)]"
  by (simp add: lines_def)

lemma reserve_devices:
  "devices (fold (\<lambda>(k, base, len, owner). ChipsetBuilder_reserve k base len owner) rs b) = devices b"
  by (induction rs arbitrary: b) (auto simp: ChipsetBuilder_reserve_def)

lemma add_devices:
  assumes "ChipsetBuilder_add name ctor b = Inr b'"
  shows "length (devices b') = Suc (length (devices b))"
proof -
  have "devices (fold (insert_line name) ls x) = devices x" for ls and x :: "'a builder"
    by (induction ls arbitrary: x) simp_all
  moreover have "devices (fold (\<lambda>c. insert_range c name (f c)) cs x) = devices x" for f cs and x :: "'a builder"
    by (induction cs arbitrary: x) simp_all
  ultimately show ?thesis
    using assms by (auto simp: ChipsetBuilder_add_def Let_def split: prod.split_asm sum.split_asm)
qed

lemma legacy_built:
  "\<exists>b. add_legacy_devices pf ChipsetBuilder_new = Inr b \<and> built (windows []) (lines 0) b \<and>
     length (devices b) = 2"
proof -
  let ?ops = "map (\<lambda>(k, base, len, owner). Reserve k base len owner) reserved_windows @
    [Add ''com1'' (com1_ctor pf), Add ''i8042'' (i8042_ctor pf)]"
  obtain b where b: "add_legacy_devices pf ChipsetBuilder_new = Inr b"
    by (simp add: add_legacy_devices_def ChipsetBuilder_add_def com1_ctor_def i8042_ctor_def Let_def
        Resources_line_def)
  have run: "builder_run ?ops ChipsetBuilder_new = Inr b"
    using b by (simp add: add_legacy_devices_def reserved_windows_def split: sum.split_asm)
  have claims: "all_claims 0 ?ops = (windows [], lines 0)"
    by (simp add: reserved_windows_def com1_ctor_def i8042_ctor_def Let_def Resources_line_def
        Resources_pio_def Resources_pio_with_offset_def windows_def legacy_claims_def lines_def claim_of_def)
  have "length (devices b) = 2"
    using b by (auto simp: add_legacy_devices_def reserve_devices ChipsetBuilder_new_def
        dest!: add_devices split: sum.split_asm)
  moreover have "built ([] @ windows []) ([] @ lines 0) b"
    by (rule built_run[OF built_new run]) (simp add: ChipsetBuilder_new_def claims)
  ultimately show ?thesis using b by auto
qed

lemma Slots_take_at:
  assumes "k < 19"
  shows "Slots_take (of_nat k) = (of_nat (Suc k), Inr (slot_at k))"
proof -
  have "unat (of_nat k :: u32) = k" using assms by (simp add: unat_of_nat take_bit_nat_eq_self)
  then have "\<not> Slots_CAPACITY \<le> of_nat k"
    using assms by (simp add: Slots_CAPACITY_def LAST_GSI_def FIRST_GSI_def word_le_nat_alt)
  moreover have "(ucast (of_nat k :: u32) :: u64) = of_nat k"
    using \<open>unat (of_nat k :: u32) = k\<close> by (metis of_nat_unat)
  ultimately show ?thesis by (simp add: Slots_take_def slot_at_def)
qed

lemma add_device_placed:
  assumes "placed names p" "add_device pf env name (slot_at (length names)) dev (p\<lparr>p_taken := t\<rparr>) = Inr p'"
    "t = of_nat (Suc (length names))"
  shows "placed (names @ [name]) (p'\<lparr>p_used := p_used p' @ [slot_at (length names)]\<rparr>)"
proof -
  let ?k = "length names"
  let ?x = "Add name (virtio_ctor pf env (slot_at ?k) dev (p_workers p))"
  obtain b where b: "builder_step ?x (p_builder p) = Inr b"
    and p': "p_builder p' = b" "p_taken p' = t" "p_used p' = p_used p"
    using assms(2) by (auto simp: add_device_def Let_def split: sum.split_asm)
  have built: "built (windows names) (lines ?k) (p_builder p)" and dl: "length (devices (p_builder p)) = ?k + 2"
    using assms(1) by (simp_all add: placed_def)
  have "op_claims (length (devices (p_builder p))) ?x =
      ([window name ?k], [slot_gsi (slot_at ?k)], Suc (?k + 2))"
    by (simp add: dl virtio_ctor_def Let_def Resources_mmio_def Resources_line_def window_def claim_of_def
        split: prod.split)
  from built_step[OF built b this] show ?thesis
    using assms(1,3) p' by (simp add: placed_def windows_snoc lines_Suc)
qed

definition build_error :: "vmm_error \<Rightarrow> bool" where
  "build_error e \<longleftrightarrow> (\<exists>path k. e = OpenDisk path k) \<or> (\<exists>k. e = CreateBalloon k) \<or>
     (\<exists>name reason. e = VirtioDevice name reason) \<or> (\<exists>reason. e = InvalidCommandLine reason)"

lemma add_device_error:
  "add_device pf env name slot dev p = Inl e \<Longrightarrow> build_error e"
  by (auto simp: add_device_def ChipsetBuilder_add_def virtio_ctor_def MmioTransport_new_def Let_def
      build_error_def map_sum_def split: prod.split_asm sum.split_asm if_split_asm)

lemma build_error_simps [simp]:
  "build_error (OpenDisk path k)" "build_error (CreateBalloon k)" "build_error (InvalidCommandLine reason)"
  "\<not> build_error (ChipsetConflicts cs)" "\<not> build_error VirtioSlotsExhausted" "\<not> build_error (InvalidDiskCount n)"
  by (simp_all add: build_error_def)

text \<open>An attachment that ends in \<open>add_device\<close>, under the chipset name \<open>name\<close>.\<close>

definition attaches where
  "attaches pf env name attach \<longleftrightarrow>
     (\<forall>slot p. case attach slot p of
        Inl e \<Rightarrow> build_error e
      | Inr p' \<Rightarrow> \<exists>dev. add_device pf env name slot dev p = Inr p')"

lemma add_disk_attaches:
  "index < 8 \<Longrightarrow> attaches pf env (CHIPSET_NAMES ! index) (add_disk pf env disk index)"
  by (auto simp: attaches_def add_disk_def dest: add_device_error split: sum.split)
    (simp add: CHIPSET_NAMES_def)

lemma balloon_attaches:
  "attaches pf env (spec_name BALLOON_SPEC) (\<lambda>slot. balloon_add pf env slot policy)"
  by (auto simp: attaches_def balloon_add_def dest: add_device_error split: sum.split)

lemma add_slot_device_placed:
  assumes at: "attaches pf env name attach" and p: "placed names p" and k: "length names < 19"
  shows "case add_slot_device attach p of
      Inl e \<Rightarrow> build_error e
    | Inr p' \<Rightarrow> placed (names @ [name]) p'"
proof -
  let ?k = "length names" and ?t = "of_nat (Suc (length names)) :: u32"
  have take: "Slots_take (p_taken p) = (?t, Inr (slot_at ?k))"
    using Slots_take_at[OF k] p by (simp add: placed_def)
  show ?thesis
  proof (cases "attach (slot_at ?k) (p\<lparr>p_taken := ?t\<rparr>)")
    case (Inl e)
    then have "build_error e" using at by (auto simp: attaches_def split: sum.split_asm dest!: spec)
    then show ?thesis using Inl take by (simp add: add_slot_device_def del: of_nat_Suc)
  next
    case (Inr p')
    then obtain dev where "add_device pf env name (slot_at ?k) dev (p\<lparr>p_taken := ?t\<rparr>) = Inr p'"
      using at by (fastforce simp: attaches_def split: sum.split_asm)
    from add_device_placed[OF p this refl] show ?thesis
      using Inr take by (simp add: add_slot_device_def del: of_nat_Suc)
  qed
qed

lemma add_disks_placed:
  assumes "placed names p" "length names + length ds \<le> 8"
  shows "case add_disks pf env (length names) ds p of
      Inl e \<Rightarrow> build_error e
    | Inr p' \<Rightarrow> placed (names @ map (nth CHIPSET_NAMES) [length names..<length names + length ds]) p'"
  using assms
proof (induction ds arbitrary: names p)
  case Nil
  then show ?case by simp
next
  case (Cons d ds)
  let ?k = "length names" and ?name = "CHIPSET_NAMES ! length names"
  have k: "?k < 8" using Cons.prems(2) by simp
  note step = add_slot_device_placed[OF add_disk_attaches[OF k, of pf env d] Cons.prems(1)]
  show ?case
  proof (cases "add_slot_device (add_disk pf env d ?k) p")
    case (Inl e)
    then show ?thesis using step k by simp
  next
    case (Inr p')
    then have "placed (names @ [?name]) p'" using step k by simp
    from Cons.IH[OF this] Cons.prems(2) Inr show ?thesis
      by (simp add: upt_conv_Cons[of ?k] del: upt_Suc split: sum.split_asm)
  qed
qed

section \<open>The map has no conflict\<close>

lemma slot_base_unat: "i < 19 \<Longrightarrow> unat (slot_base (slot_at i)) = 0xd0000000 + 4096 * i"
proof -
  assume i: "i < 19"
  then have n: "unat (of_nat i :: u64) = i" by (simp add: unat_of_nat take_bit_nat_eq_self)
  have m: "unat (of_nat i * MMIO_WINDOW_LEN) = 4096 * i"
    using i by (simp add: unat_mult_fits n MMIO_WINDOW_LEN_def)
  show ?thesis using i m
    by (simp add: slot_at_def unat_add_fits WINDOW_START_def)
qed

lemma slot_gsi_unat: "i < 19 \<Longrightarrow> unat (slot_gsi (slot_at i)) = 5 + i"
  by (simp add: slot_at_def FIRST_GSI_def unat_add_fits unat_of_nat take_bit_nat_eq_self)

lemma window_addrs:
  "i < 19 \<Longrightarrow> claim_addrs (window name i) = {0xd0000000 + 4096 * i ..< 0xd0001000 + 4096 * i}"
  "i < 19 \<Longrightarrow> claim_valid (window name i)"
  by (simp_all add: claim_addrs_def claim_valid_def window_def slot_base_unat MMIO_WINDOW_LEN_def)

lemma legacy_free: "ranges_free legacy_claims"
  by (simp add: ranges_free_def legacy_claims_def reserved_windows_def COM1_def I8042_DATA_def
      I8042_COMMAND_def claim_valid_def claims_clash_def claim_addrs_def)

lemma legacy_mmio: "c \<in> set legacy_claims \<Longrightarrow> fst c = Mmio \<Longrightarrow> claim_addrs c \<inter> {..<0xfec00000} = {}"
  by (auto simp: legacy_claims_def reserved_windows_def claim_addrs_def)

lemma windows_free: "length names \<le> 19 \<Longrightarrow> ranges_free (windows names)"
proof (induction names rule: rev_induct)
  case Nil
  then show ?case by (simp add: windows_def legacy_free)
next
  case (snoc name names)
  let ?k = "length names"
  have k: "?k < 19" using snoc.prems by simp
  have "\<not> claims_clash c (window name ?k)" if c: "c \<in> set (windows names)" for c
  proof (cases "c \<in> set legacy_claims")
    case True
    have "claim_addrs (window name ?k) \<subseteq> {..<0xfec00000}"
      using k by (auto simp: window_addrs(1))
    moreover have "fst (window name ?k) = Mmio" by (simp add: window_def)
    ultimately show ?thesis
      using legacy_mmio[OF True] by (auto simp: claims_clash_def)
  next
    case False
    then obtain i where "i < ?k" "c = window (names ! i) i"
      using c by (auto simp: windows_def set_zip)
    then show ?thesis
      using window_addrs(1)[of i] window_addrs(1)[OF k, of name] k by (auto simp: claims_clash_def)
  qed
  then show ?case
    using snoc window_addrs(2)[OF k] by (simp add: windows_snoc ranges_free_snoc)
qed

lemma lines_distinct: "k \<le> 19 \<Longrightarrow> distinct (lines k)"
proof (induction k)
  case 0
  then show ?case by (simp add: lines_def)
next
  case (Suc k)
  have "slot_gsi (slot_at k) \<notin> set (lines k)"
  proof
    assume "slot_gsi (slot_at k) \<in> set (lines k)"
    then consider "slot_gsi (slot_at k) = COM1_GSI" | i where "i < k" "slot_gsi (slot_at k) = slot_gsi (slot_at i)"
      by (auto simp: lines_def)
    then show False
    proof cases
      case 1
      then have "unat (slot_gsi (slot_at k)) = 4" by (simp add: COM1_GSI_def)
      then show ?thesis using slot_gsi_unat[of k] Suc.prems by simp
    next
      case 2
      then show ?thesis using slot_gsi_unat[of k] slot_gsi_unat[of i] Suc.prems by simp
    qed
  qed
  then show ?case using Suc by (simp add: lines_Suc)
qed

lemma claim_routes:
  assumes m: "entries_match cs bs" and free: "ranges_free cs"
    and c: "(k, base, len, owner, Some (d, first)) \<in> set cs" and n: "0 < unat n" "unat off + unat n \<le> unat len"
  shows "Bus_device (select_bus k bs) (base + off) n = Some (d, first + off)"
proof -
  let ?c = "(k, base, len, owner, Some (d, first))"
  have v: "claim_valid ?c" using free c by (auto simp: ranges_free_def list_all_iff)
  then obtain r where r: "BusRange_new base len = Some r" using BusRange_new_valid by blast
  have wf: "bus_wf (select_bus k bs)" and "entry_of ?c \<in> entries (select_bus k bs)"
    using m c by (auto simp: entries_match_def)
  moreover have "entry_of ?c = \<lparr>entry_range = r, entry_owner = owner, entry_target = Some (d, first)\<rparr>"
    using r by (simp add: entry_of_def)
  moreover have "range_base r = base" using r by (simp add: BusRange_new_Some)
  moreover have addrs: "range_addrs r = {unat base ..< unat base + unat len}"
    using BusRange_new_addrs[OF r] by (simp add: claim_addrs_def)
  moreover have "unat (base + off) = unat base + unat off"
    using v n by (intro unat_add_fits) (simp add: claim_valid_def)
  ultimately have "routes_to (select_bus k bs) (base + off) n d (first + off)"
    using n unfolding routes_to_def by (intro bexI[of _ "entry_of ?c"] exI[of _ first]) auto
  then show ?thesis using Bus_device_routes[OF wf] by blast
qed

lemma add_all_placed:
  assumes "VmConfig_validate c = Inr ()" "add_all pf env c ws ChipsetBuilder_new = r"
  shows "case r of
      Inl e \<Rightarrow> build_error e
    | Inr (p, c') \<Rightarrow> \<exists>names. length names = length (disks c) + 1 \<and> placed names p \<and>
        announce (cmdline c) (p_used p) = (cmdline c', Inr ()) \<and> c' = c\<lparr>cmdline := cmdline c'\<rparr>"
proof -
  obtain b where b: "add_legacy_devices pf ChipsetBuilder_new = Inr b" "built (windows []) (lines 0) b"
    "length (devices b) = 2"
    using legacy_built by blast
  let ?p = "\<lparr>p_taken = 0, p_used = [], p_workers = ws, p_builder = b\<rparr>"
  have n: "length (disks c) \<le> 8"
    using validate_Inr[OF assms(1)] by (simp add: MAX_DISKS_def)
  have p0: "placed [] ?p" using b by (simp add: placed_def)
  note d = add_disks_placed[OF p0, of "disks c" pf env]
  show ?thesis
  proof (cases "add_disks pf env 0 (disks c) ?p")
    case (Inl e)
    then show ?thesis using d n assms(2) b(1) by (auto simp: add_all_def)
  next
    case (Inr p1)
    define nm where "nm = map (nth CHIPSET_NAMES) [0..<length (disks c)]"
    have p1: "placed nm p1" and k: "length nm < 19"
      using d n Inr by (simp_all add: nm_def)
    note bal = add_slot_device_placed[OF balloon_attaches p1 k, of pf env default_reclaim]
    show ?thesis
    proof (cases "add_slot_device (\<lambda>slot. balloon_add pf env slot default_reclaim) p1")
      case (Inl e)
      then show ?thesis using bal assms(2) b(1) \<open>add_disks pf env 0 (disks c) ?p = Inr p1\<close>
        by (auto simp: add_all_def)
    next
      case (Inr p2)
      obtain line res where an: "announce (cmdline c) (p_used p2) = (line, res)" by fastforce
      have r: "r = (case res of Inl e \<Rightarrow> Inl e | Inr _ \<Rightarrow> Inr (p2, c\<lparr>cmdline := line\<rparr>))"
        using assms(2) b(1) \<open>add_disks pf env 0 (disks c) ?p = Inr p1\<close> Inr an by (simp add: add_all_def)
      have "\<exists>reason. e = InvalidCommandLine reason" if "announce l us = (l', Inl e)" for l us l' e
        using that by (induction l us rule: announce.induct) (auto simp: Let_def split: if_split_asm)
      then have "res = Inl e \<Longrightarrow> build_error e" for e using an by (force simp: build_error_def)
      moreover have "\<exists>names. length names = length (disks c) + 1 \<and> placed names p2"
        using bal Inr by (intro exI[of _ "nm @ [spec_name BALLOON_SPEC]"]) (simp add: nm_def)
      ultimately show ?thesis using r an by (cases res) auto
    qed
  qed
qed

text \<open>C10. Every valid configuration fits on the platform. Adding the devices of a valid configuration
  never ends in a conflict, an exhausted slot or a missing disk name: the only failures are those of the
  host calls, of a device's own description, and of a command line with no room left. When it succeeds
  the chipset builds, the i-th slot's 4 KiB window is served whole by device i + 2 at the offset within
  the window, the announced command line names exactly those windows and interrupts, the serial and
  keyboard ports reach their devices, and no window overlaps guest RAM.\<close>
theorem platform_fits:
  assumes valid: "VmConfig_validate c = Inr ()"
  shows "case add_all pf env c ws ChipsetBuilder_new of
      Inl e \<Rightarrow> build_error e
    | Inr (p, c') \<Rightarrow>
        (\<exists>chip. ChipsetBuilder_build (p_builder p) = Inr (True, chip) \<and>
           length (c_devices chip) = length (disks c) + 3 \<and>
           (\<forall>i\<le>length (disks c). \<forall>off n. 0 < unat n \<and> unat off + unat n \<le> 0x1000 \<longrightarrow>
              Bus_device (mmio_bus (c_buses chip)) (slot_base (slot_at i) + off) n = Some (i + 2, off)) \<and>
           (\<forall>off. unat off < 8 \<longrightarrow> Bus_device (pio_bus (c_buses chip)) (COM1 + off) 1 = Some (0, off)) \<and>
           Bus_device (pio_bus (c_buses chip)) I8042_DATA 1 = Some (1, 0) \<and>
           Bus_device (pio_bus (c_buses chip)) I8042_COMMAND 1 = Some (1, 4)) \<and>
        announce (cmdline c) (map slot_at [0..<length (disks c) + 1]) = (cmdline c', Inr ()) \<and>
        (\<forall>(start, sz)\<in>set (ram_ranges (memory_mib c)). \<forall>i\<le>length (disks c).
           unat start + sz \<le> unat (slot_base (slot_at i)))"
proof (cases "add_all pf env c ws ChipsetBuilder_new")
  case (Inl e)
  then show ?thesis using add_all_placed[OF valid Inl] by simp
next
  case (Inr pc)
  obtain p c' where pc: "pc = (p, c')" by fastforce
  obtain names where nm: "length names = length (disks c) + 1" and pl: "placed names p"
    and an: "announce (cmdline c) (p_used p) = (cmdline c', Inr ())"
    using add_all_placed[OF valid Inr] pc by auto
  have n: "length names \<le> 9"
    using validate_Inr[OF valid] nm by (simp add: MAX_DISKS_def)
  have free: "ranges_free (windows names)" and dist: "distinct (lines (length names))"
    using n by (simp_all add: windows_free lines_distinct)
  then have none: "conflicts (p_builder p) = []" and em: "entries_match (windows names) (b_buses (p_builder p))"
    using pl by (auto simp: placed_def built_def)
  have slot: "Bus_device (mmio_bus (b_buses (p_builder p))) (slot_base (slot_at i) + off) m = Some (i + 2, off)"
    if "i \<le> length (disks c)" "0 < unat m \<and> unat off + unat m \<le> 0x1000" for i off m
  proof -
    have "window (names ! i) i \<in> set (windows names)"
      using that(1) nm by (intro window_in) simp
    then show ?thesis
      using claim_routes[OF em free, of Mmio "slot_base (slot_at i)" MMIO_WINDOW_LEN "names ! i" "i + 2" 0 m off] that(2)
      by (simp add: window_def MMIO_WINDOW_LEN_def)
  qed
  have legacy: "claim \<in> set legacy_claims \<Longrightarrow> claim \<in> set (windows names)" for claim
    by (simp add: windows_def)
  have "(Pio, COM1, 8, ''com1'', Some (0, 0)) \<in> set (windows names)"
    by (rule legacy) (simp add: legacy_claims_def)
  note com1 = claim_routes[OF em free this, of 1]
  have "(Pio, I8042_DATA, 1, ''i8042'', Some (1, 0)) \<in> set (windows names)"
    by (rule legacy) (simp add: legacy_claims_def)
  note kd = claim_routes[OF em free this, of 1 0]
  have "(Pio, I8042_COMMAND, 1, ''i8042'', Some (1, 4)) \<in> set (windows names)"
    by (rule legacy) (simp add: legacy_claims_def)
  note kc = claim_routes[OF em free this, of 1 0]
  have ram: "unat start + sz \<le> unat (slot_base (slot_at i))"
    if "(start, sz) \<in> set (ram_ranges (memory_mib c))" "i \<le> length (disks c)" for start sz i
    using ram_below_hole[OF valid that(1)] that(2) slot_base_unat[of i] nm n
    by (simp add: MMIO_HOLE_START_def)
  show ?thesis
    using Inr pc pl none nm slot com1 kd kc ram an
    by (auto simp: ChipsetBuilder_build_def placed_def)
qed

section \<open>A concrete platform\<close>

definition demo_pf :: "(irq_line, unit, nat, nat, unit, nat, nat) platform_env" where
  "demo_pf = \<lparr>pf_uart = \<lambda>line. line, pf_keyboard = (), pf_open_disk = \<lambda>d. Inr 0, pf_new_balloon = \<lambda>r. Inr 0,
     pf_add_worker = \<lambda>d i ws. (ws, ws + 1), pf_irq_chip = (), pf_memory = 0\<rparr>"

definition one_disk :: vm_config where
  "one_disk = \<lparr>vcpu_count = 1, memory_mib = 1024, kernel = ''vmlinux'', cmdline = ''ro'', initramfs = None,
     disks = [\<lparr>disk_path = ''a.raw'', disk_format = Raw, disk_read_only = True\<rparr>]\<rparr>"

lemma one_disk_valid: "VmConfig_validate one_disk = Inr ()"
  by code_simp

lemma add_device_demo:
  "\<exists>p'. add_device demo_pf demo_env name slot 0 p = Inr p' \<and> p_taken p' = p_taken p \<and> p_used p' = p_used p"
proof -
  have "\<exists>t. MmioTransport_new demo_env 0 intr m w sent = Inr t" for intr m w sent
    by (simp add: MmioTransport_new_def demo_env_def demo_device_def demo_spec_def Let_def
        MAX_CONFIG_LEN_def MAX_QUEUES_def)
  then have "\<exists>t r. virtio_ctor demo_pf demo_env slot 0 ws r0 = (Inr t, r)" for ws r0
    by (auto simp: virtio_ctor_def Let_def split: prod.split) (metis map_sum.simps(2))
  then have "\<exists>b'. ChipsetBuilder_add name (virtio_ctor demo_pf demo_env slot 0 ws) b = Inr b'" for ws b
    unfolding ChipsetBuilder_add_def by (smt (verit) old.prod.case old.sum.simps(6))
  then show ?thesis by (auto simp: add_device_def Let_def split: sum.split) (metis sum.distinct(1))
qed

lemma add_slot_demo:
  assumes "\<And>p. attach (slot_at k) p = add_device demo_pf demo_env name (slot_at k) 0 p" "k < 19"
    "p_taken p = of_nat k"
  shows "\<exists>p'. add_slot_device attach p = Inr p' \<and> p_taken p' = of_nat (Suc k) \<and> p_used p' = p_used p @ [slot_at k]"
  using add_device_demo[of name "slot_at k" "p\<lparr>p_taken := of_nat (Suc k)\<rparr>"] Slots_take_at[OF assms(2)] assms(1,3)
  by (auto simp: add_slot_device_def simp del: of_nat_Suc)

lemma one_disk_built: "\<exists>p c'. add_all demo_pf demo_env one_disk 0 ChipsetBuilder_new = Inr (p, c')"
proof -
  let ?disk = "\<lparr>disk_path = ''a.raw'', disk_format = Raw, disk_read_only = True\<rparr>"
  obtain b where b: "add_legacy_devices demo_pf ChipsetBuilder_new = Inr b" using legacy_built by blast
  let ?p = "\<lparr>p_taken = 0, p_used = [], p_workers = 0, p_builder = b\<rparr>"
  obtain p1 where p1: "add_slot_device (add_disk demo_pf demo_env ?disk 0) ?p = Inr p1" "p_taken p1 = of_nat 1"
    "p_used p1 = [slot_at 0]"
    using add_slot_demo[of "add_disk demo_pf demo_env ?disk 0" 0 "CHIPSET_NAMES ! 0" ?p]
    by (auto simp: add_disk_def demo_pf_def CHIPSET_NAMES_def)
  obtain p2 where p2: "add_slot_device (\<lambda>slot. balloon_add demo_pf demo_env slot default_reclaim) p1 = Inr p2"
    "p_used p2 = [slot_at 0, slot_at 1]"
    using add_slot_demo[of "\<lambda>slot. balloon_add demo_pf demo_env slot default_reclaim" 1 "spec_name BALLOON_SPEC" p1] p1
    by (auto simp: balloon_add_def demo_pf_def)
  have "unat (slot_base (slot_at 0)) = 0xd0000000" "unat (slot_base (slot_at 1)) = 0xd0001000"
    "unat (slot_gsi (slot_at 0)) = 5" "unat (slot_gsi (slot_at 1)) = 6"
    using slot_base_unat[of 0] slot_base_unat[of 1] slot_gsi_unat[of 0] slot_gsi_unat[of 1] by simp_all
  then have "\<exists>line. announce ''ro'' [slot_at 0, slot_at 1] = (line, Inr ())"
    by (simp add: Let_def cmdline_arg_def lower_hex_def decimal_def digits.simps MAX_CMDLINE_BYTES_def)
  then show ?thesis
    using b p1 p2 by (auto simp: add_all_def one_disk_def simp del: announce.simps)
qed

text \<open>The second slot of that machine is the balloon's, device 3.\<close>

lemma platform_fits_witness:
  "\<exists>p c' chip. add_all demo_pf demo_env one_disk 0 ChipsetBuilder_new = Inr (p, c') \<and>
     ChipsetBuilder_build (p_builder p) = Inr (True, chip) \<and> length (c_devices chip) = 4 \<and>
     Bus_device (mmio_bus (c_buses chip)) (slot_base (slot_at 1) + 0x70) 4 = Some (3, 0x70) \<and>
     Bus_device (pio_bus (c_buses chip)) I8042_COMMAND 1 = Some (1, 4)"
proof -
  obtain p c' where a: "add_all demo_pf demo_env one_disk 0 ChipsetBuilder_new = Inr (p, c')"
    using one_disk_built by blast
  have "length (disks one_disk) = 1" by (simp add: one_disk_def)
  moreover obtain chip where "ChipsetBuilder_build (p_builder p) = Inr (True, chip)"
    "length (c_devices chip) = length (disks one_disk) + 3"
    "\<forall>i\<le>length (disks one_disk). \<forall>off n. 0 < unat n \<and> unat off + unat n \<le> 0x1000 \<longrightarrow>
       Bus_device (mmio_bus (c_buses chip)) (slot_base (slot_at i) + off) n = Some (i + 2, off)"
    "Bus_device (pio_bus (c_buses chip)) I8042_COMMAND 1 = Some (1, 4)"
    using platform_fits[OF one_disk_valid, of demo_pf demo_env 0] a by auto
  ultimately show ?thesis using a by force
qed

end
