(* ===== verification/Boot_Tables.thy ===== *)
theory Boot_Tables
  imports Machine
begin

text \<open>
  The entry state and page tables of \<open>src/src/vmm/src/boot/entry.rs\<close>. Guest memory is the crate
  \<open>vm_memory\<close>: \<open>check_range\<close> and the two writes are parameters. What is read back from the tables is
  stated with the long-mode page walk of the processor manual, \<open>page_walk\<close>.
\<close>

section \<open>Constants\<close>

definition GDT_START :: u64 where "GDT_START = 0x500"
definition GDT :: "u64 list" where "GDT = [0, 0, 0x00af9b000000ffff, 0x00cf93000000ffff]"
definition BOOT_CS :: u16 where "BOOT_CS = 0x10"
definition BOOT_DS :: u16 where "BOOT_DS = 0x18"
definition BOOT_STACK :: u64 where "BOOT_STACK = 0x8ff0"
definition PAGE_SIZE :: u64 where "PAGE_SIZE = 0x1000"
definition PML4_START :: u64 where "PML4_START = 0x9000"
definition PDPT_START :: u64 where "PDPT_START = PML4_START + PAGE_SIZE"
definition PD_START :: u64 where "PD_START = PDPT_START + PAGE_SIZE"
definition PD_COUNT :: u64 where "PD_COUNT = drop_bit 30 MMIO_HOLE_START"
definition TABLES_END :: u64 where "TABLES_END = PD_START + PD_COUNT * PAGE_SIZE"
definition PRESENT_WRITABLE :: u64 where "PRESENT_WRITABLE = 0b11"
definition LARGE_PAGE :: u64 where "LARGE_PAGE = push_bit 7 1"

definition CR0_PE :: u64 where "CR0_PE = 1"
definition CR0_ET :: u64 where "CR0_ET = push_bit 4 1"
definition CR0_PG :: u64 where "CR0_PG = push_bit 31 1"
definition CR4_PAE :: u64 where "CR4_PAE = push_bit 5 1"
definition EFER_LME :: u64 where "EFER_LME = push_bit 8 1"
definition EFER_LMA :: u64 where "EFER_LMA = push_bit 10 1"
definition RFLAGS_FIXED :: u64 where "RFLAGS_FIXED = push_bit 1 1"

section \<open>Segments\<close>

record x86_segment =
  sg_base :: u64
  sg_limit :: u32
  sg_selector :: u16
  sg_attributes :: u16

definition segment :: "u16 \<Rightarrow> x86_segment" where
  "segment selector =
     (let descriptor = GDT ! unat (drop_bit 3 selector);
          attributes = ucast (drop_bit 40 descriptor AND 0xf0ff) :: u16;
          limit = ucast ((drop_bit 32 descriptor AND 0xf0000) OR (descriptor AND 0xffff)) :: u32
      in \<lparr>sg_base = (drop_bit 16 descriptor AND 0xffffff) OR (drop_bit 32 descriptor AND 0xff000000),
          sg_limit = (if attributes AND 0x8000 \<noteq> 0 then push_bit 12 limit OR 0xfff else limit),
          sg_selector = selector, sg_attributes = attributes\<rparr>)"

section \<open>Page tables\<close>

definition TABLE_ENTRIES :: nat where "TABLE_ENTRIES = 512"

fun set_directories :: "nat list \<Rightarrow> u64 list \<Rightarrow> u64 list" where
  "set_directories [] es = es"
| "set_directories (gib # gibs) es =
     set_directories gibs (es[TABLE_ENTRIES + gib := (PD_START + of_nat gib * PAGE_SIZE) OR PRESENT_WRITABLE])"

definition table_entries :: "u64 list" where
  "table_entries =
     (let es = replicate ((2 + unat PD_COUNT) * TABLE_ENTRIES) 0;
          es = es[0 := PDPT_START OR PRESENT_WRITABLE];
          es = set_directories [0..<unat PD_COUNT] es
      in take (2 * TABLE_ENTRIES) es @
         map (\<lambda>page. push_bit 21 (of_nat page) OR LARGE_PAGE OR PRESENT_WRITABLE)
           [0..<length es - 2 * TABLE_ENTRIES])"

definition page_tables :: "u8 list" where
  "page_tables = concat (map (to_le_bytes 8) table_entries)"

section \<open>The entry state\<close>

record boot_registers =
  br_rip :: u64
  br_rsp :: u64
  br_rsi :: u64
  br_rflags :: u64
  br_cr0 :: u64
  br_cr3 :: u64
  br_cr4 :: u64
  br_efer :: u64
  br_code :: x86_segment
  br_data :: x86_segment
  br_gdt_base :: u64
  br_gdt_limit :: u16
  br_idt_base :: u64
  br_idt_limit :: u16

record 'm boot_mem_ops =
  bm_check_range :: "'m \<Rightarrow> u64 \<Rightarrow> nat \<Rightarrow> bool"
  bm_write_slice :: "u8 list \<Rightarrow> u64 \<Rightarrow> 'm \<Rightarrow> 'm \<times> (error_kind + unit)"

text \<open>\<open>write_obj\<close> of the GDT array writes its bytes in memory order, little endian on this host.\<close>

definition long_mode_entry ::
    "'m boot_mem_ops \<Rightarrow> u64 \<Rightarrow> u64 \<Rightarrow> 'm \<Rightarrow> 'm \<times> (error_kind + boot_registers)" where
  "long_mode_entry mo entry boot_params m =
     (if \<not> bm_check_range mo m GDT_START (unat (TABLES_END - GDT_START)) then (m, Inl InvalidInput)
      else case bm_write_slice mo (concat (map (to_le_bytes 8) GDT)) GDT_START m of
        (m, Inl e) \<Rightarrow> (m, Inl OtherKind)
      | (m, Inr _) \<Rightarrow>
          (case bm_write_slice mo page_tables PML4_START m of
             (m, Inl e) \<Rightarrow> (m, Inl OtherKind)
           | (m, Inr _) \<Rightarrow>
               (m, Inr \<lparr>br_rip = entry, br_rsp = BOOT_STACK, br_rsi = boot_params,
                  br_rflags = RFLAGS_FIXED, br_cr0 = CR0_PE OR CR0_ET OR CR0_PG, br_cr3 = PML4_START,
                  br_cr4 = CR4_PAE, br_efer = EFER_LME OR EFER_LMA, br_code = segment BOOT_CS,
                  br_data = segment BOOT_DS, br_gdt_base = GDT_START,
                  br_gdt_limit = of_nat (8 * length GDT - 1), br_idt_base = 0, br_idt_limit = 0\<rparr>)))"

lemma boot_segments:
  "segment BOOT_CS = \<lparr>sg_base = 0, sg_limit = 0xffffffff, sg_selector = 0x10, sg_attributes = 0xa09b\<rparr>"
  "segment BOOT_DS = \<lparr>sg_base = 0, sg_limit = 0xffffffff, sg_selector = 0x18, sg_attributes = 0xc093\<rparr>"
  by (simp_all add: segment_def GDT_def BOOT_CS_def BOOT_DS_def Let_def)

section \<open>The page walk\<close>

text \<open>
  A walk of four levels in the processor's format: bits 12 to 51 of an entry are an address, bit 0
  says that it is present, bit 7 of a directory entry that it maps 2 MiB. \<open>read_entry\<close> reads the eight
  bytes at a physical address. A 4 KiB mapping does not occur here and is \<open>None\<close>.
\<close>

definition table_index :: "nat \<Rightarrow> u64 \<Rightarrow> u64" where
  "table_index level a = take_bit 9 (drop_bit (12 + 9 * level) a)"

definition table_address :: "u64 \<Rightarrow> u64" where
  "table_address e = push_bit 12 (take_bit 40 (drop_bit 12 e))"

definition next_table :: "(u64 \<Rightarrow> u64 option) \<Rightarrow> nat \<Rightarrow> u64 \<Rightarrow> u64 \<Rightarrow> u64 option" where
  "next_table read_entry level table a =
     (case read_entry (table + 8 * table_index level a) of
        None \<Rightarrow> None
      | Some e \<Rightarrow> if bit e 0 then Some e else None)"

definition page_walk :: "(u64 \<Rightarrow> u64 option) \<Rightarrow> u64 \<Rightarrow> u64 \<Rightarrow> u64 option" where
  "page_walk read_entry cr3 a =
     (case next_table read_entry 3 cr3 a of
        None \<Rightarrow> None
      | Some e3 \<Rightarrow>
          (case next_table read_entry 2 (table_address e3) a of
             None \<Rightarrow> None
           | Some e2 \<Rightarrow>
               (case next_table read_entry 1 (table_address e2) a of
                  None \<Rightarrow> None
                | Some e1 \<Rightarrow>
                    if bit e1 7 then Some (push_bit 21 (drop_bit 21 (table_address e1)) OR take_bit 21 a)
                    else None)))"

text \<open>What the tables in guest RAM read as: the bytes of \<open>page_tables\<close> at \<open>PML4_START\<close>.\<close>

definition read_tables :: "u64 \<Rightarrow> u64 option" where
  "read_tables p =
     (let i = unat (p - PML4_START) in
      if PML4_START \<le> p \<and> i + 8 \<le> length page_tables
      then Some (from_le_bytes (take 8 (drop i page_tables))) else None)"

section \<open>Reading the tables back\<close>

lemma drop_concat_le_bytes:
  "i < length es \<Longrightarrow> take 8 (drop (8 * i) (concat (map (to_le_bytes 8) es))) = to_le_bytes 8 (es ! i)"
proof (induction es arbitrary: i)
  case Nil
  then show ?case by simp
next
  case (Cons e es)
  then show ?case by (cases i) simp_all
qed

lemma length_concat_le_bytes: "length (concat (map (to_le_bytes 8) es)) = 8 * length es"
  by (induction es) simp_all

lemma unat_PD_COUNT: "unat PD_COUNT = 3"
  by (simp add: PD_COUNT_def MMIO_HOLE_START_def)

lemma directories: "[0..<unat PD_COUNT] = [0, 1, 2]"
  by (simp add: unat_PD_COUNT upt_rec)

lemma length_table_entries: "length table_entries = 2560"
  unfolding table_entries_def directories by (simp add: Let_def TABLE_ENTRIES_def unat_PD_COUNT)

lemma table_entry_nth:
  "table_entries ! 0 = PDPT_START OR PRESENT_WRITABLE"
  "0 < i \<Longrightarrow> i < 512 \<Longrightarrow> table_entries ! i = 0"
  "g < 3 \<Longrightarrow> table_entries ! (512 + g) = (PD_START + of_nat g * PAGE_SIZE) OR PRESENT_WRITABLE"
  "515 \<le> i \<Longrightarrow> i < 1024 \<Longrightarrow> table_entries ! i = 0"
  "k < 1536 \<Longrightarrow> table_entries ! (1024 + k) = push_bit 21 (of_nat k) OR LARGE_PAGE OR PRESENT_WRITABLE"
proof -
  define es where "es = set_directories [0, 1, 2] ((replicate 2560 0)[0 := PDPT_START OR PRESENT_WRITABLE])"
  have te: "table_entries = take 1024 es @
      map (\<lambda>page. push_bit 21 (of_nat page) OR LARGE_PAGE OR PRESENT_WRITABLE) [0..<1536]"
    unfolding table_entries_def directories es_def by (simp add: Let_def TABLE_ENTRIES_def unat_PD_COUNT)
  have len: "length es = 2560" by (simp add: es_def)
  have low: "i < 1024 \<Longrightarrow> table_entries ! i = es ! i" for i
    using len by (simp add: te nth_append)
  show "table_entries ! 0 = PDPT_START OR PRESENT_WRITABLE"
    by (simp add: low) (simp add: es_def TABLE_ENTRIES_def nth_list_update)
  show "0 < i \<Longrightarrow> i < 512 \<Longrightarrow> table_entries ! i = 0"
    by (simp add: low) (simp add: es_def TABLE_ENTRIES_def nth_list_update)
  show "515 \<le> i \<Longrightarrow> i < 1024 \<Longrightarrow> table_entries ! i = 0"
    by (simp add: low) (simp add: es_def TABLE_ENTRIES_def nth_list_update)
  show "table_entries ! (512 + g) = (PD_START + of_nat g * PAGE_SIZE) OR PRESENT_WRITABLE" if "g < 3"
  proof -
    have "g = 0 \<or> g = 1 \<or> g = 2" using that by linarith
    then show ?thesis
      by (auto simp: low) (auto simp: es_def TABLE_ENTRIES_def nth_list_update)
  qed
  show "k < 1536 \<Longrightarrow> table_entries ! (1024 + k) = push_bit 21 (of_nat k) OR LARGE_PAGE OR PRESENT_WRITABLE"
    using len by (simp add: te nth_append)
qed

lemma read_tables_nth:
  assumes "i < 2560" "p = PML4_START + of_nat (8 * i)"
  shows "read_tables p = Some (table_entries ! i)"
proof -
  have "unat (of_nat (8 * i) :: u64) = 8 * i"
    using assms(1) by (simp add: unat_of_nat take_bit_nat_eq_self del: of_nat_mult)
  moreover have "unat PML4_START = 0x9000" by (simp add: PML4_START_def)
  ultimately have "unat p = 0x9000 + 8 * i"
    using assms unat_add_fits[of PML4_START "of_nat (8 * i)"] by simp
  then have "PML4_START \<le> p" "unat (p - PML4_START) = 8 * i"
    using assms(2) \<open>unat (of_nat (8 * i) :: u64) = 8 * i\<close> \<open>unat PML4_START = 0x9000\<close>
    by (simp_all add: word_le_nat_alt)
  moreover have "length page_tables = 8 * 2560"
    by (simp only: page_tables_def length_concat_le_bytes length_table_entries)
  moreover have "take 8 (drop (8 * i) page_tables) = to_le_bytes 8 (table_entries ! i)"
    using drop_concat_le_bytes[of i table_entries] assms(1) by (simp add: page_tables_def length_table_entries)
  ultimately show ?thesis
    using assms(1) by (simp add: read_tables_def Let_def from_to_le_bytes)
qed

text \<open>Indices of an address, as numbers.\<close>

lemma unat_table_index: "unat (table_index level a) = unat a div 2 ^ (12 + 9 * level) mod 512"
  using unsigned_less[of a, where 'a = nat]
  unfolding table_index_def unsigned_take_bit_eq unsigned_drop_bit_eq take_bit_nat_def drop_bit_nat_def
  by simp

lemma small_bits: "unat k < 2 ^ n \<Longrightarrow> bit k i \<Longrightarrow> i < n" for k :: u64
proof -
  assume "unat k < 2 ^ n" "bit k i"
  then have "take_bit n k = k"
    by (metis take_bit_nat_eq_self unsigned_take_bit_eq word_unat_eq_iff)
  with \<open>bit k i\<close> show "i < n" by (metis bit_take_bit_iff)
qed

lemma bits_of_flags: "bit LARGE_PAGE i \<longleftrightarrow> i = 7" "bit PRESENT_WRITABLE i \<longleftrightarrow> i < 2"
proof -
  have pw: "PRESENT_WRITABLE = mask 2" by (simp add: mask_eq_exp_minus_1 PRESENT_WRITABLE_def)
  show "bit PRESENT_WRITABLE i \<longleftrightarrow> i < 2" unfolding pw bit_mask_iff by auto
  show "bit LARGE_PAGE i \<longleftrightarrow> i = 7"
    unfolding LARGE_PAGE_def bit_push_bit_iff by (auto simp: bit_1_iff)
qed

lemma large_page_entry:
  assumes "unat k < 2 ^ 20"
  shows "push_bit 21 (drop_bit 21 (table_address (push_bit 21 k OR LARGE_PAGE OR PRESENT_WRITABLE))) =
      push_bit 21 k"
    "bit (push_bit 21 k OR LARGE_PAGE OR PRESENT_WRITABLE) 0"
    "bit (push_bit 21 k OR LARGE_PAGE OR PRESENT_WRITABLE) 7"
proof -
  show "push_bit 21 (drop_bit 21 (table_address (push_bit 21 k OR LARGE_PAGE OR PRESENT_WRITABLE))) =
      push_bit 21 k"
  proof (rule bit_word_eqI)
    fix i assume "i < LENGTH(64)"
    then show "bit (push_bit 21 (drop_bit 21 (table_address (push_bit 21 k OR LARGE_PAGE OR PRESENT_WRITABLE)))) i =
        bit (push_bit 21 k) i"
      using small_bits[OF assms, of "i - 21"]
      by (auto simp: table_address_def bit_or_iff bit_push_bit_iff bit_drop_bit_eq bit_take_bit_iff bits_of_flags)
  qed
  show "bit (push_bit 21 k OR LARGE_PAGE OR PRESENT_WRITABLE) 0"
    "bit (push_bit 21 k OR LARGE_PAGE OR PRESENT_WRITABLE) 7"
    unfolding bit_or_iff bits_of_flags by simp_all
qed

lemma join_page: "push_bit 21 (drop_bit 21 a) OR take_bit 21 a = a" for a :: u64
  by (rule bit_word_eqI) (auto simp: bit_or_iff bit_push_bit_iff bit_drop_bit_eq bit_take_bit_iff)

lemma table_pointer:
  assumes "unat t < 2 ^ 52" "take_bit 12 t = 0"
  shows "table_address (t OR PRESENT_WRITABLE) = t" "bit (t OR PRESENT_WRITABLE) 0"
proof -
  have "\<not> bit t i" if "i < 12" for i
    using assms(2) that by (metis bit_0_eq bit_take_bit_iff bot_apply bot_bool_def)
  then have in_range: "bit t i \<Longrightarrow> 12 \<le> i \<and> i < 52" for i
    using small_bits[OF assms(1)] not_less by blast
  show "table_address (t OR PRESENT_WRITABLE) = t"
  proof (rule bit_word_eqI)
    fix i assume "i < LENGTH(64)"
    then show "bit (table_address (t OR PRESENT_WRITABLE)) i = bit t i"
      using in_range[of i]
      by (cases "12 \<le> i")
        (auto simp: table_address_def bit_or_iff bit_push_bit_iff bit_drop_bit_eq bit_take_bit_iff bits_of_flags)
  qed
  show "bit (t OR PRESENT_WRITABLE) 0" unfolding bit_or_iff bits_of_flags by simp
qed

text \<open>One level of the walk, at the index \<open>n\<close> of a table that starts at entry \<open>base\<close>.\<close>

lemma next_table_at:
  assumes "table = PML4_START + of_nat (8 * base)" "unat (table_index level a) = n" "base + n < 2560"
  shows "next_table read_tables level table a =
    (if bit (table_entries ! (base + n)) 0 then Some (table_entries ! (base + n)) else None)"
proof -
  have "table + 8 * table_index level a = PML4_START + of_nat (8 * (base + n))"
    using assms(1) by (simp add: assms(2)[symmetric] algebra_simps)
  then show ?thesis using read_tables_nth[OF assms(3)] by (simp add: next_table_def)
qed

lemma table_bases:
  "PDPT_START = PML4_START + of_nat (8 * 512)"
  "g < 3 \<Longrightarrow> PD_START + of_nat g * PAGE_SIZE = PML4_START + of_nat (8 * (1024 + 512 * g))"
  by (simp_all add: PDPT_START_def PD_START_def PAGE_SIZE_def PML4_START_def)

lemma below_hole: "a < MMIO_HOLE_START \<longleftrightarrow> unat a div 2 ^ 30 < 3" for a :: u64
  by (simp add: word_less_nat_alt MMIO_HOLE_START_def div_less_iff_less_mult)

lemma level3:
  assumes "unat a < 2 ^ 47"
  shows "next_table read_tables 3 PML4_START a = (if unat a < 2 ^ 39 then Some (PDPT_START OR PRESENT_WRITABLE) else None)"
proof -
  have i: "unat (table_index 3 a) = unat a div 2 ^ 39" and "unat a div 2 ^ 39 < 512"
    using assms by (simp_all add: unat_table_index)
  then show ?thesis
    using next_table_at[of PML4_START 0 3 a "unat a div 2 ^ 39"] table_entry_nth(1) table_entry_nth(2)[of "unat a div 2 ^ 39"]
      table_pointer(2)[of PDPT_START]
    by (cases "unat a < 2 ^ 39") (simp_all add: div_greater_zero_iff PDPT_START_def PML4_START_def PAGE_SIZE_def)
qed

lemma level2:
  assumes "unat a < 2 ^ 39"
  shows "next_table read_tables 2 PDPT_START a =
    (if a < MMIO_HOLE_START then Some ((PD_START + of_nat (unat a div 2 ^ 30) * PAGE_SIZE) OR PRESENT_WRITABLE) else None)"
proof -
  let ?g = "unat a div 2 ^ 30"
  have g: "?g < 512" and i: "unat (table_index 2 a) = ?g" using assms by (simp_all add: unat_table_index)
  have "bit ((PD_START + of_nat ?g * PAGE_SIZE) OR PRESENT_WRITABLE) 0" unfolding bit_or_iff bits_of_flags by simp
  then show ?thesis
    using next_table_at[OF table_bases(1) i] g table_entry_nth(3)[of ?g] table_entry_nth(4)[of "512 + ?g"]
    by (simp add: below_hole)
qed

lemma directory_address:
  assumes "g < 3"
  shows "table_address ((PD_START + of_nat g * PAGE_SIZE) OR PRESENT_WRITABLE) = PD_START + of_nat g * PAGE_SIZE"
proof (rule table_pointer(1))
  have "g = 0 \<or> g = 1 \<or> g = 2" using assms by linarith
  then show "unat (PD_START + of_nat g * PAGE_SIZE) < 2 ^ 52" "take_bit 12 (PD_START + of_nat g * PAGE_SIZE) = 0"
    by (auto simp: PD_START_def PDPT_START_def PML4_START_def PAGE_SIZE_def)
qed

lemma page_number:
  assumes "a < MMIO_HOLE_START"
  shows "drop_bit 21 a = of_nat (512 * (unat a div 2 ^ 30) + unat a div 2 ^ 21 mod 512)"
    "512 * (unat a div 2 ^ 30) + unat a div 2 ^ 21 mod 512 < 1536" "unat (drop_bit 21 a) < 2 ^ 20"
proof -
  let ?k = "unat a div 2 ^ 21"
  have "unat a div 2 ^ 30 = ?k div 512" by (simp add: div_mult2_eq[symmetric])
  then have page: "512 * (unat a div 2 ^ 30) + ?k mod 512 = ?k" by (simp add: mult.commute)
  have u: "unat (drop_bit 21 a) = ?k"
    using unsigned_less[of a, where 'a = nat] by (simp add: unsigned_drop_bit_eq drop_bit_nat_def take_bit_nat_eq_self)
  then show "drop_bit 21 a = of_nat (512 * (unat a div 2 ^ 30) + ?k mod 512)"
    unfolding page by (metis of_nat_unat ucast_id)
  show less: "512 * (unat a div 2 ^ 30) + ?k mod 512 < 1536" using assms by (simp add: below_hole)
  then show "unat (drop_bit 21 a) < 2 ^ 20" unfolding u page by simp
qed

lemma level1:
  assumes "a < MMIO_HOLE_START"
  shows "next_table read_tables 1 (PD_START + of_nat (unat a div 2 ^ 30) * PAGE_SIZE) a =
    Some (push_bit 21 (drop_bit 21 a) OR LARGE_PAGE OR PRESENT_WRITABLE)"
proof -
  let ?g = "unat a div 2 ^ 30" and ?k = "unat a div 2 ^ 21 mod 512"
  have "unat (table_index 1 a) = ?k" by (simp add: unat_table_index)
  then show ?thesis
    using next_table_at[OF table_bases(2), of ?g 1 a ?k] table_entry_nth(5)[OF page_number(2)[OF assms]]
      large_page_entry(2)[OF page_number(3)[OF assms]] page_number(1,2)[OF assms] assms
    by (simp add: below_hole add.assoc)
qed

text \<open>C25. The boot page tables are the identity below the MMIO hole and map nothing above. Walked in
  the processor's format from the CR3 the boot vCPU starts with, the tables written into guest RAM
  translate every address below 3 GiB, where all RAM lies, to itself, and leave every other
  canonical lower-half address unmapped.\<close>
theorem identity_map:
  assumes "unat a < 2 ^ 47"
  shows "page_walk read_tables PML4_START a = (if a < MMIO_HOLE_START then Some a else None)"
proof -
  have pdpt: "table_address (PDPT_START OR PRESENT_WRITABLE) = PDPT_START"
    by (rule table_pointer(1)) (simp_all add: PDPT_START_def PML4_START_def PAGE_SIZE_def)
  have high: "\<not> a < MMIO_HOLE_START" if "\<not> unat a < 2 ^ 39"
    using that by (simp add: word_less_nat_alt MMIO_HOLE_START_def)
  show ?thesis
    using level3[OF assms] high level2 level1 directory_address pdpt large_page_entry(1,3)[OF page_number(3)] join_page[of a]
    by (cases "unat a < 2 ^ 39"; cases "a < MMIO_HOLE_START") (simp_all add: page_walk_def below_hole)
qed

lemma identity_map_witness:
  "page_walk read_tables PML4_START 0xbfffffff = Some 0xbfffffff \<and>
   page_walk read_tables PML4_START 0xc0000000 = None"
  using identity_map[of "0xbfffffff"] identity_map[of "0xc0000000"] by (simp add: MMIO_HOLE_START_def)

end
