(* ===== verification/Boot_Data.thy ===== *)
theory Boot_Data
  imports Boot_Tables
begin

text \<open>
  The rest of the boot loader: the zero page and command line (\<open>boot/params.rs\<close>), the MP table
  (\<open>boot/mptable.rs\<close>), the initramfs slot (\<open>boot/initramfs.rs\<close>) and the composition \<open>boot::prepare\<close>
  (\<open>boot/mod.rs\<close>), all under \<open>src/src/vmm/src/\<close>. The ELF loader, the command-line type and the layout
  of \<open>boot_params\<close> in memory are the crate \<open>linux_loader\<close> and are parameters.
\<close>

section \<open>The zero page\<close>

definition ZERO_PAGE_START :: u64 where "ZERO_PAGE_START = 0x7000"
definition CMDLINE_START :: u64 where "CMDLINE_START = 0x20000"
definition LOW_RAM_END :: u64 where "LOW_RAM_END = 0x9fc00"
definition HIGH_RAM_START :: u64 where "HIGH_RAM_START = 0x100000"
definition LOADER_UNDEFINED :: u8 where "LOADER_UNDEFINED = 0xff"
definition BOOT_FLAG :: u16 where "BOOT_FLAG = 0xaa55"
definition HEADER_MAGIC :: u32 where "HEADER_MAGIC = from_le_bytes (map of_char ''HdrS'')"
definition KERNEL_ALIGNMENT :: u32 where "KERNEL_ALIGNMENT = push_bit 20 16"
definition E820_RAM :: u32 where "E820_RAM = 1"
definition E820_SLOTS :: nat where "E820_SLOTS = 128"

record e820_entry =
  e8_addr :: u64
  e8_size :: u64
  e8_type :: u32

definition e820_piece :: "u64 \<times> u64 \<Rightarrow> e820_entry list" where
  "e820_piece = (\<lambda>(from, to).
     if from < to then [\<lparr>e8_addr = from, e8_size = to - from, e8_type = E820_RAM\<rparr>] else [])"

definition e820_entries :: "(u64 \<times> nat) list \<Rightarrow> e820_entry list" where
  "e820_entries rs =
     concat (map (\<lambda>(start, sz). let e = start + of_nat sz in
       e820_piece (start, min e LOW_RAM_END) @ e820_piece (max start HIGH_RAM_START, e)) rs)"

text \<open>The fields of \<open>boot_params\<close> the code sets; the others stay zero.\<close>

record boot_params =
  bp_type_of_loader :: u8
  bp_boot_flag :: u16
  bp_header :: u32
  bp_kernel_alignment :: u32
  bp_cmd_line_ptr :: u32
  bp_cmdline_size :: u32
  bp_ramdisk_image :: u32
  bp_ramdisk_size :: u32
  bp_e820_table :: "e820_entry list"
  bp_e820_entries :: u8

record 'm loader_ops =
  lo_cmdline :: "nat \<Rightarrow> string \<Rightarrow> string option"
  lo_load_cmdline :: "u64 \<Rightarrow> string \<Rightarrow> 'm \<Rightarrow> 'm \<times> (error_kind + unit)"
  lo_write_bootparams :: "boot_params \<Rightarrow> u64 \<Rightarrow> 'm \<Rightarrow> 'm \<times> (error_kind + unit)"

definition u32_field :: "u64 \<Rightarrow> u32 option" where
  "u32_field v = (if unat v < 2 ^ 32 then Some (ucast v) else None)"

text \<open>\<open>lo_cmdline cap text\<close> is \<open>Cmdline::new(cap)\<close> with \<open>insert_str\<close>: the trimmed line, or a refusal.\<close>

definition write_boot_params ::
    "'m loader_ops \<Rightarrow> string \<Rightarrow> (u64 \<times> nat) list \<Rightarrow> (u64 \<times> nat) option \<Rightarrow> 'm \<Rightarrow> 'm \<times> (error_kind + u64)" where
  "write_boot_params lo text_line rs ramdisk m =
     (case lo_cmdline lo MAX_CMDLINE_BYTES text_line of
        None \<Rightarrow> (m, Inl InvalidInput)
      | Some line \<Rightarrow>
          (let params = \<lparr>bp_type_of_loader = LOADER_UNDEFINED, bp_boot_flag = BOOT_FLAG,
               bp_header = HEADER_MAGIC, bp_kernel_alignment = KERNEL_ALIGNMENT,
               bp_cmd_line_ptr = ucast CMDLINE_START, bp_cmdline_size = of_nat (length line + 1),
               bp_ramdisk_image = 0, bp_ramdisk_size = 0, bp_e820_table = [], bp_e820_entries = 0\<rparr>;
               with_ramdisk = (case ramdisk of
                   None \<Rightarrow> Some params
                 | Some (start, sz) \<Rightarrow>
                     (case (u32_field start, u32_field (of_nat sz)) of
                        (Some img, Some n) \<Rightarrow> Some (params\<lparr>bp_ramdisk_image := img, bp_ramdisk_size := n\<rparr>)
                      | _ \<Rightarrow> None))
           in case with_ramdisk of
             None \<Rightarrow> (m, Inl InvalidInput)
           | Some params \<Rightarrow>
               (let entries = e820_entries rs in
                if length entries > E820_SLOTS then (m, Inl InvalidInput)
                else
                  let params = params\<lparr>bp_e820_table := entries, bp_e820_entries := of_nat (length entries)\<rparr> in
                  case lo_load_cmdline lo CMDLINE_START line m of
                    (m, Inl _) \<Rightarrow> (m, Inl OtherKind)
                  | (m, Inr _) \<Rightarrow>
                      (case lo_write_bootparams lo params ZERO_PAGE_START m of
                         (m, Inl _) \<Rightarrow> (m, Inl OtherKind)
                       | (m, Inr _) \<Rightarrow> (m, Inr ZERO_PAGE_START)))))"

section \<open>The MP table\<close>

definition MPTABLE_START :: u64 where "MPTABLE_START = LOW_RAM_END"
definition FLOATING_POINTER_LEN :: nat where "FLOATING_POINTER_LEN = 16"
definition MP_HEADER_LEN :: nat where "MP_HEADER_LEN = 44"
definition FLOATING_POINTER_CHECKSUM :: nat where "FLOATING_POINTER_CHECKSUM = 10"
definition HEADER_CHECKSUM :: nat where "HEADER_CHECKSUM = 7"
definition SPEC_REVISION :: u8 where "SPEC_REVISION = 4"
definition LAPIC_ADDR :: u32 where "LAPIC_ADDR = 0xfee00000"
definition IOAPIC_ADDR :: u32 where "IOAPIC_ADDR = 0xfec00000"
definition APIC_VERSION :: u8 where "APIC_VERSION = 0x14"
definition IOAPIC_VERSION :: u8 where "IOAPIC_VERSION = 0x11"
definition CPU_SIGNATURE :: u32 where "CPU_SIGNATURE = 0x600"
definition CPU_FEATURES :: u32 where "CPU_FEATURES = 1 OR push_bit 9 1"
definition IOAPIC_PINS :: u8 where "IOAPIC_PINS = 24"
definition MP_PROCESSOR :: u8 where "MP_PROCESSOR = 0"
definition MP_BUS :: u8 where "MP_BUS = 1"
definition MP_IOAPIC :: u8 where "MP_IOAPIC = 2"
definition MP_IO_INTERRUPT :: u8 where "MP_IO_INTERRUPT = 3"
definition MP_LOCAL_INTERRUPT :: u8 where "MP_LOCAL_INTERRUPT = 4"
definition MP_ENABLED :: u8 where "MP_ENABLED = 1"
definition MP_BOOTSTRAP :: u8 where "MP_BOOTSTRAP = 2"
definition MP_INT :: u8 where "MP_INT = 0"
definition MP_NMI :: u8 where "MP_NMI = 1"
definition MP_EXTINT :: u8 where "MP_EXTINT = 3"
definition ALL_APICS :: u8 where "ALL_APICS = 0xff"

definition ascii :: "string \<Rightarrow> u8 list" where
  "ascii s = map of_char s"

definition checksum :: "u8 list \<Rightarrow> u8" where
  "checksum bytes = foldl (\<lambda>sum byte. sum - byte) 0 bytes"

definition processor_entry :: "nat \<Rightarrow> u8 list" where
  "processor_entry apic_id =
     (let flags = (if apic_id = 0 then MP_ENABLED OR MP_BOOTSTRAP else MP_ENABLED) in
      [MP_PROCESSOR, of_nat apic_id, APIC_VERSION, flags] @ to_le_bytes 4 CPU_SIGNATURE @
      to_le_bytes 4 CPU_FEATURES @ replicate 8 0)"

definition mptable_entries :: "u8 \<Rightarrow> u8 list" where
  "mptable_entries vcpus =
     (let ioapic_id = vcpus + 1 in
      concat (map processor_entry [0..<unat vcpus]) @
      [MP_BUS, 0] @ ascii ''ISA   '' @
      [MP_IOAPIC, ioapic_id, IOAPIC_VERSION, MP_ENABLED] @ to_le_bytes 4 IOAPIC_ADDR @
      concat (map (\<lambda>pin. [MP_IO_INTERRUPT, MP_INT, 0, 0, 0, of_nat pin, ioapic_id, of_nat pin])
        [0..<unat IOAPIC_PINS]) @
      [MP_LOCAL_INTERRUPT, MP_EXTINT, 0, 0, 0, 0, 0, 0] @
      [MP_LOCAL_INTERRUPT, MP_NMI, 0, 0, 0, 0, ALL_APICS, 1])"

definition floating_pointer :: "u8 list" where
  "floating_pointer =
     ascii ''_MP_'' @ to_le_bytes 4 (ucast (MPTABLE_START + of_nat FLOATING_POINTER_LEN) :: u32) @
     [1, SPEC_REVISION, 0, 0, 0, 0, 0, 0]"

definition mp_header :: "u8 \<Rightarrow> u8 list \<Rightarrow> u8 list" where
  "mp_header vcpus ents =
     ascii ''PCMP'' @ to_le_bytes 2 (of_nat (MP_HEADER_LEN + length ents) :: u16) @
     [SPEC_REVISION, 0] @ ascii ''BOXLITE '' @ ascii ''VMM         '' @ replicate 6 0 @
     to_le_bytes 2 (ucast vcpus + 2 + ucast IOAPIC_PINS + 2 :: u16) @ to_le_bytes 4 LAPIC_ADDR @ replicate 4 0"

definition mptable :: "u8 \<Rightarrow> u8 list" where
  "mptable vcpus =
     (let ents = mptable_entries vcpus;
          t = floating_pointer @ mp_header vcpus ents @ ents;
          t = t[FLOATING_POINTER_CHECKSUM := checksum (take FLOATING_POINTER_LEN t)]
      in t[FLOATING_POINTER_LEN + HEADER_CHECKSUM := checksum (drop FLOATING_POINTER_LEN t)])"

definition write_mptable ::
    "'m boot_mem_ops \<Rightarrow> u8 \<Rightarrow> 'm \<Rightarrow> 'm \<times> (error_kind + unit)" where
  "write_mptable mo vcpus m =
     (case bm_write_slice mo (mptable vcpus) MPTABLE_START m of
        (m, Inl _) \<Rightarrow> (m, Inl OtherKind)
      | (m, Inr _) \<Rightarrow> (m, Inr ()))"

section \<open>The initramfs\<close>

definition INITRAMFS_PAGE :: u64 where "INITRAMFS_PAGE = 0x1000"

text \<open>\<open>ram_end\<close> is the length of the RAM region at 0, or 0; \<open>copy\<close> reads the image into RAM.\<close>

definition initramfs_start :: "u64 \<Rightarrow> u64 \<Rightarrow> u64 option" where
  "initramfs_start ram_end sz =
     map_option (\<lambda>start. start AND NOT (INITRAMFS_PAGE - 1)) (checked_sub ram_end sz)"

definition load_initramfs ::
    "(u64 \<Rightarrow> nat \<Rightarrow> 'm \<Rightarrow> 'm \<times> (error_kind + unit)) \<Rightarrow> u64 \<Rightarrow> nat \<Rightarrow> 'm \<Rightarrow> 'm \<times> (error_kind + u64)" where
  "load_initramfs copy ram_end sz m =
     (if sz = 0 then (m, Inl InvalidInput)
      else case initramfs_start ram_end (of_nat sz) of
        None \<Rightarrow> (m, Inl InvalidInput)
      | Some start \<Rightarrow>
          (case copy start sz m of
             (m, Inl _) \<Rightarrow> (m, Inl OtherKind)
           | (m, Inr _) \<Rightarrow> (m, Inr start)))"

section \<open>The table is well formed\<close>

lemma checksum_sum: "checksum bytes = - sum_list bytes"
proof -
  have "foldl (\<lambda>sum byte. sum - byte) a bytes = a - sum_list bytes" for a :: u8
    by (induction bytes arbitrary: a) (simp_all add: algebra_simps)
  then show ?thesis by (simp add: checksum_def)
qed

lemma sum_list_set_zero:
  "i < length xs \<Longrightarrow> xs ! i = 0 \<Longrightarrow> sum_list (xs[i := c]) = sum_list xs + c" for c :: u8
  by (induction xs arbitrary: i) (auto simp: algebra_simps split: nat.split)

lemma checksum_field:
  "i < length xs \<Longrightarrow> xs ! i = 0 \<Longrightarrow> sum_list (xs[i := checksum xs]) = 0"
  by (simp add: sum_list_set_zero checksum_sum)

lemma length_concat_const:
  "(\<And>x. x \<in> set xs \<Longrightarrow> length (f x) = n) \<Longrightarrow> length (concat (map f xs)) = n * length xs"
  by (induction xs) simp_all

lemma length_mptable_entries: "length (mptable_entries vcpus) = 20 * unat vcpus + 224"
proof -
  have "length (concat (map processor_entry [0..<unat vcpus])) = 20 * unat vcpus"
    using length_concat_const[of "[0..<unat vcpus]" processor_entry 20] by (simp add: processor_entry_def Let_def)
  moreover have "length (concat (map (\<lambda>pin. [MP_IO_INTERRUPT, MP_INT, 0, 0, 0, of_nat pin, vcpus + 1, of_nat pin])
      [0..<unat IOAPIC_PINS])) = 192"
    by (subst length_concat_const[where n = 8]) (simp_all add: IOAPIC_PINS_def)
  ultimately show ?thesis by (simp add: mptable_entries_def Let_def ascii_def)
qed

lemma floating_pointer_shape: "length floating_pointer = 16" "floating_pointer ! 10 = 0"
  by (simp_all add: floating_pointer_def ascii_def nth_append)

lemma mp_header_shape: "length (mp_header vcpus ents) = 44" "mp_header vcpus ents ! 7 = 0"
  by (simp_all add: mp_header_def ascii_def nth_append)

lemma mptable_parts:
  "mptable vcpus =
     floating_pointer[10 := checksum floating_pointer] @
     (mp_header vcpus (mptable_entries vcpus) @ mptable_entries vcpus)
       [7 := checksum (mp_header vcpus (mptable_entries vcpus) @ mptable_entries vcpus)]"
  by (simp add: mptable_def Let_def FLOATING_POINTER_CHECKSUM_def FLOATING_POINTER_LEN_def
      HEADER_CHECKSUM_def floating_pointer_shape list_update_append)

text \<open>The MP table a guest is booted with is valid and out of its way. For every permitted
  vCPU count both checksums make their part sum to zero, the header's length and entry count are those of
  the table that follows it, and the whole table lies between the end of usable low RAM and 1 MiB,
  where the E820 map reports no RAM.\<close>
theorem mptable_valid:
  assumes "vcpus \<le> MAX_VCPUS"
  shows "sum_list (take 16 (mptable vcpus)) = 0 \<and> sum_list (drop 16 (mptable vcpus)) = 0 \<and>
    length (mptable vcpus) = 284 + 20 * unat vcpus \<and>
    unat (from_le_bytes (take 2 (drop 20 (mptable vcpus))) :: u16) = length (mptable vcpus) - 16 \<and>
    unat (from_le_bytes (take 2 (drop 50 (mptable vcpus))) :: u16) = unat vcpus + 28 \<and>
    unat MPTABLE_START + length (mptable vcpus) \<le> unat HIGH_RAM_START"
proof -
  let ?e = "mptable_entries vcpus"
  let ?r = "mp_header vcpus ?e @ ?e"
  have c: "unat vcpus \<le> 64" using assms by (simp add: word_le_nat_alt MAX_VCPUS_def)
  have len: "length (mptable vcpus) = 284 + 20 * unat vcpus"
    by (simp add: mptable_parts floating_pointer_shape mp_header_shape length_mptable_entries)
  have tk: "take 16 (mptable vcpus) = floating_pointer[10 := checksum floating_pointer]"
    and dr: "drop 16 (mptable vcpus) = ?r[7 := checksum ?r]"
    by (simp_all add: mptable_parts floating_pointer_shape)
  have sum1: "sum_list (take 16 (mptable vcpus)) = 0"
    unfolding tk by (rule checksum_field) (simp_all add: floating_pointer_shape)
  have sum2: "sum_list (drop 16 (mptable vcpus)) = 0"
    unfolding dr by (rule checksum_field) (simp_all add: mp_header_shape nth_append)
  have split: "drop (16 + k) (mptable vcpus) = drop k (?r[7 := checksum ?r])" for k
    using dr by (metis add.commute drop_drop)
  have "take 2 (drop 20 (mptable vcpus)) = to_le_bytes 2 (of_nat (44 + length ?e) :: u16)"
    using split[of 4] by (simp add: mp_header_def ascii_def MP_HEADER_LEN_def)
  moreover have "unat (of_nat (44 + length ?e) :: u16) = 44 + length ?e"
    using c by (simp add: unat_of_nat length_mptable_entries take_bit_nat_eq_self del: of_nat_add)
  ultimately have f1: "unat (from_le_bytes (take 2 (drop 20 (mptable vcpus))) :: u16) = length (mptable vcpus) - 16"
    by (simp add: from_to_le_bytes len length_mptable_entries)
  have "take 2 (drop 50 (mptable vcpus)) = to_le_bytes 2 (ucast vcpus + 2 + ucast IOAPIC_PINS + 2 :: u16)"
    using split[of 34] by (simp add: mp_header_def ascii_def)
  moreover have "unat (ucast vcpus + 2 + ucast IOAPIC_PINS + 2 :: u16) = unat vcpus + 28"
  proof -
    have "unat (ucast vcpus :: u16) = unat vcpus" by (rule unat_ucast_up) simp
    then show ?thesis using c by (simp add: IOAPIC_PINS_def unat_word_ariths)
  qed
  ultimately have f2: "unat (from_le_bytes (take 2 (drop 50 (mptable vcpus))) :: u16) = unat vcpus + 28"
    by (simp add: from_to_le_bytes)
  show ?thesis using sum1 sum2 len f1 f2 c
    by (simp add: MPTABLE_START_def LOW_RAM_END_def HIGH_RAM_START_def)
qed

lemma mptable_valid_witness:
  "sum_list (take 16 (mptable 64)) = 0 \<and> length (mptable 64) = 1564"
  using mptable_valid[of 64] by (simp add: MAX_VCPUS_def)

section \<open>Usable RAM\<close>

definition range_contains :: "u64 \<times> nat \<Rightarrow> u64 \<Rightarrow> bool" where
  "range_contains = (\<lambda>(start, sz) a. unat start \<le> unat a \<and> unat a < unat start + sz)"

definition entry_contains :: "e820_entry \<Rightarrow> u64 \<Rightarrow> bool" where
  "entry_contains e a \<longleftrightarrow> e8_type e = E820_RAM \<and> unat (e8_addr e) \<le> unat a \<and>
     unat a < unat (e8_addr e) + unat (e8_size e)"

lemma e820_piece_contains:
  "(\<exists>e\<in>set (e820_piece (from, til)). entry_contains e a) \<longleftrightarrow> from \<le> a \<and> a < til"
proof -
  have "unat from + unat (til - from) = unat til" if "from < til"
    using that by (simp add: unat_sub word_le_nat_alt word_less_nat_alt)
  then show ?thesis
    by (auto simp: e820_piece_def entry_contains_def word_le_nat_alt word_less_nat_alt)
qed

lemma length_e820_entries: "length (e820_entries rs) \<le> 2 * length rs"
  by (induction rs) (auto simp: e820_entries_def e820_piece_def Let_def split: prod.split)

lemma e820_range_contains:
  assumes "unat start + sz < 2 ^ 64"
  shows "(\<exists>e\<in>set (e820_entries [(start, sz)]). entry_contains e a) \<longleftrightarrow>
    range_contains (start, sz) a \<and> \<not> (LOW_RAM_END \<le> a \<and> a < HIGH_RAM_START)"
proof -
  define e where "e = start + of_nat sz"
  have "unat (of_nat sz :: u64) = sz"
    using assms by (simp add: unat_of_nat take_bit_nat_eq_self)
  then have e: "unat e = unat start + sz"
    using unat_add_fits[of start "of_nat sz"] assms by (simp add: e_def)
  have "LOW_RAM_END \<le> HIGH_RAM_START" by (simp add: LOW_RAM_END_def HIGH_RAM_START_def)
  then have "(\<exists>e\<in>set (e820_entries [(start, sz)]). entry_contains e a) \<longleftrightarrow>
      (start \<le> a \<and> a < e) \<and> \<not> (LOW_RAM_END \<le> a \<and> a < HIGH_RAM_START)"
    unfolding e820_entries_def e_def[symmetric]
    by (auto simp: bex_Un e820_piece_contains e_def[symmetric] Let_def)
  then show ?thesis
    by (simp add: range_contains_def e word_le_nat_alt word_less_nat_alt)
qed

text \<open>The E820 map is exact. For every valid configuration the map has at most two entries, so
  the zero page always has room for it, and an address is usable RAM in the map exactly when guest RAM
  backs it and it is not in the hole from \<open>LOW_RAM_END\<close> to 1 MiB, where the MP table and the legacy
  areas are.\<close>
theorem e820_exact:
  assumes "VmConfig_validate c = Inr ()"
  shows "length (e820_entries (ram_ranges (memory_mib c))) \<le> 2 \<and>
    ((\<exists>e\<in>set (e820_entries (ram_ranges (memory_mib c))). entry_contains e a) \<longleftrightarrow>
     (\<exists>r\<in>set (ram_ranges (memory_mib c)). range_contains r a) \<and>
     \<not> (LOW_RAM_END \<le> a \<and> a < HIGH_RAM_START))"
proof -
  obtain start sz where r: "ram_ranges (memory_mib c) = [(start, sz)]" by (simp add: ram_ranges_def)
  then have "unat start + sz \<le> unat MMIO_HOLE_START"
    using ram_below_hole[OF assms, of start sz] by simp
  then have "unat start + sz < 2 ^ 64" by (simp add: MMIO_HOLE_START_def)
  then show ?thesis
    using e820_range_contains[of start sz a] length_e820_entries[of "[(start, sz)]"] by (simp add: r)
qed

definition one_gib :: vm_config where
  "one_gib = \<lparr>vcpu_count = 1, memory_mib = 1024, kernel = ''vmlinux'', cmdline = ''quiet'',
     initramfs = None, disks = []\<rparr>"

lemma one_gib_valid: "VmConfig_validate one_gib = Inr ()"
  by (simp add: VmConfig_validate_def one_gib_def MAX_VCPUS_def MAX_MEMORY_MIB_def MAX_DISKS_def
      MAX_CMDLINE_BYTES_def less_eq_char_def)

lemma e820_exact_witness:
  "(\<exists>e\<in>set (e820_entries (ram_ranges (memory_mib one_gib))). entry_contains e 0x3fffffff) \<and>
   \<not> (\<exists>e\<in>set (e820_entries (ram_ranges (memory_mib one_gib))). entry_contains e 0x40000000) \<and>
   \<not> (\<exists>e\<in>set (e820_entries (ram_ranges (memory_mib one_gib))). entry_contains e 0xa0000)"
  using e820_exact[OF one_gib_valid, of "0x3fffffff"] e820_exact[OF one_gib_valid, of "0x40000000"]
    e820_exact[OF one_gib_valid, of "0xa0000"]
  by (simp add: one_gib_def ram_ranges_def range_contains_def RAM_START_def MIB_def LOW_RAM_END_def
      HIGH_RAM_START_def)

section \<open>The initramfs slot\<close>

text \<open>The slot is a page, ends inside RAM, and no higher page would do.\<close>

lemma initramfs_slot:
  assumes "initramfs_start ram_end sz = Some start"
  shows "unat start mod 4096 = 0" "unat start + unat sz \<le> unat ram_end"
    "k mod 4096 = 0 \<Longrightarrow> k + unat sz \<le> unat ram_end \<Longrightarrow> k \<le> unat start"
proof -
  have le: "unat sz \<le> unat ram_end" and start: "start = (ram_end - sz) AND NOT 0xfff"
    using assms by (auto simp: initramfs_start_def checked_sub_def INITRAMFS_PAGE_def word_le_nat_alt
        split: if_split_asm)
  have d: "unat (ram_end - sz) = unat ram_end - unat sz"
    using le by (simp add: unat_sub word_le_nat_alt)
  have "start = push_bit 12 (drop_bit 12 (ram_end - sz))"
  proof (rule bit_word_eqI)
    fix n assume "n < LENGTH(64)"
    have m: "(0xfff :: u64) = mask 12" by (simp add: mask_eq_exp_minus_1)
    show "bit start n = bit (push_bit 12 (drop_bit 12 (ram_end - sz))) n"
      unfolding start m
      by (cases "n < 12")
        (use \<open>n < LENGTH(64)\<close> in \<open>auto simp: bit_and_iff bit_not_iff bit_mask_iff bit_push_bit_iff bit_drop_bit_eq\<close>)
  qed
  moreover have "unat (push_bit 12 (drop_bit 12 w)) = unat w div 4096 * 4096" for w :: u64
  proof -
    have "unat w div 4096 * 4096 < 2 ^ 64"
      using unsigned_less[of w, where 'a = nat] div_times_less_eq_dividend[of "unat w" 4096]
      by (simp add: order_le_less_trans)
    then show ?thesis
      by (simp add: unsigned_push_bit_eq unsigned_drop_bit_eq push_bit_nat_def drop_bit_nat_def take_bit_nat_eq_self)
  qed
  ultimately have u: "unat start = (unat ram_end - unat sz) div 4096 * 4096"
    by (simp add: d)
  show "unat start mod 4096 = 0" using u by simp
  have "(unat ram_end - unat sz) div 4096 * 4096 \<le> unat ram_end - unat sz" by simp
  then show "unat start + unat sz \<le> unat ram_end" using u le by linarith
  show "k \<le> unat start" if "k mod 4096 = 0" "k + unat sz \<le> unat ram_end"
  proof -
    have "4096 dvd k" using that(1) by (rule mod_0_imp_dvd)
    then obtain j where k: "k = 4096 * j" by (rule dvdE)
    then have "j \<le> (unat ram_end - unat sz) div 4096" using that(2) by (simp add: less_eq_div_iff_mult_less_eq)
    then show ?thesis using k u by simp
  qed
qed

end
