(* ===== verification/Boot.thy ===== *)
theory Boot
  imports Boot_Data
begin

text \<open>
  The composition of the boot loader, \<open>boot::prepare\<close> of \<open>src/src/vmm/src/boot/mod.rs\<close>, over the steps
  of \<open>Boot_Data\<close> and \<open>Boot_Tables\<close>, with what it leaves in guest RAM. Files and the ELF loader are
  parameters, as guest memory is.
\<close>

record ('f, 'm) boot_file_ops =
  bf_open :: "string \<Rightarrow> error_kind + 'f"
  bf_len :: "'f \<Rightarrow> error_kind + nat"
  bf_read_exact :: "'f \<Rightarrow> u64 \<Rightarrow> nat \<Rightarrow> 'm \<Rightarrow> 'm \<times> (error_kind + unit)"
  bf_elf_load :: "'f \<Rightarrow> 'm \<Rightarrow> 'm \<times> (error_kind + u64)"
  bf_ram_end :: "'m \<Rightarrow> u64"

text \<open>\<open>bf_ram_end\<close> is the length of the region \<open>find_region\<close> finds at address 0, or 0.\<close>

record boot_setup =
  boot_regs :: boot_registers

definition load_elf :: "('f, 'm) boot_file_ops \<Rightarrow> 'f \<Rightarrow> 'm \<Rightarrow> 'm \<times> (error_kind + u64)" where
  "load_elf fo f m =
     (case bf_elf_load fo f m of
        (m, Inl _) \<Rightarrow> (m, Inl OtherKind)
      | (m, Inr entry) \<Rightarrow> (m, Inr entry))"

definition load_initramfs_file ::
    "('f, 'm) boot_file_ops \<Rightarrow> string \<Rightarrow> 'm \<Rightarrow> 'm \<times> (error_kind + u64 \<times> nat)" where
  "load_initramfs_file fo path m =
     (case bf_open fo path of
        Inl e \<Rightarrow> (m, Inl e)
      | Inr f \<Rightarrow>
          (case bf_len fo f of
             Inl e \<Rightarrow> (m, Inl e)
           | Inr sz \<Rightarrow>
               (case load_initramfs (bf_read_exact fo f) (bf_ram_end fo m) sz m of
                  (m, Inl e) \<Rightarrow> (m, Inl e)
                | (m, Inr start) \<Rightarrow> (m, Inr (start, sz)))))"

definition load_optional_initramfs ::
    "('f, 'm) boot_file_ops \<Rightarrow> string option \<Rightarrow> 'm \<Rightarrow> 'm \<times> (vmm_error + (u64 \<times> nat) option)" where
  "load_optional_initramfs fo path m =
     (case path of
        None \<Rightarrow> (m, Inr None)
      | Some path \<Rightarrow>
          (case load_initramfs_file fo path m of
             (m, Inl e) \<Rightarrow> (m, Inl (LoadInitramfs path e))
           | (m, Inr slot) \<Rightarrow> (m, Inr (Some slot))))"

definition write_boot_data ::
    "'m boot_mem_ops \<Rightarrow> 'm loader_ops \<Rightarrow> vm_config \<Rightarrow> u64 \<Rightarrow> (u64 \<times> nat) option \<Rightarrow> 'm \<Rightarrow>
     'm \<times> (vmm_error + boot_setup)" where
  "write_boot_data mo lo c entry ramdisk m =
     (case write_boot_params lo (cmdline c) (ram_ranges (memory_mib c)) ramdisk m of
        (m, Inl e) \<Rightarrow> (m, Inl (WriteBootData ''boot parameters'' e))
      | (m, Inr zero_page) \<Rightarrow>
          (case write_mptable mo (vcpu_count c) m of
             (m, Inl e) \<Rightarrow> (m, Inl (WriteBootData ''MP table'' e))
           | (m, Inr _) \<Rightarrow>
               (case long_mode_entry mo entry zero_page m of
                  (m, Inl e) \<Rightarrow> (m, Inl (WriteBootData ''boot GDT and page tables'' e))
                | (m, Inr regs) \<Rightarrow> (m, Inr \<lparr>boot_regs = regs\<rparr>))))"

definition prepare ::
    "('f, 'm) boot_file_ops \<Rightarrow> 'm boot_mem_ops \<Rightarrow> 'm loader_ops \<Rightarrow> vm_config \<Rightarrow> 'm \<Rightarrow>
     'm \<times> (vmm_error + boot_setup)" where
  "prepare fo mo lo c m =
     (case bf_open fo (kernel c) of
        Inl e \<Rightarrow> (m, Inl (LoadKernel (kernel c) e))
      | Inr f \<Rightarrow>
          (case load_elf fo f m of
             (m, Inl e) \<Rightarrow> (m, Inl (LoadKernel (kernel c) e))
           | (m, Inr entry) \<Rightarrow>
               (case load_optional_initramfs fo (initramfs c) m of
                  (m, Inl e) \<Rightarrow> (m, Inl e)
                | (m, Inr ramdisk) \<Rightarrow> write_boot_data mo lo c entry ramdisk m)))"

section \<open>What guest RAM holds afterwards\<close>

text \<open>
  The documented behaviour of the memory crate: a successful write puts the bytes at consecutive
  addresses and leaves every other byte. \<open>rd\<close> observes one byte of RAM; the command line is written
  with its terminating NUL, and \<open>zp\<close> are the bytes of the zero page.
\<close>

definition holds :: "('m \<Rightarrow> u64 \<Rightarrow> u8) \<Rightarrow> 'm \<Rightarrow> u64 \<Rightarrow> u8 list \<Rightarrow> bool" where
  "holds rd m a bytes \<longleftrightarrow> (\<forall>i < length bytes. rd m (a + of_nat i) = bytes ! i)"

definition writes_only :: "('m \<Rightarrow> u64 \<Rightarrow> u8) \<Rightarrow> 'm \<Rightarrow> u64 \<Rightarrow> u8 list \<Rightarrow> 'm \<Rightarrow> bool" where
  "writes_only rd m a bytes m' \<longleftrightarrow> holds rd m' a bytes \<and>
     (\<forall>b. \<not> (unat a \<le> unat b \<and> unat b < unat a + length bytes) \<longrightarrow> rd m' b = rd m b)"

definition memory_laws ::
    "('m \<Rightarrow> u64 \<Rightarrow> u8) \<Rightarrow> (boot_params \<Rightarrow> u8 list) \<Rightarrow> 'm boot_mem_ops \<Rightarrow> 'm loader_ops \<Rightarrow> bool" where
  "memory_laws rd zp mo lo \<longleftrightarrow>
     (\<forall>bytes a m m'. bm_write_slice mo bytes a m = (m', Inr ()) \<longrightarrow> writes_only rd m a bytes m') \<and>
     (\<forall>a line m m'. lo_load_cmdline lo a line m = (m', Inr ()) \<longrightarrow>
        writes_only rd m a (ascii line @ [0]) m') \<and>
     (\<forall>p a m m'. lo_write_bootparams lo p a m = (m', Inr ()) \<longrightarrow> writes_only rd m a (zp p) m') \<and>
     (\<forall>p. length (zp p) = 4096) \<and>
     (\<forall>cap text_line line. lo_cmdline lo cap text_line = Some line \<longrightarrow> length line < cap)"

lemma writes_onlyD: "writes_only rd m a bytes m' \<Longrightarrow> holds rd m' a bytes"
  by (simp add: writes_only_def)

lemma holds_after_disjoint:
  assumes "holds rd m a bytes" "writes_only rd m b others m'"
    "unat a + length bytes < 2 ^ 64"
    "unat a + length bytes \<le> unat b \<or> unat b + length others \<le> unat a"
  shows "holds rd m' a bytes"
  unfolding holds_def
proof (intro allI impI)
  fix i assume i: "i < length bytes"
  have "unat (of_nat i :: u64) = i"
    using i assms(3) by (simp add: unat_of_nat take_bit_nat_eq_self)
  then have "unat (a + of_nat i) = unat a + i"
    using unat_add_fits[of a "of_nat i"] i assms(3) by simp
  then have "\<not> (unat b \<le> unat (a + of_nat i) \<and> unat (a + of_nat i) < unat b + length others)"
    using i assms(4) by auto
  then show "rd m' (a + of_nat i) = bytes ! i"
    using assms(1,2) i by (simp add: writes_only_def holds_def)
qed


text \<open>The start and the length of the initramfs the zero page names.\<close>

definition u64_ramdisk :: "boot_params \<Rightarrow> u64 \<times> u64" where
  "u64_ramdisk p = (ucast (bp_ramdisk_image p), ucast (bp_ramdisk_size p))"

definition zero_page :: "string \<Rightarrow> u32 \<Rightarrow> u32 \<Rightarrow> e820_entry list \<Rightarrow> boot_params" where
  "zero_page line img k es =
     \<lparr>bp_type_of_loader = LOADER_UNDEFINED, bp_boot_flag = BOOT_FLAG,
       bp_header = HEADER_MAGIC, bp_kernel_alignment = KERNEL_ALIGNMENT,
       bp_cmd_line_ptr = ucast CMDLINE_START, bp_cmdline_size = of_nat (length line + 1),
       bp_ramdisk_image = img, bp_ramdisk_size = k, bp_e820_table = es,
       bp_e820_entries = of_nat (length es)\<rparr>"

lemma u32_field_ucast: "u32_field w = Some x \<Longrightarrow> ucast x = w"
proof -
  assume some: "u32_field w = Some x"
  then have x: "x = ucast w" and small: "unat w < 2 ^ 32" by (simp_all add: u32_field_def split: if_split_asm)
  have "unat (ucast x :: u64) = unat w"
    using small by (simp only: x unsigned_ucast_eq) (simp add: unsigned_take_bit_eq take_bit_nat_eq_self)
  then show "ucast x = w" by (simp only: word_unat_eq_iff)
qed

lemma write_boot_params_ok:
  assumes "write_boot_params lo text_line rs ramdisk m = (m', Inr z)"
  shows "z = ZERO_PAGE_START \<and> (\<exists>line p m1. lo_cmdline lo MAX_CMDLINE_BYTES text_line = Some line \<and>
    lo_load_cmdline lo CMDLINE_START line m = (m1, Inr ()) \<and>
    lo_write_bootparams lo p ZERO_PAGE_START m1 = (m', Inr ()) \<and>
    bp_e820_table p = e820_entries rs \<and> unat (bp_e820_entries p) = length (e820_entries rs) \<and>
    bp_cmd_line_ptr p = ucast CMDLINE_START \<and> bp_cmdline_size p = of_nat (length line + 1) \<and>
    u64_ramdisk p = (case ramdisk of None \<Rightarrow> (0, 0) | Some (start, sz) \<Rightarrow> (start, of_nat sz)))"
proof -
  obtain line where line: "lo_cmdline lo MAX_CMDLINE_BYTES text_line = Some line"
    using assms by (simp add: write_boot_params_def split: option.split_asm)
  have n: "unat (of_nat k :: u8) = k" if "k \<le> E820_SLOTS" for k
    using that by (simp add: E820_SLOTS_def unat_of_nat take_bit_nat_eq_self)
  obtain img k where
      f: "(ucast img, ucast k) = (case ramdisk of None \<Rightarrow> (0 :: u64, 0 :: u64) | Some (start, sz) \<Rightarrow> (start, of_nat sz))"
    and few: "length (e820_entries rs) \<le> E820_SLOTS"
    and z: "z = ZERO_PAGE_START"
    and w: "\<exists>m1. lo_load_cmdline lo CMDLINE_START line m = (m1, Inr ()) \<and>
      lo_write_bootparams lo (zero_page line img k (e820_entries rs)) ZERO_PAGE_START m1 = (m', Inr ())"
  proof (cases ramdisk)
    case None
    show thesis
      by (rule that[of 0 0])
        (use assms line in \<open>auto simp: write_boot_params_def Let_def not_less None zero_page_def
          split: prod.split_asm sum.split_asm if_split_asm\<close>)
  next
    case (Some slot)
    then obtain start sz where slot: "ramdisk = Some (start, sz)" by (cases slot) simp
    then obtain img k where g: "u32_field start = Some img" "u32_field (of_nat sz) = Some k"
      using assms line by (auto simp: write_boot_params_def split: option.split_asm)
    show thesis
      by (rule that[of img k])
        (use assms line u32_field_ucast[OF g(1)] u32_field_ucast[OF g(2)] in
          \<open>auto simp: write_boot_params_def Let_def not_less slot g zero_page_def
            split: prod.split_asm sum.split_asm if_split_asm\<close>)
  qed
  from w obtain m1 where m1: "lo_load_cmdline lo CMDLINE_START line m = (m1, Inr ())"
    "lo_write_bootparams lo (zero_page line img k (e820_entries rs)) ZERO_PAGE_START m1 = (m', Inr ())" by blast
  show ?thesis
    using line f m1
    by (intro conjI z exI[of _ line] exI[of _ "zero_page line img k (e820_entries rs)"] exI[of _ m1])
      (simp_all add: zero_page_def u64_ramdisk_def n[OF few])
qed

lemma write_mptable_ok:
  "write_mptable mo n m = (m', Inr ()) \<Longrightarrow> bm_write_slice mo (mptable n) MPTABLE_START m = (m', Inr ())"
  by (auto simp: write_mptable_def split: prod.split_asm sum.split_asm)

lemma long_mode_entry_ok:
  assumes "long_mode_entry mo entry z m = (m', Inr regs)"
  shows "\<exists>m1. bm_write_slice mo (concat (map (to_le_bytes 8) GDT)) GDT_START m = (m1, Inr ()) \<and>
    bm_write_slice mo page_tables PML4_START m1 = (m', Inr ()) \<and>
    regs = \<lparr>br_rip = entry, br_rsp = BOOT_STACK, br_rsi = z, br_rflags = RFLAGS_FIXED,
      br_cr0 = CR0_PE OR CR0_ET OR CR0_PG, br_cr3 = PML4_START, br_cr4 = CR4_PAE, br_efer = EFER_LME OR EFER_LMA,
      br_code = segment BOOT_CS, br_data = segment BOOT_DS, br_gdt_base = GDT_START,
      br_gdt_limit = of_nat (8 * length GDT - 1), br_idt_base = 0, br_idt_limit = 0\<rparr>"
  using assms
  by (auto simp: long_mode_entry_def split: prod.split_asm sum.split_asm if_split_asm)

lemma prepare_ok:
  assumes "prepare fo mo lo c m = (m', Inr entered)"
  shows "\<exists>f entry ramdisk m1 m2. bf_open fo (kernel c) = Inr f \<and> load_elf fo f m = (m1, Inr entry) \<and>
    load_optional_initramfs fo (initramfs c) m1 = (m2, Inr ramdisk) \<and>
    write_boot_data mo lo c entry ramdisk m2 = (m', Inr entered)"
  using assms by (fastforce simp: prepare_def split: prod.split_asm sum.split_asm)

lemma write_boot_data_ok:
  assumes "write_boot_data mo lo c entry ramdisk m = (m', Inr entered)"
  shows "\<exists>z m1 m2. write_boot_params lo (cmdline c) (ram_ranges (memory_mib c)) ramdisk m = (m1, Inr z) \<and>
    write_mptable mo (vcpu_count c) m1 = (m2, Inr ()) \<and>
    long_mode_entry mo entry z m2 = (m', Inr (boot_regs entered))"
  using assms by (fastforce simp: write_boot_data_def split: prod.split_asm sum.split_asm)

text \<open>The areas the loader writes, in address order, and their lengths.\<close>

lemma boot_areas:
  "unat GDT_START = 0x500" "length (concat (map (to_le_bytes 8) GDT)) = 32"
  "unat ZERO_PAGE_START = 0x7000" "unat PML4_START = 0x9000" "length page_tables = 0x5000"
  "unat CMDLINE_START = 0x20000" "unat MPTABLE_START = 0x9fc00"
  by (simp_all add: GDT_START_def length_concat_le_bytes GDT_def ZERO_PAGE_START_def PML4_START_def
      page_tables_def length_table_entries CMDLINE_START_def MPTABLE_START_def LOW_RAM_END_def
      del: concat.simps list.map)

lemma GDT_len: "length GDT = 4" by (simp add: GDT_def)

lemma entry_mode:
  "bit CR0_PE 0" "bit (CR0_PE OR CR0_ET OR CR0_PG) 0" "bit (CR0_PE OR CR0_ET OR CR0_PG) 31" "bit CR4_PAE 5"
  "bit (EFER_LME OR EFER_LMA) 8" "bit (EFER_LME OR EFER_LMA) 10" "\<not> bit RFLAGS_FIXED 9"
  by (simp_all add: CR0_PE_def CR0_ET_def CR0_PG_def CR4_PAE_def EFER_LME_def EFER_LMA_def RFLAGS_FIXED_def
      bit_or_iff bit_push_bit_iff bit_1_iff)

text \<open>C11. The loader's boot data do not overwrite one another, and the entry registers point at them.
  When \<open>prepare\<close> succeeds for a valid configuration, guest RAM still holds the NUL-terminated command
  line, the zero page (which names that line and its length, the E820 table of the RAM and the initramfs
  that was loaded, if any), the MP table of the configured vCPUs, the GDT and the page tables, each at its
  address. The boot vCPU starts at the entry point of the ELF file in 64-bit mode with interrupts off: RSI
  is the zero page, CR3 the page tables, the GDT register the base and the last byte of that GDT, the two
  segments are the flat ones its descriptors encode, and the stack lies between the zero page and the
  tables. Whether the initramfs stays clear of the kernel is not checked by the code and not claimed.\<close>
theorem boot_data_intact:
  assumes laws: "memory_laws rd zp mo lo" and valid: "VmConfig_validate c = Inr ()"
    and ok: "prepare fo mo lo c m = (m', Inr entered)"
  shows "\<exists>f line p m1 m2 ramdisk. bf_open fo (kernel c) = Inr f \<and>
    bf_elf_load fo f m = (m1, Inr (br_rip (boot_regs entered))) \<and>
    load_optional_initramfs fo (initramfs c) m1 = (m2, Inr ramdisk) \<and>
    u64_ramdisk p = (case ramdisk of None \<Rightarrow> (0, 0) | Some (start, sz) \<Rightarrow> (start, of_nat sz)) \<and>
    lo_cmdline lo MAX_CMDLINE_BYTES (cmdline c) = Some line \<and>
    bp_cmd_line_ptr p = ucast CMDLINE_START \<and> bp_cmdline_size p = of_nat (length line + 1) \<and>
    bp_e820_table p = e820_entries (ram_ranges (memory_mib c)) \<and>
    unat (bp_e820_entries p) = length (bp_e820_table p) \<and>
    holds rd m' CMDLINE_START (ascii line @ [0]) \<and> holds rd m' (br_rsi (boot_regs entered)) (zp p) \<and>
    holds rd m' MPTABLE_START (mptable (vcpu_count c)) \<and>
    holds rd m' (br_gdt_base (boot_regs entered)) (concat (map (to_le_bytes 8) GDT)) \<and>
    unat (br_gdt_limit (boot_regs entered)) + 1 = length (concat (map (to_le_bytes 8) GDT)) \<and>
    holds rd m' (br_cr3 (boot_regs entered)) page_tables \<and> br_cr3 (boot_regs entered) = PML4_START \<and>
    br_code (boot_regs entered) = segment 0x10 \<and> br_data (boot_regs entered) = segment 0x18 \<and>
    segment 0x10 = \<lparr>sg_base = 0, sg_limit = 0xffffffff, sg_selector = 0x10, sg_attributes = 0xa09b\<rparr> \<and>
    segment 0x18 = \<lparr>sg_base = 0, sg_limit = 0xffffffff, sg_selector = 0x18, sg_attributes = 0xc093\<rparr> \<and>
    bit (br_cr0 (boot_regs entered)) 0 \<and> bit (br_cr0 (boot_regs entered)) 31 \<and> bit (br_cr4 (boot_regs entered)) 5 \<and>
    bit (br_efer (boot_regs entered)) 8 \<and> bit (br_efer (boot_regs entered)) 10 \<and>
    \<not> bit (br_rflags (boot_regs entered)) 9 \<and>
    unat (br_rsi (boot_regs entered)) + length (zp p) < unat (br_rsp (boot_regs entered)) \<and>
    unat (br_rsp (boot_regs entered)) \<le> unat (br_cr3 (boot_regs entered))"
proof -
  let ?gdt = "concat (map (to_le_bytes 8) GDT)"
  obtain f entry ramdisk m1 m2 where f: "bf_open fo (kernel c) = Inr f"
    and elf: "load_elf fo f m = (m1, Inr entry)"
    and rd: "load_optional_initramfs fo (initramfs c) m1 = (m2, Inr ramdisk)"
    and d: "write_boot_data mo lo c entry ramdisk m2 = (m', Inr entered)"
    using prepare_ok[OF ok] by blast
  obtain z m3 m4 where p: "write_boot_params lo (cmdline c) (ram_ranges (memory_mib c)) ramdisk m2 = (m3, Inr z)"
    and t: "write_mptable mo (vcpu_count c) m3 = (m4, Inr ())"
    and e: "long_mode_entry mo entry z m4 = (m', Inr (boot_regs entered))"
    using write_boot_data_ok[OF d] by blast
  obtain line q m5 where z: "z = ZERO_PAGE_START" and line: "lo_cmdline lo MAX_CMDLINE_BYTES (cmdline c) = Some line"
    and wl: "lo_load_cmdline lo CMDLINE_START line m2 = (m5, Inr ())"
    and wz: "lo_write_bootparams lo q ZERO_PAGE_START m5 = (m3, Inr ())"
    and tab: "bp_e820_table q = e820_entries (ram_ranges (memory_mib c))"
      "unat (bp_e820_entries q) = length (e820_entries (ram_ranges (memory_mib c)))"
      "bp_cmd_line_ptr q = ucast CMDLINE_START" "bp_cmdline_size q = of_nat (length line + 1)"
      "u64_ramdisk q = (case ramdisk of None \<Rightarrow> (0, 0) | Some (start, sz) \<Rightarrow> (start, of_nat sz))"
    using write_boot_params_ok[OF p] by blast
  obtain m6 where g: "bm_write_slice mo ?gdt GDT_START m4 = (m6, Inr ())"
    and pt: "bm_write_slice mo page_tables PML4_START m6 = (m', Inr ())"
    and regs: "boot_regs entered = \<lparr>br_rip = entry, br_rsp = BOOT_STACK, br_rsi = z, br_rflags = RFLAGS_FIXED,
      br_cr0 = CR0_PE OR CR0_ET OR CR0_PG, br_cr3 = PML4_START, br_cr4 = CR4_PAE, br_efer = EFER_LME OR EFER_LMA,
      br_code = segment BOOT_CS, br_data = segment BOOT_DS, br_gdt_base = GDT_START,
      br_gdt_limit = of_nat (8 * length GDT - 1), br_idt_base = 0, br_idt_limit = 0\<rparr>"
    using long_mode_entry_ok[OF e] by blast
  have n: "unat (vcpu_count c) \<le> 64"
    using validate_Inr[OF valid] by (simp add: word_le_nat_alt MAX_VCPUS_def)
  have mpl: "length (mptable (vcpu_count c)) \<le> 0x700"
    using n by (simp add: mptable_parts floating_pointer_shape mp_header_shape length_mptable_entries)
  have ll: "length (ascii line @ [0]) \<le> 2048" and zl: "length (zp q) = 4096"
    using laws line by (auto simp: memory_laws_def ascii_def MAX_CMDLINE_BYTES_def Suc_le_eq)
  have w1: "writes_only rd m2 CMDLINE_START (ascii line @ [0]) m5"
    and w2: "writes_only rd m5 ZERO_PAGE_START (zp q) m3"
    and w3: "writes_only rd m3 MPTABLE_START (mptable (vcpu_count c)) m4"
    and w4: "writes_only rd m4 GDT_START ?gdt m6" and w5: "writes_only rd m6 PML4_START page_tables m'"
    using laws wl wz write_mptable_ok[OF t] g pt unfolding memory_laws_def by blast+
  note later = holds_after_disjoint[OF _ w5] holds_after_disjoint[OF _ w4] holds_after_disjoint[OF _ w3]
    holds_after_disjoint[OF _ w2]
  note sizes = boot_areas mpl zl
  have "holds rd m' CMDLINE_START (ascii line @ [0])"
    by (intro later writes_onlyD[OF w1]) (use sizes ll in auto)
  moreover have "holds rd m' ZERO_PAGE_START (zp q)"
    by (intro later(1-3) writes_onlyD[OF w2]) (use sizes in auto)
  moreover have "holds rd m' MPTABLE_START (mptable (vcpu_count c))"
    by (intro later(1-2) writes_onlyD[OF w3]) (use sizes in auto)
  moreover have "holds rd m' GDT_START ?gdt"
    by (intro later(1) writes_onlyD[OF w4]) (use sizes in auto)
  moreover have "holds rd m' PML4_START page_tables" by (rule writes_onlyD[OF w5])
  moreover have "bf_elf_load fo f m = (m1, Inr entry)"
    using elf by (simp add: load_elf_def split: prod.split_asm sum.split_asm)
  ultimately show ?thesis
    using f rd line tab zl
    by (intro exI[of _ f] exI[of _ line] exI[of _ q] exI[of _ m1] exI[of _ m2] exI[of _ ramdisk] conjI)
      (simp_all add: regs z entry_mode boot_segments[unfolded BOOT_CS_def BOOT_DS_def] BOOT_CS_def BOOT_DS_def
        boot_areas GDT_len BOOT_STACK_def del: concat.simps list.map)
qed

section \<open>A flat memory\<close>

text \<open>A memory the laws hold of: a byte at every address, and a loader that writes into it.\<close>

definition flat_write :: "u8 list \<Rightarrow> u64 \<Rightarrow> (u64 \<Rightarrow> u8) \<Rightarrow> (u64 \<Rightarrow> u8) \<times> (error_kind + unit)" where
  "flat_write bytes a m =
     (if unat a + length bytes \<le> 2 ^ 64
      then (\<lambda>b. if unat a \<le> unat b \<and> unat b < unat a + length bytes then bytes ! (unat b - unat a) else m b,
            Inr ())
      else (m, Inl OtherKind))"

definition flat_memory :: "(u64 \<Rightarrow> u8) boot_mem_ops" where
  "flat_memory = \<lparr>bm_check_range = \<lambda>_ _ _. True, bm_write_slice = flat_write\<rparr>"

definition flat_loader :: "(u64 \<Rightarrow> u8) loader_ops" where
  "flat_loader = \<lparr>lo_cmdline = \<lambda>cap line. if length line < cap then Some line else None,
     lo_load_cmdline = \<lambda>a line. flat_write (ascii line @ [0]) a,
     lo_write_bootparams = \<lambda>p. flat_write (replicate 4096 0)\<rparr>"

definition flat_files :: "(unit, u64 \<Rightarrow> u8) boot_file_ops" where
  "flat_files = \<lparr>bf_open = \<lambda>_. Inr (), bf_len = \<lambda>_. Inr 0, bf_read_exact = \<lambda>_ _ _ m. (m, Inr ()),
     bf_elf_load = \<lambda>_ m. (m, Inr 0x1000000), bf_ram_end = \<lambda>_. 0x8000000\<rparr>"

definition tiny_config :: vm_config where
  "tiny_config = \<lparr>vcpu_count = 2, memory_mib = 128, kernel = ''vmlinux'', cmdline = ''quiet'',
     initramfs = None, disks = []\<rparr>"

lemma flat_write_only:
  assumes "flat_write bytes a m = (m', Inr ())"
  shows "writes_only (\<lambda>m. m) m a bytes m'"
proof -
  have fits: "unat a + length bytes \<le> 2 ^ 64"
    and m': "m' = (\<lambda>b. if unat a \<le> unat b \<and> unat b < unat a + length bytes then bytes ! (unat b - unat a) else m b)"
    using assms by (auto simp: flat_write_def split: if_split_asm)
  have "unat (a + of_nat i) = unat a + i" if "i < length bytes" for i
  proof -
    have "unat (of_nat i :: u64) = i" using that fits by (simp add: unat_of_nat take_bit_nat_eq_self)
    then show ?thesis using unat_add_fits[of a "of_nat i"] that fits by simp
  qed
  then show ?thesis by (simp add: writes_only_def holds_def m')
qed

lemma flat_laws: "memory_laws (\<lambda>m. m) (\<lambda>_. replicate 4096 0) flat_memory flat_loader"
  by (auto simp: memory_laws_def flat_memory_def flat_loader_def flat_write_only split: if_split_asm)

lemma flat_write_ok: "unat a + length bytes \<le> 2 ^ 64 \<Longrightarrow> \<exists>m'. flat_write bytes a m = (m', Inr ())"
  by (simp add: flat_write_def)

lemma flat_prepare:
  "\<exists>m' entered. prepare flat_files flat_memory flat_loader tiny_config (\<lambda>_. 0) = (m', Inr entered)"
proof -
  have n: "length (mptable 2) = 324"
    by (simp add: mptable_parts floating_pointer_shape mp_header_shape length_mptable_entries)
  have w: "snd (flat_write bytes a m) = Inr ()" if "unat a + length bytes \<le> 2 ^ 64" for bytes a m
    using that by (simp add: flat_write_def)
  have "length (e820_entries (ram_ranges 128)) \<le> E820_SLOTS"
    using length_e820_entries[of "ram_ranges 128"] by (simp add: ram_ranges_def E820_SLOTS_def)
  then have "snd (write_boot_params flat_loader ''quiet'' (ram_ranges 128) None (\<lambda>_. 0)) = Inr ZERO_PAGE_START"
    by (simp add: write_boot_params_def flat_loader_def Let_def MAX_CMDLINE_BYTES_def ascii_def
        split_def w boot_areas)
  then obtain m1 where p: "write_boot_params flat_loader ''quiet'' (ram_ranges 128) None (\<lambda>_. 0) =
      (m1, Inr ZERO_PAGE_START)"
    by (metis prod.collapse)
  have "snd (write_mptable flat_memory 2 m1) = Inr ()"
    by (simp add: write_mptable_def flat_memory_def split_def w boot_areas n)
  then obtain m2 where t: "write_mptable flat_memory 2 m1 = (m2, Inr ())" by (metis prod.collapse)
  have "\<exists>regs. snd (long_mode_entry flat_memory 0x1000000 ZERO_PAGE_START m2) = Inr regs"
    by (simp add: long_mode_entry_def flat_memory_def split_def w boot_areas)
  then obtain m3 regs where e: "long_mode_entry flat_memory 0x1000000 ZERO_PAGE_START m2 = (m3, Inr regs)"
    by (metis prod.collapse)
  show ?thesis
    using p t e
    by (simp add: prepare_def flat_files_def load_elf_def load_optional_initramfs_def tiny_config_def
        write_boot_data_def)
qed

lemma boot_data_intact_witness:
  "\<exists>m' entered. prepare flat_files flat_memory flat_loader tiny_config (\<lambda>_. 0) = (m', Inr entered) \<and>
     holds (\<lambda>m. m) m' MPTABLE_START (mptable 2) \<and> br_cr3 (boot_regs entered) = PML4_START \<and>
     br_rip (boot_regs entered) = 0x1000000"
proof -
  obtain m' entered where p: "prepare flat_files flat_memory flat_loader tiny_config (\<lambda>_. 0) = (m', Inr entered)"
    using flat_prepare by blast
  have v: "VmConfig_validate tiny_config = Inr ()"
    by (simp add: VmConfig_validate_def tiny_config_def MAX_VCPUS_def MAX_MEMORY_MIB_def MAX_DISKS_def
        MAX_CMDLINE_BYTES_def less_eq_char_def)
  show ?thesis using boot_data_intact[OF flat_laws v p] p by (auto simp: tiny_config_def flat_files_def)
qed

end
