(* ===== verification/Vm.thy ===== *)
theory Vm
  imports Vcpus Guest_Ram Platform Boot Console
begin

text \<open>
  The virtual machine, \<open>Vm\<close> of \<open>src/src/vmm/src/vm.rs\<close>: its construction from the parts, the run over
  the threads of \<open>Vcpus\<close>, and its drop. Creating the event loop, the host VM and the worker runtime are
  host calls, the fields of \<open>vm_host_ops\<close>; \<open>None\<close> is a panic.
\<close>

record ('v, 'ws) vm_host_ops =
  vh_event_loop :: "error_kind + unit"
  vh_allocate :: "(u64 \<times> nat) list \<Rightarrow> memory_region list option"
  vh_host_vm :: "hypervisor_error + 'v"
  vh_workers :: "error_kind + 'ws"
  vh_map :: "'v vm_call"
  vh_unmap :: "'v vm_call"
  vh_shutdown :: "'ws \<Rightarrow> error_kind + unit"

record ('d, 'v, 'ws, 'm, 'r) vm =
  v_chipset :: "'d chipset"
  v_workers :: 'ws
  v_console :: "console_state option"
  v_boot_regs :: 'r
  v_vcpu_count :: u8
  v_created :: bool
  v_host_vm :: 'v
  v_ram :: guest_ram
  v_memory :: 'm

definition VirtioWorkers_shutdown :: "('v, 'ws) vm_host_ops \<Rightarrow> 'ws \<Rightarrow> vmm_error + unit" where
  "VirtioWorkers_shutdown h ws = map_sum VirtioWorker id (vh_shutdown h ws)"

text \<open>What the drop leaves: the RAM, whose own drop follows, and the host VM.\<close>

definition Vm_drop ::
    "('v, 'ws) vm_host_ops \<Rightarrow> ('d, 'v, 'ws, 'm, 'r) vm \<Rightarrow> (guest_ram \<times> 'v) option" where
  "Vm_drop h vm =
     (case VirtioWorkers_shutdown h (v_workers vm) of
        Inl e \<Rightarrow> Some (v_ram vm, v_host_vm vm)
      | Inr _ \<Rightarrow> map_option fst (GuestRam_unmap (vh_unmap h) (v_ram vm, v_host_vm vm)))"

text \<open>
  A failed construction gives its error with the RAM and host VM it drops, when it had created both.
  \<open>devs\<close> and \<open>boot\<close> are the two closures; \<open>m\<close> is the content of fresh guest RAM. \<open>attempt\<close> is the code's
  \<open>?\<close>, with what it returns on an error.
\<close>

definition attempt :: "'e + 'a \<Rightarrow> ('e \<Rightarrow> 'r) \<Rightarrow> ('a \<Rightarrow> 'r) \<Rightarrow> 'r" where
  "attempt r fail continue = (case r of Inl e \<Rightarrow> fail e | Inr x \<Rightarrow> continue x)"

type_synonym ('d, 'v, 'ws, 'm, 'r) construction =
  "((vmm_error \<times> (guest_ram \<times> 'v) option) + ('d, 'v, 'ws, 'm, 'r) vm) option"

definition boot_vm ::
    "('v, 'ws) vm_host_ops \<Rightarrow> (vm_config \<Rightarrow> 'm \<Rightarrow> 'm \<times> (vmm_error + 'r)) \<Rightarrow> vm_config \<Rightarrow>
     ('d, 'v, 'ws, 'm, 'r) vm \<Rightarrow> ('d, 'v, 'ws, 'm, 'r) construction" where
  "boot_vm h boot c vm =
     (let (m, r) = boot c (v_memory vm) in
      attempt r (\<lambda>e. map_option (\<lambda>s. Inl (e, Some s)) (Vm_drop h vm))
        (\<lambda>regs. Some (Inr (vm\<lparr>v_boot_regs := regs, v_memory := m\<rparr>))))"

definition with_devices ::
    "('v, 'ws) vm_host_ops \<Rightarrow> (vm_config \<Rightarrow> 'm \<Rightarrow> 'm \<times> (vmm_error + 'r)) \<Rightarrow>
     ('d builder \<Rightarrow> 'ws \<Rightarrow> vm_config \<Rightarrow> vmm_error + 'd builder \<times> 'ws \<times> vm_config) \<Rightarrow> vm_config \<Rightarrow> 'r \<Rightarrow> 'm \<Rightarrow>
     ('d, 'v, 'ws, 'm, 'r) construction" where
  "with_devices h boot devs c default_regs m =
     attempt (VmConfig_validate c) (\<lambda>e. Some (Inl (e, None))) (\<lambda>_.
     attempt (vh_event_loop h) (\<lambda>k. Some (Inl (EventLoop k, None))) (\<lambda>_.
     attempt (GuestRam_new (vh_allocate h) (ram_ranges (memory_mib c))) (\<lambda>e. Some (Inl (e, None))) (\<lambda>g.
     attempt (vh_host_vm h) (\<lambda>e. Some (Inl (Hypervisor e, None))) (\<lambda>v.
     attempt (vh_workers h) (\<lambda>k. Some (Inl (VirtioWorker k, Some (g, v)))) (\<lambda>ws.
     attempt (devs ChipsetBuilder_new ws c) (\<lambda>e. Some (Inl (e, Some (g, v)))) (\<lambda>(b, ws, c).
     attempt (ChipsetBuilder_build b) (\<lambda>e. Some (Inl (e, Some (g, v)))) (\<lambda>(_, chip).
     case GuestRam_map (vh_map h) (vh_unmap h) (g, v) of
       None \<Rightarrow> None
     | Some ((g, v), r) \<Rightarrow>
         attempt r (\<lambda>e. Some (Inl (e, Some (g, v)))) (\<lambda>_.
           boot_vm h boot c \<lparr>v_chipset = chip, v_workers = ws, v_console = None, v_boot_regs = default_regs,
             v_vcpu_count = vcpu_count c, v_created = True, v_host_vm = v, v_ram = g, v_memory = m\<rparr>))))))))"

lemma attempt_simps [simp]: "attempt (Inl e) f k = f e" "attempt (Inr x) f k = k x"
  by (simp_all add: attempt_def)

text \<open>\<open>Vm::new\<close> spawns the console worker and builds on the platform of \<open>Platform\<close> and \<open>Boot\<close>.\<close>

definition Vm_new where
  "Vm_new h spawn_error fo mo lo pf env c default_regs m =
     attempt (VmConfig_validate c) (\<lambda>e. Some (Inl (e, None))) (\<lambda>_.
     case ConsoleWorker_spawn DEFAULT_QUEUE_BYTES of
       None \<Rightarrow> Some (Inl (SpawnConsole InvalidInput, None))
     | Some console \<Rightarrow>
         (case spawn_error of
            Some k \<Rightarrow> Some (Inl (SpawnConsole k, None))
          | None \<Rightarrow>
              map_option (map_sum id (\<lambda>vm. vm\<lparr>v_console := Some console\<rparr>))
                (with_devices h (\<lambda>c m. apsnd (map_sum id boot_regs) (prepare fo mo lo c m))
                  (\<lambda>b ws c. map_sum id (\<lambda>(p, c). (p_builder p, p_workers p, c)) (add_all pf env c ws b))
                  c default_regs m)))"

text \<open>
  \<open>r\<close> is what the main thread of \<open>Vcpus\<close> joins with; \<open>exited\<close> says whether the console worker
  ends in time.
\<close>

definition Vm_run ::
    "('v, 'ws) vm_host_ops \<Rightarrow> bool \<Rightarrow> error_kind + event \<Rightarrow> ('d, 'v, 'ws, 'm, 'r) vm \<Rightarrow>
     ('d, 'v, 'ws, 'm, 'r) vm \<times> (vmm_error + vm_exit)" where
  "Vm_run h exited r vm =
     (if \<not> v_created vm then (vm, Inl AlreadyRan)
      else
        let vm = vm\<lparr>v_created := False\<rparr>;
            shutdown = VirtioWorkers_shutdown h (v_workers vm);
            vm = vm\<lparr>v_console := map_option (ConsoleWorker_finish exited) (v_console vm)\<rparr>
        in (vm, run_result r shutdown))"

section \<open>Nothing of a failed build stays mapped\<close>

lemma new_unmapped: "GuestRam_new allocate layout = Inr g \<Longrightarrow> gr_mapped g = 0"
  by (auto simp: GuestRam_new_def split: option.split_asm)

lemma on_kvm_freed:
  assumes "kvm_law sr in_slot" "on_kvm sr in_slot (g, v)"
  shows "{r. \<exists>s. in_slot (snd v) s = Some r} = set (take (gr_mapped g) (gr_regions g))"
    "\<not> GuestRam_drop_leaks g \<Longrightarrow> in_slot (snd v) s = None"
proof -
  have "books_agree in_slot v" using assms by (simp add: registered_def kvm_ok_def)
  from books_agree_ran[OF this] assms(2)
  show ran: "{r. \<exists>s. in_slot (snd v) s = Some r} = set (take (gr_mapped g) (gr_regions g))"
    by (simp add: registered_def)
  show "in_slot (snd v) s = None" if "\<not> GuestRam_drop_leaks g"
    using ran that by (cases "in_slot (snd v) s") (auto simp: GuestRam_drop_leaks_def)
qed

lemma Vm_drop_on_kvm:
  assumes "on_kvm sr in_slot (v_ram vm, v_host_vm vm)" "vh_unmap h = KvmVm_unmap_memory sr"
  shows "\<exists>s. Vm_drop h vm = Some s \<and> on_kvm sr in_slot s"
proof -
  obtain g v r where "GuestRam_unmap (KvmVm_unmap_memory sr) (v_ram vm, v_host_vm vm) = Some ((g, v), r)"
    "on_kvm sr in_slot (g, v)"
    using kvm.GuestRam_unmap_keeps[OF assms(1)] by blast
  then show ?thesis
    using assms by (cases "VirtioWorkers_shutdown h (v_workers vm)") (simp_all add: Vm_drop_def del: split_paired_Ex)
qed

text \<open>What a construction leaves of RAM and host VM, for any kernel-level predicate that the steps keep.\<close>

lemma with_devices_on_kvm:
  assumes law: "kvm_law sr in_slot" and fresh: "\<forall>s. in_slot k s = None" "limit \<le> 2 ^ 32"
    and h: "vh_host_vm h = Inr (MemorySlots_new limit page, k)" "vh_map h = KvmVm_map_memory sr"
      "vh_unmap h = KvmVm_unmap_memory sr"
  shows "case with_devices h boot devs c regs m of
      None \<Rightarrow> False
    | Some (Inl (e, None)) \<Rightarrow> True
    | Some (Inl (e, Some s)) \<Rightarrow> on_kvm sr in_slot s
    | Some (Inr vm) \<Rightarrow> on_kvm sr in_slot (v_ram vm, v_host_vm vm) \<and>
        gr_mapped (v_ram vm) = length (gr_regions (v_ram vm)) \<and> v_created vm"
proof (cases "VmConfig_validate c")
  case (Inl e)
  then show ?thesis by (simp add: with_devices_def)
next
  case val: (Inr u)
  show ?thesis
  proof (cases "vh_event_loop h")
    case (Inl e)
    then show ?thesis using val by (simp add: with_devices_def)
  next
    case ev: (Inr u')
    show ?thesis
    proof (cases "GuestRam_new (vh_allocate h) (ram_ranges (memory_mib c))")
      case (Inl e)
      then show ?thesis using val ev by (simp add: with_devices_def)
    next
      case ram: (Inr g)
      let ?v = "(MemorySlots_new limit page, k)"
      have "g = \<lparr>gr_regions = gr_regions g, gr_mapped = 0\<rparr>" using new_unmapped[OF ram] by simp
      then have start: "on_kvm sr in_slot (g, ?v)"
        using on_kvm_start[OF law fresh, of "gr_regions g" page] by metis
      have g0: "gr_mapped g = 0" by (rule new_unmapped[OF ram])
      obtain g1 v1 r where mp: "GuestRam_map (vh_map h) (vh_unmap h) (g, ?v) = Some ((g1, v1), r)"
        and reg: "on_kvm sr in_slot (g1, v1)" and full: "r = Inr () \<longrightarrow> gr_mapped g1 = length (gr_regions g1)"
        using kvm.GuestRam_map_keeps(2)[OF start g0] h by auto
      have drop: "Vm_drop h vm \<noteq> None" "Vm_drop h vm = Some s \<Longrightarrow> on_kvm sr in_slot s"
        if "v_host_vm vm = v1" "v_ram vm = g1" for vm s
        using Vm_drop_on_kvm[of sr in_slot vm h] that reg h by auto
      show ?thesis
        using val ev ram h(1) mp reg full start
        by (auto simp: with_devices_def boot_vm_def attempt_def Let_def drop split: sum.split prod.split option.split dest: drop(2)[rotated 2])
    qed
  qed
qed

text \<open>C12. A construction registers all of guest RAM or frees none that is registered. On any kernel that
  does what its ioctl documents, whichever step fails, with its rollback failing or not, the construction
  does not panic, and if dropping the RAM it leaves frees the backing then the kernel maps none of it. A
  constructed VM has every region registered, and its own drop keeps the same promise.\<close>
theorem vm_build_releases:
  assumes law: "kvm_law sr in_slot" and fresh: "\<forall>s. in_slot k s = None" "limit \<le> 2 ^ 32"
    and h: "vh_host_vm h = Inr (MemorySlots_new limit page, k)" "vh_map h = KvmVm_map_memory sr"
      "vh_unmap h = KvmVm_unmap_memory sr"
  shows "case with_devices h boot devs c regs m of
      None \<Rightarrow> False
    | Some (Inl (e, None)) \<Rightarrow> True
    | Some (Inl (e, Some (g, v))) \<Rightarrow> \<not> GuestRam_drop_leaks g \<longrightarrow> (\<forall>s. in_slot (snd v) s = None)
    | Some (Inr vm) \<Rightarrow> v_created vm \<and>
        {r. \<exists>s. in_slot (snd (v_host_vm vm)) s = Some r} = set (gr_regions (v_ram vm)) \<and>
        (case Vm_drop h vm of
           None \<Rightarrow> False
         | Some (g, v) \<Rightarrow> \<not> GuestRam_drop_leaks g \<longrightarrow> (\<forall>s. in_slot (snd v) s = None))"
proof -
  note out = with_devices_on_kvm[OF law fresh h, where boot = boot and devs = devs and c = c and regs = regs and m = m]
  have freed: "\<not> GuestRam_drop_leaks g \<longrightarrow> (\<forall>s. in_slot (snd v) s = None)" if "on_kvm sr in_slot (g, v)" for g v
    using on_kvm_freed(2)[OF law that] by blast
  show ?thesis
  proof (cases "with_devices h boot devs c regs m")
    case None
    then show ?thesis using out by simp
  next
    case (Some r)
    show ?thesis
    proof (cases r)
      case (Inl f)
      obtain e s where f: "f = (e, s)" by fastforce
      show ?thesis
      proof (cases s)
        case None
        then show ?thesis using Some Inl f by simp
      next
        case (Some gv)
        obtain g v where gv: "gv = (g, v)" by (cases gv)
        have "on_kvm sr in_slot (g, v)" using out \<open>with_devices h boot devs c regs m = Some r\<close> Inl f Some gv by simp
        from freed[OF this] show ?thesis
          using \<open>with_devices h boot devs c regs m = Some r\<close> Inl f Some gv by simp
      qed
    next
      case (Inr vm)
      have vm: "on_kvm sr in_slot (v_ram vm, v_host_vm vm)" "gr_mapped (v_ram vm) = length (gr_regions (v_ram vm))"
        "v_created vm"
        using out Some Inr by simp_all
      obtain g v where d: "Vm_drop h vm = Some (g, v)" "on_kvm sr in_slot (g, v)"
        using Vm_drop_on_kvm[OF vm(1) h(3)] by (metis prod.collapse)
      show ?thesis
        using Some Inr vm d on_kvm_freed(1)[OF law vm(1)] freed[OF d(2)] by simp
    qed
  qed
qed

text \<open>
  The boot data cannot be written: the VM is dropped, its RAM unregistered and freed.
\<close>

definition demo_host :: "(memory_slots \<times> bool list \<times> (u32 \<Rightarrow> memory_region option), unit) vm_host_ops" where
  "demo_host = \<lparr>vh_event_loop = Inr (), vh_allocate = \<lambda>_. Some demo_regions,
     vh_host_vm = Inr (MemorySlots_new 2 0x1000, [], \<lambda>_. None), vh_workers = Inr (),
     vh_map = KvmVm_map_memory demo_kernel, vh_unmap = KvmVm_unmap_memory demo_kernel,
     vh_shutdown = \<lambda>_. Inr ()\<rparr>"

lemma demo_host_fields:
  "vh_host_vm demo_host = Inr (MemorySlots_new 2 0x1000, [], \<lambda>_. None)"
  "vh_map demo_host = KvmVm_map_memory demo_kernel" "vh_unmap demo_host = KvmVm_unmap_memory demo_kernel"
  "vh_event_loop demo_host = Inr ()" "vh_allocate demo_host rs = Some demo_regions" "vh_workers demo_host = Inr ()"
  by (simp_all add: demo_host_def)

lemma no_kernel_fails:
  assumes "with_devices demo_host (\<lambda>c m. (m, Inl (LoadKernel ''vmlinux'' NotFound))) (\<lambda>b ws c. Inr (b, ws, c))
      one_gib () () = Some r"
  shows "\<exists>e s. r = Inl (e, Some s)"
proof -
  have "ChipsetBuilder_build ChipsetBuilder_new = Inr (True, \<lparr>c_buses = Buses_default, c_devices = []\<rparr>)"
    by (simp add: ChipsetBuilder_build_def ChipsetBuilder_new_def)
  then show ?thesis
    using assms
    by (auto simp: with_devices_def boot_vm_def demo_host_fields one_gib_valid GuestRam_new_def attempt_def
        split: option.split_asm sum.split_asm prod.split_asm)
qed

lemma vm_build_releases_witness:
  "\<exists>e g v. with_devices demo_host (\<lambda>c m. (m, Inl (LoadKernel ''vmlinux'' NotFound))) (\<lambda>b ws c. Inr (b :: unit builder, ws, c))
      one_gib () () = Some (Inl (e, Some (g, v))) \<and> (\<not> GuestRam_drop_leaks g \<longrightarrow> snd (snd v) 0 = None)"
    (is "\<exists>e g v. ?r = _ \<and> _")
proof -
  have law: "kvm_law demo_kernel snd" "\<forall>s. snd ([], \<lambda>_. None) s = None" "(2::nat) \<le> 2 ^ 32"
    by (simp_all add: demo_kernel_law)
  note t = vm_build_releases[OF law demo_host_fields(1-3),
      where boot = "\<lambda>c m. (m, Inl (LoadKernel ''vmlinux'' NotFound))" and devs = "\<lambda>b ws c. Inr (b :: unit builder, ws, c)" and
        c = one_gib and regs = "()" and m = "()"]
  show ?thesis
  proof (cases ?r)
    case None
    then show ?thesis using t by simp
  next
    case (Some r)
    then obtain e g v where "r = Inl (e, Some (g, v))" using no_kernel_fails by (metis surj_pair)
    then show ?thesis using t Some by simp
  qed
qed

end
