(* ===== verification/Cpu_Features.thy ===== *)
theory Cpu_Features
  imports Boot_Data
begin

text \<open>
  The CPUID and model-specific registers of each vCPU, \<open>src/src/vmm/src/cpu_features.rs\<close>.
\<close>

record cpuid_entry =
  ce_leaf :: u32
  ce_subleaf :: u32
  ce_subleaf_required :: bool
  ce_eax :: u32
  ce_ebx :: u32
  ce_ecx :: u32
  ce_edx :: u32

definition LEAF_VENDOR :: u32 where "LEAF_VENDOR = 0"
definition LEAF_FEATURES :: u32 where "LEAF_FEATURES = 1"
definition LEAF_TOPOLOGY :: u32 where "LEAF_TOPOLOGY = 0xb"
definition LEAF_TOPOLOGY_V2 :: u32 where "LEAF_TOPOLOGY_V2 = 0x1f"
definition LEAF_AMD_ADDRESS_SIZES :: u32 where "LEAF_AMD_ADDRESS_SIZES = 0x80000008"
definition LEAF_AMD_TOPOLOGY :: u32 where "LEAF_AMD_TOPOLOGY = 0x8000001e"
definition HYPERVISOR :: u32 where "HYPERVISOR = push_bit 31 1"
definition TSC_DEADLINE :: u32 where "TSC_DEADLINE = push_bit 24 1"
definition HTT :: u32 where "HTT = push_bit 28 1"
definition CLFLUSH_LINE :: u32 where "CLFLUSH_LINE = 8"
definition LEVEL_SMT :: u32 where "LEVEL_SMT = 1"
definition LEVEL_CORE :: u32 where "LEVEL_CORE = 2"

text \<open>\<open>u8::next_power_of_two\<close> of a value up to 128, and \<open>trailing_zeros\<close> of a power of two.\<close>

definition next_power_of_two :: "u8 \<Rightarrow> u8" where
  "next_power_of_two n = (case find (\<lambda>p. n \<le> p) [1, 2, 4, 8, 16, 32, 64, 128] of Some p \<Rightarrow> p | None \<Rightarrow> 0)"

definition trailing_zeros :: "u8 \<Rightarrow> u32" where
  "trailing_zeros n = of_nat (length (takeWhile (\<lambda>i. \<not> bit n i) [0..<8]))"

definition CORE_SHIFT :: u32 where "CORE_SHIFT = trailing_zeros (next_power_of_two MAX_VCPUS)"

definition MSR_MISC_ENABLE :: u32 where "MSR_MISC_ENABLE = 0x1a0"
definition MISC_ENABLE_FAST_STRING :: u64 where "MISC_ENABLE_FAST_STRING = 1"
definition MISC_ENABLE_KVM_RESET :: u64 where "MISC_ENABLE_KVM_RESET = push_bit 11 1 OR push_bit 12 1"
definition MSR_MTRR_DEF_TYPE :: u32 where "MSR_MTRR_DEF_TYPE = 0x2ff"
definition MTRR_ENABLE :: u64 where "MTRR_ENABLE = push_bit 11 1"
definition MTRR_WRITE_BACK :: u64 where "MTRR_WRITE_BACK = 6"

definition BOOT_MSRS :: "(u32 \<times> u64) list" where
  "BOOT_MSRS = [(MSR_MISC_ENABLE, MISC_ENABLE_KVM_RESET OR MISC_ENABLE_FAST_STRING),
     (MSR_MTRR_DEF_TYPE, MTRR_ENABLE OR MTRR_WRITE_BACK)]"

definition is_amd :: "cpuid_entry list \<Rightarrow> bool" where
  "is_amd supported =
     (case find (\<lambda>e. ce_leaf e = LEAF_VENDOR) supported of
        None \<Rightarrow> False
      | Some v \<Rightarrow>
          (let name = concat (map (to_le_bytes 4) [ce_ebx v, ce_edx v, ce_ecx v])
           in name = ascii ''AuthenticAMD'' \<or> name = ascii ''HygonGenuine''))"

definition topology_level :: "u32 \<Rightarrow> u32 \<Rightarrow> u32 \<Rightarrow> u32 \<Rightarrow> u32 \<Rightarrow> u32 \<Rightarrow> cpuid_entry" where
  "topology_level leaf apic_id subleaf shift processors kind =
     \<lparr>ce_leaf = leaf, ce_subleaf = subleaf, ce_subleaf_required = True, ce_eax = shift,
      ce_ebx = processors, ce_ecx = push_bit 8 kind OR subleaf, ce_edx = apic_id\<rparr>"

definition topology :: "u32 \<Rightarrow> u32 \<Rightarrow> u8 \<Rightarrow> cpuid_entry list" where
  "topology leaf apic_id vcpus =
     [topology_level leaf apic_id 0 0 1 LEVEL_SMT,
      topology_level leaf apic_id 1 CORE_SHIFT (ucast vcpus) LEVEL_CORE]"

definition cpuid_patch :: "bool \<Rightarrow> u32 \<Rightarrow> u8 \<Rightarrow> cpuid_entry \<Rightarrow> cpuid_entry" where
  "cpuid_patch amd apic_id vcpus e =
     (if ce_leaf e = LEAF_FEATURES then
        let logical = ucast (next_power_of_two vcpus) :: u32;
            e = e\<lparr>ce_ebx := (ce_ebx e AND 0xff) OR push_bit 8 CLFLUSH_LINE OR push_bit 16 logical OR push_bit 24 apic_id\<rparr>;
            e = e\<lparr>ce_ecx := ce_ecx e OR HYPERVISOR OR TSC_DEADLINE\<rparr>
        in e\<lparr>ce_edx := if 1 < vcpus then ce_edx e OR HTT else ce_edx e AND NOT HTT\<rparr>
      else if ce_leaf e = LEAF_AMD_ADDRESS_SIZES \<and> amd then
        e\<lparr>ce_ecx := (ce_ecx e AND NOT 0xf0ff) OR push_bit 12 CORE_SHIFT OR (ucast vcpus - 1)\<rparr>
      else if ce_leaf e = LEAF_AMD_TOPOLOGY \<and> amd then
        e\<lparr>ce_eax := apic_id, ce_ebx := apic_id, ce_ecx := 0, ce_edx := 0\<rparr>
      else e)"

definition vcpu_cpuid :: "cpuid_entry list \<Rightarrow> u8 \<Rightarrow> u8 \<Rightarrow> cpuid_entry list" where
  "vcpu_cpuid supported index vcpus =
     (let apic_id = ucast index;
          amd = is_amd supported;
          lists_v2_topology = list_ex (\<lambda>e. ce_leaf e = LEAF_TOPOLOGY_V2) supported;
          cpuid = filter (\<lambda>e. \<not> (ce_leaf e = LEAF_TOPOLOGY \<or> ce_leaf e = LEAF_TOPOLOGY_V2)) supported;
          cpuid = map (cpuid_patch amd apic_id vcpus) cpuid;
          cpuid = cpuid @ topology LEAF_TOPOLOGY apic_id vcpus
      in if lists_v2_topology then cpuid @ topology LEAF_TOPOLOGY_V2 apic_id vcpus else cpuid)"

section \<open>One identity per vCPU\<close>

text \<open>The APIC ID an entry states, where it states one.\<close>

definition stated_id :: "bool \<Rightarrow> cpuid_entry \<Rightarrow> u32 option" where
  "stated_id amd e =
     (if ce_leaf e = LEAF_FEATURES then Some (drop_bit 24 (ce_ebx e))
      else if ce_leaf e = LEAF_TOPOLOGY \<or> ce_leaf e = LEAF_TOPOLOGY_V2 then Some (ce_edx e)
      else if ce_leaf e = LEAF_AMD_TOPOLOGY \<and> amd then Some (ce_eax e)
      else None)"

lemmas leaf_defs = LEAF_VENDOR_def LEAF_FEATURES_def LEAF_TOPOLOGY_def LEAF_TOPOLOGY_V2_def
  LEAF_AMD_ADDRESS_SIZES_def LEAF_AMD_TOPOLOGY_def

lemma patch_leaf [simp]: "ce_leaf (cpuid_patch amd i n e) = ce_leaf e"
  by (simp add: cpuid_patch_def Let_def)

lemma apic_id_bits:
  assumes "unat (i :: u32) < 256" "unat l < 256"
  shows "drop_bit 24 ((b AND 0xff) OR push_bit 8 CLFLUSH_LINE OR push_bit 16 l OR push_bit 24 i) = i"
proof (rule bit_word_eqI)
  have small: "bit w k \<Longrightarrow> k < 8" if "unat w < 256" for w :: u32 and k
  proof -
    have "take_bit 8 w = w" using that by (simp add: word_unat_eq_iff unsigned_take_bit_eq take_bit_nat_eq_self)
    then show "bit w k \<Longrightarrow> k < 8" by (metis bit_take_bit_iff)
  qed
  have m: "(0xff :: u32) = mask 8" by (simp add: mask_eq_exp_minus_1)
  fix k assume "k < LENGTH(32)"
  then show "bit (drop_bit 24 ((b AND 0xff) OR push_bit 8 CLFLUSH_LINE OR push_bit 16 l OR push_bit 24 i)) k = bit i k"
    using small[OF assms(1), of k] small[OF assms(2), of "8 + k"] small[of CLFLUSH_LINE "16 + k"]
    unfolding m
    by (auto simp: bit_drop_bit_eq bit_or_iff bit_and_iff bit_mask_iff bit_push_bit_iff CLFLUSH_LINE_def)
qed

lemma patch_id:
  fixes index :: u8
  assumes "e' = cpuid_patch amd (ucast index) n e" "\<not> (ce_leaf e = LEAF_TOPOLOGY \<or> ce_leaf e = LEAF_TOPOLOGY_V2)"
  shows "stated_id amd e' \<in> {None, Some (ucast index)}"
proof -
  have b: "unat (ucast w :: u32) < 256" for w :: u8
    using unsigned_less[of w, where 'a = nat] by (simp add: unat_ucast_up)
  show ?thesis
    using assms apic_id_bits[OF b[of index] b[of "next_power_of_two n"]]
    by (auto simp: stated_id_def cpuid_patch_def Let_def leaf_defs)
qed

text \<open>An entry without what it states of the vCPU's identity.\<close>

definition erase_id :: "bool \<Rightarrow> cpuid_entry \<Rightarrow> cpuid_entry" where
  "erase_id amd e =
     (if ce_leaf e = LEAF_FEATURES then e\<lparr>ce_ebx := take_bit 24 (ce_ebx e)\<rparr>
      else if ce_leaf e = LEAF_TOPOLOGY \<or> ce_leaf e = LEAF_TOPOLOGY_V2 then e\<lparr>ce_edx := 0\<rparr>
      else if ce_leaf e = LEAF_AMD_TOPOLOGY \<and> amd then e\<lparr>ce_eax := 0, ce_ebx := 0\<rparr>
      else e)"

lemma erase_patch: "erase_id amd (cpuid_patch amd i n e) = erase_id amd (cpuid_patch amd j n e)"
proof -
  have "take_bit 24 (x OR push_bit 24 i) = take_bit 24 (x :: u32)" for x i
    by (rule bit_word_eqI) (auto simp: bit_take_bit_iff bit_or_iff bit_push_bit_iff)
  then show ?thesis by (simp add: erase_id_def cpuid_patch_def Let_def leaf_defs)
qed

lemma drop_concat_const:
  "(\<And>x. x \<in> set xs \<Longrightarrow> length (f x) = n) \<Longrightarrow> drop (n * i) (concat (map f xs)) = concat (map f (drop i xs))"
proof (induction xs arbitrary: i)
  case Nil
  then show ?case by simp
next
  case (Cons x xs)
  then show ?case by (cases i) simp_all
qed

lemma mptable_processor:
  assumes "index < vcpus"
  shows "take 3 (drop (20 * unat index) (mptable_entries vcpus)) = [MP_PROCESSOR, index, APIC_VERSION]"
proof -
  have i: "unat index < unat vcpus" using assms by (simp add: word_less_nat_alt)
  have len: "length (processor_entry j) = 20" for j by (simp add: processor_entry_def Let_def)
  then have all: "length (concat (map processor_entry [0..<unat vcpus])) = 20 * unat vcpus"
    using length_concat_const[of "[0..<unat vcpus]" processor_entry 20] by simp
  have "drop (20 * unat index) (concat (map processor_entry [0..<unat vcpus])) =
      concat (map processor_entry [unat index..<unat vcpus])"
    using drop_concat_const[of "[0..<unat vcpus]" processor_entry 20 "unat index"] len by simp
  also have "\<dots> = processor_entry (unat index) @ concat (map processor_entry [Suc (unat index)..<unat vcpus])"
    using i by (simp add: upt_conv_Cons)
  finally show ?thesis
    using i all by (simp add: mptable_entries_def Let_def processor_entry_def)
qed

text \<open>Each vCPU states one identity, its own, and the vCPUs are otherwise alike. For every host CPUID,
  every entry of a vCPU that states an APIC ID states that of its index, which is the ID of its entry in
  the MP table; the topology leaf is stated, whatever the host lists; and two vCPUs of one machine differ
  in nothing else.\<close>
theorem cpuid_identity:
  assumes "index < vcpus" "other < vcpus" "vcpus \<le> MAX_VCPUS"
  shows "(\<forall>e\<in>set (vcpu_cpuid supported index vcpus).
       stated_id (is_amd supported) e \<in> {None, Some (ucast index)}) \<and>
    length (filter (\<lambda>e. ce_leaf e = LEAF_TOPOLOGY) (vcpu_cpuid supported index vcpus)) = 2 \<and>
    take 3 (drop (20 * unat index) (mptable_entries vcpus)) = [MP_PROCESSOR, index, APIC_VERSION] \<and>
    map (erase_id (is_amd supported)) (vcpu_cpuid supported index vcpus) =
      map (erase_id (is_amd supported)) (vcpu_cpuid supported other vcpus)"
proof (intro conjI)
  let ?keep = "\<lambda>e. \<not> (ce_leaf e = LEAF_TOPOLOGY \<or> ce_leaf e = LEAF_TOPOLOGY_V2)"
  show "\<forall>e\<in>set (vcpu_cpuid supported index vcpus). stated_id (is_amd supported) e \<in> {None, Some (ucast index)}"
    using patch_id[of _ "is_amd supported" index vcpus]
    by (auto simp: vcpu_cpuid_def Let_def topology_def topology_level_def stated_id_def[of _ "\<lparr>ce_leaf = _, ce_subleaf = _, ce_subleaf_required = _, ce_eax = _, ce_ebx = _, ce_ecx = _, ce_edx = _\<rparr>"] leaf_defs)
  have none: "filter (\<lambda>e. ce_leaf e = LEAF_TOPOLOGY) (map (cpuid_patch a i n) (filter ?keep es)) = []" for a i n es
    by (induction es) simp_all
  show "length (filter (\<lambda>e. ce_leaf e = LEAF_TOPOLOGY) (vcpu_cpuid supported index vcpus)) = 2"
    using none by (simp add: vcpu_cpuid_def Let_def topology_def topology_level_def leaf_defs)
  show "map (erase_id (is_amd supported)) (vcpu_cpuid supported index vcpus) =
      map (erase_id (is_amd supported)) (vcpu_cpuid supported other vcpus)"
    using erase_patch[of "is_amd supported" "ucast index" vcpus _ "ucast other"]
    by (simp add: vcpu_cpuid_def Let_def topology_def topology_level_def erase_id_def leaf_defs comp_def)
  show "take 3 (drop (20 * unat index) (mptable_entries vcpus)) = [MP_PROCESSOR, index, APIC_VERSION]"
    using assms(1) by (rule mptable_processor)
qed

text \<open>Two vCPUs on an Intel-like host with a brand index.\<close>

definition demo_cpuid :: "cpuid_entry list" where
  "demo_cpuid = [\<lparr>ce_leaf = 1, ce_subleaf = 0, ce_subleaf_required = False, ce_eax = 7, ce_ebx = 0xaa000003,
     ce_ecx = 0, ce_edx = 0\<rparr>]"

lemma cpuid_identity_witness:
  "take 3 (drop 20 (mptable_entries 2)) = [MP_PROCESSOR, 1, APIC_VERSION] \<and>
   map (erase_id (is_amd demo_cpuid)) (vcpu_cpuid demo_cpuid 1 2) =
     map (erase_id (is_amd demo_cpuid)) (vcpu_cpuid demo_cpuid 0 2)"
  using cpuid_identity[of 1 2 0 demo_cpuid] by (simp add: MAX_VCPUS_def)

end
