(* ===== verification/Exec_Output.thy ===== *)
theory Exec_Output
  imports Prelude
begin

text \<open>
  The output of an execution in the guest, \<open>OutputManager\<close> of
  \<open>src/src/guest/src/service/exec/output.rs\<close>: the bounded buffer that the two drain tasks fill, and
  the stream an attached reader replays it through.

  The \<open>watch\<close> channel is the number of its sends: a receiver's \<open>changed\<close> returns when the number is
  not the one it has seen. A sequence number is a \<open>u64\<close>, a byte count a \<open>usize\<close> or \<open>u64\<close>.
\<close>

section \<open>The buffer\<close>

definition BUFFER_CAPACITY_BYTES :: nat where "BUFFER_CAPACITY_BYTES = 1024 * 1024"

datatype output_source = Stdout | Stderr

text \<open>The payload of an \<open>ExecOutput\<close> event.\<close>

record out_chunk =
  oc_data :: "u8 list"
  oc_offset :: "u64 option"
  oc_total :: "u64 option"

datatype exec_output = StdoutEvent out_chunk | StderrEvent out_chunk

record stream_state =
  st_enabled :: bool
  st_finished :: bool
  st_total_bytes :: u64
  st_last_sequence :: "u64 option"

record reader_failure =
  rf_sequence :: u64
  rf_message :: string

record output_entry =
  oe_sequence :: u64
  oe_output :: exec_output
  oe_byte_len :: nat

record output_state =
  ou_entries :: "output_entry list"
  ou_buffered :: nat
  ou_oldest :: u64
  ou_next :: u64
  ou_failure :: "reader_failure option"
  ou_sealed :: bool
  ou_stdout :: stream_state
  ou_stderr :: stream_state

definition event_of :: "output_source \<Rightarrow> out_chunk \<Rightarrow> exec_output" where
  "event_of src c = (case src of Stdout \<Rightarrow> StdoutEvent c | Stderr \<Rightarrow> StderrEvent c)"

definition data_output :: "output_source \<Rightarrow> u8 list \<Rightarrow> u64 \<Rightarrow> exec_output" where
  "data_output src data off = event_of src \<lparr>oc_data = data, oc_offset = Some off, oc_total = None\<rparr>"

definition end_output :: "output_source \<Rightarrow> u64 \<Rightarrow> exec_output" where
  "end_output src n = event_of src \<lparr>oc_data = [], oc_offset = Some n, oc_total = Some n\<rparr>"

definition stream_of :: "output_source \<Rightarrow> output_state \<Rightarrow> stream_state" where
  "stream_of src st = (case src of Stdout \<Rightarrow> ou_stdout st | Stderr \<Rightarrow> ou_stderr st)"

text \<open>\<open>stream_mut\<close> with an update of what it points to.\<close>

definition stream_mut :: "output_source \<Rightarrow> (stream_state \<Rightarrow> stream_state) \<Rightarrow> output_state \<Rightarrow> output_state" where
  "stream_mut src f st =
     (case src of Stdout \<Rightarrow> st\<lparr>ou_stdout := f (ou_stdout st)\<rparr> | Stderr \<Rightarrow> st\<lparr>ou_stderr := f (ou_stderr st)\<rparr>)"

definition StreamState_ready_to_end :: "u64 \<Rightarrow> stream_state \<Rightarrow> bool" where
  "StreamState_ready_to_end next_sequence stream \<longleftrightarrow> st_enabled stream \<and> st_finished stream \<and>
     (case st_last_sequence stream of None \<Rightarrow> True | Some l \<Rightarrow> l < next_sequence)"

definition OutputManager_new :: "bool \<Rightarrow> bool \<Rightarrow> output_state" where
  "OutputManager_new stdout_enabled stderr_enabled =
     (let stream = \<lambda>on. \<lparr>st_enabled = on, st_finished = \<not> on, st_total_bytes = 0, st_last_sequence = None\<rparr> in
      \<lparr>ou_entries = [], ou_buffered = 0, ou_oldest = 0, ou_next = 0, ou_failure = None, ou_sealed = False,
       ou_stdout = stream stdout_enabled, ou_stderr = stream stderr_enabled\<rparr>)"

text \<open>The loop of \<open>push\<close>: drop from the front until \<open>byte_len\<close> more bytes fit.\<close>

fun make_room :: "nat \<Rightarrow> u64 \<Rightarrow> output_entry list \<Rightarrow> nat \<Rightarrow> u64 \<Rightarrow> output_entry list \<times> nat \<times> u64" where
  "make_room byte_len next_sequence [] buffered oldest =
     ([], buffered, if BUFFER_CAPACITY_BYTES < buffered + byte_len then next_sequence else oldest)"
| "make_room byte_len next_sequence (e # es) buffered oldest =
     (if BUFFER_CAPACITY_BYTES < buffered + byte_len
      then make_room byte_len next_sequence es (buffered - oe_byte_len e) (oe_sequence e + 1)
      else (e # es, buffered, oldest))"

definition OutputManager_push :: "output_source \<Rightarrow> u8 list \<Rightarrow> output_state \<Rightarrow> output_state" where
  "OutputManager_push src data st =
     (let byte_len = length data;
          sequence = ou_next st;
          st = st\<lparr>ou_next := ou_next st + 1\<rparr>;
          off = st_total_bytes (stream_of src st);
          st = stream_mut src (\<lambda>s. s\<lparr>st_enabled := True, st_total_bytes := off + of_nat byte_len,
                 st_last_sequence := Some sequence\<rparr>) st;
          output = data_output src data off;
          (entries, buffered, oldest) =
            make_room byte_len (ou_next st) (ou_entries st) (ou_buffered st) (ou_oldest st);
          st = st\<lparr>ou_entries := entries, ou_buffered := buffered, ou_oldest := oldest\<rparr>
      in if byte_len \<le> BUFFER_CAPACITY_BYTES
         then st\<lparr>ou_buffered := buffered + byte_len,
           ou_entries := entries @ [\<lparr>oe_sequence = sequence, oe_output = output, oe_byte_len = byte_len\<rparr>]\<rparr>
         else st)"

definition reader_finished :: "output_source \<Rightarrow> output_state \<Rightarrow> output_state" where
  "reader_finished src st = stream_mut src (\<lambda>s. s\<lparr>st_finished := True\<rparr>) st"

definition source_debug :: "output_source \<Rightarrow> string" where
  "source_debug src = (case src of Stdout \<Rightarrow> ''Stdout'' | Stderr \<Rightarrow> ''Stderr'')"

definition reader_failed :: "output_source \<Rightarrow> string \<Rightarrow> output_state \<Rightarrow> output_state" where
  "reader_failed src error st =
     (let st = stream_mut src (\<lambda>s. s\<lparr>st_finished := True\<rparr>) st in
      if ou_failure st = None
      then st\<lparr>ou_failure := Some \<lparr>rf_sequence = ou_next st,
        rf_message = ''failed to read '' @ source_debug src @ '': '' @ error\<rparr>\<rparr>
      else st)"

definition OutputManager_seal :: "output_state \<Rightarrow> output_state \<times> bool" where
  "OutputManager_seal st =
     (if \<not> st_finished (ou_stdout st) \<or> \<not> st_finished (ou_stderr st) then (st, False)
      else (st\<lparr>ou_sealed := True\<rparr>, True))"

record stream_summary =
  ss_enabled :: bool
  ss_total_bytes :: u64

record terminal_summary =
  ts_stdout :: stream_summary
  ts_stderr :: stream_summary
  ts_reader_failure :: "string option"

definition summary_of :: "output_state \<Rightarrow> terminal_summary" where
  "summary_of st = \<lparr>
     ts_stdout = \<lparr>ss_enabled = st_enabled (ou_stdout st), ss_total_bytes = st_total_bytes (ou_stdout st)\<rparr>,
     ts_stderr = \<lparr>ss_enabled = st_enabled (ou_stderr st), ss_total_bytes = st_total_bytes (ou_stderr st)\<rparr>,
     ts_reader_failure = map_option rf_message (ou_failure st)\<rparr>"

definition OutputManager_terminal_summary :: "output_state \<Rightarrow> terminal_summary option" where
  "OutputManager_terminal_summary st =
     (if \<not> st_finished (ou_stdout st) \<or> \<not> st_finished (ou_stderr st) then None else Some (summary_of st))"

definition sealed_terminal_summary :: "output_state \<Rightarrow> terminal_summary option" where
  "sealed_terminal_summary st = (if \<not> ou_sealed st then None else Some (summary_of st))"

definition terminal_events :: "terminal_summary \<Rightarrow> exec_output list" where
  "terminal_events summary =
     (if ss_enabled (ts_stdout summary) then [end_output Stdout (ss_total_bytes (ts_stdout summary))] else []) @
     (if ss_enabled (ts_stderr summary) then [end_output Stderr (ss_total_bytes (ts_stderr summary))] else [])"

section \<open>One turn of an attached reader\<close>

record attach_cursor =
  cu_next :: u64
  cu_stdout_end :: bool
  cu_stderr_end :: bool

definition start_cursor :: attach_cursor where
  "start_cursor = \<lparr>cu_next = 0, cu_stdout_end = False, cu_stderr_end = False\<rparr>"

datatype attach_next = NextItem exec_output | NextError string | NextWait | NextDone

text \<open>
  The decision of the loop in \<open>attach_stream\<close>, under the lock. \<open>None\<close> is its panic, a sequence that is
  not in the ring; \<open>attach_item\<close> is what follows the check for a failure.
\<close>

definition attach_item :: "output_state \<Rightarrow> attach_cursor \<Rightarrow> (attach_cursor \<times> attach_next) option" where
  "attach_item st c =
     (if StreamState_ready_to_end (cu_next c) (ou_stdout st) \<and> \<not> cu_stdout_end c then
        Some (c\<lparr>cu_stdout_end := True\<rparr>, NextItem (end_output Stdout (st_total_bytes (ou_stdout st))))
      else if StreamState_ready_to_end (cu_next c) (ou_stderr st) \<and> \<not> cu_stderr_end c then
        Some (c\<lparr>cu_stderr_end := True\<rparr>, NextItem (end_output Stderr (st_total_bytes (ou_stderr st))))
      else if cu_next c < ou_next st then
        (let index = unat (cu_next c - ou_oldest st) in
         if index < length (ou_entries st) then
           Some (c\<lparr>cu_next := cu_next c + 1\<rparr>, NextItem (oe_output (ou_entries st ! index)))
         else None)
      else if (\<not> st_enabled (ou_stdout st) \<or> cu_stdout_end c) \<and> (\<not> st_enabled (ou_stderr st) \<or> cu_stderr_end c)
      then Some (c, NextDone)
      else Some (c, NextWait))"

definition skip_dropped :: "output_state \<Rightarrow> attach_cursor \<Rightarrow> attach_cursor" where
  "skip_dropped st c = (if cu_next c < ou_oldest st then c\<lparr>cu_next := ou_oldest st\<rparr> else c)"

definition attach_decide :: "output_state \<Rightarrow> attach_cursor \<Rightarrow> (attach_cursor \<times> attach_next) option" where
  "attach_decide st c =
     (let c = skip_dropped st c in
      case ou_failure st of
        Some f \<Rightarrow> if rf_sequence f \<le> cu_next c then Some (c, NextError (rf_message f)) else attach_item st c
      | None \<Rightarrow> attach_item st c)"

section \<open>Drain tasks and readers\<close>

text \<open>
  A reader holds the consumer lease from its claim until its stream ends or is dropped. It is \<open>Claimed\<close>
  before \<open>attach\<close> looks at the seal (the flag says that it does), \<open>Polling\<close> between two items and
  \<open>Waiting\<close> in \<open>changed\<close>. \<open>rd_got\<close> is what it yielded.
\<close>

datatype reader_phase = Claimed bool | Polling | Waiting | Ended

record reader =
  rd_phase :: reader_phase
  rd_cursor :: attach_cursor
  rd_seen :: nat
  rd_got :: "(string + exec_output) list"

text \<open>
  \<open>os_history\<close> is every chunk pushed, in order; \<open>os_readers\<close> every reader that ever claimed the lease.
\<close>

record output_sys =
  os_state :: output_state
  os_version :: nat
  os_lease :: bool
  os_draining :: "output_source set"
  os_readers :: "reader list"
  os_history :: "(output_source \<times> u8 list) list"

definition claim_consumer :: "bool \<Rightarrow> bool option" where
  "claim_consumer lease = (if lease then None else Some True)"

text \<open>Dropping the lease wakes every waiter.\<close>

definition drop_lease :: "output_sys \<Rightarrow> output_sys" where
  "drop_lease s = s\<lparr>os_lease := False, os_version := os_version s + 1\<rparr>"

definition set_reader :: "nat \<Rightarrow> reader \<Rightarrow> output_sys \<Rightarrow> output_sys" where
  "set_reader i r s = s\<lparr>os_readers := (os_readers s)[i := r]\<rparr>"

text \<open>What a poll does with the decision: the reader, and whether its stream ended.\<close>

definition after_decide :: "attach_cursor \<times> attach_next \<Rightarrow> reader \<Rightarrow> reader \<times> bool" where
  "after_decide d r =
     (let r = r\<lparr>rd_cursor := fst d\<rparr> in
      case snd d of
        NextItem item \<Rightarrow> (r\<lparr>rd_got := rd_got r @ [Inr item]\<rparr>, False)
      | NextError message \<Rightarrow> (r\<lparr>rd_got := rd_got r @ [Inl message], rd_phase := Ended\<rparr>, True)
      | NextDone \<Rightarrow> (r\<lparr>rd_phase := Ended\<rparr>, True)
      | NextWait \<Rightarrow> (r\<lparr>rd_phase := Waiting\<rparr>, False))"

text \<open>
  The tasks. A drain task reads its pipe and pushes; \<open>shutdown_drains\<close> aborts the tasks, which lose
  what they had read but not pushed. Anyone may seal, attach, or drop a stream at any time.
\<close>

inductive output_step :: "output_sys \<Rightarrow> output_sys \<Rightarrow> bool" where
  pushes: "src \<in> os_draining s \<Longrightarrow>
    output_step s (s\<lparr>os_state := OutputManager_push src data (os_state s), os_version := os_version s + 1,
      os_history := os_history s @ [(src, data)]\<rparr>)"
| finishes: "src \<in> os_draining s \<Longrightarrow>
    output_step s (s\<lparr>os_state := reader_finished src (os_state s), os_version := os_version s + 1,
      os_draining := os_draining s - {src}\<rparr>)"
| fails: "src \<in> os_draining s \<Longrightarrow>
    output_step s (s\<lparr>os_state := reader_failed src error (os_state s), os_version := os_version s + 1,
      os_draining := os_draining s - {src}\<rparr>)"
| shuts_down: "output_step s (s\<lparr>os_draining := {}\<rparr>)"
| seals: "OutputManager_seal (os_state s) = (st, True) \<Longrightarrow>
    output_step s (s\<lparr>os_state := st, os_version := os_version s + 1\<rparr>)"
| claims: "claim_consumer (os_lease s) = Some lease \<Longrightarrow>
    output_step s (s\<lparr>os_lease := lease, os_readers := os_readers s @
      [\<lparr>rd_phase = Claimed live, rd_cursor = start_cursor, rd_seen = 0, rd_got = []\<rparr>]\<rparr>)"
| refused: "i < length (os_readers s) \<Longrightarrow> os_readers s ! i = r \<Longrightarrow> rd_phase r = Claimed True \<Longrightarrow>
    ou_sealed (os_state s) \<Longrightarrow> output_step s (drop_lease (set_reader i (r\<lparr>rd_phase := Ended\<rparr>) s))"
| begins: "i < length (os_readers s) \<Longrightarrow> os_readers s ! i = r \<Longrightarrow> rd_phase r = Claimed live \<Longrightarrow>
    \<not> (live \<and> ou_sealed (os_state s)) \<Longrightarrow>
    output_step s (set_reader i (r\<lparr>rd_phase := Polling, rd_seen := os_version s\<rparr>) s)"
| polls: "i < length (os_readers s) \<Longrightarrow> os_readers s ! i = r \<Longrightarrow> rd_phase r = Polling \<Longrightarrow>
    attach_decide (os_state s) (rd_cursor r) = Some d \<Longrightarrow> after_decide d r = (r', False) \<Longrightarrow>
    output_step s (set_reader i r' s)"
| ends: "i < length (os_readers s) \<Longrightarrow> os_readers s ! i = r \<Longrightarrow> rd_phase r = Polling \<Longrightarrow>
    attach_decide (os_state s) (rd_cursor r) = Some d \<Longrightarrow> after_decide d r = (r', True) \<Longrightarrow>
    output_step s (drop_lease (set_reader i r' s))"
| wakes: "i < length (os_readers s) \<Longrightarrow> os_readers s ! i = r \<Longrightarrow> rd_phase r = Waiting \<Longrightarrow>
    rd_seen r \<noteq> os_version s \<Longrightarrow>
    output_step s (set_reader i (r\<lparr>rd_phase := Polling, rd_seen := os_version s\<rparr>) s)"
| drops: "i < length (os_readers s) \<Longrightarrow> os_readers s ! i = r \<Longrightarrow> rd_phase r \<noteq> Ended \<Longrightarrow>
    output_step s (drop_lease (set_reader i (r\<lparr>rd_phase := Ended\<rparr>) s))"

definition output_start :: "bool \<Rightarrow> bool \<Rightarrow> output_sys" where
  "output_start out err = \<lparr>os_state = OutputManager_new out err, os_version = 0, os_lease = False,
     os_draining = (if out then {Stdout} else {}) \<union> (if err then {Stderr} else {}), os_readers = [],
     os_history = []\<rparr>"

text \<open>A rejected command: its diagnostic is all there is.\<close>

definition completed_with_diagnostic :: "u8 list \<Rightarrow> bool \<Rightarrow> output_state" where
  "completed_with_diagnostic diagnostic tty =
     OutputManager_push (if tty then Stdout else Stderr) (diagnostic @ [10]) (OutputManager_new False False)"

definition diagnostic_start :: "u8 list \<Rightarrow> bool \<Rightarrow> output_sys" where
  "diagnostic_start diagnostic tty = \<lparr>os_state = completed_with_diagnostic diagnostic tty, os_version = 1,
     os_lease = False, os_draining = {}, os_readers = [],
     os_history = [(if tty then Stdout else Stderr, diagnostic @ [10])]\<rparr>"

inductive output_reachable :: "output_sys \<Rightarrow> bool" where
  start: "output_reachable (output_start out err)"
| rejected: "output_reachable (diagnostic_start diagnostic tty)"
| step: "output_reachable s \<Longrightarrow> output_step s s' \<Longrightarrow> output_reachable s'"

section \<open>What the buffer holds\<close>

definition written :: "output_source \<Rightarrow> (output_source \<times> u8 list) list \<Rightarrow> u8 list" where
  "written src h = concat (map snd (filter (\<lambda>x. fst x = src) h))"

text \<open>The event of the \<open>n\<close>-th chunk: its bytes, and how many bytes of its stream came before.\<close>

definition chunk_event :: "(output_source \<times> u8 list) list \<Rightarrow> nat \<Rightarrow> exec_output" where
  "chunk_event h n =
     data_output (fst (h ! n)) (snd (h ! n)) (of_nat (length (written (fst (h ! n)) (take n h))))"

definition chunk_entry :: "(output_source \<times> u8 list) list \<Rightarrow> nat \<Rightarrow> output_entry" where
  "chunk_entry h n =
     \<lparr>oe_sequence = of_nat n, oe_output = chunk_event h n, oe_byte_len = length (snd (h ! n))\<rparr>"

definition stream_ok :: "(output_source \<times> u8 list) list \<Rightarrow> output_source \<Rightarrow> stream_state \<Rightarrow> bool" where
  "stream_ok h src stream \<longleftrightarrow>
     st_total_bytes stream = of_nat (length (written src h)) \<and>
     (src \<in> fst ` set h \<longrightarrow> st_enabled stream) \<and>
     (case st_last_sequence stream of
        None \<Rightarrow> src \<notin> fst ` set h
      | Some l \<Rightarrow> unat l < length h \<and> (\<forall>n<length h. fst (h ! n) = src \<longrightarrow> n \<le> unat l))"

definition buffer_ok :: "(output_source \<times> u8 list) list \<Rightarrow> output_state \<Rightarrow> bool" where
  "buffer_ok h st \<longleftrightarrow>
     ou_next st = of_nat (length h) \<and> unat (ou_oldest st) \<le> length h \<and>
     ou_entries st = map (chunk_entry h) [unat (ou_oldest st)..<length h] \<and>
     ou_buffered st = sum_list (map oe_byte_len (ou_entries st)) \<and> ou_buffered st \<le> BUFFER_CAPACITY_BYTES \<and>
     (\<forall>src. stream_ok h src (stream_of src st))"

lemma stream_of_simps [simp]:
  "stream_of src (stream_mut src f st) = f (stream_of src st)"
  "src' \<noteq> src \<Longrightarrow> stream_of src' (stream_mut src f st) = stream_of src' st"
  "ou_entries (stream_mut src f st) = ou_entries st" "ou_buffered (stream_mut src f st) = ou_buffered st"
  "ou_oldest (stream_mut src f st) = ou_oldest st" "ou_next (stream_mut src f st) = ou_next st"
  "ou_failure (stream_mut src f st) = ou_failure st" "ou_sealed (stream_mut src f st) = ou_sealed st"
  by (cases src; cases src'; simp add: stream_of_def stream_mut_def; fail)+

lemma stream_of_updates [simp]:
  "stream_of src (st\<lparr>ou_next := a\<rparr>) = stream_of src st"
  "stream_of src (st\<lparr>ou_entries := b, ou_buffered := n, ou_oldest := c\<rparr>) = stream_of src st"
  "stream_of src (st\<lparr>ou_entries := b, ou_buffered := n\<rparr>) = stream_of src st"
  "stream_of src (st\<lparr>ou_entries := b\<rparr>) = stream_of src st"
  "stream_of src (st\<lparr>ou_buffered := n\<rparr>) = stream_of src st"
  "stream_of src (st\<lparr>ou_oldest := c\<rparr>) = stream_of src st"
  "stream_of src (st\<lparr>ou_failure := f\<rparr>) = stream_of src st"
  "stream_of src (st\<lparr>ou_sealed := x\<rparr>) = stream_of src st"
  by (cases src; simp add: stream_of_def; fail)+

lemma written_simps [simp]:
  "written src [] = []"
  "written src (h @ [(src', d)]) = written src h @ (if src' = src then d else [])"
  by (simp_all add: written_def)

lemma chunk_event_append: "n < length h \<Longrightarrow> chunk_event (h @ x) n = chunk_event h n"
  by (simp add: chunk_event_def nth_append)

lemma chunk_entry_append: "n < length h \<Longrightarrow> chunk_entry (h @ x) n = chunk_entry h n"
  by (simp add: chunk_entry_def chunk_event_append nth_append)

lemma chunk_entry_last:
  "chunk_entry (h @ [(src, d)]) (length h) =
     \<lparr>oe_sequence = of_nat (length h), oe_output = data_output src d (of_nat (length (written src h))),
      oe_byte_len = length d\<rparr>"
  by (simp add: chunk_entry_def chunk_event_def)

text \<open>The loop of \<open>push\<close> keeps a suffix of the chunks, and makes room when there can be any.\<close>

lemma make_room_suffix:
  assumes "length h < 2 ^ 64" "m \<le> length h"
    "make_room k next_seq (map (chunk_entry h) [m..<length h]) (sum_list (map oe_byte_len (map (chunk_entry h) [m..<length h])))
       (of_nat m) = (es, b, old)"
  shows "\<exists>m'\<ge>m. m' \<le> length h \<and> es = map (chunk_entry h) [m'..<length h] \<and> b = sum_list (map oe_byte_len es) \<and>
    (if b + k \<le> BUFFER_CAPACITY_BYTES then old = of_nat m' else es = [] \<and> old = next_seq)"
  using assms(2,3)
proof (induction "length h - m" arbitrary: m)
  case 0
  then have "m = length h" by simp
  then show ?case using 0 by (auto intro!: exI[of _ "length h"] split: if_splits)
next
  case (Suc n)
  then have m: "[m..<length h] = m # [Suc m..<length h]" by (simp add: upt_conv_Cons)
  have seq: "oe_sequence (chunk_entry h m) + 1 = (of_nat (Suc m) :: u64)" by (simp add: chunk_entry_def add.commute)
  show ?case
  proof (cases "BUFFER_CAPACITY_BYTES < sum_list (map oe_byte_len (map (chunk_entry h) [m..<length h])) + k")
    case True
    then have "make_room k next_seq (map (chunk_entry h) [Suc m..<length h])
        (sum_list (map oe_byte_len (map (chunk_entry h) [Suc m..<length h]))) (of_nat (Suc m)) = (es, b, old)"
      using Suc.prems(2) m seq by simp
    from Suc.hyps(1)[OF _ _ this] Suc.hyps(2) show ?thesis by (metis Suc_leD Suc_leI Suc_diff_Suc diff_Suc_1 less_le_not_le nat_le_linear zero_less_Suc zero_less_diff)
  next
    case False
    then show ?thesis using Suc.prems m by (auto intro!: exI[of _ m])
  qed
qed


lemma unat_small: "n < 2 ^ 64 \<Longrightarrow> unat (of_nat n :: u64) = n"
  by (simp add: unat_of_nat take_bit_nat_eq_self)

lemma push_stream:
  "stream_of src' (OutputManager_push src d st) =
     (if src' = src then (stream_of src st)\<lparr>st_enabled := True,
        st_total_bytes := st_total_bytes (stream_of src st) + of_nat (length d), st_last_sequence := Some (ou_next st)\<rparr>
      else stream_of src' st)"
  by (auto simp: OutputManager_push_def Let_def split: prod.splits)

lemma output_push_ok:
  assumes "buffer_ok h st" "length h + 1 < 2 ^ 64"
  shows push_buffer: "buffer_ok (h @ [(src, d)]) (OutputManager_push src d st)"
    and push_oldest: "unat (ou_oldest st) \<le> unat (ou_oldest (OutputManager_push src d st))"
proof -
  let ?h = "h @ [(src, d)]"
  let ?m = "unat (ou_oldest st)"
  have b: "ou_next st = of_nat (length h)" "?m \<le> length h"
      "ou_entries st = map (chunk_entry h) [?m..<length h]"
      "ou_buffered st = sum_list (map oe_byte_len (map (chunk_entry h) [?m..<length h]))"
    using assms(1) by (simp_all add: buffer_ok_def)
  obtain es k old where room: "make_room (length d) (of_nat (length h) + 1) (ou_entries st) (ou_buffered st) (ou_oldest st) = (es, k, old)"
    by (metis prod_cases3)
  have "length h < 2 ^ 64" using assms(2) by simp
  moreover have "make_room (length d) (of_nat (length h) + 1) (map (chunk_entry h) [?m..<length h])
      (sum_list (map oe_byte_len (map (chunk_entry h) [?m..<length h]))) (of_nat ?m) = (es, k, old)"
    using room unfolding b(3,4) by simp
  ultimately obtain m' where m': "?m \<le> m'" "m' \<le> length h" "es = map (chunk_entry h) [m'..<length h]"
      "k = sum_list (map oe_byte_len es)"
      "if k + length d \<le> BUFFER_CAPACITY_BYTES then old = of_nat m' else es = [] \<and> old = of_nat (length h) + 1"
    using make_room_suffix[OF _ b(2)] by blast
  have es: "map (chunk_entry ?h) [m'..<length h] = es"
    using m'(3) by (auto simp: chunk_entry_append)
  have next_seq: "(of_nat (length h) + 1 :: u64) = of_nat (length ?h)" by simp
  have push: "OutputManager_push src d st =
      (let st = (stream_mut src (\<lambda>s. s\<lparr>st_enabled := True, st_total_bytes := st_total_bytes (stream_of src st) + of_nat (length d),
           st_last_sequence := Some (of_nat (length h))\<rparr>) (st\<lparr>ou_next := of_nat (length h) + 1\<rparr>))
         \<lparr>ou_entries := es, ou_buffered := k, ou_oldest := old\<rparr> in
       if length d \<le> BUFFER_CAPACITY_BYTES
       then st\<lparr>ou_buffered := k + length d, ou_entries := es @ [\<lparr>oe_sequence = of_nat (length h),
          oe_output = data_output src d (of_nat (length (written src h))), oe_byte_len = length d\<rparr>]\<rparr>
       else st)"
    using assms(1) room by (simp add: OutputManager_push_def Let_def b(1) buffer_ok_def stream_ok_def split: prod.split)
  have rest: "ou_next (OutputManager_push src d st) = of_nat (length ?h)"
      "unat (ou_oldest (OutputManager_push src d st)) \<le> length ?h \<and>
       ou_entries (OutputManager_push src d st) =
         map (chunk_entry ?h) [unat (ou_oldest (OutputManager_push src d st))..<length ?h] \<and>
       ou_buffered (OutputManager_push src d st) = sum_list (map oe_byte_len (ou_entries (OutputManager_push src d st))) \<and>
       ou_buffered (OutputManager_push src d st) \<le> BUFFER_CAPACITY_BYTES \<and>
       ?m \<le> unat (ou_oldest (OutputManager_push src d st))"
  proof -
    show "ou_next (OutputManager_push src d st) = of_nat (length ?h)" by (simp add: push Let_def)
    show "unat (ou_oldest (OutputManager_push src d st)) \<le> length ?h \<and>
       ou_entries (OutputManager_push src d st) =
         map (chunk_entry ?h) [unat (ou_oldest (OutputManager_push src d st))..<length ?h] \<and>
       ou_buffered (OutputManager_push src d st) = sum_list (map oe_byte_len (ou_entries (OutputManager_push src d st))) \<and>
       ou_buffered (OutputManager_push src d st) \<le> BUFFER_CAPACITY_BYTES \<and>
       ?m \<le> unat (ou_oldest (OutputManager_push src d st))"
    proof (cases "length d \<le> BUFFER_CAPACITY_BYTES")
      case True
      have fits: "k + length d \<le> BUFFER_CAPACITY_BYTES"
        using m'(4,5) True by (auto split: if_splits)
      then have old: "unat old = m'" using m'(2,5) assms(2) by (simp add: unat_small)
      show ?thesis
        using True fits m'(1,2,4) es by (simp add: push old chunk_entry_last chunk_entry_append Let_def)
    next
      case False
      then have "old = of_nat (length ?h)" "es = []" using m'(5) next_seq by (simp_all split: if_splits)
      moreover have "unat (of_nat (length ?h) :: u64) = length ?h" using assms(2) by (intro unat_small) simp
      ultimately show ?thesis using False m'(4) b(2) by (simp add: push Let_def)
    qed
  qed
  have "stream_ok ?h src' (stream_of src' (OutputManager_push src d st))" for src'
  proof (cases "src' = src")
    case True
    then show ?thesis
      using assms by (auto simp: push_stream stream_ok_def buffer_ok_def b(1) unat_small nth_append less_Suc_eq_le)
  next
    case False
    moreover have "stream_ok h src' (stream_of src' st)" using assms(1) by (simp add: buffer_ok_def)
    ultimately show ?thesis
      by (auto simp: push_stream stream_ok_def nth_append split: option.splits)
  qed
  then show "buffer_ok (h @ [(src, d)]) (OutputManager_push src d st)" using rest unfolding buffer_ok_def by blast
  show "?m \<le> unat (ou_oldest (OutputManager_push src d st))" using rest(2) by blast
qed


section \<open>What a reader has seen\<close>

fun payload :: "exec_output \<Rightarrow> out_chunk" where
  "payload (StdoutEvent c) = c"
| "payload (StderrEvent c) = c"

fun source :: "exec_output \<Rightarrow> output_source" where
  "source (StdoutEvent c) = Stdout"
| "source (StderrEvent c) = Stderr"

definition chunks :: "(string + exec_output) list \<Rightarrow> exec_output list" where
  "chunks got = [x. Inr x \<leftarrow> got, oc_total (payload x) = None]"

definition end_sent :: "output_source \<Rightarrow> attach_cursor \<Rightarrow> bool" where
  "end_sent src c = (case src of Stdout \<Rightarrow> cu_stdout_end c | Stderr \<Rightarrow> cu_stderr_end c)"

text \<open>
  \<open>ns\<close> are the sequence numbers of the chunks yielded. A skipped one has left the buffer. The end of a
  stream comes after all its chunks, with their total.
\<close>

definition chunks_ok ::
    "(output_source \<times> u8 list) list \<Rightarrow> nat \<Rightarrow> nat \<Rightarrow> (string + exec_output) list \<Rightarrow> nat list \<Rightarrow> bool" where
  "chunks_ok h oldest k got ns \<longleftrightarrow>
     sorted_wrt (<) ns \<and> (\<forall>n\<in>set ns. n < k) \<and> (\<forall>n<k. n \<in> set ns \<or> n < oldest) \<and>
     chunks got = map (chunk_event h) ns"

definition ends_ok ::
    "(output_source \<times> u8 list) list \<Rightarrow> output_state \<Rightarrow> attach_cursor \<Rightarrow> (string + exec_output) list \<Rightarrow> bool" where
  "ends_ok h st c got \<longleftrightarrow>
     (\<forall>src. end_sent src c \<longrightarrow> st_finished (stream_of src st) \<and>
       (\<forall>n<length h. fst (h ! n) = src \<longrightarrow> n < unat (cu_next c)) \<and>
       Inr (end_output src (st_total_bytes (stream_of src st))) \<in> set got) \<and>
     (\<forall>src t. Inr (end_output src t) \<in> set got \<longrightarrow>
       end_sent src c \<and> t = st_total_bytes (stream_of src st))"

definition cursor_ok ::
    "(output_source \<times> u8 list) list \<Rightarrow> output_state \<Rightarrow> attach_cursor \<Rightarrow> (string + exec_output) list \<Rightarrow> bool" where
  "cursor_ok h st c got \<longleftrightarrow> unat (cu_next c) \<le> length h \<and>
     (\<exists>ns. chunks_ok h (unat (ou_oldest st)) (unat (cu_next c)) got ns) \<and> ends_ok h st c got"

lemma source_events [simp]:
  "source (data_output src d n) = src" "source (end_output src t) = src"
  "oc_total (payload (data_output src d n)) = None" "oc_total (payload (end_output src t)) = Some t"
  "oc_data (payload (data_output src d n)) = d"
  by (cases src; simp add: data_output_def end_output_def event_of_def)+

lemma chunk_event_simps [simp]:
  "source (chunk_event h n) = fst (h ! n)" "oc_total (payload (chunk_event h n)) = None"
  "oc_data (payload (chunk_event h n)) = snd (h ! n)"
  by (simp_all add: chunk_event_def)

lemma end_output_inj [simp]:
  "end_output src t = end_output src' t' \<longleftrightarrow> src = src' \<and> t = t'"
  by (cases src; cases src'; simp add: end_output_def event_of_def)

lemma chunk_not_end [simp]: "end_output src t \<noteq> chunk_event h n"
  by (metis chunk_event_simps(2) option.distinct(1) source_events(4))

lemma chunks_simps [simp]:
  "chunks [] = []" "chunks (got @ [Inl m]) = chunks got"
  "chunks (got @ [Inr (end_output src t)]) = chunks got"
  "chunks (got @ [Inr (chunk_event h n)]) = chunks got @ [chunk_event h n]"
  by (simp_all add: chunks_def)

lemma cursor_ok_start: "cursor_ok h st start_cursor []"
  by (auto simp: cursor_ok_def chunks_ok_def ends_ok_def start_cursor_def end_sent_def
      split: output_source.split intro!: exI[of _ "[]"])

text \<open>What leaves a reader's knowledge true: more chunks of streams it has not ended, and a later buffer.\<close>

lemma cursor_ok_mono:
  assumes "cursor_ok h st c got" "h' = h @ x" "unat (ou_oldest st) \<le> unat (ou_oldest st')"
    "\<And>src. end_sent src c \<Longrightarrow> src \<notin> fst ` set x"
    "\<And>src. st_finished (stream_of src st) \<Longrightarrow> st_finished (stream_of src st') \<and>
      st_total_bytes (stream_of src st') = st_total_bytes (stream_of src st)"
  shows "cursor_ok h' st' c got"
proof -
  obtain ns where ns: "chunks_ok h (unat (ou_oldest st)) (unat (cu_next c)) got ns"
    using assms(1) by (auto simp: cursor_ok_def)
  have k: "unat (cu_next c) \<le> length h" and e: "ends_ok h st c got" using assms(1) by (simp_all add: cursor_ok_def)
  have "map (chunk_event h') ns = map (chunk_event h) ns"
    using ns k by (auto simp: chunks_ok_def assms(2) chunk_event_append)
  then have "chunks_ok h' (unat (ou_oldest st')) (unat (cu_next c)) got ns"
    using ns assms(3) by (auto simp: chunks_ok_def dest: order_less_le_trans)
  moreover have "n < unat (cu_next c)" if "end_sent src c" "n < length h'" "fst (h' ! n) = src" for src n
  proof -
    have "n < length h"
    proof (rule ccontr)
      assume "\<not> n < length h"
      then have "h' ! n \<in> set x" using that(2) by (simp add: assms(2) nth_append)
      then show False using assms(4)[OF that(1)] that(3) by (metis imageI)
    qed
    then show ?thesis using e that by (auto simp: ends_ok_def assms(2) nth_append)
  qed
  then have "ends_ok h' st' c got" using e assms(5) by (simp add: ends_ok_def)
  ultimately show ?thesis using k by (auto simp: cursor_ok_def assms(2))
qed

lemma end_sent_next [simp]: "end_sent src (c\<lparr>cu_next := x\<rparr>) = end_sent src c"
  by (simp add: end_sent_def split: output_source.split)

lemma skip_ok:
  assumes "cursor_ok h st c got" "buffer_ok h st"
  shows "cursor_ok h st (skip_dropped st c) got" "\<not> cu_next (skip_dropped st c) < ou_oldest st"
proof -
  show "\<not> cu_next (skip_dropped st c) < ou_oldest st" by (simp add: skip_dropped_def)
  show "cursor_ok h st (skip_dropped st c) got"
  proof (cases "cu_next c < ou_oldest st")
    case True
    then have less: "unat (cu_next c) < unat (ou_oldest st)" by (simp add: word_less_nat_alt)
    obtain ns where "chunks_ok h (unat (ou_oldest st)) (unat (cu_next c)) got ns"
      using assms(1) by (auto simp: cursor_ok_def)
    then have "chunks_ok h (unat (ou_oldest st)) (unat (ou_oldest st)) got ns"
      using less by (auto simp: chunks_ok_def)
    moreover have "ends_ok h st (c\<lparr>cu_next := ou_oldest st\<rparr>) got"
      using assms(1) less by (fastforce simp: cursor_ok_def ends_ok_def)
    ultimately show ?thesis using True assms(2) by (auto simp: cursor_ok_def skip_dropped_def buffer_ok_def)
  next
    case False
    then show ?thesis using assms(1) by (simp add: skip_dropped_def)
  qed
qed

lemma ready_finished:
  assumes "buffer_ok h st" "StreamState_ready_to_end k (stream_of src st)"
  shows "st_finished (stream_of src st) \<and> (\<forall>n<length h. fst (h ! n) = src \<longrightarrow> n < unat k)"
proof -
  have "stream_ok h src (stream_of src st)" using assms(1) by (simp add: buffer_ok_def)
  then show ?thesis
    using assms(2)
    by (auto simp: StreamState_ready_to_end_def stream_ok_def word_less_nat_alt split: option.splits
        dest: nth_mem intro: order_le_less_trans)
qed

lemma cursor_ok_end:
  assumes "cursor_ok h st c got" "buffer_ok h st" "StreamState_ready_to_end (cu_next c) (stream_of src st)"
    "c' = (case src of Stdout \<Rightarrow> c\<lparr>cu_stdout_end := True\<rparr> | Stderr \<Rightarrow> c\<lparr>cu_stderr_end := True\<rparr>)"
  shows "cursor_ok h st c' (got @ [Inr (end_output src (st_total_bytes (stream_of src st)))])"
proof -
  have "cu_next c' = cu_next c" "end_sent src' c' \<longleftrightarrow> end_sent src' c \<or> src' = src" for src'
    by (cases src; cases src'; simp add: assms(4) end_sent_def)+
  then show ?thesis
    using assms(1) ready_finished[OF assms(2,3)] by (auto simp: cursor_ok_def chunks_ok_def ends_ok_def)
qed

definition yields :: "attach_next \<Rightarrow> (string + exec_output) list" where
  "yields x = (case x of NextItem item \<Rightarrow> [Inr item] | NextError message \<Rightarrow> [Inl message] | _ \<Rightarrow> [])"

lemma yields_simps [simp]:
  "yields (NextItem item) = [Inr item]" "yields (NextError m) = [Inl m]" "yields NextWait = []" "yields NextDone = []"
  by (simp_all add: yields_def)

lemma cursor_ok_error [simp]: "cursor_ok h st c (got @ [Inl m]) = cursor_ok h st c got"
  by (simp add: cursor_ok_def chunks_ok_def ends_ok_def)

text \<open>How many items a reader still has to come, at most.\<close>

definition left :: "(output_source \<times> u8 list) list \<Rightarrow> attach_cursor \<Rightarrow> nat" where
  "left h c = length h - unat (cu_next c) + (if cu_stdout_end c then 0 else 1) + (if cu_stderr_end c then 0 else 1)"

definition all_ended :: "output_state \<Rightarrow> attach_cursor \<Rightarrow> bool" where
  "all_ended st c \<longleftrightarrow> (\<forall>src. st_enabled (stream_of src st) \<longrightarrow> end_sent src c)"

lemma all_ended_iff:
  "all_ended st c \<longleftrightarrow> (\<not> st_enabled (ou_stdout st) \<or> cu_stdout_end c) \<and> (\<not> st_enabled (ou_stderr st) \<or> cu_stderr_end c)"
  unfolding all_ended_def by (metis (full_types) end_sent_def output_source.exhaust output_source.simps(3,4) stream_of_def)

text \<open>The decision never panics, and keeps the reader's knowledge.\<close>

lemma attach_item_ok:
  assumes "cursor_ok h st c got" "buffer_ok h st" "length h < 2 ^ 64" "\<not> cu_next c < ou_oldest st"
  shows "\<exists>c' x. attach_item st c = Some (c', x) \<and>
    cursor_ok h st c' (got @ yields x) \<and>
    (\<forall>item. x = NextItem item \<longrightarrow> left h c' < left h c) \<and> (x = NextDone \<longrightarrow> all_ended st c') \<and>
    (\<forall>m. x \<noteq> NextError m) \<and>
    (st_finished (ou_stdout st) \<and> st_finished (ou_stderr st) \<longrightarrow> x \<noteq> NextWait)"
proof -
  have ends: "StreamState_ready_to_end (cu_next c) (ou_stdout st) \<Longrightarrow>
        cursor_ok h st (c\<lparr>cu_stdout_end := True\<rparr>) (got @ [Inr (end_output Stdout (st_total_bytes (ou_stdout st)))])"
      "StreamState_ready_to_end (cu_next c) (ou_stderr st) \<Longrightarrow>
        cursor_ok h st (c\<lparr>cu_stderr_end := True\<rparr>) (got @ [Inr (end_output Stderr (st_total_bytes (ou_stderr st)))])"
    using cursor_ok_end[OF assms(1,2), of Stdout "c\<lparr>cu_stdout_end := True\<rparr>"]
      cursor_ok_end[OF assms(1,2), of Stderr "c\<lparr>cu_stderr_end := True\<rparr>"] by (simp_all add: stream_of_def)
  let ?k = "unat (cu_next c)" and ?m = "unat (ou_oldest st)"
  have len: "unat (ou_next st) = length h" using assms(2,3) by (simp add: buffer_ok_def unat_small)
  have le: "?m \<le> ?k" using assms(4) by (simp add: word_less_nat_alt)
  have data: "unat (cu_next c - ou_oldest st) < length (ou_entries st) \<and>
      cursor_ok h st (c\<lparr>cu_next := cu_next c + 1\<rparr>)
        (got @ [Inr (oe_output (ou_entries st ! unat (cu_next c - ou_oldest st)))])"
    if "cu_next c < ou_next st"
  proof -
    have k: "?k < length h" using that len by (simp add: word_less_nat_alt)
    have index: "unat (cu_next c - ou_oldest st) = ?k - ?m"
      using assms(4) by (simp add: unat_sub not_less)
    have lenE: "length (ou_entries st) = length h - ?m" using assms(2) by (simp add: buffer_ok_def)
    have out: "oe_output (ou_entries st ! (?k - ?m)) = chunk_event h ?k"
      using assms(2) k le by (simp add: buffer_ok_def chunk_entry_def)
    have succ: "unat (cu_next c + 1) = ?k + 1"
      using k assms(3) unat_add_fits[of "cu_next c" 1] by simp
    obtain ns where ns: "chunks_ok h ?m ?k got ns"
      using assms(1) by (auto simp: cursor_ok_def)
    then have "chunks_ok h ?m (?k + 1) (got @ [Inr (chunk_event h ?k)]) (ns @ [?k])"
      by (auto simp: chunks_ok_def sorted_wrt_append less_Suc_eq)
    moreover have "ends_ok h st (c\<lparr>cu_next := cu_next c + 1\<rparr>) (got @ [Inr (chunk_event h ?k)])"
      using assms(1) by (fastforce simp: cursor_ok_def ends_ok_def succ)
    ultimately have "cursor_ok h st (c\<lparr>cu_next := cu_next c + 1\<rparr>) (got @ [Inr (chunk_event h ?k)])"
      using k by (auto simp: cursor_ok_def succ)
    then show ?thesis using index lenE k le out by simp
  qed
  have shorter: "length h - unat (cu_next c + 1) < length h - ?k" if "cu_next c < ou_next st"
    using that len assms(3) unat_add_fits[of "cu_next c" 1] by (simp add: word_less_nat_alt)
  have wait: "(\<not> st_enabled (ou_stdout st) \<or> cu_stdout_end c) \<and> (\<not> st_enabled (ou_stderr st) \<or> cu_stderr_end c)"
    if "st_finished (ou_stdout st)" "st_finished (ou_stderr st)" "\<not> cu_next c < ou_next st"
      "\<not> (StreamState_ready_to_end (cu_next c) (ou_stdout st) \<and> \<not> cu_stdout_end c)"
      "\<not> (StreamState_ready_to_end (cu_next c) (ou_stderr st) \<and> \<not> cu_stderr_end c)"
  proof -
    have "l < cu_next c" if "st_last_sequence (stream_of src st) = Some l" for src l
    proof -
      have "stream_ok h src (stream_of src st)" using assms(2) by (simp add: buffer_ok_def)
      then have "unat l < length h" using that by (simp add: stream_ok_def)
      then show ?thesis using \<open>\<not> cu_next c < ou_next st\<close> len by (simp add: word_less_nat_alt)
    qed
    from this[of Stdout] this[of Stderr] show ?thesis
      using that by (auto simp: StreamState_ready_to_end_def stream_of_def split: option.splits)
  qed
  show ?thesis
    using ends data wait assms(1) shorter by (auto simp: attach_item_def Let_def all_ended_iff left_def)
qed


lemma skip_left: "buffer_ok h st \<Longrightarrow> left h (skip_dropped st c) \<le> left h c"
  by (auto simp: left_def skip_dropped_def word_less_nat_alt intro!: diff_le_mono2)

lemma attach_decide_ok:
  assumes "cursor_ok h st c got" "buffer_ok h st" "length h < 2 ^ 64"
  shows "\<exists>c' x. attach_decide st c = Some (c', x) \<and> cursor_ok h st c' (got @ yields x) \<and>
    (\<forall>item. x = NextItem item \<longrightarrow> left h c' < left h c) \<and> (x = NextDone \<longrightarrow> all_ended st c') \<and>
    ((\<exists>m. x = NextError m) \<longrightarrow> ou_failure st \<noteq> None) \<and>
    (st_finished (ou_stdout st) \<and> st_finished (ou_stderr st) \<longrightarrow> x \<noteq> NextWait)"
  using attach_item_ok[OF skip_ok(1)[OF assms(1,2)] assms(2,3) skip_ok(2)[OF assms(1,2)]]
    skip_ok(1)[OF assms(1,2)] skip_left[OF assms(2), of c]
  by (auto simp: attach_decide_def Let_def split: option.split dest: order_less_le_trans)

section \<open>Every reachable state\<close>

text \<open>A reader whose stream has not ended holds the lease, so there is at most one.\<close>

definition reading :: "reader \<Rightarrow> bool" where
  "reading r \<longleftrightarrow> rd_phase r \<noteq> Ended"

definition reader_ok :: "output_sys \<Rightarrow> reader \<Rightarrow> bool" where
  "reader_ok s r \<longleftrightarrow> cursor_ok (os_history s) (os_state s) (rd_cursor r) (rd_got r)"

definition output_ok :: "output_sys \<Rightarrow> bool" where
  "output_ok s \<longleftrightarrow> buffer_ok (os_history s) (os_state s) \<and>
     (\<forall>src\<in>os_draining s. \<not> st_finished (stream_of src (os_state s))) \<and>
     (\<forall>r\<in>set (os_readers s). reader_ok s r) \<and>
     length (filter reading (os_readers s)) = (if os_lease s then 1 else 0)"

lemma after_decide_simps:
  "after_decide d r = (r', b) \<Longrightarrow> rd_cursor r' = fst d"
  "after_decide d r = (r', b) \<Longrightarrow> rd_got r' = rd_got r @ yields (snd d)"
  "after_decide d r = (r', b) \<Longrightarrow> rd_phase r = Polling \<Longrightarrow> reading r' = (\<not> b)"
  by (auto simp: after_decide_def Let_def reading_def split: attach_next.splits)

lemma length_filter_update:
  "i < length xs \<Longrightarrow> P (xs ! i) \<Longrightarrow>
     length (filter P (xs[i := x])) + 1 = length (filter P xs) + (if P x then 1 else 0)"
  by (induction xs arbitrary: i) (auto split: nat.splits simp: nth_Cons)

text \<open>The buffer's own steps.\<close>

definition settles :: "output_source \<Rightarrow> output_state \<Rightarrow> output_state \<Rightarrow> bool" where
  "settles src st st' \<longleftrightarrow> ou_entries st' = ou_entries st \<and> ou_buffered st' = ou_buffered st \<and>
     ou_oldest st' = ou_oldest st \<and> ou_next st' = ou_next st \<and>
     (\<forall>src'. stream_of src' st' = (if src' = src then (stream_of src st)\<lparr>st_finished := True\<rparr> else stream_of src' st))"

lemma finished_settles:
  "settles src st (reader_finished src st)" "settles src st (reader_failed src error st)"
  by (auto simp: settles_def reader_finished_def reader_failed_def Let_def)

lemma settles_ok:
  assumes "settles src st st'"
  shows "buffer_ok h st' = buffer_ok h st" "cursor_ok h st c got \<Longrightarrow> cursor_ok h st' c got"
proof -
  have same: "stream_ok h src' (stream_of src' st') = stream_ok h src' (stream_of src' st)" for src'
    using assms by (simp add: settles_def stream_ok_def)
  show "buffer_ok h st' = buffer_ok h st"
    using assms same by (simp add: buffer_ok_def settles_def)
  show "cursor_ok h st' c got" if "cursor_ok h st c got"
    by (rule cursor_ok_mono[OF that, of _ "[]"]) (use assms in \<open>auto simp: settles_def\<close>)
qed

lemma seal_same:
  assumes "OutputManager_seal st = (st', b)"
  shows "buffer_ok h st' = buffer_ok h st" "cursor_ok h st' c got = cursor_ok h st c got"
    "stream_of src st' = stream_of src st"
  using assms by (auto simp: OutputManager_seal_def buffer_ok_def cursor_ok_def ends_ok_def split: if_splits)

lemma push_cursor:
  assumes "cursor_ok h st c got" "buffer_ok h st" "\<not> st_finished (stream_of src st)" "length h + 1 < 2 ^ 64"
  shows "cursor_ok (h @ [(src, d)]) (OutputManager_push src d st) c got"
proof (rule cursor_ok_mono[OF assms(1) refl])
  show "src' \<notin> fst ` set [(src, d)]" if "end_sent src' c" for src'
    using assms(1,3) that by (auto simp: cursor_ok_def ends_ok_def)
  show "unat (ou_oldest st) \<le> unat (ou_oldest (OutputManager_push src d st))"
    using push_oldest[OF assms(2,4)] .
qed (use assms(3) in \<open>auto simp: push_stream\<close>)


lemma output_step_ok:
  assumes "output_step s s'" "output_ok s" "length (os_history s') < 2 ^ 64"
  shows "output_ok s'"
proof -
  have buf: "buffer_ok (os_history s) (os_state s)"
    and drain: "src \<in> os_draining s \<Longrightarrow> \<not> st_finished (stream_of src (os_state s))"
    and readers: "r \<in> set (os_readers s) \<Longrightarrow> cursor_ok (os_history s) (os_state s) (rd_cursor r) (rd_got r)"
    and lease: "length (filter reading (os_readers s)) = (if os_lease s then 1 else 0)" for src r
    using assms(2) by (auto simp: output_ok_def reader_ok_def)
  have one: "length (filter reading ((os_readers s)[i := r])) = (if reading r then 1 else 0) \<and> os_lease s"
    if "i < length (os_readers s)" "reading (os_readers s ! i)" for i r
  proof -
    have "0 < length (filter reading (os_readers s))"
      using that by (metis filter_empty_conv length_greater_0_conv nth_mem)
    then show ?thesis using length_filter_update[of i "os_readers s" reading r] that lease by (auto split: if_splits)
  qed
  have upd: "output_ok (set_reader i r s)" if "i < length (os_readers s)" "reading (os_readers s ! i)" "reading r"
      "cursor_ok (os_history s) (os_state s) (rd_cursor r) (rd_got r)" for i r
    using one[OF that(1,2), of r] that buf drain readers
    by (auto simp: output_ok_def reader_ok_def set_reader_def dest!: set_update_subset_insert[THEN subsetD])
  have upd_end: "output_ok (drop_lease (set_reader i r s))" if "i < length (os_readers s)" "reading (os_readers s ! i)" "\<not> reading r"
      "cursor_ok (os_history s) (os_state s) (rd_cursor r) (rd_got r)" for i r
    using one[OF that(1,2), of r] that buf drain readers
    by (auto simp: output_ok_def reader_ok_def set_reader_def drop_lease_def dest!: set_update_subset_insert[THEN subsetD])
  have settled: "output_ok (s\<lparr>os_state := st', os_version := v, os_draining := os_draining s - {src}\<rparr>)"
    if "settles src (os_state s) st'" for st' v src
    using settles_ok[OF that] that buf drain readers lease
    by (auto simp: output_ok_def reader_ok_def settles_def)
  from assms(1) show ?thesis
  proof cases
    case (pushes src data)
    then show ?thesis
      using push_buffer[OF buf] push_cursor[OF readers buf drain] drain lease assms(3)
      by (auto simp: output_ok_def reader_ok_def push_stream)
  next
    case (seals st)
    then show ?thesis using seal_same[OF seals(2)] buf drain readers lease by (simp add: output_ok_def reader_ok_def)
  next
    case (claims lse live)
    then show ?thesis using buf drain readers lease cursor_ok_start
      by (auto simp: output_ok_def reader_ok_def claim_consumer_def reading_def split: if_splits)
  next
    case (refused i r)
    then show ?thesis using upd_end[of i] readers[of r] by (auto simp: reading_def)
  next
    case (begins i r live)
    then show ?thesis using upd[of i] readers[of r] by (auto simp: reading_def)
  next
    case (polls i r d r')
    then have "cursor_ok (os_history s) (os_state s) (fst d) (rd_got r @ yields (snd d))"
      using attach_decide_ok[OF readers buf, of r] assms(3) by (auto simp: set_reader_def)
    then show ?thesis
      using upd[of i r'] polls after_decide_simps[OF polls(6)] by (auto simp: reading_def)
  next
    case (ends i r d r')
    then have "cursor_ok (os_history s) (os_state s) (fst d) (rd_got r @ yields (snd d))"
      using attach_decide_ok[OF readers buf, of r] assms(3) by (auto simp: set_reader_def drop_lease_def)
    then show ?thesis
      using upd_end[of i r'] ends after_decide_simps[OF ends(6)] by (auto simp: reading_def)
  next
    case (wakes i r)
    then show ?thesis using upd[of i] readers[of r] by (auto simp: reading_def)
  next
    case (drops i r)
    then show ?thesis using upd_end[of i] readers[of r] by (auto simp: reading_def)
  next
    case (finishes src)
    then show ?thesis using settled[OF finished_settles(1)] by simp
  next
    case (fails src error)
    then show ?thesis using settled[OF finished_settles(2)] by simp
  next
    case shuts_down
    then show ?thesis using assms(2) by (simp add: output_ok_def reader_ok_def)
  qed
qed

lemma step_history: "output_step s s' \<Longrightarrow> length (os_history s) \<le> length (os_history s')"
  by (cases rule: output_step.cases) (auto simp: set_reader_def drop_lease_def)

lemma empty_buffer_ok: "buffer_ok [] (OutputManager_new out err)"
  by (auto simp: buffer_ok_def OutputManager_new_def Let_def stream_ok_def stream_of_def split: output_source.split)

lemma output_reachable_ok:
  "output_reachable s \<Longrightarrow> length (os_history s) < 2 ^ 64 \<Longrightarrow> output_ok s"
proof (induction rule: output_reachable.induct)
  case (start out err)
  then show ?case using empty_buffer_ok
    by (auto simp: output_ok_def output_start_def OutputManager_new_def Let_def stream_of_def)
next
  case (rejected diagnostic tty)
  then show ?case using push_buffer[OF empty_buffer_ok]
    by (simp add: output_ok_def diagnostic_start_def completed_with_diagnostic_def)
next
  case (step s s')
  then show ?case using output_step_ok step_history by (meson order_le_less_trans)
qed


section \<open>What an attached client gets\<close>

definition received :: "output_source \<Rightarrow> (string + exec_output) list \<Rightarrow> u8 list" where
  "received src got = concat (map (oc_data \<circ> payload) (filter (\<lambda>x. source x = src) (chunks got)))"

lemma written_take_index:
  "k \<le> length h \<Longrightarrow>
     concat (map (oc_data \<circ> payload) (filter (\<lambda>x. source x = src) (map (chunk_event h) [0..<k]))) = written src (take k h)"
proof (induction k)
  case 0
  then show ?case by simp
next
  case (Suc k)
  obtain src' d where hk: "h ! k = (src', d)" by fastforce
  have "take (Suc k) h = take k h @ [(src', d)]" using Suc.prems hk by (simp add: take_Suc_conv_app_nth)
  then show ?case using Suc hk by simp
qed

lemma written_take:
  assumes "\<And>n. n < length h \<Longrightarrow> fst (h ! n) = src \<Longrightarrow> n < k"
  shows "written src (take k h) = written src h"
proof -
  have "filter (\<lambda>x. fst x = src) (drop k h) = []"
  proof -
    have "fst (h ! (k + i)) \<noteq> src" if "i < length h - k" for i using assms[of "k + i"] that by fastforce
    then show ?thesis by (fastforce simp: filter_empty_conv in_set_conv_nth)
  qed
  then have "filter (\<lambda>x. fst x = src) (take k h @ drop k h) = filter (\<lambda>x. fst x = src) (take k h)"
    by (simp only: filter_append) simp
  then show ?thesis by (simp add: written_def)
qed

lemma received_all:
  assumes "cursor_ok h st c got" "end_sent src c" "ou_oldest st = 0"
  shows "received src got = written src h"
proof -
  obtain ns where ns: "chunks_ok h 0 (unat (cu_next c)) got ns"
    using assms(1,3) by (auto simp: cursor_ok_def)
  then have "sorted_wrt (<) ns" "set ns = {0..<unat (cu_next c)}" by (auto simp: chunks_ok_def)
  then have "ns = [0..<unat (cu_next c)]"
    by (metis sorted_list_of_set.idem_if_sorted_distinct sorted_list_of_set_range strict_sorted_iff)
  moreover have "unat (cu_next c) \<le> length h" using assms(1) by (simp add: cursor_ok_def)
  ultimately have "received src got = written src (take (unat (cu_next c)) h)"
    using ns written_take_index by (simp add: received_def chunks_ok_def)
  also have "\<dots> = written src h"
    using assms(1,2) by (intro written_take) (auto simp: cursor_ok_def ends_ok_def)
  finally show ?thesis .
qed

text \<open>C5. A client that attaches to an execution reads its output exactly. Whatever the drain tasks, other
  clients and the seal do meanwhile, the chunks a reader yields are those pushed, in order and each with
  its offset in its stream; a chunk is missing only if it left the buffer, which never holds more than a
  mebibyte. The end of a stream carries its total and follows all its chunks, so while nothing has been
  dropped the client has every byte of it. At most one reader runs at a time.\<close>
theorem replay_exact:
  assumes "output_reachable s" "length (os_history s) < 2 ^ 64" "r \<in> set (os_readers s)"
  shows "(\<exists>ns. sorted_wrt (<) ns \<and> chunks (rd_got r) = map (chunk_event (os_history s)) ns \<and>
      (\<forall>n<unat (cu_next (rd_cursor r)). n \<in> set ns \<or> n < unat (ou_oldest (os_state s)))) \<and>
    (\<forall>src t. Inr (end_output src t) \<in> set (rd_got r) \<longrightarrow>
      t = of_nat (length (written src (os_history s))) \<and>
      (ou_oldest (os_state s) = 0 \<longrightarrow> received src (rd_got r) = written src (os_history s))) \<and>
    ou_buffered (os_state s) \<le> BUFFER_CAPACITY_BYTES \<and> length (filter reading (os_readers s)) \<le> 1"
proof -
  have ok: "output_ok s" by (rule output_reachable_ok[OF assms(1,2)])
  then have c: "cursor_ok (os_history s) (os_state s) (rd_cursor r) (rd_got r)"
    using assms(3) by (simp add: output_ok_def reader_ok_def)
  obtain ns where "chunks_ok (os_history s) (unat (ou_oldest (os_state s))) (unat (cu_next (rd_cursor r))) (rd_got r) ns"
    using c by (auto simp: cursor_ok_def)
  moreover have "end_sent src (rd_cursor r) \<and> t = of_nat (length (written src (os_history s)))"
    if "Inr (end_output src t) \<in> set (rd_got r)" for src t
  proof -
    have "end_sent src (rd_cursor r)" "t = st_total_bytes (stream_of src (os_state s))"
      using c that by (simp_all add: cursor_ok_def ends_ok_def)
    moreover have "stream_ok (os_history s) src (stream_of src (os_state s))"
      using ok by (simp add: output_ok_def buffer_ok_def)
    ultimately show ?thesis by (simp add: stream_ok_def)
  qed
  ultimately show ?thesis
    using ok received_all[OF c] by (auto simp: chunks_ok_def output_ok_def buffer_ok_def)
qed

section \<open>Every attach ends\<close>

text \<open>A reader alone with a buffer, for at most that many turns; \<open>None\<close> when it panics or waits.\<close>

fun replay :: "nat \<Rightarrow> output_state \<Rightarrow> attach_cursor \<Rightarrow> (string + exec_output) list option" where
  "replay 0 st c = None"
| "replay (Suc n) st c =
     (case attach_decide st c of
        None \<Rightarrow> None
      | Some (c, NextItem item) \<Rightarrow> map_option ((#) (Inr item)) (replay n st c)
      | Some (c, NextError message) \<Rightarrow> Some [Inl message]
      | Some (c, NextDone) \<Rightarrow> Some []
      | Some (c, NextWait) \<Rightarrow> None)"

lemma replay_returns:
  assumes "cursor_ok h st c got" "buffer_ok h st" "length h < 2 ^ 64"
    "st_finished (ou_stdout st)" "st_finished (ou_stderr st)" "left h c < n"
  shows "\<exists>items. replay n st c = Some items \<and>
    (ou_failure st = None \<longrightarrow> (\<forall>src. st_enabled (stream_of src st) \<longrightarrow>
       Inr (end_output src (st_total_bytes (stream_of src st))) \<in> set (got @ items)))"
  using assms(1,6)
proof (induction n arbitrary: c got)
  case 0
  then show ?case by simp
next
  case (Suc n)
  obtain c' x where d: "attach_decide st c = Some (c', x)" and ok: "cursor_ok h st c' (got @ yields x)"
    and x: "\<And>item. x = NextItem item \<Longrightarrow> left h c' < left h c" "x = NextDone \<Longrightarrow> all_ended st c'"
      "(\<exists>m. x = NextError m) \<Longrightarrow> ou_failure st \<noteq> None" "x \<noteq> NextWait"
    using attach_decide_ok[OF Suc.prems(1) assms(2,3)] assms(4,5) by blast
  show ?case
  proof (cases x)
    case (NextItem item)
    then show ?thesis using Suc.IH[OF ok] x(1)[OF NextItem] Suc.prems(2) d by fastforce
  next
    case NextDone
    then show ?thesis using d ok x(2) by (auto simp: cursor_ok_def ends_ok_def all_ended_def)
  qed (use d x in auto)
qed

definition awake :: "output_sys \<Rightarrow> bool" where
  "awake s \<longleftrightarrow> (\<forall>r\<in>set (os_readers s). rd_seen r \<le> os_version s \<and>
     (rd_phase r = Waiting \<and> st_finished (ou_stdout (os_state s)) \<and> st_finished (ou_stderr (os_state s)) \<longrightarrow>
       rd_seen r < os_version s))"

lemma awake_update:
  assumes "awake s" "rd_seen r \<le> os_version s" "rd_phase r \<noteq> Waiting \<or>
    \<not> (st_finished (ou_stdout (os_state s)) \<and> st_finished (ou_stderr (os_state s)))"
  shows "awake (set_reader i r s)"
  using assms by (auto simp: awake_def set_reader_def dest!: set_update_subset_insert[THEN subsetD])

lemma awake_later:
  assumes "awake s" "os_readers s' = os_readers s" "os_version s' = os_version s + 1"
  shows "awake s'"
  using assms by (auto simp: awake_def)

lemma awake_drop: "awake s \<Longrightarrow> awake (drop_lease s)"
  by (rule awake_later) (simp_all add: drop_lease_def)

lemma after_decide_phase:
  "after_decide (c, x) r = (r', b) \<Longrightarrow> rd_phase r = Polling \<Longrightarrow>
     rd_seen r' = rd_seen r \<and> (rd_phase r' = Waiting \<longrightarrow> x = NextWait)"
  by (auto simp: after_decide_def Let_def split: attach_next.splits)

lemma awake_step:
  assumes "output_step s s'" "awake s" "output_ok s" "length (os_history s) < 2 ^ 64"
  shows "awake s'"
proof -
  have waits: "\<not> (st_finished (ou_stdout (os_state s)) \<and> st_finished (ou_stderr (os_state s)))"
    if "r \<in> set (os_readers s)" "attach_decide (os_state s) (rd_cursor r) = Some (c, NextWait)" for r c
    using attach_decide_ok[of "os_history s" "os_state s" "rd_cursor r" "rd_got r"] that assms(3,4)
    by (auto simp: output_ok_def reader_ok_def)
  have seen: "rd_seen r \<le> os_version s" if "r \<in> set (os_readers s)" for r
    using that assms(2) by (simp add: awake_def)
  have polled: "awake (set_reader i r' s)"
    if "i < length (os_readers s)" "rd_phase (os_readers s ! i) = Polling"
      "attach_decide (os_state s) (rd_cursor (os_readers s ! i)) = Some d" "after_decide d (os_readers s ! i) = (r', b)"
    for i d r' b
  proof -
    obtain c x where d: "d = (c, x)" by fastforce
    have mem: "os_readers s ! i \<in> set (os_readers s)" using that(1) by simp
    show ?thesis
      using awake_update[OF assms(2), of r' i] after_decide_phase[of c x "os_readers s ! i" r' b] that seen[OF mem] waits[OF mem]
      by (auto simp: d)
  qed
  from assms(1) show ?thesis
  proof cases
    case (polls i r d r')
    then show ?thesis using polled by blast
  next
    case (ends i r d r')
    then show ?thesis using polled awake_drop by blast
  next
    case (begins i r live)
    then show ?thesis by (simp add: awake_update[OF assms(2)])
  next
    case (wakes i r)
    then show ?thesis by (simp add: awake_update[OF assms(2)])
  next
    case (refused i r)
    then show ?thesis using seen[of r] by (auto intro!: awake_drop awake_update[OF assms(2)])
  next
    case (drops i r)
    then show ?thesis using seen[of r] by (auto intro!: awake_drop awake_update[OF assms(2)])
  next
    case (claims lse live)
    then show ?thesis using assms(2) by (auto simp: awake_def)
  next
    case shuts_down
    then show ?thesis using assms(2) by (simp add: awake_def)
  qed (rule awake_later[OF assms(2)]; simp)+
qed


lemma awake_reachable:
  "output_reachable s \<Longrightarrow> length (os_history s) < 2 ^ 64 \<Longrightarrow> awake s"
proof (induction rule: output_reachable.induct)
  case (step s s')
  then have "length (os_history s) < 2 ^ 64" using step_history by (meson order_le_less_trans)
  then show ?case using step awake_step output_reachable_ok by blast
qed (simp_all add: awake_def output_start_def diagnostic_start_def)

text \<open>C31. Once a process has closed its output, every client attached to it, then or later, finishes.
  From wherever its reader stands the stream ends within a bounded number of turns, without the panic on a
  missing sequence and without waiting again, and unless the output could not be read the client gets
  the end of every stream. A reader that was waiting has been woken.\<close>
theorem attach_ends:
  assumes "output_reachable s" "length (os_history s) < 2 ^ 64" "r \<in> set (os_readers s)"
    "st_finished (ou_stdout (os_state s))" "st_finished (ou_stderr (os_state s))"
  shows "(\<exists>items. replay (length (os_history s) + 3) (os_state s) (rd_cursor r) = Some items \<and>
      (ou_failure (os_state s) = None \<longrightarrow> (\<forall>src. st_enabled (stream_of src (os_state s)) \<longrightarrow>
        Inr (end_output src (st_total_bytes (stream_of src (os_state s)))) \<in> set (rd_got r @ items)))) \<and>
    (rd_phase r = Waiting \<longrightarrow> rd_seen r \<noteq> os_version s)"
proof
  have "output_ok s" by (rule output_reachable_ok[OF assms(1,2)])
  then have "cursor_ok (os_history s) (os_state s) (rd_cursor r) (rd_got r)" "buffer_ok (os_history s) (os_state s)"
    using assms(3) by (simp_all add: output_ok_def reader_ok_def)
  then show "\<exists>items. replay (length (os_history s) + 3) (os_state s) (rd_cursor r) = Some items \<and>
      (ou_failure (os_state s) = None \<longrightarrow> (\<forall>src. st_enabled (stream_of src (os_state s)) \<longrightarrow>
        Inr (end_output src (st_total_bytes (stream_of src (os_state s)))) \<in> set (rd_got r @ items)))"
    by (intro replay_returns[OF _ _ assms(2,4,5)]) (auto simp: left_def)
  show "rd_phase r = Waiting \<longrightarrow> rd_seen r \<noteq> os_version s"
    using awake_reachable[OF assms(1,2)] assms(3-5) by (auto simp: awake_def)
qed

lemma all_sources: "(\<forall>src. P src) \<longleftrightarrow> P Stdout \<and> P Stderr"
  by (metis output_source.exhaust)

section \<open>An execution that prints two bytes\<close>

definition demo_chunk :: out_chunk where
  "demo_chunk = \<lparr>oc_data = [104, 105], oc_offset = Some 0, oc_total = None\<rparr>"

definition demo_stream :: stream_state where
  "demo_stream = \<lparr>st_enabled = True, st_finished = True, st_total_bytes = 2, st_last_sequence = Some 0\<rparr>"

definition demo_state :: output_state where
  "demo_state = \<lparr>ou_entries = [\<lparr>oe_sequence = 0, oe_output = StdoutEvent demo_chunk, oe_byte_len = 2\<rparr>],
     ou_buffered = 2, ou_oldest = 0, ou_next = 1, ou_failure = None, ou_sealed = False, ou_stdout = demo_stream,
     ou_stderr = \<lparr>st_enabled = False, st_finished = True, st_total_bytes = 0, st_last_sequence = None\<rparr>\<rparr>"

definition demo_attached :: "reader_phase \<Rightarrow> attach_cursor \<Rightarrow> nat \<Rightarrow> (string + exec_output) list \<Rightarrow> output_sys" where
  "demo_attached phase c seen got = \<lparr>os_state = demo_state, os_version = 2, os_lease = True, os_draining = {},
     os_readers = [\<lparr>rd_phase = phase, rd_cursor = c, rd_seen = seen, rd_got = got\<rparr>],
     os_history = [(Stdout, [104, 105])]\<rparr>"

lemmas demo_output_defs = demo_attached_def demo_state_def demo_stream_def demo_chunk_def

lemma demo_pushed:
  "output_reachable \<lparr>os_state = demo_state\<lparr>ou_stdout := demo_stream\<lparr>st_finished := False\<rparr>\<rparr>, os_version = 1,
     os_lease = False, os_draining = {Stdout}, os_readers = [], os_history = [(Stdout, [104, 105])]\<rparr>"
  using output_reachable.step[OF output_reachable.start[of True False] pushes[of Stdout _ "[104, 105]"]]
  by (simp add: output_start_def OutputManager_new_def OutputManager_push_def Let_def stream_mut_def stream_of_def
      BUFFER_CAPACITY_BYTES_def data_output_def event_of_def demo_output_defs flip: numeral_2_eq_2)

lemma demo_finished:
  "output_reachable \<lparr>os_state = demo_state, os_version = 2, os_lease = False, os_draining = {}, os_readers = [],
     os_history = [(Stdout, [104, 105])]\<rparr>"
  using output_reachable.step[OF demo_pushed finishes[of Stdout]]
  by (simp add: reader_finished_def stream_mut_def demo_state_def demo_stream_def flip: numeral_2_eq_2)

lemma demo_claimed: "output_reachable (demo_attached (Claimed False) start_cursor 0 [])"
  using output_reachable.step[OF demo_finished claims[of _ True False]]
  by (simp add: claim_consumer_def demo_attached_def)

lemma demo_polling: "output_reachable (demo_attached Polling start_cursor 2 [])"
  using output_reachable.step[OF demo_claimed begins[of 0 _ _ False]]
  by (simp add: set_reader_def demo_attached_def)

lemma demo_first: "output_reachable (demo_attached Polling (start_cursor\<lparr>cu_next := 1\<rparr>) 2 [Inr (StdoutEvent demo_chunk)])"
  using output_reachable.step[OF demo_polling polls[of 0 _ _ "(start_cursor\<lparr>cu_next := 1\<rparr>, NextItem (StdoutEvent demo_chunk))"]]
  by (simp add: set_reader_def attach_decide_def skip_dropped_def attach_item_def Let_def StreamState_ready_to_end_def
      after_decide_def start_cursor_def demo_attached_def demo_state_def demo_stream_def)

lemma demo_second:
  "output_reachable (demo_attached Polling (start_cursor\<lparr>cu_next := 1, cu_stdout_end := True\<rparr>) 2
     [Inr (StdoutEvent demo_chunk), Inr (end_output Stdout 2)])"
  using output_reachable.step[OF demo_first polls[of 0 _ _ "(start_cursor\<lparr>cu_next := 1, cu_stdout_end := True\<rparr>, NextItem (end_output Stdout 2))"]]
  by (simp add: set_reader_def attach_decide_def skip_dropped_def attach_item_def Let_def StreamState_ready_to_end_def
      after_decide_def start_cursor_def demo_attached_def demo_state_def demo_stream_def)

lemma replay_exact_witness:
  "received Stdout [Inr (StdoutEvent demo_chunk), Inr (end_output Stdout 2)] = [104, 105]"
  using replay_exact[OF demo_second, of "hd (os_readers (demo_attached Polling (start_cursor\<lparr>cu_next := 1, cu_stdout_end := True\<rparr>) 2
     [Inr (StdoutEvent demo_chunk), Inr (end_output Stdout 2)]))"]
  by (auto simp: demo_attached_def demo_state_def written_def)

lemma attach_ends_witness:
  "\<exists>items. replay 4 demo_state start_cursor = Some items \<and> Inr (end_output Stdout 2) \<in> set items"
  using attach_ends[OF demo_polling, of "hd (os_readers (demo_attached Polling start_cursor 2 []))"]
  by (auto simp: demo_attached_def demo_state_def demo_stream_def stream_of_def all_sources)

end
