(* ===== verification/Exec_Registry.thy ===== *)
theory Exec_Registry
  imports Exec_Output "HOL-Library.AList" "HOL-Library.Char_ord" "HOL-Library.List_Lexorder"
    "HOL-Library.Product_Lexorder" "HOL-Library.Multiset"
begin

text \<open>
  The registry of the guest's executions, \<open>ExecutionRegistry\<close> of
  \<open>src/src/guest/src/service/exec/registry.rs\<close>: reservations of identifiers, live executions, finished
  ones kept for late readers, and tombstones of their results.

  The hash map of entries is an association list with distinct keys; the properties hold for every
  order of it, the order a \<open>HashMap\<close> happens to iterate in. An execution state is a value of \<open>'s\<close>;
  whether a reader streams from it is asked of the state's lease, outside the registry's lock, so the
  answers are a parameter. An \<open>Instant\<close> is a number of nanoseconds, read once per operation. A string
  is the list of its UTF-8 bytes.
\<close>

definition RETAIN_GRACE :: nat where "RETAIN_GRACE = 5 * 60 * 10 ^ 9"
definition TOMBSTONE_TTL :: nat where "TOMBSTONE_TTL = 15 * 60 * 10 ^ 9"
definition MAX_RETAINED_ENTRIES :: nat where "MAX_RETAINED_ENTRIES = 64"
definition MAX_RETAINED_BYTES :: nat where "MAX_RETAINED_BYTES = 8 * 1024 * 1024"
definition MAX_TOMBSTONE_ENTRIES :: nat where "MAX_TOMBSTONE_ENTRIES = 1024"
definition MAX_TOMBSTONE_METADATA_BYTES :: nat where "MAX_TOMBSTONE_METADATA_BYTES = 5 * 1024 * 1024"
definition MAX_TOMBSTONE_DIAGNOSTIC_BYTES :: nat where "MAX_TOMBSTONE_DIAGNOSTIC_BYTES = 4 * 1024"

definition TOMBSTONE_TRUNCATION_SUFFIX :: string where
  "TOMBSTONE_TRUNCATION_SUFFIX = [CHR 0xE2, CHR 0x80, CHR 0xA6] @ ''[truncated]''"

section \<open>Entries\<close>

record execution_exit =
  ex_exit_code :: int
  ex_signal :: int
  ex_error_message :: string

record terminal_snapshot =
  sn_exit :: execution_exit
  sn_output :: terminal_summary

datatype 's execution_entry =
  Reserved u64
| Live 's
| Retained 's terminal_snapshot nat nat u64
| Tombstone terminal_snapshot nat nat u64

text \<open>
  The arguments of \<open>Retained\<close> are the state, the snapshot, the retained bytes, the expiry and the last
  access; those of \<open>Tombstone\<close> the snapshot, the expiry, the metadata bytes and the last access.
\<close>

datatype 's execution_lookup =
  LookupLive 's
| LookupRetained 's terminal_snapshot
| LookupTombstone terminal_snapshot

record 's registry =
  rg_entries :: "(string \<times> 's execution_entry) list"
  rg_next_ticket :: u64
  rg_next_access :: u64
  rg_shutting_down :: bool

definition registry_new :: "'s registry" where
  "registry_new = \<lparr>rg_entries = [], rg_next_ticket = 0, rg_next_access = 0, rg_shutting_down = False\<rparr>"

text \<open>\<open>wrapping_add(1).max(1)\<close>.\<close>

definition counter_next :: "u64 \<Rightarrow> u64" where
  "counter_next n = max (n + 1) 1"

definition next_access :: "'s registry \<Rightarrow> 's registry \<times> u64" where
  "next_access rg = (let n = counter_next (rg_next_access rg) in (rg\<lparr>rg_next_access := n\<rparr>, n))"

definition insert_entry :: "string \<Rightarrow> 's execution_entry \<Rightarrow> 's registry \<Rightarrow> 's registry" where
  "insert_entry i e rg = rg\<lparr>rg_entries := AList.update i e (rg_entries rg)\<rparr>"

definition remove_entry :: "string \<Rightarrow> 's registry \<Rightarrow> 's registry" where
  "remove_entry i rg = rg\<lparr>rg_entries := AList.delete i (rg_entries rg)\<rparr>"

section \<open>Tombstones\<close>

definition is_char_boundary :: "string \<Rightarrow> nat \<Rightarrow> bool" where
  "is_char_boundary s i \<longleftrightarrow> i = 0 \<or> i = length s \<or>
     (i < length s \<and> (of_char (s ! i) :: u8) AND 0xC0 \<noteq> 0x80)"

text \<open>The loop that looks for a boundary at or before \<open>end\<close>; index 0 is one.\<close>

fun boundary_before :: "string \<Rightarrow> nat \<Rightarrow> nat" where
  "boundary_before s 0 = 0"
| "boundary_before s (Suc i) = (if is_char_boundary s (Suc i) then Suc i else boundary_before s i)"

definition truncate_diagnostic :: "string \<Rightarrow> string" where
  "truncate_diagnostic message =
     (if length message \<le> MAX_TOMBSTONE_DIAGNOSTIC_BYTES then message
      else take (boundary_before message (MAX_TOMBSTONE_DIAGNOSTIC_BYTES - length TOMBSTONE_TRUNCATION_SUFFIX)) message
        @ TOMBSTONE_TRUNCATION_SUFFIX)"

definition tombstone_entry :: "terminal_snapshot \<Rightarrow> nat \<Rightarrow> u64 \<Rightarrow> 's execution_entry" where
  "tombstone_entry snapshot expires_at last_access =
     (let snapshot = snapshot\<lparr>sn_exit := (sn_exit snapshot)\<lparr>ex_error_message :=
            truncate_diagnostic (ex_error_message (sn_exit snapshot))\<rparr>\<rparr>;
          snapshot = snapshot\<lparr>sn_output := (sn_output snapshot)\<lparr>ts_reader_failure :=
            map_option truncate_diagnostic (ts_reader_failure (sn_output snapshot))\<rparr>\<rparr>;
          metadata_bytes = length (ex_error_message (sn_exit snapshot)) +
            (case ts_reader_failure (sn_output snapshot) of None \<Rightarrow> 0 | Some m \<Rightarrow> length m)
      in Tombstone snapshot expires_at metadata_bytes last_access)"

definition tombstones :: "'s registry \<Rightarrow> (string \<times> nat \<times> u64) list" where
  "tombstones rg = List.map_filter (\<lambda>(i, e). case e of
     Tombstone _ _ bytes access \<Rightarrow> Some (i, bytes, access) | _ \<Rightarrow> None) (rg_entries rg)"

fun drop_tombstones :: "(string \<times> nat \<times> u64) list \<Rightarrow> nat \<Rightarrow> 's registry \<Rightarrow> 's registry" where
  "drop_tombstones [] total_bytes rg = rg"
| "drop_tombstones ((i, bytes, access) # rest) total_bytes rg =
     (if MAX_TOMBSTONE_ENTRIES < Suc (length rest) \<or> MAX_TOMBSTONE_METADATA_BYTES < total_bytes
      then drop_tombstones rest (total_bytes - bytes) (remove_entry i rg) else rg)"

definition enforce_tombstone_limits :: "'s registry \<Rightarrow> 's registry" where
  "enforce_tombstone_limits rg =
     (let ts = sort_key (\<lambda>(_, _, access). access) (tombstones rg) in
      drop_tombstones ts (sum_list (map (\<lambda>(_, bytes, _). bytes) ts)) rg)"

section \<open>Operations\<close>

record execution_info =
  ei_execution_id :: string
  ei_started_at :: u64

definition list_executions :: "('s \<Rightarrow> execution_info option) \<Rightarrow> 's registry \<Rightarrow> execution_info list" where
  "list_executions live_metadata rg =
     sort_key (\<lambda>info. (ei_started_at info, ei_execution_id info))
       (List.map_filter (\<lambda>(_, e). case e of Live s \<Rightarrow> live_metadata s | _ \<Rightarrow> None) (rg_entries rg))"

definition registry_exists :: "string \<Rightarrow> 's registry \<Rightarrow> bool" where
  "registry_exists i rg \<longleftrightarrow> map_of (rg_entries rg) i \<noteq> None"

definition lookup_execution :: "string \<Rightarrow> 's registry \<Rightarrow> 's registry \<times> 's execution_lookup option" where
  "lookup_execution i rg =
     (let (rg, access) = next_access rg in
      case map_of (rg_entries rg) i of
        Some (Live s) \<Rightarrow> (rg, Some (LookupLive s))
      | Some (Retained s snapshot bytes expires _) \<Rightarrow>
          (insert_entry i (Retained s snapshot bytes expires access) rg, Some (LookupRetained s snapshot))
      | Some (Tombstone snapshot expires bytes _) \<Rightarrow>
          (insert_entry i (Tombstone snapshot expires bytes access) rg, Some (LookupTombstone snapshot))
      | Some (Reserved _) \<Rightarrow> (rg, None)
      | None \<Rightarrow> (rg, None))"

definition registry_register :: "string \<Rightarrow> 's \<Rightarrow> 's registry \<Rightarrow> 's registry \<times> bool" where
  "registry_register i s rg =
     (if rg_shutting_down rg \<or> registry_exists i rg then (rg, False)
      else (insert_entry i (Live s) rg, True))"

text \<open>A reservation is its identifier and its ticket; its flag \<open>released\<close> only silences its drop.\<close>

definition registry_reserve :: "string \<Rightarrow> 's registry \<Rightarrow> 's registry \<times> (string \<times> u64) option" where
  "registry_reserve i rg =
     (if rg_shutting_down rg \<or> registry_exists i rg then (rg, None)
      else let ticket = counter_next (rg_next_ticket rg) in
        (insert_entry i (Reserved ticket) (rg\<lparr>rg_next_ticket := ticket\<rparr>), Some (i, ticket)))"

definition release_reserved_id :: "string \<Rightarrow> u64 \<Rightarrow> 's registry \<Rightarrow> 's registry \<times> bool" where
  "release_reserved_id i ticket rg =
     (case map_of (rg_entries rg) i of
        Some (Reserved held) \<Rightarrow> if held = ticket then (remove_entry i rg, True) else (rg, False)
      | _ \<Rightarrow> (rg, False))"

definition registry_publish :: "string \<times> u64 \<Rightarrow> 's \<Rightarrow> 's registry \<Rightarrow> 's registry \<times> bool" where
  "registry_publish reservation s rg =
     (if rg_shutting_down rg then (rg, False)
      else case map_of (rg_entries rg) (fst reservation) of
        Some (Reserved ticket) \<Rightarrow>
          if ticket = snd reservation then (insert_entry (fst reservation) (Live s) rg, True) else (rg, False)
      | _ \<Rightarrow> (rg, False))"

definition retained :: "'s registry \<Rightarrow> (string \<times> 's \<times> terminal_snapshot \<times> nat \<times> u64) list" where
  "retained rg = List.map_filter (\<lambda>(i, e). case e of
     Retained s snapshot bytes _ access \<Rightarrow> Some (i, s, snapshot, bytes, access) | _ \<Rightarrow> None) (rg_entries rg)"

text \<open>The first element that has the property, and the others: \<open>position\<close> and \<open>remove\<close>.\<close>

fun take_first :: "('a \<Rightarrow> bool) \<Rightarrow> 'a list \<Rightarrow> ('a \<times> 'a list) option" where
  "take_first P [] = None"
| "take_first P (x # xs) = (if P x then Some (x, xs) else map_option (apsnd ((#) x)) (take_first P xs))"

lemma take_first_Some:
  "take_first P xs = Some (x, ys) \<Longrightarrow> P x \<and> mset xs = add_mset x (mset ys) \<and> length xs = Suc (length ys)"
  by (induction xs arbitrary: ys) (auto split: if_splits)

lemma take_first_None: "take_first P xs = None \<longleftrightarrow> (\<forall>x\<in>set xs. \<not> P x)"
  by (induction xs) auto

text \<open>\<open>busy n s\<close> is whether \<open>s\<close> has a reader when round \<open>n\<close> of the loop asks.\<close>

function evict_retained ::
    "(nat \<Rightarrow> 's \<Rightarrow> bool) \<Rightarrow> nat \<Rightarrow> nat \<Rightarrow> (string \<times> 's \<times> terminal_snapshot \<times> nat \<times> u64) list \<Rightarrow> nat \<Rightarrow>
     's registry \<Rightarrow> 's registry \<times> 's list" where
  "evict_retained busy n now held total_bytes rg =
     (if MAX_RETAINED_ENTRIES < length held \<or> MAX_RETAINED_BYTES < total_bytes then
        (case take_first (\<lambda>(_, s, _). \<not> busy n s) held of
           None \<Rightarrow> (rg, [])
         | Some ((i, s, snapshot, bytes, _), held) \<Rightarrow>
             (let (rg, access) = next_access rg;
                  rg = insert_entry i (tombstone_entry snapshot (now + TOMBSTONE_TTL) access) rg
              in apsnd ((#) s) (evict_retained busy (Suc n) now held (total_bytes - bytes) rg)))
      else (rg, []))"
  by pat_completeness auto
termination
  by (relation "measure (\<lambda>(busy, n, now, held, total, rg). length held)") (auto dest: take_first_Some)

declare evict_retained.simps [simp del]

text \<open>The states to release come after the result.\<close>

definition registry_retain ::
    "(nat \<Rightarrow> 's \<Rightarrow> bool) \<Rightarrow> nat \<Rightarrow> string \<Rightarrow> terminal_snapshot \<Rightarrow> nat \<Rightarrow> 's registry \<Rightarrow>
     's registry \<times> bool \<times> 's list" where
  "registry_retain busy now i snapshot bytes rg =
     (if rg_shutting_down rg then (rg, False, [])
      else case map_of (rg_entries rg) i of
        Some (Live s) \<Rightarrow>
          (if ts_reader_failure (sn_output snapshot) \<noteq> None then
             (let (rg, access) = next_access rg;
                  rg = insert_entry i (tombstone_entry snapshot (now + TOMBSTONE_TTL) access) rg
              in (enforce_tombstone_limits rg, True, [s]))
           else
             (let (rg, access) = next_access rg;
                  rg = insert_entry i (Retained s snapshot bytes (now + RETAIN_GRACE) access) rg;
                  held = sort_key (\<lambda>(_, _, _, _, access). access) (retained rg);
                  (rg, evicted) = evict_retained busy 0 now held
                    (sum_list (map (\<lambda>(_, _, _, bytes, _). bytes) held)) rg
              in (enforce_tombstone_limits rg, True, evicted)))
      | _ \<Rightarrow> (rg, False, []))"

text \<open>The retirement of expired executions; \<open>busy\<close> is asked once for each.\<close>

definition expired_entries ::
    "('s \<Rightarrow> bool) \<Rightarrow> nat \<Rightarrow> 's registry \<Rightarrow> (string \<times> 's \<times> terminal_snapshot) list" where
  "expired_entries busy now rg = List.map_filter (\<lambda>(i, e). case e of
     Retained s snapshot _ expires_at _ \<Rightarrow>
       if expires_at \<le> now \<and> \<not> busy s then Some (i, s, snapshot) else None
   | _ \<Rightarrow> None) (rg_entries rg)"

fun bury_all :: "nat \<Rightarrow> (string \<times> 's \<times> terminal_snapshot) list \<Rightarrow> 's registry \<Rightarrow> 's registry" where
  "bury_all now [] rg = rg"
| "bury_all now ((i, _, snapshot) # rest) rg =
     (let (rg, access) = next_access rg in
      bury_all now rest (insert_entry i (tombstone_entry snapshot (now + TOMBSTONE_TTL) access) rg))"

definition keep_entry :: "nat \<Rightarrow> string \<times> 's execution_entry \<Rightarrow> bool" where
  "keep_entry now x = (case snd x of Tombstone _ expires_at _ _ \<Rightarrow> \<not> expires_at \<le> now | _ \<Rightarrow> True)"

definition registry_prune :: "('s \<Rightarrow> bool) \<Rightarrow> nat \<Rightarrow> 's registry \<Rightarrow> 's registry \<times> 's list" where
  "registry_prune busy now rg =
     (let expired = expired_entries busy now rg;
          rg = bury_all now expired rg;
          rg = rg\<lparr>rg_entries := filter (keep_entry now) (rg_entries rg)\<rparr>
      in (enforce_tombstone_limits rg, map (\<lambda>(_, s, _). s) expired))"

text \<open>Flagging the shutdown; the lifecycle manager then leaves its loop.\<close>

definition stop_lifecycle_manager :: "'s registry \<Rightarrow> 's registry" where
  "stop_lifecycle_manager rg = rg\<lparr>rg_shutting_down := True\<rparr>"

definition release_ephemeral :: "string \<Rightarrow> 's registry \<Rightarrow> 's registry \<times> 's option" where
  "release_ephemeral i rg =
     (case map_of (rg_entries rg) i of
        Some (Live s) \<Rightarrow> (remove_entry i rg, Some s)
      | Some (Retained s _ _ _ _) \<Rightarrow> (remove_entry i rg, Some s)
      | Some e \<Rightarrow> (insert_entry i e (remove_entry i rg), None)
      | None \<Rightarrow> (remove_entry i rg, None))"

text \<open>The live executions that a shutdown signals, and the states that it releases at its end.\<close>

definition live_states :: "'s registry \<Rightarrow> (string \<times> 's) list" where
  "live_states rg = List.map_filter (\<lambda>(i, e). case e of Live s \<Rightarrow> Some (i, s) | _ \<Rightarrow> None) (rg_entries rg)"

definition state_of :: "'s execution_entry \<Rightarrow> 's option" where
  "state_of e = (case e of Live s \<Rightarrow> Some s | Retained s _ _ _ _ \<Rightarrow> Some s | _ \<Rightarrow> None)"

definition release_remaining_states :: "('s \<Rightarrow> bool) \<Rightarrow> 's registry \<Rightarrow> 's registry \<times> 's list" where
  "release_remaining_states shutdown_managed rg =
     (rg\<lparr>rg_entries := []\<rparr>, filter shutdown_managed (List.map_filter (state_of \<circ> snd) (rg_entries rg)))"


section \<open>The table as a map\<close>

abbreviation entry_at :: "'s registry \<Rightarrow> string \<Rightarrow> 's execution_entry option" where
  "entry_at rg \<equiv> map_of (rg_entries rg)"

definition keys_ok :: "'s registry \<Rightarrow> bool" where
  "keys_ok rg \<longleftrightarrow> distinct (map fst (rg_entries rg))"

lemma keys_ok_simps [simp]:
  "keys_ok rg \<Longrightarrow> keys_ok (insert_entry i e rg)" "keys_ok rg \<Longrightarrow> keys_ok (remove_entry i rg)"
  "keys_ok registry_new" "keys_ok (rg\<lparr>rg_next_access := n\<rparr>) = keys_ok rg"
  "keys_ok (rg\<lparr>rg_next_ticket := n\<rparr>) = keys_ok rg" "keys_ok (rg\<lparr>rg_shutting_down := b\<rparr>) = keys_ok rg"
  "keys_ok (rg\<lparr>rg_entries := []\<rparr>)"
  by (simp_all add: keys_ok_def insert_entry_def remove_entry_def registry_new_def distinct_update distinct_delete)

lemma keys_ok_filter: "keys_ok rg \<Longrightarrow> keys_ok (rg\<lparr>rg_entries := filter P (rg_entries rg)\<rparr>)"
  by (simp add: keys_ok_def distinct_map_filter)

lemma entry_at_simps [simp]:
  "entry_at (insert_entry i e rg) = (entry_at rg)(i \<mapsto> e)"
  "entry_at (remove_entry i rg) = (entry_at rg)(i := None)"
  by (simp_all add: insert_entry_def remove_entry_def update_conv' delete_conv')

lemma entry_fields [simp]:
  "rg_next_access (insert_entry i e rg) = rg_next_access rg" "rg_shutting_down (insert_entry i e rg) = rg_shutting_down rg"
  "rg_next_access (remove_entry i rg) = rg_next_access rg" "rg_shutting_down (remove_entry i rg) = rg_shutting_down rg"
  by (simp_all add: insert_entry_def remove_entry_def)

text \<open>What a table holds of some kind of entry, whatever the order.\<close>

definition opt_mset :: "'a option \<Rightarrow> 'a multiset" where
  "opt_mset x = (case x of None \<Rightarrow> {#} | Some y \<Rightarrow> {#y#})"

definition tally :: "(string \<times> 's execution_entry \<Rightarrow> 'a option) \<Rightarrow> 's registry \<Rightarrow> 'a multiset" where
  "tally f rg = mset (List.map_filter f (rg_entries rg))"

definition part_at :: "(string \<times> 's execution_entry \<Rightarrow> 'a option) \<Rightarrow> 's registry \<Rightarrow> string \<Rightarrow> 'a multiset" where
  "part_at f rg i = (case entry_at rg i of None \<Rightarrow> {#} | Some e \<Rightarrow> opt_mset (f (i, e)))"

lemma opt_mset_simps [simp]: "opt_mset None = {#}" "opt_mset (Some x) = {#x#}"
  by (simp_all add: opt_mset_def)

lemma mset_map_filter_Cons: "mset (List.map_filter f (x # xs)) = opt_mset (f x) + mset (List.map_filter f xs)"
  by (simp add: List.map_filter_simps split: option.split)

lemma mset_update:
  "distinct (map fst al) \<Longrightarrow> mset (List.map_filter f (AList.update i e al)) +
      (case map_of al i of None \<Rightarrow> {#} | Some e0 \<Rightarrow> opt_mset (f (i, e0))) =
    mset (List.map_filter f al) + opt_mset (f (i, e))"
  by (induction al) (auto simp: mset_map_filter_Cons List.map_filter_simps(2) dest: map_of_SomeD split: option.split)

lemma mset_delete:
  "distinct (map fst al) \<Longrightarrow> mset (List.map_filter f (AList.delete i al)) +
      (case map_of al i of None \<Rightarrow> {#} | Some e0 \<Rightarrow> opt_mset (f (i, e0))) = mset (List.map_filter f al)"
  by (induction al) (auto simp: mset_map_filter_Cons List.map_filter_simps(2) dest: map_of_SomeD split: option.split)

lemma tally_insert:
  "keys_ok rg \<Longrightarrow> tally f (insert_entry i e rg) + part_at f rg i = tally f rg + opt_mset (f (i, e))"
  using mset_update[of "rg_entries rg" f i e] by (simp add: keys_ok_def tally_def part_at_def insert_entry_def)

lemma tally_remove:
  "keys_ok rg \<Longrightarrow> tally f (remove_entry i rg) + part_at f rg i = tally f rg"
  using mset_delete[of "rg_entries rg" f i] by (simp add: keys_ok_def tally_def part_at_def remove_entry_def)

lemma tally_fields [simp]:
  "tally f (rg\<lparr>rg_next_access := n\<rparr>) = tally f rg" "tally f (rg\<lparr>rg_next_ticket := m\<rparr>) = tally f rg"
  "tally f (rg\<lparr>rg_shutting_down := b\<rparr>) = tally f rg" "tally f (rg\<lparr>rg_entries := []\<rparr>) = {#}"
  "tally f registry_new = {#}"
  by (simp_all add: tally_def registry_new_def List.map_filter_simps(2))

lemma set_map_filter: "set (List.map_filter f xs) = {y. \<exists>x\<in>set xs. f x = Some y}"
  by (induction xs) (auto simp: List.map_filter_simps split: option.splits)

lemma tally_member:
  assumes "keys_ok rg" "x \<in># tally f rg"
  shows "\<exists>i e. entry_at rg i = Some e \<and> f (i, e) = Some x"
  using assms by (fastforce simp: tally_def keys_ok_def set_map_filter intro: map_of_is_SomeI)

lemma entry_tally:
  assumes "entry_at rg i = Some e" "f (i, e) = Some x"
  shows "x \<in># tally f rg"
  using map_of_SomeD[OF assms(1)] assms(2) by (auto simp: tally_def set_map_filter)

text \<open>The three kinds the operations collect.\<close>

definition held_part :: "string \<times> 's execution_entry \<Rightarrow> 's option" where
  "held_part = state_of \<circ> snd"

definition retained_part :: "string \<times> 's execution_entry \<Rightarrow> (string \<times> 's \<times> terminal_snapshot \<times> nat \<times> u64) option" where
  "retained_part = (\<lambda>(i, e). case e of
     Retained s snapshot bytes _ access \<Rightarrow> Some (i, s, snapshot, bytes, access) | _ \<Rightarrow> None)"

definition tombstone_part :: "string \<times> 's execution_entry \<Rightarrow> (string \<times> nat \<times> u64) option" where
  "tombstone_part = (\<lambda>(i, e). case e of Tombstone _ _ bytes access \<Rightarrow> Some (i, bytes, access) | _ \<Rightarrow> None)"

lemma part_simps [simp]:
  "held_part (i, Reserved t) = None" "held_part (i, Live s) = Some s"
  "held_part (i, Retained s sn b x a) = Some s" "held_part (i, Tombstone sn x b a) = None"
  "retained_part (i, Reserved t) = None" "retained_part (i, Live s) = None"
  "retained_part (i, Retained s sn b x a) = Some (i, s, sn, b, a)" "retained_part (i, Tombstone sn x b a) = None"
  "tombstone_part (i, Reserved t) = None" "tombstone_part (i, Live s) = None"
  "tombstone_part (i, Retained s sn b x a) = None" "tombstone_part (i, Tombstone sn x b a) = Some (i, b, a)"
  by (simp_all add: held_part_def retained_part_def tombstone_part_def state_of_def)

lemma mset_parts [simp]:
  "mset (tombstones rg) = tally tombstone_part rg" "mset (retained rg) = tally retained_part rg"
  by (simp_all add: tombstones_def retained_def tally_def tombstone_part_def retained_part_def)

lemma tombstone_part_SomeD: "tombstone_part (i, e) = Some (j, b, a) \<Longrightarrow> j = i \<and> (\<exists>sn x. e = Tombstone sn x b a)"
  by (cases e) auto

lemma retained_part_SomeD:
  "retained_part (i, e) = Some (j, s, sn, b, a) \<Longrightarrow> j = i \<and> (\<exists>x. e = Retained s sn b x a)"
  by (cases e) auto

lemma tombstone_entry_shape: "\<exists>sn' b. tombstone_entry sn x a = Tombstone sn' x b a"
  by (simp add: tombstone_entry_def Let_def)

lemma tombstone_entry_distinct [simp]:
  "tombstone_entry sn x a \<noteq> Retained s sn' b x' a'" "tombstone_entry sn x a \<noteq> Live s"
  "tombstone_entry sn x a \<noteq> Reserved t"
  by (simp_all add: tombstone_entry_def Let_def)

lemma tombstone_entry_parts [simp]:
  "held_part (i, tombstone_entry sn x a) = None" "retained_part (i, tombstone_entry sn x a) = None"
  by (simp_all add: tombstone_entry_def Let_def)

section \<open>Truncated diagnostics\<close>

lemma boundary_before_le: "boundary_before s n \<le> n \<and> is_char_boundary s (boundary_before s n)"
  by (induction n) (auto simp: is_char_boundary_def)

text \<open>A diagnostic is kept whole or cut between two characters, and never grows past its limit.\<close>

lemma truncate_fits:
  "length (truncate_diagnostic m) \<le> MAX_TOMBSTONE_DIAGNOSTIC_BYTES \<and>
   (truncate_diagnostic m = m \<or> (\<exists>n. is_char_boundary m n \<and> truncate_diagnostic m = take n m @ TOMBSTONE_TRUNCATION_SUFFIX))"
  using boundary_before_le[of m "MAX_TOMBSTONE_DIAGNOSTIC_BYTES - length TOMBSTONE_TRUNCATION_SUFFIX"]
  by (auto simp: truncate_diagnostic_def MAX_TOMBSTONE_DIAGNOSTIC_BYTES_def TOMBSTONE_TRUNCATION_SUFFIX_def)


section \<open>The loops\<close>

text \<open>What any operation may do to entries it is not about.\<close>

definition only_at :: "string set \<Rightarrow> 's registry \<Rightarrow> 's registry \<Rightarrow> bool" where
  "only_at K rg rg' \<longleftrightarrow> (\<forall>i. i \<notin> K \<longrightarrow> entry_at rg' i = entry_at rg i)"

definition metadata :: "(string \<times> nat \<times> u64) multiset \<Rightarrow> nat" where
  "metadata M = (\<Sum>(_, bytes, _)\<in>#M. bytes)"

definition tombstones_fit :: "'s registry \<Rightarrow> bool" where
  "tombstones_fit rg \<longleftrightarrow> size (tally tombstone_part rg) \<le> MAX_TOMBSTONE_ENTRIES \<and>
     metadata (tally tombstone_part rg) \<le> MAX_TOMBSTONE_METADATA_BYTES"

definition cleared :: "'s execution_entry option \<Rightarrow> 's execution_entry option \<Rightarrow> bool" where
  "cleared e e' \<longleftrightarrow> e' = e \<or> (e' = None \<and> (\<exists>sn x b a. e = Some (Tombstone sn x b a)))"

lemma cleared_trans: "cleared e e' \<Longrightarrow> cleared e' e'' \<Longrightarrow> cleared e e''"
  by (auto simp: cleared_def)

lemma drop_tombstones_spec:
  assumes "keys_ok rg" "mset ts = tally tombstone_part rg" "left_bytes = metadata (mset ts)"
  shows "keys_ok (drop_tombstones ts left_bytes rg) \<and> tombstones_fit (drop_tombstones ts left_bytes rg) \<and>
    tally held_part (drop_tombstones ts left_bytes rg) = tally held_part rg \<and>
    tally retained_part (drop_tombstones ts left_bytes rg) = tally retained_part rg \<and>
    rg_shutting_down (drop_tombstones ts left_bytes rg) = rg_shutting_down rg \<and>
    (\<forall>i. cleared (entry_at rg i) (entry_at (drop_tombstones ts left_bytes rg) i))"
  using assms
proof (induction ts arbitrary: left_bytes rg)
  case Nil
  then have "tally tombstone_part rg = {#}" by simp
  then show ?case using Nil by (simp add: tombstones_fit_def metadata_def cleared_def)
next
  case (Cons t ts)
  obtain i b a where t: "t = (i, b, a)" by (metis prod_cases3)
  show ?case
  proof (cases "MAX_TOMBSTONE_ENTRIES < Suc (length ts) \<or> MAX_TOMBSTONE_METADATA_BYTES < left_bytes")
    case True
    have "t \<in># tally tombstone_part rg" by (simp flip: Cons.prems(2))
    from tally_member[OF Cons.prems(1) this]
    obtain j e where j: "entry_at rg j = Some e" "tombstone_part (j, e) = Some t" by blast
    then obtain sn x where e: "j = i" "e = Tombstone sn x b a"
      using tombstone_part_SomeD[of j e i b a] by (auto simp: t)
    then have at: "entry_at rg i = Some (Tombstone sn x b a)" using j(1) by simp
    have "mset ts = tally tombstone_part (remove_entry i rg)"
      using tally_remove[OF Cons.prems(1), of tombstone_part i] Cons.prems(2)
      by (simp add: part_at_def at t) (metis add_mset_add_mset_same_iff)
    moreover have "left_bytes - b = metadata (mset ts)" using Cons.prems(3) by (simp add: metadata_def t)
    moreover have "tally held_part (remove_entry i rg) = tally held_part rg"
        "tally retained_part (remove_entry i rg) = tally retained_part rg"
      using tally_remove[OF Cons.prems(1), of held_part i] tally_remove[OF Cons.prems(1), of retained_part i]
      by (simp_all add: part_at_def at)
    moreover have "cleared (entry_at rg j) e'" if "cleared (entry_at (remove_entry i rg) j) e'" for j e'
      using that at by (cases "j = i") (auto simp: cleared_def)
    ultimately show ?thesis
      using Cons.IH[of "remove_entry i rg" "left_bytes - b"] True Cons.prems(1) by (simp add: t)
  next
    case False
    then have "size (mset (t # ts)) \<le> MAX_TOMBSTONE_ENTRIES" "metadata (mset (t # ts)) \<le> MAX_TOMBSTONE_METADATA_BYTES"
      using Cons.prems(3) by auto
    then have "tombstones_fit rg" unfolding tombstones_fit_def Cons.prems(2)[symmetric] by blast
    then show ?thesis using False Cons.prems(1) by (simp add: t cleared_def)
  qed
qed

lemma enforce_spec:
  assumes "keys_ok rg"
  shows "keys_ok (enforce_tombstone_limits rg)" "tombstones_fit (enforce_tombstone_limits rg)"
    "tally held_part (enforce_tombstone_limits rg) = tally held_part rg"
    "tally retained_part (enforce_tombstone_limits rg) = tally retained_part rg"
    "rg_shutting_down (enforce_tombstone_limits rg) = rg_shutting_down rg"
    "cleared (entry_at rg i) (entry_at (enforce_tombstone_limits rg) i)"
proof -
  let ?ts = "sort_key (\<lambda>(_, _, access). access) (tombstones rg)"
  have "sum_list (map (\<lambda>(_, bytes, _). bytes) ?ts) = metadata (mset ?ts)"
    by (simp add: metadata_def flip: sum_mset_sum_list)
  note * = drop_tombstones_spec[OF assms _ this]
  show "keys_ok (enforce_tombstone_limits rg)" "tombstones_fit (enforce_tombstone_limits rg)"
    "tally held_part (enforce_tombstone_limits rg) = tally held_part rg"
    "tally retained_part (enforce_tombstone_limits rg) = tally retained_part rg"
    "rg_shutting_down (enforce_tombstone_limits rg) = rg_shutting_down rg"
    "cleared (entry_at rg i) (entry_at (enforce_tombstone_limits rg) i)"
    using * unfolding enforce_tombstone_limits_def Let_def by auto
qed

text \<open>Turning a retained execution into a tombstone takes its state out of the table.\<close>

lemma bury_one:
  assumes "keys_ok rg" "entry_at rg i = Some (Retained s sn b x a)" "rg' = insert_entry i (tombstone_entry sn y acc) rg"
  shows "keys_ok rg'" "add_mset s (tally held_part rg') = tally held_part rg"
    "add_mset (i, s, sn, b, a) (tally retained_part rg') = tally retained_part rg"
  using tally_insert[OF assms(1), of held_part i "tombstone_entry sn y acc"]
    tally_insert[OF assms(1), of retained_part i "tombstone_entry sn y acc"] assms
  by (simp_all add: part_at_def)

definition bytes_of :: "(string \<times> 's \<times> terminal_snapshot \<times> nat \<times> u64) multiset \<Rightarrow> nat" where
  "bytes_of M = (\<Sum>(_, _, _, bytes, _)\<in>#M. bytes)"

text \<open>Eviction stops within the limits, or when every execution left has a reader.\<close>

definition retained_fit :: "(nat \<Rightarrow> 's \<Rightarrow> bool) \<Rightarrow> 's registry \<Rightarrow> bool" where
  "retained_fit busy rg \<longleftrightarrow>
     (size (tally retained_part rg) \<le> MAX_RETAINED_ENTRIES \<and> bytes_of (tally retained_part rg) \<le> MAX_RETAINED_BYTES) \<or>
     (\<exists>n. \<forall>(_, s, _)\<in>#tally retained_part rg. busy n s)"

definition buried :: "'s execution_entry option \<Rightarrow> 's execution_entry option \<Rightarrow> bool" where
  "buried e e' \<longleftrightarrow> e' = e \<or> (\<exists>s sn b x a y acc. e = Some (Retained s sn b x a) \<and> e' = Some (tombstone_entry sn y acc))"

lemma evict_retained_spec:
  assumes "keys_ok rg" "mset held = tally retained_part rg" "left_bytes = bytes_of (mset held)"
    "evict_retained busy n now held left_bytes rg = (rg', evicted)"
  shows "keys_ok rg' \<and> retained_fit busy rg' \<and> mset evicted + tally held_part rg' = tally held_part rg \<and>
    rg_shutting_down rg' = rg_shutting_down rg \<and> (\<forall>i. buried (entry_at rg i) (entry_at rg' i))"
  using assms
proof (induction busy n now held left_bytes rg arbitrary: rg' evicted rule: evict_retained.induct)
  case (1 busy n now held left_bytes rg)
  consider (fits) "\<not> (MAX_RETAINED_ENTRIES < length held \<or> MAX_RETAINED_BYTES < left_bytes)"
    | (all_busy) "MAX_RETAINED_ENTRIES < length held \<or> MAX_RETAINED_BYTES < left_bytes"
        "take_first (\<lambda>(_, s, _). \<not> busy n s) held = None"
    | (evicts) i s sn b a rest where "MAX_RETAINED_ENTRIES < length held \<or> MAX_RETAINED_BYTES < left_bytes"
        "take_first (\<lambda>(_, s, _). \<not> busy n s) held = Some ((i, s, sn, b, a), rest)"
    by (metis (no_types, lifting) not_None_eq prod_cases5 surj_pair)
  then show ?case
  proof cases
    case fits
    then have "size (mset held) \<le> MAX_RETAINED_ENTRIES" "bytes_of (mset held) \<le> MAX_RETAINED_BYTES"
      using 1(4) by simp_all
    then show ?thesis using fits 1 by (auto simp: evict_retained.simps retained_fit_def buried_def)
  next
    case all_busy
    then have "\<forall>(_, s, _)\<in>#tally retained_part rg. busy n s"
      using 1(3) by (auto simp: take_first_None simp flip: set_mset_mset)
    then show ?thesis using all_busy 1 by (auto simp: evict_retained.simps retained_fit_def buried_def)
  next
    case evicts
    let ?acc = "counter_next (rg_next_access rg)"
    let ?rg = "insert_entry i (tombstone_entry sn (now + TOMBSTONE_TTL) ?acc) (rg\<lparr>rg_next_access := ?acc\<rparr>)"
    have held: "mset held = add_mset (i, s, sn, b, a) (mset rest)" using take_first_Some[OF evicts(2)] by simp
    then have "(i, s, sn, b, a) \<in># tally retained_part rg" using 1(3) by simp
    then obtain x where at: "entry_at rg i = Some (Retained s sn b x a)"
      using tally_member[OF 1(2)] retained_part_SomeD by (metis (no_types, lifting))
    have b1: "keys_ok ?rg" "add_mset s (tally held_part ?rg) = tally held_part rg"
        "add_mset (i, s, sn, b, a) (tally retained_part ?rg) = tally retained_part rg"
      using bury_one[of "rg\<lparr>rg_next_access := ?acc\<rparr>" i s sn b x a] 1(2) at by simp_all
    obtain ev where ev: "evict_retained busy (Suc n) now rest (left_bytes - b) ?rg = (rg', ev)" "evicted = s # ev"
      using 1(5) evicts
      by (auto simp: evict_retained.simps[of busy n now held] next_access_def Let_def apsnd_def map_prod_def split: prod.splits)
    have next_eq: "(rg\<lparr>rg_next_access := ?acc\<rparr>, ?acc) = next_access rg" by (simp add: next_access_def Let_def)
    have "keys_ok rg' \<and> retained_fit busy rg' \<and> mset ev + tally held_part rg' = tally held_part ?rg \<and>
        rg_shutting_down rg' = rg_shutting_down ?rg \<and> (\<forall>j. buried (entry_at ?rg j) (entry_at rg' j))"
    proof (rule 1(1)[OF evicts(1,2) refl refl refl refl refl refl next_eq refl b1(1) _ _ ev(1)])
      show "mset rest = tally retained_part ?rg" using b1(3) 1(3) held by (metis add_mset_add_mset_same_iff)
      show "left_bytes - b = bytes_of (mset rest)" using 1(4) held by (simp add: bytes_of_def)
    qed
    moreover have "buried (entry_at rg j) (entry_at rg' j)" if "buried (entry_at ?rg j) (entry_at rg' j)" for j
      using that at tombstone_entry_shape[of sn "now + TOMBSTONE_TTL" ?acc]
      by (cases "j = i") (auto simp: buried_def)
    ultimately show ?thesis using b1(2) ev(2) by simp
  qed
qed


text \<open>The burial of the expired executions.\<close>

lemma bury_all_spec:
  assumes "keys_ok rg" "distinct (map fst xs)"
    "\<forall>(i, s, sn)\<in>set xs. \<exists>b x a. entry_at rg i = Some (Retained s sn b x a)"
  shows "keys_ok (bury_all now xs rg) \<and>
    mset (map (\<lambda>(_, s, _). s) xs) + tally held_part (bury_all now xs rg) = tally held_part rg \<and>
    rg_shutting_down (bury_all now xs rg) = rg_shutting_down rg \<and>
    (\<forall>i. buried (entry_at rg i) (entry_at (bury_all now xs rg) i))"
  using assms
proof (induction xs arbitrary: rg)
  case Nil
  then show ?case by (simp add: buried_def)
next
  case (Cons z xs)
  obtain i s sn where z: "z = (i, s, sn)" by (metis prod_cases3)
  let ?acc = "counter_next (rg_next_access rg)"
  let ?rg = "insert_entry i (tombstone_entry sn (now + TOMBSTONE_TTL) ?acc) (rg\<lparr>rg_next_access := ?acc\<rparr>)"
  obtain b x a where at: "entry_at rg i = Some (Retained s sn b x a)" using Cons.prems(3) z by auto
  have one: "keys_ok ?rg" "add_mset s (tally held_part ?rg) = tally held_part rg"
    using bury_one[of "rg\<lparr>rg_next_access := ?acc\<rparr>" i s sn b x a] Cons.prems(1) at by simp_all
  have "\<forall>(j, s', sn')\<in>set xs. \<exists>b x a. entry_at ?rg j = Some (Retained s' sn' b x a)"
    using Cons.prems(2,3) z by (force simp: image_iff)
  then have "keys_ok (bury_all now xs ?rg) \<and>
      mset (map (\<lambda>(_, s, _). s) xs) + tally held_part (bury_all now xs ?rg) = tally held_part ?rg \<and>
      rg_shutting_down (bury_all now xs ?rg) = rg_shutting_down ?rg \<and>
      (\<forall>j. buried (entry_at ?rg j) (entry_at (bury_all now xs ?rg) j))"
    using Cons.prems(2) by (intro Cons.IH[OF one(1)]) simp_all
  moreover have "bury_all now (z # xs) rg = bury_all now xs ?rg" by (simp add: z next_access_def Let_def)
  moreover have "buried (entry_at rg j) e'" if "buried (entry_at ?rg j) e'" for j e'
    using that at by (cases "j = i") (auto simp: buried_def)
  ultimately show ?case using one(2) by (simp add: z)
qed

lemma expired_in:
  assumes "(i, s, sn) \<in> set (expired_entries busy now rg)" "keys_ok rg"
  shows "\<exists>b x a. entry_at rg i = Some (Retained s sn b x a)"
  using assms
  by (fastforce simp: expired_entries_def set_map_filter keys_ok_def split: execution_entry.splits if_splits
      intro: map_of_is_SomeI)

lemma distinct_map_filter_keys:
  assumes "\<And>x y. f x = Some y \<Longrightarrow> fst y = fst x" "distinct (map fst xs)"
  shows "distinct (map fst (List.map_filter f xs)) \<and> fst ` set (List.map_filter f xs) \<subseteq> fst ` set xs"
  using assms(2) by (induction xs) (auto simp: List.map_filter_simps assms(1) split: option.split)

lemma expired_distinct:
  assumes "keys_ok rg"
  shows "distinct (map fst (expired_entries busy now rg))"
  unfolding expired_entries_def
  by (rule distinct_map_filter_keys[THEN conjunct1])
    (use assms in \<open>auto simp: keys_ok_def split: execution_entry.splits if_splits\<close>)


section \<open>Runs of the registry\<close>

text \<open>
  One critical section per operation. The answers about readers, the clock and which states a shutdown
  manages come with the operation. The ledger keeps the states published, those handed out to be
  released, and those a shutdown leaves to the container.
\<close>

datatype 's registry_op =
  OpLookup string
| OpRegister string 's
| OpReserve string
| OpReleaseReserved string u64
| OpPublish "string \<times> u64" 's
| OpRetain "nat \<Rightarrow> 's \<Rightarrow> bool" nat string terminal_snapshot nat
| OpPrune "'s \<Rightarrow> bool" nat
| OpStop
| OpReleaseEphemeral string
| OpReleaseRemaining "'s \<Rightarrow> bool"

record 's ledger =
  lg_published :: "'s list"
  lg_released :: "'s list"
  lg_left :: "'s list"

fun run_op :: "'s registry_op \<Rightarrow> 's registry \<times> 's ledger \<Rightarrow> 's registry \<times> 's ledger" where
  "run_op (OpLookup i) (rg, l) = (fst (lookup_execution i rg), l)"
| "run_op (OpRegister i s) (rg, l) =
     (let (rg, ok) = registry_register i s rg in (rg, if ok then l\<lparr>lg_published := s # lg_published l\<rparr> else l))"
| "run_op (OpReserve i) (rg, l) = (fst (registry_reserve i rg), l)"
| "run_op (OpReleaseReserved i ticket) (rg, l) = (fst (release_reserved_id i ticket rg), l)"
| "run_op (OpPublish r s) (rg, l) =
     (let (rg, ok) = registry_publish r s rg in (rg, if ok then l\<lparr>lg_published := s # lg_published l\<rparr> else l))"
| "run_op (OpRetain busy now i sn bytes) (rg, l) =
     (let (rg, _, evicted) = registry_retain busy now i sn bytes rg in (rg, l\<lparr>lg_released := evicted @ lg_released l\<rparr>))"
| "run_op (OpPrune busy now) (rg, l) =
     (let (rg, expired) = registry_prune busy now rg in (rg, l\<lparr>lg_released := expired @ lg_released l\<rparr>))"
| "run_op OpStop (rg, l) = (stop_lifecycle_manager rg, l)"
| "run_op (OpReleaseEphemeral i) (rg, l) =
     (let (rg, s) = release_ephemeral i rg in
      (rg, case s of None \<Rightarrow> l | Some s \<Rightarrow> l\<lparr>lg_released := s # lg_released l\<rparr>))"
| "run_op (OpReleaseRemaining managed) (rg, l) =
     (let (rg', states) = release_remaining_states managed rg in
      (rg', l\<lparr>lg_released := states @ lg_released l,
        lg_left := filter (\<lambda>s. \<not> managed s) (List.map_filter (state_of \<circ> snd) (rg_entries rg)) @ lg_left l\<rparr>))"

definition run_registry :: "'s registry_op list \<Rightarrow> 's registry \<times> 's ledger" where
  "run_registry ops = fold run_op ops (registry_new, \<lparr>lg_published = [], lg_released = [], lg_left = []\<rparr>)"

text \<open>Every published state is in the table, released, or left to the container: exactly one of them.\<close>

definition books_balance :: "'s registry \<times> 's ledger \<Rightarrow> bool" where
  "books_balance = (\<lambda>(rg, l).
     mset (lg_published l) = tally held_part rg + mset (lg_released l) + mset (lg_left l))"

definition registry_ok :: "'s registry \<times> 's ledger \<Rightarrow> bool" where
  "registry_ok x \<longleftrightarrow> keys_ok (fst x) \<and> tombstones_fit (fst x) \<and> books_balance x"

text \<open>Simplification of tallies after one insertion or removal.\<close>

lemma tally_fresh:
  "keys_ok rg \<Longrightarrow> entry_at rg i = None \<Longrightarrow> tally f (insert_entry i e rg) = tally f rg + opt_mset (f (i, e))"
  using tally_insert[of rg f i e] by (simp add: part_at_def)

lemma tally_replace:
  "keys_ok rg \<Longrightarrow> entry_at rg i = Some e0 \<Longrightarrow>
     tally f (insert_entry i e rg) + opt_mset (f (i, e0)) = tally f rg + opt_mset (f (i, e))"
  using tally_insert[of rg f i e] by (simp add: part_at_def)

lemma tally_gone:
  "keys_ok rg \<Longrightarrow> entry_at rg i = Some e0 \<Longrightarrow> tally f (remove_entry i rg) + opt_mset (f (i, e0)) = tally f rg"
  using tally_remove[of rg f i] by (simp add: part_at_def)

lemma entry_at_counters [simp]:
  "entry_at (rg\<lparr>rg_next_access := n\<rparr>) = entry_at rg" "entry_at (rg\<lparr>rg_next_ticket := n\<rparr>) = entry_at rg"
  by simp_all

lemma metadata_simps [simp]:
  "metadata {#} = 0" "metadata (add_mset (i, b, a) M) = b + metadata M" "metadata (M + N) = metadata M + metadata N"
  by (simp_all add: metadata_def)

lemma tombstones_fit_same:
  "tally tombstone_part rg' = tally tombstone_part rg \<Longrightarrow> tombstones_fit rg' = tombstones_fit rg"
  by (simp add: tombstones_fit_def)

lemma lookup_spec:
  assumes "keys_ok rg" "lookup_execution i rg = (rg', r)"
  shows "keys_ok rg'" "tally held_part rg' = tally held_part rg" "tombstones_fit rg' = tombstones_fit rg"
    "rg_shutting_down rg' = rg_shutting_down rg"
proof -
  obtain n where n: "next_access rg = (rg\<lparr>rg_next_access := n\<rparr>, n)" by (simp add: next_access_def Let_def)
  let ?rg = "rg\<lparr>rg_next_access := n\<rparr>"
  have k: "keys_ok ?rg" using assms(1) by simp
  consider "rg' = ?rg" | s sn b x a where "entry_at ?rg i = Some (Retained s sn b x a)" "rg' = insert_entry i (Retained s sn b x n) ?rg"
    | sn x b a where "entry_at ?rg i = Some (Tombstone sn x b a)" "rg' = insert_entry i (Tombstone sn x b n) ?rg"
    using assms(2) by (auto simp: lookup_execution_def n split: option.splits execution_entry.splits)
  then have "keys_ok rg' \<and> tally held_part rg' = tally held_part rg \<and> tombstones_fit rg' = tombstones_fit rg \<and>
      rg_shutting_down rg' = rg_shutting_down rg"
  proof cases
    case (2 s sn b x a)
    then show ?thesis
      using tally_replace[OF k 2(1), of held_part "Retained s sn b x n"]
        tally_replace[OF k 2(1), of tombstone_part "Retained s sn b x n"] k 2(2)
      by (simp add: tombstones_fit_def)
  next
    case (3 sn x b a)
    then have "tally tombstone_part rg' + {#(i, b, a)#} = tally tombstone_part rg + {#(i, b, n)#}"
      using tally_replace[OF k 3(1), of tombstone_part "Tombstone sn x b n"] by simp
    then have "size (tally tombstone_part rg' + {#(i, b, a)#}) = size (tally tombstone_part rg + {#(i, b, n)#})"
        "metadata (tally tombstone_part rg' + {#(i, b, a)#}) = metadata (tally tombstone_part rg + {#(i, b, n)#})"
      by simp_all
    then show ?thesis
      using 3(2) tally_replace[OF k 3(1), of held_part "Tombstone sn x b n"] k by (simp add: tombstones_fit_def)
  qed (use k in \<open>simp add: tombstones_fit_def\<close>)
  then show "keys_ok rg'" "tally held_part rg' = tally held_part rg" "tombstones_fit rg' = tombstones_fit rg"
    "rg_shutting_down rg' = rg_shutting_down rg" by simp_all
qed


text \<open>What a retention does to the entries: to the one it is about, and to others it evicts.\<close>

definition retires ::
    "string \<Rightarrow> terminal_snapshot \<Rightarrow> nat \<Rightarrow> nat \<Rightarrow> u64 \<Rightarrow> 's registry \<Rightarrow> 's registry \<Rightarrow> bool" where
  "retires i sn bytes now n rg rg' \<longleftrightarrow> (\<exists>s e. entry_at rg i = Some (Live s) \<and>
     (e = Retained s sn bytes (now + RETAIN_GRACE) n \<or> e = tombstone_entry sn (now + TOMBSTONE_TTL) n) \<and>
     (\<forall>j. \<exists>m. buried (((entry_at rg)(i \<mapsto> e)) j) m \<and> cleared m (entry_at rg' j)))"

lemma retiresI:
  assumes "entry_at rg i = Some (Live s)"
    "e = Retained s sn bytes (now + RETAIN_GRACE) n \<or> e = tombstone_entry sn (now + TOMBSTONE_TTL) n"
    "\<And>j. buried (((entry_at rg)(i \<mapsto> e)) j) (f j)" "\<And>j. cleared (f j) (entry_at rg' j)"
  shows "retires i sn bytes now n rg rg'"
  using assms unfolding retires_def by blast

lemma retain_live:
  assumes "keys_ok rg" "registry_retain busy now i sn bytes rg = (rg', True, evicted)"
  shows "keys_ok rg' \<and> mset evicted + tally held_part rg' = tally held_part rg \<and> tombstones_fit rg' \<and>
    rg_shutting_down rg' = rg_shutting_down rg \<and>
    (ts_reader_failure (sn_output sn) = None \<longrightarrow> retained_fit busy rg') \<and>
    retires i sn bytes now (counter_next (rg_next_access rg)) rg rg'"
proof -
  let ?n = "counter_next (rg_next_access rg)"
  let ?rg = "rg\<lparr>rg_next_access := ?n\<rparr>"
  have k: "keys_ok ?rg" using assms(1) by simp
  obtain s where live: "entry_at rg i = Some (Live s)"
    using assms(2) by (auto simp: registry_retain_def split: if_splits option.splits execution_entry.splits)
  have down: "\<not> rg_shutting_down rg" using assms(2) by (auto simp: registry_retain_def split: if_splits)
  show ?thesis
  proof (cases "ts_reader_failure (sn_output sn) = None")
    case False
    let ?r1 = "insert_entry i (tombstone_entry sn (now + TOMBSTONE_TTL) ?n) ?rg"
    have r: "rg' = enforce_tombstone_limits ?r1" "evicted = [s]"
      using False live down assms(2) by (auto simp: registry_retain_def next_access_def Let_def)
    have k1: "keys_ok ?r1" using k by simp
    have "add_mset s (tally held_part ?r1) = tally held_part rg"
      using tally_replace[OF k, of i "Live s" held_part "tombstone_entry sn (now + TOMBSTONE_TTL) ?n"] live by simp
    moreover have "retires i sn bytes now ?n rg rg'"
      by (rule retiresI[OF live, where f = "entry_at ?r1" and e = "tombstone_entry sn (now + TOMBSTONE_TTL) ?n"])
        (use enforce_spec(6)[OF k1] in \<open>auto simp: r(1) buried_def\<close>)
    ultimately show ?thesis using enforce_spec(1-5)[OF k1] False r by auto
  next
    case True
    let ?r1 = "insert_entry i (Retained s sn bytes (now + RETAIN_GRACE) ?n) ?rg"
    let ?held = "sort_key (\<lambda>(_, _, _, _, access). access) (retained ?r1)"
    obtain r2 where ev: "evict_retained busy 0 now ?held (sum_list (map (\<lambda>(_, _, _, bytes, _). bytes) ?held)) ?r1 = (r2, evicted)"
      and r: "rg' = enforce_tombstone_limits r2"
      using True live down assms(2) by (auto simp: registry_retain_def next_access_def Let_def split: prod.splits)
    have k1: "keys_ok ?r1" using k by simp
    have held: "tally held_part ?r1 = tally held_part rg"
      using tally_replace[OF k, of i "Live s" held_part "Retained s sn bytes (now + RETAIN_GRACE) ?n"] live by simp
    have r2: "keys_ok r2 \<and> retained_fit busy r2 \<and> mset evicted + tally held_part r2 = tally held_part ?r1 \<and>
        rg_shutting_down r2 = rg_shutting_down ?r1 \<and> (\<forall>j. buried (entry_at ?r1 j) (entry_at r2 j))"
      by (rule evict_retained_spec[OF k1 _ _ ev]) (simp_all add: bytes_of_def flip: sum_mset_sum_list)
    then have k2: "keys_ok r2" by simp
    have "retires i sn bytes now ?n rg rg'"
      by (rule retiresI[OF live, where f = "entry_at r2" and e = "Retained s sn bytes (now + RETAIN_GRACE) ?n"])
        (use r2 enforce_spec(6)[OF k2] in \<open>auto simp: r\<close>)
    then show ?thesis
      using enforce_spec(1-5)[OF k2] r2 held by (simp add: r retained_fit_def)
  qed
qed

lemma retain_refused:
  assumes "registry_retain busy now i sn bytes rg = (rg', False, evicted)"
  shows "rg' = rg \<and> evicted = []"
  using assms by (auto simp: registry_retain_def Let_def split: if_splits option.splits execution_entry.splits prod.splits)


lemma filtered_entries:
  assumes "keys_ok rg"
  shows "entry_at (rg\<lparr>rg_entries := filter (keep_entry now) (rg_entries rg)\<rparr>) i =
    (case entry_at rg i of None \<Rightarrow> None | Some e \<Rightarrow> if keep_entry now (i, e) then Some e else None)"
proof -
  have "distinct (map fst al) \<Longrightarrow> map_of (filter P al) i =
      (case map_of al i of None \<Rightarrow> None | Some e \<Rightarrow> if P (i, e) then Some e else None)"
    for P and al :: "(string \<times> 'a execution_entry) list"
    by (induction al) (auto simp: map_of_eq_None_iff[THEN iffD2] split: option.split)
  then show ?thesis using assms by (simp add: keys_ok_def)
qed

lemma filtered_tally:
  fixes rg :: "'s registry"
  shows "tally held_part (rg\<lparr>rg_entries := filter (keep_entry now) (rg_entries rg)\<rparr>) = tally held_part rg"
proof -
  have "List.map_filter held_part (filter (keep_entry now) al) = List.map_filter held_part al"
    for al :: "(string \<times> 's execution_entry) list"
    by (induction al) (auto simp: List.map_filter_simps keep_entry_def held_part_def state_of_def split: execution_entry.splits)
  then show ?thesis by (simp add: tally_def)
qed

lemma prune_spec:
  assumes "keys_ok rg" "registry_prune busy now rg = (rg', states)"
  shows "keys_ok rg' \<and> mset states + tally held_part rg' = tally held_part rg \<and> tombstones_fit rg' \<and>
    rg_shutting_down rg' = rg_shutting_down rg \<and>
    (\<forall>i. \<exists>m. buried (entry_at rg i) m \<and> cleared m (entry_at rg' i))"
proof -
  let ?xs = "expired_entries busy now rg"
  let ?r1 = "bury_all now ?xs rg"
  let ?r2 = "?r1\<lparr>rg_entries := filter (keep_entry now) (rg_entries ?r1)\<rparr>"
  have r1: "keys_ok ?r1 \<and> mset (map (\<lambda>(_, s, _). s) ?xs) + tally held_part ?r1 = tally held_part rg \<and>
      rg_shutting_down ?r1 = rg_shutting_down rg \<and> (\<forall>i. buried (entry_at rg i) (entry_at ?r1 i))"
    by (rule bury_all_spec[OF assms(1) expired_distinct[OF assms(1)]]) (use expired_in[OF _ assms(1)] in fast)
  then have k2: "keys_ok ?r2" using keys_ok_filter by blast
  have gone: "cleared (entry_at ?r1 i) (entry_at ?r2 i)" for i
    unfolding filtered_entries[OF r1[THEN conjunct1]]
    by (auto simp: cleared_def keep_entry_def split: option.splits execution_entry.splits)
  have r: "rg' = enforce_tombstone_limits ?r2" "states = map (\<lambda>(_, s, _). s) ?xs"
    using assms(2) by (simp_all add: registry_prune_def Let_def)
  have "cleared (entry_at ?r1 i) (entry_at rg' i)" for i
    by (rule cleared_trans[OF gone]) (use enforce_spec(6)[OF k2, of i] in \<open>simp add: r(1)\<close>)
  then show ?thesis
    using r1 enforce_spec(1-5)[OF k2] filtered_tally[of now ?r1] by (auto simp: r)
qed

text \<open>\<open>release_ephemeral\<close> puts back an entry it does not release.\<close>

lemma ephemeral_back:
  assumes "keys_ok rg" "entry_at rg i = Some e"
  shows "tally f (insert_entry i e (remove_entry i rg)) = tally f rg"
  using tally_fresh[of "remove_entry i rg" i f e] tally_gone[OF assms, of f] assms(1) by simp

lemma ephemeral_absent: "entry_at rg i = None \<Longrightarrow> tally f (remove_entry i rg) = tally f rg"
  by (simp add: tally_def remove_entry_def map_of_eq_None_iff)

lemma mset_filter_split: "mset (filter P xs) + mset (filter (\<lambda>x. \<not> P x) xs) = mset xs"
  by (induction xs) auto

lemma registry_ok_step:
  assumes "registry_ok x"
  shows "registry_ok (run_op op x)"
proof -
  obtain rg l where x: "x = (rg, l)" by fastforce
  have k: "keys_ok rg" and fit: "tombstones_fit rg" and bal: "books_balance (rg, l)"
    using assms by (simp_all add: registry_ok_def x)
  show ?thesis
  proof (cases op)
    case (OpLookup i)
    then show ?thesis
      using lookup_spec[OF k, of i] fit bal by (cases "lookup_execution i rg") (simp add: x registry_ok_def books_balance_def)
  next
    case (OpRegister i s)
    have "registry_ok (rg', if ok then l\<lparr>lg_published := s # lg_published l\<rparr> else l)"
      if "registry_register i s rg = (rg', ok)" for rg' ok
      using that k fit bal tally_fresh[OF k, of i held_part "Live s"] tally_fresh[OF k, of i tombstone_part "Live s"]
      by (auto simp: registry_register_def registry_exists_def registry_ok_def books_balance_def tombstones_fit_def
          split: if_splits)
    then show ?thesis by (simp add: OpRegister x split: prod.split)
  next
    case (OpReserve i)
    let ?t = "counter_next (rg_next_ticket rg)"
    let ?rg = "rg\<lparr>rg_next_ticket := ?t\<rparr>"
    show ?thesis
      using k fit bal tally_fresh[of ?rg i held_part "Reserved ?t"] tally_fresh[of ?rg i tombstone_part "Reserved ?t"]
      by (auto simp: OpReserve x registry_reserve_def registry_exists_def Let_def registry_ok_def books_balance_def tombstones_fit_def)
  next
    case (OpReleaseReserved i ticket)
    then show ?thesis
      using k fit bal tally_gone[OF k, of i "Reserved ticket" held_part] tally_gone[OF k, of i "Reserved ticket" tombstone_part]
      by (auto simp: x release_reserved_id_def registry_ok_def books_balance_def tombstones_fit_def
          split: option.split execution_entry.split)
  next
    case (OpPublish r s)
    have "registry_ok (rg', if ok then l\<lparr>lg_published := s # lg_published l\<rparr> else l)"
      if "registry_publish r s rg = (rg', ok)" for rg' ok
      using that k fit bal tally_replace[OF k, of "fst r" "Reserved (snd r)" held_part "Live s"]
        tally_replace[OF k, of "fst r" "Reserved (snd r)" tombstone_part "Live s"]
      by (auto simp: registry_publish_def registry_ok_def books_balance_def tombstones_fit_def
          split: if_splits option.splits execution_entry.splits)
    then show ?thesis by (simp add: OpPublish x split: prod.split)
  next
    case (OpRetain busy now i sn bytes)
    obtain rg' ok ev where r: "registry_retain busy now i sn bytes rg = (rg', ok, ev)" by (metis prod_cases3)
    show ?thesis
    proof (cases ok)
      case True
      have l: "keys_ok rg'" "tombstones_fit rg'" "tally held_part rg = mset ev + tally held_part rg'"
        using retain_live[OF k, of busy now i sn bytes rg' ev] r True by simp_all
      show ?thesis using l bal r by (simp add: OpRetain x registry_ok_def books_balance_def)
    next
      case False
      then show ?thesis
        using retain_refused[of busy now i sn bytes rg rg' ev] r k fit bal
        by (simp add: OpRetain x registry_ok_def books_balance_def)
    qed
  next
    case (OpPrune busy now)
    obtain rg' st where r: "registry_prune busy now rg = (rg', st)" by fastforce
    have l: "keys_ok rg'" "tombstones_fit rg'" "tally held_part rg = mset st + tally held_part rg'"
      using prune_spec[OF k r] by simp_all
    show ?thesis using l bal r by (simp add: OpPrune x registry_ok_def books_balance_def)
  next
    case OpStop
    then show ?thesis using k fit bal
      by (simp add: x stop_lifecycle_manager_def registry_ok_def books_balance_def tombstones_fit_def)
  next
    case (OpReleaseEphemeral i)
    show ?thesis
    proof (cases "entry_at rg i")
      case None
      then show ?thesis
        using k fit bal ephemeral_absent[OF None, of held_part] ephemeral_absent[OF None, of tombstone_part]
        by (simp add: OpReleaseEphemeral x release_ephemeral_def registry_ok_def books_balance_def tombstones_fit_def)
    next
      case (Some e)
      note gone = tally_gone[OF k Some] and putback = ephemeral_back[OF k Some]
      show ?thesis
        using k fit bal Some gone[of held_part] gone[of tombstone_part] putback[of held_part] putback[of tombstone_part]
        by (cases e)
          (simp_all add: OpReleaseEphemeral x release_ephemeral_def registry_ok_def books_balance_def tombstones_fit_def)
    qed
  next
    case (OpReleaseRemaining managed)
    have "tally held_part rg = mset (List.map_filter (state_of \<circ> snd) (rg_entries rg))"
      by (simp add: tally_def held_part_def)
    then show ?thesis
      using k bal mset_filter_split[of managed "List.map_filter (state_of \<circ> snd) (rg_entries rg)"]
      by (auto simp: OpReleaseRemaining x release_remaining_states_def registry_ok_def books_balance_def tombstones_fit_def)
  qed
qed


lemma registry_ok_run: "registry_ok x \<Longrightarrow> registry_ok (fold run_op ops x)"
  by (induction ops arbitrary: x) (simp_all add: registry_ok_step)

lemma run_registry_ok: "registry_ok (run_registry ops)"
  unfolding run_registry_def
  by (rule registry_ok_run) (simp add: registry_ok_def books_balance_def tombstones_fit_def)

text \<open>After a shutdown has emptied it, the table stays empty.\<close>

definition closed_down :: "'s registry \<Rightarrow> bool" where
  "closed_down rg \<longleftrightarrow> rg_shutting_down rg \<and> rg_entries rg = []"

lemma empty_collections [simp]:
  "rg_entries rg = [] \<Longrightarrow> tombstones rg = []" "rg_entries rg = [] \<Longrightarrow> expired_entries busy now rg = []"
  by (simp_all add: tombstones_def expired_entries_def List.map_filter_simps(2))

lemma closed_down_step:
  assumes "closed_down (fst x)"
  shows "closed_down (fst (run_op op x))"
proof -
  obtain rg l where x: "x = (rg, l)" by fastforce
  have c: "rg_shutting_down rg" "rg_entries rg = []" using assms by (simp_all add: closed_down_def x)
  show ?thesis
    using c by (cases op)
      (auto simp: x closed_down_def lookup_execution_def registry_register_def registry_reserve_def release_reserved_id_def
        registry_publish_def registry_retain_def registry_prune_def enforce_tombstone_limits_def stop_lifecycle_manager_def
        release_ephemeral_def release_remaining_states_def next_access_def remove_entry_def Let_def)
qed

lemma closed_down_run: "closed_down (fst x) \<Longrightarrow> closed_down (fst (fold run_op ops x))"
  by (induction ops arbitrary: x) (simp_all add: closed_down_step)

lemma stopping_step:
  assumes "registry_ok x" "rg_shutting_down (fst x)"
  shows "rg_shutting_down (fst (run_op op x))"
proof -
  obtain rg l where x: "x = (rg, l)" by fastforce
  have k: "keys_ok rg" and c: "rg_shutting_down rg" using assms by (simp_all add: registry_ok_def x)
  show ?thesis
  proof (cases op)
    case (OpLookup i)
    then show ?thesis using lookup_spec(4)[OF k, of i] c by (cases "lookup_execution i rg") (simp add: x)
  next
    case (OpPrune busy now)
    then show ?thesis using prune_spec[OF k, of busy now] c by (cases "registry_prune busy now rg") (simp add: x)
  next
    case (OpReleaseReserved i t)
    then show ?thesis
      using c by (auto simp: x release_reserved_id_def split: option.split execution_entry.split)
  next
    case (OpReleaseEphemeral i)
    then show ?thesis
      using c by (auto simp: x release_ephemeral_def split: option.split execution_entry.split)
  qed (use c in \<open>auto simp: x registry_register_def registry_reserve_def registry_publish_def registry_retain_def
      stop_lifecycle_manager_def release_remaining_states_def\<close>)
qed

lemma stopping_run: "registry_ok x \<Longrightarrow> rg_shutting_down (fst x) \<Longrightarrow> rg_shutting_down (fst (fold run_op ops x))"
  by (induction ops arbitrary: x) (simp_all add: stopping_step registry_ok_step)

text \<open>C6. No execution of the guest is lost. In every sequence of the registry's operations each state it
  ever published is still in its table, was handed out once to have its resources released, or belongs
  to the container a shutdown leaves alone; and once a shutdown has run to its end the table is empty
  and stays so, so nothing can be published that nobody would release.\<close>
theorem executions_accounted:
  assumes "run_registry ops = (rg, l)"
  shows "mset (lg_published l) = tally held_part rg + mset (lg_released l) + mset (lg_left l) \<and>
    (\<forall>before between managed after. ops = before @ OpStop # between @ OpReleaseRemaining managed # after \<longrightarrow>
      rg_entries rg = [] \<and> mset (lg_published l) = mset (lg_released l) + mset (lg_left l))"
proof -
  have bal: "mset (lg_published l) = tally held_part rg + mset (lg_released l) + mset (lg_left l)"
    using run_registry_ok[of ops] assms by (simp add: registry_ok_def books_balance_def)
  moreover have "rg_entries rg = []" if ops: "ops = before @ OpStop # between @ OpReleaseRemaining managed # after"
    for before between managed after
  proof -
    let ?x = "run_registry (before @ [OpStop])"
    have "rg_shutting_down (fst ?x)"
      by (cases "run_registry before") (simp add: run_registry_def stop_lifecycle_manager_def)
    then have "rg_shutting_down (fst (fold run_op between ?x))" by (rule stopping_run[OF run_registry_ok])
    then have "closed_down (fst (run_op (OpReleaseRemaining managed) (fold run_op between ?x)))"
      by (cases "fold run_op between ?x") (simp add: closed_down_def release_remaining_states_def)
    from closed_down_run[OF this, of after] have "closed_down rg"
      using assms by (simp add: ops run_registry_def)
    then show ?thesis by (simp add: closed_down_def)
  qed
  ultimately show ?thesis
    by (auto simp: tally_def List.map_filter_simps(2))
qed

text \<open>C32. What the registry keeps of finished executions is bounded. After any operations there are at most
  1024 tombstones with five mebibytes of diagnostics, and whenever an execution is retained the
  retained ones are within 64 entries and eight mebibytes unless a reader was streaming from each.\<close>
theorem registry_bounded:
  assumes "run_registry ops = (rg, l)"
  shows "size (tally tombstone_part rg) \<le> MAX_TOMBSTONE_ENTRIES \<and>
    metadata (tally tombstone_part rg) \<le> MAX_TOMBSTONE_METADATA_BYTES \<and>
    (\<forall>busy now i sn bytes rg' evicted. ts_reader_failure (sn_output sn) = None \<longrightarrow>
      registry_retain busy now i sn bytes rg = (rg', True, evicted) \<longrightarrow>
      (size (tally retained_part rg') \<le> MAX_RETAINED_ENTRIES \<and> bytes_of (tally retained_part rg') \<le> MAX_RETAINED_BYTES) \<or>
      (\<exists>n. \<forall>(_, s, _)\<in>#tally retained_part rg'. busy n s))"
proof -
  have ok: "keys_ok rg" "tombstones_fit rg" using run_registry_ok[of ops] assms by (simp_all add: registry_ok_def)
  then show ?thesis
    using retain_live[OF ok(1)] unfolding tombstones_fit_def retained_fit_def by blast
qed

section \<open>Identifiers\<close>

text \<open>
  What one operation may make of the entry of an identifier: only the ticket of a reservation turns it
  into a live execution or drops it, only the end of an execution retires it, and a result stays the
  result until it is forgotten.
\<close>

definition finished_as :: "'s \<Rightarrow> terminal_snapshot \<Rightarrow> nat \<Rightarrow> 's execution_entry option \<Rightarrow> bool" where
  "finished_as s sn bytes e \<longleftrightarrow> e = None \<or> (\<exists>x a. e = Some (Retained s sn bytes x a)) \<or>
     (\<exists>x a. e = Some (tombstone_entry sn x a))"

fun evolves :: "string \<Rightarrow> 's registry_op \<Rightarrow> 's execution_entry option \<Rightarrow> 's execution_entry option \<Rightarrow> bool" where
  "evolves i op None e \<longleftrightarrow>
     e = None \<or> (op = OpReserve i \<and> (\<exists>t. e = Some (Reserved t))) \<or> (\<exists>s. op = OpRegister i s \<and> e = Some (Live s))"
| "evolves i op (Some (Reserved t)) e \<longleftrightarrow>
     e = Some (Reserved t) \<or> (\<exists>s. op = OpPublish (i, t) s \<and> e = Some (Live s)) \<or>
     (e = None \<and> (op = OpReleaseReserved i t \<or> (\<exists>managed. op = OpReleaseRemaining managed)))"
| "evolves i op (Some (Live s)) e \<longleftrightarrow>
     e = Some (Live s) \<or> (\<exists>busy now sn bytes. op = OpRetain busy now i sn bytes \<and> finished_as s sn bytes e) \<or>
     (e = None \<and> (op = OpReleaseEphemeral i \<or> (\<exists>managed. op = OpReleaseRemaining managed)))"
| "evolves i op (Some (Retained s sn bytes x a)) e \<longleftrightarrow>
     (\<exists>a'. e = Some (Retained s sn bytes x a')) \<or> (\<exists>x a. e = Some (tombstone_entry sn x a)) \<or> e = None"
| "evolves i op (Some (Tombstone sn x bytes a)) e \<longleftrightarrow> (\<exists>a'. e = Some (Tombstone sn x bytes a')) \<or> e = None"

lemma evolves_same: "evolves i op e e"
proof (cases e)
  case (Some x)
  then show ?thesis by (cases x) auto
qed simp

lemma evolves_buried:
  assumes "buried e m" "cleared m e'"
  shows "evolves i op e e'"
proof (cases "e' = e")
  case True
  then show ?thesis by (simp add: evolves_same)
next
  case False
  then consider s sn b x a y acc where "e = Some (Retained s sn b x a)" "m = Some (tombstone_entry sn y acc)" "e' = m"
    | "e' = None" "\<exists>s sn b x a. e = Some (Retained s sn b x a)" | "e' = None" "\<exists>sn x b a. e = Some (Tombstone sn x b a)"
    using assms unfolding buried_def cleared_def by metis
  then show ?thesis by cases (simp, blast, auto)
qed

lemma evolves_retired:
  assumes "entry_at rg i = Some (Live s)"
    "e = Retained s sn bytes (now + RETAIN_GRACE) n \<or> e = tombstone_entry sn (now + TOMBSTONE_TTL) n"
    "buried (Some e) m" "cleared m e'"
  shows "finished_as s sn bytes e'"
proof -
  have "m = Some e \<or> (\<exists>y acc. m = Some (tombstone_entry sn y acc))"
    using assms(2,3) by (auto simp: buried_def)
  then show ?thesis
    using assms(2,4) by (auto simp: cleared_def finished_as_def)
qed

lemma evolves_retain:
  assumes "retires j sn bytes now n rg rg'"
  shows "evolves i (OpRetain busy now j sn bytes) (entry_at rg i) (entry_at rg' i)"
proof -
  obtain s e where s: "entry_at rg j = Some (Live s)"
      "e = Retained s sn bytes (now + RETAIN_GRACE) n \<or> e = tombstone_entry sn (now + TOMBSTONE_TTL) n"
    and bc: "\<And>k. \<exists>m. buried (((entry_at rg)(j \<mapsto> e)) k) m \<and> cleared m (entry_at rg' k)"
    using assms unfolding retires_def by blast
  show ?thesis
  proof (cases "i = j")
    case True
    then show ?thesis using evolves_retired[OF s] bc[of j] s(1) by auto
  next
    case False
    then show ?thesis using evolves_buried bc[of i] by (metis fun_upd_other)
  qed
qed

lemma evolves_op_retain:
  assumes k: "keys_ok rg"
  shows "evolves i (OpRetain busy now j sn bytes) (entry_at rg i) (entry_at (fst (run_op (OpRetain busy now j sn bytes) (rg, l))) i)"
proof -
  obtain rg' ok ev where r: "registry_retain busy now j sn bytes rg = (rg', ok, ev)" by (metis prod_cases3)
  show ?thesis
  proof (cases ok)
    case True
    then have "retires j sn bytes now (counter_next (rg_next_access rg)) rg rg'"
      using retain_live[OF k, of busy now j sn bytes rg' ev] r by simp
    from evolves_retain[OF this] show ?thesis by (simp add: r)
  next
    case False
    then show ?thesis
      using retain_refused[of busy now j sn bytes rg rg' ev] r by (simp add: evolves_same)
  qed
qed

lemma evolves_op_prune:
  assumes k: "keys_ok rg"
  shows "evolves i (OpPrune busy now) (entry_at rg i) (entry_at (fst (run_op (OpPrune busy now) (rg, l))) i)"
proof -
  obtain rg' st where r: "registry_prune busy now rg = (rg', st)" by fastforce
  have "\<exists>m. buried (entry_at rg i) m \<and> cleared m (entry_at rg' i)" using prune_spec[OF k r] by simp
  then have "evolves i (OpPrune busy now) (entry_at rg i) (entry_at rg' i)" using evolves_buried by blast
  then show ?thesis by (simp add: r)
qed

lemma evolves_op_lookup:
  "evolves i (OpLookup j) (entry_at rg i) (entry_at (fst (run_op (OpLookup j) (rg, l))) i)"
proof -
  have "evolves i (OpLookup j) (entry_at rg i) (entry_at (fst (lookup_execution j rg)) i)"
    by (cases "i = j")
      (auto simp: lookup_execution_def next_access_def Let_def evolves_same split: option.split execution_entry.split)
  then show ?thesis by simp
qed

lemmas registry_op_defs = registry_register_def registry_reserve_def registry_exists_def release_reserved_id_def
  registry_publish_def stop_lifecycle_manager_def release_ephemeral_def

text \<open>C33. An identifier never changes hands. Whatever an operation does, a reservation becomes an execution
  or is dropped only by its own ticket, a live execution leaves its identifier only by its own
  retention, its own release or the final one, and the result of a finished execution stays what it
  was until it is forgotten: late releases, publications and retentions of others do not touch it.\<close>
theorem identifier_keeps_owner:
  assumes "run_registry ops = (rg, l)"
  shows "evolves i op (entry_at rg i) (entry_at (fst (run_op op (rg, l))) i)"
proof (cases op)
  have k: "keys_ok rg" using run_registry_ok[of ops] assms by (simp add: registry_ok_def)
  case (OpRetain busy now j sn bytes)
  then show ?thesis using evolves_op_retain[OF k] by simp
next
  have k: "keys_ok rg" using run_registry_ok[of ops] assms by (simp add: registry_ok_def)
  case (OpPrune busy now)
  then show ?thesis using evolves_op_prune[OF k] by simp
next
  case (OpLookup j)
  then show ?thesis using evolves_op_lookup by simp
next
  case (OpReleaseRemaining managed)
  then show ?thesis
    by (cases "entry_at rg i"; cases "the (entry_at rg i)") (auto simp: release_remaining_states_def)
next
  case (OpPublish r s)
  then show ?thesis
    by (cases r) (auto simp: registry_op_defs evolves_same Let_def split: option.split execution_entry.split)
qed (auto simp: registry_op_defs evolves_same Let_def split: option.split execution_entry.split)

section \<open>One execution from its reservation to the shutdown\<close>

definition demo_snapshot :: terminal_snapshot where
  "demo_snapshot = \<lparr>sn_exit = \<lparr>ex_exit_code = 0, ex_signal = 0, ex_error_message = []\<rparr>,
     sn_output = \<lparr>ts_stdout = \<lparr>ss_enabled = True, ss_total_bytes = 2\<rparr>,
       ts_stderr = \<lparr>ss_enabled = False, ss_total_bytes = 0\<rparr>, ts_reader_failure = None\<rparr>\<rparr>"

definition demo_ops :: "nat registry_op list" where
  "demo_ops = [OpReserve ''e'', OpPublish (''e'', 1) 7, OpRetain (\<lambda>_ _. False) 0 ''e'' demo_snapshot 2]"

lemma demo_published:
  "run_registry (take 2 demo_ops) =
     (\<lparr>rg_entries = [(''e'', Live 7)], rg_next_ticket = 1, rg_next_access = 0, rg_shutting_down = False\<rparr>,
      \<lparr>lg_published = [7], lg_released = [], lg_left = []\<rparr>)"
  by (simp add: demo_ops_def run_registry_def registry_new_def registry_reserve_def registry_publish_def registry_exists_def
      insert_entry_def counter_next_def Let_def numeral_2_eq_2)

lemma executions_accounted_witness:
  "let (rg, l) = run_registry (take 2 demo_ops @ [OpStop, OpReleaseRemaining (\<lambda>_. True)]) in
     rg_entries rg = [] \<and> lg_published l = [7] \<and> mset (lg_published l) = mset (lg_released l) + mset (lg_left l)"
proof -
  have r: "run_registry (take 2 demo_ops @ [OpStop, OpReleaseRemaining (\<lambda>_. True)]) =
      (\<lparr>rg_entries = [], rg_next_ticket = 1, rg_next_access = 0, rg_shutting_down = True\<rparr>,
       \<lparr>lg_published = [7], lg_released = [7], lg_left = []\<rparr>)"
    using demo_published
    by (simp add: run_registry_def stop_lifecycle_manager_def release_remaining_states_def List.map_filter_simps state_of_def)
  from executions_accounted[OF r] r show ?thesis by simp
qed

lemma registry_bounded_witness:
  "size (tally tombstone_part (fst (run_registry (take 2 demo_ops)))) \<le> 1024"
  using registry_bounded[OF demo_published] demo_published by (simp add: MAX_TOMBSTONE_ENTRIES_def)

lemma identifier_keeps_owner_witness:
  "evolves ''e'' (OpReleaseReserved ''e'' 1) (Some (Live 7 :: nat execution_entry)) (Some (Live 7))"
  using identifier_keeps_owner[OF demo_published, of "''e''" "OpReleaseReserved ''e'' 1"]
  by (simp add: release_reserved_id_def)

end
