(* ===== verification/Reaper.thy ===== *)
theory Reaper
  imports Prelude "HOL-Library.AList"
begin

text \<open>
  The child reaper of the guest agent, \<open>Reaper\<close> of \<open>src/src/guest/src/reaper.rs\<close>: one slot per process
  identifier, where the exit of a child is deposited for any number of readers and for one action.

  A slot's \<open>watch\<close> channel is a number, its value kept in \<open>rp_values\<close>; a reader holds the number. The
  channel of a removed slot keeps its value. An \<open>Instant\<close> is a number of nanoseconds.
\<close>

section \<open>Slots\<close>

definition REAPED_TTL :: nat where "REAPED_TTL = 60 * 10 ^ 9"

datatype exit_status = ExitCode int | ExitSignal nat

type_synonym pid = int

record 'a slot =
  sl_tx :: nat
  sl_stray_since :: "nat option"
  sl_settled_at :: "nat option"
  sl_action :: "'a option"

record 'a reaper =
  rp_slots :: "(pid \<times> 'a slot) list"
  rp_values :: "nat \<Rightarrow> exit_status option"
  rp_channels :: nat

definition reaper_new :: "'a reaper" where
  "reaper_new = \<lparr>rp_slots = [], rp_values = (\<lambda>_. None), rp_channels = 0\<rparr>"

text \<open>\<open>Inner::slot\<close>: get or create, with a fresh channel.\<close>

definition get_slot :: "pid \<Rightarrow> nat option \<Rightarrow> 'a reaper \<Rightarrow> 'a reaper \<times> 'a slot" where
  "get_slot pid stray rp =
     (case map_of (rp_slots rp) pid of
        Some slot \<Rightarrow> (rp, slot)
      | None \<Rightarrow>
          (let slot = \<lparr>sl_tx = rp_channels rp, sl_stray_since = stray, sl_settled_at = None, sl_action = None\<rparr> in
           (rp\<lparr>rp_slots := AList.update pid slot (rp_slots rp), rp_values := (rp_values rp)(rp_channels rp := None),
              rp_channels := rp_channels rp + 1\<rparr>, slot)))"

definition put_slot :: "pid \<Rightarrow> 'a slot \<Rightarrow> 'a reaper \<Rightarrow> 'a reaper" where
  "put_slot pid slot rp = rp\<lparr>rp_slots := AList.update pid slot (rp_slots rp)\<rparr>"

definition remove_slot :: "pid \<Rightarrow> 'a reaper \<Rightarrow> 'a reaper" where
  "remove_slot pid rp = rp\<lparr>rp_slots := AList.delete pid (rp_slots rp)\<rparr>"

definition prune_stale :: "nat \<Rightarrow> 'a reaper \<Rightarrow> 'a reaper" where
  "prune_stale now rp = rp\<lparr>rp_slots := filter (\<lambda>(_, slot). case sl_stray_since slot of
     None \<Rightarrow> True | Some since \<Rightarrow> now - since < REAPED_TTL) (rp_slots rp)\<rparr>"

text \<open>A slot that was settled before the spawn belongs to an earlier process with the same identifier.\<close>

definition drop_recycled :: "pid \<Rightarrow> nat \<Rightarrow> 'a reaper \<Rightarrow> 'a reaper" where
  "drop_recycled pid spawned_at rp =
     (case map_of (rp_slots rp) pid of
        Some slot \<Rightarrow> (case sl_settled_at slot of
            Some t \<Rightarrow> if t < spawned_at then remove_slot pid rp else rp | None \<Rightarrow> rp)
      | None \<Rightarrow> rp)"

text \<open>The result of \<open>register\<close> is the channel of the slot.\<close>

definition reaper_register :: "pid \<Rightarrow> nat \<Rightarrow> 'a reaper \<Rightarrow> 'a reaper \<times> nat" where
  "reaper_register pid spawned_at rp =
     (let rp = drop_recycled pid spawned_at rp;
          (rp, slot) = get_slot pid None rp
      in (put_slot pid (slot\<lparr>sl_stray_since := None\<rparr>) rp, sl_tx slot))"

definition release_slot :: "nat \<Rightarrow> 'a reaper \<Rightarrow> 'a reaper" where
  "release_slot exit_channel rp =
     (case find (\<lambda>(_, slot). sl_tx slot = exit_channel) (rp_slots rp) of
        Some (pid, _) \<Rightarrow> remove_slot pid rp
      | None \<Rightarrow> rp)"

text \<open>The last component is the status the action is run with at once, when the exit is already there.\<close>

definition reaper_on_exit :: "pid \<Rightarrow> nat \<Rightarrow> 'a \<Rightarrow> 'a reaper \<Rightarrow> 'a reaper \<times> nat \<times> exit_status option" where
  "reaper_on_exit pid spawned_at action rp =
     (let rp = drop_recycled pid spawned_at rp;
          (rp, slot) = get_slot pid None rp;
          slot = slot\<lparr>sl_stray_since := None\<rparr>;
          fire_with = rp_values rp (sl_tx slot);
          slot = (if fire_with = None then slot\<lparr>sl_action := Some action\<rparr> else slot)
      in (put_slot pid slot rp, sl_tx slot, fire_with))"

text \<open>The result is the action to run with the status once the lock is released.\<close>

definition reaper_deliver :: "pid \<Rightarrow> exit_status \<Rightarrow> nat \<Rightarrow> 'a reaper \<Rightarrow> 'a reaper \<times> 'a option" where
  "reaper_deliver pid status now rp =
     (let rp = (case map_of (rp_slots rp) pid of
                  Some slot \<Rightarrow> if sl_settled_at slot \<noteq> None then remove_slot pid rp else rp
                | None \<Rightarrow> rp);
          registered = (map_of (rp_slots rp) pid \<noteq> None);
          rp = (if registered then rp else prune_stale now rp);
          (rp, slot) = get_slot pid (if registered then None else Some now) rp;
          rp = rp\<lparr>rp_values := (rp_values rp)(sl_tx slot := Some status)\<rparr>
      in (put_slot pid (slot\<lparr>sl_settled_at := Some now, sl_action := None\<rparr>) rp, sl_action slot))"

definition has_exited :: "nat \<Rightarrow> 'a reaper \<Rightarrow> bool" where
  "has_exited exit_channel rp \<longleftrightarrow> rp_values rp exit_channel \<noteq> None"

section \<open>Processes and their owners\<close>

text \<open>
  A process of the guest, with what its owner did: the identifier, the instant the owner took as the
  spawn time, whether an owner will ever ask for it, the exit that \<open>waitpid\<close> returned, when the exit was
  delivered, the channel the owner holds, whether the owner has released the slot and whether it parked
  an action. \<open>pr_orderly\<close> only records how the process came to its slot (below); no operation reads it.
\<close>

record process =
  pr_pid :: pid
  pr_spawned_at :: nat
  pr_watched :: bool
  pr_status :: "exit_status option"
  pr_delivered :: "nat option"
  pr_channel :: "nat option"
  pr_released :: bool
  pr_acts :: bool
  pr_orderly :: bool

record reaper_sys =
  rs_reaper :: "nat reaper"
  rs_procs :: "process list"
  rs_fired :: "(nat \<times> exit_status) list"
  rs_now :: nat

definition set_proc :: "nat \<Rightarrow> process \<Rightarrow> reaper_sys \<Rightarrow> reaper_sys" where
  "set_proc i p s = s\<lparr>rs_procs := (rs_procs s)[i := p]\<rparr>"

text \<open>
  An action is the index of the process it was parked for; \<open>rs_fired\<close> logs the runs. The kernel's part
  is \<open>spawns\<close> and \<open>exits\<close>, the exit of a process together with the \<open>waitpid\<close> that collects it: from then on
  its identifier is free and any later process may get it, whatever became of the old one's exit and
  owner. The owner of a new process may have taken the spawn time long before the fork (an execution,
  \<open>service/exec/mod.rs\<close>), or take it when it asks (\<open>takes_time\<close>; the container's init, \<open>service/container.rs\<close>).

  A process is \<open>orderly\<close> when it came to its identifier the way the comments of \<open>reaper.rs\<close> expect: the exits
  of the earlier holders were delivered before the spawn time its owner took, their owners had asked
  for them by then, its own owner took the spawn time before its exit was delivered, and asks within
  \<open>REAPED_TTL\<close> of an exit that was faster.
\<close>

definition succeeds_orderly :: "reaper_sys \<Rightarrow> pid \<Rightarrow> nat \<Rightarrow> bool" where
  "succeeds_orderly s pid t \<longleftrightarrow> (\<forall>q\<in>set (rs_procs s). pr_pid q = pid \<longrightarrow>
     (\<exists>d. pr_delivered q = Some d \<and> d < t) \<and> (pr_watched q \<longrightarrow> pr_channel q \<noteq> None))"

definition asks_in_time :: "reaper_sys \<Rightarrow> process \<Rightarrow> bool" where
  "asks_in_time s p \<longleftrightarrow> (case pr_delivered p of None \<Rightarrow> True | Some d \<Rightarrow> rs_now s - d < REAPED_TTL)"

definition all_orderly :: "reaper_sys \<Rightarrow> bool" where
  "all_orderly s \<longleftrightarrow> (\<forall>p\<in>set (rs_procs s). pr_orderly p)"

inductive reaper_step :: "reaper_sys \<Rightarrow> reaper_sys \<Rightarrow> bool" where
  passes: "rs_now s \<le> now \<Longrightarrow> reaper_step s (s\<lparr>rs_now := now\<rparr>)"
| spawns: "t \<le> rs_now s \<Longrightarrow>
    (\<forall>q\<in>set (rs_procs s). pr_pid q = pid \<longrightarrow> pr_status q \<noteq> None) \<Longrightarrow>
    reaper_step s (s\<lparr>rs_procs := rs_procs s @ [\<lparr>pr_pid = pid, pr_spawned_at = t, pr_watched = watched,
      pr_status = None, pr_delivered = None, pr_channel = None, pr_released = False, pr_acts = False,
      pr_orderly = succeeds_orderly s pid t\<rparr>]\<rparr>)"
| takes_time: "i < length (rs_procs s) \<Longrightarrow> rs_procs s ! i = p \<Longrightarrow> pr_channel p = None \<Longrightarrow>
    reaper_step s (set_proc i (p\<lparr>pr_spawned_at := rs_now s, pr_orderly := pr_orderly p \<and> pr_delivered p = None\<rparr>) s)"
| exits: "i < length (rs_procs s) \<Longrightarrow> rs_procs s ! i = p \<Longrightarrow> pr_status p = None \<Longrightarrow>
    reaper_step s (set_proc i (p\<lparr>pr_status := Some status\<rparr>) s)"
| delivers: "i < length (rs_procs s) \<Longrightarrow> rs_procs s ! i = p \<Longrightarrow> pr_status p = Some status \<Longrightarrow>
    pr_delivered p = None \<Longrightarrow> reaper_deliver (pr_pid p) status (rs_now s) (rs_reaper s) = (rp, action) \<Longrightarrow>
    reaper_step s (set_proc i (p\<lparr>pr_delivered := Some (rs_now s)\<rparr>) (s\<lparr>rs_reaper := rp,
      rs_fired := rs_fired s @ (case action of None \<Rightarrow> [] | Some a \<Rightarrow> [(a, status)])\<rparr>))"
| registers: "i < length (rs_procs s) \<Longrightarrow> rs_procs s ! i = p \<Longrightarrow> pr_watched p \<Longrightarrow> pr_channel p = None \<Longrightarrow>
    reaper_register (pr_pid p) (pr_spawned_at p) (rs_reaper s) = (rp, c) \<Longrightarrow>
    reaper_step s (set_proc i (p\<lparr>pr_channel := Some c, pr_orderly := pr_orderly p \<and> asks_in_time s p\<rparr>)
      (s\<lparr>rs_reaper := rp\<rparr>))"
| on_exits: "i < length (rs_procs s) \<Longrightarrow> rs_procs s ! i = p \<Longrightarrow> pr_watched p \<Longrightarrow> pr_channel p = None \<Longrightarrow>
    reaper_on_exit (pr_pid p) (pr_spawned_at p) i (rs_reaper s) = (rp, c, fire_with) \<Longrightarrow>
    reaper_step s (set_proc i (p\<lparr>pr_channel := Some c, pr_acts := True,
      pr_orderly := pr_orderly p \<and> asks_in_time s p\<rparr>) (s\<lparr>rs_reaper := rp,
      rs_fired := rs_fired s @ (case fire_with of None \<Rightarrow> [] | Some status \<Rightarrow> [(i, status)])\<rparr>))"
| releases: "i < length (rs_procs s) \<Longrightarrow> rs_procs s ! i = p \<Longrightarrow> pr_channel p = Some c \<Longrightarrow>
    reaper_step s (set_proc i (p\<lparr>pr_released := True\<rparr>) (s\<lparr>rs_reaper := release_slot c (rs_reaper s)\<rparr>))"

inductive reaper_reachable :: "reaper_sys \<Rightarrow> bool" where
  start: "reaper_reachable \<lparr>rs_reaper = reaper_new, rs_procs = [], rs_fired = [], rs_now = 0\<rparr>"
| step: "reaper_reachable s \<Longrightarrow> reaper_step s s' \<Longrightarrow> reaper_reachable s'"


section \<open>The invariant\<close>

abbreviation slot_at :: "'a reaper \<Rightarrow> pid \<Rightarrow> 'a slot option" where
  "slot_at rp \<equiv> map_of (rp_slots rp)"

text \<open>
  Whose slot it is: unsettled, it is parked by the owner of a process whose exit is to come; settled, it
  holds the exit of a delivered process. No other process's owner holds its channel.
\<close>

definition slot_owner :: "nat reaper \<Rightarrow> process list \<Rightarrow> pid \<Rightarrow> nat slot \<Rightarrow> nat \<Rightarrow> bool" where
  "slot_owner rp ps pid slot i \<longleftrightarrow> i < length ps \<and> pr_pid (ps ! i) = pid \<and>
     (\<forall>j<length ps. pr_channel (ps ! j) = Some (sl_tx slot) \<longrightarrow> j = i) \<and>
     (case sl_settled_at slot of
        None \<Rightarrow> pr_delivered (ps ! i) = None \<and> pr_channel (ps ! i) = Some (sl_tx slot) \<and> \<not> pr_released (ps ! i) \<and>
          rp_values rp (sl_tx slot) = None \<and> sl_stray_since slot = None \<and>
          sl_action slot = (if pr_acts (ps ! i) then Some i else None)
      | Some d \<Rightarrow> pr_delivered (ps ! i) = Some d \<and> rp_values rp (sl_tx slot) = pr_status (ps ! i) \<and>
          sl_action slot = None)"

definition slots_ok :: "nat reaper \<Rightarrow> process list \<Rightarrow> bool" where
  "slots_ok rp ps \<longleftrightarrow> distinct (map fst (rp_slots rp)) \<and>
     (\<forall>pid slot. slot_at rp pid = Some slot \<longrightarrow> sl_tx slot < rp_channels rp \<and> (\<exists>i. slot_owner rp ps pid slot i)) \<and>
     (\<forall>pid pid' slot slot'. slot_at rp pid = Some slot \<and> slot_at rp pid' = Some slot' \<and> sl_tx slot = sl_tx slot' \<longrightarrow>
        pid = pid')"

text \<open>Earlier holders of an identifier are done with it.\<close>

definition history_ok :: "nat \<Rightarrow> process list \<Rightarrow> bool" where
  "history_ok now ps \<longleftrightarrow>
     (\<forall>i<length ps. (\<forall>j<i. pr_pid (ps ! j) = pr_pid (ps ! i) \<longrightarrow>
         (\<exists>d. pr_delivered (ps ! j) = Some d \<and> d < pr_spawned_at (ps ! i)) \<and>
         (pr_watched (ps ! j) \<longrightarrow> pr_channel (ps ! j) \<noteq> None)) \<and>
       pr_spawned_at (ps ! i) \<le> now \<and>
       (\<forall>d. pr_delivered (ps ! i) = Some d \<longrightarrow> pr_spawned_at (ps ! i) \<le> d \<and> d \<le> now \<and> pr_status (ps ! i) \<noteq> None))"

text \<open>What the owner of a process can rely on.\<close>

definition owner_ok :: "nat reaper \<Rightarrow> nat \<Rightarrow> (nat \<times> exit_status) list \<Rightarrow> process list \<Rightarrow> nat \<Rightarrow> bool" where
  "owner_ok rp now fired ps i \<longleftrightarrow>
     (case pr_channel (ps ! i) of
        Some c \<Rightarrow> c < rp_channels rp \<and> (\<forall>j<length ps. pr_channel (ps ! j) = Some c \<longrightarrow> j = i) \<and>
          (rp_values rp c \<noteq> None \<longrightarrow> rp_values rp c = pr_status (ps ! i) \<and> pr_delivered (ps ! i) \<noteq> None) \<and>
          (\<not> pr_released (ps ! i) \<and> pr_delivered (ps ! i) \<noteq> None \<longrightarrow> rp_values rp c \<noteq> None) \<and>
          (\<not> pr_released (ps ! i) \<and> pr_delivered (ps ! i) = None \<longrightarrow>
             (\<exists>slot. slot_at rp (pr_pid (ps ! i)) = Some slot \<and> sl_tx slot = c)) \<and>
          (i \<in> fst ` set fired \<longleftrightarrow> pr_acts (ps ! i) \<and> rp_values rp c \<noteq> None)
      | None \<Rightarrow> \<not> pr_released (ps ! i) \<and> \<not> pr_acts (ps ! i) \<and> i \<notin> fst ` set fired \<and>
          (\<forall>d. pr_watched (ps ! i) \<and> pr_delivered (ps ! i) = Some d \<and> now - d < REAPED_TTL \<longrightarrow>
             (\<exists>slot. slot_at rp (pr_pid (ps ! i)) = Some slot \<and> sl_settled_at slot = Some d \<and> sl_stray_since slot = Some d)))"

definition fired_ok :: "(nat \<times> exit_status) list \<Rightarrow> process list \<Rightarrow> bool" where
  "fired_ok fired ps \<longleftrightarrow> distinct (map fst fired) \<and>
     (\<forall>(i, status)\<in>set fired. i < length ps \<and> pr_status (ps ! i) = Some status)"

definition reaper_ok :: "reaper_sys \<Rightarrow> bool" where
  "reaper_ok s \<longleftrightarrow> slots_ok (rs_reaper s) (rs_procs s) \<and> history_ok (rs_now s) (rs_procs s) \<and>
     (\<forall>i<length (rs_procs s). owner_ok (rs_reaper s) (rs_now s) (rs_fired s) (rs_procs s) i) \<and>
     fired_ok (rs_fired s) (rs_procs s)"

lemma history_before:
  assumes "history_ok now ps" "i < length ps" "j < i" "pr_pid (ps ! j) = pr_pid (ps ! i)"
  obtains d where "pr_delivered (ps ! j) = Some d" "d < pr_spawned_at (ps ! i)"
    "pr_watched (ps ! j) \<Longrightarrow> pr_channel (ps ! j) \<noteq> None"
  using assms unfolding history_ok_def by blast

lemma history_self:
  assumes "history_ok now ps" "i < length ps" "pr_delivered (ps ! i) = Some d"
  shows "pr_spawned_at (ps ! i) \<le> d" "d \<le> now" "pr_status (ps ! i) \<noteq> None"
  using assms unfolding history_ok_def by blast+

text \<open>Two processes with one identifier: a pending one is the last, an unregistered one too.\<close>

lemma pending_last:
  assumes "history_ok now ps" "i < length ps" "j < length ps" "pr_pid (ps ! j) = pr_pid (ps ! i)"
    "pr_delivered (ps ! i) = None \<or> (pr_watched (ps ! i) \<and> pr_channel (ps ! i) = None)"
  shows "j \<le> i"
proof (rule ccontr)
  assume "\<not> j \<le> i"
  then have "i < j" by simp
  from history_before[OF assms(1,3) this assms(4)[symmetric]] assms(5) show False by fastforce
qed

text \<open>What the operations do to the table.\<close>

lemma map_of_put [simp]: "slot_at (put_slot pid slot rp) = (slot_at rp)(pid \<mapsto> slot)"
  by (simp add: put_slot_def update_conv')

lemma map_of_remove [simp]: "slot_at (remove_slot pid rp) = (slot_at rp)(pid := None)"
  by (simp add: remove_slot_def delete_conv')

lemma slot_fields [simp]:
  "rp_values (put_slot pid slot rp) = rp_values rp" "rp_channels (put_slot pid slot rp) = rp_channels rp"
  "rp_values (remove_slot pid rp) = rp_values rp" "rp_channels (remove_slot pid rp) = rp_channels rp"
  "rp_values (prune_stale now rp) = rp_values rp" "rp_channels (prune_stale now rp) = rp_channels rp"
  by (simp_all add: put_slot_def remove_slot_def prune_stale_def)

lemma slot_distinct [simp]:
  "distinct (map fst (rp_slots rp)) \<Longrightarrow> distinct (map fst (rp_slots (put_slot pid slot rp)))"
  "distinct (map fst (rp_slots rp)) \<Longrightarrow> distinct (map fst (rp_slots (remove_slot pid rp)))"
  "distinct (map fst (rp_slots rp)) \<Longrightarrow> distinct (map fst (rp_slots (prune_stale now rp)))"
  by (simp_all add: put_slot_def remove_slot_def prune_stale_def distinct_update distinct_delete distinct_map_filter)

lemma map_of_filter_distinct:
  "distinct (map fst al) \<Longrightarrow> map_of (filter P al) k =
     (case map_of al k of None \<Rightarrow> None | Some v \<Rightarrow> if P (k, v) then Some v else None)"
  by (induction al) (auto simp: map_of_eq_None_iff[THEN iffD2] split: option.split)

lemma map_of_prune:
  "distinct (map fst (rp_slots rp)) \<Longrightarrow> slot_at (prune_stale now rp) pid =
     (case slot_at rp pid of None \<Rightarrow> None
      | Some slot \<Rightarrow> if (case sl_stray_since slot of None \<Rightarrow> True | Some since \<Rightarrow> now - since < REAPED_TTL) then Some slot else None)"
  by (simp add: prune_stale_def map_of_filter_distinct split: option.split)

lemma find_slot:
  assumes "distinct (map fst (rp_slots rp))"
  shows "(\<exists>pid slot. slot_at rp pid = Some slot \<and> sl_tx slot = c \<and> release_slot c rp = remove_slot pid rp) \<or>
    ((\<forall>pid slot. slot_at rp pid = Some slot \<longrightarrow> sl_tx slot \<noteq> c) \<and> release_slot c rp = rp)"
proof (cases "find (\<lambda>(_, slot). sl_tx slot = c) (rp_slots rp)")
  case None
  then have "\<forall>x\<in>set (rp_slots rp). sl_tx (snd x) \<noteq> c" by (fastforce simp: find_None_iff)
  then have "\<forall>pid slot. slot_at rp pid = Some slot \<longrightarrow> sl_tx slot \<noteq> c" by (fastforce dest: map_of_SomeD)
  then show ?thesis using None by (simp add: release_slot_def)
next
  case (Some x)
  then have "x \<in> set (rp_slots rp) \<and> sl_tx (snd x) = c" by (metis (mono_tags, lifting) case_prod_unfold find_Some_iff nth_mem)
  then obtain pid slot where x: "x = (pid, slot)" "(pid, slot) \<in> set (rp_slots rp)" "sl_tx slot = c"
    by (cases x) auto
  then show ?thesis using Some assms by (auto simp: release_slot_def)
qed


section \<open>Each step keeps it\<close>

lemma slots_ownedD:
  "slots_ok rp ps \<Longrightarrow> slot_at rp pid = Some slot \<Longrightarrow> sl_tx slot < rp_channels rp \<and> (\<exists>i. slot_owner rp ps pid slot i)"
  by (simp add: slots_ok_def)

lemma slots_distinctD:
  "slots_ok rp ps \<Longrightarrow> slot_at rp pid = Some slot \<Longrightarrow> slot_at rp pid' = Some slot' \<Longrightarrow> sl_tx slot = sl_tx slot' \<Longrightarrow>
     pid = pid'"
  unfolding slots_ok_def by blast

lemma slots_okI:
  assumes "distinct (map fst (rp_slots rp))"
    "\<And>pid slot. slot_at rp pid = Some slot \<Longrightarrow> sl_tx slot < rp_channels rp \<and> (\<exists>i. slot_owner rp ps pid slot i)"
    "\<And>pid pid' slot slot'. slot_at rp pid = Some slot \<Longrightarrow> slot_at rp pid' = Some slot' \<Longrightarrow> sl_tx slot = sl_tx slot' \<Longrightarrow>
       pid = pid'"
  shows "slots_ok rp ps"
  using assms unfolding slots_ok_def by blast

text \<open>The slot a registration finds: its own process's, already settled, or a fresh one.\<close>

definition acquire :: "pid \<Rightarrow> nat \<Rightarrow> 'a reaper \<Rightarrow> 'a reaper \<times> 'a slot" where
  "acquire pid spawned_at rp = get_slot pid None (drop_recycled pid spawned_at rp)"

definition fresh_slot :: "nat option \<Rightarrow> nat \<Rightarrow> 'a slot" where
  "fresh_slot stray c = \<lparr>sl_tx = c, sl_stray_since = stray, sl_settled_at = None, sl_action = None\<rparr>"

lemma get_fresh:
  assumes "slot_at rp pid = None"
  shows "get_slot pid stray rp = (rp\<lparr>rp_slots := AList.update pid (fresh_slot stray (rp_channels rp)) (rp_slots rp),
    rp_values := (rp_values rp)(rp_channels rp := None), rp_channels := rp_channels rp + 1\<rparr>,
    fresh_slot stray (rp_channels rp))"
  using assms by (simp add: get_slot_def fresh_slot_def Let_def)

lemma drop_recycled_cases:
  "drop_recycled pid t rp = rp \<or> (drop_recycled pid t rp = remove_slot pid rp \<and>
     (\<exists>slot d. slot_at rp pid = Some slot \<and> sl_settled_at slot = Some d \<and> d < t))"
  by (auto simp: drop_recycled_def split: option.split)

lemma acquire_pending:
  assumes "reaper_ok s" "i < length (rs_procs s)" "p = rs_procs s ! i" "pr_watched p" "pr_channel p = None"
    "pr_delivered p = None"
  shows "slot_at (drop_recycled (pr_pid p) (pr_spawned_at p) (rs_reaper s)) (pr_pid p) = None"
proof (cases "slot_at (rs_reaper s) (pr_pid p)")
  case None
  then show ?thesis by (simp add: drop_recycled_def)
next
  case (Some slot)
  let ?ps = "rs_procs s"
  have ok: "slots_ok (rs_reaper s) ?ps" and h: "history_ok (rs_now s) ?ps" using assms(1) by (simp_all add: reaper_ok_def)
  obtain j where j: "slot_owner (rs_reaper s) ?ps (pr_pid p) slot j" using slots_ownedD[OF ok Some] by blast
  then have jn: "j < length ?ps" "pr_pid (?ps ! j) = pr_pid (?ps ! i)" by (simp_all add: slot_owner_def assms(3))
  have le: "j \<le> i" by (rule pending_last[OF h assms(2) jn]) (use assms(3,6) in simp)
  show ?thesis
  proof (cases "sl_settled_at slot")
    case None
    then have d: "pr_delivered (?ps ! j) = None" "pr_channel (?ps ! j) \<noteq> None" using j by (auto simp: slot_owner_def)
    then have "j < i" using le assms(3,5) by (metis le_neq_implies_less)
    from history_before[OF h assms(2) this jn(2)] d(1) show ?thesis by simp
  next
    case settled: (Some d)
    then have d: "pr_delivered (?ps ! j) = Some d" using j by (simp add: slot_owner_def)
    then have "j < i" using le assms(3,6) by (metis le_neq_implies_less option.distinct(1))
    from history_before[OF h assms(2) this jn(2)] d have "d < pr_spawned_at p" using assms(3) by auto
    then show ?thesis using Some settled by (simp add: drop_recycled_def)
  qed
qed

lemma acquire_settled:
  assumes "reaper_ok s" "i < length (rs_procs s)" "p = rs_procs s ! i" "pr_watched p" "pr_channel p = None"
    "pr_delivered p = Some d" "rs_now s - d < REAPED_TTL"
  shows "\<exists>slot. slot_at (rs_reaper s) (pr_pid p) = Some slot \<and> sl_settled_at slot = Some d \<and>
    slot_owner (rs_reaper s) (rs_procs s) (pr_pid p) slot i \<and>
    acquire (pr_pid p) (pr_spawned_at p) (rs_reaper s) = (rs_reaper s, slot)"
proof -
  let ?ps = "rs_procs s"
  have ok: "slots_ok (rs_reaper s) ?ps" and h: "history_ok (rs_now s) ?ps"
    and "owner_ok (rs_reaper s) (rs_now s) (rs_fired s) ?ps i"
    using assms(1,2) by (simp_all add: reaper_ok_def)
  then obtain slot where slot: "slot_at (rs_reaper s) (pr_pid p) = Some slot" "sl_settled_at slot = Some d"
    using assms(3-7) by (auto simp: owner_ok_def)
  then obtain j where j: "slot_owner (rs_reaper s) ?ps (pr_pid p) slot j" using slots_ownedD[OF ok] by blast
  then have jn: "j < length ?ps" "pr_pid (?ps ! j) = pr_pid (?ps ! i)" by (simp_all add: slot_owner_def assms(3))
  have "j \<le> i" by (rule pending_last[OF h assms(2) jn]) (use assms(3-5) in simp)
  moreover have "\<not> j < i"
  proof
    assume "j < i"
    from history_before[OF h assms(2) this jn(2)] have "d < pr_spawned_at p"
      using j slot(2) assms(3) by (auto simp: slot_owner_def)
    then show False using history_self(1)[OF h assms(2)] assms(3,6) by fastforce
  qed
  ultimately have "j = i" by simp
  moreover have "pr_spawned_at p \<le> d" using history_self(1)[OF h assms(2)] assms(3,6) by simp
  ultimately show ?thesis
    using slot j by (auto simp: acquire_def drop_recycled_def get_slot_def)
qed


lemma reaper_okD:
  assumes "reaper_ok s" "i < length (rs_procs s)"
  shows "owner_ok (rs_reaper s) (rs_now s) (rs_fired s) (rs_procs s) i"
  using assms by (simp add: reaper_ok_def)

lemma channel_below:
  assumes "reaper_ok s" "i < length (rs_procs s)" "pr_channel (rs_procs s ! i) = Some c"
  shows "c < rp_channels (rs_reaper s)"
  using reaper_okD[OF assms(1,2)] assms(3) by (simp add: owner_ok_def)

text \<open>A history in which one process gains a channel.\<close>

lemma history_update:
  assumes "history_ok now ps" "pr_pid p' = pr_pid (ps ! i)" "pr_spawned_at p' = pr_spawned_at (ps ! i)"
    "pr_watched p' = pr_watched (ps ! i)" "pr_channel (ps ! i) \<noteq> None \<Longrightarrow> pr_channel p' \<noteq> None"
    "pr_delivered (ps ! i) \<noteq> None \<Longrightarrow> pr_delivered p' = pr_delivered (ps ! i)"
    "pr_status (ps ! i) \<noteq> None \<Longrightarrow> pr_status p' \<noteq> None"
    "pr_delivered p' = pr_delivered (ps ! i) \<or> (pr_delivered p' = Some now \<and> pr_status p' \<noteq> None)"
  shows "history_ok now (ps[i := p'])"
proof (cases "i < length ps")
  case True
  have before: "(\<exists>d. pr_delivered (ps[i := p'] ! j) = Some d \<and> d < pr_spawned_at (ps[i := p'] ! k)) \<and>
      (pr_watched (ps[i := p'] ! j) \<longrightarrow> pr_channel (ps[i := p'] ! j) \<noteq> None)"
    if "k < length ps" "j < k" "pr_pid (ps[i := p'] ! j) = pr_pid (ps[i := p'] ! k)" for j k
  proof -
    have "pr_pid (ps ! j) = pr_pid (ps ! k)" using that assms(2) True by (auto simp: nth_list_update split: if_splits)
    from history_before[OF assms(1) that(1,2) this] obtain d where d: "pr_delivered (ps ! j) = Some d"
      "d < pr_spawned_at (ps ! k)" "pr_watched (ps ! j) \<Longrightarrow> pr_channel (ps ! j) \<noteq> None" by blast
    then show ?thesis using assms(3-6) True that by (auto simp: nth_list_update)
  qed
  have self: "pr_spawned_at (ps[i := p'] ! k) \<le> now" if "k < length ps" for k
    using assms(1,3) that True unfolding history_ok_def by (cases "k = i") simp_all
  have "pr_spawned_at (ps[i := p'] ! k) \<le> d \<and> d \<le> now \<and> pr_status (ps[i := p'] ! k) \<noteq> None"
    if "k < length ps" "pr_delivered (ps[i := p'] ! k) = Some d" for k d
  proof (cases "k = i \<and> pr_delivered p' \<noteq> pr_delivered (ps ! i)")
    case True
    then show ?thesis using that assms(8) self[of k] by (auto simp: nth_list_update split: if_splits)
  next
    case False
    then have "pr_delivered (ps ! k) = Some d" using that True by (auto simp: nth_list_update split: if_splits)
    from history_self[OF assms(1) that(1) this] show ?thesis using assms(3,7) True that by (auto simp: nth_list_update)
  qed
  then show ?thesis using before self unfolding history_ok_def by simp
qed (use assms(1) in \<open>simp add: list_update_beyond\<close>)

text \<open>A process registers before its exit is delivered.\<close>

lemma claim_pending:
  assumes ok: "reaper_ok s" and i: "i < length (rs_procs s)" and p: "p = rs_procs s ! i" "pr_watched p" "pr_channel p = None"
      "pr_delivered p = None"
    and rp: "distinct (map fst (rp_slots rp'))" "rp_channels rp' = Suc (rp_channels (rs_reaper s))"
      "slot_at rp' = (slot_at (rs_reaper s))(pr_pid p \<mapsto>
         (fresh_slot None (rp_channels (rs_reaper s)))\<lparr>sl_action := if acts then Some i else None\<rparr>)"
      "rp_values rp' = (rp_values (rs_reaper s))(rp_channels (rs_reaper s) := None)"
  shows "reaper_ok (set_proc i (p\<lparr>pr_channel := Some (rp_channels (rs_reaper s)), pr_acts := acts\<rparr>) (s\<lparr>rs_reaper := rp'\<rparr>))"
proof -
  let ?ps = "rs_procs s" and ?rp = "rs_reaper s" and ?C = "rp_channels (rs_reaper s)"
  let ?p' = "p\<lparr>pr_channel := Some ?C, pr_acts := acts\<rparr>"
  let ?ps' = "?ps[i := ?p']"
  have sl: "slots_ok ?rp ?ps" and h: "history_ok (rs_now s) ?ps" and f: "fired_ok (rs_fired s) ?ps"
    using ok by (simp_all add: reaper_ok_def)
  have nochan: "pr_channel (?ps ! j) \<noteq> Some ?C" if "j < length ?ps" for j
    using channel_below[OF ok that] by auto
  have last: "k = i" if "k < length ?ps" "pr_pid (?ps ! k) = pr_pid p"
      "pr_delivered (?ps ! k) = None \<or> (pr_watched (?ps ! k) \<and> pr_channel (?ps ! k) = None)" for k
    using pending_last[OF h i that(1)] pending_last[OF h that(1) i] that p by (metis antisym)
  have slots: "sl_tx slot < Suc ?C \<and> (\<exists>j. slot_owner rp' ?ps' pid slot j)" if "slot_at rp' pid = Some slot" for pid slot
  proof (cases "pid = pr_pid p")
    case True
    then have "slot_owner rp' ?ps' pid slot i"
      using that i p nochan ok reaper_okD[OF ok i]
      by (auto simp: slot_owner_def rp fresh_slot_def nth_list_update owner_ok_def)
    then show ?thesis using that True by (auto simp: rp fresh_slot_def)
  next
    case False
    then have "slot_at ?rp pid = Some slot" using that by (simp add: rp)
    from slots_ownedD[OF sl this] obtain j where j: "sl_tx slot < ?C" "slot_owner ?rp ?ps pid slot j" by blast
    then have "j \<noteq> i" using False p by (auto simp: slot_owner_def)
    then have "slot_owner rp' ?ps' pid slot j"
      using j i by (auto simp: slot_owner_def rp nth_list_update split: option.splits)
    then show ?thesis using j(1) by (auto simp: less_SucI)
  qed
  have "slots_ok rp' ?ps'"
  proof (rule slots_okI[OF rp(1)])
    show "sl_tx slot < rp_channels rp' \<and> (\<exists>j. slot_owner rp' ?ps' pid slot j)" if "slot_at rp' pid = Some slot" for pid slot
      using slots[OF that] by (simp add: rp(2))
    show "pid = pid'" if "slot_at rp' pid = Some slot" "slot_at rp' pid' = Some slot'" "sl_tx slot = sl_tx slot'"
      for pid pid' slot slot'
      using that slots_ownedD[OF sl] slots_distinctD[OF sl] by (fastforce simp: rp(3) fresh_slot_def split: if_splits)
  qed
  moreover have "history_ok (rs_now s) ?ps'" by (rule history_update[OF h]) (simp_all add: p(1))
  moreover have "owner_ok rp' (rs_now s) (rs_fired s) ?ps' k" if "k < length ?ps" for k
  proof (cases "k = i")
    case True
    then show ?thesis
      using i p nochan reaper_okD[OF ok i] by (auto simp: owner_ok_def rp fresh_slot_def nth_list_update)
  next
    case False
    then have "?ps' ! k = ?ps ! k" using that by simp
    then show ?thesis
      using reaper_okD[OF ok that] last[OF that] False nochan i
      unfolding owner_ok_def by (auto simp: rp nth_list_update split: option.splits)
  qed
  moreover have "fired_ok (rs_fired s) ?ps'"
    using f i p(1) by (auto simp: fired_ok_def nth_list_update)
  ultimately show ?thesis by (simp add: reaper_ok_def set_proc_def)
qed


text \<open>A process registers after its exit was delivered.\<close>

lemma claim_settled:
  assumes ok: "reaper_ok s" and i: "i < length (rs_procs s)" and p: "p = rs_procs s ! i" "pr_watched p" "pr_channel p = None"
      "pr_delivered p = Some d" "pr_status p = Some status"
    and slot: "slot_at (rs_reaper s) (pr_pid p) = Some slot" "sl_settled_at slot = Some d"
      "slot_owner (rs_reaper s) (rs_procs s) (pr_pid p) slot i"
    and fired: "fired = rs_fired s @ (if acts then [(i, status)] else [])"
  shows "reaper_ok (set_proc i (p\<lparr>pr_channel := Some (sl_tx slot), pr_acts := acts\<rparr>)
    (s\<lparr>rs_reaper := put_slot (pr_pid p) (slot\<lparr>sl_stray_since := None\<rparr>) (rs_reaper s), rs_fired := fired\<rparr>))"
proof -
  let ?ps = "rs_procs s" and ?rp = "rs_reaper s"
  let ?rp' = "put_slot (pr_pid p) (slot\<lparr>sl_stray_since := None\<rparr>) ?rp"
  let ?p' = "p\<lparr>pr_channel := Some (sl_tx slot), pr_acts := acts\<rparr>"
  let ?ps' = "?ps[i := ?p']"
  have sl: "slots_ok ?rp ?ps" and h: "history_ok (rs_now s) ?ps" and f: "fired_ok (rs_fired s) ?ps"
    using ok by (simp_all add: reaper_ok_def)
  have keys: "distinct (map fst (rp_slots ?rp))" using sl by (simp add: slots_ok_def)
  have i_out: "\<not> pr_released p" "i \<notin> fst ` set (rs_fired s)"
    using reaper_okD[OF ok i] p(1,3) by (simp_all add: owner_ok_def)
  have mine: "pr_channel (?ps ! j) \<noteq> Some (sl_tx slot)" if "j < length ?ps" for j
    using slot(3) that p(1,3) by (auto simp: slot_owner_def)
  have last: "k = i" if "k < length ?ps" "pr_pid (?ps ! k) = pr_pid p" "pr_watched (?ps ! k)" "pr_channel (?ps ! k) = None" for k
    using pending_last[OF h i that(1)] pending_last[OF h that(1) i] that p by (metis antisym)
  have "slots_ok ?rp' ?ps'"
  proof (rule slots_okI)
    show "sl_tx sl < rp_channels ?rp' \<and> (\<exists>j. slot_owner ?rp' ?ps' pid sl j)" if at: "slot_at ?rp' pid = Some sl" for pid sl
    proof (cases "pid = pr_pid p")
      case True
      then have "slot_owner ?rp' ?ps' pid sl i"
        using at slot i p mine by (auto simp: slot_owner_def nth_list_update)
      moreover have "sl_tx sl < rp_channels ?rp'" using True at slots_ownedD[OF sl slot(1)] by auto
      ultimately show ?thesis by blast
    next
      case False
      then have old: "slot_at ?rp pid = Some sl" using at by simp
      from slots_ownedD[OF sl this] obtain j where j: "sl_tx sl < rp_channels ?rp" "slot_owner ?rp ?ps pid sl j" by blast
      have "sl_tx sl \<noteq> sl_tx slot" using slots_distinctD[OF sl old slot(1)] False by blast
      moreover have "j \<noteq> i" using j(2) False p(1) by (auto simp: slot_owner_def)
      ultimately have "slot_owner ?rp' ?ps' pid sl j"
        using j i by (auto simp: slot_owner_def nth_list_update split: option.splits)
      then show ?thesis using j(1) by auto
    qed
    show "pid = pid'" if "slot_at ?rp' pid = Some sl" "slot_at ?rp' pid' = Some sl'" "sl_tx sl = sl_tx sl'" for pid pid' sl sl'
      using that slots_distinctD[OF sl] slot(1) by (fastforce split: if_splits)
  qed (use keys in simp)
  moreover have "history_ok (rs_now s) ?ps'" by (rule history_update[OF h]) (simp_all add: p(1))
  moreover have "owner_ok ?rp' (rs_now s) fired ?ps' k" if "k < length ?ps" for k
  proof (cases "k = i")
    case True
    have "rp_values ?rp (sl_tx slot) = Some status" using slot p by (simp add: slot_owner_def)
    then show ?thesis
      using True i p mine i_out slots_ownedD[OF sl slot(1)]
      by (auto simp: owner_ok_def nth_list_update fired)
  next
    case False
    then have same: "?ps' ! k = ?ps ! k" using that by simp
    have infired: "k \<in> fst ` set fired \<longleftrightarrow> k \<in> fst ` set (rs_fired s)" using False by (auto simp: fired)
    show ?thesis
    proof (cases "pr_channel (?ps ! k)")
      case None
      then show ?thesis
        using reaper_okD[OF ok that] last[OF that] False slot(1) unfolding owner_ok_def same infired by auto
    next
      case (Some c)
      then have "c \<noteq> sl_tx slot" using mine[OF that] by auto
      then show ?thesis
        using Some reaper_okD[OF ok that] False slot(1) i unfolding owner_ok_def same infired
        by (auto simp: nth_list_update split: if_splits)
    qed
  qed
  moreover have "fired_ok fired ?ps'"
    using f i p i_out by (auto simp: fired_ok_def nth_list_update fired)
  ultimately show ?thesis by (simp add: reaper_ok_def set_proc_def)
qed

text \<open>The exit is delivered to the owner that waits for it.\<close>

lemma deliver_waiting:
  assumes ok: "reaper_ok s" and i: "i < length (rs_procs s)" and p: "p = rs_procs s ! i" "pr_delivered p = None"
      "pr_status p = Some status"
    and slot: "slot_at (rs_reaper s) (pr_pid p) = Some slot" "sl_settled_at slot = None"
    and rp': "rp' = put_slot (pr_pid p) (slot\<lparr>sl_settled_at := Some (rs_now s), sl_action := None\<rparr>)
      ((rs_reaper s)\<lparr>rp_values := (rp_values (rs_reaper s))(sl_tx slot := Some status)\<rparr>)"
  shows "reaper_ok (set_proc i (p\<lparr>pr_delivered := Some (rs_now s)\<rparr>) (s\<lparr>rs_reaper := rp',
    rs_fired := rs_fired s @ (case sl_action slot of None \<Rightarrow> [] | Some a \<Rightarrow> [(a, status)])\<rparr>))"
proof -
  let ?ps = "rs_procs s" and ?rp = "rs_reaper s"
  let ?p' = "p\<lparr>pr_delivered := Some (rs_now s)\<rparr>"
  let ?ps' = "?ps[i := ?p']"
  have sl: "slots_ok ?rp ?ps" and h: "history_ok (rs_now s) ?ps" and f: "fired_ok (rs_fired s) ?ps"
    using ok by (simp_all add: reaper_ok_def)
  have chan: "pr_channel (?ps' ! j) = pr_channel (?ps ! j)" for j using i p(1) by (cases "j = i") simp_all
  have keys: "distinct (map fst (rp_slots ?rp))" using sl by (simp add: slots_ok_def)
  have last: "k = i" if "k < length ?ps" "pr_pid (?ps ! k) = pr_pid p"
      "pr_delivered (?ps ! k) = None \<or> (pr_watched (?ps ! k) \<and> pr_channel (?ps ! k) = None)" for k
    using pending_last[OF h i that(1)] pending_last[OF h that(1) i] that p by (metis antisym)
  obtain j where j: "slot_owner ?rp ?ps (pr_pid p) slot j" using slots_ownedD[OF sl slot(1)] by blast
  then have "j = i" using last[of j] slot(2) by (simp add: slot_owner_def)
  then have own: "slot_owner ?rp ?ps (pr_pid p) slot i" using j by simp
  then have c: "pr_channel p = Some (sl_tx slot)" "\<not> pr_released p" "sl_action slot = (if pr_acts p then Some i else None)"
      "rp_values ?rp (sl_tx slot) = None" "sl_stray_since slot = None"
      "\<And>j. j < length ?ps \<Longrightarrow> pr_channel (?ps ! j) = Some (sl_tx slot) \<Longrightarrow> j = i"
    using slot(2) p(1) by (simp_all add: slot_owner_def)
  have i_out: "i \<notin> fst ` set (rs_fired s)"
    using reaper_okD[OF ok i] p(1) c(1,4) by (simp add: owner_ok_def)
  have "slots_ok rp' ?ps'"
  proof (rule slots_okI)
    show "sl_tx sl < rp_channels rp' \<and> (\<exists>j. slot_owner rp' ?ps' pid sl j)" if at: "slot_at rp' pid = Some sl" for pid sl
    proof (cases "pid = pr_pid p")
      case True
      then have "slot_owner rp' ?ps' pid sl i"
      proof -
        have "sl = slot\<lparr>sl_settled_at := Some (rs_now s), sl_action := None\<rparr>" using at True by (simp add: rp')
        then show ?thesis using i p c(6) True by (auto simp: slot_owner_def nth_list_update rp')
      qed
      moreover have "sl_tx sl < rp_channels rp'" using True at slots_ownedD[OF sl slot(1)] by (auto simp: rp')
      ultimately show ?thesis by blast
    next
      case False
      then have old: "slot_at ?rp pid = Some sl" using at by (simp add: rp')
      from slots_ownedD[OF sl this] obtain k where k: "sl_tx sl < rp_channels ?rp" "slot_owner ?rp ?ps pid sl k" by blast
      have "sl_tx sl \<noteq> sl_tx slot" using slots_distinctD[OF sl old slot(1)] False by blast
      moreover have "k \<noteq> i" using k(2) False p(1) by (auto simp: slot_owner_def)
      ultimately have "slot_owner rp' ?ps' pid sl k"
        using k i p(1) by (auto simp: slot_owner_def nth_list_update rp' split: option.splits)
      then show ?thesis using k(1) by (auto simp: rp')
    qed
    show "pid = pid'" if "slot_at rp' pid = Some sl" "slot_at rp' pid' = Some sl'" "sl_tx sl = sl_tx sl'" for pid pid' sl sl'
      using that slots_distinctD[OF sl] slot(1) by (fastforce simp: rp' split: if_splits)
  qed (use keys in \<open>simp add: rp'\<close>)
  moreover have "history_ok (rs_now s) ?ps'" by (rule history_update[OF h]) (simp_all add: p(2,3) flip: p(1))
  moreover have "owner_ok rp' (rs_now s) (rs_fired s @ (case sl_action slot of None \<Rightarrow> [] | Some a \<Rightarrow> [(a, status)])) ?ps' k"
    if "k < length ?ps" for k
  proof (cases "k = i")
    case True
    have at: "?ps' ! i = ?p'" using i by simp
    have "\<forall>j<length ?ps. pr_channel (?ps' ! j) = Some (sl_tx slot) \<longrightarrow> j = i"
      using c(6) by (simp add: chan)
    then show ?thesis
      unfolding owner_ok_def True at using p(3) c(1-4) i_out slots_ownedD[OF sl slot(1)] by (auto simp: rp')
  next
    case False
    then have same: "?ps' ! k = ?ps ! k" using that by simp
    have infired: "k \<in> fst ` set (rs_fired s @ (case sl_action slot of None \<Rightarrow> [] | Some a \<Rightarrow> [(a, status)])) \<longleftrightarrow>
        k \<in> fst ` set (rs_fired s)" using False by (auto simp: c(3))
    show ?thesis
    proof (cases "pr_channel (?ps ! k)")
      case None
      then show ?thesis
        using reaper_okD[OF ok that] last[OF that] False unfolding owner_ok_def same infired by (auto simp: rp')
    next
      case (Some c')
      then have "c' \<noteq> sl_tx slot" using c(6)[OF that] False by auto
      then show ?thesis
        using Some reaper_okD[OF ok that] False slot(1) i p(1) unfolding owner_ok_def same infired
        by (auto simp: nth_list_update rp' split: if_splits)
    qed
  qed
  moreover have "fired_ok (rs_fired s @ (case sl_action slot of None \<Rightarrow> [] | Some a \<Rightarrow> [(a, status)])) ?ps'"
    using f i p i_out by (auto simp: fired_ok_def nth_list_update c(3))
  ultimately show ?thesis by (simp add: reaper_ok_def set_proc_def)
qed


text \<open>The exit is delivered with nobody waiting: an early exit, a stray, or a slot its owner gave up.\<close>

lemma deliver_early:
  assumes ok: "reaper_ok s" and i: "i < length (rs_procs s)" and p: "p = rs_procs s ! i" "pr_delivered p = None"
      "pr_status p = Some status"
    and free: "\<And>slot. slot_at (rs_reaper s) (pr_pid p) = Some slot \<Longrightarrow> sl_settled_at slot \<noteq> None"
    and rp': "distinct (map fst (rp_slots rp'))" "rp_channels rp' = Suc (rp_channels (rs_reaper s))"
      "slot_at rp' = (\<lambda>pid. if pid = pr_pid p
         then Some (fresh_slot (Some (rs_now s)) (rp_channels (rs_reaper s)) \<lparr>sl_settled_at := Some (rs_now s)\<rparr>)
         else slot_at (prune_stale (rs_now s) (rs_reaper s)) pid)"
      "rp_values rp' = (rp_values (rs_reaper s))(rp_channels (rs_reaper s) := Some status)"
  shows "reaper_ok (set_proc i (p\<lparr>pr_delivered := Some (rs_now s)\<rparr>) (s\<lparr>rs_reaper := rp'\<rparr>))"
proof -
  let ?ps = "rs_procs s" and ?rp = "rs_reaper s" and ?C = "rp_channels (rs_reaper s)"
  let ?p' = "p\<lparr>pr_delivered := Some (rs_now s)\<rparr>"
  let ?ps' = "?ps[i := ?p']"
  have sl: "slots_ok ?rp ?ps" and h: "history_ok (rs_now s) ?ps" and f: "fired_ok (rs_fired s) ?ps"
    using ok by (simp_all add: reaper_ok_def)
  have chan: "pr_channel (?ps' ! j) = pr_channel (?ps ! j)" for j using i p(1) by (cases "j = i") simp_all
  have keys: "distinct (map fst (rp_slots ?rp))" using sl by (simp add: slots_ok_def)
  have nochan: "pr_channel (?ps ! j) \<noteq> Some ?C" if "j < length ?ps" for j
    using channel_below[OF ok that] by auto
  have last: "k = i" if "k < length ?ps" "pr_pid (?ps ! k) = pr_pid p"
      "pr_delivered (?ps ! k) = None \<or> (pr_watched (?ps ! k) \<and> pr_channel (?ps ! k) = None)" for k
    using pending_last[OF h i that(1)] pending_last[OF h that(1) i] that p by (metis antisym)
  have kept: "slot_at ?rp pid = Some sl" if "pid \<noteq> pr_pid p" "slot_at rp' pid = Some sl" for pid sl
    using that by (auto simp: rp'(3) map_of_prune[OF keys] split: option.splits if_splits)
  have stays: "slot_at rp' pid = Some sl" if "pid \<noteq> pr_pid p" "slot_at ?rp pid = Some sl"
      "case sl_stray_since sl of None \<Rightarrow> True | Some since \<Rightarrow> rs_now s - since < REAPED_TTL" for pid sl
    using that by (simp add: rp'(3) map_of_prune[OF keys])
  have gave_up: "pr_released p" if c: "pr_channel p = Some c" for c
  proof (rule ccontr)
    assume "\<not> pr_released p"
    then obtain slot where slot: "slot_at ?rp (pr_pid p) = Some slot" "sl_tx slot = c"
      using reaper_okD[OF ok i] p(2) c unfolding owner_ok_def p(1)[symmetric] by auto
    obtain j where j: "slot_owner ?rp ?ps (pr_pid p) slot j" using slots_ownedD[OF sl slot(1)] by blast
    then have "j = i" using i c slot(2) unfolding slot_owner_def p(1) by auto
    then show False using j free[OF slot(1)] p(1,2) by (auto simp: slot_owner_def)
  qed
  have "slots_ok rp' ?ps'"
  proof (rule slots_okI[OF rp'(1)])
    show "sl_tx sl < rp_channels rp' \<and> (\<exists>j. slot_owner rp' ?ps' pid sl j)" if at: "slot_at rp' pid = Some sl" for pid sl
    proof (cases "pid = pr_pid p")
      case True
      then have sl: "sl = fresh_slot (Some (rs_now s)) ?C \<lparr>sl_settled_at := Some (rs_now s)\<rparr>" using at by (simp add: rp'(3))
      have "pr_channel (?ps' ! j) \<noteq> Some ?C" if "j < length ?ps" for j
        using nochan[OF that] by (simp add: chan)
      then have "slot_owner rp' ?ps' pid sl i"
        using i p(3) True by (simp add: slot_owner_def sl fresh_slot_def rp'(4))
      then show ?thesis using sl by (auto simp: fresh_slot_def rp'(2))
    next
      case False
      note old = kept[OF False at]
      from slots_ownedD[OF sl old] obtain k where k: "sl_tx sl < ?C" "slot_owner ?rp ?ps pid sl k" by blast
      then have "k \<noteq> i" using False p(1) by (auto simp: slot_owner_def)
      then have "slot_owner rp' ?ps' pid sl k"
        using k i p(1) by (auto simp: slot_owner_def nth_list_update rp'(4) split: option.splits)
      then show ?thesis using k(1) by (auto simp: rp'(2))
    qed
    show "pid = pid'" if "slot_at rp' pid = Some sl" "slot_at rp' pid' = Some sl'" "sl_tx sl = sl_tx sl'" for pid pid' sl sl'
    proof -
      have below: "sl_tx x < ?C" if "q \<noteq> pr_pid p" "slot_at rp' q = Some x" for q x
        using slots_ownedD[OF sl kept[OF that]] by simp
      have own: "sl_tx x = ?C" if "slot_at rp' (pr_pid p) = Some x" for x
        using that by (auto simp: rp'(3) fresh_slot_def)
      consider "pid = pr_pid p" "pid' = pr_pid p" | "pid = pr_pid p" "pid' \<noteq> pr_pid p"
        | "pid \<noteq> pr_pid p" "pid' = pr_pid p" | "pid \<noteq> pr_pid p" "pid' \<noteq> pr_pid p" by blast
      then show ?thesis
      proof cases
        case 4
        then show ?thesis using slots_distinctD[OF sl kept[OF 4(1) that(1)] kept[OF 4(2) that(2)] that(3)] by simp
      qed (use that own below in \<open>metis nat_neq_iff\<close>)+
    qed
  qed
  moreover have "history_ok (rs_now s) ?ps'" by (rule history_update[OF h]) (simp_all add: p(2,3) flip: p(1))
  moreover have "owner_ok rp' (rs_now s) (rs_fired s) ?ps' k" if k: "k < length ?ps" for k
  proof (cases "k = i")
    case True
    have new: "\<exists>slot. slot_at rp' (pr_pid p) = Some slot \<and> sl_settled_at slot = Some (rs_now s) \<and>
        sl_stray_since slot = Some (rs_now s)" by (simp add: rp'(3) fresh_slot_def)
    show ?thesis
    proof (cases "pr_channel p")
      case None
      then show ?thesis using True i new reaper_okD[OF ok i] unfolding owner_ok_def p(1)[symmetric] by simp
    next
      case (Some c)
      then have "c \<noteq> ?C" using nochan[OF i] p(1) by auto
      then show ?thesis
        using i Some gave_up[OF Some] reaper_okD[OF ok i] p(2) unfolding True owner_ok_def chan p(1)[symmetric]
        by (auto simp: rp'(2,4))
    qed
  next
    case False
    then have same: "?ps' ! k = ?ps ! k" using k by simp
    show ?thesis
    proof (cases "pr_channel (?ps ! k)")
      case None
      then show ?thesis
        using reaper_okD[OF ok k] last[OF k] False stays[of "pr_pid (?ps ! k)"]
        unfolding owner_ok_def same by (auto simp: rp'(3)) 
    next
      case (Some c)
      have other: "pr_pid (?ps ! k) \<noteq> pr_pid p" if "pr_delivered (?ps ! k) = None" using last[OF k] that False by blast
      have fresh: "slot_at rp' (pr_pid (?ps ! k)) = Some slot"
        if d: "pr_delivered (?ps ! k) = None" and at: "slot_at ?rp (pr_pid (?ps ! k)) = Some slot" "sl_tx slot = c" for slot
      proof -
        obtain j where j: "slot_owner ?rp ?ps (pr_pid (?ps ! k)) slot j" using slots_ownedD[OF sl at(1)] by blast
        then have "j = k" using k Some at(2) by (auto simp: slot_owner_def)
        then have "sl_stray_since slot = None" using j d by (auto simp: slot_owner_def split: option.splits)
        then show ?thesis using stays[OF other[OF d] at(1)] by simp
      qed
      have "c \<noteq> ?C" using nochan[OF k] Some by auto
      then show ?thesis
        using Some reaper_okD[OF ok k] fresh unfolding owner_ok_def same chan
        by (auto simp: rp'(2,4))
    qed
  qed
  moreover have "fired_ok (rs_fired s) ?ps'"
    using f i p(1) by (auto simp: fired_ok_def nth_list_update)
  ultimately show ?thesis by (simp add: reaper_ok_def set_proc_def)
qed


lemma slots_ok_mono:
  assumes sl: "slots_ok rp ps" and owner: "\<And>pid slot j. slot_owner rp ps pid slot j \<Longrightarrow> slot_owner rp ps' pid slot j"
  shows "slots_ok rp ps'"
proof (rule slots_okI)
  show "sl_tx slot < rp_channels rp \<and> (\<exists>i. slot_owner rp ps' pid slot i)" if "slot_at rp pid = Some slot" for pid slot
    using slots_ownedD[OF sl that] owner by blast
  show "pid = pid'" if "slot_at rp pid = Some x" "slot_at rp pid' = Some y" "sl_tx x = sl_tx y" for pid pid' x y
    using slots_distinctD[OF sl that] .
qed (use sl in \<open>simp add: slots_ok_def\<close>)

lemma owner_ok_same:
  assumes ok: "owner_ok rp now fired ps k" and same: "ps' ! k = ps ! k"
    and chan: "\<And>j. j < length ps' \<Longrightarrow> pr_channel (ps' ! j) \<noteq> None \<Longrightarrow> j < length ps \<and> pr_channel (ps ! j) = pr_channel (ps' ! j)"
  shows "owner_ok rp now fired ps' k"
proof (cases "pr_channel (ps ! k)")
  case None
  then show ?thesis using ok unfolding owner_ok_def same by simp
next
  case (Some c)
  then have "\<forall>j<length ps. pr_channel (ps ! j) = Some c \<longrightarrow> j = k" using ok by (simp add: owner_ok_def)
  then have "\<forall>j<length ps'. pr_channel (ps' ! j) = Some c \<longrightarrow> j = k" using chan by (metis option.distinct(1))
  then show ?thesis using ok Some unfolding owner_ok_def same by simp
qed

lemma release_keeps:
  assumes ok: "reaper_ok s" and i: "i < length (rs_procs s)" and p: "p = rs_procs s ! i" "pr_channel p = Some c"
  shows "reaper_ok (set_proc i (p\<lparr>pr_released := True\<rparr>) (s\<lparr>rs_reaper := release_slot c (rs_reaper s)\<rparr>))"
proof -
  let ?ps = "rs_procs s" and ?rp = "rs_reaper s" and ?rp' = "release_slot c (rs_reaper s)"
  let ?p' = "p\<lparr>pr_released := True\<rparr>"
  let ?ps' = "?ps[i := ?p']"
  have sl: "slots_ok ?rp ?ps" and h: "history_ok (rs_now s) ?ps" and f: "fired_ok (rs_fired s) ?ps"
    using ok by (simp_all add: reaper_ok_def)
  have keys: "distinct (map fst (rp_slots ?rp))" using sl by (simp add: slots_ok_def)
  have fields: "rp_values ?rp' = rp_values ?rp" "rp_channels ?rp' = rp_channels ?rp" "distinct (map fst (rp_slots ?rp'))"
    using find_slot[OF keys, of c] keys by auto
  have same: "pr_channel (?ps' ! j) = pr_channel (?ps ! j)" "pr_pid (?ps' ! j) = pr_pid (?ps ! j)"
      "pr_delivered (?ps' ! j) = pr_delivered (?ps ! j)" "pr_status (?ps' ! j) = pr_status (?ps ! j)"
      "pr_acts (?ps' ! j) = pr_acts (?ps ! j)" "pr_watched (?ps' ! j) = pr_watched (?ps ! j)"
      "pr_spawned_at (?ps' ! j) = pr_spawned_at (?ps ! j)" for j
    using i p(1) by (cases "j = i"; simp)+
  have mine: "pr_pid p = pid \<and> slot_owner ?rp ?ps pid slot i" if at: "slot_at ?rp pid = Some slot" "sl_tx slot = c" for pid slot
  proof -
    from slots_ownedD[OF sl at(1)] obtain j where j: "slot_owner ?rp ?ps pid slot j" by blast
    then have "j = i" using i p at(2) unfolding slot_owner_def by auto
    then show ?thesis using j p(1) by (simp add: slot_owner_def)
  qed
  have at: "slot_at ?rp' pid = Some slot \<longleftrightarrow> slot_at ?rp pid = Some slot \<and> sl_tx slot \<noteq> c" for pid slot
    using find_slot[OF keys, of c]
  proof (elim disjE exE conjE)
    fix q x assume q: "slot_at ?rp q = Some x" "sl_tx x = c" "release_slot c ?rp = remove_slot q ?rp"
    have "pid = q" if "slot_at ?rp pid = Some slot" "sl_tx slot = c" using mine[OF that] mine[OF q(1,2)] by simp
    then show ?thesis using q by auto
  qed auto
  have "slots_ok ?rp' ?ps'"
  proof (rule slots_okI[OF fields(3)])
    show "sl_tx slot < rp_channels ?rp' \<and> (\<exists>j. slot_owner ?rp' ?ps' pid slot j)" if "slot_at ?rp' pid = Some slot" for pid slot
    proof -
      have old: "slot_at ?rp pid = Some slot" "sl_tx slot \<noteq> c" using that at by auto
      from slots_ownedD[OF sl old(1)] obtain k where k: "sl_tx slot < rp_channels ?rp" "slot_owner ?rp ?ps pid slot k" by blast
      have "pr_released (?ps' ! k) = pr_released (?ps ! k)" if "pr_channel (?ps ! k) = Some (sl_tx slot)"
        using that old(2) p by (cases "k = i") auto
      then have "slot_owner ?rp' ?ps' pid slot k"
        using k(2) unfolding slot_owner_def same fields by (auto split: option.splits)
      then show ?thesis using k(1) fields(2) by auto
    qed
    show "pid = pid'" if "slot_at ?rp' pid = Some x" "slot_at ?rp' pid' = Some y" "sl_tx x = sl_tx y" for pid pid' x y
      using that at slots_distinctD[OF sl] by blast
  qed
  moreover have "history_ok (rs_now s) ?ps'" by (rule history_update[OF h]) (simp_all flip: p(1))
  moreover have "owner_ok ?rp' (rs_now s) (rs_fired s) ?ps' k" if k: "k < length ?ps" for k
  proof (cases "pr_channel (?ps ! k)")
    case (Some c')
    show ?thesis
    proof (cases "k = i")
      case True
      then show ?thesis
        using reaper_okD[OF ok i] i p(2) unfolding True owner_ok_def same fields p(1)[symmetric] by simp
    next
      case False
      then have "c' \<noteq> c" using reaper_okD[OF ok k] Some i p unfolding owner_ok_def by auto
      moreover have "pr_released (?ps' ! k) = pr_released (?ps ! k)" using False by simp
      ultimately show ?thesis
        using reaper_okD[OF ok k] Some unfolding owner_ok_def same fields by (auto simp: at)
    qed
  next
    case None
    then have ki: "k \<noteq> i" using p by auto
    have "sl_tx slot \<noteq> c" if w: "pr_watched (?ps ! k)" "pr_delivered (?ps ! k) = Some d"
      and at: "slot_at ?rp (pr_pid (?ps ! k)) = Some slot" "sl_settled_at slot = Some d" for slot d
    proof
      assume "sl_tx slot = c"
      then have own: "pr_pid (?ps ! i) = pr_pid (?ps ! k)" "pr_delivered (?ps ! i) = Some d"
        using mine[OF at(1)] at(2) p(1) by (auto simp: slot_owner_def)
      have "i \<le> k" by (rule pending_last[OF h k i own(1)]) (use w None in simp)
      then have "i < k" using ki by simp
      from history_before[OF h k this own(1)] own(2) have "d < pr_spawned_at (?ps ! k)" by auto
      then show False using history_self(1)[OF h k w(2)] by simp
    qed
    moreover have "pr_released (?ps' ! k) = pr_released (?ps ! k)" using ki by simp
    ultimately show ?thesis
      using reaper_okD[OF ok k] None unfolding owner_ok_def same fields by (fastforce simp: at)
  qed
  moreover have "fired_ok (rs_fired s) ?ps'"
    using f by (auto simp: fired_ok_def same)
  ultimately show ?thesis by (simp add: reaper_ok_def set_proc_def)
qed

lemma exit_keeps:
  assumes ok: "reaper_ok s" and i: "i < length (rs_procs s)" and p: "p = rs_procs s ! i" "pr_status p = None"
  shows "reaper_ok (set_proc i (p\<lparr>pr_status := Some status\<rparr>) s)"
proof -
  let ?ps = "rs_procs s" and ?rp = "rs_reaper s"
  let ?ps' = "?ps[i := p\<lparr>pr_status := Some status\<rparr>]"
  have sl: "slots_ok ?rp ?ps" and h: "history_ok (rs_now s) ?ps" and f: "fired_ok (rs_fired s) ?ps"
    using ok by (simp_all add: reaper_ok_def)
  have pending: "pr_delivered (?ps ! i) = None" using history_self(3)[OF h i] p by (cases "pr_delivered (?ps ! i)") auto
  have same: "pr_channel (?ps' ! j) = pr_channel (?ps ! j)" "pr_pid (?ps' ! j) = pr_pid (?ps ! j)"
      "pr_delivered (?ps' ! j) = pr_delivered (?ps ! j)" "pr_acts (?ps' ! j) = pr_acts (?ps ! j)"
      "pr_watched (?ps' ! j) = pr_watched (?ps ! j)" "pr_released (?ps' ! j) = pr_released (?ps ! j)" for j
    using i p(1) by (cases "j = i"; simp)+
  have status: "pr_status (?ps' ! j) = pr_status (?ps ! j)" if "pr_delivered (?ps ! j) \<noteq> None" for j
    using that pending by (cases "j = i") auto
  have owner: "slot_owner ?rp ?ps' pid slot j" if "slot_owner ?rp ?ps pid slot j" for pid slot j
    using that status[of j] unfolding slot_owner_def same by (auto split: option.splits)
  have "slots_ok ?rp ?ps'" by (rule slots_ok_mono[OF sl owner])
  moreover have "history_ok (rs_now s) ?ps'" by (rule history_update[OF h]) (use p(2) pending in \<open>simp_all flip: p(1)\<close>)
  moreover have "owner_ok ?rp (rs_now s) (rs_fired s) ?ps' k" if "k < length ?ps" for k
    using reaper_okD[OF ok that] status[of k] unfolding owner_ok_def same by (auto split: option.splits)
  moreover have "fired_ok (rs_fired s) ?ps'"
  proof -
    have "pr_status (?ps' ! k) = Some st" if "(k, st) \<in> set (rs_fired s)" for k st
      using f that p by (cases "k = i") (auto simp: fired_ok_def)
    then show ?thesis using f by (auto simp: fired_ok_def)
  qed
  ultimately show ?thesis by (simp add: reaper_ok_def set_proc_def)
qed

lemma spawn_keeps:
  assumes ok: "reaper_ok s" and t: "pr_spawned_at p \<le> rs_now s"
    and before: "\<forall>q\<in>set (rs_procs s). pr_pid q = pr_pid p \<longrightarrow>
       (\<exists>d. pr_delivered q = Some d \<and> d < pr_spawned_at p) \<and> (pr_watched q \<longrightarrow> pr_channel q \<noteq> None)"
    and new: "pr_delivered p = None" "pr_channel p = None" "\<not> pr_released p" "\<not> pr_acts p"
  shows "reaper_ok (s\<lparr>rs_procs := rs_procs s @ [p]\<rparr>)"
proof -
  let ?ps = "rs_procs s" and ?rp = "rs_reaper s"
  have sl: "slots_ok ?rp ?ps" and h: "history_ok (rs_now s) ?ps" and f: "fired_ok (rs_fired s) ?ps"
    using ok by (simp_all add: reaper_ok_def)
  have owner: "slot_owner ?rp (?ps @ [p]) pid slot j" if "slot_owner ?rp ?ps pid slot j" for pid slot j
  proof -
    have "j < length ?ps" using that by (simp add: slot_owner_def)
    then have same: "(?ps @ [p]) ! j = ?ps ! j" by (simp add: nth_append)
    have mine: "k = j" if k: "k < length (?ps @ [p])" "pr_channel ((?ps @ [p]) ! k) = Some (sl_tx slot)" for k
    proof (cases "k < length ?ps")
      case True
      then show ?thesis using k(2) \<open>slot_owner ?rp ?ps pid slot j\<close> by (simp add: nth_append slot_owner_def)
    next
      case False
      then have "k = length ?ps" using k(1) by simp
      then show ?thesis using k(2) new(2) by simp
    qed
    have "j < length (?ps @ [p])" using \<open>j < length ?ps\<close> by simp
    then show ?thesis using that mine unfolding slot_owner_def same by blast
  qed
  have "slots_ok ?rp (?ps @ [p])" by (rule slots_ok_mono[OF sl owner])
  moreover have "history_ok (rs_now s) (?ps @ [p])"
    using h before t new(1) unfolding history_ok_def by (auto simp: nth_append less_Suc_eq)
  moreover have "owner_ok ?rp (rs_now s) (rs_fired s) (?ps @ [p]) k" if "k < length (?ps @ [p])" for k
  proof (cases "k < length ?ps")
    case True
    have "j < length ?ps" if "j < length (?ps @ [p])" "pr_channel ((?ps @ [p]) ! j) \<noteq> None" for j
    proof (rule ccontr)
      assume "\<not> j < length ?ps"
      then have "j = length ?ps" using that(1) by simp
      then show False using that(2) new(2) by simp
    qed
    then show ?thesis
      by (intro owner_ok_same[OF reaper_okD[OF ok True]]) (auto simp: nth_append True)
  next
    case False
    then have k: "k = length ?ps" using that by simp
    then have "(?ps @ [p]) ! k = p" by simp
    note k this
    moreover have "length ?ps \<notin> fst ` set (rs_fired s)" using f by (fastforce simp: fired_ok_def)
    ultimately show ?thesis using new unfolding owner_ok_def by simp
  qed
  moreover have "fired_ok (rs_fired s) (?ps @ [p])"
    using f by (auto simp: fired_ok_def nth_append)
  ultimately show ?thesis by (simp add: reaper_ok_def)
qed

lemma taking_time_keeps:
  assumes ok: "reaper_ok s" and i: "i < length (rs_procs s)" and p: "p = rs_procs s ! i" "pr_delivered p = None"
  shows "reaper_ok (set_proc i (p\<lparr>pr_spawned_at := rs_now s\<rparr>) s)"
proof -
  let ?ps = "rs_procs s" and ?rp = "rs_reaper s"
  let ?ps' = "?ps[i := p\<lparr>pr_spawned_at := rs_now s\<rparr>]"
  have sl: "slots_ok ?rp ?ps" and h: "history_ok (rs_now s) ?ps" and f: "fired_ok (rs_fired s) ?ps"
    using ok by (simp_all add: reaper_ok_def)
  have same: "pr_channel (?ps' ! j) = pr_channel (?ps ! j)" "pr_pid (?ps' ! j) = pr_pid (?ps ! j)"
      "pr_delivered (?ps' ! j) = pr_delivered (?ps ! j)" "pr_acts (?ps' ! j) = pr_acts (?ps ! j)"
      "pr_watched (?ps' ! j) = pr_watched (?ps ! j)" "pr_released (?ps' ! j) = pr_released (?ps ! j)"
      "pr_status (?ps' ! j) = pr_status (?ps ! j)" for j
    using i p(1) by (cases "j = i"; simp)+
  have later: "pr_spawned_at (?ps ! j) \<le> pr_spawned_at (?ps' ! j) \<and> pr_spawned_at (?ps' ! j) \<le> rs_now s"
    if "j < length ?ps" for j
    using h that i by (cases "j = i") (simp_all add: history_ok_def)
  have taken: "pr_spawned_at (?ps' ! j) = pr_spawned_at (?ps ! j)" if "pr_delivered (?ps ! j) = Some d" for j d
    using that p by (cases "j = i") auto
  have "slots_ok ?rp ?ps'" by (rule slots_ok_mono[OF sl]) (unfold slot_owner_def same length_list_update)
  moreover have "history_ok (rs_now s) ?ps'"
  proof -
    have "(\<exists>d. pr_delivered (?ps ! j) = Some d \<and> d < pr_spawned_at (?ps' ! k)) \<and>
        (pr_watched (?ps ! j) \<longrightarrow> pr_channel (?ps ! j) \<noteq> None)"
      if "k < length ?ps" "j < k" "pr_pid (?ps ! j) = pr_pid (?ps ! k)" for j k
    proof -
      from history_before[OF h that] obtain d where d: "pr_delivered (?ps ! j) = Some d" "d < pr_spawned_at (?ps ! k)"
        "pr_watched (?ps ! j) \<longrightarrow> pr_channel (?ps ! j) \<noteq> None" by blast
      then have "d < pr_spawned_at (?ps' ! k)" using later[OF that(1)] by linarith
      then show ?thesis using d by blast
    qed
    moreover have "pr_spawned_at (?ps' ! k) \<le> d \<and> d \<le> rs_now s \<and> pr_status (?ps ! k) \<noteq> None"
      if "k < length ?ps" "pr_delivered (?ps ! k) = Some d" for k d
      using history_self[OF h that] taken[OF that(2)] by simp
    ultimately show ?thesis using later unfolding history_ok_def same by simp
  qed
  moreover have "owner_ok ?rp (rs_now s) (rs_fired s) ?ps' k" if "k < length ?ps" for k
    using reaper_okD[OF ok that] unfolding owner_ok_def same by (simp split: option.splits)
  moreover have "fired_ok (rs_fired s) ?ps'" using f by (simp add: fired_ok_def same)
  ultimately show ?thesis by (simp add: reaper_ok_def set_proc_def)
qed

lemma time_keeps:
  assumes "reaper_ok s" "rs_now s \<le> now"
  shows "reaper_ok (s\<lparr>rs_now := now\<rparr>)"
proof -
  have "history_ok now (rs_procs s)"
    using assms unfolding reaper_ok_def history_ok_def by fastforce
  moreover have "owner_ok (rs_reaper s) now (rs_fired s) (rs_procs s) i" if "i < length (rs_procs s)" for i
    using reaper_okD[OF assms(1) that] assms(2) unfolding owner_ok_def by (auto split: option.splits)
  ultimately show ?thesis using assms(1) by (simp add: reaper_ok_def)
qed

text \<open>What a registration leaves in the table.\<close>

lemma drop_recycled_facts:
  "distinct (map fst (rp_slots rp)) \<Longrightarrow> distinct (map fst (rp_slots (drop_recycled pid t rp)))"
  "rp_values (drop_recycled pid t rp) = rp_values rp" "rp_channels (drop_recycled pid t rp) = rp_channels rp"
  "q \<noteq> pid \<Longrightarrow> slot_at (drop_recycled pid t rp) q = slot_at rp q"
  using drop_recycled_cases[of pid t rp] by auto

lemma registration_keeps:
  assumes ok: "reaper_ok s" and i: "i < length (rs_procs s)" and p: "p = rs_procs s ! i" "pr_watched p" "pr_channel p = None"
      "\<forall>d. pr_delivered p = Some d \<longrightarrow> rs_now s - d < REAPED_TTL"
    and a: "acquire (pr_pid p) (pr_spawned_at p) (rs_reaper s) = (rp, slot)"
    and rp': "rp' = put_slot (pr_pid p) (slot\<lparr>sl_stray_since := None,
        sl_action := if acts \<and> rp_values rp (sl_tx slot) = None then Some i else sl_action slot\<rparr>) rp"
    and fired: "fired = rs_fired s @ (if acts then case rp_values rp (sl_tx slot) of None \<Rightarrow> [] | Some status \<Rightarrow> [(i, status)] else [])"
  shows "reaper_ok (set_proc i (p\<lparr>pr_channel := Some (sl_tx slot), pr_acts := acts\<rparr>) (s\<lparr>rs_reaper := rp', rs_fired := fired\<rparr>))"
proof (cases "pr_delivered p")
  case None
  let ?rp = "rs_reaper s" and ?dr = "drop_recycled (pr_pid p) (pr_spawned_at p) (rs_reaper s)"
  have keys: "distinct (map fst (rp_slots ?rp))" using ok by (simp add: reaper_ok_def slots_ok_def)
  note facts = drop_recycled_facts(1)[OF keys, of "pr_pid p" "pr_spawned_at p"] drop_recycled_facts(2-4)
  have free: "slot_at ?dr (pr_pid p) = None" using acquire_pending[OF ok i p(1-3) None] .
  from a have new: "slot = fresh_slot None (rp_channels ?rp)"
      "rp = ?dr\<lparr>rp_slots := AList.update (pr_pid p) slot (rp_slots ?dr),
        rp_values := (rp_values ?rp)(rp_channels ?rp := None), rp_channels := Suc (rp_channels ?rp)\<rparr>"
    by (auto simp: acquire_def get_fresh[OF free] facts)
  have "slot_at rp' = (slot_at ?rp)(pr_pid p \<mapsto> (fresh_slot None (rp_channels ?rp))\<lparr>sl_action := if acts then Some i else None\<rparr>)"
    by (rule ext) (simp add: rp' new update_conv' facts fresh_slot_def)
  moreover have "distinct (map fst (rp_slots rp'))" by (simp add: rp' new distinct_update facts)
  moreover have "rp_channels rp' = Suc (rp_channels ?rp)" "rp_values rp' = (rp_values ?rp)(rp_channels ?rp := None)"
    by (simp_all add: rp' new)
  moreover have "sl_tx slot = rp_channels ?rp" "fired = rs_fired s" by (simp_all add: fired new fresh_slot_def)
  ultimately show ?thesis using claim_pending[OF ok i p(1-3) None, of rp' acts] by simp
next
  case (Some d)
  then obtain x where x: "slot_at (rs_reaper s) (pr_pid p) = Some x" "sl_settled_at x = Some d"
      "slot_owner (rs_reaper s) (rs_procs s) (pr_pid p) x i" "acquire (pr_pid p) (pr_spawned_at p) (rs_reaper s) = (rs_reaper s, x)"
    using acquire_settled[OF ok i p(1-3)] p(4) by blast
  have "history_ok (rs_now s) (rs_procs s)" using ok by (simp add: reaper_ok_def)
  from history_self(3)[OF this i] Some p(1) obtain status where status: "pr_status p = Some status" by auto
  have eq: "slot = x" "rp = rs_reaper s" using a x(4) by simp_all
  have v: "rp_values rp (sl_tx x) = Some status" "sl_action x = None"
    using x(2,3) status p(1) by (simp_all add: slot_owner_def eq)
  have same: "x\<lparr>sl_stray_since := None, sl_action := None\<rparr> = x\<lparr>sl_stray_since := None\<rparr>"
    using v(2) by (intro slot.equality) simp_all
  have "fired = rs_fired s @ (if acts then [(i, status)] else [])" by (simp add: fired eq v[unfolded eq])
  then show ?thesis
    using claim_settled[OF ok i p(1-3) Some status x(1-3), of fired acts] by (cases acts) (simp_all add: rp' eq v[unfolded eq] same)
qed

lemma delivery_keeps:
  assumes ok: "reaper_ok s" and i: "i < length (rs_procs s)" and p: "p = rs_procs s ! i" "pr_delivered p = None"
      "pr_status p = Some status"
    and d: "reaper_deliver (pr_pid p) status (rs_now s) (rs_reaper s) = (rp', action)"
  shows "reaper_ok (set_proc i (p\<lparr>pr_delivered := Some (rs_now s)\<rparr>) (s\<lparr>rs_reaper := rp',
    rs_fired := rs_fired s @ (case action of None \<Rightarrow> [] | Some a \<Rightarrow> [(a, status)])\<rparr>))"
proof (cases "\<exists>slot. slot_at (rs_reaper s) (pr_pid p) = Some slot \<and> sl_settled_at slot = None")
  case True
  then obtain slot where slot: "slot_at (rs_reaper s) (pr_pid p) = Some slot" "sl_settled_at slot = None" by blast
  then have "rp' = put_slot (pr_pid p) (slot\<lparr>sl_settled_at := Some (rs_now s), sl_action := None\<rparr>)
      ((rs_reaper s)\<lparr>rp_values := (rp_values (rs_reaper s))(sl_tx slot := Some status)\<rparr>)" "action = sl_action slot"
    using d by (simp_all add: reaper_deliver_def get_slot_def Let_def)
  then show ?thesis using deliver_waiting[OF ok i p slot] by simp
next
  case False
  let ?rp = "rs_reaper s" and ?C = "rp_channels (rs_reaper s)"
  define gone where "gone = (if slot_at ?rp (pr_pid p) = None then ?rp else remove_slot (pr_pid p) ?rp)"
  have keys: "distinct (map fst (rp_slots ?rp))" using ok by (simp add: reaper_ok_def slots_ok_def)
  have gone: "slot_at gone = (slot_at ?rp)(pr_pid p := None)" "rp_values gone = rp_values ?rp" "rp_channels gone = ?C"
      "distinct (map fst (rp_slots gone))"
    using keys by (auto simp: gone_def fun_upd_idem)
  have free: "slot_at (prune_stale (rs_now s) gone) (pr_pid p) = None"
    by (simp add: map_of_prune[OF gone(4)] gone(1))
  have "(rp', action) = (let (rp, slot) = get_slot (pr_pid p) (Some (rs_now s)) (prune_stale (rs_now s) gone);
          rp = rp\<lparr>rp_values := (rp_values rp)(sl_tx slot := Some status)\<rparr>
      in (put_slot (pr_pid p) (slot\<lparr>sl_settled_at := Some (rs_now s), sl_action := None\<rparr>) rp, sl_action slot))"
    using d False by (auto simp: reaper_deliver_def gone_def split: option.splits)
  then have new: "rp' = put_slot (pr_pid p) ((fresh_slot (Some (rs_now s)) ?C)\<lparr>sl_settled_at := Some (rs_now s)\<rparr>)
      ((prune_stale (rs_now s) gone)\<lparr>rp_slots := AList.update (pr_pid p) (fresh_slot (Some (rs_now s)) ?C)
          (rp_slots (prune_stale (rs_now s) gone)),
        rp_channels := Suc ?C, rp_values := (rp_values ?rp)(?C := Some status)\<rparr>)" "action = None"
    by (simp_all add: get_fresh[OF free] gone fresh_slot_def)
  have "slot_at rp' = (\<lambda>pid. if pid = pr_pid p
         then Some (fresh_slot (Some (rs_now s)) ?C \<lparr>sl_settled_at := Some (rs_now s)\<rparr>)
         else slot_at (prune_stale (rs_now s) ?rp) pid)"
    by (rule ext) (simp add: new update_conv' map_of_prune[OF gone(4)] map_of_prune[OF keys] gone(1))
  moreover have "distinct (map fst (rp_slots rp'))" using gone(4) by (simp add: new distinct_update)
  moreover have "rp_channels rp' = Suc ?C" "rp_values rp' = (rp_values ?rp)(?C := Some status)" by (simp_all add: new)
  moreover have "sl_settled_at slot \<noteq> None" if "slot_at ?rp (pr_pid p) = Some slot" for slot using False that by simp
  ultimately show ?thesis using deliver_early[OF ok i p, of rp'] by (simp add: new(2))
qed

lemma register_acquire:
  assumes "reaper_register pid t rp = (rp', c)"
  obtains rp1 slot where "acquire pid t rp = (rp1, slot)" "c = sl_tx slot"
    "rp' = put_slot pid (slot\<lparr>sl_stray_since := None, sl_action := sl_action slot\<rparr>) rp1"
  using assms by (auto simp: reaper_register_def acquire_def Let_def split: prod.splits)

lemma on_exit_acquire:
  assumes "reaper_on_exit pid t a rp = (rp', c, fire_with)"
  obtains rp1 slot where "acquire pid t rp = (rp1, slot)" "c = sl_tx slot" "fire_with = rp_values rp1 (sl_tx slot)"
    "rp' = put_slot pid (slot\<lparr>sl_stray_since := None,
       sl_action := if rp_values rp1 (sl_tx slot) = None then Some a else sl_action slot\<rparr>) rp1"
  using assms by (auto simp: reaper_on_exit_def acquire_def Let_def split: prod.splits)

text \<open>Once a process was not orderly it stays so: in an orderly state every step before was orderly.\<close>

lemma all_orderly_update:
  assumes "i < length (rs_procs s)" "rs_procs s ! i = p" "pr_orderly p' \<longrightarrow> pr_orderly p"
    and s': "rs_procs s' = rs_procs s" "all_orderly (set_proc i p' s')"
  shows "all_orderly s" "pr_orderly p'"
proof -
  have all: "pr_orderly ((rs_procs s)[i := p'] ! j)" if "j < length (rs_procs s)" for j
    using s' that by (simp add: all_orderly_def set_proc_def all_set_conv_all_nth)
  then show p': "pr_orderly p'" using assms(1) by fastforce
  have "pr_orderly (rs_procs s ! j)" if "j < length (rs_procs s)" for j
    using all[OF that] assms(1-3) p' by (cases "j = i") simp_all
  then show "all_orderly s" by (simp add: all_orderly_def all_set_conv_all_nth)
qed

lemma orderly_before: "reaper_step s s' \<Longrightarrow> all_orderly s' \<Longrightarrow> all_orderly s"
proof (induction rule: reaper_step.induct)
  case (passes s now)
  then show ?case by (simp add: all_orderly_def)
next
  case (spawns t s pid watched)
  then show ?case by (simp add: all_orderly_def)
next
  case (takes_time i s p)
  from this(1,2) _ _ this(4) show ?case by (rule all_orderly_update(1)) simp_all
next
  case (exits i s p status)
  from this(1,2) _ _ this(4) show ?case by (rule all_orderly_update(1)) simp_all
next
  case (delivers i s p status rp action)
  from this(1,2) _ _ this(6) show ?case by (rule all_orderly_update(1)) simp_all
next
  case (registers i s p rp c)
  from this(1,2) _ _ this(6) show ?case by (rule all_orderly_update(1)) simp_all
next
  case (on_exits i s p rp c fire_with)
  from this(1,2) _ _ this(6) show ?case by (rule all_orderly_update(1)) simp_all
next
  case (releases i s p c)
  from this(1,2) _ _ this(4) show ?case by (rule all_orderly_update(1)) simp_all
qed

lemma asks_in_timeD: "asks_in_time s p \<Longrightarrow> \<forall>d. pr_delivered p = Some d \<longrightarrow> rs_now s - d < REAPED_TTL"
  by (simp add: asks_in_time_def split: option.splits)

lemma reaper_step_keeps: "reaper_step s s' \<Longrightarrow> all_orderly s' \<Longrightarrow> reaper_ok s \<Longrightarrow> reaper_ok s'"
proof (induction rule: reaper_step.induct)
  case (passes s now)
  then show ?case by (intro time_keeps)
next
  case (spawns t s pid watched)
  then have "succeeds_orderly s pid t" by (simp add: all_orderly_def)
  then show ?case using spawns(1,4) by (intro spawn_keeps) (simp_all add: succeeds_orderly_def)
next
  case (takes_time i s p)
  have "pr_orderly p" and d: "pr_delivered p = None"
    using all_orderly_update[OF takes_time(1,2) _ _ takes_time(4)] takes_time(1,2)
    by (simp_all add: all_orderly_def all_set_conv_all_nth)
  then have same: "p\<lparr>pr_spawned_at := rs_now s, pr_orderly := pr_orderly p \<and> pr_delivered p = None\<rparr> =
      p\<lparr>pr_spawned_at := rs_now s\<rparr>"
    by (intro process.equality) simp_all
  show ?case unfolding same by (rule taking_time_keeps[OF takes_time(5,1) takes_time(2)[symmetric] d])
next
  case (exits i s p status)
  then show ?case by (intro exit_keeps) simp_all
next
  case (delivers i s p status rp action)
  then show ?case by (intro delivery_keeps) simp_all
next
  case (registers i s p rp c)
  have acts: "\<not> pr_acts p" using reaper_okD[OF registers(7,1)] registers(2,4) by (simp add: owner_ok_def)
  have timely: "pr_orderly p" "asks_in_time s p"
    using all_orderly_update(2)[OF registers(1,2) _ _ registers(6)] by simp_all
  from register_acquire[OF registers(5)] obtain rp1 slot where
    a: "acquire (pr_pid p) (pr_spawned_at p) (rs_reaper s) = (rp1, slot)" "c = sl_tx slot"
      "rp = put_slot (pr_pid p) (slot\<lparr>sl_stray_since := None, sl_action := sl_action slot\<rparr>) rp1" .
  have "p\<lparr>pr_channel := Some c, pr_acts := False\<rparr> = p\<lparr>pr_channel := Some c, pr_orderly := pr_orderly p \<and> asks_in_time s p\<rparr>"
    using acts timely by simp
  then show ?case
    using registration_keeps[OF registers(7,1) registers(2)[symmetric] registers(3,4) asks_in_timeD[OF timely(2)] a(1),
      of rp False "rs_fired s"] a(2,3) by simp
next
  case (on_exits i s p rp c fire_with)
  have timely: "pr_orderly p" "asks_in_time s p"
    using all_orderly_update(2)[OF on_exits(1,2) _ _ on_exits(6)] by simp_all
  from on_exit_acquire[OF on_exits(5)] obtain rp1 slot where
    a: "acquire (pr_pid p) (pr_spawned_at p) (rs_reaper s) = (rp1, slot)" "c = sl_tx slot" "fire_with = rp_values rp1 (sl_tx slot)"
      "rp = put_slot (pr_pid p) (slot\<lparr>sl_stray_since := None,
         sl_action := if rp_values rp1 (sl_tx slot) = None then Some i else sl_action slot\<rparr>) rp1" .
  have "p\<lparr>pr_channel := Some c, pr_acts := True, pr_orderly := pr_orderly p \<and> asks_in_time s p\<rparr> =
      p\<lparr>pr_channel := Some c, pr_acts := True\<rparr>" using timely by simp
  then show ?case
    using registration_keeps[OF on_exits(7,1) on_exits(2)[symmetric] on_exits(3,4) asks_in_timeD[OF timely(2)] a(1), of rp True] a(2-4)
    by simp
next
  case (releases i s p c)
  then show ?case by (intro release_keeps) simp_all
qed

lemma reaper_reachable_ok: "reaper_reachable s \<Longrightarrow> all_orderly s \<Longrightarrow> reaper_ok s"
proof (induction rule: reaper_reachable.induct)
  case start
  show ?case
    by (simp add: reaper_ok_def slots_ok_def history_ok_def fired_ok_def reaper_new_def)
next
  case (step s s')
  then show ?case using reaper_step_keeps orderly_before by blast
qed

lemma fired_owner:
  assumes "owner_ok rp now fired ps i" "i \<in> fst ` set fired"
  shows "pr_acts (ps ! i) \<and> pr_delivered (ps ! i) \<noteq> None"
  using assms unfolding owner_ok_def by (cases "pr_channel (ps ! i)") simp_all

lemma owner_fired:
  assumes "owner_ok rp now fired ps i" "pr_acts (ps ! i)" "pr_delivered (ps ! i) \<noteq> None" "\<not> pr_released (ps ! i)"
  shows "i \<in> fst ` set fired"
  using assms unfolding owner_ok_def by (cases "pr_channel (ps ! i)") simp_all

section \<open>Properties\<close>

text \<open>
  C7. As long as every identifier was recycled in order (the exits of its earlier holders delivered before
  the spawn time the new owner took, and asked for by then) and every owner took that time before its
  process's exit was delivered and asks within \<open>REAPED_TTL\<close> of it, then in any order of spawns, exits, deliveries, registrations and releases, for an owner that holds the
  channel of its process: what the channel shows is that process's exit and no other's, it shows it as
  soon as the exit was delivered unless the owner gave up the slot, and no other owner holds that channel.
\<close>

theorem exits_reach_their_owner:
  assumes "reaper_reachable s" "all_orderly s" "i < length (rs_procs s)" "pr_channel (rs_procs s ! i) = Some c"
  shows "(\<forall>status. rp_values (rs_reaper s) c = Some status \<longrightarrow> pr_status (rs_procs s ! i) = Some status) \<and>
    (pr_delivered (rs_procs s ! i) \<noteq> None \<and> \<not> pr_released (rs_procs s ! i) \<longrightarrow> has_exited c (rs_reaper s)) \<and>
    (\<forall>j<length (rs_procs s). pr_channel (rs_procs s ! j) = Some c \<longrightarrow> j = i)"
  using reaper_okD[OF reaper_reachable_ok[OF assms(1,2)] assms(3)] assms(4)
  by (auto simp: owner_ok_def has_exited_def)

text \<open>
  C28. As long as identifiers are recycled in order and owners take the time and ask in time, an action is run at most once
  and only with the exit of the process it was parked for; it has been run as soon as that exit was
  delivered unless the owner gave up the slot, whether the exit or the registration came first.
\<close>

theorem actions_run_once:
  assumes "reaper_reachable s" "all_orderly s"
  shows "distinct (map fst (rs_fired s)) \<and>
    (\<forall>(i, status)\<in>set (rs_fired s). i < length (rs_procs s) \<and> pr_acts (rs_procs s ! i) \<and>
      pr_delivered (rs_procs s ! i) \<noteq> None \<and> pr_status (rs_procs s ! i) = Some status) \<and>
    (\<forall>i<length (rs_procs s). pr_acts (rs_procs s ! i) \<and> pr_delivered (rs_procs s ! i) \<noteq> None \<and>
      \<not> pr_released (rs_procs s ! i) \<longrightarrow> i \<in> fst ` set (rs_fired s))"
proof (intro conjI)
  have ok: "reaper_ok s" and f: "fired_ok (rs_fired s) (rs_procs s)"
    using reaper_reachable_ok[OF assms(1,2)] by (simp_all add: reaper_ok_def)
  show "distinct (map fst (rs_fired s))" using f by (simp add: fired_ok_def)
  show "\<forall>(i, status)\<in>set (rs_fired s). i < length (rs_procs s) \<and> pr_acts (rs_procs s ! i) \<and>
      pr_delivered (rs_procs s ! i) \<noteq> None \<and> pr_status (rs_procs s ! i) = Some status"
  proof (clarify, intro conjI)
    fix i status assume mem: "(i, status) \<in> set (rs_fired s)"
    then show i: "i < length (rs_procs s)" and "pr_status (rs_procs s ! i) = Some status"
      using f by (auto simp: fired_ok_def)
    have "i \<in> fst ` set (rs_fired s)" using mem by force
    with fired_owner[OF reaper_okD[OF ok i]] show "pr_acts (rs_procs s ! i)" "pr_delivered (rs_procs s ! i) \<noteq> None"
      by blast+
  qed
  show "\<forall>i<length (rs_procs s). pr_acts (rs_procs s ! i) \<and> pr_delivered (rs_procs s ! i) \<noteq> None \<and>
      \<not> pr_released (rs_procs s ! i) \<longrightarrow> i \<in> fst ` set (rs_fired s)"
    using owner_fired[OF reaper_okD[OF ok]] by blast
qed

section \<open>A run\<close>

text \<open>
  Identifier 7 first belongs to a stray, whose exit nobody asked for; its next holder is watched from
  before its exit, with an action.
\<close>

definition stray_process :: process where
  "stray_process = \<lparr>pr_pid = 7, pr_spawned_at = 0, pr_watched = False, pr_status = Some (ExitCode 1),
     pr_delivered = Some 0, pr_channel = None, pr_released = False, pr_acts = False,
     pr_orderly = True\<rparr>"

definition watched_process :: "exit_status option \<Rightarrow> nat option \<Rightarrow> nat option \<Rightarrow> process" where
  "watched_process status delivered channel = \<lparr>pr_pid = 7, pr_spawned_at = 1, pr_watched = True, pr_status = status,
     pr_delivered = delivered, pr_channel = channel, pr_released = False, pr_acts = (channel \<noteq> None),
     pr_orderly = True\<rparr>"

definition example_reaper :: "nat slot \<Rightarrow> (nat \<Rightarrow> exit_status option) \<Rightarrow> nat \<Rightarrow> nat reaper" where
  "example_reaper slot values channels = \<lparr>rp_slots = [(7, slot)], rp_values = values, rp_channels = channels\<rparr>"

lemmas example_defs = succeeds_orderly_def asks_in_time_def all_orderly_def stray_process_def watched_process_def example_reaper_def set_proc_def reaper_new_def

lemma stray_exits:
  "reaper_reachable \<lparr>rs_reaper = example_reaper \<lparr>sl_tx = 0, sl_stray_since = Some 0, sl_settled_at = Some 0, sl_action = None\<rparr>
     [0 \<mapsto> ExitCode 1] 1, rs_procs = [stray_process], rs_fired = [], rs_now = 2\<rparr>"
proof -
  have "reaper_reachable \<lparr>rs_reaper = reaper_new, rs_procs = [stray_process\<lparr>pr_status := None, pr_delivered := None\<rparr>],
      rs_fired = [], rs_now = 0\<rparr>"
    using reaper_reachable.step[OF start spawns[of 0 _ 7 False]] by (simp add: example_defs)
  from reaper_reachable.step[OF this exits[of 0 _ _ "ExitCode 1", OF _ refl]]
  have "reaper_reachable \<lparr>rs_reaper = reaper_new, rs_procs = [stray_process\<lparr>pr_delivered := None\<rparr>], rs_fired = [], rs_now = 0\<rparr>"
    by (simp add: example_defs)
  from reaper_reachable.step[OF this delivers[of 0 _ _ "ExitCode 1" "example_reaper
    \<lparr>sl_tx = 0, sl_stray_since = Some 0, sl_settled_at = Some 0, sl_action = None\<rparr> [0 \<mapsto> ExitCode 1] 1" None, OF _ refl]]
  have "reaper_reachable \<lparr>rs_reaper = example_reaper \<lparr>sl_tx = 0, sl_stray_since = Some 0, sl_settled_at = Some 0, sl_action = None\<rparr>
     [0 \<mapsto> ExitCode 1] 1, rs_procs = [stray_process], rs_fired = [], rs_now = 0\<rparr>"
    by (simp add: example_defs reaper_deliver_def get_slot_def put_slot_def Let_def prune_stale_def)
  from reaper_reachable.step[OF this passes[of _ 2]] show ?thesis by simp
qed

lemma example_run:
  "reaper_reachable \<lparr>rs_reaper = example_reaper \<lparr>sl_tx = 1, sl_stray_since = None, sl_settled_at = Some 2, sl_action = None\<rparr>
     [0 \<mapsto> ExitCode 1, 1 \<mapsto> ExitSignal 9] 2,
     rs_procs = [stray_process, watched_process (Some (ExitSignal 9)) (Some 2) (Some 1)], rs_fired = [(1, ExitSignal 9)], rs_now = 2\<rparr>"
proof -
  from reaper_reachable.step[OF stray_exits spawns[of 1 _ 7 True]]
  have "reaper_reachable \<lparr>rs_reaper = example_reaper \<lparr>sl_tx = 0, sl_stray_since = Some 0, sl_settled_at = Some 0, sl_action = None\<rparr>
     [0 \<mapsto> ExitCode 1] 1, rs_procs = [stray_process, watched_process None None None], rs_fired = [], rs_now = 2\<rparr>"
    by (simp add: example_defs)
  from reaper_reachable.step[OF this on_exits[of 1 _ _ "example_reaper
    \<lparr>sl_tx = 1, sl_stray_since = None, sl_settled_at = None, sl_action = Some 1\<rparr> [0 \<mapsto> ExitCode 1] 2" 1 None, OF _ refl]]
  have "reaper_reachable \<lparr>rs_reaper = example_reaper \<lparr>sl_tx = 1, sl_stray_since = None, sl_settled_at = None, sl_action = Some 1\<rparr>
     [0 \<mapsto> ExitCode 1] 2, rs_procs = [stray_process, watched_process None None (Some 1)], rs_fired = [], rs_now = 2\<rparr>"
    by (simp add: example_defs reaper_on_exit_def drop_recycled_def remove_slot_def get_slot_def put_slot_def Let_def)
  from reaper_reachable.step[OF this exits[of 1 _ _ "ExitSignal 9", OF _ refl]]
  have "reaper_reachable \<lparr>rs_reaper = example_reaper \<lparr>sl_tx = 1, sl_stray_since = None, sl_settled_at = None, sl_action = Some 1\<rparr>
     [0 \<mapsto> ExitCode 1] 2, rs_procs = [stray_process, watched_process (Some (ExitSignal 9)) None (Some 1)], rs_fired = [], rs_now = 2\<rparr>"
    by (simp add: example_defs)
  from reaper_reachable.step[OF this delivers[of 1 _ _ "ExitSignal 9" "example_reaper
    \<lparr>sl_tx = 1, sl_stray_since = None, sl_settled_at = Some 2, sl_action = None\<rparr> [0 \<mapsto> ExitCode 1, 1 \<mapsto> ExitSignal 9] 2" "Some 1",
    OF _ refl]]
  show ?thesis by (simp add: example_defs reaper_deliver_def get_slot_def put_slot_def Let_def)
qed

lemma example_orderly:
  "all_orderly \<lparr>rs_reaper = rp, rs_procs = [stray_process, watched_process status delivered channel], rs_fired = fired,
     rs_now = now\<rparr>"
  by (simp add: example_defs)

theorem exits_reach_their_owner_witness:
  "\<exists>s. reaper_reachable s \<and> all_orderly s \<and> pr_channel (rs_procs s ! 1) = Some 1 \<and> pr_delivered (rs_procs s ! 1) \<noteq> None \<and>
     has_exited 1 (rs_reaper s) \<and> rp_values (rs_reaper s) 1 = Some (ExitSignal 9) \<and>
     pr_status (rs_procs s ! 1) = Some (ExitSignal 9)"
proof (rule exI, intro conjI)
  note run = exits_reach_their_owner[OF example_run example_orderly, of 1 1]
  show "has_exited 1 (rs_reaper \<lparr>rs_reaper = example_reaper \<lparr>sl_tx = 1, sl_stray_since = None, sl_settled_at = Some 2,
      sl_action = None\<rparr> [0 \<mapsto> ExitCode 1, 1 \<mapsto> ExitSignal 9] 2,
      rs_procs = [stray_process, watched_process (Some (ExitSignal 9)) (Some 2) (Some 1)], rs_fired = [(1, ExitSignal 9)], rs_now = 2\<rparr>)"
    using run by (simp add: watched_process_def)
qed (use example_run in \<open>simp_all add: example_defs\<close>)

theorem actions_run_once_witness:
  "\<exists>s. reaper_reachable s \<and> all_orderly s \<and> rs_fired s = [(1, ExitSignal 9)] \<and> pr_acts (rs_procs s ! 1) \<and>
     pr_status (rs_procs s ! 1) = Some (ExitSignal 9)"
proof (rule exI, intro conjI)
  show "pr_acts (rs_procs \<lparr>rs_reaper = example_reaper \<lparr>sl_tx = 1, sl_stray_since = None, sl_settled_at = Some 2,
      sl_action = None\<rparr> [0 \<mapsto> ExitCode 1, 1 \<mapsto> ExitSignal 9] 2,
      rs_procs = [stray_process, watched_process (Some (ExitSignal 9)) (Some 2) (Some 1)], rs_fired = [(1, ExitSignal 9)], rs_now = 2\<rparr> ! 1)"
    using actions_run_once[OF example_run example_orderly] by simp
qed (use example_run in \<open>simp_all add: example_defs\<close>)

section \<open>An identifier recycled during a spawn\<close>





end
