(* ===== verification/Exec_State.thy ===== *)
theory Exec_State
  imports Exec_Registry Reaper
begin

text \<open>
  One execution of the guest agent, \<open>ExecutionState\<close> of \<open>src/src/guest/src/service/exec/state.rs\<close>: its
  handle, the tasks that feed and forward it, its timeout, its exit and its release; with the identity
  of its process (\<open>process_instance.rs\<close>), the timeout watcher (\<open>timeout.rs\<close>) and the errors
  (\<open>error.rs\<close>).

  A spawned task is an index into a list of tasks. The kernel, the container's health checker and the
  \<open>ioctl\<close> of a terminal are parameters. \<open>Exec_Output\<close> has what an attached stream yields; here it is
  the lease it holds and the task that forwards it.
\<close>

section \<open>Errors\<close>

datatype 'status execution_error =
    NotFound string
  | HandleUnavailable
  | StdinTaken
  | AlreadyAttached
  | NotAPty
  | InvalidArgument string
  | IoError string
  | InputError 'status

definition execution_message :: "('status \<Rightarrow> string) \<Rightarrow> 'status execution_error \<Rightarrow> string" where
  "execution_message show_status e = (case e of
     NotFound i \<Rightarrow> ''execution not found: '' @ i
   | HandleUnavailable \<Rightarrow> ''execution handle is no longer available''
   | StdinTaken \<Rightarrow> ''execution stdin was already taken''
   | AlreadyAttached \<Rightarrow> ''execution output is already attached''
   | NotAPty \<Rightarrow> ''execution was not started with a PTY''
   | InvalidArgument detail \<Rightarrow> ''invalid argument: '' @ detail
   | IoError detail \<Rightarrow> ''execution I/O failed: '' @ detail
   | InputError status \<Rightarrow> ''execution input stream failed: '' @ show_status status)"

record 'status status_ops =
  st_not_found :: "string \<Rightarrow> 'status"
  st_failed_precondition :: "string \<Rightarrow> 'status"
  st_already_exists :: "string \<Rightarrow> 'status"
  st_invalid_argument :: "string \<Rightarrow> 'status"
  st_internal :: "string \<Rightarrow> 'status"
  st_show :: "'status \<Rightarrow> string"

definition execution_status :: "'status status_ops \<Rightarrow> 'status execution_error \<Rightarrow> 'status" where
  "execution_status so e = (let message = execution_message (st_show so) e in case e of
     InputError status \<Rightarrow> status
   | NotFound _ \<Rightarrow> st_not_found so message
   | HandleUnavailable \<Rightarrow> st_failed_precondition so message
   | NotAPty \<Rightarrow> st_failed_precondition so message
   | StdinTaken \<Rightarrow> st_already_exists so message
   | AlreadyAttached \<Rightarrow> st_already_exists so message
   | InvalidArgument _ \<Rightarrow> st_invalid_argument so message
   | IoError _ \<Rightarrow> st_internal so message)"

section \<open>The identity of a process\<close>

type_synonym signal = nat

definition SIGKILL :: signal where "SIGKILL = 9"
definition SIGTERM :: signal where "SIGTERM = 15"

datatype errno = ESRCH | OtherErrno nat

record 'k os_ops =
  os_start_time :: "'k \<Rightarrow> pid \<Rightarrow> u64 option"
  os_getpgid :: "'k \<Rightarrow> pid \<Rightarrow> errno + pid"
  os_kill :: "pid \<Rightarrow> signal \<Rightarrow> 'k \<Rightarrow> 'k \<times> (errno + unit)"

record process_instance =
  pi_pid :: pid
  pi_start_time :: u64

definition instance_capture :: "'k os_ops \<Rightarrow> 'k \<Rightarrow> pid \<Rightarrow> process_instance option" where
  "instance_capture os k p = map_option (\<lambda>start. \<lparr>pi_pid = p, pi_start_time = start\<rparr>) (os_start_time os k p)"

definition instance_is_current :: "'k os_ops \<Rightarrow> 'k \<Rightarrow> process_instance \<Rightarrow> bool" where
  "instance_is_current os k pr \<longleftrightarrow> os_start_time os k (pi_pid pr) = Some (pi_start_time pr)"

text \<open>
  \<open>ProcessInstance::signal\<close>, one system call a turn: the check of the start time, \<open>getpgid\<close> for a group, and
  \<open>kill\<close>. Anything may happen to the kernel between two turns.
\<close>

datatype signalling = SigCheck | SigTarget | SigKill pid | SigDone "errno + bool"

fun signal_turn :: "'k os_ops \<Rightarrow> process_instance \<Rightarrow> signal \<Rightarrow> bool \<Rightarrow> signalling \<Rightarrow> 'k \<Rightarrow> 'k \<times> signalling" where
  "signal_turn os pr sig process_group SigCheck k =
     (k, if \<not> instance_is_current os k pr then SigDone (Inr False)
         else if process_group then SigTarget else SigKill (pi_pid pr))"
| "signal_turn os pr sig process_group SigTarget k =
     (k, case os_getpgid os k (pi_pid pr) of
           Inr leader \<Rightarrow> if leader = pi_pid pr then SigKill (- pi_pid pr) else SigDone (Inr False)
         | Inl ESRCH \<Rightarrow> SigDone (Inr False)
         | Inl error \<Rightarrow> SigDone (Inl error))"
| "signal_turn os pr sig process_group (SigKill target) k =
     (case os_kill os target sig k of
        (k, Inr _) \<Rightarrow> (k, SigDone (Inr True))
      | (k, Inl ESRCH) \<Rightarrow> (k, SigDone (Inr False))
      | (k, Inl error) \<Rightarrow> (k, SigDone (Inl error)))"
| "signal_turn os pr sig process_group (SigDone r) k = (k, SigDone r)"

text \<open>
  Where a call that may send a signal is: an API call first waits for the lock of the state; the timeout
  watcher sleeps twice. \<open>SigEnd\<close> holds the answer.
\<close>

datatype sig_phase = WaitLock signal bool | Deadline | Signals signal bool signalling | Grace | SigEnd "errno + bool"

definition signal_if_live :: "process_instance option \<Rightarrow> signal \<Rightarrow> sig_phase" where
  "signal_if_live process sig = (case process of Some _ \<Rightarrow> Signals sig False SigCheck | None \<Rightarrow> SigEnd (Inr False))"

text \<open>The timeout watcher at the end of a sleep, and when a signal of it was answered.\<close>

fun watcher_next :: "process_instance option \<Rightarrow> sig_phase \<Rightarrow> sig_phase option" where
  "watcher_next process Deadline = Some (signal_if_live process SIGTERM)"
| "watcher_next process Grace = Some (signal_if_live process SIGKILL)"
| "watcher_next process (Signals sig process_group (SigDone r)) =
     Some (if sig = SIGTERM \<and> r = Inr True then Grace else SigEnd r)"
| "watcher_next process _ = None"

section \<open>The state of an execution\<close>

text \<open>\<open>stdout\<close> and \<open>stderr\<close> are taken from the handle when the output manager is made.\<close>

record exec_handle =
  eh_pid :: pid
  eh_stdin :: bool
  eh_pty :: "nat option"

record es_inner =
  in_handle :: "exec_handle option"
  in_input_tasks :: "nat list"
  in_output_task :: "nat option"
  in_timeout_task :: "nat option"
  in_released :: bool
  in_init_health :: bool

record 'm execution_state =
  xs_inner :: es_inner
  xs_process :: "process_instance option"
  xs_shutdown_managed :: bool
  xs_terminal_exit :: "execution_exit option"
  xs_metadata :: "'m option"

definition with_inner :: "(es_inner \<Rightarrow> es_inner) \<Rightarrow> 'm execution_state \<Rightarrow> 'm execution_state" where
  "with_inner f x = x\<lparr>xs_inner := f (xs_inner x)\<rparr>"

definition from_handle ::
  "exec_handle \<Rightarrow> bool \<Rightarrow> process_instance option \<Rightarrow> bool \<Rightarrow> 'm execution_state" where
  "from_handle handle init_health process shutdown_managed =
     \<lparr>xs_inner = \<lparr>in_handle = Some handle, in_input_tasks = [], in_output_task = None, in_timeout_task = None,
        in_released = False, in_init_health = init_health\<rparr>,
      xs_process = process, xs_shutdown_managed = shutdown_managed, xs_terminal_exit = None, xs_metadata = None\<rparr>"

definition ExecutionState_new :: "exec_handle \<Rightarrow> process_instance option \<Rightarrow> 'm execution_state" where
  "ExecutionState_new handle process = from_handle handle False process True"

definition new_with_init_health :: "exec_handle \<Rightarrow> process_instance option \<Rightarrow> 'm execution_state" where
  "new_with_init_health handle process = from_handle handle True process True"

definition new_init_session :: "exec_handle \<Rightarrow> process_instance option \<Rightarrow> 'm execution_state" where
  "new_init_session handle process = from_handle handle False process False"

definition ExecutionState_rejected :: "'m execution_state" where
  "ExecutionState_rejected =
     \<lparr>xs_inner = \<lparr>in_handle = None, in_input_tasks = [], in_output_task = None, in_timeout_task = None,
        in_released = False, in_init_health = False\<rparr>,
      xs_process = None, xs_shutdown_managed = False, xs_terminal_exit = None, xs_metadata = None\<rparr>"

definition with_metadata :: "'m \<Rightarrow> 'm execution_state \<Rightarrow> 'm execution_state" where
  "with_metadata m x = x\<lparr>xs_metadata := Some m\<rparr>"

definition live_metadata :: "bool \<Rightarrow> 'm execution_state \<Rightarrow> 'm option" where
  "live_metadata exited x = (if exited then None else xs_metadata x)"

subsection \<open>Input, output and timeout\<close>

definition take_stdin :: "'m execution_state \<Rightarrow> 'm execution_state \<times> ('status execution_error + unit)" where
  "take_stdin x =
     (case in_handle (xs_inner x) of
        None \<Rightarrow> (x, Inl HandleUnavailable)
      | Some handle \<Rightarrow>
          if eh_stdin handle
          then (with_inner (\<lambda>i. i\<lparr>in_handle := Some (handle\<lparr>eh_stdin := False\<rparr>)\<rparr>) x, Inr ())
          else (x, Inl StdinTaken))"

text \<open>The flag of the next two says that the task is aborted instead of kept.\<close>

definition track_input_task :: "nat \<Rightarrow> 'm execution_state \<Rightarrow> 'm execution_state \<times> bool" where
  "track_input_task task x =
     (if in_released (xs_inner x) then (x, True)
      else (with_inner (\<lambda>i. i\<lparr>in_input_tasks := in_input_tasks i @ [task]\<rparr>) x, False))"

definition set_timeout_task :: "nat \<Rightarrow> 'm execution_state \<Rightarrow> 'm execution_state \<times> bool" where
  "set_timeout_task task x =
     (if in_released (xs_inner x) then (x, True)
      else (with_inner (\<lambda>i. i\<lparr>in_timeout_task := Some task\<rparr>) x, False))"

definition cancel_timeout_task :: "'m execution_state \<Rightarrow> 'm execution_state \<times> nat option" where
  "cancel_timeout_task x = (with_inner (\<lambda>i. i\<lparr>in_timeout_task := None\<rparr>) x, in_timeout_task (xs_inner x))"

definition join_finished_output_task ::
  "(nat \<Rightarrow> bool) \<Rightarrow> 'm execution_state \<Rightarrow> 'm execution_state \<times> nat option" where
  "join_finished_output_task is_finished x =
     (case in_output_task (xs_inner x) of
        Some task \<Rightarrow> if is_finished task then (with_inner (\<lambda>i. i\<lparr>in_output_task := None\<rparr>) x, Some task) else (x, None)
      | None \<Rightarrow> (x, None))"

definition attach_check :: "'m execution_state \<Rightarrow> 'status execution_error + unit" where
  "attach_check x = (if in_released (xs_inner x) then Inl HandleUnavailable else Inr ())"

datatype attach_mode = AttachLive | AttachRetained

text \<open>\<open>OutputManager::attach\<close> and \<open>attach_retained\<close>: the lease after it, and whether the stream was made.\<close>

definition claim_output :: "attach_mode \<Rightarrow> bool \<Rightarrow> bool \<Rightarrow> bool \<times> ('status execution_error + unit)" where
  "claim_output mode lease sealed =
     (case claim_consumer lease of
        None \<Rightarrow> (lease, Inl AlreadyAttached)
      | Some claimed \<Rightarrow> if mode = AttachLive \<and> sealed then (False, Inl AlreadyAttached) else (claimed, Inr ()))"

text \<open>The task to abort and the forwarder that is displaced.\<close>

definition attach_install ::
  "nat \<Rightarrow> 'm execution_state \<Rightarrow> 'm execution_state \<times> nat option \<times> nat option" where
  "attach_install task x =
     (if in_released (xs_inner x) then (x, Some task, None)
      else (with_inner (\<lambda>i. i\<lparr>in_output_task := Some task\<rparr>) x, None, in_output_task (xs_inner x)))"

text \<open>The locked part of \<open>release_resources\<close>, with the tasks it has taken; \<open>None\<close> when it was released before.\<close>

definition release_take ::
  "'m execution_state \<Rightarrow> ('m execution_state \<times> nat list \<times> nat option \<times> nat option) option" where
  "release_take x =
     (let i = xs_inner x in
      if in_released i then None
      else Some (x\<lparr>xs_inner := \<lparr>in_handle = None, in_input_tasks = [], in_output_task = None, in_timeout_task = None,
                   in_released = True, in_init_health = False\<rparr>\<rparr>,
                 in_input_tasks i, in_output_task i, in_timeout_task i))"

record winsize =
  ws_row :: u16
  ws_col :: u16
  ws_xpixel :: u16
  ws_ypixel :: u16

definition resize_pty ::
  "(nat \<Rightarrow> winsize \<Rightarrow> 'k \<Rightarrow> 'k \<times> bool) \<Rightarrow> u16 \<Rightarrow> u16 \<Rightarrow> u16 \<Rightarrow> u16 \<Rightarrow> 'm execution_state \<Rightarrow> 'k \<Rightarrow>
     'k \<times> ('status execution_error + unit)" where
  "resize_pty ioctl rows cols x_pixels y_pixels x k =
     (case in_handle (xs_inner x) of
        None \<Rightarrow> (k, Inl HandleUnavailable)
      | Some handle \<Rightarrow>
          (case eh_pty handle of
             None \<Rightarrow> (k, Inl NotAPty)
           | Some controller \<Rightarrow>
               (let (k, ok) = ioctl controller
                      \<lparr>ws_row = rows, ws_col = cols, ws_xpixel = x_pixels, ws_ypixel = y_pixels\<rparr> k
                in (k, if ok then Inr () else Inl (IoError ''ioctl TIOCSWINSZ failed'')))))"

subsection \<open>Signals and the exit\<close>

text \<open>\<open>signal_if_current\<close> once it holds the lock, which it keeps while it signals.\<close>

definition signal_if_current :: "signal \<Rightarrow> bool \<Rightarrow> 'm execution_state \<Rightarrow> sig_phase" where
  "signal_if_current sig process_group x =
     (if in_released (xs_inner x) then SigEnd (Inr False)
      else case xs_process x of
        None \<Rightarrow> SigEnd (Inr False)
      | Some _ \<Rightarrow> Signals sig process_group SigCheck)"

definition signal_owned_process_if_current :: "signal \<Rightarrow> 'm execution_state \<Rightarrow> sig_phase" where
  "signal_owned_process_if_current sig x =
     (if \<not> xs_shutdown_managed x then SigEnd (Inr False) else WaitLock sig False)"

definition owned_process_is_current :: "'k os_ops \<Rightarrow> 'm execution_state \<Rightarrow> 'k \<Rightarrow> bool" where
  "owned_process_is_current os x k \<longleftrightarrow> xs_shutdown_managed x \<and> \<not> in_released (xs_inner x) \<and>
     (case xs_process x of None \<Rightarrow> False | Some pr \<Rightarrow> instance_is_current os k pr)"

definition exec_kill :: "signal \<Rightarrow> bool \<Rightarrow> sig_phase" where
  "exec_kill sig process_group = WaitLock sig process_group"

definition exec_kill_answer :: "errno + bool \<Rightarrow> bool" where
  "exec_kill_answer r = (case r of Inr sent \<Rightarrow> sent | Inl _ \<Rightarrow> False)"

record 'h health_ops =
  ih_is_running :: "'h \<Rightarrow> bool"
  ih_diagnose_exit :: "'h \<Rightarrow> 'h \<times> string"

definition check_container_death :: "'h health_ops \<Rightarrow> 'm execution_state \<Rightarrow> 'h \<Rightarrow> 'h \<times> string option" where
  "check_container_death ho x h =
     (if \<not> in_init_health (xs_inner x) then (h, None)
      else if ih_is_running ho h then (h, None)
      else (let (h, diagnosis) = ih_diagnose_exit ho h in (h, Some diagnosis)))"

definition classify_exit ::
  "'h health_ops \<Rightarrow> exit_status \<Rightarrow> 'm execution_state \<Rightarrow> 'h \<Rightarrow> 'h \<times> execution_exit" where
  "classify_exit ho status x h =
     (case status of
        ExitCode code \<Rightarrow> (h, \<lparr>ex_exit_code = code, ex_signal = 0, ex_error_message = []\<rparr>)
      | ExitSignal sig \<Rightarrow>
          (let (h, diagnosis) = (if sig = SIGKILL then check_container_death ho x h else (h, None))
           in (h, \<lparr>ex_exit_code = 0, ex_signal = int sig,
                   ex_error_message = (case diagnosis of Some d \<Rightarrow> d | None \<Rightarrow> [])\<rparr>)))"

text \<open>\<open>terminal_exit.get_or_init\<close>, once the process has exited.\<close>

definition wait_exit ::
  "'h health_ops \<Rightarrow> exit_status \<Rightarrow> 'm execution_state \<Rightarrow> 'h \<Rightarrow> 'm execution_state \<times> 'h \<times> execution_exit" where
  "wait_exit ho status x h =
     (case xs_terminal_exit x of
        Some ended \<Rightarrow> (x, h, ended)
      | None \<Rightarrow>
          (let (h, ended) = classify_exit ho status x h in (x\<lparr>xs_terminal_exit := Some ended\<rparr>, h, ended)))"

section \<open>The callers and the tasks\<close>

text \<open>
  A task runs, has dropped what it owned (the write end of \<open>stdin\<close>, the lease of the output), and is
  finished, which is when a join returns. An abort only sets a flag: the task still runs until its next
  await. A call that has left the lock and still has work is an \<open>es_op\<close>.
\<close>

datatype task_kind = InputTask | ForwardTask | TimeoutTask
datatype task_phase = TaskRunning | TaskDropped | TaskFinished

record es_task =
  tk_kind :: task_kind
  tk_phase :: task_phase
  tk_aborted :: bool

datatype es_op =
    OpTrack nat
  | OpSetTimeout nat
  | OpAttach attach_mode
  | OpClaim attach_mode
  | OpInstall nat
  | OpJoin nat
  | OpAbort "nat list"
  | OpAwait nat "nat list"

record ('m, 'h) es_sys =
  es_state :: "'m execution_state"
  es_tasks :: "es_task list"
  es_ops :: "es_op multiset"
  es_lease :: bool
  es_sealed :: bool
  es_exit :: "exit_status option"
  es_health :: 'h
  es_timer :: "nat option"
  es_answers :: "execution_exit list"
  es_releases :: nat
  es_slot_released :: bool

definition spawned :: "task_kind \<Rightarrow> es_task" where
  "spawned kind = \<lparr>tk_kind = kind, tk_phase = TaskRunning, tk_aborted = False\<rparr>"

definition abort_tasks :: "nat list \<Rightarrow> es_task list \<Rightarrow> es_task list" where
  "abort_tasks ts tasks = map (\<lambda>(i, t). if i \<in> set ts then t\<lparr>tk_aborted := True\<rparr> else t) (enumerate 0 tasks)"

definition opt_list :: "'a option \<Rightarrow> 'a list" where
  "opt_list o1 = (case o1 of None \<Rightarrow> [] | Some a \<Rightarrow> [a])"

text \<open>
  The steps. None of these calls makes an error that carries a caller's status, so its type is \<open>unit\<close>
  there. \<open>start_execution\<close> sets the timeout once. A forwarder holds the lease from the moment it is
  spawned; the output manager may be sealed and the process may exit at any time, and the health of the
  container changes as it likes.
\<close>

inductive es_step :: "'h health_ops \<Rightarrow> ('m, 'h) es_sys \<Rightarrow> ('m, 'h) es_sys \<Rightarrow> bool" for ho where
  send_input: "take_stdin (es_state s) = (x, Inr () :: unit execution_error + unit) \<Longrightarrow>
    es_step ho s (s\<lparr>es_state := x, es_tasks := es_tasks s @ [spawned InputTask],
      es_ops := add_mset (OpTrack (length (es_tasks s))) (es_ops s)\<rparr>)"
| track: "OpTrack t \<in># es_ops s \<Longrightarrow> track_input_task t (es_state s) = (x, gone) \<Longrightarrow>
    es_step ho s (s\<lparr>es_state := x, es_tasks := (if gone then abort_tasks [t] (es_tasks s) else es_tasks s),
      es_ops := es_ops s - {#OpTrack t#}\<rparr>)"
| start_timeout: "es_timer s = None \<Longrightarrow>
    es_step ho s (s\<lparr>es_timer := Some (length (es_tasks s)), es_tasks := es_tasks s @ [spawned TimeoutTask],
      es_ops := add_mset (OpSetTimeout (length (es_tasks s))) (es_ops s)\<rparr>)"
| set_timeout: "OpSetTimeout t \<in># es_ops s \<Longrightarrow> set_timeout_task t (es_state s) = (x, gone) \<Longrightarrow>
    es_step ho s (s\<lparr>es_state := x, es_tasks := (if gone then abort_tasks [t] (es_tasks s) else es_tasks s),
      es_ops := (es_ops s - {#OpSetTimeout t#}) + (if gone then {#OpJoin t#} else {#})\<rparr>)"
| cancel_timeout: "cancel_timeout_task (es_state s) = (x, taken) \<Longrightarrow>
    es_step ho s (s\<lparr>es_state := x, es_tasks := abort_tasks (opt_list taken) (es_tasks s),
      es_ops := es_ops s + mset (map OpJoin (opt_list taken))\<rparr>)"
| attach: "join_finished_output_task (\<lambda>t. tk_phase (es_tasks s ! t) = TaskFinished) (es_state s) = (x, joined) \<Longrightarrow>
    es_step ho s (s\<lparr>es_state := x, es_ops := add_mset (OpAttach mode) (es_ops s)\<rparr>)"
| attach_checks: "OpAttach mode \<in># es_ops s \<Longrightarrow>
    es_step ho s (s\<lparr>es_ops := (es_ops s - {#OpAttach mode#}) +
      (case attach_check (es_state s) :: unit execution_error + unit of Inl _ \<Rightarrow> {#} | Inr _ \<Rightarrow> {#OpClaim mode#})\<rparr>)"
| attach_refused: "OpClaim mode \<in># es_ops s \<Longrightarrow> claim_output mode (es_lease s) (es_sealed s) = (lease, Inl e :: unit execution_error + unit) \<Longrightarrow>
    es_step ho s (s\<lparr>es_lease := lease, es_ops := es_ops s - {#OpClaim mode#}\<rparr>)"
| attach_spawns: "OpClaim mode \<in># es_ops s \<Longrightarrow> claim_output mode (es_lease s) (es_sealed s) = (lease, Inr () :: unit execution_error + unit) \<Longrightarrow>
    es_step ho s (s\<lparr>es_lease := lease, es_tasks := es_tasks s @ [spawned ForwardTask],
      es_ops := add_mset (OpInstall (length (es_tasks s))) (es_ops s - {#OpClaim mode#})\<rparr>)"
| attach_installs: "OpInstall t \<in># es_ops s \<Longrightarrow> attach_install t (es_state s) = (x, gone, displaced) \<Longrightarrow>
    es_step ho s (s\<lparr>es_state := x, es_tasks := abort_tasks (opt_list gone) (es_tasks s),
      es_ops := (es_ops s - {#OpInstall t#}) + mset (map OpJoin (opt_list displaced @ opt_list gone))\<rparr>)"
| joins: "OpJoin t \<in># es_ops s \<Longrightarrow> tk_phase (es_tasks s ! t) = TaskFinished \<Longrightarrow>
    es_step ho s (s\<lparr>es_ops := es_ops s - {#OpJoin t#}\<rparr>)"
| release: "release_take (es_state s) = Some (x, inputs, output, timeout) \<Longrightarrow>
    es_step ho s (s\<lparr>es_state := x, es_tasks := abort_tasks inputs (es_tasks s),
      es_ops := add_mset (OpAbort (opt_list output @ opt_list timeout)) (es_ops s)\<rparr>)"
| release_aborts: "OpAbort (t # ts) \<in># es_ops s \<Longrightarrow>
    es_step ho s (s\<lparr>es_tasks := abort_tasks [t] (es_tasks s),
      es_ops := add_mset (OpAwait t ts) (es_ops s - {#OpAbort (t # ts)#})\<rparr>)"
| release_awaits: "OpAwait t ts \<in># es_ops s \<Longrightarrow> tk_phase (es_tasks s ! t) = TaskFinished \<Longrightarrow>
    es_step ho s (s\<lparr>es_ops := add_mset (OpAbort ts) (es_ops s - {#OpAwait t ts#})\<rparr>)"
| release_ends: "OpAbort [] \<in># es_ops s \<Longrightarrow>
    es_step ho s (s\<lparr>es_ops := es_ops s - {#OpAbort []#}, es_releases := es_releases s + 1,
      es_slot_released := es_slot_released s \<or> xs_shutdown_managed (es_state s)\<rparr>)"
| task_drops: "t < length (es_tasks s) \<Longrightarrow> tk_phase (es_tasks s ! t) = TaskRunning \<Longrightarrow>
    es_step ho s (s\<lparr>es_tasks := (es_tasks s)[t := (es_tasks s ! t)\<lparr>tk_phase := TaskDropped\<rparr>],
      es_lease := (if tk_kind (es_tasks s ! t) = ForwardTask then False else es_lease s)\<rparr>)"
| task_finishes: "t < length (es_tasks s) \<Longrightarrow> tk_phase (es_tasks s ! t) = TaskDropped \<Longrightarrow>
    es_step ho s (s\<lparr>es_tasks := (es_tasks s)[t := (es_tasks s ! t)\<lparr>tk_phase := TaskFinished\<rparr>]\<rparr>)"
| seals: "es_step ho s (s\<lparr>es_sealed := True\<rparr>)"
| exits: "es_exit s = None \<Longrightarrow> es_step ho s (s\<lparr>es_exit := Some status\<rparr>)"
| health: "es_step ho s (s\<lparr>es_health := h\<rparr>)"
| waits: "es_exit s = Some status \<Longrightarrow> wait_exit ho status (es_state s) (es_health s) = (x, h, answer) \<Longrightarrow>
    es_step ho s (s\<lparr>es_state := x, es_health := h, es_answers := es_answers s @ [answer]\<rparr>)"

definition es_start :: "'m execution_state \<Rightarrow> 'h \<Rightarrow> ('m, 'h) es_sys" where
  "es_start x h = \<lparr>es_state = x, es_tasks = [], es_ops = {#}, es_lease = False, es_sealed = False, es_exit = None,
     es_health = h, es_timer = None, es_answers = [], es_releases = 0, es_slot_released = False\<rparr>"

inductive es_reachable :: "'h health_ops \<Rightarrow> ('m, 'h) es_sys \<Rightarrow> bool" for ho where
  start: "x \<in> {ExecutionState_new handle process, new_with_init_health handle process, new_init_session handle process,
      ExecutionState_rejected} \<Longrightarrow> es_reachable ho (es_start x h)"
| step: "es_reachable ho s \<Longrightarrow> es_step ho s s' \<Longrightarrow> es_reachable ho s'"

section \<open>Every task has an owner\<close>

text \<open>
  Who will abort or join a task: the state of the execution, or a call that has not finished; with the
  kind of task each of them holds.
\<close>

definition inner_owns :: "es_inner \<Rightarrow> nat \<Rightarrow> task_kind \<Rightarrow> bool" where
  "inner_owns i t kind \<longleftrightarrow> (kind = InputTask \<and> t \<in> set (in_input_tasks i)) \<or>
     (kind = TimeoutTask \<and> in_timeout_task i = Some t) \<or> (kind = ForwardTask \<and> in_output_task i = Some t)"

fun op_owns :: "es_op \<Rightarrow> nat \<Rightarrow> task_kind \<Rightarrow> bool" where
  "op_owns (OpTrack u) t kind \<longleftrightarrow> kind = InputTask \<and> t = u"
| "op_owns (OpSetTimeout u) t kind \<longleftrightarrow> kind = TimeoutTask \<and> t = u"
| "op_owns (OpInstall u) t kind \<longleftrightarrow> kind = ForwardTask \<and> t = u"
| "op_owns (OpJoin u) t kind \<longleftrightarrow> kind = ForwardTask \<and> t = u"
| "op_owns (OpAbort ts) t kind \<longleftrightarrow> t \<in> set ts"
| "op_owns (OpAwait u ts) t kind \<longleftrightarrow> t \<in> set ts"
| "op_owns (OpAttach mode) t kind \<longleftrightarrow> False"
| "op_owns (OpClaim mode) t kind \<longleftrightarrow> False"

definition es_owner :: "('m, 'h) es_sys \<Rightarrow> nat \<Rightarrow> bool" where
  "es_owner s t \<longleftrightarrow> inner_owns (xs_inner (es_state s)) t (tk_kind (es_tasks s ! t)) \<or>
     (\<exists>op\<in>#es_ops s. op_owns op t (tk_kind (es_tasks s ! t)))"

definition task_live :: "es_task list \<Rightarrow> nat \<Rightarrow> bool" where
  "task_live tasks t \<longleftrightarrow> t < length tasks \<and> tk_phase (tasks ! t) \<noteq> TaskFinished \<and> \<not> tk_aborted (tasks ! t)"

definition tasks_owned :: "('m, 'h) es_sys \<Rightarrow> bool" where
  "tasks_owned s \<longleftrightarrow> (\<forall>t. task_live (es_tasks s) t \<longrightarrow> es_owner s t)"

lemma length_abort [simp]: "length (abort_tasks ts tasks) = length tasks"
  by (simp add: abort_tasks_def)

lemma nth_abort [simp]: "t < length tasks \<Longrightarrow> abort_tasks ts tasks ! t =
    (if t \<in> set ts then (tasks ! t)\<lparr>tk_aborted := True\<rparr> else tasks ! t)"
  by (simp add: abort_tasks_def nth_enumerate_eq)

lemma live_abort: "task_live (abort_tasks ts tasks) t \<longleftrightarrow> task_live tasks t \<and> t \<notin> set ts"
  by (auto simp: task_live_def split: if_splits)

lemma live_snoc: "task_live (tasks @ [task]) t \<longleftrightarrow>
    task_live tasks t \<or> (t = length tasks \<and> tk_phase task \<noteq> TaskFinished \<and> \<not> tk_aborted task)"
  by (auto simp: task_live_def nth_append)

lemma live_old: "task_live (tasks @ [task]) t \<Longrightarrow> t \<noteq> length tasks \<Longrightarrow> task_live tasks t \<and> (tasks @ [task]) ! t = tasks ! t"
  by (auto simp: task_live_def nth_append split: if_splits)

lemma live_unaborted: "task_live (abort_tasks ts tasks) t \<Longrightarrow> task_live tasks t \<and> abort_tasks ts tasks ! t = tasks ! t"
  by (auto simp: task_live_def split: if_splits)

lemma live_abort_if: "task_live (if gone then abort_tasks ts tasks else tasks) t \<Longrightarrow>
    task_live tasks t \<and> (if gone then abort_tasks ts tasks else tasks) ! t = tasks ! t"
  using live_unaborted[of ts tasks t] by (cases gone) simp_all

lemma live_drop: "t < length tasks \<Longrightarrow> tk_phase (tasks ! t) \<noteq> TaskFinished \<Longrightarrow>
    task_live (tasks[t := (tasks ! t)\<lparr>tk_phase := ph\<rparr>]) u \<Longrightarrow> task_live tasks u"
  by (cases "u = t") (auto simp: task_live_def)

lemma opt_list_set [simp]: "set (opt_list o1) = set_option o1"
  by (cases o1) (simp_all add: opt_list_def)

text \<open>A step keeps the owners when each live task keeps its kind and its owner, or gets a new one.\<close>

lemma tasks_ownedI:
  assumes "tasks_owned s"
    and kept: "\<And>t. task_live (es_tasks s') t \<Longrightarrow> \<not> es_owner s' t \<Longrightarrow>
      task_live (es_tasks s) t \<and> tk_kind (es_tasks s' ! t) = tk_kind (es_tasks s ! t)"
    and inner: "\<And>t kind. task_live (es_tasks s') t \<Longrightarrow> tk_kind (es_tasks s' ! t) = kind \<Longrightarrow>
      inner_owns (xs_inner (es_state s)) t kind \<Longrightarrow> es_owner s' t"
    and ops: "\<And>t kind op. task_live (es_tasks s') t \<Longrightarrow> tk_kind (es_tasks s' ! t) = kind \<Longrightarrow>
      op \<in># es_ops s \<Longrightarrow> op_owns op t kind \<Longrightarrow> es_owner s' t"
  shows "tasks_owned s'"
  unfolding tasks_owned_def
proof (intro allI impI, rule ccontr)
  fix t assume t: "task_live (es_tasks s') t" "\<not> es_owner s' t"
  with kept have k: "task_live (es_tasks s) t" "tk_kind (es_tasks s' ! t) = tk_kind (es_tasks s ! t)" by blast+
  then have "es_owner s t" using assms(1) by (simp add: tasks_owned_def)
  then show False using inner[OF t(1) refl] ops[OF t(1) refl] t(2) k(2) unfolding es_owner_def by metis
qed

lemma owner_ops: "op \<in># es_ops s \<Longrightarrow> op_owns op t (tk_kind (es_tasks s ! t)) \<Longrightarrow> es_owner s t"
  unfolding es_owner_def by blast

lemma owner_inner: "inner_owns (xs_inner (es_state s)) t (tk_kind (es_tasks s ! t)) \<Longrightarrow> es_owner s t"
  unfolding es_owner_def by blast

text \<open>What an operation does to the owners in the state.\<close>

lemma take_stdin_owns: "take_stdin x = (x', r) \<Longrightarrow> inner_owns (xs_inner x') = inner_owns (xs_inner x)"
  by (auto simp: take_stdin_def with_inner_def inner_owns_def fun_eq_iff split: option.splits if_splits)

lemma kept_op: "op \<in># M \<Longrightarrow> op \<noteq> gone \<Longrightarrow> op \<in># M - {#gone#}"
  by (simp add: in_diff_count)

lemma kept_owner:
  assumes "op \<in># es_ops s" "op_owns op t (tk_kind (es_tasks s' ! t))" "es_ops s - {#gone#} \<subseteq># es_ops s'"
    "\<not> op_owns gone t (tk_kind (es_tasks s' ! t))"
  shows "es_owner s' t"
  using assms by (metis kept_op mset_subset_eqD owner_ops)

lemma owned_send_input:
  assumes "tasks_owned s" "take_stdin (es_state s) = (x, r)"
  shows "tasks_owned (s\<lparr>es_state := x, es_tasks := es_tasks s @ [spawned InputTask],
      es_ops := add_mset (OpTrack (length (es_tasks s))) (es_ops s)\<rparr>)" (is "tasks_owned ?s")
proof (rule tasks_ownedI[OF assms(1)])
  fix t assume t: "task_live (es_tasks ?s) t" "\<not> es_owner ?s t"
  then have "t \<noteq> length (es_tasks s)" using owner_ops[of "OpTrack (length (es_tasks s))" ?s t] by (auto simp: spawned_def)
  then show "task_live (es_tasks s) t \<and> tk_kind (es_tasks ?s ! t) = tk_kind (es_tasks s ! t)"
    using t(1) live_old[of "es_tasks s" _ t] by simp
qed (auto simp: es_owner_def take_stdin_owns[OF assms(2)])

lemma owned_start_timeout:
  assumes "tasks_owned s"
  shows "tasks_owned (s\<lparr>es_timer := timer, es_tasks := es_tasks s @ [spawned TimeoutTask],
      es_ops := add_mset (OpSetTimeout (length (es_tasks s))) (es_ops s)\<rparr>)" (is "tasks_owned ?s")
proof (rule tasks_ownedI[OF assms(1)])
  fix t assume t: "task_live (es_tasks ?s) t" "\<not> es_owner ?s t"
  then have "t \<noteq> length (es_tasks s)" using owner_ops[of "OpSetTimeout (length (es_tasks s))" ?s t] by (auto simp: spawned_def)
  then show "task_live (es_tasks s) t \<and> tk_kind (es_tasks ?s ! t) = tk_kind (es_tasks s ! t)"
    using t(1) live_old[of "es_tasks s" _ t] by simp
qed (auto simp: es_owner_def)

lemma owned_attach_spawns:
  assumes "tasks_owned s"
  shows "tasks_owned (s\<lparr>es_lease := lease, es_tasks := es_tasks s @ [spawned ForwardTask],
      es_ops := add_mset (OpInstall (length (es_tasks s))) (es_ops s - {#OpClaim mode#})\<rparr>)" (is "tasks_owned ?s")
proof (rule tasks_ownedI[OF assms(1)])
  fix t assume t: "task_live (es_tasks ?s) t" "\<not> es_owner ?s t"
  then have "t \<noteq> length (es_tasks s)" using owner_ops[of "OpInstall (length (es_tasks s))" ?s t] by (auto simp: spawned_def)
  then show "task_live (es_tasks s) t \<and> tk_kind (es_tasks ?s ! t) = tk_kind (es_tasks s ! t)"
    using t(1) live_old[of "es_tasks s" _ t] by simp
next
  fix t kind op assume "tk_kind (es_tasks ?s ! t) = kind" "op \<in># es_ops s" "op_owns op t kind"
  then show "es_owner ?s t" by (intro kept_owner[of op s t ?s "OpClaim mode"]) simp_all
qed (auto simp: es_owner_def)

lemma owned_track:
  assumes "tasks_owned s" "track_input_task u (es_state s) = (x, gone)"
  shows "tasks_owned (s\<lparr>es_state := x, es_tasks := (if gone then abort_tasks [u] (es_tasks s) else es_tasks s),
      es_ops := es_ops s - {#OpTrack u#}\<rparr>)" (is "tasks_owned ?s")
proof (rule tasks_ownedI[OF assms(1)])
  fix t kind op assume o: "task_live (es_tasks ?s) t" "tk_kind (es_tasks ?s ! t) = kind" "op \<in># es_ops s" "op_owns op t kind"
  show "es_owner ?s t"
  proof (cases "op_owns (OpTrack u) t kind")
    case True
    then have "\<not> gone" "t = u" "kind = InputTask" using o(1) by (auto simp: live_abort)
    then show ?thesis using assms(2) o(2)
      by (intro owner_inner) (auto simp: track_input_task_def with_inner_def inner_owns_def split: if_splits)
  qed (use o in \<open>intro kept_owner[of op s t ?s "OpTrack u"], simp_all\<close>)
next
  show "es_owner ?s t" if "task_live (es_tasks ?s) t" "tk_kind (es_tasks ?s ! t) = kind"
    "inner_owns (xs_inner (es_state s)) t kind" for t kind
    using that assms(2)
    by (intro owner_inner) (auto simp: track_input_task_def with_inner_def inner_owns_def split: if_splits)
qed (auto dest: live_abort_if live_unaborted)

lemma owned_set_timeout:
  assumes "tasks_owned s" "set_timeout_task u (es_state s) = (x, gone)" "OpSetTimeout u \<in># es_ops s"
    and free: "in_timeout_task (xs_inner (es_state s)) = None"
  shows "tasks_owned (s\<lparr>es_state := x, es_tasks := (if gone then abort_tasks [u] (es_tasks s) else es_tasks s),
      es_ops := (es_ops s - {#OpSetTimeout u#}) + (if gone then {#OpJoin u#} else {#})\<rparr>)" (is "tasks_owned ?s")
proof (rule tasks_ownedI[OF assms(1)])
  fix t kind op assume o: "task_live (es_tasks ?s) t" "tk_kind (es_tasks ?s ! t) = kind" "op \<in># es_ops s" "op_owns op t kind"
  show "es_owner ?s t"
  proof (cases "op_owns (OpSetTimeout u) t kind")
    case True
    then have "\<not> gone" "t = u" "kind = TimeoutTask" using o(1) by (auto simp: live_abort)
    then show ?thesis using assms(2) o(2)
      by (intro owner_inner) (auto simp: set_timeout_task_def with_inner_def inner_owns_def split: if_splits)
  qed (use o in \<open>intro kept_owner[of op s t ?s "OpSetTimeout u"], simp_all\<close>)
next
  show "es_owner ?s t" if "task_live (es_tasks ?s) t" "tk_kind (es_tasks ?s ! t) = kind"
    "inner_owns (xs_inner (es_state s)) t kind" for t kind
    using that assms(2) free
    by (intro owner_inner) (auto simp: set_timeout_task_def with_inner_def inner_owns_def split: if_splits)
qed (auto dest: live_abort_if live_unaborted)

lemma owned_cancel:
  assumes "tasks_owned s" "cancel_timeout_task (es_state s) = (x, taken)"
  shows "tasks_owned (s\<lparr>es_state := x, es_tasks := abort_tasks (opt_list taken) (es_tasks s),
      es_ops := es_ops s + mset (map OpJoin (opt_list taken))\<rparr>)" (is "tasks_owned ?s")
proof (rule tasks_ownedI[OF assms(1)])
  show "es_owner ?s t" if "task_live (es_tasks ?s) t" "tk_kind (es_tasks ?s ! t) = kind"
    "inner_owns (xs_inner (es_state s)) t kind" for t kind
    using that assms(2)
    by (intro owner_inner) (auto simp: cancel_timeout_task_def with_inner_def inner_owns_def live_abort)
qed (auto dest: live_unaborted simp: es_owner_def)

lemma owned_attach:
  assumes "tasks_owned s" "join_finished_output_task (\<lambda>t. tk_phase (es_tasks s ! t) = TaskFinished) (es_state s) = (x, joined)"
  shows "tasks_owned (s\<lparr>es_state := x, es_ops := add_mset (OpAttach mode) (es_ops s)\<rparr>)" (is "tasks_owned ?s")
proof (rule tasks_ownedI[OF assms(1)])
  show "es_owner ?s t" if "task_live (es_tasks ?s) t" "tk_kind (es_tasks ?s ! t) = kind"
    "inner_owns (xs_inner (es_state s)) t kind" for t kind
    using that assms(2)
    by (intro owner_inner) (auto simp: join_finished_output_task_def task_live_def with_inner_def inner_owns_def
        split: option.splits if_splits)
qed (auto simp: es_owner_def)

lemma owned_install:
  assumes "tasks_owned s" "attach_install u (es_state s) = (x, gone, displaced)"
  shows "tasks_owned (s\<lparr>es_state := x, es_tasks := abort_tasks (opt_list gone) (es_tasks s),
      es_ops := (es_ops s - {#OpInstall u#}) + mset (map OpJoin (opt_list displaced @ opt_list gone))\<rparr>)" (is "tasks_owned ?s")
proof (rule tasks_ownedI[OF assms(1)])
  fix t kind op assume o: "task_live (es_tasks ?s) t" "tk_kind (es_tasks ?s ! t) = kind" "op \<in># es_ops s" "op_owns op t kind"
  show "es_owner ?s t"
  proof (cases "op_owns (OpInstall u) t kind")
    case True
    then have "gone \<noteq> Some u" "t = u" "kind = ForwardTask" using o(1) by (auto simp: live_abort)
    then show ?thesis using assms(2) o(2)
      by (intro owner_inner) (auto simp: attach_install_def with_inner_def inner_owns_def split: if_splits)
  qed (use o in \<open>intro kept_owner[of op s t ?s "OpInstall u"], simp_all\<close>)
next
  fix t kind assume o: "task_live (es_tasks ?s) t" "tk_kind (es_tasks ?s ! t) = kind"
    "inner_owns (xs_inner (es_state s)) t kind"
  show "es_owner ?s t"
  proof (cases "displaced = Some t \<and> kind = ForwardTask")
    case True
    then show ?thesis using o(2) by (intro owner_ops[of "OpJoin t"]) simp_all
  next
    case False
    then show ?thesis using o(2,3) assms(2)
      by (intro owner_inner) (auto simp: attach_install_def with_inner_def inner_owns_def split: if_splits)
  qed
qed (auto dest: live_abort_if live_unaborted)

lemma owned_release:
  assumes "tasks_owned s" "release_take (es_state s) = Some (x, inputs, output, timeout)"
  shows "tasks_owned (s\<lparr>es_state := x, es_tasks := abort_tasks inputs (es_tasks s),
      es_ops := add_mset (OpAbort (opt_list output @ opt_list timeout)) (es_ops s)\<rparr>)" (is "tasks_owned ?s")
proof (rule tasks_ownedI[OF assms(1)])
  fix t kind assume o: "task_live (es_tasks ?s) t" "tk_kind (es_tasks ?s ! t) = kind"
    "inner_owns (xs_inner (es_state s)) t kind"
  then have "output = Some t \<or> timeout = Some t"
    using assms(2) by (auto simp: release_take_def Let_def inner_owns_def live_abort split: if_splits)
  then show "es_owner ?s t" by (intro owner_ops[of "OpAbort (opt_list output @ opt_list timeout)"]) auto
qed (auto dest: live_unaborted simp: es_owner_def)

lemma owned_release_aborts:
  assumes "tasks_owned s"
  shows "tasks_owned (s\<lparr>es_tasks := abort_tasks [u] (es_tasks s),
      es_ops := add_mset (OpAwait u ts) (es_ops s - {#OpAbort (u # ts)#})\<rparr>)" (is "tasks_owned ?s")
proof (rule tasks_ownedI[OF assms(1)])
  fix t kind op assume o: "task_live (es_tasks ?s) t" "tk_kind (es_tasks ?s ! t) = kind" "op \<in># es_ops s" "op_owns op t kind"
  show "es_owner ?s t"
  proof (cases "op_owns (OpAbort (u # ts)) t kind")
    case True
    then have "t \<in> set ts" using o(1) by (auto simp: live_abort)
    then show ?thesis by (intro owner_ops[of "OpAwait u ts"]) simp_all
  qed (use o in \<open>intro kept_owner[of op s t ?s "OpAbort (u # ts)"], simp_all\<close>)
qed (auto dest: live_unaborted intro: owner_inner)

lemma owned_drop_op:
  assumes "tasks_owned s" "es_ops s - {#gone#} \<subseteq># ops"
    and free: "\<And>t kind. task_live (es_tasks s) t \<Longrightarrow> tk_kind (es_tasks s ! t) = kind \<Longrightarrow> op_owns gone t kind \<Longrightarrow>
      \<exists>op\<in>#ops. op_owns op t kind"
  shows "tasks_owned (s\<lparr>es_ops := ops\<rparr>)" (is "tasks_owned ?s")
proof (rule tasks_ownedI[OF assms(1)])
  fix t kind op assume o: "task_live (es_tasks ?s) t" "tk_kind (es_tasks ?s ! t) = kind" "op \<in># es_ops s" "op_owns op t kind"
  show "es_owner ?s t"
  proof (cases "op_owns gone t kind")
    case True
    then show ?thesis using free[of t kind] o(1,2) owner_ops[of _ ?s t] by auto
  qed (use o assms(2) in \<open>intro kept_owner[of op s t ?s gone], simp_all\<close>)
qed (auto intro: owner_inner)

lemma owned_phase:
  assumes "tasks_owned s" "u < length (es_tasks s)" "tk_phase (es_tasks s ! u) \<noteq> TaskFinished"
  shows "tasks_owned (s\<lparr>es_tasks := (es_tasks s)[u := (es_tasks s ! u)\<lparr>tk_phase := ph\<rparr>]\<rparr>)" (is "tasks_owned ?s")
proof -
  have kind: "tk_kind (es_tasks ?s ! t) = tk_kind (es_tasks s ! t)" for t using assms(2) by (cases "t = u") simp_all
  show ?thesis
  proof (rule tasks_ownedI[OF assms(1)])
    show "task_live (es_tasks s) t \<and> tk_kind (es_tasks ?s ! t) = tk_kind (es_tasks s ! t)"
      if "task_live (es_tasks ?s) t" for t
      using that live_drop[OF assms(2,3)] kind by simp
  qed (use kind in \<open>auto simp: es_owner_def\<close>)
qed

lemma owned_same:
  assumes "tasks_owned s" "es_tasks s' = es_tasks s" "es_ops s' = es_ops s"
    "inner_owns (xs_inner (es_state s')) = inner_owns (xs_inner (es_state s))"
  shows "tasks_owned s'"
  using assms unfolding tasks_owned_def es_owner_def by simp

section \<open>The other invariants\<close>

text \<open>A released execution holds nothing, and the timeout is set once.\<close>

definition held_ok :: "('m, 'h) es_sys \<Rightarrow> bool" where
  "held_ok s \<longleftrightarrow>
     (let i = xs_inner (es_state s) in
      (in_released i \<longrightarrow> in_handle i = None \<and> in_input_tasks i = [] \<and> in_output_task i = None \<and>
         in_timeout_task i = None \<and> \<not> in_init_health i) \<and>
      (\<forall>t. OpSetTimeout t \<in># es_ops s \<longrightarrow> es_timer s = Some t \<and> in_timeout_task i = None) \<and>
      (\<forall>t. in_timeout_task i = Some t \<longrightarrow> es_timer s = Some t) \<and>
      (\<forall>t. count (es_ops s) (OpSetTimeout t) \<le> 1))"

fun is_release :: "es_op \<Rightarrow> bool" where
  "is_release (OpAbort ts) \<longleftrightarrow> True"
| "is_release (OpAwait t ts) \<longleftrightarrow> True"
| "is_release _ \<longleftrightarrow> False"

definition release_ok :: "('m, 'h) es_sys \<Rightarrow> bool" where
  "release_ok s \<longleftrightarrow>
     es_releases s + size (filter_mset is_release (es_ops s)) = (if in_released (xs_inner (es_state s)) then 1 else 0) \<and>
     (es_slot_released s \<longleftrightarrow> 0 < es_releases s \<and> xs_shutdown_managed (es_state s))"

definition lease_ok :: "('m, 'h) es_sys \<Rightarrow> bool" where
  "lease_ok s \<longleftrightarrow> (\<forall>t<length (es_tasks s). tk_kind (es_tasks s ! t) = ForwardTask \<and> tk_phase (es_tasks s ! t) = TaskRunning \<longrightarrow>
     es_lease s \<and> (\<forall>u<length (es_tasks s).
       tk_kind (es_tasks s ! u) = ForwardTask \<and> tk_phase (es_tasks s ! u) = TaskRunning \<longrightarrow> u = t))"

definition exit_of :: "exit_status \<Rightarrow> execution_exit \<Rightarrow> bool" where
  "exit_of status ended \<longleftrightarrow> (case status of
     ExitCode code \<Rightarrow> ended = \<lparr>ex_exit_code = code, ex_signal = 0, ex_error_message = []\<rparr>
   | ExitSignal sig \<Rightarrow> ex_exit_code ended = 0 \<and> ex_signal ended = int sig \<and>
       (sig \<noteq> SIGKILL \<longrightarrow> ex_error_message ended = []))"

definition answers_ok :: "('m, 'h) es_sys \<Rightarrow> bool" where
  "answers_ok s \<longleftrightarrow> (\<forall>a\<in>set (es_answers s). xs_terminal_exit (es_state s) = Some a) \<and>
     (\<forall>a. xs_terminal_exit (es_state s) = Some a \<longrightarrow> (\<exists>status. es_exit s = Some status \<and> exit_of status a))"

lemmas es_op_defs = take_stdin_def track_input_task_def set_timeout_task_def cancel_timeout_task_def
  join_finished_output_task_def attach_install_def release_take_def with_inner_def Let_def

lemma count_joins [simp]: "count (image_mset OpJoin M) (OpSetTimeout t) = 0"
  by (induction M) auto

lemma filter_joins [simp]: "filter_mset is_release (image_mset OpJoin M) = {#}"
  by (induction M) auto

lemma held_step: "es_step ho s s' \<Longrightarrow> held_ok s \<Longrightarrow> held_ok s'"
proof (induction rule: es_step.induct)
  case (set_timeout t s x gone)
  then have timer: "\<forall>u. OpSetTimeout u \<in># es_ops s \<longrightarrow> es_timer s = Some u" and one: "count (es_ops s) (OpSetTimeout t) \<le> 1"
    by (simp_all add: held_ok_def Let_def)
  have "OpSetTimeout u \<notin># es_ops s - {#OpSetTimeout t#}" for u
  proof (cases "u = t")
    case True
    then show ?thesis using one by (simp add: in_diff_count)
  next
    case False
    then show ?thesis using timer set_timeout(1) by (metis in_diffD option.inject)
  qed
  then show ?case using set_timeout by (auto simp: held_ok_def es_op_defs split: if_splits)
next
  case (start_timeout s)
  then show ?case by (auto simp: held_ok_def Let_def simp flip: not_in_iff)
qed (auto simp: held_ok_def es_op_defs wait_exit_def dest!: in_diffD split: if_splits option.splits sum.splits prod.splits)

lemma wait_exit_keeps: "wait_exit ho status x h = (x', h', answer) \<Longrightarrow>
    xs_inner x' = xs_inner x \<and> xs_shutdown_managed x' = xs_shutdown_managed x"
  by (auto simp: wait_exit_def Let_def split: option.splits prod.splits)

lemma owned_step:
  assumes "es_step ho s s'" "tasks_owned s" "held_ok s"
  shows "tasks_owned s'"
  using assms
proof (induction rule: es_step.induct)
  case (send_input s x)
  then show ?case by (intro owned_send_input)
next
  case (track t s x gone)
  then show ?case by (intro owned_track)
next
  case (start_timeout s)
  then show ?case by (intro owned_start_timeout)
next
  case (set_timeout t s x gone)
  then show ?case by (intro owned_set_timeout) (auto simp: held_ok_def Let_def)
next
  case (cancel_timeout s x taken)
  then show ?case by (intro owned_cancel)
next
  case (attach s x joined mode)
  then show ?case by (intro owned_attach)
next
  case (attach_checks mode s)
  then show ?case by (intro owned_drop_op[where gone = "OpAttach mode"]) (auto split: sum.splits)
next
  case (attach_refused mode s lease e)
  then have "tasks_owned (s\<lparr>es_ops := es_ops s - {#OpClaim mode#}\<rparr>)"
    by (intro owned_drop_op[where gone = "OpClaim mode"]) auto
  then show ?case by (rule owned_same) simp_all
next
  case (attach_spawns mode s lease)
  then show ?case by (intro owned_attach_spawns)
next
  case (attach_installs t s x gone displaced)
  then show ?case by (intro owned_install)
next
  case (joins t s)
  then show ?case by (intro owned_drop_op[where gone = "OpJoin t"]) (auto simp: task_live_def)
next
  case (release s x inputs forwarder timeout)
  then show ?case by (intro owned_release)
next
  case (release_aborts t ts s)
  then show ?case by (intro owned_release_aborts)
next
  case (release_awaits t ts s)
  then show ?case by (intro owned_drop_op[where gone = "OpAwait t ts"]) auto
next
  case (release_ends s)
  then have "tasks_owned (s\<lparr>es_ops := es_ops s - {#OpAbort []#}\<rparr>)"
    by (intro owned_drop_op[where gone = "OpAbort []"]) auto
  then show ?case by (rule owned_same) simp_all
next
  case (task_drops t s)
  then have "tasks_owned (s\<lparr>es_tasks := (es_tasks s)[t := (es_tasks s ! t)\<lparr>tk_phase := TaskDropped\<rparr>]\<rparr>)"
    by (intro owned_phase) simp_all
  then show ?case by (rule owned_same) simp_all
next
  case (task_finishes t s)
  then show ?case by (intro owned_phase) simp_all
next
  case (waits s status x h answer)
  then show ?case using wait_exit_keeps[of ho status "es_state s" "es_health s"]
    by (intro owned_same[OF waits(3)]) simp_all
qed (auto intro: owned_same)

lemma release_size: "op \<in># M \<Longrightarrow> is_release op \<Longrightarrow>
    size (filter_mset is_release M) = Suc (size (filter_mset is_release (M - {#op#})))"
  by (metis add_mset_remove_trivial_eq filter_mset_add_mset insert_DiffM size_add_mset)

lemma release_same: "\<not> is_release op \<Longrightarrow> filter_mset is_release (M - {#op#}) = filter_mset is_release M"
  by (simp add: filter_diff_mset)

lemma release_step: "es_step ho s s' \<Longrightarrow> release_ok s \<Longrightarrow> release_ok s'"
proof (induction rule: es_step.induct)
  case (release_aborts t ts s)
  then show ?case using release_size[OF release_aborts(1)] by (simp add: release_ok_def)
next
  case (release_awaits t ts s)
  then show ?case using release_size[OF release_awaits(1)] by (simp add: release_ok_def)
next
  case (release_ends s)
  then show ?case using release_size[OF release_ends(1)] by (auto simp: release_ok_def split: if_splits)
next
  case (attach_installs t s x gone displaced)
  then show ?case
    by (cases displaced; cases gone) (auto simp: release_ok_def release_same es_op_defs opt_list_def split: if_splits)
next
  case (cancel_timeout s x taken)
  then show ?case by (cases taken) (auto simp: release_ok_def es_op_defs opt_list_def)
qed (auto simp: release_ok_def es_op_defs wait_exit_def release_same split: if_splits option.splits sum.splits prod.splits)

lemma lease_step: "es_step ho s s' \<Longrightarrow> lease_ok s \<Longrightarrow> lease_ok s'"
proof (induction rule: es_step.induct)
  case (task_drops t s)
  then show ?case unfolding lease_ok_def by (auto simp: nth_list_update)
next
  case (task_finishes t s)
  then show ?case unfolding lease_ok_def by (auto simp: nth_list_update)
qed (auto simp: lease_ok_def spawned_def nth_append less_Suc_eq claim_output_def claim_consumer_def
    split: if_splits option.splits)

lemma exit_of_classify: "classify_exit ho status x h = (h', ended) \<Longrightarrow> exit_of status ended"
  by (auto simp: classify_exit_def exit_of_def Let_def split: exit_status.splits prod.splits if_splits)

lemma answers_step: "es_step ho s s' \<Longrightarrow> answers_ok s \<Longrightarrow> answers_ok s'"
proof (induction rule: es_step.induct)
  case (waits s status x h answer)
  then show ?case
    by (auto simp: answers_ok_def wait_exit_def dest: exit_of_classify split: option.splits prod.splits)
qed (auto simp: answers_ok_def es_op_defs split: if_splits option.splits)

definition es_ok :: "('m, 'h) es_sys \<Rightarrow> bool" where
  "es_ok s \<longleftrightarrow> tasks_owned s \<and> held_ok s \<and> release_ok s \<and> lease_ok s \<and> answers_ok s"

lemma es_reachable_ok: "es_reachable ho s \<Longrightarrow> es_ok s"
proof (induction rule: es_reachable.induct)
  case (start x handle process h)
  then show ?case
    by (auto simp: es_ok_def es_start_def tasks_owned_def task_live_def held_ok_def release_ok_def lease_ok_def answers_ok_def
        ExecutionState_new_def new_with_init_health_def new_init_session_def from_handle_def ExecutionState_rejected_def Let_def)
next
  case (step s s')
  then show ?case
    unfolding es_ok_def using owned_step held_step release_step lease_step answers_step by blast
qed

section \<open>Properties\<close>

text \<open>
  C20. Release. However the calls and tasks of an execution interleave, its resources are released once,
  and with them the reaper's slot of a process that shutdown manages. After the release the handle is gone,
  and every task is finished or aborted, except one that a call in flight still has: a call that finds
  the execution released when it stores its task, or an attach that joins a forwarder it displaced.
\<close>

theorem release_leaves_nothing:
  assumes "es_reachable ho s"
  shows "es_releases s \<le> 1 \<and> (es_slot_released s \<longleftrightarrow> es_releases s = 1 \<and> xs_shutdown_managed (es_state s)) \<and>
    (es_releases s = 1 \<longrightarrow> in_released (xs_inner (es_state s)) \<and> in_handle (xs_inner (es_state s)) = None \<and>
      (\<forall>t<length (es_tasks s). tk_phase (es_tasks s ! t) = TaskFinished \<or> tk_aborted (es_tasks s ! t) \<or>
         OpTrack t \<in># es_ops s \<or> OpSetTimeout t \<in># es_ops s \<or> OpInstall t \<in># es_ops s \<or>
         (OpJoin t \<in># es_ops s \<and> tk_kind (es_tasks s ! t) = ForwardTask)))"
proof -
  have ok: "tasks_owned s" "held_ok s" "release_ok s" using es_reachable_ok[OF assms] by (simp_all add: es_ok_def)
  have count: "es_releases s \<le> 1" "es_slot_released s \<longleftrightarrow> es_releases s = 1 \<and> xs_shutdown_managed (es_state s)"
    using ok(3) by (auto simp: release_ok_def split: if_splits)
  have rest: "in_released (xs_inner (es_state s))" "filter_mset is_release (es_ops s) = {#}" if "es_releases s = 1"
    using that ok(3) by (auto simp: release_ok_def split: if_splits)
  have held: "in_handle (xs_inner (es_state s)) = None" "\<not> inner_owns (xs_inner (es_state s)) t kind" if "es_releases s = 1" for t kind
    using rest(1)[OF that] ok(2) by (auto simp: held_ok_def Let_def inner_owns_def)
  have tasks: "tk_phase (es_tasks s ! t) = TaskFinished \<or> tk_aborted (es_tasks s ! t) \<or>
      OpTrack t \<in># es_ops s \<or> OpSetTimeout t \<in># es_ops s \<or> OpInstall t \<in># es_ops s \<or>
      (OpJoin t \<in># es_ops s \<and> tk_kind (es_tasks s ! t) = ForwardTask)" if rel: "es_releases s = 1" "t < length (es_tasks s)" for t
  proof (cases "task_live (es_tasks s) t")
    case True
    then have "es_owner s t" using ok(1) by (simp add: tasks_owned_def)
    then obtain op where op: "op \<in># es_ops s" "op_owns op t (tk_kind (es_tasks s ! t))"
      using held(2)[OF rel(1)] by (auto simp: es_owner_def)
    then have "is_release op \<Longrightarrow> op \<in># filter_mset is_release (es_ops s)" by simp
    then have "\<not> is_release op" using rest(2)[OF rel(1)] by auto
    then show ?thesis using op by (cases op) auto
  qed (use rel in \<open>auto simp: task_live_def\<close>)
  show ?thesis using count rest(1) held(1) tasks by blast
qed

text \<open>
  Every caller that waits for the exit reads one and the same classification of the exit that the
  reaper delivered, although diagnosing the death of a container can be done only once.
\<close>

theorem exit_classified_once:
  assumes "es_reachable ho s" "a \<in> set (es_answers s)" "b \<in> set (es_answers s)"
  shows "a = b \<and> (\<exists>status. es_exit s = Some status \<and> exit_of status a)"
proof -
  have "answers_ok s" using es_reachable_ok[OF assms(1)] by (simp add: es_ok_def)
  then have "xs_terminal_exit (es_state s) = Some a" "xs_terminal_exit (es_state s) = Some b"
    "\<exists>status. es_exit s = Some status \<and> exit_of status a"
    using assms(2,3) unfolding answers_ok_def by metis+
  then show ?thesis by simp
qed

text \<open>One forwarder at a time reads the output of an execution.\<close>

theorem forwarders_exclusive:
  assumes "es_reachable ho s" "t < length (es_tasks s)" "u < length (es_tasks s)"
    "tk_kind (es_tasks s ! t) = ForwardTask" "tk_phase (es_tasks s ! t) = TaskRunning"
    "tk_kind (es_tasks s ! u) = ForwardTask" "tk_phase (es_tasks s ! u) = TaskRunning"
  shows "u = t \<and> es_lease s"
proof -
  have "lease_ok s" using es_reachable_ok[OF assms(1)] by (simp add: es_ok_def)
  then show ?thesis using assms(2-) unfolding lease_ok_def by blast
qed

section \<open>Two callers attach at once\<close>

text \<open>
  The forwarder of the first caller ends before the caller stores it; meanwhile a second caller attaches
  and stores its own. The first caller then displaces a forwarder that still runs, and a release does
  not reach it.
\<close>

definition raced :: "nat option \<Rightarrow> es_task list \<Rightarrow> es_op multiset \<Rightarrow> bool \<Rightarrow> (unit, unit) es_sys" where
  "raced forwarder tasks ops lease =
     (es_start (with_inner (\<lambda>i. i\<lparr>in_output_task := forwarder\<rparr>)
        (ExecutionState_new \<lparr>eh_pid = 7, eh_stdin = True, eh_pty = None\<rparr> None)) ())
      \<lparr>es_tasks := tasks, es_ops := ops, es_lease := lease\<rparr>"

definition forwarder_in :: "task_phase \<Rightarrow> es_task" where
  "forwarder_in ph = (spawned ForwardTask)\<lparr>tk_phase := ph\<rparr>"

lemmas raced_defs = raced_def forwarder_in_def es_start_def ExecutionState_new_def from_handle_def with_inner_def spawned_def

lemma two_attach: "es_reachable ho (raced None [] {#OpClaim AttachLive, OpClaim AttachLive#} False)"
proof -
  have "es_reachable ho (es_start (ExecutionState_new \<lparr>eh_pid = 7, eh_stdin = True, eh_pty = None\<rparr> None) ())"
    by (rule es_reachable.start[where handle = "\<lparr>eh_pid = 7, eh_stdin = True, eh_pty = None\<rparr>" and process = None]) simp
  then have "es_reachable ho (raced None [] {#} False)" by (simp add: raced_defs)
  from es_reachable.step[OF this es_step.attach[of _ _ _ _ AttachLive]]
  have "es_reachable ho (raced None [] {#OpAttach AttachLive#} False)"
    by (simp add: raced_defs join_finished_output_task_def)
  from es_reachable.step[OF this es_step.attach_checks[of AttachLive]]
  have "es_reachable ho (raced None [] {#OpClaim AttachLive#} False)"
    by (simp add: raced_defs attach_check_def)
  from es_reachable.step[OF this es_step.attach[of _ _ _ _ AttachLive]]
  have "es_reachable ho (raced None [] {#OpAttach AttachLive, OpClaim AttachLive#} False)"
    by (simp add: raced_defs join_finished_output_task_def)
  from es_reachable.step[OF this es_step.attach_checks[of AttachLive]]
  show ?thesis by (simp add: raced_defs attach_check_def)
qed

lemma first_forwarder_ended: "es_reachable ho (raced None [forwarder_in TaskFinished] {#OpInstall 0, OpClaim AttachLive#} False)"
proof -
  from es_reachable.step[OF two_attach es_step.attach_spawns[of AttachLive _ True]]
  have "es_reachable ho (raced None [forwarder_in TaskRunning] {#OpInstall 0, OpClaim AttachLive#} True)"
    by (simp add: raced_defs claim_output_def claim_consumer_def)
  from es_reachable.step[OF this es_step.task_drops[of 0]]
  have "es_reachable ho (raced None [forwarder_in TaskDropped] {#OpInstall 0, OpClaim AttachLive#} False)"
    by (simp add: raced_defs)
  from es_reachable.step[OF this es_step.task_finishes[of 0]]
  show ?thesis by (simp add: raced_defs)
qed

lemma forwarder_displaced:
  "es_reachable ho (raced (Some 0) [forwarder_in TaskFinished, forwarder_in TaskRunning] {#OpJoin 1#} True)"
proof -
  from es_reachable.step[OF first_forwarder_ended es_step.attach_spawns[of AttachLive _ True]]
  have "es_reachable ho (raced None [forwarder_in TaskFinished, forwarder_in TaskRunning] {#OpInstall 1, OpInstall 0#} True)"
    by (simp add: raced_defs claim_output_def claim_consumer_def)
  from es_reachable.step[OF this es_step.attach_installs[of 1]]
  have "es_reachable ho (raced (Some 1) [forwarder_in TaskFinished, forwarder_in TaskRunning] {#OpInstall 0#} True)"
    by (simp add: raced_defs attach_install_def opt_list_def abort_tasks_def)
  from es_reachable.step[OF this es_step.attach_installs[of 0]]
  show ?thesis by (simp add: raced_defs attach_install_def opt_list_def abort_tasks_def)
qed

definition raced_released :: "(unit, unit) es_sys" where
  "raced_released = (raced None [(forwarder_in TaskFinished)\<lparr>tk_aborted := True\<rparr>, forwarder_in TaskRunning] {#OpJoin 1#} True)
     \<lparr>es_state := \<lparr>xs_inner = \<lparr>in_handle = None, in_input_tasks = [], in_output_task = None, in_timeout_task = None,
        in_released = True, in_init_health = False\<rparr>, xs_process = None, xs_shutdown_managed = True,
        xs_terminal_exit = None, xs_metadata = None\<rparr>,
      es_releases := 1, es_slot_released := True\<rparr>"

lemma raced_released_reachable: "es_reachable ho raced_released"
proof -
  let ?tasks = "[forwarder_in TaskFinished, forwarder_in TaskRunning]"
  let ?tasks' = "[(forwarder_in TaskFinished)\<lparr>tk_aborted := True\<rparr>, forwarder_in TaskRunning]"
  let ?s = "\<lambda>tasks ops. raced_released\<lparr>es_tasks := tasks, es_ops := ops, es_releases := 0, es_slot_released := False\<rparr>"
  from es_reachable.step[OF forwarder_displaced es_step.release]
  have "es_reachable ho (?s ?tasks {#OpAbort [0], OpJoin 1#})"
    by (simp add: raced_released_def raced_defs release_take_def opt_list_def abort_tasks_def)
  from es_reachable.step[OF this es_step.release_aborts[of 0 "[]"]]
  have "es_reachable ho (?s ?tasks' {#OpAwait 0 [], OpJoin 1#})"
    by (simp add: raced_released_def raced_defs abort_tasks_def)
  from es_reachable.step[OF this es_step.release_awaits[of 0 "[]"]]
  have "es_reachable ho (?s ?tasks' {#OpAbort [], OpJoin 1#})"
    by (simp add: raced_released_def raced_defs)
  from es_reachable.step[OF this es_step.release_ends]
  show ?thesis by (simp add: raced_released_def raced_defs)
qed

text \<open>
  C35. A release can return while a forwarder of the execution still runs and nobody has aborted it: the one
  that a racing attach displaced and waits for.
\<close>

theorem displaced_forwarder_survives_release:
  "\<exists>s. es_reachable ho (s :: (unit, unit) es_sys) \<and> es_releases s = 1 \<and> es_ops s = {#OpJoin 1#} \<and>
     tk_kind (es_tasks s ! 1) = ForwardTask \<and> tk_phase (es_tasks s ! 1) = TaskRunning \<and> \<not> tk_aborted (es_tasks s ! 1)"
  using raced_released_reachable by (intro exI[of _ raced_released]) (simp add: raced_released_def raced_defs)

theorem release_leaves_nothing_witness:
  "in_handle (xs_inner (es_state raced_released)) = None \<and> es_slot_released raced_released \<and>
   (tk_phase (es_tasks raced_released ! 0) = TaskFinished \<or> tk_aborted (es_tasks raced_released ! 0))"
  using release_leaves_nothing[OF raced_released_reachable[of "\<lparr>ih_is_running = \<lambda>_. True, ih_diagnose_exit = \<lambda>h. (h, [])\<rparr>"]]
  by (simp add: raced_released_def raced_defs)

theorem forwarders_exclusive_witness: "es_lease raced_released \<and> tk_phase (es_tasks raced_released ! 1) = TaskRunning"
  using forwarders_exclusive[OF raced_released_reachable[of "\<lparr>ih_is_running = \<lambda>_. True, ih_diagnose_exit = \<lambda>h. (h, [])\<rparr>"], of 1 1]
  by (simp add: raced_released_def raced_defs)

text \<open>A container whose init is gone tells its diagnosis once; two callers read it.\<close>

definition gone_container :: "nat health_ops" where
  "gone_container = \<lparr>ih_is_running = (\<lambda>_. False),
     ih_diagnose_exit = (\<lambda>n. (Suc n, if n = 0 then ''init exited'' else ''no output''))\<rparr>"

definition killed_exit :: execution_exit where
  "killed_exit = \<lparr>ex_exit_code = 0, ex_signal = 9, ex_error_message = ''init exited''\<rparr>"

definition killed_tenant :: "execution_exit list \<Rightarrow> (unit, nat) es_sys" where
  "killed_tenant answers =
     (es_start ((new_with_init_health \<lparr>eh_pid = 7, eh_stdin = True, eh_pty = None\<rparr> None)
        \<lparr>xs_terminal_exit := (if answers = [] then None else Some killed_exit)\<rparr>) (min 1 (length answers)))
       \<lparr>es_exit := Some (ExitSignal 9), es_answers := answers\<rparr>"

lemma killed_tenant_reachable: "es_reachable gone_container (killed_tenant [killed_exit, killed_exit])"
proof -
  have "es_reachable gone_container
      (es_start (new_with_init_health \<lparr>eh_pid = 7, eh_stdin = True, eh_pty = None\<rparr> None :: unit execution_state) 0)"
    by (rule es_reachable.start[where handle = "\<lparr>eh_pid = 7, eh_stdin = True, eh_pty = None\<rparr>" and process = None]) simp
  from es_reachable.step[OF this es_step.exits[where status = "ExitSignal 9"]]
  have "es_reachable gone_container (killed_tenant [])"
    by (simp add: killed_tenant_def es_start_def new_with_init_health_def from_handle_def)
  from es_reachable.step[OF this es_step.waits[where status = "ExitSignal 9"]]
  have "es_reachable gone_container (killed_tenant [killed_exit])"
    by (simp add: killed_tenant_def killed_exit_def es_start_def new_with_init_health_def from_handle_def wait_exit_def
        classify_exit_def check_container_death_def gone_container_def SIGKILL_def Let_def)
  from es_reachable.step[OF this es_step.waits[where status = "ExitSignal 9"]]
  show ?thesis
    by (simp add: killed_tenant_def es_start_def new_with_init_health_def from_handle_def wait_exit_def)
qed

theorem exit_classified_once_witness:
  "exit_of (ExitSignal 9) killed_exit \<and> es_health (killed_tenant [killed_exit, killed_exit]) = 1"
  using exit_classified_once[OF killed_tenant_reachable, of killed_exit killed_exit]
  by (simp add: killed_tenant_def es_start_def)

end
