(* ===== verification/Exec_Signals.thy ===== *)
theory Exec_Signals
  imports Exec_State
begin

text \<open>
  Signals to the process of an execution, from every caller at once: \<open>kill\<close> and
  \<open>signal_owned_process_if_current\<close> of \<open>src/src/guest/src/service/exec/state.rs\<close>, the timeout watcher of
  \<open>timeout.rs\<close>, and the release of the execution. Every system call is a step, and between two steps the rest of
  the guest may change the kernel in any way: the process may exit, be reaped and its identifier reused.
\<close>

section \<open>Callers and kernel\<close>

text \<open>
  \<open>ss_past\<close> are the states of the kernel so far, the present one last; a moment is an index of it. A call
  notes the moments of its check and of its \<open>getpgid\<close>, which no operation reads, and \<open>ss_kills\<close> logs the
  \<open>kill\<close> system calls. \<open>ss_lock\<close> is the call that holds the lock of the state.
\<close>

datatype sig_caller = ApiCall | WatchTask

record sig_call =
  sc_caller :: sig_caller
  sc_phase :: sig_phase
  sc_checked :: nat
  sc_grouped :: nat

record sig_kill =
  sk_call :: nat
  sk_target :: pid
  sk_signal :: signal
  sk_group :: bool
  sk_checked :: nat
  sk_grouped :: nat
  sk_at :: nat
  sk_released :: bool
  sk_sent :: bool

record ('m, 'k) sig_sys =
  ss_state :: "'m execution_state"
  ss_past :: "'k list"
  ss_lock :: "nat option"
  ss_calls :: "sig_call list"
  ss_kills :: "sig_kill list"








section \<open>The invariant\<close>

abbreviation "ss_process s \<equiv> xs_process (ss_state s)"












section \<open>Each step keeps it\<close>














lemma nth_snoc: "n < Suc (length xs) \<Longrightarrow> (xs @ [x]) ! n = (if n = length xs then x else xs ! n)"
  by (simp add: nth_append)








section \<open>The property\<close>


section \<open>A run\<close>








end
