(* ===== verification/Kvm_Vcpu.thy ===== *)
theory Kvm_Vcpu
  imports Chipset
begin

text \<open>
  The contract of a vCPU, \<open>Vcpu\<close> of \<open>src/src/hypervisor/src/vcpu.rs\<close>, as the locale \<open>vcpu_backend\<close>, and the
  KVM backend that keeps it: the decoding of exits and the pending access of
  \<open>src/src/hypervisor/src/kvm/vcpu.rs\<close>, and the kick of \<open>kvm/kick.rs\<close>. The kernel's calls, the layout of
  its shared page and the numbers of its exits are parameters.
\<close>

section \<open>The contract of a vCPU\<close>

text \<open>
  \<open>carries_access\<close> says that an exit lends the VMM an access to handle. Completing with nothing pending
  succeeds and does nothing, success consumes the access, and a failure keeps it.
\<close>

locale vcpu_backend =
  fixes run :: "'v \<Rightarrow> ('v \<times> (hypervisor_error + 'e)) option"
    and complete :: "'v \<Rightarrow> 'v \<times> (hypervisor_error + unit)"
    and access_pending :: "'v \<Rightarrow> bool"
    and carries_access :: "'e \<Rightarrow> bool"
  assumes complete_idle: "\<not> access_pending v \<Longrightarrow> complete v = (v, Inr ())"
    and complete_consumes: "complete v = (v', Inr ()) \<Longrightarrow> \<not> access_pending v'"
    and complete_retains: "complete v = (v', Inl err) \<Longrightarrow> access_pending v'"
    and run_lends: "run v = Some (v', Inr e) \<Longrightarrow> carries_access e \<Longrightarrow> access_pending v'"
begin

lemma completes_once: "complete v = (v', Inr ()) \<Longrightarrow> complete v' = (v', Inr ())"
  by (rule complete_idle[OF complete_consumes])

lemma complete_outcome: "complete v = (v', r) \<Longrightarrow> access_pending v' \<longleftrightarrow> r \<noteq> Inr ()"
  by (cases r) (auto dest: complete_consumes complete_retains)

lemma complete_fails_pending: "complete v = (v', Inl err) \<Longrightarrow> access_pending v"
  using complete_idle[of v] by auto

end

section \<open>Decoding an exit\<close>

record kvm_io =
  io_direction :: u8
  io_size :: u8
  io_port :: u16
  io_count :: u32
  io_data_offset :: u64

text \<open>The array \<open>[u8; 8]\<close>.\<close>

datatype u8x8 = U8x8 u8 u8 u8 u8 u8 u8 u8 u8

primrec array_bytes :: "u8x8 \<Rightarrow> u8 list" where
  "array_bytes (U8x8 a b c d e f g h) = [a, b, c, d, e, f, g, h]"

lemma length_array_bytes [simp]: "length (array_bytes x) = 8"
  by (cases x) simp

record kvm_mmio =
  mm_phys_addr :: u64
  mm_data :: u8x8
  mm_len :: u32
  mm_is_write :: u8

record kvm_run =
  kr_exit_reason :: u32
  kr_io :: kvm_io
  kr_mmio :: kvm_mmio
  kr_system_event :: u32

text \<open>The constants of the crate \<open>kvm_bindings\<close>, and the size of the page's header.\<close>

record kvm_abi =
  abi_exit_io :: u32
  abi_exit_mmio :: u32
  abi_exit_intr :: u32
  abi_exit_hlt :: u32
  abi_exit_shutdown :: u32
  abi_exit_system_event :: u32
  abi_io_in :: u32
  abi_io_out :: u32
  abi_event_shutdown :: u32
  abi_event_reset :: u32
  abi_header :: nat

definition unsupported_exit :: "u32 \<Rightarrow> u32 \<Rightarrow> hypervisor_error" where
  "unsupported_exit i reason =
     UnhandledExit i (''KVM exit '' @ decimal reason @ '' has an unsupported reason or I/O shape'')"

definition decode_io :: "kvm_abi \<Rightarrow> hypervisor_error \<Rightarrow> kvm_io \<Rightarrow> u8 list \<Rightarrow> hypervisor_error + vcpu_exit" where
  "decode_io abi unsupported access page =
     (let offset = io_data_offset access; n = unat (io_size access) in
      if io_count access \<noteq> 1 \<or> n \<notin> {1, 2, 4} \<or> unat offset < abi_header abi
         \<or> (case checked_add offset (of_nat n) of None \<Rightarrow> True | Some e \<Rightarrow> length page < unat e)
         \<or> ucast (io_direction access) \<notin> {abi_io_in abi, abi_io_out abi}
      then Inl unsupported
      else let bytes = take n (drop (unat offset) page) in
        if ucast (io_direction access) = abi_io_in abi then Inr (IoIn (io_port access) bytes)
        else Inr (IoOut (io_port access) bytes))"

definition decode_mmio :: "hypervisor_error \<Rightarrow> kvm_mmio \<Rightarrow> hypervisor_error + vcpu_exit" where
  "decode_mmio unsupported access =
     (if mm_len access \<notin> {1, 2, 4, 8} \<or> 1 < mm_is_write access then Inl unsupported
      else let bytes = take (unat (mm_len access)) (array_bytes (mm_data access)) in
        if mm_is_write access = 0 then Inr (MmioRead (mm_phys_addr access) bytes)
        else Inr (MmioWrite (mm_phys_addr access) bytes))"

definition decode_exit :: "kvm_abi \<Rightarrow> u32 \<Rightarrow> kvm_run \<Rightarrow> u8 list \<Rightarrow> hypervisor_error + vcpu_exit" where
  "decode_exit abi i run page =
     (let reason = kr_exit_reason run; unsupported = unsupported_exit i reason in
      if reason = abi_exit_io abi then decode_io abi unsupported (kr_io run) page
      else if reason = abi_exit_mmio abi then decode_mmio unsupported (kr_mmio run)
      else if reason = abi_exit_intr abi then Inr ExitInterrupted
      else if reason = abi_exit_hlt abi then Inr ExitHalted
      else if reason = abi_exit_shutdown abi then Inr ExitReset
      else if reason = abi_exit_system_event abi then
        (if kr_system_event run = abi_event_shutdown abi then Inr ExitShutdown
         else if kr_system_event run = abi_event_reset abi then Inr ExitReset
         else Inl unsupported)
      else Inl unsupported)"

section \<open>Running and completing\<close>

text \<open>
  \<open>EINTR\<close> is \<open>Interrupted\<close> and \<open>EAGAIN\<close> is \<open>WouldBlock\<close>, as in the standard library. \<open>kc_complete\<close> is the
  entry with the immediate exit set.
\<close>

record 'k kvm_cpu_ops =
  kc_run :: "'k \<Rightarrow> 'k \<times> (error_kind + kvm_run \<times> u8 list)"
  kc_complete :: "'k \<Rightarrow> 'k \<times> (error_kind + unit)"
  kc_drain :: "'k \<Rightarrow> 'k \<times> (error_kind + unit)"

record kvm_vcpu =
  kv_id :: u32
  kv_pending_io :: bool

definition KvmVcpu_new :: "u32 \<Rightarrow> kvm_vcpu" where
  "KvmVcpu_new i = \<lparr>kv_id = i, kv_pending_io = False\<rparr>"

definition KvmVcpu_run ::
  "kvm_abi \<Rightarrow> 'k kvm_cpu_ops \<Rightarrow> kvm_vcpu \<times> 'k \<Rightarrow> (kvm_vcpu \<times> 'k) \<times> (hypervisor_error + vcpu_exit)" where
  "KvmVcpu_run abi ops vk =
     (let (v, k) = vk in
      case kc_run ops k of
        (k, Inr (run, page)) \<Rightarrow>
          ((v\<lparr>kv_pending_io := (kr_exit_reason run \<in> {abi_exit_io abi, abi_exit_mmio abi})\<rparr>, k),
           decode_exit abi (kv_id v) run page)
      | (k, Inl error) \<Rightarrow>
          if error = WouldBlock then ((v, k), Inr ExitInterrupted)
          else if error = Interrupted then
            (case kc_drain ops k of
               (k, Inl source) \<Rightarrow> ((v, k), Inl (RunVcpu (kv_id v) source))
             | (k, Inr _) \<Rightarrow> ((v\<lparr>kv_pending_io := False\<rparr>, k), Inr ExitInterrupted))
          else ((v, k), Inl (RunVcpu (kv_id v) error)))"

definition KvmVcpu_complete_pending_io ::
  "'k kvm_cpu_ops \<Rightarrow> kvm_vcpu \<times> 'k \<Rightarrow> (kvm_vcpu \<times> 'k) \<times> (hypervisor_error + unit)" where
  "KvmVcpu_complete_pending_io ops vk =
     (let (v, k) = vk in
      if \<not> kv_pending_io v then ((v, k), Inr ())
      else case kc_complete ops k of
        (k, Inl error) \<Rightarrow>
          if error = Interrupted then ((v\<lparr>kv_pending_io := False\<rparr>, k), Inr ())
          else ((v, k), Inl (CompletePendingIo (kv_id v) error))
      | (k, Inr _) \<Rightarrow> ((v, k), Inl (CompletePendingIo (kv_id v) OtherKind)))"

fun kvm_carries_access :: "vcpu_exit \<Rightarrow> bool" where
  "kvm_carries_access (MmioRead a bytes) \<longleftrightarrow> True"
| "kvm_carries_access (MmioWrite a bytes) \<longleftrightarrow> True"
| "kvm_carries_access (IoIn p bytes) \<longleftrightarrow> True"
| "kvm_carries_access (IoOut p bytes) \<longleftrightarrow> True"
| "kvm_carries_access _ \<longleftrightarrow> False"

lemma decode_carries:
  assumes "decode_exit abi i run page = Inr e" "kvm_carries_access e"
  shows "kr_exit_reason run \<in> {abi_exit_io abi, abi_exit_mmio abi}"
proof (rule ccontr)
  assume "\<not> ?thesis"
  then have "e \<in> {ExitInterrupted, ExitHalted, ExitReset, ExitShutdown}"
    using assms(1) by (auto simp: decode_exit_def Let_def split: if_splits)
  then show False using assms(2) by auto
qed

interpretation kvm_vcpu: vcpu_backend "\<lambda>vk. Some (KvmVcpu_run abi ops vk)" "KvmVcpu_complete_pending_io ops"
  "\<lambda>vk. kv_pending_io (fst vk)" kvm_carries_access for abi ops
proof unfold_locales
  fix vk vk' e assume "Some (KvmVcpu_run abi ops vk) = Some (vk', Inr e)" "kvm_carries_access e"
  then show "kv_pending_io (fst vk')"
    by (auto simp: KvmVcpu_run_def dest: decode_carries split: prod.splits sum.splits if_splits)
qed (auto simp: KvmVcpu_complete_pending_io_def split: prod.splits sum.splits if_splits)

text \<open>What an exit lends: the bytes of the shared page a port access names, or those of the record of a memory access.\<close>

definition lent_port :: "kvm_abi \<Rightarrow> kvm_run \<Rightarrow> u8 list \<Rightarrow> u16 \<Rightarrow> u8 list \<Rightarrow> bool" where
  "lent_port abi run page port bytes \<longleftrightarrow>
     (let access = kr_io run; offset = unat (io_data_offset access) in
      kr_exit_reason run = abi_exit_io abi \<and> io_count access = 1 \<and> port = io_port access \<and>
      length bytes = unat (io_size access) \<and> length bytes \<in> {1, 2, 4} \<and>
      abi_header abi \<le> offset \<and> offset + length bytes \<le> length page \<and>
      (\<forall>i<length bytes. bytes ! i = page ! (offset + i)))"

definition lent_memory :: "kvm_abi \<Rightarrow> kvm_run \<Rightarrow> u64 \<Rightarrow> u8 list \<Rightarrow> bool" where
  "lent_memory abi run a bytes \<longleftrightarrow>
     (let access = kr_mmio run in
      kr_exit_reason run = abi_exit_mmio abi \<and> a = mm_phys_addr access \<and>
      length bytes = unat (mm_len access) \<and> length bytes \<in> {1, 2, 4, 8} \<and>
      (\<forall>i<length bytes. bytes ! i = array_bytes (mm_data access) ! i))"

fun exit_lends :: "kvm_abi \<Rightarrow> kvm_run \<Rightarrow> u8 list \<Rightarrow> vcpu_exit \<Rightarrow> bool" where
  "exit_lends abi run page (IoIn port bytes) \<longleftrightarrow>
     lent_port abi run page port bytes \<and> ucast (io_direction (kr_io run)) = abi_io_in abi"
| "exit_lends abi run page (IoOut port bytes) \<longleftrightarrow>
     lent_port abi run page port bytes \<and> ucast (io_direction (kr_io run)) = abi_io_out abi"
| "exit_lends abi run page (MmioRead a bytes) \<longleftrightarrow> lent_memory abi run a bytes \<and> mm_is_write (kr_mmio run) = 0"
| "exit_lends abi run page (MmioWrite a bytes) \<longleftrightarrow> lent_memory abi run a bytes \<and> mm_is_write (kr_mmio run) = 1"
| "exit_lends abi run page _ \<longleftrightarrow> False"

lemma decode_io_lends:
  assumes "decode_io abi u (kr_io run) page = Inr e" "kr_exit_reason run = abi_exit_io abi"
  shows "exit_lends abi run page e"
proof -
  let ?io = "kr_io run"
  let ?off = "io_data_offset ?io" and ?n = "unat (io_size ?io)"
  let ?bytes = "take ?n (drop (unat ?off) page)"
  from assms(1) obtain last where e: "checked_add ?off (of_nat ?n) = Some last" "unat last \<le> length page"
      "?n \<in> {1, 2, 4}" "abi_header abi \<le> unat ?off" "io_count ?io = 1"
      "e = IoIn (io_port ?io) ?bytes \<and> ucast (io_direction ?io) = abi_io_in abi \<or>
       e = IoOut (io_port ?io) ?bytes \<and> ucast (io_direction ?io) = abi_io_out abi"
    by (auto simp: decode_io_def Let_def split: if_splits option.splits)
  have "unat (of_nat ?n :: u64) = ?n"
    unfolding unsigned_of_nat of_nat_id by (rule take_bit_nat_eq_self) (use e(3) in auto)
  then have "unat last = unat ?off + ?n" using e(1) unfolding checked_add_Some by presburger
  then have fits: "unat ?off + ?n \<le> length page" using e(2) by simp
  then have "length ?bytes = ?n" by simp
  then have "lent_port abi run page (io_port ?io) ?bytes"
    unfolding lent_port_def Let_def using e(3-5) fits assms(2) by (simp add: nth_take)
  then show ?thesis using e(6) by (elim disjE conjE) simp_all
qed

lemma decode_mmio_lends:
  assumes "decode_mmio u (kr_mmio run) = Inr e" "kr_exit_reason run = abi_exit_mmio abi"
  shows "exit_lends abi run page e"
proof -
  let ?mm = "kr_mmio run"
  let ?bytes = "take (unat (mm_len ?mm)) (array_bytes (mm_data ?mm))"
  have len: "mm_len ?mm \<in> {1, 2, 4, 8}" and wr: "mm_is_write ?mm \<le> 1"
    and e: "e = (if mm_is_write ?mm = 0 then MmioRead (mm_phys_addr ?mm) ?bytes else MmioWrite (mm_phys_addr ?mm) ?bytes)"
    using assms(1) by (auto simp: decode_mmio_def Let_def split: if_splits)
  have n: "unat (mm_len ?mm) \<in> {1, 2, 4, 8}" using len by auto
  then have "length ?bytes = unat (mm_len ?mm)" by auto
  then have "lent_memory abi run (mm_phys_addr ?mm) ?bytes"
    unfolding lent_memory_def Let_def using n assms(2) by (simp add: nth_take)
  moreover have "mm_is_write ?mm = 0 \<or> mm_is_write ?mm = 1"
    using wr by (metis word_le_nat_alt unat_1 le_Suc_eq le_zero_eq One_nat_def unat_eq_zero word_unat_eq_iff)
  ultimately show ?thesis by (auto simp: e)
qed

lemma decode_exit_lends:
  assumes "decode_exit abi i run page = Inr e" "kvm_carries_access e"
  shows "exit_lends abi run page e"
proof -
  have "kr_exit_reason run \<in> {abi_exit_io abi, abi_exit_mmio abi}" using decode_carries[OF assms] .
  then show ?thesis using assms(1)
    by (auto simp: decode_exit_def Let_def intro: decode_io_lends decode_mmio_lends split: if_splits)
qed

text \<open>
  C38. What an exit lends to the VMM, and for how long. The bytes of a port access are exactly the one, two
  or four bytes of the shared page that the exit names, behind the header and inside the page, and only for
  a single transfer; those of a memory access are the first one, two, four or eight of the array in the exit
  record, with the address and the direction the kernel reports. After such an exit the access is pending.
  Completing it enters the kernel once, with the immediate exit; the access is consumed exactly when that
  entry is interrupted, after which completing again changes nothing, and a failed completion leaves it
  pending.
\<close>

theorem kvm_exits_confined:
  assumes "KvmVcpu_run abi ops (v, k) = ((v', k'), Inr e)" "kvm_carries_access e"
  shows "kv_pending_io v' \<and> (\<exists>run page. kc_run ops k = (k', Inr (run, page)) \<and> exit_lends abi run page e) \<and>
    (\<forall>vk r. KvmVcpu_complete_pending_io ops (v', k') = (vk, r) \<longrightarrow>
       snd vk = fst (kc_complete ops k') \<and> (r = Inr () \<longleftrightarrow> snd (kc_complete ops k') = Inl Interrupted) \<and>
       (kv_pending_io (fst vk) \<longleftrightarrow> r \<noteq> Inr ()) \<and>
       (r = Inr () \<longrightarrow> KvmVcpu_complete_pending_io ops vk = (vk, Inr ())))"
proof (intro conjI allI impI)
  obtain run page where run: "kc_run ops k = (k', Inr (run, page))" "decode_exit abi (kv_id v) run page = Inr e"
    using assms by (auto simp: KvmVcpu_run_def split: prod.splits sum.splits if_splits)
  then show "\<exists>run page. kc_run ops k = (k', Inr (run, page)) \<and> exit_lends abi run page e"
    using decode_exit_lends[OF run(2) assms(2)] by blast
  show p: "kv_pending_io v'"
    using kvm_vcpu.run_lends[of abi ops "(v, k)" "(v', k')" e] assms by simp
  fix vk r assume c: "KvmVcpu_complete_pending_io ops (v', k') = (vk, r)"
  then show "snd vk = fst (kc_complete ops k')" "r = Inr () \<longleftrightarrow> snd (kc_complete ops k') = Inl Interrupted"
    using p by (auto simp: KvmVcpu_complete_pending_io_def split: prod.splits sum.splits if_splits)
  show "kv_pending_io (fst vk) \<longleftrightarrow> r \<noteq> Inr ()" by (rule kvm_vcpu.complete_outcome[OF c])
  show "KvmVcpu_complete_pending_io ops vk = (vk, Inr ())" if "r = Inr ()"
    using c that by (intro kvm_vcpu.completes_once) simp
qed

text \<open>A port read of two bytes at the end of a page with a header of four.\<close>

definition linux_abi :: kvm_abi where
  "linux_abi = \<lparr>abi_exit_io = 2, abi_exit_mmio = 6, abi_exit_intr = 10, abi_exit_hlt = 5, abi_exit_shutdown = 8,
     abi_exit_system_event = 24, abi_io_in = 0, abi_io_out = 1, abi_event_shutdown = 1, abi_event_reset = 2, abi_header = 4\<rparr>"

definition port_read_run :: kvm_run where
  "port_read_run = \<lparr>kr_exit_reason = 2, kr_io = \<lparr>io_direction = 0, io_size = 2, io_port = 0x60, io_count = 1, io_data_offset = 4\<rparr>,
     kr_mmio = \<lparr>mm_phys_addr = 0, mm_data = U8x8 0 0 0 0 0 0 0 0, mm_len = 0, mm_is_write = 0\<rparr>, kr_system_event = 0\<rparr>"

definition one_exit_ops :: "unit kvm_cpu_ops" where
  "one_exit_ops = \<lparr>kc_run = (\<lambda>k. (k, Inr (port_read_run, [0, 0, 0, 0, 7, 8]))), kc_complete = (\<lambda>k. (k, Inl Interrupted)),
     kc_drain = (\<lambda>k. (k, Inr ()))\<rparr>"

lemma one_exit_runs:
  "KvmVcpu_run linux_abi one_exit_ops (KvmVcpu_new 0, ()) = ((\<lparr>kv_id = 0, kv_pending_io = True\<rparr>, ()), Inr (IoIn 0x60 [7, 8]))"
  by (simp add: KvmVcpu_run_def one_exit_ops_def linux_abi_def port_read_run_def decode_exit_def decode_io_def
      checked_add_def KvmVcpu_new_def)

theorem kvm_exits_confined_witness:
  "exit_lends linux_abi port_read_run [0, 0, 0, 0, 7, 8] (IoIn 0x60 [7, 8]) \<and>
   KvmVcpu_complete_pending_io one_exit_ops (\<lparr>kv_id = 0, kv_pending_io = True\<rparr>, ()) =
     ((\<lparr>kv_id = 0, kv_pending_io = False\<rparr>, ()), Inr ())"
proof
  show "exit_lends linux_abi port_read_run [0, 0, 0, 0, 7, 8] (IoIn 0x60 [7, 8])"
    using kvm_exits_confined[OF one_exit_runs] by (simp add: one_exit_ops_def)
qed (simp add: KvmVcpu_complete_pending_io_def one_exit_ops_def)

section \<open>Kicks\<close>

text \<open>
  The target of the kicks of one worker, with the signals the kernel has queued for it, and whether a drain
  has failed. The signal stays blocked outside \<open>KVM_RUN\<close>, so a queued one makes the next entry return
  \<open>EINTR\<close>, after which the worker drains.
\<close>

record kick_target =
  kt_thread :: bool
  kt_pending :: bool
  kt_queued :: nat
  kt_failed :: bool

definition WorkerSignal_reserve :: kick_target where
  "WorkerSignal_reserve = \<lparr>kt_thread = True, kt_pending = False, kt_queued = 0, kt_failed = False\<rparr>"

text \<open>\<open>sent\<close> is what \<open>pthread_kill\<close> answers.\<close>

definition kick :: "u32 \<Rightarrow> error_kind + unit \<Rightarrow> kick_target \<Rightarrow> kick_target \<times> (hypervisor_error + unit)" where
  "kick i sent t =
     (if kt_thread t \<and> \<not> kt_pending t then
        (case sent of
           Inl e \<Rightarrow> (t, Inl (KickVcpu i e))
         | Inr _ \<Rightarrow> (t\<lparr>kt_pending := True, kt_queued := kt_queued t + 1\<rparr>, Inr ()))
      else (t, Inr ()))"

text \<open>\<open>taken\<close> is the error of \<open>sigtimedwait\<close>, if any, and the signals it left.\<close>

definition kick_drain :: "error_kind + unit \<Rightarrow> nat \<Rightarrow> kick_target \<Rightarrow> kick_target \<times> (error_kind + unit)" where
  "kick_drain taken rest t =
     (case taken of
        Inr _ \<Rightarrow> (t\<lparr>kt_queued := 0, kt_pending := False\<rparr>, Inr ())
      | Inl e \<Rightarrow> (t\<lparr>kt_queued := min rest (kt_queued t), kt_failed := True\<rparr>, Inl e))"

definition kick_drop :: "kick_target \<Rightarrow> kick_target" where
  "kick_drop t = t\<lparr>kt_thread := False\<rparr>"

text \<open>Dropping the worker's signal: no kick reaches the thread any more, and what is queued is consumed.\<close>

definition WorkerSignal_drop :: "error_kind + unit \<Rightarrow> nat \<Rightarrow> kick_target \<Rightarrow> kick_target" where
  "WorkerSignal_drop taken rest t =
     (let t = t\<lparr>kt_thread := False\<rparr> in
      case taken of
        Inr _ \<Rightarrow> t\<lparr>kt_queued := 0\<rparr>
      | Inl _ \<Rightarrow> t\<lparr>kt_queued := min rest (kt_queued t), kt_failed := True\<rparr>)"

inductive kick_step :: "kick_target \<Rightarrow> kick_target \<Rightarrow> bool" where
  kicks: "kick_step t (fst (kick i sent t))"
| drains: "kick_step t (fst (kick_drain taken rest t))"
| drops: "kick_step t (WorkerSignal_drop taken rest t)"
| thread_exits: "kick_step t (kick_drop t)"

lemma kick_invariant:
  assumes "kick_step\<^sup>*\<^sup>* WorkerSignal_reserve t"
  shows "kt_queued t \<le> 1 \<and> (0 < kt_queued t \<longrightarrow> kt_pending t) \<and> (\<not> kt_failed t \<longrightarrow> kt_thread t \<longrightarrow> kt_pending t \<longrightarrow> kt_queued t = 1)"
  using assms
proof (induction rule: rtranclp_induct)
  case base
  show ?case by (simp add: WorkerSignal_reserve_def)
next
  case (step t t')
  from step(2,3) show ?case
    by (cases rule: kick_step.cases) (auto simp: kick_def kick_drain_def kick_drop_def WorkerSignal_drop_def Let_def split: sum.splits)
qed

text \<open>
  A kick is not lost and kicks do not pile up: while the worker lives, a kick that succeeded leaves
  exactly one signal queued, however many came before, until the worker drains; after the vCPU is
  dropped a kick sends nothing.
\<close>

theorem kicks_reach:
  assumes "kick_step\<^sup>*\<^sup>* WorkerSignal_reserve t" "\<not> kt_failed t" "kick i sent t = (t', Inr ())"
  shows "kt_queued t' \<le> 1 \<and> (kt_thread t \<longrightarrow> kt_queued t' = 1) \<and> (\<not> kt_thread t \<longrightarrow> t' = t)"
  using kick_invariant[OF assms(1)] assms(2,3) by (auto simp: kick_def split: if_splits sum.splits)

theorem kicks_reach_witness:
  "kt_queued (fst (kick 0 (Inr ()) (fst (kick 0 (Inr ()) WorkerSignal_reserve)))) = 1"
proof -
  let ?t = "fst (kick 0 (Inr ()) WorkerSignal_reserve)"
  have "kick_step\<^sup>*\<^sup>* WorkerSignal_reserve ?t" by (rule r_into_rtranclp, rule kick_step.kicks)
  moreover have "\<not> kt_failed ?t" "kt_thread ?t" "kick 0 (Inr ()) ?t = (?t, Inr ())"
    by (simp_all add: kick_def WorkerSignal_reserve_def)
  ultimately show ?thesis using kicks_reach[of ?t 0 "Inr ()" ?t] by simp
qed

end
