(* ===== verification/Hvf_Vcpu.thy ===== *)
theory Hvf_Vcpu
  imports Kvm_Vcpu
begin

text \<open>
  The vCPU of macOS on Arm, \<open>HvfVcpu\<close> of \<open>src/src/hypervisor/src/hvf/vcpu.rs\<close>: the decoding of its exits
  (\<open>hvf/syndrome.rs\<close>), the PSCI calls it serves (\<open>hvf/psci.rs\<close>), the emulated system registers, and
  the completion of an access. The registers and the entry into the guest are the host's, a parameter.
\<close>

section \<open>Syndromes\<close>

definition EC_WFX :: u64 where "EC_WFX = 0x01"
definition EC_HVC64 :: u64 where "EC_HVC64 = 0x16"
definition EC_SMC64 :: u64 where "EC_SMC64 = 0x17"
definition EC_SYS64 :: u64 where "EC_SYS64 = 0x18"
definition EC_DATA_ABORT_LOWER :: u64 where "EC_DATA_ABORT_LOWER = 0x24"

definition ISV :: u64 where "ISV = push_bit 24 1"
definition SSE :: u64 where "SSE = push_bit 21 1"
definition SF :: u64 where "SF = push_bit 15 1"
definition CM :: u64 where "CM = push_bit 8 1"
definition S1PTW :: u64 where "S1PTW = push_bit 7 1"
definition WNR :: u64 where "WNR = push_bit 6 1"

record mmio_access =
  ma_len :: nat
  ma_write :: bool
  ma_register :: u8
  ma_sign_extend :: bool
  ma_sixty_four :: bool

record sys_reg_access =
  sr_op0 :: u8
  sr_op1 :: u8
  sr_crn :: u8
  sr_crm :: u8
  sr_op2 :: u8
  sr_register :: u8
  sr_read :: bool

datatype syndrome =
    SynMmio mmio_access
  | CacheMaintenance
  | Hvc
  | Smc
  | SysReg sys_reg_access
  | Wfx
  | Unhandled string

definition data_abort :: "u64 \<Rightarrow> syndrome" where
  "data_abort iss =
     (if iss AND CM \<noteq> 0 then CacheMaintenance
      else if iss AND ISV = 0 \<or> iss AND S1PTW \<noteq> 0 then
        Unhandled (''data abort with ISS '' @ lower_hex iss @ '' names no access'')
      else SynMmio \<lparr>ma_len = 2 ^ unat (drop_bit 22 iss AND 0b11), ma_write = (iss AND WNR \<noteq> 0),
        ma_register = ucast (drop_bit 16 iss AND 0x1f), ma_sign_extend = (iss AND SSE \<noteq> 0),
        ma_sixty_four = (iss AND SF \<noteq> 0)\<rparr>)"

definition sys_field :: "u64 \<Rightarrow> nat \<Rightarrow> nat \<Rightarrow> u8" where
  "sys_field iss shift width = ucast (drop_bit shift iss AND (push_bit width 1 - 1))"

definition SysRegAccess_decode :: "u64 \<Rightarrow> sys_reg_access" where
  "SysRegAccess_decode iss =
     \<lparr>sr_op0 = sys_field iss 20 2, sr_op1 = sys_field iss 14 3, sr_crn = sys_field iss 10 4, sr_crm = sys_field iss 1 4,
      sr_op2 = sys_field iss 17 3, sr_register = sys_field iss 5 5, sr_read = (iss AND 1 \<noteq> 0)\<rparr>"

definition Syndrome_decode :: "u64 \<Rightarrow> syndrome" where
  "Syndrome_decode esr =
     (let iss = esr AND 0x1ffffff; ec = drop_bit 26 esr AND 0x3f in
      if ec = EC_DATA_ABORT_LOWER then data_abort iss
      else if ec = EC_HVC64 then Hvc
      else if ec = EC_SMC64 then Smc
      else if ec = EC_SYS64 then SysReg (SysRegAccess_decode iss)
      else if ec = EC_WFX then Wfx
      else Unhandled (''exception class '' @ lower_hex ec @ '', syndrome '' @ lower_hex esr))"

definition MmioAccess_extend :: "mmio_access \<Rightarrow> u64 \<Rightarrow> u64" where
  "MmioAccess_extend a raw =
     (let unused = 64 - 8 * ma_len a;
          v = (if ma_sign_extend a \<and> 0 < unused then signed_drop_bit unused (push_bit unused raw) else raw)
      in if ma_sixty_four a then v else v AND ucast (- 1 :: u32))"

text \<open>The value a read returns, or 0 after a write, and the OS lock after it; \<open>None\<close> when it is not emulated.\<close>

definition SysRegAccess_emulate :: "sys_reg_access \<Rightarrow> bool \<Rightarrow> u64 \<Rightarrow> (bool \<times> u64) option" where
  "SysRegAccess_emulate a os_lock written =
     (if sr_op0 a = 2 \<and> sr_op1 a = 0 \<and> sr_crn a = 1 \<and> sr_crm a = 0 \<and> sr_op2 a = 4 \<and> \<not> sr_read a
      then Some (written AND 1 \<noteq> 0, 0)
      else if sr_op0 a = 2 \<and> sr_op1 a = 0 \<and> sr_crn a = 1 \<and> sr_crm a = 1 \<and> sr_op2 a = 4 \<and> sr_read a
      then Some (os_lock, push_bit 3 1 OR push_bit 1 (of_bool os_lock))
      else if sr_op0 a = 2 then Some (os_lock, 0)
      else if sr_op0 a = 3 \<and> sr_op1 a = 0 \<and> sr_crn a = 0 \<and> 1 \<le> sr_crm a \<and> sr_crm a \<le> 7 \<and> sr_read a
      then Some (os_lock, 0)
      else None)"

section \<open>PSCI\<close>

definition FN_VERSION :: u32 where "FN_VERSION = 0x84000000"
definition FN_MIGRATE_INFO_TYPE :: u32 where "FN_MIGRATE_INFO_TYPE = 0x84000006"
definition FN_SYSTEM_OFF :: u32 where "FN_SYSTEM_OFF = 0x84000008"
definition FN_SYSTEM_RESET :: u32 where "FN_SYSTEM_RESET = 0x84000009"
definition FN64_CPU_ON :: u32 where "FN64_CPU_ON = 0xc4000003"
definition VERSION_0_2 :: u64 where "VERSION_0_2 = 2"
definition TRUSTED_OS_NOT_PRESENT :: u64 where "TRUSTED_OS_NOT_PRESENT = 2"
definition NOT_SUPPORTED :: u64 where "NOT_SUPPORTED = - 1"

datatype psci_call =
    PsciVersion
  | MigrateInfoType
  | SystemOff
  | SystemReset
  | PsciCpuOn u64 u64 u64
  | NotSupported

definition PsciCall_decode :: "u64 \<Rightarrow> u64 \<Rightarrow> u64 \<Rightarrow> u64 \<Rightarrow> psci_call" where
  "PsciCall_decode fn x1 x2 x3 =
     (let w0 = ucast fn :: u32 in
      if w0 = FN_VERSION then PsciVersion
      else if w0 = FN_MIGRATE_INFO_TYPE then MigrateInfoType
      else if w0 = FN_SYSTEM_OFF then SystemOff
      else if w0 = FN_SYSTEM_RESET then SystemReset
      else if w0 = FN64_CPU_ON then PsciCpuOn x1 x2 x3
      else NotSupported)"

datatype cpu_on_result = CpuOnSuccess | InvalidParameters | AlreadyOn | InternalFailure

definition cpu_on_return :: "cpu_on_result \<Rightarrow> u64" where
  "cpu_on_return result = (case result of
     CpuOnSuccess \<Rightarrow> 0 | InvalidParameters \<Rightarrow> - 2 | AlreadyOn \<Rightarrow> - 4 | InternalFailure \<Rightarrow> - 6)"

section \<open>The vCPU\<close>

datatype arm_exit =
    ArmMmioRead u64 "u8 list"
  | ArmMmioWrite u64 "u8 list"
  | ArmCpuOn u64 u64 u64
  | ArmInterrupted
  | ArmShutdown
  | ArmReset

datatype hvf_pending = PendingMmio mmio_access | PendingCpuOn

text \<open>Registers by their HVF number: X0 to X30, PC as 31, CPSR.\<close>

datatype hvf_reg = RegX nat | RegPC | RegCPSR

datatype hvf_reason = ReasonCanceled | ReasonException u64 u64 | ReasonOther u32

record 'k hvf_ops =
  hv_run :: "'k \<Rightarrow> 'k \<times> (error_kind + hvf_reason)"
  hv_get_reg :: "hvf_reg \<Rightarrow> 'k \<Rightarrow> error_kind + u64"
  hv_set_reg :: "hvf_reg \<Rightarrow> u64 \<Rightarrow> 'k \<Rightarrow> 'k \<times> (error_kind + unit)"
  hv_set_mpidr :: "u64 \<Rightarrow> 'k \<Rightarrow> 'k \<times> (error_kind + unit)"

record hvf_vcpu =
  hv_id :: u32
  hv_pending :: "hvf_pending option"
  hv_data :: "u8 list"
  hv_cpu_on :: cpu_on_result
  hv_os_lock :: bool

definition HvfVcpu_new :: "u32 \<Rightarrow> hvf_vcpu" where
  "HvfVcpu_new i = \<lparr>hv_id = i, hv_pending = None, hv_data = replicate 8 0, hv_cpu_on = InternalFailure, hv_os_lock = False\<rparr>"

definition hvf_x :: "'k hvf_ops \<Rightarrow> u8 \<Rightarrow> 'k \<Rightarrow> error_kind + u64" where
  "hvf_x ops n k = (if n = 31 then Inr 0 else hv_get_reg ops (RegX (unat n)) k)"

definition hvf_set_x :: "'k hvf_ops \<Rightarrow> u8 \<Rightarrow> u64 \<Rightarrow> 'k \<Rightarrow> 'k \<times> (error_kind + unit)" where
  "hvf_set_x ops n v k = (if n = 31 then (k, Inr ()) else hv_set_reg ops (RegX (unat n)) v k)"

definition advance_pc :: "'k hvf_ops \<Rightarrow> 'k \<Rightarrow> 'k \<times> (error_kind + unit)" where
  "advance_pc ops k =
     (case hv_get_reg ops RegPC k of Inl e \<Rightarrow> (k, Inl e) | Inr pc \<Rightarrow> hv_set_reg ops RegPC (pc + 4) k)"

definition hvf_unhandled :: "'k hvf_ops \<Rightarrow> u32 \<Rightarrow> string \<Rightarrow> 'k \<Rightarrow> hypervisor_error" where
  "hvf_unhandled ops i reason k =
     UnhandledExit i (reason @ (case hv_get_reg ops RegPC k of Inr pc \<Rightarrow> '' at PC '' @ lower_hex pc | Inl _ \<Rightarrow> []))"

definition finish_access :: "'k hvf_ops \<Rightarrow> hvf_vcpu \<Rightarrow> mmio_access \<Rightarrow> 'k \<Rightarrow> 'k \<times> (error_kind + unit)" where
  "finish_access ops v a k =
     (if ma_write a then advance_pc ops k
      else case hvf_set_x ops (ma_register a) (MmioAccess_extend a (from_le_bytes (hv_data v))) k of
        (k, Inl e) \<Rightarrow> (k, Inl e)
      | (k, Inr _) \<Rightarrow> advance_pc ops k)"

definition finish_pending :: "'k hvf_ops \<Rightarrow> hvf_vcpu \<times> 'k \<Rightarrow> (hvf_vcpu \<times> 'k) \<times> (error_kind + unit)" where
  "finish_pending ops vk =
     (let (v, k) = vk in
      case hv_pending v of
        None \<Rightarrow> ((v, k), Inr ())
      | Some p \<Rightarrow>
          (case (case p of PendingMmio a \<Rightarrow> finish_access ops v a k
                 | PendingCpuOn \<Rightarrow> hvf_set_x ops 0 (cpu_on_return (hv_cpu_on v)) k) of
             (k, Inl e) \<Rightarrow> ((v, k), Inl e)
           | (k, Inr _) \<Rightarrow> ((v\<lparr>hv_pending := None\<rparr>, k), Inr ())))"

definition hvf_mmio :: "'k hvf_ops \<Rightarrow> mmio_access \<Rightarrow> u64 \<Rightarrow> hvf_vcpu \<Rightarrow> 'k \<Rightarrow> hvf_vcpu \<times> (error_kind + arm_exit)" where
  "hvf_mmio ops a guest_addr v k =
     (case (if ma_write a then map_sum id (to_le_bytes 8) (hvf_x ops (ma_register a) k) else Inr (replicate 8 0)) of
        Inl e \<Rightarrow> (v, Inl e)
      | Inr data \<Rightarrow>
          (v\<lparr>hv_data := data, hv_pending := Some (PendingMmio a)\<rparr>,
           Inr (if ma_write a then ArmMmioWrite guest_addr (take (ma_len a) data)
                else ArmMmioRead guest_addr (take (ma_len a) data))))"

text \<open>The derived \<open>Debug\<close> of an access, for the message of an unhandled one.\<close>

definition debug_access :: "sys_reg_access \<Rightarrow> string" where
  "debug_access a = ''SysRegAccess { op0: '' @ decimal (sr_op0 a) @ '', op1: '' @ decimal (sr_op1 a) @ '', crn: '' @ decimal (sr_crn a)
     @ '', crm: '' @ decimal (sr_crm a) @ '', op2: '' @ decimal (sr_op2 a) @ '', register: '' @ decimal (sr_register a)
     @ '', read: '' @ (if sr_read a then ''true'' else ''false'') @ '' }''"

text \<open>What the VMM does with the bytes it was lent, and with the answer of a \<open>CPU_ON\<close>.\<close>

definition hvf_respond :: "u8 list \<Rightarrow> hvf_vcpu \<Rightarrow> hvf_vcpu" where
  "hvf_respond bytes v = v\<lparr>hv_data := bytes @ drop (length bytes) (hv_data v)\<rparr>"

definition hvf_answer_cpu_on :: "cpu_on_result \<Rightarrow> hvf_vcpu \<Rightarrow> hvf_vcpu" where
  "hvf_answer_cpu_on result v = v\<lparr>hv_cpu_on := result\<rparr>"

definition system_register ::
  "'k hvf_ops \<Rightarrow> sys_reg_access \<Rightarrow> hvf_vcpu \<times> 'k \<Rightarrow> (hvf_vcpu \<times> 'k) \<times> (hypervisor_error + unit)" where
  "system_register ops a vk =
     (let (v, k) = vk; failed = RunVcpu (hv_id v) in
      case (if sr_read a then Inr 0 else hvf_x ops (sr_register a) k) of
        Inl e \<Rightarrow> ((v, k), Inl (failed e))
      | Inr written \<Rightarrow>
          (case SysRegAccess_emulate a (hv_os_lock v) written of
             None \<Rightarrow> ((v, k), Inl (hvf_unhandled ops (hv_id v) (''system register access '' @ debug_access a) k))
           | Some (os_lock, v') \<Rightarrow>
               (let v = v\<lparr>hv_os_lock := os_lock\<rparr> in
                case (if sr_read a then hvf_set_x ops (sr_register a) v' k else (k, Inr ())) of
                  (k, Inl e) \<Rightarrow> ((v, k), Inl (failed e))
                | (k, Inr _) \<Rightarrow>
                    (case advance_pc ops k of
                       (k, Inl e) \<Rightarrow> ((v, k), Inl (failed e))
                     | (k, Inr _) \<Rightarrow> ((v, k), Inr ())))))"

definition psci_arguments :: "'k hvf_ops \<Rightarrow> 'k \<Rightarrow> error_kind + u64 \<times> u64 \<times> u64 \<times> u64" where
  "psci_arguments ops k =
     (case hvf_x ops 0 k of Inl e \<Rightarrow> Inl e | Inr x0 \<Rightarrow>
      case hvf_x ops 1 k of Inl e \<Rightarrow> Inl e | Inr x1 \<Rightarrow>
      case hvf_x ops 2 k of Inl e \<Rightarrow> Inl e | Inr x2 \<Rightarrow>
      case hvf_x ops 3 k of Inl e \<Rightarrow> Inl e | Inr x3 \<Rightarrow> Inr (x0, x1, x2, x3))"

text \<open>What a step of the run loop does: it goes on, or it returns.\<close>

datatype turn = TurnContinue | TurnReturn "hypervisor_error + arm_exit"

definition turn_of :: "(error_kind \<Rightarrow> hypervisor_error) \<Rightarrow> error_kind + unit \<Rightarrow> turn" where
  "turn_of failed r = (case r of Inl e \<Rightarrow> TurnReturn (Inl (failed e)) | Inr _ \<Rightarrow> TurnContinue)"

definition hvf_hvc :: "'k hvf_ops \<Rightarrow> hvf_vcpu \<times> 'k \<Rightarrow> (hvf_vcpu \<times> 'k) \<times> turn" where
  "hvf_hvc ops vk =
     (let (v, k) = vk; failed = RunVcpu (hv_id v);
          answer = (\<lambda>x. case hvf_set_x ops 0 x k of (k, r) \<Rightarrow> ((v, k), turn_of failed r)) in
      case psci_arguments ops k of
        Inl e \<Rightarrow> ((v, k), TurnReturn (Inl (failed e)))
      | Inr (x0, x1, x2, x3) \<Rightarrow>
          (case PsciCall_decode x0 x1 x2 x3 of
             PsciVersion \<Rightarrow> answer VERSION_0_2
           | MigrateInfoType \<Rightarrow> answer TRUSTED_OS_NOT_PRESENT
           | NotSupported \<Rightarrow> answer NOT_SUPPORTED
           | SystemOff \<Rightarrow> ((v, k), TurnReturn (Inr ArmShutdown))
           | SystemReset \<Rightarrow> ((v, k), TurnReturn (Inr ArmReset))
           | PsciCpuOn target entry context_id \<Rightarrow>
               ((v\<lparr>hv_cpu_on := InternalFailure, hv_pending := Some PendingCpuOn\<rparr>, k),
                TurnReturn (Inr (ArmCpuOn target entry context_id)))))"

definition hvf_turn :: "'k hvf_ops \<Rightarrow> hvf_vcpu \<times> 'k \<Rightarrow> (hvf_vcpu \<times> 'k) \<times> turn" where
  "hvf_turn ops vk =
     (let (v, k) = vk; failed = RunVcpu (hv_id v);
          unhandled = (\<lambda>k reason. ((v, k), TurnReturn (Inl (hvf_unhandled ops (hv_id v) reason k)))) in
      case hv_run ops k of
        (k, Inl e) \<Rightarrow> ((v, k), TurnReturn (Inl (failed e)))
      | (k, Inr ReasonCanceled) \<Rightarrow> ((v, k), TurnReturn (Inr ArmInterrupted))
      | (k, Inr (ReasonOther reason)) \<Rightarrow> unhandled k (''exit reason '' @ decimal reason)
      | (k, Inr (ReasonException esr address)) \<Rightarrow>
          (case Syndrome_decode esr of
             SynMmio a \<Rightarrow> (case hvf_mmio ops a address v k of
                 (v, Inl e) \<Rightarrow> ((v, k), TurnReturn (Inl (failed e)))
               | (v, Inr e) \<Rightarrow> ((v, k), TurnReturn (Inr e)))
           | Hvc \<Rightarrow> hvf_hvc ops (v, k)
           | SysReg a \<Rightarrow> (case system_register ops a (v, k) of
                 (vk, Inl e) \<Rightarrow> (vk, TurnReturn (Inl e))
               | (vk, Inr _) \<Rightarrow> (vk, TurnContinue))
           | Wfx \<Rightarrow> (case advance_pc ops k of (k, r) \<Rightarrow> ((v, k), turn_of failed r))
           | CacheMaintenance \<Rightarrow> (case advance_pc ops k of (k, r) \<Rightarrow> ((v, k), turn_of failed r))
           | Smc \<Rightarrow> unhandled k ''smc, while the PSCI conduit is hvc''
           | Unhandled reason \<Rightarrow> unhandled k reason))"

partial_function (option) hvf_loop ::
  "'k hvf_ops \<Rightarrow> hvf_vcpu \<times> 'k \<Rightarrow> ((hvf_vcpu \<times> 'k) \<times> (hypervisor_error + arm_exit)) option" where
  "hvf_loop ops vk =
     (case hvf_turn ops vk of
        (vk, TurnContinue) \<Rightarrow> hvf_loop ops vk
      | (vk, TurnReturn r) \<Rightarrow> Some (vk, r))"

definition HvfVcpu_run ::
  "'k hvf_ops \<Rightarrow> hvf_vcpu \<times> 'k \<Rightarrow> ((hvf_vcpu \<times> 'k) \<times> (hypervisor_error + arm_exit)) option" where
  "HvfVcpu_run ops vk =
     (case finish_pending ops vk of
        (vk, Inl e) \<Rightarrow> Some (vk, Inl (RunVcpu (hv_id (fst vk)) e))
      | (vk, Inr _) \<Rightarrow> hvf_loop ops vk)"

definition HvfVcpu_complete_pending_io ::
  "'k hvf_ops \<Rightarrow> hvf_vcpu \<times> 'k \<Rightarrow> (hvf_vcpu \<times> 'k) \<times> (hypervisor_error + unit)" where
  "HvfVcpu_complete_pending_io ops vk =
     (case finish_pending ops vk of
        (vk, Inl e) \<Rightarrow> (vk, Inl (CompletePendingIo (hv_id (fst vk)) e))
      | (vk, Inr _) \<Rightarrow> (vk, Inr ()))"

definition configure_failed :: "u32 \<Rightarrow> string \<Rightarrow> error_kind \<Rightarrow> hypervisor_error" where
  "configure_failed i operation source = ConfigureVcpu i operation source"

definition set_mpidr :: "'k hvf_ops \<Rightarrow> u64 \<Rightarrow> hvf_vcpu \<times> 'k \<Rightarrow> 'k \<times> (hypervisor_error + unit)" where
  "set_mpidr ops mpidr vk =
     (case hv_set_mpidr ops mpidr (snd vk) of
        (k, r) \<Rightarrow> (k, map_sum (configure_failed (hv_id (fst vk)) ''set MPIDR_EL1'') id r))"

record arm64_boot_registers =
  br_pc :: u64
  br_x0 :: u64
  br_pstate :: u64

fun set_registers :: "'k hvf_ops \<Rightarrow> u32 \<Rightarrow> (hvf_reg \<times> u64 \<times> string) list \<Rightarrow> 'k \<Rightarrow> 'k \<times> (hypervisor_error + unit)" where
  "set_registers ops i [] k = (k, Inr ())"
| "set_registers ops i ((reg, v, operation) # rest) k =
     (case hv_set_reg ops reg v k of
        (k, Inl e) \<Rightarrow> (k, Inl (configure_failed i operation e))
      | (k, Inr _) \<Rightarrow> set_registers ops i rest k)"

definition arm_set_boot_registers ::
  "'k hvf_ops \<Rightarrow> arm64_boot_registers \<Rightarrow> hvf_vcpu \<times> 'k \<Rightarrow> 'k \<times> (hypervisor_error + unit)" where
  "arm_set_boot_registers ops regs vk =
     set_registers ops (hv_id (fst vk))
       [(RegCPSR, br_pstate regs, ''set PSTATE''), (RegPC, br_pc regs, ''set PC''), (RegX 0, br_x0 regs, ''set X0'')] (snd vk)"

section \<open>The contract\<close>

fun arm_carries_access :: "arm_exit \<Rightarrow> bool" where
  "arm_carries_access (ArmMmioRead a bytes) \<longleftrightarrow> True"
| "arm_carries_access (ArmMmioWrite a bytes) \<longleftrightarrow> True"
| "arm_carries_access (ArmCpuOn t e c) \<longleftrightarrow> True"
| "arm_carries_access _ \<longleftrightarrow> False"

lemma finish_outcome: "finish_pending ops vk = (vk', r) \<Longrightarrow> hv_pending (fst vk') = None \<longleftrightarrow> r = Inr ()"
  by (auto simp: finish_pending_def split: prod.splits option.splits sum.splits hvf_pending.splits)

lemma finish_idle: "hv_pending (fst vk) = None \<Longrightarrow> finish_pending ops vk = (vk, Inr ())"
  by (cases vk) (simp add: finish_pending_def)

lemma hvc_lends:
  "hvf_hvc ops vk = (vk', TurnReturn (Inr e)) \<Longrightarrow> arm_carries_access e \<Longrightarrow> hv_pending (fst vk') \<noteq> None"
  by (auto simp: hvf_hvc_def Let_def turn_of_def split: prod.splits sum.splits psci_call.splits)

lemma mmio_lends: "hvf_mmio ops a addr v k = (v', Inr e) \<Longrightarrow> hv_pending v' = Some (PendingMmio a)"
  by (auto simp: hvf_mmio_def split: sum.splits if_splits)

lemma turn_lends:
  assumes "hvf_turn ops vk = (vk', TurnReturn (Inr e))" "arm_carries_access e"
  shows "hv_pending (fst vk') \<noteq> None"
proof -
  obtain v k where vk: "vk = (v, k)" by (cases vk)
  obtain k' res where res: "hv_run ops k = (k', res)" by fastforce
  then obtain reason where run: "hv_run ops k = (k', Inr reason)"
    using assms(1) by (cases res) (simp_all add: hvf_turn_def vk Let_def)
  show ?thesis
  proof (cases reason)
    case (ReasonException esr address)
    show ?thesis
    proof (cases "Syndrome_decode esr")
      case (SynMmio a)
      then show ?thesis
        using assms(1) run ReasonException by (auto simp: hvf_turn_def vk Let_def dest: mmio_lends split: prod.splits sum.splits)
    next
      case Hvc
      then show ?thesis using assms run ReasonException hvc_lends[of ops "(v, k')" vk' e] by (simp add: hvf_turn_def vk)
    qed (use assms run ReasonException in \<open>auto simp: hvf_turn_def vk turn_of_def Let_def split: prod.splits sum.splits\<close>)
  qed (use assms run in \<open>auto simp: hvf_turn_def vk Let_def\<close>)
qed

lemmas hvf_loop_induct = hvf_loop.raw_induct[rotated 1, consumes 1, case_names step]

lemma loop_lends:
  assumes "hvf_loop ops vk = Some (vk', Inr e)" "arm_carries_access e"
  shows "hv_pending (fst vk') \<noteq> None"
proof -
  have "\<forall>vk' e. r = (vk', Inr e) \<longrightarrow> arm_carries_access e \<longrightarrow> hv_pending (fst vk') \<noteq> None" if "hvf_loop ops vk = Some r" for r
    using that
  proof (induction rule: hvf_loop_induct)
    case (step loop ops vk r)
    obtain w t where turn: "hvf_turn ops vk = (w, t)" by fastforce
    show ?case
    proof (cases t)
      case TurnContinue
      then show ?thesis using step turn by auto
    next
      case (TurnReturn res)
      then show ?thesis using step turn turn_lends[of ops vk w] by auto
    qed
  qed
  then show ?thesis using assms by blast
qed

interpretation hvf_vcpu: vcpu_backend "HvfVcpu_run ops" "HvfVcpu_complete_pending_io ops"
  "\<lambda>vk. hv_pending (fst vk) \<noteq> None" arm_carries_access for ops
proof unfold_locales
  fix vk vk' e assume "HvfVcpu_run ops vk = Some (vk', Inr e)" "arm_carries_access e"
  then show "hv_pending (fst vk') \<noteq> None"
    by (auto simp: HvfVcpu_run_def dest: loop_lends split: prod.splits sum.splits)
qed (auto simp: HvfVcpu_complete_pending_io_def finish_idle dest: finish_outcome split: prod.splits sum.splits)

section \<open>Properties\<close>

lemma iss_bit: "n < 25 \<Longrightarrow> (esr AND 0x1ffffff) AND push_bit n 1 = 0 \<longleftrightarrow> \<not> bit esr n" for esr :: u64
proof -
  assume n: "n < 25"
  have m: "(0x1ffffff :: u64) = mask 25" by (simp add: mask_eq_exp_minus_1)
  have "(esr AND 0x1ffffff) AND push_bit n 1 = 0 \<longleftrightarrow> \<not> bit (esr AND 0x1ffffff) n"
    by (simp add: push_bit_of_1 and_exp_eq_0_iff_not_bit)
  then show ?thesis unfolding m using n by (simp add: bit_and_iff bit_mask_iff)
qed

lemma iss_field: "n + w \<le> 25 \<Longrightarrow> drop_bit n (esr AND 0x1ffffff) AND mask w = take_bit w (drop_bit n esr)" for esr :: u64
proof -
  assume w: "n + w \<le> 25"
  have m: "(0x1ffffff :: u64) = mask 25" by (simp add: mask_eq_exp_minus_1)
  show ?thesis
    unfolding m using w
    by (intro bit_word_eqI) (auto simp: bit_and_iff bit_mask_iff bit_drop_bit_eq bit_take_bit_iff)
qed

text \<open>The fields of a data abort's syndrome, as the Arm manual numbers its bits.\<close>

lemma data_abort_fields:
  assumes "take_bit 6 (drop_bit 26 esr) = 0x24" "bit esr 24" "\<not> bit esr 8" "\<not> bit esr 7"
  shows "Syndrome_decode esr = SynMmio \<lparr>ma_len = 2 ^ unat (take_bit 2 (drop_bit 22 esr)), ma_write = bit esr 6,
    ma_register = ucast (take_bit 5 (drop_bit 16 esr)), ma_sign_extend = bit esr 21, ma_sixty_four = bit esr 15\<rparr>"
proof -
  have ec: "drop_bit 26 esr AND 0x3f = 0x24"
    using assms(1) by (simp add: take_bit_eq_mask mask_eq_exp_minus_1)
  have decode: "Syndrome_decode esr = data_abort (esr AND 0x1ffffff)"
    by (simp add: Syndrome_decode_def Let_def ec EC_DATA_ABORT_LOWER_def)
  define iss where "iss = esr AND 0x1ffffff"
  have bits: "iss AND ISV = 0 \<longleftrightarrow> \<not> bit esr 24" "iss AND SSE = 0 \<longleftrightarrow> \<not> bit esr 21" "iss AND SF = 0 \<longleftrightarrow> \<not> bit esr 15"
      "iss AND CM = 0 \<longleftrightarrow> \<not> bit esr 8" "iss AND S1PTW = 0 \<longleftrightarrow> \<not> bit esr 7" "iss AND WNR = 0 \<longleftrightarrow> \<not> bit esr 6"
    unfolding iss_def ISV_def SSE_def SF_def CM_def S1PTW_def WNR_def by (rule iss_bit; simp)+
  have m: "mask 2 = (3 :: u64)" "mask 5 = (0x1f :: u64)" by (simp_all add: mask_eq_exp_minus_1)
  have "drop_bit 22 iss AND 3 = take_bit 2 (drop_bit 22 esr)" "drop_bit 16 iss AND 0x1f = take_bit 5 (drop_bit 16 esr)"
    using iss_field[of 22 2 esr] iss_field[of 16 5 esr] by (simp_all only: iss_def m)
  then show ?thesis
    unfolding decode iss_def[symmetric] data_abort_def using assms(2-4) bits by simp
qed

lemma access_widths: "2 ^ unat (take_bit 2 (drop_bit 22 esr)) \<in> {1, 2, 4, 8 :: nat}" for esr :: u64
proof -
  have "unat (take_bit 2 (drop_bit 22 esr)) < 4"
    using take_bit_nat_less_exp[of 2 "unat (drop_bit 22 esr)"] by (simp add: unsigned_take_bit_eq)
  then have "unat (take_bit 2 (drop_bit 22 esr)) \<in> {0, 1, 2, 3}" by auto
  then show ?thesis by (elim insertE) auto
qed

lemma bit_padded:
  assumes "length bytes = n" "n \<le> 8" "i < 64"
  shows "bit (from_le_bytes (bytes @ replicate (8 - n) 0) :: u64) i \<longleftrightarrow> i < 8 * n \<and> bit (bytes ! (i div 8)) (i mod 8)"
  using assms by (auto simp: bit_from_le_bytes nth_append less_mult_imp_div_less)

lemma extended_bits:
  assumes n: "ma_len a \<in> {1, 2, 4, 8}" and bytes: "length bytes = ma_len a" and i: "i < 64"
  shows "bit (MmioAccess_extend a (from_le_bytes (bytes @ replicate (8 - ma_len a) 0))) i \<longleftrightarrow>
    (i < 32 \<or> ma_sixty_four a) \<and>
    (if i < 8 * ma_len a then bit (bytes ! (i div 8)) (i mod 8) else ma_sign_extend a \<and> bit (last bytes) 7)"
proof -
  let ?n = "ma_len a"
  let ?raw = "from_le_bytes (bytes @ replicate (8 - ?n) 0) :: u64"
  have raw: "bit ?raw j \<longleftrightarrow> j < 8 * ?n \<and> bit (bytes ! (j div 8)) (j mod 8)" if "j < 64" for j
    using bit_padded[OF bytes _ that] n by auto
  have "bytes \<noteq> []" using n bytes by auto
  then have sign: "bit (last bytes) 7 \<longleftrightarrow> bit ?raw (8 * ?n - 1)"
    using n bytes raw[of "8 * ?n - 1"] by (auto simp: last_conv_nth)
  show ?thesis
    using raw[OF i] sign n i unfolding MmioAccess_extend_def Let_def
    by (auto simp: bit_simps)
qed

text \<open>
  C36. A load from a device, from the guest's exit to the register. The guest leaves with a data abort whose
  syndrome \<open>esr\<close> is valid (bit 24), names no cache maintenance (bit 8) and no table walk (bit 7), and is a
  load (bit 6); bits 22 to 23 are the logarithm of its width, bits 16 to 20 its register, bit 21 asks for
  sign extension and bit 15 for a 64-bit register. Then \<open>run\<close> hands out a read of that many bytes at the
  abort's address, and once the VMM has filled them in, completing the access writes, unless the register
  is 31, the zero register, exactly one value into exactly that register: the device's bytes, above them
  the sign of the last byte when sign extension was asked for and zero otherwise, and nothing above bit 31
  of a 32-bit register. It moves the PC over the instruction and leaves nothing pending.
\<close>

theorem hvf_load_exact:
  assumes run: "hv_run ops k = (k1, Inr (ReasonException esr address))" "hv_pending v = None"
    and esr: "take_bit 6 (drop_bit 26 esr) = 0x24" "bit esr 24" "\<not> bit esr 8" "\<not> bit esr 7" "\<not> bit esr 6"
    and n: "n = 2 ^ unat (take_bit 2 (drop_bit 22 esr))" and bytes: "length bytes = n"
    and register: "register = unat (take_bit 5 (drop_bit 16 esr))"
  shows "\<exists>v1 w. HvfVcpu_run ops (v, k) = Some ((v1, k1), Inr (ArmMmioRead address (replicate n 0))) \<and>
    (\<forall>i<64. bit w i \<longleftrightarrow> (i < 32 \<or> bit esr 15) \<and>
       (if i < 8 * n then bit (bytes ! (i div 8)) (i mod 8) else bit esr 21 \<and> bit (last bytes) 7)) \<and>
    (\<forall>k2 pc k3. (if register = 31 then (k1, Inr ()) else hv_set_reg ops (RegX register) w k1) = (k2, Inr ()) \<and>
       hv_get_reg ops RegPC k2 = Inr pc \<and> hv_set_reg ops RegPC (pc + 4) k2 = (k3, Inr ()) \<longrightarrow>
       HvfVcpu_complete_pending_io ops (hvf_respond bytes v1, k1) =
         (((hvf_respond bytes v1)\<lparr>hv_pending := None\<rparr>, k3), Inr ()))"
proof -
  define a where "a = \<lparr>ma_len = n, ma_write = False, ma_register = ucast (take_bit 5 (drop_bit 16 esr)),
    ma_sign_extend = bit esr 21, ma_sixty_four = bit esr 15\<rparr>"
  have decoded: "Syndrome_decode esr = SynMmio a"
    using data_abort_fields[OF esr(1-4)] esr(5) by (simp add: a_def n)
  have len: "ma_len a = n" "ma_len a \<in> {1, 2, 4, 8}" using access_widths[of esr] by (simp_all add: a_def n)
  have reg: "unat (ma_register a) = register"
    by (simp add: a_def register unsigned_ucast_eq unsigned_take_bit_eq)
  then have zero: "ma_register a = 31 \<longleftrightarrow> register = 31" by (simp add: word_unat_eq_iff)
  let ?v1 = "v\<lparr>hv_data := replicate 8 0, hv_pending := Some (PendingMmio a)\<rparr>"
  let ?w = "MmioAccess_extend a (from_le_bytes (bytes @ replicate (8 - n) 0))"
  have "min n 8 = n" using len by auto
  then have "hvf_turn ops (v, k) = ((?v1, k1), TurnReturn (Inr (ArmMmioRead address (replicate n 0))))"
    using len by (simp add: hvf_turn_def run decoded hvf_mmio_def a_def)
  then have "HvfVcpu_run ops (v, k) = Some ((?v1, k1), Inr (ArmMmioRead address (replicate n 0)))"
    using finish_idle[of "(v, k)" ops] run(2) by (simp add: HvfVcpu_run_def hvf_loop.simps)
  moreover have "\<forall>i<64. bit ?w i \<longleftrightarrow> (i < 32 \<or> bit esr 15) \<and>
       (if i < 8 * n then bit (bytes ! (i div 8)) (i mod 8) else bit esr 21 \<and> bit (last bytes) 7)"
    using extended_bits[OF len(2), of bytes] bytes by (simp add: a_def)
  moreover have "HvfVcpu_complete_pending_io ops (hvf_respond bytes ?v1, k1) =
         (((hvf_respond bytes ?v1)\<lparr>hv_pending := None\<rparr>, k3), Inr ())"
    if "(if register = 31 then (k1, Inr ()) else hv_set_reg ops (RegX register) ?w k1) = (k2, Inr ())"
      "hv_get_reg ops RegPC k2 = Inr pc" "hv_set_reg ops RegPC (pc + 4) k2 = (k3, Inr ())" for k2 pc k3
  proof -
    have load: "\<not> ma_write a" by (simp add: a_def)
    have data: "hv_data (hvf_respond bytes ?v1) = bytes @ replicate (8 - n) 0"
      "hv_pending (hvf_respond bytes ?v1) = Some (PendingMmio a)"
      using bytes by (simp_all add: hvf_respond_def drop_replicate)
    have "finish_access ops (hvf_respond bytes ?v1) a k1 = (k3, Inr ())"
      using that load by (cases "register = 31") (simp_all add: finish_access_def data hvf_set_x_def reg zero advance_pc_def)
    then show ?thesis by (simp add: HvfVcpu_complete_pending_io_def finish_pending_def data)
  qed
  ultimately show ?thesis by blast
qed

text \<open>
  C37. An access is finished once: completing it and then running the guest is running the guest, completing
  twice is completing once, and a failed completion leaves it to be finished.
\<close>

theorem hvf_access_once:
  assumes "HvfVcpu_complete_pending_io ops vk = (vk', r)"
  shows "(r = Inr () \<longrightarrow> HvfVcpu_run ops vk' = HvfVcpu_run ops vk \<and> HvfVcpu_complete_pending_io ops vk' = (vk', Inr ())) \<and>
    (r \<noteq> Inr () \<longrightarrow> hv_pending (fst vk') = hv_pending (fst vk) \<and> hv_data (fst vk') = hv_data (fst vk) \<and> hv_pending (fst vk) \<noteq> None)"
proof (intro conjI impI)
  assume r: "r = Inr ()"
  have "finish_pending ops vk = (vk', Inr ())"
    using assms r by (auto simp: HvfVcpu_complete_pending_io_def split: prod.splits sum.splits)
  moreover from this have "finish_pending ops vk' = (vk', Inr ())" by (intro finish_idle) (simp add: finish_outcome)
  ultimately show "HvfVcpu_run ops vk' = HvfVcpu_run ops vk" by (simp add: HvfVcpu_run_def)
  show "HvfVcpu_complete_pending_io ops vk' = (vk', Inr ())"
    using hvf_vcpu.completes_once[of ops vk vk'] assms r by simp
next
  assume r: "r \<noteq> Inr ()"
  then show "hv_pending (fst vk) \<noteq> None"
    using hvf_vcpu.complete_fails_pending[of ops vk vk'] assms by (cases r) auto
  show "hv_pending (fst vk') = hv_pending (fst vk)" "hv_data (fst vk') = hv_data (fst vk)"
    using r assms by (auto simp: HvfVcpu_complete_pending_io_def finish_pending_def
        split: prod.splits sum.splits option.splits hvf_pending.splits)
qed

text \<open>A sign-extending load of one byte into X3, on registers kept as a function.\<close>

definition byte_load :: mmio_access where
  "byte_load = \<lparr>ma_len = 1, ma_write = False, ma_register = 3, ma_sign_extend = True, ma_sixty_four = True\<rparr>"

lemma byte_load_decodes: "Syndrome_decode 0x91238000 = SynMmio byte_load"
  by (simp add: Syndrome_decode_def data_abort_def byte_load_def Let_def EC_DATA_ABORT_LOWER_def CM_def ISV_def S1PTW_def
      WNR_def SSE_def SF_def)

definition register_file :: "(hvf_reg \<Rightarrow> u64) hvf_ops" where
  "register_file = \<lparr>hv_run = (\<lambda>k. (k, Inr ReasonCanceled)), hv_get_reg = (\<lambda>r k. Inr (k r)),
     hv_set_reg = (\<lambda>r v k. (k(r := v), Inr ())), hv_set_mpidr = (\<lambda>_ k. (k, Inr ()))\<rparr>"

theorem hvf_load_exact_witness:
  "\<exists>v1 w. HvfVcpu_run (register_file\<lparr>hv_run := \<lambda>k. (k, Inr (ReasonException 0x91238000 0xd0000000))\<rparr>)
       (HvfVcpu_new 0, \<lambda>_. 0) = Some ((v1, \<lambda>_. 0), Inr (ArmMmioRead 0xd0000000 [0])) \<and> bit w 63 \<and>
     HvfVcpu_complete_pending_io (register_file\<lparr>hv_run := \<lambda>k. (k, Inr (ReasonException 0x91238000 0xd0000000))\<rparr>)
       (hvf_respond [0x80] v1, \<lambda>_. 0) =
       (((hvf_respond [0x80] v1)\<lparr>hv_pending := None\<rparr>, (\<lambda>_. 0)(RegX 3 := w, RegPC := 4)), Inr ())"
proof -
  let ?ops = "register_file\<lparr>hv_run := \<lambda>k. (k, Inr (ReasonException 0x91238000 0xd0000000))\<rparr>"
  have start: "hv_run ?ops (\<lambda>_. 0) = ((\<lambda>_. 0), Inr (ReasonException 0x91238000 0xd0000000))"
    "hv_pending (HvfVcpu_new 0) = None" by (simp_all add: HvfVcpu_new_def)
  have "take_bit 6 (drop_bit 26 (0x91238000 :: u64)) = 0x24" "bit (0x91238000 :: u64) 24"
    "\<not> bit (0x91238000 :: u64) 8" "\<not> bit (0x91238000 :: u64) 7" "\<not> bit (0x91238000 :: u64) 6"
    "1 = (2 :: nat) ^ unat (take_bit 2 (drop_bit 22 (0x91238000 :: u64)))" "length [0x80 :: u8] = 1"
    "3 = unat (take_bit 5 (drop_bit 16 (0x91238000 :: u64)))"
    by simp_all
  note load = hvf_load_exact[OF start this]
  from load obtain v1 w where
    "HvfVcpu_run ?ops (HvfVcpu_new 0, \<lambda>_. 0) = Some ((v1, \<lambda>_. 0), Inr (ArmMmioRead 0xd0000000 (replicate 1 0)))"
    and w: "\<forall>i<64. bit w i \<longleftrightarrow> (i < 32 \<or> bit (0x91238000 :: u64) 15) \<and>
      (if i < 8 * 1 then bit ([0x80 :: u8] ! (i div 8)) (i mod 8) else bit (0x91238000 :: u64) 21 \<and> bit (last [0x80 :: u8]) 7)"
    and "\<forall>k2 pc k3. (if (3 :: nat) = 31 then ((\<lambda>_. 0), Inr ()) else hv_set_reg ?ops (RegX 3) w (\<lambda>_. 0)) = (k2, Inr ()) \<and>
       hv_get_reg ?ops RegPC k2 = Inr pc \<and> hv_set_reg ?ops RegPC (pc + 4) k2 = (k3, Inr ()) \<longrightarrow>
       HvfVcpu_complete_pending_io ?ops (hvf_respond [0x80] v1, \<lambda>_. 0) =
         (((hvf_respond [0x80] v1)\<lparr>hv_pending := None\<rparr>, k3), Inr ())"
    by blast
  moreover have "bit w 63" using w by simp
  ultimately show ?thesis by (intro exI[of _ v1] exI[of _ w]) (simp add: register_file_def)
qed

definition loading_vcpu :: hvf_vcpu where
  "loading_vcpu = (hvf_respond [0x80] (HvfVcpu_new 0))\<lparr>hv_pending := Some (PendingMmio byte_load)\<rparr>"

lemma loading_completes:
  "HvfVcpu_complete_pending_io register_file (loading_vcpu, \<lambda>_. 0) =
     ((loading_vcpu\<lparr>hv_pending := None\<rparr>, (\<lambda>_. 0)(RegX 3 := MmioAccess_extend byte_load (from_le_bytes (hv_data loading_vcpu)), RegPC := 4)), Inr ())"
  by (simp add: HvfVcpu_complete_pending_io_def finish_pending_def loading_vcpu_def finish_access_def
      byte_load_def hvf_set_x_def register_file_def advance_pc_def)

theorem hvf_access_once_witness:
  "\<exists>vk. HvfVcpu_complete_pending_io register_file (loading_vcpu, \<lambda>_. 0) = (vk, Inr ()) \<and>
     snd vk RegPC = 4 \<and> HvfVcpu_complete_pending_io register_file vk = (vk, Inr ())"
proof (rule exI, intro conjI)
  show "HvfVcpu_complete_pending_io register_file (loading_vcpu\<lparr>hv_pending := None\<rparr>,
      (\<lambda>_. 0)(RegX 3 := MmioAccess_extend byte_load (from_le_bytes (hv_data loading_vcpu)), RegPC := 4)) =
    ((loading_vcpu\<lparr>hv_pending := None\<rparr>,
      (\<lambda>_. 0)(RegX 3 := MmioAccess_extend byte_load (from_le_bytes (hv_data loading_vcpu)), RegPC := 4)), Inr ())"
    using hvf_access_once[OF loading_completes] by simp
qed (simp_all add: loading_completes)

end
