(* ===== verification/Spec2Isabelle.thy ===== *)
theory Spec2Isabelle
  imports Worker Vsock Blk Box_State Vm Cpu_Features Exec_Signals Hvf_Vcpu
begin

text \<open>
  A verification library for BoxLite, a runtime that gives each container a micro-VM of its own.

  \<^bold>\<open>The program.\<close> BoxLite has three Rust programs that meet in one box. On the host, the runtime
  (\<open>src/src/boxlite\<close>) keeps a row per box in a database and starts a shim process for it. The shim runs
  the virtual machine monitor (\<open>src/src/vmm\<close> over \<open>src/src/hypervisor\<close>), which builds guest RAM, boots a
  kernel in it and serves its devices. In the guest, the agent (\<open>src/src/guest\<close>) starts the container's
  processes, collects their exits and serves their output. This library models the monitor, the
  lifecycle row of the host and the execution service of the agent.

  Inside the monitor a vCPU thread exits to the bus, the bus finds the device whose range holds the
  address, and a virtio-mmio transport turns register writes into the activation of a device. An
  activated device has a slot in the worker runtime. Its worker drains the virtqueues in guest memory,
  hands the requests to a backend (a disk image, host sockets, the console, \<open>madvise\<close>), completes the
  descriptors and raises the interrupt line. A reset or the end of the VM stops the worker first,
  because after it the guest may reuse the memory.

  \<^bold>\<open>Conventions.\<close> The shared vocabulary is in \<open>Prelude\<close>: machine integers are words of the width the
  code has, checked and saturating operations are written out, results are sums with the error on the
  left. A struct is a record, an enum a datatype with the same constructors; a function that mutates
  \<open>self\<close> takes and returns the record. Code outside the repository (the kernel, crates such as
  \<open>vm_memory\<close>, \<open>virtio_queue\<close>, \<open>vm-superio\<close>, \<open>imago\<close>, tokio) is an argument of the definitions that use
  it; what a theorem needs of such an argument is a named hypothesis and its witness instantiates it.
  Threads and tasks are step relations whose steps are the code's critical sections, so that a theorem
  about reachable states is about every interleaving. Proof collections of a theory are declared where
  its operations are.

  \<^bold>\<open>Theories of the monitor\<close> (sources under \<open>src/src/vmm/src\<close> unless another crate is named).

  \<^item> \<open>Vmm_Error\<close>: \<open>error.rs\<close>, with the errors of the interrupt chip and the chipset.
  \<^item> \<open>Irq\<close>: \<open>irq.rs\<close>, the level of a line, \<open>pulse\<close> and \<open>drop\<close>.
  \<^item> \<open>Ordered_Map\<close>: what the code uses of \<open>BTreeMap\<close>, as a locale, with association lists in key order.
  \<^item> \<open>Bus\<close>: \<open>bus.rs\<close>, ranges, insertion, routing of reads and writes. \<open>Chipset\<close>: \<open>chipset.rs\<close>, claims of
    ports, memory and lines, conflicts, the arming of the interrupt chip, \<open>Buses::dispatch\<close>.
  \<^item> \<open>Virtio\<close>: \<open>virtio/mod.rs\<close> and \<open>virtio/interrupt.rs\<close>. \<open>Virt_Queues\<close>: \<open>virtio/queue.rs\<close>, with
    \<open>Drain_Invariant\<close> for what a drain keeps. \<open>Guest_Memory\<close>: memory and chain readers as parameters.
  \<^item> \<open>Mmio\<close>: \<open>virtio/mmio.rs\<close>, register file, status machine, activation, reset, configuration space.
  \<^item> \<open>Worker\<close>: \<open>virtio/worker/\<close>, phases, generations, kicks and stops of a slot under interleaving.
  \<^item> \<open>Vsock_Packet\<close>, \<open>Vsock_Connection\<close>, \<open>Vsock_Backend\<close>, \<open>Vsock\<close>: \<open>virtio/vsock/\<close>, from headers and
    buffers over one stream flow and the host's side to the device.
  \<^item> \<open>Blk_Request\<close>, \<open>Blk\<close>: \<open>virtio/blk/\<close>, parsing and result targets, the device over any backend.
  \<^item> \<open>Machine\<close>: \<open>config.rs\<close> and the layout of \<open>memory.rs\<close>. \<open>Kvm_Memory\<close>: the slot table of
    \<open>src/src/hypervisor/src/kvm/memory.rs\<close>. \<open>Guest_Ram\<close>: the registrations of \<open>memory.rs\<close>.
  \<^item> \<open>Kvm_Vcpu\<close>: the contract of a vCPU (\<open>src/src/hypervisor/src/vcpu.rs\<close>), the exits, pending accesses and
    kicks of \<open>kvm/vcpu.rs\<close> and \<open>kvm/kick.rs\<close>. \<open>Hvf_Vcpu\<close>: the same contract on macOS,
    \<open>hvf/vcpu.rs\<close>, \<open>hvf/syndrome.rs\<close> and \<open>hvf/psci.rs\<close>.
  \<^item> \<open>Balloon\<close>, \<open>Console\<close>, \<open>Virtio_Console\<close>: \<open>devices/balloon.rs\<close>, \<open>devices/console.rs\<close>,
    \<open>devices/virtio_console.rs\<close>. \<open>Platform\<close>: \<open>devices/x86_64.rs\<close>, \<open>devices/mod.rs\<close>, the legacy devices
    and the placement of all devices on the buses.
  \<^item> \<open>Boot_Tables\<close>, \<open>Boot_Data\<close>, \<open>Boot\<close>: \<open>boot/\<close>, page tables and entry registers, zero page, E820 map,
    MP table and initramfs, and their composition. \<open>Cpu_Features\<close>: \<open>cpu_features.rs\<close>.
  \<^item> \<open>Vcpus\<close>: \<open>vcpu.rs\<close> and \<open>events.rs\<close>, workers, start gate, stop latch, kicks and joins.
    \<open>Vm\<close>: \<open>vm.rs\<close>, construction, run and drop over the parts above.

  \<^bold>\<open>Theories of the host and the guest.\<close>

  \<^item> \<open>Box_State\<close>: \<open>src/src/boxlite/src/litebox/state.rs\<close>, and the writes of the row in
    \<open>runtime/rt_impl.rs\<close>, \<open>litebox/box_impl.rs\<close> and \<open>db/boxes.rs\<close>.
  \<^item> \<open>Exec_Output\<close>: \<open>src/src/guest/src/service/exec/output.rs\<close>, the bounded buffer between the drain
    tasks and the attached client. \<open>Exec_Registry\<close>: \<open>service/exec/registry.rs\<close>, reservation, publication,
    retention and shutdown. \<open>Reaper\<close>: \<open>src/src/guest/src/reaper.rs\<close>, the exits of child processes.
    \<open>Exec_State\<close>: \<open>service/exec/state.rs\<close>, \<open>process_instance.rs\<close>, \<open>timeout.rs\<close> and \<open>error.rs\<close>, the tasks,
    exit and release of one execution. \<open>Exec_Signals\<close>: its signals, one system call a step, from API calls
    and the timeout watcher at once.

  \<^bold>\<open>What is shown.\<close>

  \<^item> Address spaces: the bus routes an access to the device whose range holds all of it and to no
    other; the chipset builds if and only if the claims are free; every device of a valid configuration
    fits; the identity page tables map each address to itself; the boot data do not overwrite one another
    and the entry registers point at them; the E820 map lists RAM and nothing else.
  \<^item> Virtio: the accepted features are a subset of the offered ones, queue registers are frozen once
    the driver is ready, activation happens in the order the specification asks for, and a reset leaves
    the transport as new, but only after the worker is quiet; a worker that does not stop keeps its device
    from being reset. A worker delivers an event only in the
    generation it was taken in. A drain terminates for every ring content, and no descriptor is lost or
    completed twice.
  \<^item> Devices: block requests stay in the disk's bounds and results in the descriptor the guest gave; a
    vsock flow carries the bytes in order in both directions, never beyond the peer's credit, within
    fixed tables; a balloon gives back only reported RAM; the console accounts for each byte.
  \<^item> vCPUs: what a KVM exit lends to the monitor are the bytes of the one access it names, inside the shared
    page; a load writes exactly the device's bytes, extended as the instruction says, into the register it
    encodes; a handled access is finished once, and one whose completion fails stays pending; kicks neither
    get lost nor pile up.
  \<^item> The VM: a vCPU enters the guest only when all are configured and none has failed; once the stop latch
    is set it enters at most once more, when it had already passed its check; the first event decides the result, the run returns once stopped, and RAM is freed only after every mapping is gone,
    on every error path of the construction.
  \<^item> The box: a recorded start time belongs to the recorded process; what recovery writes is true of the
    processes it found; a box paused at a reboot, against the code's intent, is neither reset nor recovered.
  \<^item> The agent: an attached client gets the output of its process in order, with exactly the evicted
    chunks missing, and its end; every published execution is accounted for; identifiers, tombstones and
    retained results stay within their limits; an exit reaches the owner of its process and no other, and
    its action runs at most once, as long as process identifiers are recycled in order (\<open>all_orderly\<close>), and a
    run shows that an identifier recycled during a spawn hands the new owner the old exit; a signal is aimed
    at the spawned process only after a dated check of its identity; a release leaves no
    task behind but those of a call in flight, among them, against the code's intent, a forwarder that a
    racing attach displaced. That the future of a call is dropped halfway is not modelled.

  \<^bold>\<open>Interfaces.\<close> \<open>ordered_map\<close> and its extension \<open>range_table\<close> state what the bus relies on of the tree map;
  \<open>btree\<close> and \<open>bus_table\<close> interpret them on the model's tables. \<open>worker_typestate\<close> is the contract between
  transport and worker runtime; \<open>slot_typestate\<close> interprets it on the slot of \<open>Worker\<close>. \<open>vm_memory\<close> is the
  contract of the hypervisor's memory calls; \<open>kvm\<close> interprets it on the slot table. \<open>vcpu_backend\<close> is the contract of
  a vCPU with a pending access; \<open>kvm_vcpu\<close> and \<open>hvf_vcpu\<close> interpret it on the two backends. \<open>bus_device\<close> and
  \<open>config_space\<close> state what a device on a bus and a configuration space promise; the three devices with a
  configuration space interpret them.

  \<^bold>\<open>Recursion and bounds.\<close> The loops over a virtqueue (\<open>drain_chains\<close>, \<open>completion_loop\<close>) and the
  run loop of an HVF vCPU (\<open>hvf_loop\<close>), which ends when the guest gives it an exit, are partial functions
  into \<open>option\<close>, since the guest owns the ring and a backend may complete requests as they come;
  \<open>drain_returns\<close> shows that a drain returns when the driver makes finitely many chains available. The run
  of a VM is a relation; \<open>run_returns\<close> bounds its length by a weight of the threads' phases. An attached reader's turns are bounded in \<open>attach_ends\<close> by the history it still has
  to read and its three closing turns. Word arithmetic keeps the width of the code; bounds such as fewer
  than \<open>2 ^ 64\<close> chunks pushed are hypotheses where a counter of the code could wrap only after them.

  \<^bold>\<open>Not modelled.\<close>

  \<^item> Host and kernel calls, and crates: they are parameters. This includes the creation of a VM and its
    vCPUs and the setting of their registers (\<open>src/src/hypervisor\<close>), the parsers of disk images, the UART
    and keyboard controller of \<open>vm-superio\<close>, and the ELF loader.
  \<^item> \<open>devices/net.rs\<close>, which no VM of this commit contains.
  \<^item> Of the runtime: images and their store, root file systems, disks, the sandbox jailer, networking over
    gvproxy, the start-up pipeline and its watcher, options and the remote client. They move files,
    processes and messages between external programs; the row they leave behind is in \<open>Box_State\<close>.
  \<^item> Of the agent: container start-up, mounts, file transfer and the ssh bridge, which are Linux calls and
    crates.
  \<^item> The command line, the shim's process set-up, the SDKs and the vendored native libraries.
\<close>

end
